(* ===== verification/Prelude.thy ===== *)
theory Prelude
  imports "HOL-Library.Word"
begin

text \<open>
  Shared vocabulary of the development: the machine integers of the code, the outcome of a
  fallible Rust function (a value, an error value, or a panic), programs over a state that
  may fail, panic or not return, byte buffers with positioned reads and writes, little-endian
  integers, and the sorted lists that page contents are compared with.
\<close>

section \<open>Types\<close>

type_synonym u8 = "8 word"
type_synonym u16 = "16 word"
type_synonym u32 = "32 word"
type_synonym u64 = "64 word"

type_synonym byte = u8
type_synonym page = "byte list"

named_theorems page_simps \<open>reads over writes in a byte buffer\<close>
named_theorems run_simps \<open>symbolic execution of programs\<close>

section \<open>Outcomes\<close>

text \<open>
  A Rust function of type \<open>Result<T, E>\<close> returns \<open>Ok\<close> or \<open>Err\<close>, or it panics (an out of
  range slice, an \<open>unwrap\<close>, an \<open>expect\<close> or an \<open>assert!\<close>).
\<close>

datatype ('e, 'a) outcome = Ok 'a | Err 'e | Panic

fun bind_ok :: "('e, 'a) outcome \<Rightarrow> ('a \<Rightarrow> ('e, 'b) outcome) \<Rightarrow> ('e, 'b) outcome" where
  "bind_ok (Ok a) f = f a"
| "bind_ok (Err e) f = Err e"
| "bind_ok Panic f = Panic"

fun map_err :: "('e \<Rightarrow> 'f) \<Rightarrow> ('e, 'a) outcome \<Rightarrow> ('f, 'a) outcome" where
  "map_err g (Ok a) = Ok a"
| "map_err g (Err e) = Err (g e)"
| "map_err g Panic = Panic"

fun map_outcome :: "('a \<Rightarrow> 'b) \<Rightarrow> ('e, 'a) outcome \<Rightarrow> ('e, 'b) outcome" where
  "map_outcome g (Ok a) = Ok (g a)"
| "map_outcome g (Err e) = Err e"
| "map_outcome g Panic = Panic"

text \<open>\<open>Result::unwrap\<close> and \<open>Result::expect\<close>.\<close>

fun unwrap :: "('e, 'a) outcome \<Rightarrow> ('f, 'a) outcome" where
  "unwrap (Ok a) = Ok a"
| "unwrap (Err e) = Panic"
| "unwrap Panic = Panic"

text \<open>A loop that pushes the result of each step to a vector and stops at the first error.\<close>

fun traverse :: "('a \<Rightarrow> ('e, 'b) outcome) \<Rightarrow> 'a list \<Rightarrow> ('e, 'b list) outcome" where
  "traverse f [] = Ok []"
| "traverse f (x # xs) = bind_ok (f x) (\<lambda>y. bind_ok (traverse f xs) (\<lambda>ys. Ok (y # ys)))"

text \<open>A loop that changes one value and stops at the first error.\<close>

fun fold_ok :: "('a \<Rightarrow> 'b \<Rightarrow> ('e, 'b) outcome) \<Rightarrow> 'a list \<Rightarrow> 'b \<Rightarrow> ('e, 'b) outcome" where
  "fold_ok f [] b = Ok b"
| "fold_ok f (x # xs) b = bind_ok (f x b) (fold_ok f xs)"

lemma traverse_Ok: "(\<And>x. x \<in> set xs \<Longrightarrow> f x = Ok (g x)) \<Longrightarrow> traverse f xs = Ok (map g xs)"
  by (induction xs) simp_all

lemma bind_ok_Ok_iff [simp]: "bind_ok m f = Ok b \<longleftrightarrow> (\<exists>a. m = Ok a \<and> f a = Ok b)"
  by (cases m) auto

lemma bind_ok_Err_iff: "bind_ok m f = Err e \<longleftrightarrow> m = Err e \<or> (\<exists>a. m = Ok a \<and> f a = Err e)"
  by (cases m) auto

lemma unwrap_Ok_iff [simp]: "unwrap m = Ok a \<longleftrightarrow> m = Ok a"
  by (cases m) auto

lemma map_err_Ok_iff [simp]: "map_err g m = Ok a \<longleftrightarrow> m = Ok a"
  by (cases m) auto

section \<open>Programs over a state\<close>

text \<open>
  An operation that takes \<open>&self\<close> with interior mutability, or \<open>&mut self\<close>, is a function
  from the state to its outcome and the state it leaves. A failing operation keeps the changes
  it made before it failed. \<open>None\<close> is an operation that does not return.
\<close>

type_synonym ('s, 'e, 'a) prog = "'s \<Rightarrow> (('e, 'a) outcome \<times> 's) option"

definition ret :: "'a \<Rightarrow> ('s, 'e, 'a) prog" where
  "ret a s = Some (Ok a, s)"

definition fail :: "'e \<Rightarrow> ('s, 'e, 'a) prog" where
  "fail e s = Some (Err e, s)"

definition lift :: "('e, 'a) outcome \<Rightarrow> ('s, 'e, 'a) prog" where
  "lift m s = Some (m, s)"

definition gets :: "('s \<Rightarrow> 'a) \<Rightarrow> ('s, 'e, 'a) prog" where
  "gets f s = Some (Ok (f s), s)"

definition modify :: "('s \<Rightarrow> 's) \<Rightarrow> ('s, 'e, unit) prog" where
  "modify f s = Some (Ok (), f s)"

definition pbind :: "('s, 'e, 'a) prog \<Rightarrow> ('a \<Rightarrow> ('s, 'e, 'b) prog) \<Rightarrow> ('s, 'e, 'b) prog" where
  "pbind m f s = (case m s of
       None \<Rightarrow> None
     | Some (Ok a, s') \<Rightarrow> f a s'
     | Some (Err e, s') \<Rightarrow> Some (Err e, s')
     | Some (Panic, s') \<Rightarrow> Some (Panic, s'))"

lemma pbind_Ok [run_simps]: "m s = Some (Ok a, s') \<Longrightarrow> pbind m f s = f a s'"
  by (simp add: pbind_def)

lemma pbind_Err [run_simps]: "m s = Some (Err e, s') \<Longrightarrow> pbind m f s = Some (Err e, s')"
  by (simp add: pbind_def)

lemma pbind_Panic [run_simps]: "m s = Some (Panic, s') \<Longrightarrow> pbind m f s = Some (Panic, s')"
  by (simp add: pbind_def)

lemma pbind_None [run_simps]: "m s = None \<Longrightarrow> pbind m f s = None"
  by (simp add: pbind_def)

lemma basic_run [run_simps]:
  "ret a s = Some (Ok a, s)" "fail e s = Some (Err e, s)" "lift m s = Some (m, s)"
  "gets g s = Some (Ok (g s), s)" "modify h s = Some (Ok (), h s)"
  by (simp_all add: ret_def fail_def lift_def gets_def modify_def)

lemma pbind_basic [run_simps, simp]:
  "pbind (ret a) f s = f a s"
  "pbind (fail e) f2 s = Some (Err e, s)"
  "pbind (gets g) f3 s = f3 (g s) s"
  "pbind (modify h) f4 s = f4 () (h s)"
  "pbind (lift (Ok a)) f s = f a s"
  "pbind (lift (Err e)) f s = Some (Err e, s)"
  "pbind (lift Panic) f s = Some (Panic, s)"
  by (simp_all add: pbind_def ret_def fail_def gets_def modify_def lift_def)

section \<open>Serving requests\<close>

text \<open>
  A component seen by its clients: a step function from a request and a state to an answer and
  the next state, run over a sequence of requests. Two components agree on every sequence when
  one request keeps them related by an abstraction function.
\<close>

fun serve_all :: "('r \<Rightarrow> 's \<Rightarrow> 'a \<times> 's) \<Rightarrow> 'r list \<Rightarrow> 's \<Rightarrow> 'a list \<times> 's" where
  "serve_all step [] s = ([], s)"
| "serve_all step (r # rs) s =
     (let (a, s') = step r s; (as, s'') = serve_all step rs s' in (a # as, s''))"

lemma serve_all_refines:
  assumes "\<And>r s. I s \<Longrightarrow> J r \<Longrightarrow> astep r (view s) = (fst (step r s), view (snd (step r s)))"
    and "\<And>r s. I s \<Longrightarrow> J r \<Longrightarrow> I (snd (step r s))"
    and "I s" "\<forall>r\<in>set rs. J r"
  shows "serve_all astep rs (view s) = (fst (serve_all step rs s), view (snd (serve_all step rs s))) \<and>
    I (snd (serve_all step rs s))"
  using assms(3,4)
proof (induction rs arbitrary: s)
  case (Cons r rs)
  obtain a s' where st: "step r s = (a, s')" by (cases "step r s")
  with Cons.prems assms(1,2) [of s r] have "astep r (view s) = (a, view s')" "I s'" by simp_all
  with Cons.IH [of s'] Cons.prems st show ?case by (auto split: prod.split)
qed simp

section \<open>Byte buffers\<close>

definition bytes_at :: "nat \<Rightarrow> nat \<Rightarrow> byte list \<Rightarrow> byte list" where
  "bytes_at off n bs = take n (drop off bs)"

definition put_at :: "nat \<Rightarrow> byte list \<Rightarrow> byte list \<Rightarrow> byte list" where
  "put_at off xs bs = take off bs @ xs @ drop (off + length xs) bs"

lemma length_bytes_at [simp]: "off + n \<le> length bs \<Longrightarrow> length (bytes_at off n bs) = n"
  by (simp add: bytes_at_def)

lemma length_put_at [simp]: "off + length xs \<le> length bs \<Longrightarrow> length (put_at off xs bs) = length bs"
  by (simp add: put_at_def)

lemma nth_bytes_at: "i < n \<Longrightarrow> off + n \<le> length bs \<Longrightarrow> bytes_at off n bs ! i = bs ! (off + i)"
  by (simp add: bytes_at_def)

lemma nth_put_at: "off + length xs \<le> length bs \<Longrightarrow> i < length bs \<Longrightarrow>
    put_at off xs bs ! i = (if off \<le> i \<and> i < off + length xs then xs ! (i - off) else bs ! i)"
  by (auto simp: put_at_def nth_append)

lemma bytes_at_put_same [simp, page_simps]:
  "off + length xs \<le> length bs \<Longrightarrow> n = length xs \<Longrightarrow> bytes_at off n (put_at off xs bs) = xs"
  by (simp add: bytes_at_def put_at_def)

lemma bytes_at_put_before [page_simps]:
  "off + n \<le> d \<Longrightarrow> d + length xs \<le> length bs \<Longrightarrow> bytes_at off n (put_at d xs bs) = bytes_at off n bs"
  by (rule nth_equalityI) (auto simp: nth_bytes_at nth_put_at)

lemma bytes_at_put_after [page_simps]:
  "d + length xs \<le> off \<Longrightarrow> off + n \<le> length bs \<Longrightarrow> bytes_at off n (put_at d xs bs) = bytes_at off n bs"
  by (rule nth_equalityI) (auto simp: nth_bytes_at nth_put_at)

lemma bytes_at_put_inside [page_simps]:
  "d \<le> off \<Longrightarrow> off + n \<le> d + length xs \<Longrightarrow> d + length xs \<le> length bs \<Longrightarrow>
   bytes_at off n (put_at d xs bs) = bytes_at (off - d) n xs"
  by (rule nth_equalityI) (auto simp: nth_bytes_at nth_put_at)

lemma bytes_at_bytes_at [page_simps]:
  "a + n \<le> m \<Longrightarrow> b + m \<le> length bs \<Longrightarrow> bytes_at a n (bytes_at b m bs) = bytes_at (b + a) n bs"
  by (rule nth_equalityI) (auto simp: nth_bytes_at add.assoc)

lemma put_at_bytes_at_id: "off + n \<le> length bs \<Longrightarrow> put_at off (bytes_at off n bs) bs = bs"
  by (rule nth_equalityI) (auto simp: nth_bytes_at nth_put_at)

lemma put_at_put_same:
  "off + length xs \<le> length bs \<Longrightarrow> length ys = length xs \<Longrightarrow>
   put_at off xs (put_at off ys bs) = put_at off xs bs"
  by (rule nth_equalityI) (auto simp: nth_put_at)

lemma bytes_at_cong_all: "length bs = length cs \<Longrightarrow> bytes_at 0 (length bs) bs = bytes_at 0 (length bs) cs \<Longrightarrow> bs = cs"
  by (simp add: bytes_at_def)

text \<open>\<open>slice.copy_within(s..e, d)\<close>, which panics when the source or destination is out of range.\<close>

definition copy_within :: "nat \<Rightarrow> nat \<Rightarrow> nat \<Rightarrow> byte list \<Rightarrow> ('e, byte list) outcome" where
  "copy_within s e d bs =
     (if s \<le> e \<and> e \<le> length bs \<and> d + (e - s) \<le> length bs
      then Ok (put_at d (bytes_at s (e - s) bs) bs) else Panic)"

text \<open>\<open>slice.get(a..b)\<close>.\<close>

definition get_range :: "nat \<Rightarrow> nat \<Rightarrow> byte list \<Rightarrow> byte list option" where
  "get_range a b bs = (if a \<le> b \<and> b \<le> length bs then Some (bytes_at a (b - a) bs) else None)"

section \<open>Little-endian integers\<close>

fun le_enc :: "nat \<Rightarrow> nat \<Rightarrow> byte list" where
  "le_enc 0 x = []"
| "le_enc (Suc n) x = word_of_nat (x mod 256) # le_enc n (x div 256)"

fun le_dec :: "byte list \<Rightarrow> nat" where
  "le_dec [] = 0"
| "le_dec (b # bs) = unat b + 256 * le_dec bs"

lemma length_le_enc [simp]: "length (le_enc n x) = n"
  by (induction n arbitrary: x) auto

lemma unat_word_of_nat_mod [simp]: "unat (word_of_nat (x mod 256) :: byte) = x mod 256"
  by (simp add: unat_of_nat)

lemma le_dec_enc: "le_dec (le_enc n x) = x mod 256 ^ n"
proof (induction n arbitrary: x)
  case 0
  then show ?case by simp
next
  case (Suc n)
  then show ?case by (simp add: mod_mult2_eq)
qed

lemma le_enc_dec: "le_enc (length bs) (le_dec bs) = bs"
proof (induction bs)
  case Nil
  then show ?case by simp
next
  case (Cons b bs)
  have "unat b < 256" using unsigned_less [of b] by simp
  with Cons show ?case by simp
qed

lemma le_dec_bound: "le_dec bs < 256 ^ length bs"
proof (induction bs)
  case Nil
  then show ?case by simp
next
  case (Cons b bs)
  have "unat b < 256" using unsigned_less [of b] by simp
  with Cons show ?case by simp
qed

lemma unat_bound: "unat (w :: 'a::len word) < 2 ^ LENGTH('a)"
  by (rule unsigned_less)

lemma word_unat_eqI: "unat v = unat w \<Longrightarrow> v = w"
  by (rule unsigned_word_eqI)

text \<open>Casts between widths, as numbers.\<close>

lemma unat_ucast_wide: "LENGTH('a) \<le> LENGTH('b) \<Longrightarrow> unat (ucast (w :: 'a::len word) :: 'b::len word) = unat w"
  by (simp add: unsigned_ucast_eq take_bit_nat_eq_self_iff less_le_trans [OF unat_bound])

lemma unat_ucast_narrow:
  "unat w < 2 ^ LENGTH('b) \<Longrightarrow> unat (ucast (w :: 'a::len word) :: 'b::len word) = unat w"
  by (simp add: unsigned_ucast_eq take_bit_nat_eq_self_iff)

lemma ucast_inj_wide: "LENGTH('a) \<le> LENGTH('b) \<Longrightarrow> (ucast (v :: 'a::len word) :: 'b::len word) = ucast w \<longleftrightarrow> v = w"
proof
  assume len: "LENGTH('a) \<le> LENGTH('b)" and "(ucast v :: 'b word) = ucast w"
  then have "unat (ucast v :: 'b word) = unat (ucast w :: 'b word)" by simp
  with len show "v = w" by (intro word_unat_eqI) (simp add: unat_ucast_wide)
qed simp

lemma unat_mult_word: "unat (a * b :: 'a::len word) = unat a * unat b mod 2 ^ LENGTH('a)"
  by (simp add: unat_word_ariths)

definition u16_bytes :: "u16 \<Rightarrow> byte list" where "u16_bytes w = le_enc 2 (unat w)"
definition u32_bytes :: "u32 \<Rightarrow> byte list" where "u32_bytes w = le_enc 4 (unat w)"
definition u64_bytes :: "u64 \<Rightarrow> byte list" where "u64_bytes w = le_enc 8 (unat w)"

definition u16_of :: "byte list \<Rightarrow> u16" where "u16_of bs = word_of_nat (le_dec bs)"
definition u32_of :: "byte list \<Rightarrow> u32" where "u32_of bs = word_of_nat (le_dec bs)"
definition u64_of :: "byte list \<Rightarrow> u64" where "u64_of bs = word_of_nat (le_dec bs)"

lemma length_int_bytes [simp]:
  "length (u16_bytes a) = 2" "length (u32_bytes b) = 4" "length (u64_bytes c) = 8"
  by (simp_all add: u16_bytes_def u32_bytes_def u64_bytes_def)

lemma u16_of_bytes [simp]: "u16_of (u16_bytes w) = w"
  using unat_bound [of w] by (simp add: u16_of_def u16_bytes_def le_dec_enc)

lemma u32_of_bytes [simp]: "u32_of (u32_bytes w) = w"
  using unat_bound [of w] by (simp add: u32_of_def u32_bytes_def le_dec_enc)

lemma u64_of_bytes [simp]: "u64_of (u64_bytes w) = w"
  using unat_bound [of w] by (simp add: u64_of_def u64_bytes_def le_dec_enc)

lemma u16_bytes_of [simp]: "length bs = 2 \<Longrightarrow> u16_bytes (u16_of bs) = bs"
  using le_dec_bound [of bs] le_enc_dec [of bs]
  by (simp add: u16_of_def u16_bytes_def unat_of_nat)

lemma u32_bytes_of [simp]: "length bs = 4 \<Longrightarrow> u32_bytes (u32_of bs) = bs"
  using le_dec_bound [of bs] le_enc_dec [of bs]
  by (simp add: u32_of_def u32_bytes_def unat_of_nat)

lemma u64_bytes_of [simp]: "length bs = 8 \<Longrightarrow> u64_bytes (u64_of bs) = bs"
  using le_dec_bound [of bs] le_enc_dec [of bs]
  by (simp add: u64_of_def u64_bytes_def unat_of_nat)

section \<open>Decimal numbers\<close>

definition digit :: "nat \<Rightarrow> char" where
  "digit n = char_of (48 + n)"

fun decimal :: "nat \<Rightarrow> string" where
  "decimal n = (if n < 10 then [digit n] else decimal (n div 10) @ [digit (n mod 10)])"

declare decimal.simps [simp del]

lemma of_digit: "n < 10 \<Longrightarrow> of_char (digit n) = 48 + n"
  by (simp add: digit_def)

definition undecimal :: "string \<Rightarrow> nat" where
  "undecimal = foldl (\<lambda>n c. 10 * n + (of_char c - 48)) 0"

lemma undecimal_decimal: "undecimal (decimal n) = n"
proof (induction n rule: decimal.induct)
  case (1 n)
  show ?case
  proof (cases "n < 10")
    case True
    then show ?thesis by (subst decimal.simps) (simp add: undecimal_def of_digit)
  next
    case False
    have "undecimal (decimal n) = 10 * undecimal (decimal (n div 10)) + n mod 10"
      using False by (subst decimal.simps) (simp add: undecimal_def of_digit)
    with 1 False show ?thesis by simp
  qed
qed

lemma decimal_no_dot: "c \<in> set (decimal n) \<Longrightarrow> c \<noteq> CHR ''.''"
proof (induction n rule: decimal.induct)
  case (1 n)
  have d: "digit k \<noteq> CHR ''.''" if k: "k < 10" for k
  proof
    assume "digit k = CHR ''.''"
    then have "of_char (digit k) = (of_char (CHR ''.'') :: nat)" by simp
    then show False using of_digit [OF k] by simp
  qed
  show ?case
  proof (cases "n < 10")
    case True
    then show ?thesis using 1(2) d by (subst (asm) decimal.simps) simp
  next
    case False
    then have "c \<in> set (decimal (n div 10)) \<or> c = digit (n mod 10)"
      using 1(2) by (subst (asm) decimal.simps) auto
    then show ?thesis using 1(1) [OF False] d [of "n mod 10"] by auto
  qed
qed

end
