(* ===== verification/PageHeader.thy ===== *)
theory PageHeader
  imports Prelude
begin

text \<open>
  \<open>src/src/page/header.rs\<close>, \<open>src/src/common/constants.rs\<close> and the two untyped overlays
  \<open>unknown.rs\<close> and \<open>unused.rs\<close>: the page types and their byte codes, the 16-byte header at
  the start of every page, and the two ways the overlays reach it (by copy, and by a reference
  that needs an aligned buffer).
\<close>

section \<open>Constants\<close>

definition PAGE_BUF_SIZE :: nat where "PAGE_BUF_SIZE = 4096"

definition is_page :: "byte list \<Rightarrow> bool" where
  "is_page p \<longleftrightarrow> length p = PAGE_BUF_SIZE"

text \<open>
  Every overlay's \<open>new\<close> asserts the size of the buffer it wraps; \<open>into_inner\<close> gives the buffer
  back, so an overlay is its buffer.
\<close>

definition overlay_new :: "byte list \<Rightarrow> ('e, page) outcome" where
  "overlay_new data = (if length data = PAGE_BUF_SIZE then Ok data else Panic)"

text \<open>\<open>src/src/common/aliases.rs\<close>: where a page lies in a file, and where a tuple lies in a page.\<close>

record ppage_id =
  pp_file :: u32
  pp_offset :: u64

record record_id =
  rid_page :: u32
  rid_slot :: u16

definition INVALID_PAGE_ID :: u32 where "INVALID_PAGE_ID = 4294967295"

section \<open>Page types\<close>

datatype page_type = Unused | HeapPage | BTreeInner | BTreeLeaf
  | HeapFileHeader | IndexFileHeader | DirectoryFileHeader
  | DirectoryInner | DirectoryLeaf

fun page_type_byte :: "page_type \<Rightarrow> u8" where
  "page_type_byte Unused = 0"
| "page_type_byte HeapPage = 1"
| "page_type_byte BTreeInner = 2"
| "page_type_byte BTreeLeaf = 3"
| "page_type_byte HeapFileHeader = 32"
| "page_type_byte IndexFileHeader = 33"
| "page_type_byte DirectoryFileHeader = 34"
| "page_type_byte DirectoryInner = 64"
| "page_type_byte DirectoryLeaf = 65"

text \<open>\<open>TryFrom<u8>\<close>: the error carries the offending byte (\<open>InvalidPageTypeError\<close>).\<close>

definition page_type_try_from :: "u8 \<Rightarrow> (u8, page_type) outcome" where
  "page_type_try_from v =
     (if v = 0 then Ok Unused
      else if v = 1 then Ok HeapPage
      else if v = 2 then Ok BTreeInner
      else if v = 3 then Ok BTreeLeaf
      else if v = 32 then Ok HeapFileHeader
      else if v = 33 then Ok IndexFileHeader
      else if v = 34 then Ok DirectoryFileHeader
      else if v = 64 then Ok DirectoryInner
      else if v = 65 then Ok DirectoryLeaf
      else Err v)"

lemma page_type_try_from_byte [simp]: "page_type_try_from (page_type_byte t) = Ok t"
  by (cases t) (simp_all add: page_type_try_from_def)

lemma page_type_try_from_Ok_iff: "page_type_try_from v = Ok t \<longleftrightarrow> v = page_type_byte t"
proof
  assume "page_type_try_from v = Ok t"
  then show "v = page_type_byte t" by (auto simp: page_type_try_from_def split: if_splits)
qed simp

lemma page_type_byte_inj [simp]: "page_type_byte a = page_type_byte b \<longleftrightarrow> a = b"
  by (cases a; cases b) simp_all

lemma page_type_try_from_no_panic [simp]: "page_type_try_from v \<noteq> Panic"
  by (simp add: page_type_try_from_def)

lemma page_type_try_from_Err: "page_type_try_from v = Err e \<Longrightarrow> e = v"
  by (auto simp: page_type_try_from_def split: if_splits)

text \<open>Page types are ordered by their byte codes.\<close>

instantiation page_type :: linorder
begin

definition less_eq_page_type :: "page_type \<Rightarrow> page_type \<Rightarrow> bool" where
  "less_eq_page_type a b \<longleftrightarrow> page_type_byte a \<le> page_type_byte b"

definition less_page_type :: "page_type \<Rightarrow> page_type \<Rightarrow> bool" where
  "less_page_type a b \<longleftrightarrow> page_type_byte a < page_type_byte b"

instance
  by standard (auto simp: less_eq_page_type_def less_page_type_def less_le)

end

section \<open>The header of every page\<close>

record uber_page_header =
  page_lsn :: u64
  page_id :: u32
  page_type_id :: u8
  uber_pad :: "byte list"

definition UBER_HEADER_SIZE :: nat where "UBER_HEADER_SIZE = 16"

definition uber_of_bytes :: "byte list \<Rightarrow> uber_page_header" where
  "uber_of_bytes bs = \<lparr> page_lsn = u64_of (bytes_at 0 8 bs), page_id = u32_of (bytes_at 8 4 bs),
     page_type_id = bs ! 12, uber_pad = bytes_at 13 3 bs \<rparr>"

definition uber_to_bytes :: "uber_page_header \<Rightarrow> byte list" where
  "uber_to_bytes h = u64_bytes (page_lsn h) @ u32_bytes (page_id h) @ [page_type_id h] @ uber_pad h"

definition uber_header :: "page \<Rightarrow> uber_page_header" where
  "uber_header p = uber_of_bytes (bytes_at 0 UBER_HEADER_SIZE p)"

definition put_uber_header :: "uber_page_header \<Rightarrow> page \<Rightarrow> page" where
  "put_uber_header h p = put_at 0 (uber_to_bytes h) p"

definition get_type :: "uber_page_header \<Rightarrow> (u8, page_type) outcome" where
  "get_type h = page_type_try_from (page_type_id h)"

lemma uber_to_of_bytes: "length bs = 16 \<Longrightarrow> uber_to_bytes (uber_of_bytes bs) = bs"
proof -
  assume l: "length bs = 16"
  have "bytes_at 0 8 bs @ bytes_at 8 4 bs @ [bs ! 12] @ bytes_at 13 3 bs = bs"
  proof (rule nth_equalityI)
    show "length (bytes_at 0 8 bs @ bytes_at 8 4 bs @ [bs ! 12] @ bytes_at 13 3 bs) = length bs"
      using l by simp
    show "(bytes_at 0 8 bs @ bytes_at 8 4 bs @ [bs ! 12] @ bytes_at 13 3 bs) ! i = bs ! i"
      if "i < length (bytes_at 0 8 bs @ bytes_at 8 4 bs @ [bs ! 12] @ bytes_at 13 3 bs)" for i
      using that l by (auto simp: nth_append nth_bytes_at nth_Cons' intro: arg_cong [where f = "nth bs"])
  qed
  with l show ?thesis by (simp add: uber_of_bytes_def uber_to_bytes_def)
qed

lemma uber_of_to_bytes: "length (uber_pad h) = 3 \<Longrightarrow> uber_of_bytes (uber_to_bytes h) = h"
  by (simp add: uber_of_bytes_def uber_to_bytes_def bytes_at_def nth_append)

lemma length_uber_to_bytes [simp]: "length (uber_pad h) = 3 \<Longrightarrow> length (uber_to_bytes h) = 16"
  by (simp add: uber_to_bytes_def)

lemma length_uber_pad [simp]: "16 \<le> length p \<Longrightarrow> length (uber_pad (uber_header p)) = 3"
  by (simp add: uber_header_def uber_of_bytes_def UBER_HEADER_SIZE_def)

lemma uber_put_get: "16 \<le> length p \<Longrightarrow> length (uber_pad h) = 3 \<Longrightarrow> uber_header (put_uber_header h p) = h"
  by (simp add: uber_header_def put_uber_header_def UBER_HEADER_SIZE_def uber_of_to_bytes)

lemma length_put_uber [simp]:
  "16 \<le> length p \<Longrightarrow> length (uber_pad h) = 3 \<Longrightarrow> length (put_uber_header h p) = length p"
  by (simp add: put_uber_header_def)

lemma uber_header_eq: "bytes_at 0 16 p = bytes_at 0 16 q \<Longrightarrow> uber_header p = uber_header q"
  by (simp add: uber_header_def UBER_HEADER_SIZE_def)

section \<open>References into a buffer\<close>

text \<open>
  \<open>UnknownPage\<close>, \<open>UnusedPage\<close>, \<open>HeapPage\<close> and the file headers view their structures through
  \<open>ref_from_prefix\<close> and \<open>mut_from_prefix\<close> of the \<open>zerocopy\<close> crate, whose documented contract
  is: an alignment error when the address is not a multiple of the structure's alignment, a
  size error when the slice is too short, and otherwise a reference to the structure. A buffer
  is modelled by its address and its bytes.
\<close>

datatype convert_error = AlignmentError | SizeError | ValidityError

record mem_buf =
  buf_addr :: nat
  buf_bytes :: "byte list"

definition ref_from_prefix :: "nat \<Rightarrow> nat \<Rightarrow> nat \<Rightarrow> mem_buf \<Rightarrow> (convert_error, byte list) outcome" where
  "ref_from_prefix off algn sz b =
     (if (buf_addr b + off) mod algn \<noteq> 0 then Err AlignmentError
      else if length (buf_bytes b) < off + sz then Err SizeError
      else Ok (bytes_at off sz (buf_bytes b)))"

definition mut_prefix :: "nat \<Rightarrow> byte list \<Rightarrow> mem_buf \<Rightarrow> mem_buf" where
  "mut_prefix off xs b = b\<lparr> buf_bytes := put_at off xs (buf_bytes b) \<rparr>"

text \<open>\<open>UnknownPage::uber_header\<close>, \<open>UnusedPage::uber_header\<close> and their \<open>_mut\<close> versions.\<close>

definition unknown_new :: "mem_buf \<Rightarrow> ('e, mem_buf) outcome" where
  "unknown_new b = (if length (buf_bytes b) = PAGE_BUF_SIZE then Ok b else Panic)"

definition unknown_uber_header :: "mem_buf \<Rightarrow> (convert_error, uber_page_header) outcome" where
  "unknown_uber_header b =
     bind_ok (ref_from_prefix 0 8 UBER_HEADER_SIZE b) (\<lambda>bs. Ok (uber_of_bytes bs))"

definition unknown_uber_header_mut ::
  "(uber_page_header \<Rightarrow> uber_page_header) \<Rightarrow> mem_buf \<Rightarrow> (convert_error, mem_buf) outcome" where
  "unknown_uber_header_mut f b =
     bind_ok (ref_from_prefix 0 8 UBER_HEADER_SIZE b)
       (\<lambda>bs. Ok (mut_prefix 0 (uber_to_bytes (f (uber_of_bytes bs))) b))"

definition unused_new :: "mem_buf \<Rightarrow> ('e, mem_buf) outcome" where
  "unused_new b = (if length (buf_bytes b) = PAGE_BUF_SIZE then Ok b else Panic)"

definition unused_uber_header :: "mem_buf \<Rightarrow> (convert_error, uber_page_header) outcome" where
  "unused_uber_header b =
     bind_ok (ref_from_prefix 0 8 UBER_HEADER_SIZE b) (\<lambda>bs. Ok (uber_of_bytes bs))"

definition unused_uber_header_mut ::
  "(uber_page_header \<Rightarrow> uber_page_header) \<Rightarrow> mem_buf \<Rightarrow> (convert_error, mem_buf) outcome" where
  "unused_uber_header_mut f b =
     bind_ok (ref_from_prefix 0 8 UBER_HEADER_SIZE b)
       (\<lambda>bs. Ok (mut_prefix 0 (uber_to_bytes (f (uber_of_bytes bs))) b))"

lemma ref_from_prefix_aligned:
  "length (buf_bytes b) = 4096 \<Longrightarrow> 4096 dvd buf_addr b \<Longrightarrow> algn dvd off \<Longrightarrow> algn dvd 4096 \<Longrightarrow>
   off + sz \<le> 4096 \<Longrightarrow> ref_from_prefix off algn sz b = Ok (bytes_at off sz (buf_bytes b))"
  by (auto simp: ref_from_prefix_def)

end
