(* ===== verification/SortedEntries.thy ===== *)
theory SortedEntries
  imports Prelude
begin

text \<open>
  Lists of entries strictly sorted by a key, the shape in which every B-tree page keeps its
  entries: the position of a key, insertion and deletion at that position, and the two binary
  search loops of the overlays, with the proof that they find that position.
\<close>

section \<open>Positions in a sorted list\<close>

definition sorted_by :: "('e \<Rightarrow> 'k::linorder) \<Rightarrow> 'e list \<Rightarrow> bool" where
  "sorted_by f es \<longleftrightarrow> sorted_wrt (<) (map f es)"

text \<open>Number of entries with a smaller key; number of entries with a smaller or equal key.\<close>

definition rank :: "('e \<Rightarrow> 'k::linorder) \<Rightarrow> 'k \<Rightarrow> 'e list \<Rightarrow> nat" where
  "rank f k es = length (takeWhile (\<lambda>e. f e < k) es)"

definition upper_rank :: "('e \<Rightarrow> 'k::linorder) \<Rightarrow> 'k \<Rightarrow> 'e list \<Rightarrow> nat" where
  "upper_rank f k es = length (takeWhile (\<lambda>e. f e \<le> k) es)"

definition insert_sorted :: "('e \<Rightarrow> 'k::linorder) \<Rightarrow> 'e \<Rightarrow> 'e list \<Rightarrow> 'e list" where
  "insert_sorted f e es = take (rank f (f e) es) es @ e # drop (rank f (f e) es) es"

definition delete_at :: "nat \<Rightarrow> 'e list \<Rightarrow> 'e list" where
  "delete_at i es = take i es @ drop (Suc i) es"

definition find_entry :: "('e \<Rightarrow> 'k) \<Rightarrow> 'k \<Rightarrow> 'e list \<Rightarrow> 'e option" where
  "find_entry f k es = map_of (map (\<lambda>e. (f e, e)) es) k"

lemma sorted_by_Nil [simp]: "sorted_by f []"
  by (simp add: sorted_by_def)

lemma sorted_by_Cons [simp]: "sorted_by f (e # es) \<longleftrightarrow> (\<forall>x\<in>set es. f e < f x) \<and> sorted_by f es"
  by (auto simp: sorted_by_def)

lemma sorted_by_append [simp]:
  "sorted_by f (xs @ ys) \<longleftrightarrow> sorted_by f xs \<and> sorted_by f ys \<and> (\<forall>x\<in>set xs. \<forall>y\<in>set ys. f x < f y)"
  by (auto simp: sorted_by_def sorted_wrt_append)

lemma sorted_by_nth: "sorted_by f es \<Longrightarrow> i < j \<Longrightarrow> j < length es \<Longrightarrow> f (es ! i) < f (es ! j)"
  by (simp add: sorted_by_def sorted_wrt_iff_nth_less)

lemma sorted_by_nth_eq: "sorted_by f es \<Longrightarrow> i < length es \<Longrightarrow> j < length es \<Longrightarrow> f (es ! i) = f (es ! j) \<Longrightarrow> i = j"
  by (metis less_irrefl linorder_neqE_nat sorted_by_nth)

lemma sorted_by_take [intro]: "sorted_by f es \<Longrightarrow> sorted_by f (take n es)"
  by (metis append_take_drop_id sorted_by_append)

lemma sorted_by_drop [intro]: "sorted_by f es \<Longrightarrow> sorted_by f (drop n es)"
  by (metis append_take_drop_id sorted_by_append)

lemma rank_le [simp]: "rank f k es \<le> length es"
  by (simp add: rank_def length_takeWhile_le)

lemma upper_rank_le [simp]: "upper_rank f k es \<le> length es"
  by (simp add: upper_rank_def length_takeWhile_le)

lemma rank_below: "i < rank f k es \<Longrightarrow> f (es ! i) < k"
  unfolding rank_def by (metis nth_mem set_takeWhileD takeWhile_nth)

lemma upper_rank_below: "i < upper_rank f k es \<Longrightarrow> f (es ! i) \<le> k"
  unfolding upper_rank_def by (metis nth_mem set_takeWhileD takeWhile_nth)

lemma rank_above: "sorted_by f es \<Longrightarrow> rank f k es \<le> i \<Longrightarrow> i < length es \<Longrightarrow> k \<le> f (es ! i)"
proof (induction es arbitrary: i)
  case Nil
  then show ?case by simp
next
  case (Cons e es)
  show ?case
  proof (cases "f e < k")
    case True
    with Cons.prems obtain j where j: "i = Suc j" by (cases i) (auto simp: rank_def)
    with Cons.prems True have "k \<le> f (es ! j)" by (intro Cons.IH) (auto simp: rank_def)
    with j show ?thesis by simp
  next
    case False
    with Cons.prems(1,3) show ?thesis by (cases i) (auto, meson le_less_trans less_imp_le not_less nth_mem)
  qed
qed

lemma upper_rank_above: "sorted_by f es \<Longrightarrow> upper_rank f k es \<le> i \<Longrightarrow> i < length es \<Longrightarrow> k < f (es ! i)"
proof (induction es arbitrary: i)
  case Nil
  then show ?case by simp
next
  case (Cons e es)
  show ?case
  proof (cases "f e \<le> k")
    case True
    with Cons.prems obtain j where j: "i = Suc j" by (cases i) (auto simp: upper_rank_def)
    with Cons.prems True have "k < f (es ! j)" by (intro Cons.IH) (auto simp: upper_rank_def)
    with j show ?thesis by simp
  next
    case False
    with Cons.prems(1,3) show ?thesis by (cases i) (auto, meson less_trans not_le nth_mem)
  qed
qed

lemma rank_unique:
  assumes "sorted_by f es" "r \<le> length es"
    and below: "\<And>i. i < r \<Longrightarrow> f (es ! i) < k"
    and above: "\<And>i. r \<le> i \<Longrightarrow> i < length es \<Longrightarrow> k \<le> f (es ! i)"
  shows "rank f k es = r"
proof (rule antisym)
  show "rank f k es \<le> r"
  proof (rule ccontr)
    assume "\<not> rank f k es \<le> r"
    then have r: "r < rank f k es" by simp
    then have "r < length es" using rank_le [of f k es] by (rule less_le_trans)
    with above [of r] rank_below [OF r] show False by simp
  qed
  show "r \<le> rank f k es"
  proof (rule ccontr)
    assume "\<not> r \<le> rank f k es"
    with below [of "rank f k es"] rank_above [OF assms(1), of k "rank f k es"] assms(2)
    show False by simp
  qed
qed

lemma upper_rank_unique:
  assumes "sorted_by f es" "r \<le> length es"
    and below: "\<And>i. i < r \<Longrightarrow> f (es ! i) \<le> k"
    and above: "\<And>i. r \<le> i \<Longrightarrow> i < length es \<Longrightarrow> k < f (es ! i)"
  shows "upper_rank f k es = r"
proof (rule antisym)
  show "upper_rank f k es \<le> r"
  proof (rule ccontr)
    assume "\<not> upper_rank f k es \<le> r"
    then have r: "r < upper_rank f k es" by simp
    then have "r < length es" using upper_rank_le [of f k es] by (rule less_le_trans)
    with above [of r] upper_rank_below [OF r] show False by simp
  qed
  show "r \<le> upper_rank f k es"
  proof (rule ccontr)
    assume "\<not> r \<le> upper_rank f k es"
    with below [of "upper_rank f k es"] upper_rank_above [OF assms(1), of k "upper_rank f k es"] assms(2)
    show False by simp
  qed
qed

lemma rank_found:
  "sorted_by f es \<Longrightarrow> i < length es \<Longrightarrow> f (es ! i) = k \<Longrightarrow> rank f k es = i"
  by (rule rank_unique) (auto intro: sorted_by_nth, metis less_imp_le nat_less_le order_refl sorted_by_nth)

lemma rank_absent:
  assumes "sorted_by f es" "k \<notin> f ` set es"
  shows "rank f k es = upper_rank f k es"
proof (rule rank_unique [OF assms(1) upper_rank_le])
  fix i
  assume i: "i < upper_rank f k es"
  then have "i < length es" using upper_rank_le [of f k es] by (rule less_le_trans)
  then show "f (es ! i) < k" using upper_rank_below [OF i] assms(2) by (force simp: order.strict_iff_order)
next
  fix i
  assume "upper_rank f k es \<le> i" "i < length es"
  then show "k \<le> f (es ! i)" using upper_rank_above [OF assms(1)] by force
qed

lemma rank_append_below: "\<forall>x\<in>set xs. f x < k \<Longrightarrow> rank f k (xs @ ys) = length xs + rank f k ys"
  by (simp add: rank_def)

section \<open>Insertion, deletion and lookup\<close>

lemma length_insert_sorted [simp]: "length (insert_sorted f e es) = Suc (length es)"
  using rank_le [of f "f e" es] by (simp add: insert_sorted_def)

lemma set_insert_sorted [simp]: "set (insert_sorted f e es) = insert e (set es)"
  unfolding insert_sorted_def by (metis append_take_drop_id list.simps(15) set_append Un_insert_right)

lemma rank_take_below: "x \<in> set (take (rank f k es) es) \<Longrightarrow> f x < k"
  by (auto simp: in_set_conv_nth intro: rank_below)

lemma rank_drop_above: "sorted_by f es \<Longrightarrow> x \<in> set (drop (rank f k es) es) \<Longrightarrow> k \<le> f x"
  by (auto simp: in_set_conv_nth intro: rank_above)

lemma sorted_insert_sorted [intro]:
  assumes "sorted_by f es" "f e \<notin> f ` set es"
  shows "sorted_by f (insert_sorted f e es)"
proof -
  have "f e < f x" if "x \<in> set (drop (rank f (f e) es) es)" for x
    using rank_drop_above [OF assms(1) that] assms(2) in_set_dropD [OF that]
    by (metis image_eqI le_neq_trans)
  then show ?thesis
    using assms(1) rank_take_below [of _ f "f e" es] rank_drop_above [OF assms(1), of _ "f e"]
    by (auto simp: insert_sorted_def intro: order.strict_trans2)
qed

lemma insert_sorted_last: "\<forall>x\<in>set es. f x < f e \<Longrightarrow> insert_sorted f e es = es @ [e]"
  using rank_append_below [of es f "f e" "[]"] by (simp add: insert_sorted_def rank_def)

lemma insert_sorted_split:
  "\<forall>x\<in>set xs. f x < f e \<Longrightarrow> \<forall>y\<in>set ys. f e < f y \<Longrightarrow> insert_sorted f e (xs @ ys) = xs @ e # ys"
proof -
  assume a: "\<forall>x\<in>set xs. f x < f e" "\<forall>y\<in>set ys. f e < f y"
  have "rank f (f e) ys = 0" using a(2) by (cases ys) (auto simp: rank_def)
  with a(1) show ?thesis by (simp add: insert_sorted_def rank_append_below)
qed

lemma length_delete_at [simp]: "i < length es \<Longrightarrow> length (delete_at i es) = length es - 1"
  by (simp add: delete_at_def)

lemma sorted_delete_at [intro]:
  assumes "sorted_by f es"
  shows "sorted_by f (delete_at i es)"
proof (cases "i < length es")
  case True
  have "sorted_by f (take i es @ es ! i # drop (Suc i) es)" using assms id_take_nth_drop [OF True] by simp
  then show ?thesis by (simp add: delete_at_def)
next
  case False
  with assms show ?thesis by (simp add: delete_at_def)
qed

lemma delete_at_filter:
  assumes "sorted_by f es" "i < length es"
  shows "delete_at i es = filter (\<lambda>e. f e \<noteq> f (es ! i)) es"
proof -
  let ?P = "\<lambda>e. f e \<noteq> f (es ! i)"
  have es: "take i es @ es ! i # drop (Suc i) es = es" using id_take_nth_drop [OF assms(2)] by simp
  have "sorted_by f (take i es @ es ! i # drop (Suc i) es)" using assms(1) es by simp
  then have ne: "\<forall>e\<in>set (take i es). ?P e" "\<forall>e\<in>set (drop (Suc i) es). ?P e" by auto
  have "filter ?P es = filter ?P (take i es @ es ! i # drop (Suc i) es)" using es by simp
  also have "\<dots> = take i es @ drop (Suc i) es" using ne by (simp add: filter_id_conv)
  finally show ?thesis by (simp add: delete_at_def)
qed

lemma find_entry_None: "find_entry f k es = None \<longleftrightarrow> k \<notin> f ` set es"
  by (simp add: find_entry_def map_of_eq_None_iff image_image)

lemma find_entry_nth: "sorted_by f es \<Longrightarrow> i < length es \<Longrightarrow> find_entry f (f (es ! i)) es = Some (es ! i)"
  unfolding find_entry_def
  by (rule map_of_is_SomeI) (auto simp: sorted_by_def comp_def strict_sorted_iff)

lemma find_entry_Some_iff:
  assumes "sorted_by f es"
  shows "find_entry f k es = Some e \<longleftrightarrow> e \<in> set es \<and> f e = k"
proof
  assume l: "find_entry f k es = Some e"
  then have "k \<in> f ` set es" using find_entry_None [of f k es] by auto
  then obtain i where "i < length es" "f (es ! i) = k" by (auto simp: in_set_conv_nth)
  with l find_entry_nth [OF assms, of i] show "e \<in> set es \<and> f e = k" by auto
next
  assume "e \<in> set es \<and> f e = k"
  then show "find_entry f k es = Some e"
    using find_entry_nth [OF assms] by (auto simp: in_set_conv_nth)
qed

lemma find_entry_append:
  "find_entry f k (xs @ ys) = (case find_entry f k xs of Some e \<Rightarrow> Some e | None \<Rightarrow> find_entry f k ys)"
  by (auto simp: find_entry_def map_add_def split: option.splits)

lemma find_entry_Cons: "find_entry f k (e # es) = (if k = f e then Some e else find_entry f k es)"
  by (simp add: find_entry_def)

lemma find_entry_take_None: "k \<notin> f ` set es \<Longrightarrow> find_entry f k (take n es) = None"
  by (auto simp: find_entry_None dest: in_set_takeD)

lemma find_entry_insert_sorted:
  assumes "f e \<notin> f ` set es"
  shows "find_entry f k (insert_sorted f e es) = (if k = f e then Some e else find_entry f k es)"
proof -
  define r where "r = rank f (f e) es"
  have "find_entry f k es = find_entry f k (take r es @ drop r es)" by simp
  also have "\<dots> = (case find_entry f k (take r es) of Some x \<Rightarrow> Some x | None \<Rightarrow> find_entry f k (drop r es))"
    by (rule find_entry_append)
  finally show ?thesis
    using find_entry_take_None [OF assms, of r]
    by (cases "k = f e") (simp_all add: insert_sorted_def r_def [symmetric] find_entry_append find_entry_Cons split: option.split)
qed

lemma find_entry_delete_at:
  assumes "sorted_by f es" "i < length es"
  shows "find_entry f k (delete_at i es) = (if k = f (es ! i) then None else find_entry f k es)"
proof -
  have es: "take i es @ es ! i # drop (Suc i) es = es" using id_take_nth_drop [OF assms(2)] by simp
  have "sorted_by f (take i es @ es ! i # drop (Suc i) es)" using assms(1) es by simp
  then have "find_entry f (f (es ! i)) (take i es) = None" "find_entry f (f (es ! i)) (drop (Suc i) es) = None"
    by (auto simp: find_entry_None)
  moreover have "find_entry f k es = find_entry f k (take i es @ es ! i # drop (Suc i) es)"
    by (simp add: es)
  ultimately show ?thesis
    by (cases "k = f (es ! i)") (simp_all add: delete_at_def find_entry_append find_entry_Cons split: option.split)
qed

lemma find_entry_list_update:
  assumes "sorted_by f es" "i < length es" "f e = f (es ! i)"
  shows "find_entry f k (es[i := e]) = (if k = f e then Some e else find_entry f k es)"
proof -
  have es: "take i es @ es ! i # drop (Suc i) es = es" using id_take_nth_drop [OF assms(2)] by simp
  have "sorted_by f (take i es @ es ! i # drop (Suc i) es)" using assms(1) es by simp
  then have "find_entry f (f e) (take i es) = None" using assms(3) by (auto simp: find_entry_None)
  moreover have "find_entry f k es = find_entry f k (take i es @ es ! i # drop (Suc i) es)"
    by (simp add: es)
  ultimately show ?thesis using assms(2,3)
    by (cases "k = f e") (simp_all add: upd_conv_take_nth_drop find_entry_append find_entry_Cons split: option.split)
qed

text \<open>Routing: the last entry at or below a key decides.\<close>

lemma takeWhile_filter: "sorted_by f es \<Longrightarrow> takeWhile (\<lambda>e. f e \<le> k) es = filter (\<lambda>e. f e \<le> k) es"
proof (induction es)
  case (Cons e es)
  have "filter (\<lambda>e. f e \<le> k) es = []" if "\<not> f e \<le> k"
    using that Cons.prems by (auto simp: filter_empty_conv dest!: bspec)
  with Cons show ?case by simp
qed simp

lemma nth_upper_rank:
  assumes "sorted_by f es"
  shows "(d # map g es) ! upper_rank f k es = last (d # map g (filter (\<lambda>e. f e \<le> k) es))"
proof -
  let ?t = "takeWhile (\<lambda>e. f e \<le> k) es"
  have u: "upper_rank f k es = length ?t" by (simp add: upper_rank_def)
  have "(d # map g (?t @ dropWhile (\<lambda>e. f e \<le> k) es)) ! length ?t = last (d # map g ?t)"
    by (cases ?t rule: rev_cases) (simp_all add: nth_append)
  then show ?thesis unfolding u takeWhile_dropWhile_id by (simp only: takeWhile_filter [OF assms])
qed

lemma last_filter_insert_sorted:
  assumes sorted: "sorted_by f es" and new: "f e \<notin> f ` set es"
  shows "last (d # map g (filter (\<lambda>e. f e \<le> x) (insert_sorted f e es))) =
    (if f e \<le> x \<and> (\<forall>s\<in>f ` set es. s \<le> x \<longrightarrow> s < f e) then g e
     else last (d # map g (filter (\<lambda>e. f e \<le> x) es)))"
proof -
  define A where "A = take (rank f (f e) es) es"
  define B where "B = drop (rank f (f e) es) es"
  have es: "es = A @ B" by (simp add: A_def B_def)
  have A: "\<forall>a\<in>set A. f a < f e" by (auto simp: A_def rank_take_below)
  have B: "\<forall>b\<in>set B. f e < f b"
    using rank_drop_above [OF sorted, of _ "f e"] new in_set_dropD unfolding B_def
    by (metis image_eqI le_neq_trans)
  have ins: "insert_sorted f e es = A @ e # B" by (simp add: insert_sorted_def A_def B_def)
  show ?thesis
  proof (cases "f e \<le> x")
    case False
    with B have "filter (\<lambda>e. f e \<le> x) B = []" by (auto simp: filter_empty_conv)
    with False show ?thesis unfolding ins unfolding es by auto
  next
    case True
    have "(\<forall>s\<in>f ` set es. s \<le> x \<longrightarrow> s < f e) \<longleftrightarrow> filter (\<lambda>e. f e \<le> x) B = []"
      using A B by (auto simp: es filter_empty_conv dest: less_asym)
    with True show ?thesis unfolding ins unfolding es by auto
  qed
qed

section \<open>The binary search of the overlays\<close>

text \<open>
  \<open>find_slot\<close> and \<open>find_separator_slot\<close>: \<open>rd i\<close> is \<open>entry(i).unwrap().key\<close>; the result is
  whether the key was found and its position, or the insertion point. The indices are \<open>u16\<close> in
  the code; \<open>left + (right - left) / 2\<close> and \<open>mid + 1\<close> stay at or below \<open>right\<close>, so
  they never overflow and are natural numbers here.
\<close>

function slot_search ::
  "(nat \<Rightarrow> ('e, 'k::linorder) outcome) \<Rightarrow> 'k \<Rightarrow> nat \<Rightarrow> nat \<Rightarrow> ('e, bool \<times> nat) outcome" where
  "slot_search rd k left right =
     (if left < right then
        let mid = left + (right - left) div 2 in
        bind_ok (unwrap (rd mid)) (\<lambda>mid_key.
          if mid_key = k then Ok (True, mid)
          else if mid_key < k then slot_search rd k (mid + 1) right
          else slot_search rd k left mid)
      else Ok (False, left))"
  by pat_completeness auto
termination
  by (relation "measure (\<lambda>(rd, k, left, right). right - left)") auto

text \<open>
  The loop of \<open>find_child\<close>: the position of the largest separator at or below the key, and
  \<open>result\<close> where there is none.
\<close>

function child_search ::
  "(nat \<Rightarrow> ('e, 'k::linorder) outcome) \<Rightarrow> 'k \<Rightarrow> nat \<Rightarrow> nat \<Rightarrow> nat \<Rightarrow> ('e, nat) outcome" where
  "child_search rd k left right result =
     (if left < right then
        let mid = left + (right - left) div 2 in
        bind_ok (unwrap (rd mid)) (\<lambda>mid_sep.
          if mid_sep \<le> k then child_search rd k (mid + 1) right mid
          else child_search rd k left mid result)
      else Ok result)"
  by pat_completeness auto
termination
  by (relation "measure (\<lambda>(rd, k, left, right, result). right - left)") auto

declare slot_search.simps [simp del] child_search.simps [simp del]

lemma slot_search_correct:
  assumes sorted: "sorted_by f es" and rd: "\<And>i. i < length es \<Longrightarrow> rd i = Ok (f (es ! i))"
    and "left \<le> rank f k es" "rank f k es \<le> right" "right \<le> length es"
    and "k \<in> f ` set es \<Longrightarrow> rank f k es < right"
  shows "slot_search rd k left right = Ok (k \<in> f ` set es, rank f k es)"
  using assms(3-6)
proof (induction "right - left" arbitrary: left right rule: less_induct)
  case less
  define mid where "mid = left + (right - left) div 2"
  show ?case
  proof (cases "left < right")
    case True
    then have mid: "mid < right" "left \<le> mid" "mid < length es" using less.prems by (auto simp: mid_def)
    have step: "slot_search rd k left right =
        (if f (es ! mid) = k then Ok (True, mid)
         else if f (es ! mid) < k then slot_search rd k (mid + 1) right
         else slot_search rd k left mid)"
      using True rd [OF mid(3)] by (subst slot_search.simps) (simp add: mid_def Let_def)
    consider "f (es ! mid) = k" | "f (es ! mid) < k" | "k < f (es ! mid)" by force
    then show ?thesis
    proof cases
      case 1
      with mid(3) sorted show ?thesis by (auto simp: step dest: rank_found)
    next
      case 2
      then have "mid + 1 \<le> rank f k es" using rank_above [OF sorted, of k mid] mid(3) by force
      with 2 less show ?thesis using mid by (simp add: step)
    next
      case 3
      then have r: "rank f k es \<le> mid" using rank_below [of mid f k es] by force
      have lt: "rank f k es < mid" if "k \<in> f ` set es"
        using that r 3 rank_found [OF sorted] by (metis image_iff in_set_conv_nth less_irrefl nat_less_le)
      have "slot_search rd k left mid = Ok (k \<in> f ` set es, rank f k es)"
        using less.hyps [of mid left] less.prems r lt mid True by auto
      with 3 show ?thesis by (auto simp: step)
    qed
  next
    case False
    then have "left = rank f k es" "k \<notin> f ` set es" using less.prems by auto
    with False show ?thesis by (subst slot_search.simps) simp
  qed
qed

lemma child_search_correct:
  assumes sorted: "sorted_by f es" and rd: "\<And>i. i < length es \<Longrightarrow> rd i = Ok (f (es ! i))"
    and "left \<le> upper_rank f k es" "upper_rank f k es \<le> right" "right \<le> length es"
    and "0 < upper_rank f k es"
    and "left = upper_rank f k es \<Longrightarrow> result = upper_rank f k es - 1"
  shows "child_search rd k left right result = Ok (upper_rank f k es - 1)"
  using assms(3-7)
proof (induction "right - left" arbitrary: left right result rule: less_induct)
  case less
  define mid where "mid = left + (right - left) div 2"
  show ?case
  proof (cases "left < right")
    case True
    then have mid: "mid < right" "left \<le> mid" "mid < length es" using less.prems by (auto simp: mid_def)
    have step: "child_search rd k left right result =
        (if f (es ! mid) \<le> k then child_search rd k (mid + 1) right mid
         else child_search rd k left mid result)"
      using True rd [OF mid(3)] by (subst child_search.simps) (simp add: mid_def Let_def)
    show ?thesis
    proof (cases "f (es ! mid) \<le> k")
      case True
      then have "mid + 1 \<le> upper_rank f k es"
        using upper_rank_above [OF sorted, of k mid] mid(3) by force
      with True less show ?thesis using mid by (simp add: step)
    next
      case False
      then have "upper_rank f k es \<le> mid" using upper_rank_below [of mid f k es] by force
      with False less show ?thesis using mid by (simp add: step)
    qed
  next
    case False
    with less.prems show ?thesis by (subst child_search.simps) simp
  qed
qed

end
