(* ===== verification/EntryPage.thy ===== *)
theory EntryPage
  imports PageHeader SortedEntries
begin

text \<open>
  The four B-tree page overlays (\<open>directory/leaf.rs\<close>, \<open>directory/inner.rs\<close>,
  \<open>index/btree_leaf.rs\<close>, \<open>index/btree_inner.rs\<close>) store a counted array of 16-byte entries
  behind their headers, and the bodies of their entry operations are the same text up to the
  names. This theory holds those bodies once, over a record that describes a page layout, with
  their theory in the locale \<open>entry_layout\<close>; each overlay theory gives its layout, its own
  operations in these terms and the interpretation of the locale.
\<close>

section \<open>Errors of the overlays\<close>

text \<open>\<open>directory/error.rs\<close> and \<open>index/error.rs\<close> declare the same enum.\<close>

datatype overlay_error =
    TypeMismatch page_type page_type
  | InvalidPageType u8
  | PageFull nat nat
  | DuplicateKey u64
  | IndexOutOfBounds nat nat
  | TransactionVisibility u64 u64

section \<open>Type validation\<close>

definition validate_type :: "page_type \<Rightarrow> page \<Rightarrow> (overlay_error, unit) outcome" where
  "validate_type expected p =
     bind_ok (map_err (\<lambda>_. InvalidPageType (page_type_id (uber_header p)))
                (page_type_try_from (page_type_id (uber_header p))))
       (\<lambda>t. if t \<noteq> expected then Err (TypeMismatch expected t) else Ok ())"

definition overlay_from_buffer :: "page_type \<Rightarrow> byte list \<Rightarrow> (overlay_error, page) outcome" where
  "overlay_from_buffer expected data =
     bind_ok (overlay_new data) (\<lambda>p. bind_ok (validate_type expected p) (\<lambda>_. Ok p))"

text \<open>The page starts zeroed; then the header of every page is written.\<close>

definition init_uber :: "page_type \<Rightarrow> u32 \<Rightarrow> byte list \<Rightarrow> byte list" where
  "init_uber t pid data =
     (let buffer = replicate (length data) 0;
          uber = uber_header buffer
      in put_uber_header (uber\<lparr> page_lsn := 0, page_id := pid, page_type_id := page_type_byte t \<rparr>) buffer)"

definition set_page_lsn :: "u64 \<Rightarrow> page \<Rightarrow> page" where
  "set_page_lsn lsn p = put_uber_header ((uber_header p)\<lparr> page_lsn := lsn \<rparr>) p"

lemma overlay_from_buffer_Ok_iff:
  "overlay_from_buffer t data = Ok p \<longleftrightarrow>
     is_page data \<and> p = data \<and> page_type_id (uber_header data) = page_type_byte t"
  by (auto simp: overlay_from_buffer_def overlay_new_def validate_type_def is_page_def
      page_type_try_from_Ok_iff split: if_splits)

lemma length_init_uber [simp]: "16 \<le> length data \<Longrightarrow> length (init_uber t pid data) = length data"
  by (simp add: init_uber_def Let_def)

lemma uber_init_uber [simp]:
  "16 \<le> length data \<Longrightarrow> page_id (uber_header (init_uber t pid data)) = pid"
  "16 \<le> length data \<Longrightarrow> page_type_id (uber_header (init_uber t pid data)) = page_type_byte t"
  "16 \<le> length data \<Longrightarrow> page_lsn (uber_header (init_uber t pid data)) = 0"
  by (simp_all add: init_uber_def Let_def uber_put_get)

lemma init_uber_rest:
  "16 \<le> length data \<Longrightarrow> 16 \<le> off \<Longrightarrow> off + n \<le> length data \<Longrightarrow>
   bytes_at off n (init_uber t pid data) = replicate n 0"
  by (simp add: init_uber_def Let_def put_uber_header_def bytes_at_put_after)
     (simp add: bytes_at_def)

section \<open>Layouts and their operations\<close>

definition ENTRY_SIZE :: nat where "ENTRY_SIZE = 16"

record 'e layout =
  entries_off :: nat
  max_entries :: nat
  count_of :: "page \<Rightarrow> nat"
  set_count :: "nat \<Rightarrow> page \<Rightarrow> page"
  entry_of_bytes :: "byte list \<Rightarrow> 'e"
  entry_to_bytes :: "'e \<Rightarrow> byte list"
  key_of :: "'e \<Rightarrow> u64"

text \<open>
  \<open>entry(index)\<close>. On a corrupt count the computed slice lies beyond the page and reading it
  panics.
\<close>

definition page_entry :: "'e layout \<Rightarrow> page \<Rightarrow> nat \<Rightarrow> (overlay_error, 'e) outcome" where
  "page_entry L p index =
     (let num = count_of L p in
      if num \<le> index then Err (IndexOutOfBounds index num)
      else let offset = entries_off L + index * ENTRY_SIZE in
        if length p < offset + ENTRY_SIZE then Panic
        else Ok (entry_of_bytes L (bytes_at offset ENTRY_SIZE p)))"

definition page_key :: "'e layout \<Rightarrow> page \<Rightarrow> nat \<Rightarrow> (overlay_error, u64) outcome" where
  "page_key L p i = bind_ok (page_entry L p i) (\<lambda>e. Ok (key_of L e))"

text \<open>\<open>find_slot(target_key)\<close> of the leaves, \<open>find_separator_slot\<close> of the inner pages.\<close>

definition page_find_slot :: "'e layout \<Rightarrow> page \<Rightarrow> u64 \<Rightarrow> (overlay_error, bool \<times> nat) outcome" where
  "page_find_slot L p target_key =
     (let num_entries = count_of L p in
      if num_entries = 0 then Ok (False, 0)
      else slot_search (page_key L p) target_key 0 num_entries)"

text \<open>\<open>set_entry(index, entry)\<close>, with its assertion.\<close>

definition page_set_entry :: "'e layout \<Rightarrow> nat \<Rightarrow> 'e \<Rightarrow> page \<Rightarrow> (overlay_error, page) outcome" where
  "page_set_entry L index e p =
     (if max_entries L \<le> index then Panic
      else let offset = entries_off L + index * ENTRY_SIZE in
        if length p < offset + ENTRY_SIZE then Panic
        else Ok (put_at offset (entry_to_bytes L e) p))"

text \<open>\<open>insert_entry\<close> and \<open>insert_separator\<close>.\<close>

definition page_insert :: "'e layout \<Rightarrow> 'e \<Rightarrow> page \<Rightarrow> (overlay_error, page) outcome" where
  "page_insert L e p =
     (let num_entries = count_of L p in
      if max_entries L \<le> num_entries then Err (PageFull (max_entries L) (num_entries + 1))
      else bind_ok (page_find_slot L p (key_of L e)) (\<lambda>(found, insert_pos).
        if found then Err (DuplicateKey (key_of L e))
        else bind_ok
          (if insert_pos < num_entries then
             let src_start = entries_off L + insert_pos * ENTRY_SIZE;
                 dst_start = entries_off L + (insert_pos + 1) * ENTRY_SIZE;
                 count = (num_entries - insert_pos) * ENTRY_SIZE
             in copy_within src_start (src_start + count) dst_start p
           else Ok p)
          (\<lambda>p1. bind_ok (page_set_entry L insert_pos e p1)
          (\<lambda>p2. Ok (set_count L (num_entries + 1) p2)))))"

text \<open>\<open>delete_entry(index)\<close> and \<open>delete_separator(index)\<close>.\<close>

definition page_delete :: "'e layout \<Rightarrow> nat \<Rightarrow> page \<Rightarrow> (overlay_error, page) outcome" where
  "page_delete L index p =
     (let num_entries = count_of L p in
      if num_entries \<le> index then Err (IndexOutOfBounds index num_entries)
      else bind_ok
        (if index < num_entries - 1 then
           let src_start = entries_off L + (index + 1) * ENTRY_SIZE;
               dst_start = entries_off L + index * ENTRY_SIZE;
               count = (num_entries - 1 - index) * ENTRY_SIZE
           in copy_within src_start (src_start + count) dst_start p
         else Ok p)
        (\<lambda>p1. Ok (set_count L (num_entries - 1) p1)))"

text \<open>\<open>delete_by_key(key)\<close>: whether the key was there, and the page.\<close>

definition page_delete_by_key :: "'e layout \<Rightarrow> u64 \<Rightarrow> page \<Rightarrow> (overlay_error, bool \<times> page) outcome" where
  "page_delete_by_key L k p =
     bind_ok (page_find_slot L p k) (\<lambda>(found, pos).
       if found then bind_ok (page_delete L pos p) (\<lambda>p'. Ok (True, p'))
       else Ok (False, p))"

text \<open>\<open>update_entry\<close>: overwrite the entry that has this entry's key.\<close>

definition page_update :: "'e layout \<Rightarrow> 'e \<Rightarrow> page \<Rightarrow> (overlay_error, bool \<times> page) outcome" where
  "page_update L e p =
     bind_ok (page_find_slot L p (key_of L e)) (\<lambda>(found, pos).
       if found then bind_ok (page_set_entry L pos e p) (\<lambda>p'. Ok (True, p'))
       else Ok (False, p))"

text \<open>\<open>lookup(key)\<close>, before its result is projected.\<close>

definition page_lookup :: "'e layout \<Rightarrow> page \<Rightarrow> u64 \<Rightarrow> (overlay_error, 'e option) outcome" where
  "page_lookup L p k =
     bind_ok (page_find_slot L p k) (\<lambda>(found, pos).
       if found then bind_ok (unwrap (page_entry L p pos)) (\<lambda>e. Ok (Some e))
       else Ok None)"

section \<open>The entries of a page\<close>

text \<open>The abstraction: what a page holds, and when it is well formed.\<close>

definition raw_entry :: "'e layout \<Rightarrow> page \<Rightarrow> nat \<Rightarrow> 'e" where
  "raw_entry L p i = entry_of_bytes L (bytes_at (entries_off L + i * ENTRY_SIZE) ENTRY_SIZE p)"

definition entries :: "'e layout \<Rightarrow> page \<Rightarrow> 'e list" where
  "entries L p = map (raw_entry L p) [0..<count_of L p]"

definition page_inv :: "'e layout \<Rightarrow> page \<Rightarrow> bool" where
  "page_inv L p \<longleftrightarrow> is_page p \<and> count_of L p \<le> max_entries L \<and> sorted_by (key_of L) (entries L p)"

definition key_map :: "'e layout \<Rightarrow> page \<Rightarrow> u64 \<rightharpoonup> 'e" where
  "key_map L p k = find_entry (key_of L) k (entries L p)"

text \<open>Everything before the entries except the count is the same.\<close>

definition same_header :: "'e layout \<Rightarrow> page \<Rightarrow> page \<Rightarrow> bool" where
  "same_header L p q \<longleftrightarrow> bytes_at 0 16 p = bytes_at 0 16 q \<and>
     bytes_at 18 (entries_off L - 18) p = bytes_at 18 (entries_off L - 18) q"

lemma length_entries [simp]: "length (entries L p) = count_of L p"
  by (simp add: entries_def)

lemma nth_entries [simp]: "i < count_of L p \<Longrightarrow> entries L p ! i = raw_entry L p i"
  by (simp add: entries_def)

lemma key_map_None: "key_map L p k = None \<longleftrightarrow> k \<notin> key_of L ` set (entries L p)"
  by (simp add: key_map_def find_entry_None)

text \<open>A sorted page has one binding for each entry.\<close>

lemma card_dom_key_map: "sorted_by (key_of L) (entries L p) \<Longrightarrow> card (dom (key_map L p)) = count_of L p"
proof -
  assume "sorted_by (key_of L) (entries L p)"
  then have "distinct (map (key_of L) (entries L p))" by (simp add: sorted_by_def strict_sorted_iff)
  moreover have "dom (key_map L p) = set (map (key_of L) (entries L p))"
    by (simp add: set_eq_iff dom_def key_map_None)
  ultimately show ?thesis by (simp only: distinct_card) simp
qed

lemma same_header_refl [simp]: "same_header L p p"
  by (simp add: same_header_def)

lemma same_header_trans: "same_header L p q \<Longrightarrow> same_header L q r \<Longrightarrow> same_header L p r"
  by (simp add: same_header_def)

lemma same_header_field:
  assumes "same_header L p q" "is_page p" "is_page q" "18 \<le> off" "off + n \<le> entries_off L" "entries_off L \<le> 4096"
  shows "bytes_at off n p = bytes_at off n q"
proof -
  have "bytes_at (off - 18) n (bytes_at 18 (entries_off L - 18) p) =
        bytes_at (off - 18) n (bytes_at 18 (entries_off L - 18) q)"
    using assms(1) by (simp add: same_header_def)
  with assms show ?thesis by (simp add: bytes_at_bytes_at is_page_def PAGE_BUF_SIZE_def)
qed

lemma same_header_uber: "same_header L p q \<Longrightarrow> uber_header p = uber_header q"
  by (simp add: same_header_def uber_header_def UBER_HEADER_SIZE_def)

section \<open>Correctness of the operations, for every layout\<close>

locale entry_layout =
  fixes L :: "'e layout"
  assumes room: "entries_off L + max_entries L * 16 \<le> 4096"
    and hdr: "18 \<le> entries_off L"
    and entry_len: "length (entry_to_bytes L e) = 16"
    and entry_rt: "entry_of_bytes L (entry_to_bytes L e) = e"
    and count: "is_page p \<Longrightarrow> count_of L p = unat (u16_of (bytes_at 16 2 p))"
    and set_count: "is_page p \<Longrightarrow> n < 65536 \<Longrightarrow> set_count L n p = put_at 16 (u16_bytes (word_of_nat n)) p"
begin

lemma page_len: "is_page p \<longleftrightarrow> length p = 4096"
  by (simp add: is_page_def PAGE_BUF_SIZE_def)

lemma entry_fits: "i < max_entries L \<Longrightarrow> entries_off L + i * 16 + 16 \<le> 4096"
proof -
  assume "i < max_entries L"
  then have "(i + 1) * 16 \<le> max_entries L * 16" by (intro mult_le_mono1) simp
  with room show ?thesis by simp
qed

lemma max_small: "max_entries L < 256"
  using room hdr by simp

lemma page_entry_Ok: "page_inv L p \<Longrightarrow> i < count_of L p \<Longrightarrow> page_entry L p i = Ok (entries L p ! i)"
  using entry_fits [of i] by (auto simp: page_entry_def page_inv_def page_len ENTRY_SIZE_def raw_entry_def Let_def)

lemma page_entry_out: "count_of L p \<le> i \<Longrightarrow> page_entry L p i = Err (IndexOutOfBounds i (count_of L p))"
  by (simp add: page_entry_def)

lemma page_key_Ok: "page_inv L p \<Longrightarrow> i < count_of L p \<Longrightarrow> page_key L p i = Ok (key_of L (entries L p ! i))"
  by (simp add: page_key_def page_entry_Ok)

lemma find_slot_correct:
  assumes "page_inv L p"
  shows "page_find_slot L p k =
    Ok (k \<in> key_of L ` set (entries L p), rank (key_of L) k (entries L p))"
proof (cases "count_of L p = 0")
  case True
  then have "entries L p = []" by (simp flip: length_0_conv)
  with True show ?thesis by (simp add: page_find_slot_def rank_def)
next
  case False
  have "rank (key_of L) k (entries L p) < count_of L p" if "k \<in> key_of L ` set (entries L p)"
  proof -
    from that obtain i where "i < length (entries L p)" "key_of L (entries L p ! i) = k"
      by (auto simp: in_set_conv_nth)
    with assms show ?thesis using rank_found by (fastforce simp: page_inv_def)
  qed
  with False assms show ?thesis
    using rank_le [of "key_of L" k "entries L p"]
    by (auto simp: page_find_slot_def Let_def page_inv_def intro!: slot_search_correct page_key_Ok)
qed

lemma count_set [simp]:
  "is_page p \<Longrightarrow> n < 65536 \<Longrightarrow> count_of L (set_count L n p) = n"
  by (simp add: count set_count page_len unat_of_nat)

lemma is_page_set_count [simp]: "is_page p \<Longrightarrow> n < 65536 \<Longrightarrow> is_page (set_count L n p)"
  by (simp add: set_count page_len)

lemma raw_entry_set_count:
  "is_page p \<Longrightarrow> n < 65536 \<Longrightarrow> i < max_entries L \<Longrightarrow> raw_entry L (set_count L n p) i = raw_entry L p i"
  using entry_fits [of i] hdr
  by (simp add: raw_entry_def set_count page_len ENTRY_SIZE_def bytes_at_put_after)

lemma same_header_set_count: "is_page p \<Longrightarrow> n < 65536 \<Longrightarrow> same_header L p (set_count L n p)"
  using room hdr
  by (simp add: same_header_def set_count page_len bytes_at_put_after bytes_at_put_before)

lemma same_header_put:
  "is_page p \<Longrightarrow> entries_off L \<le> off \<Longrightarrow> off + length xs \<le> 4096 \<Longrightarrow> same_header L p (put_at off xs p)"
  using hdr by (simp add: same_header_def page_len bytes_at_put_before)

lemma count_put:
  "is_page p \<Longrightarrow> entries_off L \<le> off \<Longrightarrow> off + length xs \<le> 4096 \<Longrightarrow> count_of L (put_at off xs p) = count_of L p"
  using hdr by (simp add: count page_len bytes_at_put_before)

lemma raw_entry_put_entry:
  assumes "is_page p" "i < max_entries L" "j < max_entries L"
  shows "raw_entry L (put_at (entries_off L + j * 16) (entry_to_bytes L e) p) i =
         (if i = j then e else raw_entry L p i)"
proof -
  note fits = entry_fits [OF assms(2)] entry_fits [OF assms(3)]
  consider "i < j" | "i = j" | "j < i" by linarith
  then show ?thesis
  proof cases
    case 1
    then have "(i + 1) * 16 \<le> j * 16" by (intro mult_le_mono1) simp
    with 1 fits show ?thesis
      by (simp add: raw_entry_def ENTRY_SIZE_def bytes_at_put_before entry_len page_len assms(1) [unfolded page_len])
  next
    case 2
    with fits show ?thesis
      by (simp add: raw_entry_def ENTRY_SIZE_def entry_len entry_rt assms(1) [unfolded page_len])
  next
    case 3
    then have "(j + 1) * 16 \<le> i * 16" by (intro mult_le_mono1) simp
    with 3 fits show ?thesis
      by (simp add: raw_entry_def ENTRY_SIZE_def bytes_at_put_after entry_len assms(1) [unfolded page_len])
  qed
qed

text \<open>Moving the block of entries \<open>a..<a+n\<close> to position \<open>b\<close>.\<close>

lemma raw_entry_move:
  assumes "is_page p" "i < max_entries L" "a + n \<le> max_entries L" "b + n \<le> max_entries L"
  shows "raw_entry L (put_at (entries_off L + b * 16) (bytes_at (entries_off L + a * 16) (n * 16) p) p) i =
         (if b \<le> i \<and> i < b + n then raw_entry L p (i - b + a) else raw_entry L p i)"
proof -
  have len: "length p = 4096" using assms(1) by (simp add: page_len)
  have a: "entries_off L + a * 16 + n * 16 \<le> 4096" "entries_off L + b * 16 + n * 16 \<le> 4096"
    using room mult_le_mono1 [OF assms(3), of 16] mult_le_mono1 [OF assms(4), of 16]
    by (simp_all add: add_mult_distrib)
  note fits = entry_fits [OF assms(2)]
  consider "i < b" | "b \<le> i" "i < b + n" | "b + n \<le> i" by linarith
  then show ?thesis
  proof cases
    case 1
    then have "(i + 1) * 16 \<le> b * 16" by (intro mult_le_mono1) simp
    with 1 fits a len show ?thesis
      by (simp add: raw_entry_def ENTRY_SIZE_def bytes_at_put_before)
  next
    case 2
    define d where "d = i - b"
    have i: "i = b + d" "d < n" using 2 by (auto simp: d_def)
    have d: "(d + 1) * 16 \<le> n * 16" using i(2) by (intro mult_le_mono1) simp
    have "bytes_at (entries_off L + i * 16) 16
           (put_at (entries_off L + b * 16) (bytes_at (entries_off L + a * 16) (n * 16) p) p) =
          bytes_at (d * 16) 16 (bytes_at (entries_off L + a * 16) (n * 16) p)"
      using a len d by (subst bytes_at_put_inside) (simp_all add: i(1) add_mult_distrib)
    also have "\<dots> = bytes_at (entries_off L + (d + a) * 16) 16 p"
      using a len d by (subst bytes_at_bytes_at) (simp_all add: add_mult_distrib algebra_simps)
    finally show ?thesis using 2 by (simp add: raw_entry_def ENTRY_SIZE_def d_def)
  next
    case 3
    then have "(b + n) * 16 \<le> i * 16" by (rule mult_le_mono1)
    with 3 fits a len show ?thesis
      by (simp add: raw_entry_def ENTRY_SIZE_def bytes_at_put_after add_mult_distrib)
  qed
qed

lemma copy_within_Ok:
  "length p = 4096 \<Longrightarrow> s + c \<le> 4096 \<Longrightarrow> d + c \<le> 4096 \<Longrightarrow> copy_within s (s + c) d p = Ok (put_at d (bytes_at s c p) p)"
  by (simp add: copy_within_def)

lemma set_entry_Ok:
  "is_page p \<Longrightarrow> i < max_entries L \<Longrightarrow>
   page_set_entry L i e p = Ok (put_at (entries_off L + i * 16) (entry_to_bytes L e) p)"
  using entry_fits [of i] by (simp add: page_set_entry_def ENTRY_SIZE_def page_len)

lemma insert_full: "max_entries L \<le> count_of L p \<Longrightarrow>
    page_insert L e p = Err (PageFull (max_entries L) (count_of L p + 1))"
  by (simp add: page_insert_def Let_def)

lemma insert_duplicate: "page_inv L p \<Longrightarrow> count_of L p < max_entries L \<Longrightarrow>
    key_of L e \<in> key_of L ` set (entries L p) \<Longrightarrow> page_insert L e p = Err (DuplicateKey (key_of L e))"
  by (simp add: page_insert_def Let_def find_slot_correct)

text \<open>The page that a successful insertion leaves, as two writes and the new count.\<close>

lemma insert_page:
  assumes inv: "page_inv L p" and room': "count_of L p < max_entries L"
    and new: "key_of L e \<notin> key_of L ` set (entries L p)"
    and r: "r = rank (key_of L) (key_of L e) (entries L p)"
    and p1: "p1 = put_at (entries_off L + Suc r * 16)
                    (bytes_at (entries_off L + r * 16) ((count_of L p - r) * 16) p) p"
  shows "page_insert L e p =
    Ok (set_count L (Suc (count_of L p)) (put_at (entries_off L + r * 16) (entry_to_bytes L e) p1))"
    and "is_page p1"
proof -
  have page: "is_page p" "length p = 4096" using inv by (simp_all add: page_inv_def page_len)
  have rle: "r \<le> count_of L p" using rank_le [of "key_of L" "key_of L e" "entries L p"] by (simp add: r)
  have c: "entries_off L + Suc r * 16 + (count_of L p - r) * 16 \<le> 4096"
    using room room' rle mult_le_mono1 [of "Suc (count_of L p)" "max_entries L" 16]
    by (simp add: diff_mult_distrib)
  have p1': "p1 = p" if "r = count_of L p"
    using that c page by (simp add: p1 put_at_def bytes_at_def)
  show is1: "is_page p1" using c page by (simp add: p1 page_len)
  have slot: "page_find_slot L p (key_of L e) = Ok (False, r)"
    using inv new by (simp add: find_slot_correct r)
  have shift: "(if r < count_of L p then
      copy_within (entries_off L + r * ENTRY_SIZE) (entries_off L + r * ENTRY_SIZE + (count_of L p - r) * ENTRY_SIZE)
        (entries_off L + (r + 1) * ENTRY_SIZE) p else Ok p) = (Ok p1 :: (overlay_error, page) outcome)"
    using c page rle p1' by (auto simp: ENTRY_SIZE_def copy_within_Ok p1)
  have "r < max_entries L" using rle room' by simp
  with is1 show "page_insert L e p =
    Ok (set_count L (Suc (count_of L p)) (put_at (entries_off L + r * 16) (entry_to_bytes L e) p1))"
    using room' slot shift by (cases "r < count_of L p") (simp_all add: page_insert_def Let_def set_entry_Ok)
qed

theorem insert_Ok:
  assumes inv: "page_inv L p" and room': "count_of L p < max_entries L"
    and new: "key_of L e \<notin> key_of L ` set (entries L p)"
  obtains p' where "page_insert L e p = Ok p'" "page_inv L p'"
    "entries L p' = insert_sorted (key_of L) e (entries L p)" "same_header L p p'"
proof -
  define r where "r = rank (key_of L) (key_of L e) (entries L p)"
  define n where "n = count_of L p"
  define p1 where "p1 = put_at (entries_off L + Suc r * 16) (bytes_at (entries_off L + r * 16) ((n - r) * 16) p) p"
  define p2 where "p2 = put_at (entries_off L + r * 16) (entry_to_bytes L e) p1"
  define p' where "p' = set_count L (Suc n) p2"
  have ins: "page_insert L e p = Ok p'" and is1: "is_page p1"
    using insert_page [OF inv room' new r_def, of p1] by (simp_all add: p'_def p2_def p1_def n_def)
  have page: "is_page p" using inv by (simp add: page_inv_def)
  have rle: "r \<le> n" using rank_le [of "key_of L" "key_of L e" "entries L p"] by (simp add: r_def n_def)
  have nm: "n < max_entries L" using room' by (simp add: n_def)
  have fit: "entries_off L + r * 16 + 16 \<le> 4096" using entry_fits [of r] rle nm by simp
  then have is2: "is_page p2" using is1 by (simp add: p2_def page_len entry_len)
  have n1: "Suc n < 65536" using nm max_small by simp
  have raw: "raw_entry L p' i = (if i < r then raw_entry L p i else if i = r then e else raw_entry L p (i - 1))"
    if "i < Suc n" for i
  proof -
    have i: "i < max_entries L" using that nm by simp
    have "raw_entry L p' i = (if i = r then e else raw_entry L p1 i)"
      using raw_entry_set_count [OF is2 n1 i] raw_entry_put_entry [OF is1 i, of r e] rle nm
      by (simp add: p'_def p2_def)
    also have "raw_entry L p1 i = (if Suc r \<le> i then raw_entry L p (i - 1) else raw_entry L p i)"
      using raw_entry_move [OF page i, of r "n - r" "Suc r"] that rle nm by (simp add: p1_def)
    finally show ?thesis by auto
  qed
  have cnt: "count_of L p' = Suc n" using is2 n1 by (simp add: p'_def)
  have ents: "entries L p' = insert_sorted (key_of L) e (entries L p)"
  proof (rule nth_equalityI)
    fix i
    assume "i < length (entries L p')"
    then have "i < Suc n" by (simp add: cnt)
    then show "entries L p' ! i = insert_sorted (key_of L) e (entries L p) ! i"
      using rle raw [of i] cnt
      by (auto simp: insert_sorted_def r_def [symmetric] nth_append n_def [symmetric] min_def nth_Cons')
  qed (simp add: cnt n_def)
  have "same_header L p p1"
    unfolding p1_def using page room rle nm mult_le_mono1 [of "Suc n" "max_entries L" 16]
    by (intro same_header_put) (simp_all add: page_len diff_mult_distrib)
  moreover have "same_header L p1 p2"
    unfolding p2_def using is1 fit by (intro same_header_put) (simp_all add: entry_len)
  moreover have "same_header L p2 p'" unfolding p'_def using is2 n1 by (rule same_header_set_count)
  ultimately have "same_header L p p'" using same_header_trans by blast
  moreover have "page_inv L p'"
    using is2 n1 nm cnt ents inv new sorted_insert_sorted [of "key_of L" "entries L p" e]
    by (simp add: page_inv_def p'_def [symmetric]) (simp add: p'_def)
  ultimately show ?thesis using that ins ents by blast
qed

theorem delete_Ok:
  assumes inv: "page_inv L p" and i: "i < count_of L p"
  obtains p' where "page_delete L i p = Ok p'" "page_inv L p'"
    "entries L p' = delete_at i (entries L p)" "same_header L p p'"
proof -
  define n where "n = count_of L p"
  define p1 where "p1 = put_at (entries_off L + i * 16) (bytes_at (entries_off L + Suc i * 16) ((n - 1 - i) * 16) p) p"
  define p' where "p' = set_count L (n - 1) p1"
  have page: "is_page p" "length p = 4096" using inv by (simp_all add: page_inv_def page_len)
  have nm: "n \<le> max_entries L" "i < n" using inv i by (simp_all add: page_inv_def n_def)
  have c: "entries_off L + Suc i * 16 + (n - 1 - i) * 16 \<le> 4096"
    using room nm mult_le_mono1 [of n "max_entries L" 16] by (simp add: diff_mult_distrib)
  have is1: "is_page p1" using c page by (simp add: p1_def page_len)
  have n1: "n - 1 < 65536" using nm max_small by simp
  have del: "page_delete L i p = Ok p'"
  proof (cases "i < n - 1")
    case True
    with page c show ?thesis
      by (simp add: page_delete_def Let_def n_def [symmetric] ENTRY_SIZE_def copy_within_Ok p'_def p1_def)
  next
    case False
    then have "p1 = p" using nm c page by (simp add: p1_def put_at_def bytes_at_def)
    with False nm show ?thesis by (simp add: page_delete_def Let_def n_def [symmetric] p'_def)
  qed
  have cnt: "count_of L p' = n - 1" using is1 n1 by (simp add: p'_def)
  have raw: "raw_entry L p' j = (if j < i then raw_entry L p j else raw_entry L p (Suc j))" if "j < n - 1" for j
  proof -
    have j: "j < max_entries L" using that nm by simp
    show ?thesis
      using raw_entry_set_count [OF is1 n1 j] raw_entry_move [OF page(1) j, of "Suc i" "n - 1 - i" i] that nm
      by (simp add: p'_def p1_def)
  qed
  have ents: "entries L p' = delete_at i (entries L p)"
  proof (rule nth_equalityI)
    fix j
    assume "j < length (entries L p')"
    then have "j < n - 1" by (simp add: cnt)
    then show "entries L p' ! j = delete_at i (entries L p) ! j"
      using nm raw [of j] cnt by (auto simp: delete_at_def nth_append n_def [symmetric] min_def)
  qed (use i in \<open>simp add: cnt n_def\<close>)
  have "same_header L p p1"
    unfolding p1_def using page c by (intro same_header_put) simp_all
  then have "same_header L p p'"
    using same_header_set_count [OF is1 n1] same_header_trans unfolding p'_def by blast
  moreover have "page_inv L p'"
    using is1 n1 nm cnt ents inv sorted_delete_at [of "key_of L" "entries L p" i]
    by (simp add: page_inv_def p'_def [symmetric]) (simp add: p'_def)
  ultimately show ?thesis using that del ents by blast
qed

lemma delete_out: "count_of L p \<le> i \<Longrightarrow> page_delete L i p = Err (IndexOutOfBounds i (count_of L p))"
  by (simp add: page_delete_def)

lemma set_entry_entries:
  assumes page: "is_page p" and i: "i < count_of L p" "count_of L p \<le> max_entries L"
    and q: "q = put_at (entries_off L + i * 16) (entry_to_bytes L e) p"
  shows "page_set_entry L i e p = Ok q" "is_page q" "count_of L q = count_of L p"
    "entries L q = (entries L p)[i := e]" "same_header L p q"
proof -
  have fit: "entries_off L + i * 16 + 16 \<le> 4096" using entry_fits [of i] i by simp
  show "page_set_entry L i e p = Ok q" using page i by (simp add: set_entry_Ok q)
  show "is_page q" using page fit by (simp add: q page_len entry_len)
  show cnt: "count_of L q = count_of L p" unfolding q using page fit by (intro count_put) (simp_all add: entry_len)
  show "same_header L p q" unfolding q using page fit by (intro same_header_put) (simp_all add: entry_len)
  show "entries L q = (entries L p)[i := e]"
  proof (rule nth_equalityI)
    fix j
    assume "j < length (entries L q)"
    then have j: "j < count_of L p" by (simp add: cnt)
    then have "raw_entry L q j = (if j = i then e else raw_entry L p j)"
      using raw_entry_put_entry [OF page, of j i e] i by (simp add: q)
    with j cnt show "entries L q ! j = (entries L p)[i := e] ! j" by simp
  qed (simp add: cnt)
qed

lemma map_key_update: "key_of L e = key_of L (es ! i) \<Longrightarrow> map (key_of L) (es[i := e]) = map (key_of L) es"
  by (simp add: map_update list_update_id flip: nth_map) (metis list_update_beyond list_update_id not_le nth_map length_map)

theorem set_entry_same_key:
  assumes inv: "page_inv L p" and i: "i < count_of L p" and k: "key_of L e = key_of L (entries L p ! i)"
  obtains q where "page_set_entry L i e p = Ok q" "page_inv L q"
    "entries L q = (entries L p)[i := e]" "same_header L p q"
proof -
  define q where "q = put_at (entries_off L + i * 16) (entry_to_bytes L e) p"
  have "is_page p" "count_of L p \<le> max_entries L" using inv by (simp_all add: page_inv_def)
  note q = set_entry_entries [OF this(1) i this(2) q_def]
  then have "page_inv L q" using inv map_key_update [OF k] by (simp add: page_inv_def sorted_by_def)
  with q that show ?thesis by blast
qed

lemma update_absent: "page_inv L p \<Longrightarrow> key_of L e \<notin> key_of L ` set (entries L p) \<Longrightarrow>
    page_update L e p = Ok (False, p)"
  by (simp add: page_update_def find_slot_correct)

theorem update_Ok:
  assumes inv: "page_inv L p" and k: "key_of L e \<in> key_of L ` set (entries L p)"
  obtains q where "page_update L e p = Ok (True, q)" "page_inv L q" "same_header L p q"
    "entries L q = (entries L p)[rank (key_of L) (key_of L e) (entries L p) := e]"
    "key_of L (entries L p ! rank (key_of L) (key_of L e) (entries L p)) = key_of L e"
    "rank (key_of L) (key_of L e) (entries L p) < count_of L p"
proof -
  from k obtain i where i: "i < count_of L p" "key_of L (entries L p ! i) = key_of L e"
    by (auto simp: in_set_conv_nth)
  then have r: "rank (key_of L) (key_of L e) (entries L p) = i"
    using inv rank_found [of "key_of L" "entries L p" i] by (simp add: page_inv_def)
  from inv i obtain q where "page_set_entry L i e p = Ok q" "page_inv L q"
    "entries L q = (entries L p)[i := e]" "same_header L p q"
    using set_entry_same_key [of p i e] by metis
  with that r i k inv show ?thesis by (simp add: page_update_def find_slot_correct)
qed

lemma lookup_correct:
  assumes "page_inv L p"
  shows "page_lookup L p k = Ok (find_entry (key_of L) k (entries L p))"
proof (cases "k \<in> key_of L ` set (entries L p)")
  case True
  then obtain i where i: "i < count_of L p" "key_of L (entries L p ! i) = k"
    by (auto simp: in_set_conv_nth)
  then have r: "rank (key_of L) k (entries L p) = i"
    using assms rank_found [of "key_of L" "entries L p" i] by (simp add: page_inv_def)
  have "find_entry (key_of L) k (entries L p) = Some (entries L p ! i)"
    using find_entry_nth [of "key_of L" "entries L p" i] assms i by (simp add: page_inv_def)
  with True r i assms show ?thesis by (simp add: page_lookup_def find_slot_correct page_entry_Ok)
next
  case False
  then have "find_entry (key_of L) k (entries L p) = None" by (simp add: find_entry_None)
  with False assms show ?thesis by (simp add: page_lookup_def find_slot_correct)
qed

theorem delete_by_key_Ok:
  assumes inv: "page_inv L p" and k: "k \<in> key_of L ` set (entries L p)"
  obtains q where "page_delete_by_key L k p = Ok (True, q)" "page_inv L q" "same_header L p q"
    "entries L q = delete_at (rank (key_of L) k (entries L p)) (entries L p)"
    "key_of L (entries L p ! rank (key_of L) k (entries L p)) = k"
    "rank (key_of L) k (entries L p) < count_of L p"
proof -
  from k obtain i where i: "i < count_of L p" "key_of L (entries L p ! i) = k"
    by (auto simp: in_set_conv_nth)
  then have r: "rank (key_of L) k (entries L p) = i"
    using inv rank_found [of "key_of L" "entries L p" i] by (simp add: page_inv_def)
  obtain q where q: "page_delete L i p = Ok q" "page_inv L q"
    "entries L q = delete_at i (entries L p)" "same_header L p q"
    by (rule delete_Ok [OF inv i(1)])
  then have "page_delete_by_key L k p = Ok (True, q)"
    using inv k r by (simp add: page_delete_by_key_def find_slot_correct)
  with q r i show ?thesis using that by simp
qed

lemma delete_by_key_absent: "page_inv L p \<Longrightarrow> k \<notin> key_of L ` set (entries L p) \<Longrightarrow>
    page_delete_by_key L k p = Ok (False, p)"
  by (simp add: page_delete_by_key_def find_slot_correct)

text \<open>The same results, as changes of the map from keys to entries that the page holds.\<close>

lemma insert_map:
  assumes inv: "page_inv L p" and room': "count_of L p < max_entries L"
    and new: "key_map L p (key_of L e) = None"
  obtains p' where "page_insert L e p = Ok p'" "page_inv L p'" "same_header L p p'"
    "key_map L p' = (key_map L p)(key_of L e \<mapsto> e)" "count_of L p' = Suc (count_of L p)"
proof -
  have new': "key_of L e \<notin> key_of L ` set (entries L p)" using new by (simp add: key_map_def find_entry_None)
  obtain p' where p': "page_insert L e p = Ok p'" "page_inv L p'"
    "entries L p' = insert_sorted (key_of L) e (entries L p)" "same_header L p p'"
    by (rule insert_Ok [OF inv room' new'])
  have "length (entries L p') = Suc (count_of L p)" unfolding p'(3) by simp
  then have cnt: "count_of L p' = Suc (count_of L p)" by simp
  have "key_map L p' = (key_map L p)(key_of L e \<mapsto> e)"
    by (rule ext) (simp add: key_map_def p'(3) find_entry_insert_sorted [OF new'])
  from that [OF p'(1,2,4) this cnt] show ?thesis .
qed

lemma update_map:
  assumes inv: "page_inv L p" and old: "key_map L p (key_of L e) \<noteq> None"
  obtains q where "page_update L e p = Ok (True, q)" "page_inv L q" "same_header L p q"
    "key_map L q = (key_map L p)(key_of L e \<mapsto> e)" "count_of L q = count_of L p"
proof -
  have k: "key_of L e \<in> key_of L ` set (entries L p)" using old by (simp add: key_map_None del: not_None_eq)
  obtain q where q: "page_update L e p = Ok (True, q)" "page_inv L q" "same_header L p q"
    "entries L q = (entries L p)[rank (key_of L) (key_of L e) (entries L p) := e]"
    "key_of L (entries L p ! rank (key_of L) (key_of L e) (entries L p)) = key_of L e"
    "rank (key_of L) (key_of L e) (entries L p) < count_of L p"
    by (rule update_Ok [OF inv k])
  have "length (entries L q) = count_of L p" unfolding q(4) by simp
  then have cnt: "count_of L q = count_of L p" by simp
  have sorted: "sorted_by (key_of L) (entries L p)" using inv by (simp add: page_inv_def)
  have "rank (key_of L) (key_of L e) (entries L p) < length (entries L p)" using q(6) by simp
  from find_entry_list_update [OF sorted this] have "key_map L q = (key_map L p)(key_of L e \<mapsto> e)"
    by (intro ext) (simp add: key_map_def q(4) q(5) del: nth_entries)
  from that [OF q(1-3) this cnt] show ?thesis .
qed

lemma delete_map:
  assumes inv: "page_inv L p" and old: "key_map L p k \<noteq> None"
  obtains q where "page_delete_by_key L k p = Ok (True, q)" "page_inv L q" "same_header L p q"
    "key_map L q = (key_map L p)(k := None)" "Suc (count_of L q) = count_of L p"
proof -
  have k: "k \<in> key_of L ` set (entries L p)" using old by (simp add: key_map_None del: not_None_eq)
  obtain q where q: "page_delete_by_key L k p = Ok (True, q)" "page_inv L q" "same_header L p q"
    "entries L q = delete_at (rank (key_of L) k (entries L p)) (entries L p)"
    "key_of L (entries L p ! rank (key_of L) k (entries L p)) = k"
    "rank (key_of L) k (entries L p) < count_of L p"
    by (rule delete_by_key_Ok [OF inv k])
  have "length (entries L q) = count_of L p - 1" unfolding q(4) using q(6) by simp
  with q(6) have cnt: "Suc (count_of L q) = count_of L p" by simp
  have sorted: "sorted_by (key_of L) (entries L p)" using inv by (simp add: page_inv_def)
  have "rank (key_of L) k (entries L p) < length (entries L p)" using q(6) by simp
  from find_entry_delete_at [OF sorted this] have "key_map L q = (key_map L p)(k := None)"
    by (intro ext) (simp add: key_map_def q(4) q(5) del: nth_entries)
  from that [OF q(1-3) this cnt] show ?thesis .
qed

lemma lookup_map: "page_inv L p \<Longrightarrow> page_lookup L p k = Ok (key_map L p k)"
  by (simp add: lookup_correct key_map_def)

lemma insert_dup_map: "page_inv L p \<Longrightarrow> count_of L p < max_entries L \<Longrightarrow> key_map L p (key_of L e) \<noteq> None \<Longrightarrow>
    page_insert L e p = Err (DuplicateKey (key_of L e))"
  by (rule insert_duplicate) (simp_all add: key_map_None del: not_None_eq)

lemma update_absent_map: "page_inv L p \<Longrightarrow> key_map L p (key_of L e) = None \<Longrightarrow> page_update L e p = Ok (False, p)"
  by (rule update_absent) (auto simp: key_map_None)

lemma delete_absent_map: "page_inv L p \<Longrightarrow> key_map L p k = None \<Longrightarrow> page_delete_by_key L k p = Ok (False, p)"
  by (rule delete_by_key_absent) (auto simp: key_map_None)

lemma page_inv_empty: "is_page p \<Longrightarrow> count_of L p = 0 \<Longrightarrow> page_inv L p \<and> entries L p = []"
  by (simp add: page_inv_def entries_def)

end

end
