(* ===== verification/TreeHeaders.thy ===== *)
theory TreeHeaders
  imports EntryPage
begin

text \<open>
  The type-specific headers of the B-tree pages. \<open>DirectoryLeafHeader\<close> and \<open>BTreeLeafHeader\<close>
  declare the same 24 bytes, \<open>DirectoryInnerHeader\<close> and \<open>BTreeInnerHeader\<close> the same 8, and the
  accessors of the four overlays have the same bodies, so each is modelled once.
\<close>

section \<open>Leaf headers\<close>

record leaf_header =
  lh_num_entries :: u16
  lh_flags :: u16
  lh_next_page :: u32
  lh_prev_page :: u32
  lh_reserved_lo :: u32
  lh_reserved_hi :: u32
  lh_padding :: u32

definition leaf_header_of_bytes :: "byte list \<Rightarrow> leaf_header" where
  "leaf_header_of_bytes bs = \<lparr> lh_num_entries = u16_of (bytes_at 0 2 bs), lh_flags = u16_of (bytes_at 2 2 bs),
     lh_next_page = u32_of (bytes_at 4 4 bs), lh_prev_page = u32_of (bytes_at 8 4 bs),
     lh_reserved_lo = u32_of (bytes_at 12 4 bs), lh_reserved_hi = u32_of (bytes_at 16 4 bs),
     lh_padding = u32_of (bytes_at 20 4 bs) \<rparr>"

definition leaf_header_to_bytes :: "leaf_header \<Rightarrow> byte list" where
  "leaf_header_to_bytes h = u16_bytes (lh_num_entries h) @ u16_bytes (lh_flags h) @
     u32_bytes (lh_next_page h) @ u32_bytes (lh_prev_page h) @
     u32_bytes (lh_reserved_lo h) @ u32_bytes (lh_reserved_hi h) @ u32_bytes (lh_padding h)"

definition LEAF_HEADER_SIZE :: nat where "LEAF_HEADER_SIZE = 24"

definition leaf_header :: "page \<Rightarrow> leaf_header" where
  "leaf_header p = leaf_header_of_bytes (bytes_at UBER_HEADER_SIZE LEAF_HEADER_SIZE p)"

definition update_leaf_header :: "(leaf_header \<Rightarrow> leaf_header) \<Rightarrow> page \<Rightarrow> page" where
  "update_leaf_header f p = put_at UBER_HEADER_SIZE (leaf_header_to_bytes (f (leaf_header p))) p"

definition leaf_num_entries :: "page \<Rightarrow> nat" where
  "leaf_num_entries p = unat (lh_num_entries (leaf_header p))"

definition leaf_flags :: "page \<Rightarrow> u16" where "leaf_flags p = lh_flags (leaf_header p)"
definition leaf_next_page :: "page \<Rightarrow> u32" where "leaf_next_page p = lh_next_page (leaf_header p)"
definition leaf_prev_page :: "page \<Rightarrow> u32" where "leaf_prev_page p = lh_prev_page (leaf_header p)"

definition leaf_reserved :: "page \<Rightarrow> u64" where
  "leaf_reserved p = or (push_bit 32 (ucast (lh_reserved_hi (leaf_header p)))) (ucast (lh_reserved_lo (leaf_header p)))"

definition leaf_set_num_entries :: "nat \<Rightarrow> page \<Rightarrow> page" where
  "leaf_set_num_entries n = update_leaf_header (\<lambda>h. h\<lparr> lh_num_entries := word_of_nat n \<rparr>)"

definition leaf_set_flags :: "u16 \<Rightarrow> page \<Rightarrow> page" where
  "leaf_set_flags v = update_leaf_header (\<lambda>h. h\<lparr> lh_flags := v \<rparr>)"

definition leaf_set_next_page :: "u32 \<Rightarrow> page \<Rightarrow> page" where
  "leaf_set_next_page v = update_leaf_header (\<lambda>h. h\<lparr> lh_next_page := v \<rparr>)"

definition leaf_set_prev_page :: "u32 \<Rightarrow> page \<Rightarrow> page" where
  "leaf_set_prev_page v = update_leaf_header (\<lambda>h. h\<lparr> lh_prev_page := v \<rparr>)"

definition leaf_set_reserved :: "u64 \<Rightarrow> page \<Rightarrow> page" where
  "leaf_set_reserved v = update_leaf_header
     (\<lambda>h. h\<lparr> lh_reserved_lo := ucast v, lh_reserved_hi := ucast (drop_bit 32 v) \<rparr>)"

lemma length_leaf_header_bytes [simp]: "length (leaf_header_to_bytes h) = 24"
  by (simp add: leaf_header_to_bytes_def)

lemma leaf_header_of_to [simp]: "leaf_header_of_bytes (leaf_header_to_bytes h) = h"
  by (simp add: leaf_header_of_bytes_def leaf_header_to_bytes_def bytes_at_def)

text \<open>Seven consecutive fields are the 24 bytes.\<close>

lemma bytes_at_append: "bytes_at off (m + n) bs = bytes_at off m bs @ bytes_at (off + m) n bs"
  by (simp add: bytes_at_def take_add add.commute)

lemma leaf_header_to_of: "length bs = 24 \<Longrightarrow> leaf_header_to_bytes (leaf_header_of_bytes bs) = bs"
proof -
  assume l: "length bs = 24"
  have "bytes_at 0 2 bs @ bytes_at 2 2 bs @ bytes_at 4 4 bs @ bytes_at 8 4 bs @ bytes_at 12 4 bs @
        bytes_at 16 4 bs @ bytes_at 20 4 bs = bytes_at 0 (2 + (2 + (4 + (4 + (4 + (4 + 4)))))) bs"
    by (simp only: bytes_at_append) (simp del: add_2_eq_Suc add_2_eq_Suc')
  then show ?thesis using l by (simp add: leaf_header_to_bytes_def leaf_header_of_bytes_def) (simp add: bytes_at_def)
qed

lemma leaf_header_update [simp]: "is_page p \<Longrightarrow> leaf_header (update_leaf_header f p) = f (leaf_header p)"
  by (simp add: leaf_header_def update_leaf_header_def is_page_def PAGE_BUF_SIZE_def UBER_HEADER_SIZE_def LEAF_HEADER_SIZE_def)

lemma is_page_update_leaf_header [simp]: "is_page p \<Longrightarrow> is_page (update_leaf_header f p)"
  by (simp add: update_leaf_header_def is_page_def PAGE_BUF_SIZE_def UBER_HEADER_SIZE_def)

lemma leaf_num_entries_bytes: "is_page p \<Longrightarrow> leaf_num_entries p = unat (u16_of (bytes_at 16 2 p))"
  by (simp add: leaf_num_entries_def leaf_header_def leaf_header_of_bytes_def is_page_def PAGE_BUF_SIZE_def
      UBER_HEADER_SIZE_def LEAF_HEADER_SIZE_def bytes_at_bytes_at)

lemma leaf_bytes_18: "is_page p \<Longrightarrow>
    bytes_at 18 22 p = u16_bytes (leaf_flags p) @ u32_bytes (leaf_next_page p) @ u32_bytes (leaf_prev_page p) @
      u32_bytes (lh_reserved_lo (leaf_header p)) @ u32_bytes (lh_reserved_hi (leaf_header p)) @ u32_bytes (lh_padding (leaf_header p))"
proof -
  assume p: "is_page p"
  then have "bytes_at 16 24 p = leaf_header_to_bytes (leaf_header p)"
    by (simp add: leaf_header_def UBER_HEADER_SIZE_def LEAF_HEADER_SIZE_def leaf_header_to_of is_page_def PAGE_BUF_SIZE_def)
  then have "bytes_at 2 22 (bytes_at 16 24 p) = bytes_at 2 22 (leaf_header_to_bytes (leaf_header p))" by simp
  with p show ?thesis
    by (simp add: bytes_at_bytes_at is_page_def PAGE_BUF_SIZE_def leaf_header_to_bytes_def leaf_flags_def
        leaf_next_page_def leaf_prev_page_def) (simp add: bytes_at_def)
qed

text \<open>
  The read-modify-write of the whole header changes exactly the count bytes.
\<close>

lemma leaf_set_num_entries_bytes:
  assumes "is_page p"
  shows "leaf_set_num_entries n p = put_at 16 (u16_bytes (word_of_nat n)) p"
proof -
  have hb: "leaf_header_to_bytes ((leaf_header p)\<lparr> lh_num_entries := w \<rparr>) = u16_bytes w @ bytes_at 18 22 p" for w
    using assms by (simp add: leaf_bytes_18 leaf_header_to_bytes_def leaf_flags_def leaf_next_page_def leaf_prev_page_def)
  have "put_at 16 (u16_bytes w @ bytes_at 18 22 p) p = put_at 16 (u16_bytes w) p" for w
    using assms by (intro nth_equalityI) (auto simp: is_page_def PAGE_BUF_SIZE_def nth_put_at nth_append nth_bytes_at)
  then show ?thesis
    by (simp add: leaf_set_num_entries_def update_leaf_header_def UBER_HEADER_SIZE_def hb)
qed

lemma leaf_field_bytes:
  assumes "is_page p"
  shows "leaf_flags p = u16_of (bytes_at 18 2 p)" "leaf_next_page p = u32_of (bytes_at 20 4 p)"
    "leaf_prev_page p = u32_of (bytes_at 24 4 p)"
  using assms
  by (simp_all add: leaf_flags_def leaf_next_page_def leaf_prev_page_def leaf_header_def leaf_header_of_bytes_def
      is_page_def PAGE_BUF_SIZE_def UBER_HEADER_SIZE_def LEAF_HEADER_SIZE_def bytes_at_bytes_at)

lemma leaf_fields_same:
  assumes "same_header L p q" "is_page p" "is_page q" "entries_off L = 40"
  shows "leaf_flags q = leaf_flags p" "leaf_next_page q = leaf_next_page p" "leaf_prev_page q = leaf_prev_page p"
  using same_header_field [OF assms(1-3), of 18 2] same_header_field [OF assms(1-3), of 20 4]
    same_header_field [OF assms(1-3), of 24 4] assms(2-4)
  by (simp_all add: leaf_field_bytes)

text \<open>Writing the leaf header leaves the rest of the page alone.\<close>

lemma bytes_at_update_leaf_header:
  "is_page p \<Longrightarrow> 40 \<le> off \<Longrightarrow> off + n \<le> 4096 \<Longrightarrow> bytes_at off n (update_leaf_header f p) = bytes_at off n p"
  "is_page p \<Longrightarrow> m \<le> 16 \<Longrightarrow> bytes_at 0 m (update_leaf_header f p) = bytes_at 0 m p"
  by (simp_all add: update_leaf_header_def is_page_def PAGE_BUF_SIZE_def UBER_HEADER_SIZE_def
      bytes_at_put_after bytes_at_put_before)

lemma uber_update_leaf_header [simp]: "is_page p \<Longrightarrow> uber_header (update_leaf_header f p) = uber_header p"
  by (simp add: uber_header_def UBER_HEADER_SIZE_def bytes_at_update_leaf_header)

lemma leaf_num_entries_setters [simp]:
  "is_page p \<Longrightarrow> leaf_num_entries (leaf_set_flags a p) = leaf_num_entries p"
  "is_page p \<Longrightarrow> leaf_num_entries (leaf_set_next_page b p) = leaf_num_entries p"
  "is_page p \<Longrightarrow> leaf_num_entries (leaf_set_prev_page b p) = leaf_num_entries p"
  "is_page p \<Longrightarrow> leaf_num_entries (leaf_set_reserved c p) = leaf_num_entries p"
  by (simp_all add: leaf_num_entries_def leaf_set_flags_def leaf_set_next_page_def leaf_set_prev_page_def leaf_set_reserved_def)

lemma leaf_link_setters [simp]:
  "is_page p \<Longrightarrow> leaf_next_page (leaf_set_next_page b p) = b"
  "is_page p \<Longrightarrow> leaf_prev_page (leaf_set_next_page b p) = leaf_prev_page p"
  "is_page p \<Longrightarrow> leaf_next_page (leaf_set_prev_page b p) = leaf_next_page p"
  "is_page p \<Longrightarrow> leaf_prev_page (leaf_set_prev_page b p) = b"
  by (simp_all add: leaf_next_page_def leaf_prev_page_def leaf_set_next_page_def leaf_set_prev_page_def)

lemma is_page_leaf_setters [simp]:
  "is_page p \<Longrightarrow> is_page (leaf_set_next_page b p)"
  "is_page p \<Longrightarrow> is_page (leaf_set_prev_page b p)"
  "is_page p \<Longrightarrow> is_page (leaf_set_flags f p)"
  "is_page p \<Longrightarrow> is_page (leaf_set_reserved v p)"
  by (simp_all add: leaf_set_next_page_def leaf_set_prev_page_def leaf_set_flags_def leaf_set_reserved_def)

text \<open>The two halves of the reserved word come back together.\<close>

lemma leaf_reserved_roundtrip: "is_page p \<Longrightarrow> leaf_reserved (leaf_set_reserved v p) = v"
  unfolding leaf_reserved_def leaf_set_reserved_def
  by (simp, rule bit_word_eqI) (auto simp: bit_simps)

section \<open>Inner headers\<close>

record inner_header =
  ih_num_keys :: u16
  ih_flags :: u16
  ih_leftmost_child :: u32

definition inner_header_of_bytes :: "byte list \<Rightarrow> inner_header" where
  "inner_header_of_bytes bs = \<lparr> ih_num_keys = u16_of (bytes_at 0 2 bs), ih_flags = u16_of (bytes_at 2 2 bs),
     ih_leftmost_child = u32_of (bytes_at 4 4 bs) \<rparr>"

definition inner_header_to_bytes :: "inner_header \<Rightarrow> byte list" where
  "inner_header_to_bytes h = u16_bytes (ih_num_keys h) @ u16_bytes (ih_flags h) @ u32_bytes (ih_leftmost_child h)"

definition INNER_HEADER_SIZE :: nat where "INNER_HEADER_SIZE = 8"

definition inner_header :: "page \<Rightarrow> inner_header" where
  "inner_header p = inner_header_of_bytes (bytes_at UBER_HEADER_SIZE INNER_HEADER_SIZE p)"

definition update_inner_header :: "(inner_header \<Rightarrow> inner_header) \<Rightarrow> page \<Rightarrow> page" where
  "update_inner_header f p = put_at UBER_HEADER_SIZE (inner_header_to_bytes (f (inner_header p))) p"

definition inner_num_keys :: "page \<Rightarrow> nat" where "inner_num_keys p = unat (ih_num_keys (inner_header p))"
definition inner_flags :: "page \<Rightarrow> u16" where "inner_flags p = ih_flags (inner_header p)"
definition inner_leftmost_child :: "page \<Rightarrow> u32" where "inner_leftmost_child p = ih_leftmost_child (inner_header p)"

definition inner_set_num_keys :: "nat \<Rightarrow> page \<Rightarrow> page" where
  "inner_set_num_keys n = update_inner_header (\<lambda>h. h\<lparr> ih_num_keys := word_of_nat n \<rparr>)"

definition inner_set_flags :: "u16 \<Rightarrow> page \<Rightarrow> page" where
  "inner_set_flags v = update_inner_header (\<lambda>h. h\<lparr> ih_flags := v \<rparr>)"

definition inner_set_leftmost_child :: "u32 \<Rightarrow> page \<Rightarrow> page" where
  "inner_set_leftmost_child v = update_inner_header (\<lambda>h. h\<lparr> ih_leftmost_child := v \<rparr>)"

lemma length_inner_header_bytes [simp]: "length (inner_header_to_bytes h) = 8"
  by (simp add: inner_header_to_bytes_def)

lemma inner_header_of_to [simp]: "inner_header_of_bytes (inner_header_to_bytes h) = h"
  by (simp add: inner_header_of_bytes_def inner_header_to_bytes_def bytes_at_def)

lemma inner_header_to_of: "length bs = 8 \<Longrightarrow> inner_header_to_bytes (inner_header_of_bytes bs) = bs"
proof -
  assume l: "length bs = 8"
  have "bytes_at 0 2 bs @ bytes_at 2 2 bs @ bytes_at 4 4 bs = bytes_at 0 (2 + (2 + 4)) bs"
    by (simp only: bytes_at_append) (simp del: add_2_eq_Suc add_2_eq_Suc')
  then show ?thesis using l by (simp add: inner_header_to_bytes_def inner_header_of_bytes_def) (simp add: bytes_at_def)
qed

lemma inner_header_update [simp]: "is_page p \<Longrightarrow> inner_header (update_inner_header f p) = f (inner_header p)"
  by (simp add: inner_header_def update_inner_header_def is_page_def PAGE_BUF_SIZE_def UBER_HEADER_SIZE_def INNER_HEADER_SIZE_def)

lemma is_page_update_inner_header [simp]: "is_page p \<Longrightarrow> is_page (update_inner_header f p)"
  by (simp add: update_inner_header_def is_page_def PAGE_BUF_SIZE_def UBER_HEADER_SIZE_def)

lemma inner_num_keys_bytes: "is_page p \<Longrightarrow> inner_num_keys p = unat (u16_of (bytes_at 16 2 p))"
  by (simp add: inner_num_keys_def inner_header_def inner_header_of_bytes_def is_page_def PAGE_BUF_SIZE_def
      UBER_HEADER_SIZE_def INNER_HEADER_SIZE_def bytes_at_bytes_at)

lemma inner_bytes_18: "is_page p \<Longrightarrow>
    bytes_at 18 6 p = u16_bytes (inner_flags p) @ u32_bytes (inner_leftmost_child p)"
proof -
  assume p: "is_page p"
  then have "bytes_at 16 8 p = inner_header_to_bytes (inner_header p)"
    by (simp add: inner_header_def UBER_HEADER_SIZE_def INNER_HEADER_SIZE_def inner_header_to_of is_page_def PAGE_BUF_SIZE_def)
  then have "bytes_at 2 6 (bytes_at 16 8 p) = bytes_at 2 6 (inner_header_to_bytes (inner_header p))" by simp
  with p show ?thesis
    by (simp add: bytes_at_bytes_at is_page_def PAGE_BUF_SIZE_def inner_header_to_bytes_def inner_flags_def
        inner_leftmost_child_def) (simp add: bytes_at_def)
qed

lemma inner_set_num_keys_bytes:
  assumes "is_page p"
  shows "inner_set_num_keys n p = put_at 16 (u16_bytes (word_of_nat n)) p"
proof -
  have hb: "inner_header_to_bytes ((inner_header p)\<lparr> ih_num_keys := w \<rparr>) = u16_bytes w @ bytes_at 18 6 p" for w
    using assms by (simp add: inner_bytes_18 inner_header_to_bytes_def inner_flags_def inner_leftmost_child_def)
  have "put_at 16 (u16_bytes w @ bytes_at 18 6 p) p = put_at 16 (u16_bytes w) p" for w
    using assms by (intro nth_equalityI) (auto simp: is_page_def PAGE_BUF_SIZE_def nth_put_at nth_append nth_bytes_at)
  then show ?thesis
    by (simp add: inner_set_num_keys_def update_inner_header_def UBER_HEADER_SIZE_def hb)
qed

lemma inner_field_bytes:
  assumes "is_page p"
  shows "inner_leftmost_child p = u32_of (bytes_at 20 4 p)"
  using assms
  by (simp add: inner_leftmost_child_def inner_header_def inner_header_of_bytes_def
      is_page_def PAGE_BUF_SIZE_def UBER_HEADER_SIZE_def INNER_HEADER_SIZE_def bytes_at_bytes_at)

lemma inner_fields_same:
  assumes "same_header L p q" "is_page p" "is_page q" "entries_off L = 24"
  shows "inner_leftmost_child q = inner_leftmost_child p"
  using same_header_field [OF assms(1-3), of 20 4] assms(2-4)
  by (simp add: inner_field_bytes)

lemma bytes_at_update_inner_header:
  "is_page p \<Longrightarrow> 24 \<le> off \<Longrightarrow> off + n \<le> 4096 \<Longrightarrow> bytes_at off n (update_inner_header f p) = bytes_at off n p"
  "is_page p \<Longrightarrow> m \<le> 16 \<Longrightarrow> bytes_at 0 m (update_inner_header f p) = bytes_at 0 m p"
  by (simp_all add: update_inner_header_def is_page_def PAGE_BUF_SIZE_def UBER_HEADER_SIZE_def
      bytes_at_put_after bytes_at_put_before)

lemma uber_update_inner_header [simp]: "is_page p \<Longrightarrow> uber_header (update_inner_header f p) = uber_header p"
  by (simp add: uber_header_def UBER_HEADER_SIZE_def bytes_at_update_inner_header)

section \<open>Routing\<close>

text \<open>
  \<open>find_child(search_key)\<close>: the leftmost child below the first separator, otherwise the right
  child of the largest separator at or below the key.
\<close>

definition page_find_child :: "'e layout \<Rightarrow> ('e \<Rightarrow> u32) \<Rightarrow> page \<Rightarrow> u64 \<Rightarrow> (overlay_error, u32) outcome" where
  "page_find_child L right_child p search_key =
     (let num_keys = count_of L p in
      if num_keys = 0 then Ok (inner_leftmost_child p)
      else bind_ok (unwrap (page_key L p 0)) (\<lambda>first_sep.
        if search_key < first_sep then Ok (inner_leftmost_child p)
        else bind_ok (child_search (page_key L p) search_key 0 num_keys 0) (\<lambda>result.
          bind_ok (unwrap (page_entry L p result)) (\<lambda>e. Ok (right_child e)))))"

text \<open>What routing means on the sorted separators.\<close>

definition route :: "('e \<Rightarrow> 'k::linorder) \<Rightarrow> ('e \<Rightarrow> 'c) \<Rightarrow> 'c \<Rightarrow> 'k \<Rightarrow> 'e list \<Rightarrow> 'c" where
  "route f g lm k es = (if upper_rank f k es = 0 then lm else g (es ! (upper_rank f k es - 1)))"

context entry_layout
begin

lemma find_child_correct:
  assumes inv: "page_inv L p"
  shows "page_find_child L right_child p k =
    Ok (route (key_of L) right_child (inner_leftmost_child p) k (entries L p))"
proof (cases "count_of L p = 0")
  case True
  then have "entries L p = []" by (simp flip: length_0_conv)
  with True show ?thesis by (simp add: page_find_child_def route_def upper_rank_def)
next
  case False
  let ?es = "entries L p" and ?u = "upper_rank (key_of L) k (entries L p)"
  have sorted: "sorted_by (key_of L) ?es" using inv by (simp add: page_inv_def)
  have key0: "page_key L p 0 = Ok (key_of L (?es ! 0))" using inv False by (intro page_key_Ok) simp_all
  show ?thesis
  proof (cases "k < key_of L (?es ! 0)")
    case True
    then have "?u = 0" using upper_rank_below [of 0 "key_of L" k ?es] by force
    with True False key0 show ?thesis by (simp add: page_find_child_def Let_def route_def)
  next
    case ge: False
    have "0 < ?u"
    proof (rule ccontr)
      assume "\<not> 0 < ?u"
      with upper_rank_above [OF sorted, of k 0] False ge show False by simp
    qed
    moreover have "?u \<le> count_of L p" using upper_rank_le [of "key_of L" k ?es] by simp
    ultimately have "child_search (page_key L p) k 0 (count_of L p) 0 = Ok (?u - 1)"
      using inv by (intro child_search_correct [OF sorted]) (simp_all add: page_key_Ok)
    moreover have "page_entry L p (?u - 1) = Ok (?es ! (?u - 1))"
      using \<open>0 < ?u\<close> \<open>?u \<le> count_of L p\<close> inv by (intro page_entry_Ok) simp_all
    ultimately show ?thesis
      using \<open>0 < ?u\<close> False ge key0 by (simp add: page_find_child_def Let_def route_def)
  qed
qed

end

section \<open>Fresh pages\<close>

lemma replicate_zero_int [simp]:
  "u16_of [0, 0] = 0" "u32_of [0, 0, 0, 0] = 0"
  by (simp_all add: u16_of_def u32_of_def)

lemma fresh_leaf:
  assumes "is_page data"
  shows "is_page (init_uber t pid data)" "leaf_num_entries (init_uber t pid data) = 0"
    "leaf_next_page (init_uber t pid data) = 0" "leaf_prev_page (init_uber t pid data) = 0"
proof -
  have len: "length data = 4096" using assms by (simp add: is_page_def PAGE_BUF_SIZE_def)
  then show p: "is_page (init_uber t pid data)" by (simp add: is_page_def PAGE_BUF_SIZE_def)
  show "leaf_num_entries (init_uber t pid data) = 0"
    "leaf_next_page (init_uber t pid data) = 0" "leaf_prev_page (init_uber t pid data) = 0"
    using p len by (simp_all add: leaf_num_entries_bytes leaf_field_bytes init_uber_rest eval_nat_numeral)
qed

definition init_inner :: "page_type \<Rightarrow> u32 \<Rightarrow> u32 \<Rightarrow> byte list \<Rightarrow> page" where
  "init_inner t pid lm data = put_at UBER_HEADER_SIZE
     (inner_header_to_bytes \<lparr> ih_num_keys = 0, ih_flags = 0, ih_leftmost_child = lm \<rparr>) (init_uber t pid data)"

lemma fresh_inner:
  assumes "is_page data"
  shows "is_page (init_inner t pid lm data)" "inner_num_keys (init_inner t pid lm data) = 0"
    "inner_leftmost_child (init_inner t pid lm data) = lm"
    "page_type_id (uber_header (init_inner t pid lm data)) = page_type_byte t"
    "page_id (uber_header (init_inner t pid lm data)) = pid"
proof -
  have len: "length data = 4096" using assms by (simp add: is_page_def PAGE_BUF_SIZE_def)
  have h: "inner_header (init_inner t pid lm data) = \<lparr> ih_num_keys = 0, ih_flags = 0, ih_leftmost_child = lm \<rparr>"
    using len by (simp add: inner_header_def init_inner_def UBER_HEADER_SIZE_def INNER_HEADER_SIZE_def)
  show "is_page (init_inner t pid lm data)" "inner_num_keys (init_inner t pid lm data) = 0"
    "inner_leftmost_child (init_inner t pid lm data) = lm"
    using len h by (simp_all add: is_page_def PAGE_BUF_SIZE_def init_inner_def inner_num_keys_def
        inner_leftmost_child_def UBER_HEADER_SIZE_def)
  have "uber_header (init_inner t pid lm data) = uber_header (init_uber t pid data)"
    using len by (simp add: uber_header_def init_inner_def UBER_HEADER_SIZE_def bytes_at_put_before)
  with len show "page_type_id (uber_header (init_inner t pid lm data)) = page_type_byte t"
    "page_id (uber_header (init_inner t pid lm data)) = pid" by simp_all
qed

section \<open>Inner pages\<close>

text \<open>\<open>DirectoryInnerEntry\<close> and \<open>BTreeInnerEntry\<close>, and the array both inner overlays keep them in.\<close>

record inner_entry =
  separator_key :: u64
  right_child :: u32
  ie_padding :: u32

definition inner_entry_new :: "u64 \<Rightarrow> u32 \<Rightarrow> inner_entry" where
  "inner_entry_new k c = \<lparr> separator_key = k, right_child = c, ie_padding = 0 \<rparr>"

definition inner_entry_of_bytes :: "byte list \<Rightarrow> inner_entry" where
  "inner_entry_of_bytes bs = \<lparr> separator_key = u64_of (bytes_at 0 8 bs),
     right_child = u32_of (bytes_at 8 4 bs), ie_padding = u32_of (bytes_at 12 4 bs) \<rparr>"

definition inner_entry_to_bytes :: "inner_entry \<Rightarrow> byte list" where
  "inner_entry_to_bytes e = u64_bytes (separator_key e) @ u32_bytes (right_child e) @ u32_bytes (ie_padding e)"

definition INNER_ENTRIES_OFFSET :: nat where "INNER_ENTRIES_OFFSET = UBER_HEADER_SIZE + INNER_HEADER_SIZE"
definition MAX_KEYS :: nat where "MAX_KEYS = (PAGE_BUF_SIZE - INNER_ENTRIES_OFFSET) div ENTRY_SIZE"
definition INNER_SAFE_INSERT_THRESHOLD :: nat where "INNER_SAFE_INSERT_THRESHOLD = MAX_KEYS - 1"
definition INNER_MERGE_THRESHOLD :: nat where "INNER_MERGE_THRESHOLD = MAX_KEYS div 2"

definition inner_layout :: "inner_entry layout" where
  "inner_layout = \<lparr> entries_off = INNER_ENTRIES_OFFSET, max_entries = MAX_KEYS,
     count_of = inner_num_keys, set_count = inner_set_num_keys,
     entry_of_bytes = inner_entry_of_bytes, entry_to_bytes = inner_entry_to_bytes,
     key_of = separator_key \<rparr>"

lemma inner_constants [simp]:
  "INNER_ENTRIES_OFFSET = 24" "MAX_KEYS = 254" "INNER_SAFE_INSERT_THRESHOLD = 253" "INNER_MERGE_THRESHOLD = 127"
  by (simp_all add: INNER_ENTRIES_OFFSET_def MAX_KEYS_def INNER_SAFE_INSERT_THRESHOLD_def INNER_MERGE_THRESHOLD_def
      UBER_HEADER_SIZE_def INNER_HEADER_SIZE_def PAGE_BUF_SIZE_def ENTRY_SIZE_def)

lemma inner_layout_simps [simp]:
  "entries_off inner_layout = 24" "max_entries inner_layout = 254" "count_of inner_layout = inner_num_keys"
  "set_count inner_layout = inner_set_num_keys" "key_of inner_layout = separator_key"
  "entry_of_bytes inner_layout = inner_entry_of_bytes" "entry_to_bytes inner_layout = inner_entry_to_bytes"
  by (simp_all add: inner_layout_def)

lemma inner_entry_roundtrip: "inner_entry_of_bytes (inner_entry_to_bytes e) = e"
  by (simp add: inner_entry_of_bytes_def inner_entry_to_bytes_def bytes_at_def)

lemma length_inner_entry [simp]: "length (inner_entry_to_bytes e) = 16"
  by (simp add: inner_entry_to_bytes_def)

lemma inner_entry_new_simps [simp]:
  "separator_key (inner_entry_new k c) = k" "right_child (inner_entry_new k c) = c"
  by (simp_all add: inner_entry_new_def)

interpretation inner: entry_layout inner_layout
  by unfold_locales (simp_all add: inner_entry_roundtrip inner_num_keys_bytes inner_set_num_keys_bytes)

text \<open>\<open>update_child(index, new_child)\<close>.\<close>

definition page_update_child :: "nat \<Rightarrow> u32 \<Rightarrow> page \<Rightarrow> (overlay_error, page) outcome" where
  "page_update_child index new_child p =
     (let num_keys = inner_num_keys p in
      if num_keys \<le> index then Err (IndexOutOfBounds index num_keys)
      else bind_ok (page_entry inner_layout p index) (\<lambda>e.
        page_set_entry inner_layout index (inner_entry_new (separator_key e) new_child) p))"

text \<open>The separators and children of an inner page, left to right.\<close>

definition seps :: "page \<Rightarrow> (u64 \<times> u32) list" where
  "seps p = map (\<lambda>e. (separator_key e, right_child e)) (entries inner_layout p)"

abbreviation inner_inv :: "page \<Rightarrow> bool" where "inner_inv \<equiv> page_inv inner_layout"

definition children :: "page \<Rightarrow> u32 list" where
  "children p = inner_leftmost_child p # map snd (seps p)"

lemma length_seps [simp]: "length (seps p) = inner_num_keys p"
  by (simp add: seps_def)

lemma map_insert_sorted:
  "(\<And>x. g (h x) = f x) \<Longrightarrow> map h (insert_sorted f e es) = insert_sorted g (h e) (map h es)"
  by (simp add: insert_sorted_def rank_def takeWhile_map comp_def take_map drop_map)

lemma insert_separator_Ok:
  assumes inv: "inner_inv p" and room': "inner_num_keys p < 254" and new: "k \<notin> fst ` set (seps p)"
  obtains p' where "page_insert inner_layout (inner_entry_new k c) p = Ok p'" "inner_inv p'"
    "seps p' = insert_sorted fst (k, c) (seps p)" "inner_leftmost_child p' = inner_leftmost_child p"
    "uber_header p' = uber_header p"
proof -
  have new': "key_of inner_layout (inner_entry_new k c) \<notin> key_of inner_layout ` set (entries inner_layout p)"
    using new by (simp add: seps_def image_image)
  obtain p' where p': "page_insert inner_layout (inner_entry_new k c) p = Ok p'" "inner_inv p'"
    "entries inner_layout p' = insert_sorted (key_of inner_layout) (inner_entry_new k c) (entries inner_layout p)"
    "same_header inner_layout p p'"
    by (rule inner.insert_Ok [OF inv _ new']) (simp add: room')
  moreover have "seps p' = insert_sorted fst (k, c) (seps p)"
    unfolding seps_def p'(3) by (subst map_insert_sorted [where g = fst]) simp_all
  moreover have "is_page p" "is_page p'" using inv p'(2) by (simp_all add: page_inv_def)
  ultimately show ?thesis
    using that inner_fields_same [of inner_layout p p'] same_header_uber [of inner_layout p p'] by simp
qed

lemma find_child_seps:
  "inner_inv p \<Longrightarrow> page_find_child inner_layout right_child p k =
     Ok (children p ! upper_rank fst k (seps p))"
proof -
  assume inv: "inner_inv p"
  have u: "upper_rank fst k (seps p) = upper_rank separator_key k (entries inner_layout p)"
    by (simp add: upper_rank_def seps_def takeWhile_map comp_def)
  have le: "upper_rank separator_key k (entries inner_layout p) \<le> length (entries inner_layout p)" by (rule upper_rank_le)
  have "route separator_key right_child (inner_leftmost_child p) k (entries inner_layout p) =
        children p ! upper_rank separator_key k (entries inner_layout p)"
    using le by (auto simp: route_def children_def seps_def nth_Cons' simp del: length_entries nth_entries upper_rank_le)
  with inner.find_child_correct [OF inv, of right_child k] show ?thesis by (simp add: u)
qed

lemma find_child_last:
  "inner_inv p \<Longrightarrow> page_find_child inner_layout right_child p k =
     Ok (last (inner_leftmost_child p # map snd (filter (\<lambda>s. fst s \<le> k) (seps p))))"
proof -
  assume inv: "inner_inv p"
  then have "sorted_by fst (seps p)" by (simp add: page_inv_def seps_def sorted_by_def comp_def)
  with inv show ?thesis by (simp only: find_child_seps children_def nth_upper_rank)
qed

lemma insert_separator_routes:
  assumes inv: "inner_inv p" and room': "inner_num_keys p < 254" and new: "k \<notin> fst ` set (seps p)"
  shows "\<exists>p'. page_insert inner_layout (inner_entry_new k c) p = Ok p' \<and> inner_inv p' \<and>
    uber_header p' = uber_header p \<and> fst ` set (seps p') = insert k (fst ` set (seps p)) \<and>
    (\<forall>x. page_find_child inner_layout right_child p' x =
      (if k \<le> x \<and> (\<forall>s\<in>fst ` set (seps p). s \<le> x \<longrightarrow> s < k) then Ok c
       else page_find_child inner_layout right_child p x))"
proof -
  obtain p' where p': "page_insert inner_layout (inner_entry_new k c) p = Ok p'" "inner_inv p'"
    "seps p' = insert_sorted fst (k, c) (seps p)" "inner_leftmost_child p' = inner_leftmost_child p"
    "uber_header p' = uber_header p"
    by (rule insert_separator_Ok [OF inv room' new, of c])
  have sorted: "sorted_by fst (seps p)" using inv by (simp add: page_inv_def seps_def sorted_by_def comp_def)
  have new': "fst (k, c) \<notin> fst ` set (seps p)" using new by simp
  have keys: "fst ` set (seps p') = insert k (fst ` set (seps p))" by (simp add: p'(3))
  have "page_find_child inner_layout right_child p' x =
      (if k \<le> x \<and> (\<forall>s\<in>fst ` set (seps p). s \<le> x \<longrightarrow> s < k) then Ok c
       else page_find_child inner_layout right_child p x)" for x
  proof -
    have "last (inner_leftmost_child p' # map snd (filter (\<lambda>s. fst s \<le> x) (seps p'))) =
      (if k \<le> x \<and> (\<forall>s\<in>fst ` set (seps p). s \<le> x \<longrightarrow> s < k) then c
       else last (inner_leftmost_child p # map snd (filter (\<lambda>s. fst s \<le> x) (seps p))))"
      using last_filter_insert_sorted [OF sorted new', of "inner_leftmost_child p" snd x]
      unfolding p'(3,4) by (simp only: fst_conv snd_conv)
    then show ?thesis
      unfolding find_child_last [OF inv] find_child_last [OF p'(2)] by (simp only: if_distrib [of Ok])
  qed
  with p' keys show ?thesis by blast
qed

end
