(* ===== verification/DirLeaf.thy ===== *)
theory DirLeaf
  imports TreeHeaders
begin

text \<open>
  \<open>src/src/page/overlays/directory/leaf.rs\<close>: the leaves of the page directory, which map a
  logical page id to the file and page number that hold it.
\<close>

section \<open>Entries\<close>

record directory_leaf_entry =
  search_key :: u64
  file_id :: u32
  page_number :: u32

definition directory_leaf_entry_new :: "u32 \<Rightarrow> u32 \<Rightarrow> u32 \<Rightarrow> directory_leaf_entry" where
  "directory_leaf_entry_new logical_page_id fid pn =
     \<lparr> search_key = ucast logical_page_id, file_id = fid, page_number = pn \<rparr>"

definition from_ppage_id :: "u32 \<Rightarrow> ppage_id \<Rightarrow> directory_leaf_entry" where
  "from_ppage_id logical_page_id pp =
     \<lparr> search_key = ucast logical_page_id, file_id = pp_file pp,
       page_number = ucast (pp_offset pp div word_of_nat PAGE_BUF_SIZE) \<rparr>"

definition to_ppage_id :: "directory_leaf_entry \<Rightarrow> ppage_id" where
  "to_ppage_id e = \<lparr> pp_file = file_id e,
     pp_offset = ucast (page_number e) * word_of_nat PAGE_BUF_SIZE \<rparr>"

definition logical_page_id :: "directory_leaf_entry \<Rightarrow> u32" where
  "logical_page_id e = ucast (search_key e)"

definition directory_leaf_entry_of_bytes :: "byte list \<Rightarrow> directory_leaf_entry" where
  "directory_leaf_entry_of_bytes bs = \<lparr> search_key = u64_of (bytes_at 0 8 bs),
     file_id = u32_of (bytes_at 8 4 bs), page_number = u32_of (bytes_at 12 4 bs) \<rparr>"

definition directory_leaf_entry_to_bytes :: "directory_leaf_entry \<Rightarrow> byte list" where
  "directory_leaf_entry_to_bytes e = u64_bytes (search_key e) @ u32_bytes (file_id e) @ u32_bytes (page_number e)"

section \<open>Layout\<close>

definition dl_ENTRIES_OFFSET :: nat where "dl_ENTRIES_OFFSET = UBER_HEADER_SIZE + LEAF_HEADER_SIZE"
definition dl_MAX_ENTRIES :: nat where "dl_MAX_ENTRIES = (PAGE_BUF_SIZE - dl_ENTRIES_OFFSET) div ENTRY_SIZE"
definition dl_SAFE_INSERT_THRESHOLD :: nat where "dl_SAFE_INSERT_THRESHOLD = dl_MAX_ENTRIES - 1"
definition dl_MERGE_THRESHOLD :: nat where "dl_MERGE_THRESHOLD = dl_MAX_ENTRIES div 2"

definition dl_layout :: "directory_leaf_entry layout" where
  "dl_layout = \<lparr> entries_off = dl_ENTRIES_OFFSET, max_entries = dl_MAX_ENTRIES,
     count_of = leaf_num_entries, set_count = leaf_set_num_entries,
     entry_of_bytes = directory_leaf_entry_of_bytes, entry_to_bytes = directory_leaf_entry_to_bytes,
     key_of = search_key \<rparr>"

lemma dl_constants [simp]:
  "dl_ENTRIES_OFFSET = 40" "dl_MAX_ENTRIES = 253" "dl_SAFE_INSERT_THRESHOLD = 252" "dl_MERGE_THRESHOLD = 126"
  by (simp_all add: dl_ENTRIES_OFFSET_def dl_MAX_ENTRIES_def dl_SAFE_INSERT_THRESHOLD_def dl_MERGE_THRESHOLD_def
      UBER_HEADER_SIZE_def LEAF_HEADER_SIZE_def PAGE_BUF_SIZE_def ENTRY_SIZE_def)

lemma dl_layout_simps [simp]:
  "entries_off dl_layout = 40" "max_entries dl_layout = 253" "count_of dl_layout = leaf_num_entries"
  "set_count dl_layout = leaf_set_num_entries" "key_of dl_layout = search_key"
  "entry_of_bytes dl_layout = directory_leaf_entry_of_bytes"
  "entry_to_bytes dl_layout = directory_leaf_entry_to_bytes"
  by (simp_all add: dl_layout_def)

lemma directory_leaf_entry_roundtrip:
  "directory_leaf_entry_of_bytes (directory_leaf_entry_to_bytes e) = e"
  by (simp add: directory_leaf_entry_of_bytes_def directory_leaf_entry_to_bytes_def bytes_at_def)

lemma length_directory_leaf_entry [simp]: "length (directory_leaf_entry_to_bytes e) = 16"
  by (simp add: directory_leaf_entry_to_bytes_def)

interpretation dleaf: entry_layout dl_layout
  by unfold_locales
    (simp_all add: directory_leaf_entry_roundtrip leaf_num_entries_bytes leaf_set_num_entries_bytes)

section \<open>The overlay\<close>

definition dl_from_buffer :: "byte list \<Rightarrow> (overlay_error, page) outcome" where
  "dl_from_buffer = overlay_from_buffer DirectoryLeaf"

definition dl_init :: "byte list \<Rightarrow> u32 \<Rightarrow> page" where
  "dl_init data pid = init_uber DirectoryLeaf pid data"

definition dl_entry :: "page \<Rightarrow> nat \<Rightarrow> (overlay_error, directory_leaf_entry) outcome" where
  "dl_entry = page_entry dl_layout"

definition dl_find_slot :: "page \<Rightarrow> u64 \<Rightarrow> (overlay_error, bool \<times> nat) outcome" where
  "dl_find_slot = page_find_slot dl_layout"

definition dl_lookup :: "page \<Rightarrow> u64 \<Rightarrow> (overlay_error, ppage_id option) outcome" where
  "dl_lookup p key = bind_ok (page_lookup dl_layout p key) (\<lambda>r. Ok (map_option to_ppage_id r))"

definition dl_is_safe_for_insert :: "page \<Rightarrow> bool" where
  "dl_is_safe_for_insert p \<longleftrightarrow> leaf_num_entries p < dl_SAFE_INSERT_THRESHOLD"

definition dl_needs_split :: "page \<Rightarrow> bool" where
  "dl_needs_split p \<longleftrightarrow> dl_MAX_ENTRIES \<le> leaf_num_entries p"

definition dl_can_merge :: "page \<Rightarrow> bool" where
  "dl_can_merge p \<longleftrightarrow> leaf_num_entries p < dl_MERGE_THRESHOLD"

definition dl_is_empty :: "page \<Rightarrow> bool" where
  "dl_is_empty p \<longleftrightarrow> leaf_num_entries p = 0"

definition dl_set_entry :: "nat \<Rightarrow> directory_leaf_entry \<Rightarrow> page \<Rightarrow> (overlay_error, page) outcome" where
  "dl_set_entry = page_set_entry dl_layout"

definition dl_insert_entry :: "u32 \<Rightarrow> ppage_id \<Rightarrow> page \<Rightarrow> (overlay_error, page) outcome" where
  "dl_insert_entry logical pp p = page_insert dl_layout (from_ppage_id logical pp) p"

definition dl_delete_entry :: "nat \<Rightarrow> page \<Rightarrow> (overlay_error, page) outcome" where
  "dl_delete_entry = page_delete dl_layout"

definition dl_delete_by_key :: "u64 \<Rightarrow> page \<Rightarrow> (overlay_error, bool \<times> page) outcome" where
  "dl_delete_by_key = page_delete_by_key dl_layout"

definition dl_update_entry :: "u32 \<Rightarrow> ppage_id \<Rightarrow> page \<Rightarrow> (overlay_error, bool \<times> page) outcome" where
  "dl_update_entry logical pp p = page_update dl_layout (from_ppage_id logical pp) p"

section \<open>The map a leaf holds\<close>

abbreviation dl_inv :: "page \<Rightarrow> bool" where "dl_inv \<equiv> page_inv dl_layout"
abbreviation dl_entries :: "page \<Rightarrow> directory_leaf_entry list" where "dl_entries \<equiv> entries dl_layout"

definition dl_map :: "page \<Rightarrow> u64 \<rightharpoonup> ppage_id" where
  "dl_map p k = map_option to_ppage_id (find_entry search_key k (dl_entries p))"

text \<open>The offsets the directory can represent: whole pages, with a 32-bit page number.\<close>

definition page_aligned :: "ppage_id \<Rightarrow> bool" where
  "page_aligned pp \<longleftrightarrow> unat (pp_offset pp) mod 4096 = 0 \<and> unat (pp_offset pp) div 4096 < 2 ^ 32"

lemma search_key_from [simp]: "search_key (from_ppage_id l pp) = ucast l"
  by (simp add: from_ppage_id_def)

lemma search_key_new [simp]: "search_key (directory_leaf_entry_new l f n) = ucast l"
  by (simp add: directory_leaf_entry_new_def)

lemma unat_div_4096: "unat ((w :: u64) div word_of_nat 4096) = unat w div 4096"
  by (simp add: unat_div)

lemma ppage_roundtrip:
  assumes "page_aligned pp"
  shows "to_ppage_id (from_ppage_id l pp) = pp"
proof -
  let ?o = "unat (pp_offset pp)"
  let ?d = "pp_offset pp div word_of_nat 4096"
  have b: "?o div 4096 < 4294967296" "?o mod 4096 = 0" using assms by (simp_all add: page_aligned_def)
  have d: "unat ?d = ?o div 4096" by (rule unat_div_4096)
  have n: "unat (ucast ?d :: u32) = ?o div 4096"
    using b d by (simp add: unat_ucast_narrow)
  then have "unat (ucast (ucast ?d :: u32) * word_of_nat 4096 :: u64) = ?o div 4096 * 4096 mod 2 ^ 64"
    by (simp add: unat_mult_word unat_ucast_wide)
  also have "\<dots> = ?o" using b unat_bound [of "pp_offset pp"] by (simp add: mult.commute mod_0_imp_dvd)
  finally show ?thesis
    by (simp add: to_ppage_id_def from_ppage_id_def PAGE_BUF_SIZE_def unsigned_word_eqI)
qed

lemma dl_map_key_map: "dl_map p k = map_option to_ppage_id (key_map dl_layout p k)"
  by (simp add: dl_map_def key_map_def)

lemma dl_map_None [simp]: "dl_map p k = None \<longleftrightarrow> key_map dl_layout p k = None"
  by (simp add: dl_map_key_map)

lemma dl_map_upd: "key_map dl_layout q = (key_map dl_layout p)(k \<mapsto> e) \<Longrightarrow> dl_map q = (dl_map p)(k \<mapsto> to_ppage_id e)"
  by (rule ext) (simp add: dl_map_key_map)

lemma dl_map_del: "key_map dl_layout q = (key_map dl_layout p)(k := None) \<Longrightarrow> dl_map q = (dl_map p)(k := None)"
  by (rule ext) (simp add: dl_map_key_map)

text \<open>Everything of a leaf but its entries: the page header, the flags and the sibling links.\<close>

definition same_leaf_header :: "page \<Rightarrow> page \<Rightarrow> bool" where
  "same_leaf_header p q \<longleftrightarrow> uber_header q = uber_header p \<and> leaf_flags q = leaf_flags p \<and>
     leaf_next_page q = leaf_next_page p \<and> leaf_prev_page q = leaf_prev_page p"

lemma dl_same_header:
  assumes "same_header dl_layout p q" "dl_inv p" "dl_inv q"
  shows "same_leaf_header p q"
proof -
  have "is_page p" "is_page q" using assms(2,3) by (simp_all add: page_inv_def)
  then show ?thesis
    using leaf_fields_same [OF assms(1)] same_header_uber [OF assms(1)] by (simp add: same_leaf_header_def)
qed

lemma dl_init_inv:
  assumes "is_page data"
  shows "dl_inv (dl_init data pid)" "dl_entries (dl_init data pid) = []" "dl_map (dl_init data pid) = Map.empty"
    "leaf_num_entries (dl_init data pid) = 0"
    "leaf_next_page (dl_init data pid) = 0" "leaf_prev_page (dl_init data pid) = 0"
    "dl_from_buffer (dl_init data pid) = Ok (dl_init data pid)"
proof -
  note f = fresh_leaf [OF assms, of DirectoryLeaf pid]
  show n: "leaf_num_entries (dl_init data pid) = 0"
    "leaf_next_page (dl_init data pid) = 0" "leaf_prev_page (dl_init data pid) = 0"
    using f by (simp_all add: dl_init_def)
  show inv: "dl_inv (dl_init data pid)" and ents: "dl_entries (dl_init data pid) = []"
    using dleaf.page_inv_empty [OF f(1)] f(2) by (simp_all add: dl_init_def)
  show "dl_map (dl_init data pid) = Map.empty"
    by (rule ext) (simp add: dl_map_key_map key_map_def ents find_entry_def)
  have "16 \<le> length data" using assms by (simp add: is_page_def PAGE_BUF_SIZE_def)
  with f(1) show "dl_from_buffer (dl_init data pid) = Ok (dl_init data pid)"
    by (simp add: dl_from_buffer_def overlay_from_buffer_Ok_iff dl_init_def)
qed

section \<open>The operations on the map\<close>

lemma dl_insert_entry_spec:
  assumes "dl_inv p" "page_aligned pp"
  shows "if 253 \<le> leaf_num_entries p then dl_insert_entry l pp p = Err (PageFull 253 (leaf_num_entries p + 1))
    else if dl_map p (ucast l) \<noteq> None then dl_insert_entry l pp p = Err (DuplicateKey (ucast l))
    else \<exists>p'. dl_insert_entry l pp p = Ok p' \<and> dl_inv p' \<and> dl_map p' = (dl_map p)(ucast l \<mapsto> pp) \<and>
      leaf_num_entries p' = leaf_num_entries p + 1 \<and> same_leaf_header p p'"
proof -
  let ?e = "from_ppage_id l pp"
  consider "253 \<le> leaf_num_entries p"
    | "leaf_num_entries p < 253" "dl_map p (ucast l) \<noteq> None"
    | "leaf_num_entries p < 253" "dl_map p (ucast l) = None" by force
  then show ?thesis
  proof cases
    case 1
    then show ?thesis by (simp add: dl_insert_entry_def dleaf.insert_full)
  next
    case 2
    then show ?thesis using dleaf.insert_dup_map [OF assms(1), of ?e]
      by (simp add: dl_insert_entry_def del: not_None_eq)
  next
    case 3
    obtain p' where "page_insert dl_layout ?e p = Ok p'" "dl_inv p'" "same_header dl_layout p p'"
      "key_map dl_layout p' = (key_map dl_layout p)(key_of dl_layout ?e \<mapsto> ?e)"
      "count_of dl_layout p' = Suc (count_of dl_layout p)"
      using 3 by (rule_tac dleaf.insert_map [OF assms(1), of ?e]) simp_all
    with 3 dl_map_upd [of p' p "ucast l" ?e] dl_same_header [of p p'] ppage_roundtrip [OF assms(2), of l] assms(1)
    show ?thesis by (simp add: dl_insert_entry_def)
  qed
qed

lemma dl_update_entry_spec:
  assumes "dl_inv p" "page_aligned pp"
  shows "if dl_map p (ucast l) = None then dl_update_entry l pp p = Ok (False, p)
    else \<exists>p'. dl_update_entry l pp p = Ok (True, p') \<and> dl_inv p' \<and> dl_map p' = (dl_map p)(ucast l \<mapsto> pp) \<and>
      leaf_num_entries p' = leaf_num_entries p \<and> same_leaf_header p p'"
proof (cases "dl_map p (ucast l) = None")
  let ?e = "from_ppage_id l pp"
  case True
  then show ?thesis using dleaf.update_absent_map [OF assms(1), of ?e] by (simp add: dl_update_entry_def)
next
  let ?e = "from_ppage_id l pp"
  case False
  obtain p' where "page_update dl_layout ?e p = Ok (True, p')" "dl_inv p'" "same_header dl_layout p p'"
    "key_map dl_layout p' = (key_map dl_layout p)(key_of dl_layout ?e \<mapsto> ?e)"
    "count_of dl_layout p' = count_of dl_layout p"
    using False by (rule_tac dleaf.update_map [OF assms(1), of ?e]) simp_all
  with False dl_map_upd [of p' p "ucast l" ?e] dl_same_header [of p p'] ppage_roundtrip [OF assms(2), of l] assms(1)
  show ?thesis by (simp add: dl_update_entry_def)
qed

lemma dl_delete_by_key_spec:
  assumes "dl_inv p"
  shows "if dl_map p k = None then dl_delete_by_key k p = Ok (False, p)
    else \<exists>p'. dl_delete_by_key k p = Ok (True, p') \<and> dl_inv p' \<and> dl_map p' = (dl_map p)(k := None) \<and>
      leaf_num_entries p' + 1 = leaf_num_entries p \<and> same_leaf_header p p'"
proof (cases "dl_map p k = None")
  case True
  then show ?thesis using dleaf.delete_absent_map [OF assms, of k] by (simp add: dl_delete_by_key_def)
next
  case False
  obtain p' where "page_delete_by_key dl_layout k p = Ok (True, p')" "dl_inv p'" "same_header dl_layout p p'"
    "key_map dl_layout p' = (key_map dl_layout p)(k := None)"
    "Suc (count_of dl_layout p') = count_of dl_layout p"
    using False by (rule_tac dleaf.delete_map [OF assms, of k]) simp_all
  with False dl_map_del [of p' p k] dl_same_header [of p p'] assms
  show ?thesis by (simp add: dl_delete_by_key_def)
qed

lemma dl_lookup_spec: "dl_inv p \<Longrightarrow> dl_lookup p k = Ok (dl_map p k)"
  by (simp add: dl_lookup_def dleaf.lookup_map dl_map_key_map)

section \<open>A leaf is a map of bounded capacity\<close>

text \<open>
  The abstract contract of the page: a finite map with at most 253 bindings, and the requests a
  client makes of it with the answers it gets.
\<close>

datatype leaf_request = Insert u32 ppage_id | Update u32 ppage_id | Delete u64 | Lookup u64

datatype leaf_answer = Done | Changed bool | Found "ppage_id option" | Refused overlay_error | Died

fun dl_serve :: "leaf_request \<Rightarrow> page \<Rightarrow> leaf_answer \<times> page" where
  "dl_serve (Insert l pp) p = (case dl_insert_entry l pp p of Ok p' \<Rightarrow> (Done, p') | Err e \<Rightarrow> (Refused e, p) | Panic \<Rightarrow> (Died, p))"
| "dl_serve (Update l pp) p = (case dl_update_entry l pp p of Ok (b, p') \<Rightarrow> (Changed b, p') | Err e \<Rightarrow> (Refused e, p) | Panic \<Rightarrow> (Died, p))"
| "dl_serve (Delete k) p = (case dl_delete_by_key k p of Ok (b, p') \<Rightarrow> (Changed b, p') | Err e \<Rightarrow> (Refused e, p) | Panic \<Rightarrow> (Died, p))"
| "dl_serve (Lookup k) p = (case dl_lookup p k of Ok r \<Rightarrow> (Found r, p) | Err e \<Rightarrow> (Refused e, p) | Panic \<Rightarrow> (Died, p))"

fun map_serve :: "leaf_request \<Rightarrow> (u64 \<rightharpoonup> ppage_id) \<Rightarrow> leaf_answer \<times> (u64 \<rightharpoonup> ppage_id)" where
  "map_serve (Insert l pp) m =
     (if 253 \<le> card (dom m) then (Refused (PageFull 253 (card (dom m) + 1)), m)
      else if m (ucast l) \<noteq> None then (Refused (DuplicateKey (ucast l)), m)
      else (Done, m(ucast l \<mapsto> pp)))"
| "map_serve (Update l pp) m =
     (if m (ucast l) = None then (Changed False, m) else (Changed True, m(ucast l \<mapsto> pp)))"
| "map_serve (Delete k) m =
     (if m k = None then (Changed False, m) else (Changed True, m(k := None)))"
| "map_serve (Lookup k) m = (Found (m k), m)"

fun aligned_request :: "leaf_request \<Rightarrow> bool" where
  "aligned_request (Insert l pp) = page_aligned pp"
| "aligned_request (Update l pp) = page_aligned pp"
| "aligned_request _ = True"

lemma card_dom_dl_map: "dl_inv p \<Longrightarrow> card (dom (dl_map p)) = leaf_num_entries p"
proof -
  assume "dl_inv p"
  then have "card (dom (key_map dl_layout p)) = leaf_num_entries p"
    using card_dom_key_map [of dl_layout p] by (simp add: page_inv_def)
  moreover have "dom (dl_map p) = dom (key_map dl_layout p)" by (auto simp: dl_map_key_map dom_def)
  ultimately show ?thesis by simp
qed

lemma dl_serve_refines:
  assumes "dl_inv p" "aligned_request r"
  shows "map_serve r (dl_map p) = (fst (dl_serve r p), dl_map (snd (dl_serve r p)))"
    "dl_inv (snd (dl_serve r p))"
proof -
  have "map_serve r (dl_map p) = (fst (dl_serve r p), dl_map (snd (dl_serve r p))) \<and> dl_inv (snd (dl_serve r p))"
  proof (cases r)
    case (Insert l pp)
    then have "page_aligned pp" using assms(2) by simp
    from dl_insert_entry_spec [OF assms(1) this, of l] Insert assms(1) show ?thesis
      by (auto simp: card_dom_dl_map split: if_splits)
  next
    case (Update l pp)
    then have "page_aligned pp" using assms(2) by simp
    from dl_update_entry_spec [OF assms(1) this, of l] Update assms(1) show ?thesis
      by (auto split: if_splits)
  next
    case (Delete k)
    with dl_delete_by_key_spec [OF assms(1), of k] assms(1) show ?thesis by (auto split: if_splits)
  next
    case (Lookup k)
    with assms(1) show ?thesis by (simp add: dl_lookup_spec)
  qed
  then show "map_serve r (dl_map p) = (fst (dl_serve r p), dl_map (snd (dl_serve r p)))"
    "dl_inv (snd (dl_serve r p))" by simp_all
qed

text \<open>C5: Serving any sequence of insertions, updates, deletions and lookups on a well-formed directory leaf
  gives exactly the answers of a finite map with room for 253 bindings, full pages, duplicate and
  missing keys included, and leaves a well-formed page that holds that map. (The
  physical addresses are those the leaf can represent: whole pages with a 32-bit number.)\<close>

theorem dl_refines_bounded_map:
  assumes "dl_inv p" "\<forall>r\<in>set rs. aligned_request r"
  shows "serve_all map_serve rs (dl_map p) =
      (fst (serve_all dl_serve rs p), dl_map (snd (serve_all dl_serve rs p))) \<and>
    dl_inv (snd (serve_all dl_serve rs p))"
  using assms dl_serve_refines by (intro serve_all_refines [where J = aligned_request]) simp_all

theorem dl_refines_bounded_map_witness:
  "fst (serve_all dl_serve [Insert 5 \<lparr> pp_file = 2, pp_offset = 8192 \<rparr>,
      Insert 5 \<lparr> pp_file = 3, pp_offset = 0 \<rparr>, Lookup 5, Delete 5, Lookup 5] (dl_init (replicate 4096 0) 9)) =
    [Done, Refused (DuplicateKey 5), Found (Some \<lparr> pp_file = 2, pp_offset = 8192 \<rparr>), Changed True, Found None]"
proof -
  have page: "is_page (replicate 4096 (0::byte))" by (simp add: is_page_def PAGE_BUF_SIZE_def)
  let ?rs = "[Insert 5 \<lparr> pp_file = 2, pp_offset = 8192 \<rparr>,
      Insert 5 \<lparr> pp_file = 3, pp_offset = 0 \<rparr>, Lookup 5, Delete 5, Lookup 5]"
  have al: "\<forall>r\<in>set ?rs. aligned_request r" by (simp add: page_aligned_def)
  show ?thesis
    using dl_refines_bounded_map [OF dl_init_inv(1) [OF page, of 9] al] by (simp add: dl_init_inv(3) [OF page])
qed

end
