(* ===== verification/DirInner.thy ===== *)
theory DirInner
  imports TreeHeaders
begin

text \<open>
  \<open>src/src/page/overlays/directory/inner.rs\<close>: the inner pages of the page directory, which route a
  search to the child whose key interval holds the key. Entries and layout are those of
  \<open>TreeHeaders\<close>; this theory gives the overlay's operations.
\<close>

definition di_from_buffer :: "byte list \<Rightarrow> (overlay_error, page) outcome" where
  "di_from_buffer = overlay_from_buffer DirectoryInner"

definition di_init :: "byte list \<Rightarrow> u32 \<Rightarrow> u32 \<Rightarrow> page" where
  "di_init data pid leftmost_child = init_inner DirectoryInner pid leftmost_child data"

definition di_entry :: "page \<Rightarrow> nat \<Rightarrow> (overlay_error, inner_entry) outcome" where
  "di_entry = page_entry inner_layout"

definition di_find_child :: "page \<Rightarrow> u64 \<Rightarrow> (overlay_error, u32) outcome" where
  "di_find_child = page_find_child inner_layout right_child"

definition di_find_separator_slot :: "page \<Rightarrow> u64 \<Rightarrow> (overlay_error, bool \<times> nat) outcome" where
  "di_find_separator_slot = page_find_slot inner_layout"

definition di_is_safe_for_insert :: "page \<Rightarrow> bool" where
  "di_is_safe_for_insert p \<longleftrightarrow> inner_num_keys p < INNER_SAFE_INSERT_THRESHOLD"

definition di_needs_split :: "page \<Rightarrow> bool" where
  "di_needs_split p \<longleftrightarrow> MAX_KEYS \<le> inner_num_keys p"

definition di_can_merge :: "page \<Rightarrow> bool" where
  "di_can_merge p \<longleftrightarrow> inner_num_keys p < INNER_MERGE_THRESHOLD"

definition di_is_empty :: "page \<Rightarrow> bool" where
  "di_is_empty p \<longleftrightarrow> inner_num_keys p = 0"

text \<open>\<open>num_children\<close> adds one to a \<open>u16\<close>, which overflows only on a corrupt count of 65535.\<close>

definition di_num_children :: "page \<Rightarrow> ('e, nat) outcome" where
  "di_num_children p = (if inner_num_keys p = 65535 then Panic else Ok (inner_num_keys p + 1))"

definition di_set_entry :: "nat \<Rightarrow> inner_entry \<Rightarrow> page \<Rightarrow> (overlay_error, page) outcome" where
  "di_set_entry = page_set_entry inner_layout"

definition di_insert_separator :: "u64 \<Rightarrow> u32 \<Rightarrow> page \<Rightarrow> (overlay_error, page) outcome" where
  "di_insert_separator sep c p = page_insert inner_layout (inner_entry_new sep c) p"

definition di_delete_separator :: "nat \<Rightarrow> page \<Rightarrow> (overlay_error, page) outcome" where
  "di_delete_separator = page_delete inner_layout"

definition di_update_child :: "nat \<Rightarrow> u32 \<Rightarrow> page \<Rightarrow> (overlay_error, page) outcome" where
  "di_update_child = page_update_child"

lemma di_init_inv:
  assumes "is_page data"
  shows "inner_inv (di_init data pid lm)" "seps (di_init data pid lm) = []"
    "inner_leftmost_child (di_init data pid lm) = lm" "inner_num_keys (di_init data pid lm) = 0"
    "di_from_buffer (di_init data pid lm) = Ok (di_init data pid lm)"
proof -
  note f = fresh_inner [OF assms, of DirectoryInner pid lm]
  show "inner_inv (di_init data pid lm)" "seps (di_init data pid lm) = []"
    using inner.page_inv_empty [OF f(1)] f(2) by (simp_all add: di_init_def seps_def)
  show "inner_leftmost_child (di_init data pid lm) = lm" "inner_num_keys (di_init data pid lm) = 0"
    "di_from_buffer (di_init data pid lm) = Ok (di_init data pid lm)"
    using f by (simp_all add: di_init_def di_from_buffer_def overlay_from_buffer_Ok_iff)
qed

lemma di_insert_full: "254 \<le> inner_num_keys p \<Longrightarrow>
    di_insert_separator k c p = Err (PageFull 254 (inner_num_keys p + 1))"
  by (simp add: di_insert_separator_def inner.insert_full)

lemma di_insert_duplicate: "inner_inv p \<Longrightarrow> inner_num_keys p < 254 \<Longrightarrow> k \<in> fst ` set (seps p) \<Longrightarrow>
    di_insert_separator k c p = Err (DuplicateKey k)"
  using inner.insert_duplicate [of p "inner_entry_new k c"]
  by (simp add: di_insert_separator_def seps_def image_image)

text \<open>C7: Inserting a separator into a well-formed directory inner page redirects exactly the keys from the
  separator up to the next larger separator to the new right child; every other key keeps its
  child. A full page and a separator that is already there are refused.\<close>

theorem di_insert_separator_routes:
  assumes "inner_inv p"
  shows "if 254 \<le> inner_num_keys p then di_insert_separator k c p = Err (PageFull 254 (inner_num_keys p + 1))
    else if k \<in> fst ` set (seps p) then di_insert_separator k c p = Err (DuplicateKey k)
    else \<exists>p'. di_insert_separator k c p = Ok p' \<and> inner_inv p' \<and>
      fst ` set (seps p') = insert k (fst ` set (seps p)) \<and>
      (\<forall>x. di_find_child p' x =
        (if k \<le> x \<and> (\<forall>s\<in>fst ` set (seps p). s \<le> x \<longrightarrow> s < k) then Ok c else di_find_child p x))"
proof -
  consider "254 \<le> inner_num_keys p" | "inner_num_keys p < 254" "k \<in> fst ` set (seps p)"
    | "inner_num_keys p < 254" "k \<notin> fst ` set (seps p)" by force
  then show ?thesis
  proof cases
    case 1
    then show ?thesis by (simp add: di_insert_full)
  next
    case 2
    then show ?thesis using assms by (simp add: di_insert_duplicate)
  next
    case 3
    from insert_separator_routes [OF assms 3, of c] 3 show ?thesis
      by (auto simp: di_insert_separator_def di_find_child_def)
  qed
qed

theorem di_insert_separator_routes_witness:
  "\<exists>p. di_insert_separator 100 20 (di_init (replicate 4096 0) 1 10) = Ok p \<and>
     di_find_child p 99 = Ok 10 \<and> di_find_child p 100 = Ok 20"
proof -
  have page: "is_page (replicate 4096 (0::byte))" by (simp add: is_page_def PAGE_BUF_SIZE_def)
  note i = di_init_inv [OF page, of 1 10]
  have old: "di_find_child (di_init (replicate 4096 0) 1 10) x = Ok 10" for x
    using i by (simp add: di_find_child_def find_child_last)
  from di_insert_separator_routes [OF i(1), of 100 20] i(2,4) old show ?thesis by auto
qed

end
