(* ===== verification/IdxLeaf.thy ===== *)
theory IdxLeaf
  imports TreeHeaders
begin

text \<open>
  \<open>src/src/page/overlays/index/btree_leaf.rs\<close>: the leaves of an index, which map a key to the
  heap page and slot of a tuple.
\<close>

section \<open>Entries and layout\<close>

record btree_leaf_entry =
  bl_key :: u64
  record_page :: u32
  record_slot :: u16
  bl_padding :: u16

definition btree_leaf_entry_new :: "u64 \<Rightarrow> u32 \<Rightarrow> u16 \<Rightarrow> btree_leaf_entry" where
  "btree_leaf_entry_new key rp rs = \<lparr> bl_key = key, record_page = rp, record_slot = rs, bl_padding = 0 \<rparr>"

definition bl_record_id :: "btree_leaf_entry \<Rightarrow> u32 \<times> u16" where
  "bl_record_id e = (record_page e, record_slot e)"

definition btree_leaf_entry_of_bytes :: "byte list \<Rightarrow> btree_leaf_entry" where
  "btree_leaf_entry_of_bytes bs = \<lparr> bl_key = u64_of (bytes_at 0 8 bs), record_page = u32_of (bytes_at 8 4 bs),
     record_slot = u16_of (bytes_at 12 2 bs), bl_padding = u16_of (bytes_at 14 2 bs) \<rparr>"

definition btree_leaf_entry_to_bytes :: "btree_leaf_entry \<Rightarrow> byte list" where
  "btree_leaf_entry_to_bytes e =
     u64_bytes (bl_key e) @ u32_bytes (record_page e) @ u16_bytes (record_slot e) @ u16_bytes (bl_padding e)"

definition bl_ENTRIES_OFFSET :: nat where "bl_ENTRIES_OFFSET = UBER_HEADER_SIZE + LEAF_HEADER_SIZE"
definition bl_MAX_ENTRIES :: nat where "bl_MAX_ENTRIES = (PAGE_BUF_SIZE - bl_ENTRIES_OFFSET) div ENTRY_SIZE"
definition bl_SAFE_INSERT_THRESHOLD :: nat where "bl_SAFE_INSERT_THRESHOLD = bl_MAX_ENTRIES - 1"
definition bl_MERGE_THRESHOLD :: nat where "bl_MERGE_THRESHOLD = bl_MAX_ENTRIES div 2"

definition bl_layout :: "btree_leaf_entry layout" where
  "bl_layout = \<lparr> entries_off = bl_ENTRIES_OFFSET, max_entries = bl_MAX_ENTRIES,
     count_of = leaf_num_entries, set_count = leaf_set_num_entries,
     entry_of_bytes = btree_leaf_entry_of_bytes, entry_to_bytes = btree_leaf_entry_to_bytes,
     key_of = bl_key \<rparr>"

lemma bl_constants [simp]:
  "bl_ENTRIES_OFFSET = 40" "bl_MAX_ENTRIES = 253" "bl_SAFE_INSERT_THRESHOLD = 252" "bl_MERGE_THRESHOLD = 126"
  by (simp_all add: bl_ENTRIES_OFFSET_def bl_MAX_ENTRIES_def bl_SAFE_INSERT_THRESHOLD_def bl_MERGE_THRESHOLD_def
      UBER_HEADER_SIZE_def LEAF_HEADER_SIZE_def PAGE_BUF_SIZE_def ENTRY_SIZE_def)

lemma bl_layout_simps [simp]:
  "entries_off bl_layout = 40" "max_entries bl_layout = 253" "count_of bl_layout = leaf_num_entries"
  "set_count bl_layout = leaf_set_num_entries" "key_of bl_layout = bl_key"
  "entry_of_bytes bl_layout = btree_leaf_entry_of_bytes"
  "entry_to_bytes bl_layout = btree_leaf_entry_to_bytes"
  by (simp_all add: bl_layout_def)

lemma btree_leaf_entry_roundtrip: "btree_leaf_entry_of_bytes (btree_leaf_entry_to_bytes e) = e"
  by (simp add: btree_leaf_entry_of_bytes_def btree_leaf_entry_to_bytes_def bytes_at_def)

lemma length_btree_leaf_entry [simp]: "length (btree_leaf_entry_to_bytes e) = 16"
  by (simp add: btree_leaf_entry_to_bytes_def)

lemma btree_leaf_entry_new_simps [simp]:
  "bl_key (btree_leaf_entry_new k rp rs) = k" "bl_record_id (btree_leaf_entry_new k rp rs) = (rp, rs)"
  by (simp_all add: btree_leaf_entry_new_def bl_record_id_def)

interpretation ileaf: entry_layout bl_layout
  by unfold_locales
    (simp_all add: btree_leaf_entry_roundtrip leaf_num_entries_bytes leaf_set_num_entries_bytes)

section \<open>The overlay\<close>

definition bl_from_buffer :: "byte list \<Rightarrow> (overlay_error, page) outcome" where
  "bl_from_buffer = overlay_from_buffer BTreeLeaf"

definition bl_init :: "byte list \<Rightarrow> u32 \<Rightarrow> page" where
  "bl_init data pid = init_uber BTreeLeaf pid data"

definition bl_entry :: "page \<Rightarrow> nat \<Rightarrow> (overlay_error, btree_leaf_entry) outcome" where
  "bl_entry = page_entry bl_layout"

definition bl_find_slot :: "page \<Rightarrow> u64 \<Rightarrow> (overlay_error, bool \<times> nat) outcome" where
  "bl_find_slot = page_find_slot bl_layout"

definition bl_lookup :: "page \<Rightarrow> u64 \<Rightarrow> (overlay_error, (u32 \<times> u16) option) outcome" where
  "bl_lookup p key = bind_ok (page_lookup bl_layout p key) (\<lambda>r. Ok (map_option bl_record_id r))"

definition bl_is_safe_for_insert :: "page \<Rightarrow> bool" where
  "bl_is_safe_for_insert p \<longleftrightarrow> leaf_num_entries p < bl_SAFE_INSERT_THRESHOLD"

definition bl_needs_split :: "page \<Rightarrow> bool" where
  "bl_needs_split p \<longleftrightarrow> bl_MAX_ENTRIES \<le> leaf_num_entries p"

definition bl_can_merge :: "page \<Rightarrow> bool" where
  "bl_can_merge p \<longleftrightarrow> leaf_num_entries p < bl_MERGE_THRESHOLD"

definition bl_is_empty :: "page \<Rightarrow> bool" where
  "bl_is_empty p \<longleftrightarrow> leaf_num_entries p = 0"

definition bl_set_entry :: "nat \<Rightarrow> btree_leaf_entry \<Rightarrow> page \<Rightarrow> (overlay_error, page) outcome" where
  "bl_set_entry = page_set_entry bl_layout"

definition bl_insert_entry :: "u64 \<Rightarrow> u32 \<Rightarrow> u16 \<Rightarrow> page \<Rightarrow> (overlay_error, page) outcome" where
  "bl_insert_entry key rp rs p = page_insert bl_layout (btree_leaf_entry_new key rp rs) p"

definition bl_delete_entry :: "nat \<Rightarrow> page \<Rightarrow> (overlay_error, page) outcome" where
  "bl_delete_entry = page_delete bl_layout"

definition bl_delete_by_key :: "u64 \<Rightarrow> page \<Rightarrow> (overlay_error, bool \<times> page) outcome" where
  "bl_delete_by_key = page_delete_by_key bl_layout"

definition bl_update_entry :: "u64 \<Rightarrow> u32 \<Rightarrow> u16 \<Rightarrow> page \<Rightarrow> (overlay_error, bool \<times> page) outcome" where
  "bl_update_entry key new_page new_slot p = page_update bl_layout (btree_leaf_entry_new key new_page new_slot) p"

section \<open>The map a leaf holds\<close>

abbreviation bl_inv :: "page \<Rightarrow> bool" where "bl_inv \<equiv> page_inv bl_layout"

definition bl_map :: "page \<Rightarrow> u64 \<rightharpoonup> u32 \<times> u16" where
  "bl_map p k = map_option bl_record_id (key_map bl_layout p k)"

lemma bl_map_None [simp]: "bl_map p k = None \<longleftrightarrow> key_map bl_layout p k = None"
  by (simp add: bl_map_def)

lemma bl_map_upd: "key_map bl_layout q = (key_map bl_layout p)(k \<mapsto> e) \<Longrightarrow> bl_map q = (bl_map p)(k \<mapsto> bl_record_id e)"
  by (rule ext) (simp add: bl_map_def)

lemma bl_map_del: "key_map bl_layout q = (key_map bl_layout p)(k := None) \<Longrightarrow> bl_map q = (bl_map p)(k := None)"
  by (rule ext) (simp add: bl_map_def)

lemma bl_init_inv:
  assumes "is_page data"
  shows "bl_inv (bl_init data pid)" "bl_map (bl_init data pid) = Map.empty" "leaf_num_entries (bl_init data pid) = 0"
    "leaf_next_page (bl_init data pid) = 0" "leaf_prev_page (bl_init data pid) = 0"
    "bl_from_buffer (bl_init data pid) = Ok (bl_init data pid)"
proof -
  note f = fresh_leaf [OF assms, of BTreeLeaf pid]
  show "leaf_num_entries (bl_init data pid) = 0"
    "leaf_next_page (bl_init data pid) = 0" "leaf_prev_page (bl_init data pid) = 0"
    using f by (simp_all add: bl_init_def)
  show "bl_inv (bl_init data pid)" and ents: "bl_map (bl_init data pid) = Map.empty"
    using ileaf.page_inv_empty [OF f(1)] f(2)
    by (simp_all add: bl_init_def bl_map_def key_map_def find_entry_def fun_eq_iff)
  have "16 \<le> length data" using assms by (simp add: is_page_def PAGE_BUF_SIZE_def)
  with f(1) show "bl_from_buffer (bl_init data pid) = Ok (bl_init data pid)"
    by (simp add: bl_from_buffer_def overlay_from_buffer_Ok_iff bl_init_def)
qed

lemma bl_lookup_spec: "bl_inv p \<Longrightarrow> bl_lookup p k = Ok (bl_map p k)"
  by (simp add: bl_lookup_def ileaf.lookup_map bl_map_def)

text \<open>On a well-formed index leaf, insert_entry either reports that the page is full, or that the key is
  already there, or leaves a well-formed page with exactly one binding more, in which a lookup
  finds the record and every other lookup is as before.\<close>

theorem bl_insert_entry_spec:
  assumes "bl_inv p"
  shows "if 253 \<le> leaf_num_entries p then bl_insert_entry k rp rs p = Err (PageFull 253 (leaf_num_entries p + 1))
    else if bl_map p k \<noteq> None then bl_insert_entry k rp rs p = Err (DuplicateKey k)
    else \<exists>p'. bl_insert_entry k rp rs p = Ok p' \<and> bl_inv p' \<and> bl_map p' = (bl_map p)(k \<mapsto> (rp, rs)) \<and>
      leaf_num_entries p' = leaf_num_entries p + 1 \<and>
      (\<forall>x. bl_lookup p' x = (if x = k then Ok (Some (rp, rs)) else bl_lookup p x))"
proof -
  let ?e = "btree_leaf_entry_new k rp rs"
  consider "253 \<le> leaf_num_entries p"
    | "leaf_num_entries p < 253" "bl_map p k \<noteq> None"
    | "leaf_num_entries p < 253" "bl_map p k = None" by force
  then show ?thesis
  proof cases
    case 1
    then show ?thesis by (simp add: bl_insert_entry_def ileaf.insert_full)
  next
    case 2
    then show ?thesis using ileaf.insert_dup_map [OF assms(1), of ?e]
      by (simp add: bl_insert_entry_def del: not_None_eq)
  next
    case 3
    obtain p' where p': "page_insert bl_layout ?e p = Ok p'" "bl_inv p'" "same_header bl_layout p p'"
      "key_map bl_layout p' = (key_map bl_layout p)(key_of bl_layout ?e \<mapsto> ?e)"
      "count_of bl_layout p' = Suc (count_of bl_layout p)"
      using 3 by (rule_tac ileaf.insert_map [OF assms(1), of ?e]) simp_all
    then have "bl_map p' = (bl_map p)(k \<mapsto> (rp, rs))" using bl_map_upd [of p' p k ?e] by simp
    with 3 p' assms show ?thesis by (simp add: bl_insert_entry_def bl_lookup_spec)
  qed
qed

theorem bl_insert_entry_spec_witness:
  "\<exists>p'. bl_insert_entry 7 3 4 (bl_init (replicate 4096 0) 9) = Ok p' \<and> bl_lookup p' 7 = Ok (Some (3, 4))"
proof -
  have page: "is_page (replicate 4096 (0::byte))" by (simp add: is_page_def PAGE_BUF_SIZE_def)
  from bl_insert_entry_spec [OF bl_init_inv(1) [OF page, of 9], of 7 3 4] show ?thesis
    using bl_init_inv(2,3) [OF page, of 9] by auto
qed

end
