(* ===== verification/IdxInner.thy ===== *)
theory IdxInner
  imports TreeHeaders
begin

text \<open>
  \<open>src/src/page/overlays/index/btree_inner.rs\<close>: the inner pages of an index, which route a
  search to the child whose key interval holds the key. Entries and layout are those of
  \<open>TreeHeaders\<close>; this theory gives the overlay's operations.
\<close>

definition bi_from_buffer :: "byte list \<Rightarrow> (overlay_error, page) outcome" where
  "bi_from_buffer = overlay_from_buffer BTreeInner"

definition bi_init :: "byte list \<Rightarrow> u32 \<Rightarrow> u32 \<Rightarrow> page" where
  "bi_init data pid leftmost_child = init_inner BTreeInner pid leftmost_child data"

definition bi_entry :: "page \<Rightarrow> nat \<Rightarrow> (overlay_error, inner_entry) outcome" where
  "bi_entry = page_entry inner_layout"

definition bi_find_child :: "page \<Rightarrow> u64 \<Rightarrow> (overlay_error, u32) outcome" where
  "bi_find_child = page_find_child inner_layout right_child"

definition bi_find_separator_slot :: "page \<Rightarrow> u64 \<Rightarrow> (overlay_error, bool \<times> nat) outcome" where
  "bi_find_separator_slot = page_find_slot inner_layout"

definition bi_is_safe_for_insert :: "page \<Rightarrow> bool" where
  "bi_is_safe_for_insert p \<longleftrightarrow> inner_num_keys p < INNER_SAFE_INSERT_THRESHOLD"

definition bi_needs_split :: "page \<Rightarrow> bool" where
  "bi_needs_split p \<longleftrightarrow> MAX_KEYS \<le> inner_num_keys p"

definition bi_can_merge :: "page \<Rightarrow> bool" where
  "bi_can_merge p \<longleftrightarrow> inner_num_keys p < INNER_MERGE_THRESHOLD"

definition bi_is_empty :: "page \<Rightarrow> bool" where
  "bi_is_empty p \<longleftrightarrow> inner_num_keys p = 0"

text \<open>\<open>num_children\<close> adds one to a \<open>u16\<close>, which overflows only on a corrupt count of 65535.\<close>

definition bi_num_children :: "page \<Rightarrow> ('e, nat) outcome" where
  "bi_num_children p = (if inner_num_keys p = 65535 then Panic else Ok (inner_num_keys p + 1))"

definition bi_set_entry :: "nat \<Rightarrow> inner_entry \<Rightarrow> page \<Rightarrow> (overlay_error, page) outcome" where
  "bi_set_entry = page_set_entry inner_layout"

definition bi_insert_separator :: "u64 \<Rightarrow> u32 \<Rightarrow> page \<Rightarrow> (overlay_error, page) outcome" where
  "bi_insert_separator sep c p = page_insert inner_layout (inner_entry_new sep c) p"

definition bi_delete_separator :: "nat \<Rightarrow> page \<Rightarrow> (overlay_error, page) outcome" where
  "bi_delete_separator = page_delete inner_layout"

definition bi_update_child :: "nat \<Rightarrow> u32 \<Rightarrow> page \<Rightarrow> (overlay_error, page) outcome" where
  "bi_update_child = page_update_child"

lemma bi_init_inv:
  assumes "is_page data"
  shows "inner_inv (bi_init data pid lm)" "seps (bi_init data pid lm) = []"
    "inner_leftmost_child (bi_init data pid lm) = lm" "inner_num_keys (bi_init data pid lm) = 0"
    "bi_from_buffer (bi_init data pid lm) = Ok (bi_init data pid lm)"
proof -
  note f = fresh_inner [OF assms, of BTreeInner pid lm]
  show "inner_inv (bi_init data pid lm)" "seps (bi_init data pid lm) = []"
    using inner.page_inv_empty [OF f(1)] f(2) by (simp_all add: bi_init_def seps_def)
  show "inner_leftmost_child (bi_init data pid lm) = lm" "inner_num_keys (bi_init data pid lm) = 0"
    "bi_from_buffer (bi_init data pid lm) = Ok (bi_init data pid lm)"
    using f by (simp_all add: bi_init_def bi_from_buffer_def overlay_from_buffer_Ok_iff)
qed

text \<open>On a well-formed index inner page, \<open>find_child\<close> returns the child to the right of the largest separator
  at or below the key, the leftmost child when there is none, and never fails.\<close>

theorem bi_find_child_spec:
  assumes "inner_inv p"
  shows "\<exists>i \<le> inner_num_keys p. bi_find_child p k = Ok (children p ! i) \<and>
    (\<forall>j < i. fst (seps p ! j) \<le> k) \<and> (\<forall>j. i \<le> j \<and> j < inner_num_keys p \<longrightarrow> k < fst (seps p ! j))"
proof (intro exI conjI allI impI)
  let ?i = "upper_rank fst k (seps p)"
  have sorted: "sorted_by fst (seps p)" using assms by (simp add: page_inv_def seps_def sorted_by_def comp_def)
  show "?i \<le> inner_num_keys p" using upper_rank_le [of fst k "seps p"] by simp
  show "bi_find_child p k = Ok (children p ! ?i)" using assms by (simp add: bi_find_child_def find_child_seps)
  show "fst (seps p ! j) \<le> k" if "j < ?i" for j using that by (rule upper_rank_below)
  show "k < fst (seps p ! j)" if "?i \<le> j \<and> j < inner_num_keys p" for j
    using upper_rank_above [OF sorted, of k j] that by simp
qed

theorem bi_find_child_spec_witness:
  "bi_find_child (bi_init (replicate 4096 0) 1 99) 42 = Ok 99"
proof -
  have page: "is_page (replicate 4096 (0::byte))" by (simp add: is_page_def PAGE_BUF_SIZE_def)
  note i = bi_init_inv [OF page, of 1 99]
  from bi_find_child_spec [OF i(1), of 42] i(2,3,4) show ?thesis by (simp add: children_def)
qed

end
