(* ===== verification/SlottedPage.thy ===== *)
theory SlottedPage
  imports PageHeader
begin

text \<open>
  \<open>src/src/page/overlays/table/heap_page.rs\<close>: the slotted page that holds the tuples of a
  table. Slots grow upwards behind the headers, tuple data grows downwards from the end of the
  page; a deleted tuple keeps its slot with length 0, so slot numbers are stable.
  \<open>Error::Corruption\<close> carries a message; its two messages are two constructors here.
\<close>

section \<open>Structures\<close>

record heap_header =
  num_slots :: u16
  data_offset :: u16
  next_page :: u32

record heap_slot =
  slot_offset :: u16
  slot_length :: u16

datatype heap_page_error = InvalidIndex nat | NoSpace | ConvertErr convert_error
  | NumSlotsCorrupted | SlotCorrupted nat

definition HEADERS_SIZE :: nat where "HEADERS_SIZE = UBER_HEADER_SIZE + 8"

definition heap_header_of_bytes :: "byte list \<Rightarrow> heap_header" where
  "heap_header_of_bytes bs = \<lparr> num_slots = u16_of (bytes_at 0 2 bs), data_offset = u16_of (bytes_at 2 2 bs),
     next_page = u32_of (bytes_at 4 4 bs) \<rparr>"

definition heap_header_to_bytes :: "heap_header \<Rightarrow> byte list" where
  "heap_header_to_bytes h = u16_bytes (num_slots h) @ u16_bytes (data_offset h) @ u32_bytes (next_page h)"

definition slot_of_bytes :: "byte list \<Rightarrow> heap_slot" where
  "slot_of_bytes bs = \<lparr> slot_offset = u16_of (bytes_at 0 2 bs), slot_length = u16_of (bytes_at 2 2 bs) \<rparr>"

definition slot_to_bytes :: "heap_slot \<Rightarrow> byte list" where
  "slot_to_bytes s = u16_bytes (slot_offset s) @ u16_bytes (slot_length s)"

section \<open>Reading\<close>

definition hp_new :: "mem_buf \<Rightarrow> ('e, mem_buf) outcome" where
  "hp_new b = (if length (buf_bytes b) \<noteq> PAGE_BUF_SIZE then Panic else Ok b)"

definition hp_uber_header :: "mem_buf \<Rightarrow> (heap_page_error, uber_page_header) outcome" where
  "hp_uber_header b = bind_ok (map_err ConvertErr (ref_from_prefix 0 8 UBER_HEADER_SIZE b)) (\<lambda>bs. Ok (uber_of_bytes bs))"

definition hp_header :: "mem_buf \<Rightarrow> (heap_page_error, heap_header) outcome" where
  "hp_header b = bind_ok (map_err ConvertErr (ref_from_prefix UBER_HEADER_SIZE 4 8 b)) (\<lambda>bs. Ok (heap_header_of_bytes bs))"

text \<open>\<open>saturating_sub\<close> is the subtraction of natural numbers.\<close>

definition hp_free_space_remaining :: "mem_buf \<Rightarrow> (heap_page_error, nat) outcome" where
  "hp_free_space_remaining b = bind_ok (hp_header b) (\<lambda>header.
     let slots_end = HEADERS_SIZE + unat (num_slots header) * 4;
         data_start = unat (data_offset header)
     in Ok (data_start - slots_end))"

text \<open>\<open><[Slot]>::ref_from_prefix\<close> takes as many whole slots as fit behind the headers.\<close>

definition raw_slot :: "mem_buf \<Rightarrow> nat \<Rightarrow> heap_slot" where
  "raw_slot b i = slot_of_bytes (bytes_at (HEADERS_SIZE + i * 4) 4 (buf_bytes b))"

definition physical_slots :: "mem_buf \<Rightarrow> (convert_error, heap_slot list) outcome" where
  "physical_slots b =
     (if (buf_addr b + HEADERS_SIZE) mod 2 \<noteq> 0 then Err AlignmentError
      else Ok (map (raw_slot b) [0..<(length (buf_bytes b) - HEADERS_SIZE) div 4]))"

definition hp_slot_array :: "mem_buf \<Rightarrow> (heap_page_error, heap_slot list) outcome" where
  "hp_slot_array b = bind_ok (hp_header b) (\<lambda>header.
     let count = unat (num_slots header) in
     bind_ok (map_err ConvertErr (physical_slots b)) (\<lambda>slots.
       if count \<le> length slots then Ok (take count slots) else Err NumSlotsCorrupted))"

definition hp_get_slot :: "nat \<Rightarrow> mem_buf \<Rightarrow> (heap_page_error, heap_slot) outcome" where
  "hp_get_slot idx b = bind_ok (hp_slot_array b) (\<lambda>slots.
     if idx < length slots then Ok (slots ! idx) else Err (InvalidIndex idx))"

definition hp_get_data :: "nat \<Rightarrow> mem_buf \<Rightarrow> (heap_page_error, byte list) outcome" where
  "hp_get_data idx b = bind_ok (hp_slot_array b) (\<lambda>slots.
     if idx < length slots then
       let start = unat (slot_offset (slots ! idx));
           end' = start + unat (slot_length (slots ! idx))
       in (case get_range start end' (buf_bytes b) of
             Some d \<Rightarrow> Ok d
           | None \<Rightarrow> Err (SlotCorrupted idx))
     else Err (InvalidIndex idx))"

section \<open>Writing\<close>

text \<open>
  A mutable reference is modelled by the change made through it: \<open>hp_header_mut f\<close> obtains
  \<open>header_mut()\<close> and applies \<open>f\<close> to what it refers to.
\<close>

definition hp_uber_header_mut :: "(uber_page_header \<Rightarrow> uber_page_header) \<Rightarrow> (mem_buf, heap_page_error, unit) prog" where
  "hp_uber_header_mut f = pbind (\<lambda>b. lift (hp_uber_header b) b) (\<lambda>u. modify (mut_prefix 0 (uber_to_bytes (f u))))"

definition hp_header_mut :: "(heap_header \<Rightarrow> heap_header) \<Rightarrow> (mem_buf, heap_page_error, unit) prog" where
  "hp_header_mut f = pbind (\<lambda>b. lift (hp_header b) b)
     (\<lambda>h. modify (mut_prefix UBER_HEADER_SIZE (heap_header_to_bytes (f h))))"

definition hp_init :: "(mem_buf, heap_page_error, unit) prog" where
  "hp_init = hp_header_mut (\<lambda>h. h\<lparr> num_slots := 0, data_offset := word_of_nat PAGE_BUF_SIZE, next_page := 0 \<rparr>)"

definition hp_get_slot_mut :: "nat \<Rightarrow> (heap_slot \<Rightarrow> heap_slot) \<Rightarrow> (mem_buf, heap_page_error, unit) prog" where
  "hp_get_slot_mut idx f = pbind (\<lambda>b. lift (hp_get_slot idx b) b)
     (\<lambda>s. modify (mut_prefix (HEADERS_SIZE + idx * 4) (slot_to_bytes (f s))))"

text \<open>\<open>get_data_mut\<close>; \<open>f\<close> is what the caller does to the slice, which keeps its length.\<close>

definition hp_get_data_mut :: "nat \<Rightarrow> (byte list \<Rightarrow> byte list) \<Rightarrow> (mem_buf, heap_page_error, unit) prog" where
  "hp_get_data_mut idx f = pbind (\<lambda>b. lift (hp_get_slot idx b) b) (\<lambda>slot.
     let start = unat (slot_offset slot);
         end' = start + unat (slot_length slot)
     in pbind (gets (\<lambda>b. get_range start end' (buf_bytes b))) (\<lambda>r. case r of
          None \<Rightarrow> fail (SlotCorrupted idx)
        | Some d \<Rightarrow> modify (mut_prefix start (f d))))"

text \<open>
  \<open>insert\<close>: the subtraction of the offset and the increment of the count panic on overflow, the
  slice expression panics out of range.
\<close>

definition hp_insert :: "byte list \<Rightarrow> (mem_buf, heap_page_error, u16) prog" where
  "hp_insert tuple_data =
     (let needed_space = length tuple_data + 4; len = (word_of_nat (length tuple_data) :: u16) in
      pbind (\<lambda>b. lift (hp_free_space_remaining b) b) (\<lambda>free.
      if free < needed_space then fail NoSpace
      else pbind (\<lambda>b. lift (hp_header b) b) (\<lambda>header.
        let slot_idx = num_slots header in
        if data_offset header < len then lift Panic
        else let new_data_offset = data_offset header - len in
          pbind (\<lambda>b. if length (buf_bytes b) < unat new_data_offset + length tuple_data then lift Panic b
                     else modify (mut_prefix (unat new_data_offset) tuple_data) b) (\<lambda>_.
          pbind (if slot_idx = 65535 then lift Panic
                 else hp_header_mut (\<lambda>h. h\<lparr> data_offset := new_data_offset, num_slots := num_slots h + 1 \<rparr>)) (\<lambda>_.
          pbind (hp_get_slot_mut (unat slot_idx)
                   (\<lambda>s. s\<lparr> slot_offset := new_data_offset, slot_length := len \<rparr>)) (\<lambda>_.
          ret slot_idx))))))"

definition hp_delete :: "nat \<Rightarrow> (mem_buf, heap_page_error, unit) prog" where
  "hp_delete slot_idx = pbind (\<lambda>b. lift (hp_header b) b) (\<lambda>header.
     if unat (num_slots header) \<le> slot_idx then fail (InvalidIndex slot_idx)
     else hp_get_slot_mut slot_idx (\<lambda>s. s\<lparr> slot_length := 0 \<rparr>))"

section \<open>The tuples of a page\<close>

definition hp_head :: "mem_buf \<Rightarrow> heap_header" where
  "hp_head b = heap_header_of_bytes (bytes_at 16 8 (buf_bytes b))"

definition hp_count :: "mem_buf \<Rightarrow> nat" where "hp_count b = unat (num_slots (hp_head b))"
definition hp_start :: "mem_buf \<Rightarrow> nat" where "hp_start b = unat (data_offset (hp_head b))"
definition soff :: "heap_slot \<Rightarrow> nat" where "soff s = unat (slot_offset s)"
definition slen :: "heap_slot \<Rightarrow> nat" where "slen s = unat (slot_length s)"

definition hp_tuple :: "mem_buf \<Rightarrow> nat \<Rightarrow> byte list" where
  "hp_tuple b i = bytes_at (soff (raw_slot b i)) (slen (raw_slot b i)) (buf_bytes b)"

definition hp_tuples :: "mem_buf \<Rightarrow> byte list list" where
  "hp_tuples b = map (hp_tuple b) [0..<hp_count b]"

text \<open>
  The invariant: an aligned page; the slots end before the data starts; every slot's tuple lies
  in the data, and below those of earlier slots.
\<close>

definition hp_inv :: "mem_buf \<Rightarrow> bool" where
  "hp_inv b \<longleftrightarrow> 8 dvd buf_addr b \<and> length (buf_bytes b) = 4096 \<and>
     24 + hp_count b * 4 \<le> hp_start b \<and> hp_start b \<le> 4096 \<and>
     (\<forall>i < hp_count b. hp_start b \<le> soff (raw_slot b i) \<and> soff (raw_slot b i) + slen (raw_slot b i) \<le> 4096) \<and>
     (\<forall>j < hp_count b. \<forall>i < j. soff (raw_slot b j) + slen (raw_slot b j) \<le> soff (raw_slot b i))"

lemma heap_header_roundtrip [simp]: "heap_header_of_bytes (heap_header_to_bytes h) = h"
  by (simp add: heap_header_of_bytes_def heap_header_to_bytes_def bytes_at_def)

lemma length_heap_header [simp]: "length (heap_header_to_bytes h) = 8"
  by (simp add: heap_header_to_bytes_def)

lemma slot_roundtrip [simp]: "slot_of_bytes (slot_to_bytes s) = s"
  by (simp add: slot_of_bytes_def slot_to_bytes_def bytes_at_def)

lemma length_slot_bytes [simp]: "length (slot_to_bytes s) = 4"
  by (simp add: slot_to_bytes_def)

lemmas hp_sizes = HEADERS_SIZE_def UBER_HEADER_SIZE_def PAGE_BUF_SIZE_def

lemma length_hp_tuples [simp]: "length (hp_tuples b) = hp_count b"
  by (simp add: hp_tuples_def)

lemma nth_hp_tuples [simp]: "i < hp_count b \<Longrightarrow> hp_tuples b ! i = hp_tuple b i"
  by (simp add: hp_tuples_def)

text \<open>On an aligned page the header can be read and the slots are those of the count.\<close>

definition aligned_page :: "mem_buf \<Rightarrow> bool" where
  "aligned_page b \<longleftrightarrow> 8 dvd buf_addr b \<and> length (buf_bytes b) = 4096"

lemma hp_header_Ok:
  assumes "aligned_page b"
  shows "hp_header b = Ok (hp_head b)"
proof -
  obtain c where "buf_addr b = 8 * c" using assms by (auto simp: aligned_page_def)
  then have "(buf_addr b + 16) mod 4 = 0" by presburger
  with assms show ?thesis
    by (simp add: hp_header_def ref_from_prefix_def aligned_page_def hp_head_def UBER_HEADER_SIZE_def)
qed

lemma hp_slot_array_Ok:
  assumes "aligned_page b" "hp_count b \<le> 1018"
  shows "hp_slot_array b = Ok (map (raw_slot b) [0..<hp_count b])"
proof -
  obtain c where "buf_addr b = 8 * c" using assms(1) by (auto simp: aligned_page_def)
  then have "(buf_addr b + 24) mod 2 = 0" by presburger
  with assms show ?thesis
    by (simp add: hp_slot_array_def hp_header_Ok physical_slots_def aligned_page_def hp_sizes
        hp_count_def take_map take_upt Let_def)
qed

lemma hp_inv_aligned: "hp_inv b \<Longrightarrow> aligned_page b"
  by (simp add: hp_inv_def aligned_page_def)

lemma hp_inv_count: "hp_inv b \<Longrightarrow> hp_count b \<le> 1018"
  by (simp add: hp_inv_def)

lemma hp_get_slot_spec:
  assumes "aligned_page b" "hp_count b \<le> 1018"
  shows "hp_get_slot i b = (if i < hp_count b then Ok (raw_slot b i) else Err (InvalidIndex i))"
  using assms by (simp add: hp_get_slot_def hp_slot_array_Ok)

lemma hp_free_space_spec:
  "aligned_page b \<Longrightarrow> hp_free_space_remaining b = Ok (hp_start b - (24 + hp_count b * 4))"
  by (simp add: hp_free_space_remaining_def hp_header_Ok hp_start_def hp_count_def hp_sizes Let_def)

text \<open>Every tuple can be read back.\<close>

lemma hp_get_data_spec:
  assumes "hp_inv b"
  shows "hp_get_data i b = (if i < hp_count b then Ok (hp_tuples b ! i) else Err (InvalidIndex i))"
proof (cases "i < hp_count b")
  case True
  then have "soff (raw_slot b i) + slen (raw_slot b i) \<le> 4096" using assms by (simp add: hp_inv_def)
  with True assms show ?thesis
    by (simp add: hp_get_data_def hp_slot_array_Ok hp_inv_aligned hp_inv_count get_range_def hp_tuple_def
        soff_def slen_def hp_inv_def)
next
  case False
  with assms show ?thesis by (simp add: hp_get_data_def hp_slot_array_Ok hp_inv_aligned hp_inv_count)
qed

section \<open>Writes and the view\<close>

lemma buf_mut_prefix [simp]:
  "buf_bytes (mut_prefix off xs b) = put_at off xs (buf_bytes b)" "buf_addr (mut_prefix off xs b) = buf_addr b"
  by (simp_all add: mut_prefix_def)

lemma aligned_mut_prefix [simp]:
  "aligned_page b \<Longrightarrow> off + length xs \<le> 4096 \<Longrightarrow> aligned_page (mut_prefix off xs b)"
  by (simp add: aligned_page_def)

text \<open>A write behind the headers leaves the header, a write outside a range leaves the range.\<close>

lemma hp_head_write [simp]:
  "aligned_page b \<Longrightarrow> 24 \<le> off \<Longrightarrow> off + length xs \<le> 4096 \<Longrightarrow> hp_head (mut_prefix off xs b) = hp_head b"
  by (simp add: hp_head_def aligned_page_def bytes_at_put_before)

lemma hp_head_header [simp]:
  "aligned_page b \<Longrightarrow> hp_head (mut_prefix 16 (heap_header_to_bytes h) b) = h"
  by (simp add: hp_head_def aligned_page_def)

lemma raw_slot_header [simp]:
  "aligned_page b \<Longrightarrow> i < 1018 \<Longrightarrow> raw_slot (mut_prefix 16 (heap_header_to_bytes h) b) i = raw_slot b i"
  by (simp add: raw_slot_def aligned_page_def bytes_at_put_after hp_sizes)

lemma raw_slot_data [simp]:
  "aligned_page b \<Longrightarrow> 24 + Suc i * 4 \<le> off \<Longrightarrow> off + length xs \<le> 4096 \<Longrightarrow>
   raw_slot (mut_prefix off xs b) i = raw_slot b i"
  by (simp add: raw_slot_def aligned_page_def bytes_at_put_before hp_sizes)

lemma raw_slot_slot [simp]:
  assumes "aligned_page b" "i < 1018" "j < 1018"
  shows "raw_slot (mut_prefix (24 + j * 4) (slot_to_bytes s) b) i = (if i = j then s else raw_slot b i)"
proof (cases "i = j")
  case True
  with assms show ?thesis by (simp add: raw_slot_def aligned_page_def hp_sizes)
next
  case False
  then consider "Suc i \<le> j" | "Suc j \<le> i" by linarith
  then show ?thesis
  proof cases
    case 1
    with assms False show ?thesis by (simp add: raw_slot_def aligned_page_def hp_sizes bytes_at_put_before)
  next
    case 2
    with assms False show ?thesis by (simp add: raw_slot_def aligned_page_def hp_sizes bytes_at_put_after)
  qed
qed

lemma hp_header_mut_run:
  "aligned_page b \<Longrightarrow> hp_header_mut f b = Some (Ok (), mut_prefix 16 (heap_header_to_bytes (f (hp_head b))) b)"
  by (simp add: hp_header_mut_def pbind_def lift_def modify_def hp_header_Ok UBER_HEADER_SIZE_def)

lemma hp_get_slot_mut_run:
  "aligned_page b \<Longrightarrow> hp_count b \<le> 1018 \<Longrightarrow> hp_get_slot_mut i f b =
     (if i < hp_count b then Some (Ok (), mut_prefix (24 + i * 4) (slot_to_bytes (f (raw_slot b i))) b)
      else Some (Err (InvalidIndex i), b))"
  by (simp add: hp_get_slot_mut_def pbind_def lift_def modify_def hp_get_slot_spec hp_sizes)

lemma hp_tuple_write:
  assumes "aligned_page b" "raw_slot (mut_prefix off xs b) i = raw_slot b i" "off + length xs \<le> 4096"
    "soff (raw_slot b i) + slen (raw_slot b i) \<le> off \<or> off + length xs \<le> soff (raw_slot b i)"
    "soff (raw_slot b i) + slen (raw_slot b i) \<le> 4096"
  shows "hp_tuple (mut_prefix off xs b) i = hp_tuple b i"
  using assms by (auto simp: hp_tuple_def aligned_page_def bytes_at_put_before bytes_at_put_after)

section \<open>What the operations do\<close>

lemma hp_init_spec:
  assumes "aligned_page b"
  shows "\<exists>b'. hp_init b = Some (Ok (), b') \<and> hp_inv b' \<and> hp_tuples b' = [] \<and> next_page (hp_head b') = 0 \<and>
    hp_free_space_remaining b' = Ok 4072"
proof -
  define h where "h = (hp_head b)\<lparr> num_slots := 0, data_offset := word_of_nat PAGE_BUF_SIZE, next_page := 0 \<rparr>"
  define b' where "b' = mut_prefix 16 (heap_header_to_bytes h) b"
  have al: "aligned_page b'" unfolding b'_def using assms by (rule aligned_mut_prefix) simp
  have h: "hp_head b' = h" using assms by (simp add: b'_def)
  then have v: "hp_count b' = 0" "hp_start b' = 4096" "next_page (hp_head b') = 0"
    by (simp_all add: hp_count_def hp_start_def h_def PAGE_BUF_SIZE_def)
  have "hp_init b = Some (Ok (), b')" using assms by (simp add: hp_init_def hp_header_mut_run b'_def h_def)
  moreover have "hp_inv b'" using al v by (simp add: hp_inv_def aligned_page_def)
  moreover have "hp_tuples b' = []" by (simp add: hp_tuples_def v)
  moreover have "hp_free_space_remaining b' = Ok 4072" using al v by (simp add: hp_free_space_spec)
  ultimately show ?thesis using v by blast
qed

lemma hp_delete_spec:
  assumes inv: "hp_inv b"
  shows "if i < hp_count b
    then \<exists>b'. hp_delete i b = Some (Ok (), b') \<and> hp_inv b' \<and> hp_tuples b' = (hp_tuples b)[i := []] \<and> hp_head b' = hp_head b
    else hp_delete i b = Some (Err (InvalidIndex i), b)"
proof (cases "i < hp_count b")
  case False
  with inv show ?thesis
    by (simp add: hp_delete_def pbind_def lift_def fail_def hp_header_Ok hp_inv_aligned hp_count_def)
next
  case True
  define b' where "b' = mut_prefix (24 + i * 4) (slot_to_bytes ((raw_slot b i)\<lparr> slot_length := 0 \<rparr>)) b"
  note al = hp_inv_aligned [OF inv] and n = hp_inv_count [OF inv]
  have al': "aligned_page b'" unfolding b'_def using al True n by (intro aligned_mut_prefix) simp_all
  have head: "hp_head b' = hp_head b" using al True n by (simp add: b'_def)
  then have cnt: "hp_count b' = hp_count b" "hp_start b' = hp_start b" by (simp_all add: hp_count_def hp_start_def)
  have slot: "raw_slot b' j = (if j = i then (raw_slot b i)\<lparr> slot_length := 0 \<rparr> else raw_slot b j)"
    if "j < hp_count b" for j using al that True n by (simp add: b'_def)
  have "hp_delete i b = Some (Ok (), b')"
    using True al n by (simp add: hp_delete_def pbind_def lift_def hp_header_Ok hp_count_def hp_get_slot_mut_run b'_def)
  moreover have "hp_inv b'"
    using inv al' True unfolding hp_inv_def cnt
    by (auto simp: slot aligned_page_def soff_def slen_def intro: le_trans [OF le_add1])
  moreover have "hp_tuples b' = (hp_tuples b)[i := []]"
  proof (rule nth_equalityI)
    fix j
    assume "j < length (hp_tuples b')"
    then have j: "j < hp_count b" by (simp add: cnt)
    show "hp_tuples b' ! j = (hp_tuples b)[i := []] ! j"
    proof (cases "j = i")
      case True
      with j show ?thesis by (simp add: cnt hp_tuple_def slot slen_def bytes_at_def)
    next
      case False
      have "hp_start b \<le> soff (raw_slot b j)" "soff (raw_slot b j) + slen (raw_slot b j) \<le> 4096"
        "24 + hp_count b * 4 \<le> hp_start b" using inv j by (simp_all add: hp_inv_def)
      then have "hp_tuple b' j = hp_tuple b j"
        using al slot [OF j] False True unfolding b'_def by (intro hp_tuple_write) simp_all
      with False j show ?thesis by (simp add: cnt)
    qed
  qed (simp add: cnt)
  ultimately show ?thesis using True head by auto
qed

text \<open>A write through \<open>get_data_mut\<close> changes that tuple only.\<close>

lemma hp_get_data_mut_spec:
  assumes inv: "hp_inv b" and len: "length (f (hp_tuples b ! i)) = length (hp_tuples b ! i)"
  shows "if i < hp_count b
    then \<exists>b'. hp_get_data_mut i f b = Some (Ok (), b') \<and> hp_inv b' \<and>
      hp_tuples b' = (hp_tuples b)[i := f (hp_tuples b ! i)] \<and> hp_head b' = hp_head b
    else hp_get_data_mut i f b = Some (Err (InvalidIndex i), b)"
proof (cases "i < hp_count b")
  case False
  with inv show ?thesis
    by (simp add: hp_get_data_mut_def pbind_def lift_def hp_get_slot_spec hp_inv_aligned hp_inv_count)
next
  case True
  let ?o = "soff (raw_slot b i)" and ?l = "slen (raw_slot b i)" and ?x = "f (hp_tuple b i)"
  define b' where "b' = mut_prefix ?o ?x b"
  note al = hp_inv_aligned [OF inv] and n = hp_inv_count [OF inv]
  have r: "hp_start b \<le> ?o" "?o + ?l \<le> 4096" "24 + hp_count b * 4 \<le> hp_start b" and page: "length (buf_bytes b) = 4096"
    using inv True by (simp_all add: hp_inv_def)
  then have "length (hp_tuple b i) = ?l" by (simp add: hp_tuple_def)
  with len True have lx: "length ?x = ?l" by simp
  have al': "aligned_page b'" unfolding b'_def using al r lx by (intro aligned_mut_prefix) simp_all
  have head: "hp_head b' = hp_head b" using al r lx by (simp add: b'_def)
  then have cnt: "hp_count b' = hp_count b" "hp_start b' = hp_start b" by (simp_all add: hp_count_def hp_start_def)
  have slot: "raw_slot b' j = raw_slot b j" if "j < hp_count b" for j
    unfolding b'_def using al that r lx by (intro raw_slot_data) simp_all
  have run: "hp_get_data_mut i f b = Some (Ok (), b')"
    using True al n r page
    by (simp add: hp_get_data_mut_def pbind_def lift_def hp_get_slot_spec gets_def modify_def get_range_def b'_def Let_def
        hp_tuple_def soff_def slen_def)
  moreover have "hp_inv b'"
    using inv al' unfolding hp_inv_def cnt by (auto simp: slot aligned_page_def)
  moreover have "hp_tuples b' = (hp_tuples b)[i := f (hp_tuples b ! i)]"
  proof (rule nth_equalityI)
    fix j
    assume "j < length (hp_tuples b')"
    then have j: "j < hp_count b" by (simp add: cnt)
    show "hp_tuples b' ! j = (hp_tuples b)[i := f (hp_tuples b ! i)] ! j"
    proof (cases "j = i")
      case True
      with j lx page r show ?thesis by (simp add: cnt hp_tuple_def [of b'] slot) (simp add: b'_def)
    next
      case False
      then consider "j < i" | "i < j" by linarith
      then have "soff (raw_slot b j) + slen (raw_slot b j) \<le> ?o \<or> ?o + length ?x \<le> soff (raw_slot b j)"
        using inv j True unfolding lx by cases (simp_all add: hp_inv_def)
      moreover have "soff (raw_slot b j) + slen (raw_slot b j) \<le> 4096" using inv j by (simp add: hp_inv_def)
      ultimately have "hp_tuple b' j = hp_tuple b j"
        using al slot [OF j] r lx unfolding b'_def by (intro hp_tuple_write) simp_all
      with False j show ?thesis by (simp add: cnt)
    qed
  qed (simp add: cnt)
  ultimately show ?thesis using True head by auto
qed

text \<open>The four steps of a successful \<open>insert\<close>: data, header, slot.\<close>

lemma hp_insert_run:
  assumes inv: "hp_inv b" and fits: "24 + hp_count b * 4 + length t + 4 \<le> hp_start b"
    and d: "d = hp_start b - length t"
    and b1: "b1 = mut_prefix d t b"
    and b2: "b2 = mut_prefix 16 (heap_header_to_bytes
               ((hp_head b)\<lparr> data_offset := word_of_nat d, num_slots := num_slots (hp_head b) + 1 \<rparr>)) b1"
    and b3: "b3 = mut_prefix (24 + hp_count b * 4)
               (slot_to_bytes ((raw_slot b2 (hp_count b))\<lparr> slot_offset := word_of_nat d, slot_length := word_of_nat (length t) \<rparr>)) b2"
  shows "hp_insert t b = Some (Ok (num_slots (hp_head b)), b3)"
    "aligned_page b1" "aligned_page b2" "hp_count b2 = hp_count b + 1" "hp_start b2 = d"
proof -
  note al = hp_inv_aligned [OF inv] and n = hp_inv_count [OF inv]
  have st: "hp_start b \<le> 4096" using inv by (simp add: hp_inv_def)
  have len: "unat (word_of_nat (length t) :: u16) = length t" using fits st by (simp add: unat_of_nat)
  then have le: "\<not> data_offset (hp_head b) < word_of_nat (length t)"
    using fits by (simp add: word_less_nat_alt hp_start_def)
  have sub: "unat (data_offset (hp_head b) - word_of_nat (length t)) = d"
    using le len by (simp add: unat_sub not_less d hp_start_def)
  have subw: "data_offset (hp_head b) - word_of_nat (length t) = word_of_nat d"
    unfolding sub [symmetric] by simp
  have cnt: "num_slots (hp_head b) \<noteq> 65535" using n by (auto simp: hp_count_def)
  have dt: "d + length t = hp_start b" using fits by (simp add: d)
  have al1: "aligned_page b1" unfolding b1 using al dt st by (intro aligned_mut_prefix) simp_all
  show "aligned_page b1" by (rule al1)
  have h1: "hp_head b1 = hp_head b" using al dt st fits by (simp add: b1)
  have al2: "aligned_page b2" unfolding b2 using al1 by (intro aligned_mut_prefix) simp_all
  show "aligned_page b2" by (rule al2)
  have h2: "hp_head b2 = (hp_head b)\<lparr> data_offset := word_of_nat d, num_slots := num_slots (hp_head b) + 1 \<rparr>"
    unfolding b2 using al1 by (rule hp_head_header)
  have nb: "unat (num_slots (hp_head b) + 1) = unat (num_slots (hp_head b)) + 1"
    using n by (subst unat_add_lem [THEN iffD1]) (simp_all add: hp_count_def)
  then show c2: "hp_count b2 = hp_count b + 1" using h2 by (simp add: hp_count_def)
  show s2: "hp_start b2 = d" using h2 dt st by (simp add: hp_start_def unat_of_nat)
  have n2: "hp_count b2 \<le> 1018" using c2 fits st by simp
  have "\<not> hp_start b - (24 + hp_count b * 4) < length t + 4" using fits by simp
  moreover have "\<not> length (buf_bytes b) < unat (word_of_nat d :: u16) + length t"
    using sub subw dt st al by (simp add: aligned_page_def)
  moreover have "hp_header_mut (\<lambda>h. h\<lparr> data_offset := word_of_nat d, num_slots := num_slots h + 1 \<rparr>) b1 = Some (Ok (), b2)"
    using al1 h1 by (simp add: hp_header_mut_run b2)
  moreover have "hp_get_slot_mut (unat (num_slots (hp_head b)))
      (\<lambda>s. s\<lparr> slot_offset := word_of_nat d, slot_length := word_of_nat (length t) \<rparr>) b2 = Some (Ok (), b3)"
    using al2 n2 c2 by (simp add: hp_get_slot_mut_run b3 hp_count_def)
  ultimately show "hp_insert t b = Some (Ok (num_slots (hp_head b)), b3)"
    using al le cnt sub subw
    by (simp add: hp_insert_def Let_def pbind_def lift_def ret_def modify_def hp_free_space_spec hp_header_Ok b1)
qed

lemma hp_insert_spec:
  assumes inv: "hp_inv b"
  shows "if hp_start b < 24 + hp_count b * 4 + length t + 4 then hp_insert t b = Some (Err NoSpace, b)
    else \<exists>b'. hp_insert t b = Some (Ok (word_of_nat (hp_count b)), b') \<and> hp_inv b' \<and>
      hp_tuples b' = hp_tuples b @ [t] \<and> next_page (hp_head b') = next_page (hp_head b) \<and>
      hp_start b' = hp_start b - length t \<and> hp_count b' = hp_count b + 1"
proof (cases "hp_start b < 24 + hp_count b * 4 + length t + 4")
  case True
  moreover have "24 + hp_count b * 4 \<le> hp_start b" using inv by (simp add: hp_inv_def)
  ultimately have "hp_start b - (24 + hp_count b * 4) < length t + 4" by linarith
  with True show ?thesis using hp_inv_aligned [OF inv]
    by (simp add: hp_insert_def Let_def pbind_def lift_def fail_def hp_free_space_spec)
next
  case False
  define d where "d = hp_start b - length t"
  define b1 where "b1 = mut_prefix d t b"
  define b2 where "b2 = mut_prefix 16 (heap_header_to_bytes
    ((hp_head b)\<lparr> data_offset := word_of_nat d, num_slots := num_slots (hp_head b) + 1 \<rparr>)) b1"
  define new where "new = (raw_slot b2 (hp_count b))\<lparr> slot_offset := word_of_nat d, slot_length := word_of_nat (length t) \<rparr>"
  define b3 where "b3 = mut_prefix (24 + hp_count b * 4) (slot_to_bytes new) b2"
  have fits: "24 + hp_count b * 4 + length t + 4 \<le> hp_start b" using False by simp
  note run = hp_insert_run [OF inv fits d_def b1_def b2_def b3_def [unfolded new_def]]
  note al = hp_inv_aligned [OF inv] and n = hp_inv_count [OF inv]
  have st: "hp_start b \<le> 4096" using inv by (simp add: hp_inv_def)
  have dt: "d + length t = hp_start b" "24 + Suc (hp_count b) * 4 \<le> d" using fits by (simp_all add: d_def)
  have al3: "aligned_page b3" unfolding b3_def using run(3) fits st by (intro aligned_mut_prefix) simp_all
  have h3: "hp_head b3 = hp_head b2" unfolding b3_def using run(3) fits st by (intro hp_head_write) simp_all
  then have c3: "hp_count b3 = hp_count b + 1" "hp_start b3 = d"
    using run(4,5) by (simp_all add: hp_count_def hp_start_def)
  have nw: "soff new = d" "slen new = length t"
    using dt st by (simp_all add: new_def soff_def slen_def unat_of_nat)
  have slot: "raw_slot b3 i = (if i = hp_count b then new else raw_slot b i)" if "i < Suc (hp_count b)" for i
  proof -
    have "raw_slot b3 i = (if i = hp_count b then new else raw_slot b2 i)"
      unfolding b3_def using run(3) that fits st by (intro raw_slot_slot) simp_all
    moreover have "raw_slot b2 i = raw_slot b i" if "i \<noteq> hp_count b"
      using run(2) \<open>i < Suc (hp_count b)\<close> that dt st al fits unfolding b2_def b1_def by (simp del: buf_mut_prefix)
    ultimately show ?thesis by simp
  qed
  have inv3: "hp_inv b3"
    unfolding hp_inv_def c3
  proof (intro conjI allI impI)
    show "8 dvd buf_addr b3" "length (buf_bytes b3) = 4096" using al3 by (simp_all add: aligned_page_def)
    show "24 + (hp_count b + 1) * 4 \<le> d" "d \<le> 4096" using dt st by simp_all
    fix i assume i: "i < hp_count b + 1"
    show "d \<le> soff (raw_slot b3 i)" "soff (raw_slot b3 i) + slen (raw_slot b3 i) \<le> 4096"
      using slot [of i] i nw dt st inv by (auto simp: hp_inv_def less_Suc_eq)
    fix j assume "j < i"
    with i slot [of i] slot [of j] nw dt inv show "soff (raw_slot b3 i) + slen (raw_slot b3 i) \<le> soff (raw_slot b3 j)"
      by (auto simp: hp_inv_def less_Suc_eq)
  qed
  moreover have "hp_tuples b3 = hp_tuples b @ [t]"
  proof (rule nth_equalityI)
    fix i
    assume "i < length (hp_tuples b3)"
    then have i: "i < Suc (hp_count b)" by (simp add: c3)
    have page: "length (buf_bytes b) = 4096" using al by (simp add: aligned_page_def)
    have rest: "bytes_at o' l (buf_bytes b3) = bytes_at o' l (buf_bytes b1)" if "d \<le> o'" "o' + l \<le> 4096" for o' l
      using that dt st page run(2) by (simp add: b3_def b2_def b1_def bytes_at_put_after aligned_page_def)
    show "hp_tuples b3 ! i = (hp_tuples b @ [t]) ! i"
    proof (cases "i = hp_count b")
      case True
      then show ?thesis using i slot [OF i] nw rest [of d "length t"] dt st page
        by (simp add: c3 hp_tuple_def nth_append) (simp add: b1_def)
    next
      case False
      with i have o: "hp_start b \<le> soff (raw_slot b i)" "soff (raw_slot b i) + slen (raw_slot b i) \<le> 4096"
        using inv by (auto simp: hp_inv_def less_Suc_eq)
      then have "hp_tuple b3 i = bytes_at (soff (raw_slot b i)) (slen (raw_slot b i)) (buf_bytes b1)"
        using slot [OF i] False rest dt by (simp add: hp_tuple_def)
      also have "\<dots> = hp_tuple b i" using o dt page by (simp add: b1_def hp_tuple_def bytes_at_put_after)
      finally show ?thesis using False i by (simp add: c3 nth_append)
    qed
  qed (simp add: c3)
  moreover have "next_page (hp_head b3) = next_page (hp_head b)"
    unfolding h3 unfolding b2_def using run(2) by simp
  ultimately show ?thesis using run(1) False c3 by (simp add: d_def hp_count_def)
qed

section \<open>A heap page is a list of tuples\<close>

text \<open>
  The contract: tuples are numbered in the order of insertion, a deleted tuple becomes empty and
  keeps its number, and a page gives room to 4072 bytes of tuples and 4-byte slots, which
  deletion does not give back.
\<close>

datatype heap_request = AddTuple "byte list" | GetTuple nat | DropTuple nat | ZeroTuple nat

datatype heap_answer = At u16 | Bytes "byte list" | Acknowledged | Rejected heap_page_error | HeapDied

definition hp_run :: "(mem_buf, heap_page_error, 'a) prog \<Rightarrow> ('a \<Rightarrow> heap_answer) \<Rightarrow> mem_buf \<Rightarrow> heap_answer \<times> mem_buf" where
  "hp_run m g b = (case m b of
       Some (Ok a, b') \<Rightarrow> (g a, b')
     | Some (Err e, b') \<Rightarrow> (Rejected e, b')
     | Some (Panic, b') \<Rightarrow> (HeapDied, b')
     | None \<Rightarrow> (HeapDied, b))"

fun hp_serve :: "heap_request \<Rightarrow> mem_buf \<Rightarrow> heap_answer \<times> mem_buf" where
  "hp_serve (AddTuple t) b = hp_run (hp_insert t) At b"
| "hp_serve (GetTuple i) b = hp_run (\<lambda>b. lift (hp_get_data i b) b) Bytes b"
| "hp_serve (DropTuple i) b = hp_run (hp_delete i) (\<lambda>_. Acknowledged) b"
| "hp_serve (ZeroTuple i) b = hp_run (hp_get_data_mut i (map (\<lambda>_. 0))) (\<lambda>_. Acknowledged) b"

type_synonym tuple_list = "byte list list \<times> nat"

fun tuples_serve :: "heap_request \<Rightarrow> tuple_list \<Rightarrow> heap_answer \<times> tuple_list" where
  "tuples_serve (AddTuple t) (ts, free) =
     (if free < length t + 4 then (Rejected NoSpace, (ts, free))
      else (At (word_of_nat (length ts)), (ts @ [t], free - (length t + 4))))"
| "tuples_serve (GetTuple i) (ts, free) =
     (if i < length ts then (Bytes (ts ! i), (ts, free)) else (Rejected (InvalidIndex i), (ts, free)))"
| "tuples_serve (DropTuple i) (ts, free) =
     (if i < length ts then (Acknowledged, (ts[i := []], free)) else (Rejected (InvalidIndex i), (ts, free)))"
| "tuples_serve (ZeroTuple i) (ts, free) =
     (if i < length ts then (Acknowledged, (ts[i := map (\<lambda>_. 0) (ts ! i)], free))
      else (Rejected (InvalidIndex i), (ts, free)))"

definition hp_abs :: "mem_buf \<Rightarrow> tuple_list" where
  "hp_abs b = (hp_tuples b, hp_start b - (24 + hp_count b * 4))"

lemma hp_abs_same_head: "hp_head b' = hp_head b \<Longrightarrow> hp_abs b' = (hp_tuples b', snd (hp_abs b))"
  by (simp add: hp_abs_def hp_start_def hp_count_def)

lemma hp_serve_refines:
  assumes "hp_inv b"
  shows "tuples_serve r (hp_abs b) = (fst (hp_serve r b), hp_abs (snd (hp_serve r b))) \<and> hp_inv (snd (hp_serve r b))"
proof (cases r)
  case (AddTuple t)
  have "24 + hp_count b * 4 \<le> hp_start b" using assms by (simp add: hp_inv_def)
  with hp_insert_spec [OF assms, of t] assms AddTuple show ?thesis
    by (cases "hp_start b < 24 + hp_count b * 4 + length t + 4") (auto simp: hp_run_def hp_abs_def)
next
  case (GetTuple i)
  with hp_get_data_spec [OF assms, of i] assms show ?thesis by (simp add: hp_run_def hp_abs_def lift_def)
next
  case (DropTuple i)
  show ?thesis
  proof (cases "i < hp_count b")
    case True
    with hp_delete_spec [OF assms, of i] obtain b' where b': "hp_delete i b = Some (Ok (), b')" "hp_inv b'"
      "hp_tuples b' = (hp_tuples b)[i := []]" "hp_head b' = hp_head b" by auto
    with True DropTuple hp_abs_same_head [OF b'(4)] show ?thesis by (simp add: hp_run_def hp_abs_def)
  next
    case False
    with hp_delete_spec [OF assms, of i] assms DropTuple show ?thesis by (simp add: hp_run_def hp_abs_def)
  qed
next
  case (ZeroTuple i)
  let ?f = "map (\<lambda>_. 0)"
  show ?thesis
  proof (cases "i < hp_count b")
    case True
    with hp_get_data_mut_spec [OF assms, of ?f i] obtain b' where b': "hp_get_data_mut i ?f b = Some (Ok (), b')"
      "hp_inv b'" "hp_tuples b' = (hp_tuples b)[i := ?f (hp_tuples b ! i)]" "hp_head b' = hp_head b" by auto
    with True ZeroTuple hp_abs_same_head [OF b'(4)] show ?thesis by (simp add: hp_run_def hp_abs_def)
  next
    case False
    with hp_get_data_mut_spec [OF assms, of ?f i] assms ZeroTuple show ?thesis by (simp add: hp_run_def hp_abs_def)
  qed
qed

text \<open>C6: Whatever sequence of insertions, reads, deletions and writes a well-formed heap page serves, it gives
  the answers of a list of tuples whose numbers never change, refuses a tuple exactly when the
  free space does not hold it and its slot, and stays well formed: no tuple overlaps the slot
  array or another tuple.\<close>

theorem hp_refines_tuple_list:
  assumes "hp_inv b"
  shows "serve_all tuples_serve rs (hp_abs b) =
      (fst (serve_all hp_serve rs b), hp_abs (snd (serve_all hp_serve rs b))) \<and>
    hp_inv (snd (serve_all hp_serve rs b))"
  by (rule serve_all_refines [where I = hp_inv and J = "\<lambda>_. True"]) (simp_all add: assms hp_serve_refines)

theorem hp_refines_tuple_list_witness:
  "\<exists>b. hp_init \<lparr> buf_addr = 4096, buf_bytes = replicate 4096 255 \<rparr> = Some (Ok (), b) \<and>
     fst (serve_all hp_serve [AddTuple [1, 2, 3], AddTuple [9], DropTuple 0, GetTuple 0, GetTuple 1, GetTuple 2] b) =
     [At 0, At 1, Acknowledged, Bytes [], Bytes [9], Rejected (InvalidIndex 2)]"
proof -
  let ?b = "\<lparr> buf_addr = 4096, buf_bytes = replicate 4096 255 \<rparr> :: mem_buf"
  have al: "aligned_page ?b" by (simp add: aligned_page_def)
  obtain b where b: "hp_init ?b = Some (Ok (), b)" "hp_inv b" "hp_tuples b = []"
    "hp_free_space_remaining b = Ok 4072"
    using hp_init_spec [OF al] by blast
  have abs: "hp_abs b = ([], 4072)"
    using b hp_free_space_spec [OF hp_inv_aligned [OF b(2)]] by (simp add: hp_abs_def)
  have "fst (serve_all hp_serve [AddTuple [1, 2, 3], AddTuple [9], DropTuple 0, GetTuple 0, GetTuple 1, GetTuple 2] b) =
     [At 0, At 1, Acknowledged, Bytes [], Bytes [9], Rejected (InvalidIndex 2)]"
    using hp_refines_tuple_list [OF b(2), of "[AddTuple [1, 2, 3], AddTuple [9], DropTuple 0, GetTuple 0, GetTuple 1, GetTuple 2]"]
    by (simp add: abs)
  with b(1) show ?thesis by blast
qed

text \<open>Init turns any page buffer with an 8-byte aligned address into a well-formed empty heap page with
  4072 free bytes and no successor, whatever the buffer held before.\<close>

theorem hp_init_empties:
  assumes "8 dvd buf_addr b" "length (buf_bytes b) = PAGE_BUF_SIZE"
  shows "\<exists>b'. hp_init b = Some (Ok (), b') \<and> hp_inv b' \<and> hp_abs b' = ([], 4072) \<and> next_page (hp_head b') = 0"
proof -
  have "aligned_page b" using assms by (simp add: aligned_page_def PAGE_BUF_SIZE_def)
  from hp_init_spec [OF this] obtain b' where b': "hp_init b = Some (Ok (), b')" "hp_inv b'" "hp_tuples b' = []"
    "next_page (hp_head b') = 0" "hp_free_space_remaining b' = Ok 4072" by blast
  then have "hp_abs b' = ([], 4072)"
    using hp_free_space_spec [OF hp_inv_aligned [OF b'(2)]] by (simp add: hp_abs_def)
  with b' show ?thesis by blast
qed

theorem hp_init_empties_witness:
  "\<exists>b'. hp_init \<lparr> buf_addr = 8, buf_bytes = replicate 4096 7 \<rparr> = Some (Ok (), b') \<and> hp_abs b' = ([], 4072)"
proof -
  have "8 dvd buf_addr (\<lparr> buf_addr = 8, buf_bytes = replicate 4096 7 \<rparr> :: mem_buf)" by simp
  moreover have "length (buf_bytes (\<lparr> buf_addr = 8, buf_bytes = replicate 4096 7 \<rparr> :: mem_buf)) = PAGE_BUF_SIZE"
    by (simp add: PAGE_BUF_SIZE_def)
  ultimately show ?thesis using hp_init_empties by blast
qed

end
