(* ===== verification/FileHeaders.thy ===== *)
theory FileHeaders
  imports PageHeader
begin

text \<open>
  \<open>src/src/page/overlays/file_header/{directory,heap,index}.rs\<close>: page 0 of a directory, heap or
  index file. The three overlays differ in the structure behind the page header and its
  alignment; each operation of theirs is a definition of its own, over bodies that are shared.
  Unlike the B-tree overlays they hand out references, so an operation on a buffer whose
  address is not aligned fails.
\<close>

section \<open>Shared bodies\<close>

datatype file_header_error = FHConvert convert_error
  | FHTypeMismatch page_type page_type
  | FHInvalidPageType u8

definition fh_new :: "mem_buf \<Rightarrow> ('e, mem_buf) outcome" where
  "fh_new b = (if length (buf_bytes b) \<noteq> PAGE_BUF_SIZE then Panic else Ok b)"

definition fh_uber_header :: "mem_buf \<Rightarrow> (file_header_error, uber_page_header) outcome" where
  "fh_uber_header b = bind_ok (map_err FHConvert (ref_from_prefix 0 8 UBER_HEADER_SIZE b)) (\<lambda>bs. Ok (uber_of_bytes bs))"

definition fh_validate_type :: "page_type \<Rightarrow> mem_buf \<Rightarrow> (file_header_error, unit) outcome" where
  "fh_validate_type expected b =
     bind_ok (map_err (\<lambda>_. FHInvalidPageType 0) (fh_uber_header b)) (\<lambda>uber.
     bind_ok (map_err (\<lambda>_. FHInvalidPageType (page_type_id uber)) (page_type_try_from (page_type_id uber))) (\<lambda>t.
     if t \<noteq> expected then Err (FHTypeMismatch expected t) else Ok ()))"

definition fh_from_buffer :: "page_type \<Rightarrow> mem_buf \<Rightarrow> (file_header_error, mem_buf) outcome" where
  "fh_from_buffer expected b = bind_ok (fh_new b) (\<lambda>p. bind_ok (fh_validate_type expected p) (\<lambda>_. Ok p))"

definition fh_uber_header_mut ::
  "(uber_page_header \<Rightarrow> uber_page_header) \<Rightarrow> mem_buf \<Rightarrow> (file_header_error, mem_buf) outcome" where
  "fh_uber_header_mut f b = bind_ok (fh_uber_header b) (\<lambda>u. Ok (mut_prefix 0 (uber_to_bytes (f u)) b))"

text \<open>\<open>init\<close> writes by copy, which needs no alignment: zeros, the page header, then the data.\<close>

definition fh_init :: "page_type \<Rightarrow> byte list \<Rightarrow> mem_buf \<Rightarrow> u32 \<Rightarrow> mem_buf" where
  "fh_init t data_bytes b pid =
     (let buffer = replicate (length (buf_bytes b)) 0;
          uber = uber_header buffer;
          buffer1 = put_uber_header (uber\<lparr> page_lsn := 0, page_id := pid, page_type_id := page_type_byte t \<rparr>) buffer
      in b\<lparr> buf_bytes := put_at UBER_HEADER_SIZE data_bytes buffer1 \<rparr>)"

lemma uber_fh_init:
  assumes "is_page (buf_bytes b)" "length ds \<le> 4080"
  shows "page_type_id (uber_header (buf_bytes (fh_init t ds b pid))) = page_type_byte t"
    "page_id (uber_header (buf_bytes (fh_init t ds b pid))) = pid"
    "bytes_at 16 (length ds) (buf_bytes (fh_init t ds b pid)) = ds"
    "is_page (buf_bytes (fh_init t ds b pid))" "buf_addr (fh_init t ds b pid) = buf_addr b"
proof -
  define z where "z = replicate 4096 (0::byte)"
  define h where "h = (uber_header z)\<lparr> page_lsn := 0, page_id := pid, page_type_id := page_type_byte t \<rparr>"
  have len: "length (buf_bytes b) = 4096" using assms by (simp add: is_page_def PAGE_BUF_SIZE_def)
  have lz: "length z = 4096" by (simp add: z_def)
  have pad: "length (uber_pad h) = 3" using lz by (simp add: h_def)
  have i: "buf_bytes (fh_init t ds b pid) = put_at 16 ds (put_uber_header h z)"
    by (simp add: fh_init_def len Let_def z_def h_def UBER_HEADER_SIZE_def)
  have "uber_header (put_at 16 ds (put_uber_header h z)) = uber_header (put_uber_header h z)"
    using lz pad assms(2) by (intro uber_header_eq) (simp add: bytes_at_put_before)
  also have "\<dots> = h" using lz pad by (simp add: uber_put_get)
  finally show "page_type_id (uber_header (buf_bytes (fh_init t ds b pid))) = page_type_byte t"
    "page_id (uber_header (buf_bytes (fh_init t ds b pid))) = pid" by (simp_all add: i h_def)
  show "bytes_at 16 (length ds) (buf_bytes (fh_init t ds b pid)) = ds"
    "is_page (buf_bytes (fh_init t ds b pid))" "buf_addr (fh_init t ds b pid) = buf_addr b"
    using lz pad assms(2) by (simp_all add: i is_page_def PAGE_BUF_SIZE_def) (simp add: fh_init_def Let_def)
qed

lemma fh_from_buffer_spec:
  assumes "length (buf_bytes b) = 4096"
  shows "fh_from_buffer t b =
    (if buf_addr b mod 8 \<noteq> 0 then Err (FHInvalidPageType 0)
     else case page_type_try_from (page_type_id (uber_header (buf_bytes b))) of
       Ok t' \<Rightarrow> if t' = t then Ok b else Err (FHTypeMismatch t t')
     | _ \<Rightarrow> Err (FHInvalidPageType (page_type_id (uber_header (buf_bytes b)))))"
proof -
  have u: "uber_of_bytes (bytes_at 0 UBER_HEADER_SIZE (buf_bytes b)) = uber_header (buf_bytes b)"
    by (simp add: uber_header_def)
  show ?thesis
    using assms page_type_try_from_no_panic [of "page_type_id (uber_header (buf_bytes b))"]
    by (cases "page_type_try_from (page_type_id (uber_header (buf_bytes b)))")
      (auto simp: fh_from_buffer_def fh_new_def fh_validate_type_def fh_uber_header_def ref_from_prefix_def
        UBER_HEADER_SIZE_def PAGE_BUF_SIZE_def u [unfolded UBER_HEADER_SIZE_def])
qed

section \<open>Directory file header\<close>

record dir_file_data =
  df_magic :: "byte list"
  next_tx_id :: u64
  last_checkpoint_lsn :: u64
  next_page_id :: u32
  dir_root_page :: u32
  next_file_id :: u32
  df_pad :: "byte list"

definition dfh_MAGIC :: "byte list" where "dfh_MAGIC = [65, 66, 68, 66, 95, 68, 73, 82]"

definition dir_file_data_of_bytes :: "byte list \<Rightarrow> dir_file_data" where
  "dir_file_data_of_bytes bs = \<lparr> df_magic = bytes_at 0 8 bs,
     next_tx_id = u64_of (bytes_at 8 8 bs),
     last_checkpoint_lsn = u64_of (bytes_at 16 8 bs),
     next_page_id = u32_of (bytes_at 24 4 bs),
     dir_root_page = u32_of (bytes_at 28 4 bs),
     next_file_id = u32_of (bytes_at 32 4 bs),
     df_pad = bytes_at 36 4 bs \<rparr>"

definition dir_file_data_to_bytes :: "dir_file_data \<Rightarrow> byte list" where
  "dir_file_data_to_bytes d = df_magic d @ u64_bytes (next_tx_id d) @ u64_bytes (last_checkpoint_lsn d) @ u32_bytes (next_page_id d) @ u32_bytes (dir_root_page d) @ u32_bytes (next_file_id d) @ df_pad d"

definition dfh_from_buffer :: "mem_buf \<Rightarrow> (file_header_error, mem_buf) outcome" where
  "dfh_from_buffer = fh_from_buffer DirectoryFileHeader"

definition dfh_data :: "mem_buf \<Rightarrow> (file_header_error, dir_file_data) outcome" where
  "dfh_data b = bind_ok (map_err FHConvert (ref_from_prefix UBER_HEADER_SIZE 8 40 b)) (\<lambda>bs. Ok (dir_file_data_of_bytes bs))"

definition dfh_data_mut :: "(dir_file_data \<Rightarrow> dir_file_data) \<Rightarrow> mem_buf \<Rightarrow> (file_header_error, mem_buf) outcome" where
  "dfh_data_mut f b = bind_ok (dfh_data b) (\<lambda>d. Ok (mut_prefix UBER_HEADER_SIZE (dir_file_data_to_bytes (f d)) b))"

definition dfh_init :: "mem_buf \<Rightarrow> u32 \<Rightarrow> mem_buf" where
  "dfh_init b pid = fh_init DirectoryFileHeader
     (dir_file_data_to_bytes \<lparr> df_magic = dfh_MAGIC, next_tx_id = 1, last_checkpoint_lsn = 0, next_page_id = 0, dir_root_page = 0, next_file_id = 0, df_pad = replicate 4 0 \<rparr>) b pid"

lemma dfh_MAGIC_length [simp]: "length dfh_MAGIC = 8"
  by (simp add: dfh_MAGIC_def)

lemma dir_file_data_length [simp]: "length (df_magic d) = 8 \<Longrightarrow> length (df_pad d) = 4 \<Longrightarrow> length (dir_file_data_to_bytes d) = 40"
  by (simp add: dir_file_data_to_bytes_def)

lemma dir_file_data_roundtrip [simp]: "length (df_magic d) = 8 \<Longrightarrow> length (df_pad d) = 4 \<Longrightarrow> dir_file_data_of_bytes (dir_file_data_to_bytes d) = d"
  by (simp add: dir_file_data_of_bytes_def dir_file_data_to_bytes_def bytes_at_def)

lemma dfh_data_Ok:
  "is_page (buf_bytes b) \<Longrightarrow> buf_addr b mod 8 = 0 \<Longrightarrow>
   dfh_data b = Ok (dir_file_data_of_bytes (bytes_at 16 40 (buf_bytes b)))"
  by (simp add: dfh_data_def ref_from_prefix_def is_page_def PAGE_BUF_SIZE_def UBER_HEADER_SIZE_def mod_add_right_eq [of "buf_addr b" 16 8, symmetric])

lemma dfh_data_mut_Ok:
  assumes "is_page (buf_bytes b)" "buf_addr b mod 8 = 0" "dfh_data b = Ok d" "length (df_magic (f d)) = 8" "length (df_pad (f d)) = 4"
  shows "\<exists>b'. dfh_data_mut f b = Ok b' \<and> is_page (buf_bytes b') \<and> buf_addr b' = buf_addr b \<and>
    dfh_data b' = Ok (f d) \<and> uber_header (buf_bytes b') = uber_header (buf_bytes b)"
proof -
  define b' where "b' = mut_prefix 16 (dir_file_data_to_bytes (f d)) b"
  have l: "length (dir_file_data_to_bytes (f d)) = 40" using assms by simp
  have b': "is_page (buf_bytes b')" "buf_addr b' = buf_addr b"
    using assms(1) l by (simp_all add: b'_def mut_prefix_def is_page_def PAGE_BUF_SIZE_def)
  have "bytes_at 16 40 (buf_bytes b') = dir_file_data_to_bytes (f d)"
    using assms(1) l by (simp add: b'_def mut_prefix_def is_page_def PAGE_BUF_SIZE_def)
  then have "dfh_data b' = Ok (f d)" using assms b' by (simp add: dfh_data_Ok)
  moreover have "uber_header (buf_bytes b') = uber_header (buf_bytes b)"
    using assms(1) l
    by (intro uber_header_eq) (simp add: b'_def mut_prefix_def is_page_def PAGE_BUF_SIZE_def bytes_at_put_before)
  moreover have "dfh_data_mut f b = Ok b'" using assms(3) by (simp add: dfh_data_mut_def b'_def UBER_HEADER_SIZE_def)
  ultimately show ?thesis using b' by blast
qed

section \<open>Heap file header\<close>

record heap_file_data =
  hf_magic :: "byte list"
  hf_first_page :: u32
  hf_table_oid :: u32
  hf_free_list_root :: u32
  hf_version :: u16
  hf_pad :: u16

definition hfh_MAGIC :: "byte list" where "hfh_MAGIC = [65, 66, 68, 66, 95, 72, 69, 80]"

definition heap_file_data_of_bytes :: "byte list \<Rightarrow> heap_file_data" where
  "heap_file_data_of_bytes bs = \<lparr> hf_magic = bytes_at 0 8 bs,
     hf_first_page = u32_of (bytes_at 8 4 bs),
     hf_table_oid = u32_of (bytes_at 12 4 bs),
     hf_free_list_root = u32_of (bytes_at 16 4 bs),
     hf_version = u16_of (bytes_at 20 2 bs),
     hf_pad = u16_of (bytes_at 22 2 bs) \<rparr>"

definition heap_file_data_to_bytes :: "heap_file_data \<Rightarrow> byte list" where
  "heap_file_data_to_bytes d = hf_magic d @ u32_bytes (hf_first_page d) @ u32_bytes (hf_table_oid d) @ u32_bytes (hf_free_list_root d) @ u16_bytes (hf_version d) @ u16_bytes (hf_pad d)"

definition hfh_from_buffer :: "mem_buf \<Rightarrow> (file_header_error, mem_buf) outcome" where
  "hfh_from_buffer = fh_from_buffer HeapFileHeader"

definition hfh_data :: "mem_buf \<Rightarrow> (file_header_error, heap_file_data) outcome" where
  "hfh_data b = bind_ok (map_err FHConvert (ref_from_prefix UBER_HEADER_SIZE 4 24 b)) (\<lambda>bs. Ok (heap_file_data_of_bytes bs))"

definition hfh_data_mut :: "(heap_file_data \<Rightarrow> heap_file_data) \<Rightarrow> mem_buf \<Rightarrow> (file_header_error, mem_buf) outcome" where
  "hfh_data_mut f b = bind_ok (hfh_data b) (\<lambda>d. Ok (mut_prefix UBER_HEADER_SIZE (heap_file_data_to_bytes (f d)) b))"

definition hfh_init :: "mem_buf \<Rightarrow> u32 \<Rightarrow> u32 \<Rightarrow> mem_buf" where
  "hfh_init b pid table_oid = fh_init HeapFileHeader
     (heap_file_data_to_bytes \<lparr> hf_magic = hfh_MAGIC, hf_first_page = 0, hf_table_oid = table_oid, hf_free_list_root = 0, hf_version = 1, hf_pad = 0 \<rparr>) b pid"

lemma hfh_MAGIC_length [simp]: "length hfh_MAGIC = 8"
  by (simp add: hfh_MAGIC_def)

lemma heap_file_data_length [simp]: "length (hf_magic d) = 8 \<Longrightarrow> length (heap_file_data_to_bytes d) = 24"
  by (simp add: heap_file_data_to_bytes_def)

lemma heap_file_data_roundtrip [simp]: "length (hf_magic d) = 8 \<Longrightarrow> heap_file_data_of_bytes (heap_file_data_to_bytes d) = d"
  by (simp add: heap_file_data_of_bytes_def heap_file_data_to_bytes_def bytes_at_def)

lemma hfh_data_Ok:
  "is_page (buf_bytes b) \<Longrightarrow> buf_addr b mod 4 = 0 \<Longrightarrow>
   hfh_data b = Ok (heap_file_data_of_bytes (bytes_at 16 24 (buf_bytes b)))"
  by (simp add: hfh_data_def ref_from_prefix_def is_page_def PAGE_BUF_SIZE_def UBER_HEADER_SIZE_def mod_add_right_eq [of "buf_addr b" 16 4, symmetric])

lemma hfh_data_mut_Ok:
  assumes "is_page (buf_bytes b)" "buf_addr b mod 4 = 0" "hfh_data b = Ok d" "length (hf_magic (f d)) = 8"
  shows "\<exists>b'. hfh_data_mut f b = Ok b' \<and> is_page (buf_bytes b') \<and> buf_addr b' = buf_addr b \<and>
    hfh_data b' = Ok (f d) \<and> uber_header (buf_bytes b') = uber_header (buf_bytes b)"
proof -
  define b' where "b' = mut_prefix 16 (heap_file_data_to_bytes (f d)) b"
  have l: "length (heap_file_data_to_bytes (f d)) = 24" using assms by simp
  have b': "is_page (buf_bytes b')" "buf_addr b' = buf_addr b"
    using assms(1) l by (simp_all add: b'_def mut_prefix_def is_page_def PAGE_BUF_SIZE_def)
  have "bytes_at 16 24 (buf_bytes b') = heap_file_data_to_bytes (f d)"
    using assms(1) l by (simp add: b'_def mut_prefix_def is_page_def PAGE_BUF_SIZE_def)
  then have "hfh_data b' = Ok (f d)" using assms b' by (simp add: hfh_data_Ok)
  moreover have "uber_header (buf_bytes b') = uber_header (buf_bytes b)"
    using assms(1) l
    by (intro uber_header_eq) (simp add: b'_def mut_prefix_def is_page_def PAGE_BUF_SIZE_def bytes_at_put_before)
  moreover have "hfh_data_mut f b = Ok b'" using assms(3) by (simp add: hfh_data_mut_def b'_def UBER_HEADER_SIZE_def)
  ultimately show ?thesis using b' by blast
qed

section \<open>Index file header\<close>

record index_file_data =
  if_magic :: "byte list"
  if_num_pages :: u32
  if_index_oid :: u32
  if_root_page :: u32
  if_table_oid :: u32
  if_version :: u16
  if_pad :: u16

definition ifh_MAGIC :: "byte list" where "ifh_MAGIC = [65, 66, 68, 66, 95, 73, 68, 88]"

definition index_file_data_of_bytes :: "byte list \<Rightarrow> index_file_data" where
  "index_file_data_of_bytes bs = \<lparr> if_magic = bytes_at 0 8 bs,
     if_num_pages = u32_of (bytes_at 8 4 bs),
     if_index_oid = u32_of (bytes_at 12 4 bs),
     if_root_page = u32_of (bytes_at 16 4 bs),
     if_table_oid = u32_of (bytes_at 20 4 bs),
     if_version = u16_of (bytes_at 24 2 bs),
     if_pad = u16_of (bytes_at 26 2 bs) \<rparr>"

definition index_file_data_to_bytes :: "index_file_data \<Rightarrow> byte list" where
  "index_file_data_to_bytes d = if_magic d @ u32_bytes (if_num_pages d) @ u32_bytes (if_index_oid d) @ u32_bytes (if_root_page d) @ u32_bytes (if_table_oid d) @ u16_bytes (if_version d) @ u16_bytes (if_pad d)"

definition ifh_from_buffer :: "mem_buf \<Rightarrow> (file_header_error, mem_buf) outcome" where
  "ifh_from_buffer = fh_from_buffer IndexFileHeader"

definition ifh_data :: "mem_buf \<Rightarrow> (file_header_error, index_file_data) outcome" where
  "ifh_data b = bind_ok (map_err FHConvert (ref_from_prefix UBER_HEADER_SIZE 4 28 b)) (\<lambda>bs. Ok (index_file_data_of_bytes bs))"

definition ifh_data_mut :: "(index_file_data \<Rightarrow> index_file_data) \<Rightarrow> mem_buf \<Rightarrow> (file_header_error, mem_buf) outcome" where
  "ifh_data_mut f b = bind_ok (ifh_data b) (\<lambda>d. Ok (mut_prefix UBER_HEADER_SIZE (index_file_data_to_bytes (f d)) b))"

definition ifh_init :: "mem_buf \<Rightarrow> u32 \<Rightarrow> u32 \<Rightarrow> u32 \<Rightarrow> mem_buf" where
  "ifh_init b pid index_oid table_oid = fh_init IndexFileHeader
     (index_file_data_to_bytes \<lparr> if_magic = ifh_MAGIC, if_num_pages = 0, if_index_oid = index_oid, if_root_page = 0, if_table_oid = table_oid, if_version = 1, if_pad = 0 \<rparr>) b pid"

lemma ifh_MAGIC_length [simp]: "length ifh_MAGIC = 8"
  by (simp add: ifh_MAGIC_def)

lemma index_file_data_length [simp]: "length (if_magic d) = 8 \<Longrightarrow> length (index_file_data_to_bytes d) = 28"
  by (simp add: index_file_data_to_bytes_def)

lemma index_file_data_roundtrip [simp]: "length (if_magic d) = 8 \<Longrightarrow> index_file_data_of_bytes (index_file_data_to_bytes d) = d"
  by (simp add: index_file_data_of_bytes_def index_file_data_to_bytes_def bytes_at_def)

lemma ifh_data_Ok:
  "is_page (buf_bytes b) \<Longrightarrow> buf_addr b mod 4 = 0 \<Longrightarrow>
   ifh_data b = Ok (index_file_data_of_bytes (bytes_at 16 28 (buf_bytes b)))"
  by (simp add: ifh_data_def ref_from_prefix_def is_page_def PAGE_BUF_SIZE_def UBER_HEADER_SIZE_def mod_add_right_eq [of "buf_addr b" 16 4, symmetric])

lemma ifh_data_mut_Ok:
  assumes "is_page (buf_bytes b)" "buf_addr b mod 4 = 0" "ifh_data b = Ok d" "length (if_magic (f d)) = 8"
  shows "\<exists>b'. ifh_data_mut f b = Ok b' \<and> is_page (buf_bytes b') \<and> buf_addr b' = buf_addr b \<and>
    ifh_data b' = Ok (f d) \<and> uber_header (buf_bytes b') = uber_header (buf_bytes b)"
proof -
  define b' where "b' = mut_prefix 16 (index_file_data_to_bytes (f d)) b"
  have l: "length (index_file_data_to_bytes (f d)) = 28" using assms by simp
  have b': "is_page (buf_bytes b')" "buf_addr b' = buf_addr b"
    using assms(1) l by (simp_all add: b'_def mut_prefix_def is_page_def PAGE_BUF_SIZE_def)
  have "bytes_at 16 28 (buf_bytes b') = index_file_data_to_bytes (f d)"
    using assms(1) l by (simp add: b'_def mut_prefix_def is_page_def PAGE_BUF_SIZE_def)
  then have "ifh_data b' = Ok (f d)" using assms b' by (simp add: ifh_data_Ok)
  moreover have "uber_header (buf_bytes b') = uber_header (buf_bytes b)"
    using assms(1) l
    by (intro uber_header_eq) (simp add: b'_def mut_prefix_def is_page_def PAGE_BUF_SIZE_def bytes_at_put_before)
  moreover have "ifh_data_mut f b = Ok b'" using assms(3) by (simp add: ifh_data_mut_def b'_def UBER_HEADER_SIZE_def)
  ultimately show ?thesis using b' by blast
qed

section \<open>Fresh headers\<close>

lemma mod_8_4: "a mod 8 = 0 \<Longrightarrow> a mod 4 = (0::nat)"
  by presburger

lemma fh_init_accepted:
  assumes "is_page (buf_bytes b)" "buf_addr b mod 8 = 0" "length ds \<le> 4080"
  shows "fh_from_buffer t' (fh_init t ds b pid) = (if t' = t then Ok (fh_init t ds b pid) else Err (FHTypeMismatch t' t))"
  using uber_fh_init [OF assms(1,3), of t pid] assms(2)
  by (auto simp: fh_from_buffer_spec is_page_def PAGE_BUF_SIZE_def simp del: page_type_byte.simps)

lemma dfh_init_data:
  assumes "is_page (buf_bytes b)" "buf_addr b mod 8 = 0"
  shows "dfh_data (dfh_init b pid) = Ok \<lparr> df_magic = dfh_MAGIC, next_tx_id = 1, last_checkpoint_lsn = 0,
    next_page_id = 0, dir_root_page = 0, next_file_id = 0, df_pad = replicate 4 0 \<rparr>"
proof -
  let ?d = "\<lparr> df_magic = dfh_MAGIC, next_tx_id = 1, last_checkpoint_lsn = 0,
    next_page_id = 0, dir_root_page = 0, next_file_id = 0, df_pad = replicate 4 0 \<rparr>"
  have l: "length (dir_file_data_to_bytes ?d) = 40" by simp
  note u = uber_fh_init [OF assms(1), of "dir_file_data_to_bytes ?d" DirectoryFileHeader pid]
  show ?thesis using u(3-5) assms by (simp add: dfh_init_def dfh_data_Ok)
qed

lemma hfh_init_data:
  assumes "is_page (buf_bytes b)" "buf_addr b mod 4 = 0"
  shows "hfh_data (hfh_init b pid oid) = Ok \<lparr> hf_magic = hfh_MAGIC, hf_first_page = 0, hf_table_oid = oid,
    hf_free_list_root = 0, hf_version = 1, hf_pad = 0 \<rparr>"
proof -
  let ?d = "\<lparr> hf_magic = hfh_MAGIC, hf_first_page = 0, hf_table_oid = oid,
    hf_free_list_root = 0, hf_version = 1, hf_pad = 0 \<rparr>"
  have l: "length (heap_file_data_to_bytes ?d) = 24" by simp
  note u = uber_fh_init [OF assms(1), of "heap_file_data_to_bytes ?d" HeapFileHeader pid]
  show ?thesis using u(3-5) assms by (simp add: hfh_init_def hfh_data_Ok)
qed

lemma ifh_init_data:
  assumes "is_page (buf_bytes b)" "buf_addr b mod 4 = 0"
  shows "ifh_data (ifh_init b pid ioid toid) = Ok \<lparr> if_magic = ifh_MAGIC, if_num_pages = 0, if_index_oid = ioid,
    if_root_page = 0, if_table_oid = toid, if_version = 1, if_pad = 0 \<rparr>"
proof -
  let ?d = "\<lparr> if_magic = ifh_MAGIC, if_num_pages = 0, if_index_oid = ioid,
    if_root_page = 0, if_table_oid = toid, if_version = 1, if_pad = 0 \<rparr>"
  have l: "length (index_file_data_to_bytes ?d) = 28" by simp
  note u = uber_fh_init [OF assms(1), of "index_file_data_to_bytes ?d" IndexFileHeader pid]
  show ?thesis using u(3-5) assms by (simp add: ifh_init_def ifh_data_Ok)
qed

lemma fresh_header_page_ids:
  assumes "is_page (buf_bytes b)"
  shows "page_id (uber_header (buf_bytes (dfh_init b pid))) = pid"
    "page_id (uber_header (buf_bytes (hfh_init b pid toid))) = pid"
    "page_id (uber_header (buf_bytes (ifh_init b pid ioid toid))) = pid"
  by (simp_all add: dfh_init_def hfh_init_def ifh_init_def uber_fh_init(2) [OF assms])

lemma fresh_header_kinds:
  assumes "is_page (buf_bytes b)" "buf_addr b mod 8 = 0"
  shows "dfh_from_buffer (dfh_init b pid) = Ok (dfh_init b pid)"
    "hfh_from_buffer (dfh_init b pid) = Err (FHTypeMismatch HeapFileHeader DirectoryFileHeader)"
    "ifh_from_buffer (dfh_init b pid) = Err (FHTypeMismatch IndexFileHeader DirectoryFileHeader)"
    "hfh_from_buffer (hfh_init b pid toid) = Ok (hfh_init b pid toid)"
    "dfh_from_buffer (hfh_init b pid toid) = Err (FHTypeMismatch DirectoryFileHeader HeapFileHeader)"
    "ifh_from_buffer (hfh_init b pid toid) = Err (FHTypeMismatch IndexFileHeader HeapFileHeader)"
    "ifh_from_buffer (ifh_init b pid ioid toid) = Ok (ifh_init b pid ioid toid)"
    "dfh_from_buffer (ifh_init b pid ioid toid) = Err (FHTypeMismatch DirectoryFileHeader IndexFileHeader)"
    "hfh_from_buffer (ifh_init b pid ioid toid) = Err (FHTypeMismatch HeapFileHeader IndexFileHeader)"
  by (simp_all add: dfh_from_buffer_def hfh_from_buffer_def ifh_from_buffer_def dfh_init_def hfh_init_def ifh_init_def
      fh_init_accepted [OF assms])

text \<open>C12: A file header is read back as it was written: on a page at an 8-byte aligned address, whatever
  the page held, init of a directory, heap or index file leaves a header that \<open>from_buffer\<close> of that kind
  accepts and \<open>from_buffer\<close> of the other two kinds refuses with the two kinds in the error, that carries the
  page number it was given, and whose data are exactly the initial ones: the magic of the kind,
  the object ids given, version 1, the next transaction id 1 and zero for everything else.\<close>

theorem file_header_roundtrip:
  assumes "is_page (buf_bytes b)" "buf_addr b mod 8 = 0"
  shows "dfh_from_buffer (dfh_init b pid) = Ok (dfh_init b pid) \<and>
    hfh_from_buffer (dfh_init b pid) = Err (FHTypeMismatch HeapFileHeader DirectoryFileHeader) \<and>
    ifh_from_buffer (dfh_init b pid) = Err (FHTypeMismatch IndexFileHeader DirectoryFileHeader) \<and>
    hfh_from_buffer (hfh_init b pid toid) = Ok (hfh_init b pid toid) \<and>
    dfh_from_buffer (hfh_init b pid toid) = Err (FHTypeMismatch DirectoryFileHeader HeapFileHeader) \<and>
    ifh_from_buffer (hfh_init b pid toid) = Err (FHTypeMismatch IndexFileHeader HeapFileHeader) \<and>
    ifh_from_buffer (ifh_init b pid ioid toid) = Ok (ifh_init b pid ioid toid) \<and>
    dfh_from_buffer (ifh_init b pid ioid toid) = Err (FHTypeMismatch DirectoryFileHeader IndexFileHeader) \<and>
    hfh_from_buffer (ifh_init b pid ioid toid) = Err (FHTypeMismatch HeapFileHeader IndexFileHeader) \<and>
    list_all (\<lambda>p. page_id (uber_header (buf_bytes p)) = pid)
      [dfh_init b pid, hfh_init b pid toid, ifh_init b pid ioid toid] \<and>
    dfh_data (dfh_init b pid) = Ok \<lparr> df_magic = [65, 66, 68, 66, 95, 68, 73, 82], next_tx_id = 1,
      last_checkpoint_lsn = 0, next_page_id = 0, dir_root_page = 0, next_file_id = 0, df_pad = [0, 0, 0, 0] \<rparr> \<and>
    hfh_data (hfh_init b pid toid) = Ok \<lparr> hf_magic = [65, 66, 68, 66, 95, 72, 69, 80], hf_first_page = 0,
      hf_table_oid = toid, hf_free_list_root = 0, hf_version = 1, hf_pad = 0 \<rparr> \<and>
    ifh_data (ifh_init b pid ioid toid) = Ok \<lparr> if_magic = [65, 66, 68, 66, 95, 73, 68, 88], if_num_pages = 0,
      if_index_oid = ioid, if_root_page = 0, if_table_oid = toid, if_version = 1, if_pad = 0 \<rparr>"
proof -
  have four: "replicate 4 0 = [0, 0, 0, 0 :: byte]" by (simp add: numeral_eq_Suc)
  have data: "dfh_data (dfh_init b pid) = Ok \<lparr> df_magic = [65, 66, 68, 66, 95, 68, 73, 82], next_tx_id = 1,
      last_checkpoint_lsn = 0, next_page_id = 0, dir_root_page = 0, next_file_id = 0, df_pad = [0, 0, 0, 0] \<rparr>"
    "hfh_data (hfh_init b pid toid) = Ok \<lparr> hf_magic = [65, 66, 68, 66, 95, 72, 69, 80], hf_first_page = 0,
      hf_table_oid = toid, hf_free_list_root = 0, hf_version = 1, hf_pad = 0 \<rparr>"
    "ifh_data (ifh_init b pid ioid toid) = Ok \<lparr> if_magic = [65, 66, 68, 66, 95, 73, 68, 88], if_num_pages = 0,
      if_index_oid = ioid, if_root_page = 0, if_table_oid = toid, if_version = 1, if_pad = 0 \<rparr>"
    using dfh_init_data [OF assms] hfh_init_data [OF assms(1)] ifh_init_data [OF assms(1)] mod_8_4 [OF assms(2)]
    by (simp_all only: dfh_MAGIC_def hfh_MAGIC_def ifh_MAGIC_def four)
  then show ?thesis using fresh_header_kinds [OF assms] fresh_header_page_ids [OF assms(1)] by simp
qed

theorem file_header_roundtrip_witness:
  "dfh_from_buffer (dfh_init \<lparr> buf_addr = 64, buf_bytes = replicate 4096 9 \<rparr> 0) =
     Ok (dfh_init \<lparr> buf_addr = 64, buf_bytes = replicate 4096 9 \<rparr> 0) \<and>
   dfh_from_buffer (hfh_init \<lparr> buf_addr = 64, buf_bytes = replicate 4096 9 \<rparr> 0 16) =
     Err (FHTypeMismatch DirectoryFileHeader HeapFileHeader)"
proof -
  have "is_page (buf_bytes (\<lparr> buf_addr = 64, buf_bytes = replicate 4096 9 \<rparr> :: mem_buf))"
    "buf_addr (\<lparr> buf_addr = 64, buf_bytes = replicate 4096 9 \<rparr> :: mem_buf) mod 8 = 0"
    by (simp_all add: is_page_def PAGE_BUF_SIZE_def)
  from file_header_roundtrip [OF this, of 0 16] show ?thesis by blast
qed

end
