(* ===== verification/Directory.thy ===== *)
theory Directory
  imports DirLeaf DirInner FileHeaders
begin

text \<open>
  \<open>src/src/storage/directory/directory.rs\<close>: the page directory, a B-tree in a file of its own that
  maps logical page ids to places in files. The state is the file, the page cache, the set of
  dirty pages, the allocation counter and the root. The operations take their locks one after
  another and are modelled one call at a time.

  The operating system gives the file: it is absent or a sequence of bytes, reading past its end
  fails, writing past its end fills the gap with zeros. Iteration over a hash set has no order,
  so \<open>flush_all_dirty\<close> takes the order as an argument. \<open>local_addr\<close> is the address of the
  page-sized local arrays, on which the alignment check of the header overlay depends.
\<close>

section \<open>State and errors\<close>

datatype io_error = FileNotFound | UnexpectedEof

text \<open>The messages of \<open>PageCorruption\<close>.\<close>

datatype corruption =
    InvalidDirectoryHeader file_header_error
  | CannotReadHeaderData file_header_error
  | CannotWriteHeader file_header_error
  | BadPageType u8
  | UnexpectedPageType page_type
  | CannotReadLeafEntry overlay_error
  | SplitInsertFailed overlay_error
  | SplitOldLeafInsertFailed overlay_error
  | CannotReadInnerEntry overlay_error
  | DuplicateSeparatorInInnerSplit
  | SplitInnerInsertFailed overlay_error
  | SplitOldInnerInsertFailed overlay_error
  | AncestorInsertFailed overlay_error
  | NewRootInsertFailed overlay_error
  | LeafInsertFailed overlay_error
  | UnexpectedEmptyTree
  | UpdateFailed overlay_error
  | DeleteFailed overlay_error

datatype dir_error = IOError io_error | PageNotFound u32 | PageCorruption corruption | DuplicatePage u32

record dir =
  dfile :: "byte list option"
  dcache :: "u32 \<rightharpoonup> page"
  ddirty :: "u32 set"
  dnext :: u32
  droot :: u32
  local_addr :: nat

type_synonym 'a dprog = "(dir, dir_error, 'a) prog"

abbreviation corrupt :: "(overlay_error \<Rightarrow> corruption) \<Rightarrow> (overlay_error, 'a) outcome \<Rightarrow> (dir_error, 'a) outcome" where
  "corrupt c m \<equiv> map_err (\<lambda>e. PageCorruption (c e)) m"

section \<open>The file\<close>

definition file_write :: "nat \<Rightarrow> byte list \<Rightarrow> byte list \<Rightarrow> byte list" where
  "file_write off xs f = put_at off xs (f @ replicate (off - length f) 0)"

definition zero_page :: page where "zero_page = replicate PAGE_BUF_SIZE 0"

definition dir_new :: "byte list option \<Rightarrow> nat \<Rightarrow> dir" where
  "dir_new f a = \<lparr> dfile = f, dcache = Map.empty, ddirty = {}, dnext = 1, droot = 0, local_addr = a \<rparr>"

definition init_new :: "unit dprog" where
  "init_new = modify (\<lambda>s. s\<lparr> dfile := Some (file_write 0
     (buf_bytes (dfh_init \<lparr> buf_addr = local_addr s, buf_bytes = zero_page \<rparr> 0))
     (case dfile s of None \<Rightarrow> [] | Some f \<Rightarrow> f)) \<rparr>)"

definition load_header :: "unit dprog" where
  "load_header s = (case dfile s of
       None \<Rightarrow> fail (IOError FileNotFound) s
     | Some f \<Rightarrow>
       if length f < PAGE_BUF_SIZE then fail (IOError UnexpectedEof) s
       else let buffer = \<lparr> buf_addr = local_addr s, buf_bytes = take PAGE_BUF_SIZE f \<rparr> in
         pbind (lift (map_err (\<lambda>e. PageCorruption (InvalidDirectoryHeader e)) (dfh_from_buffer buffer))) (\<lambda>header.
         pbind (lift (map_err (\<lambda>e. PageCorruption (CannotReadHeaderData e)) (dfh_data header))) (\<lambda>data.
         modify (\<lambda>s. s\<lparr> droot := dir_root_page data,
           dnext := (if next_page_id data = 0 then 1 else next_page_id data) \<rparr>))) s)"

definition open_dir :: "byte list option \<Rightarrow> nat \<Rightarrow> ((dir_error, unit) outcome \<times> dir) option" where
  "open_dir f a = (if f \<noteq> None then load_header (dir_new f a) else init_new (dir_new f a))"

section \<open>Pages\<close>

definition read_page :: "u32 \<Rightarrow> page dprog" where
  "read_page i s = (case dcache s i of
       Some p \<Rightarrow> Some (Ok p, s)
     | None \<Rightarrow> (case dfile s of
         None \<Rightarrow> Some (Err (IOError FileNotFound), s)
       | Some f \<Rightarrow>
         let offset = unat i * PAGE_BUF_SIZE in
         if length f < offset + PAGE_BUF_SIZE then Some (Err (IOError UnexpectedEof), s)
         else let buffer = bytes_at offset PAGE_BUF_SIZE f
           in Some (Ok buffer, s\<lparr> dcache := (dcache s)(i \<mapsto> buffer) \<rparr>)))"

definition write_page :: "u32 \<Rightarrow> page \<Rightarrow> unit dprog" where
  "write_page i p = modify (\<lambda>s. s\<lparr> dcache := (dcache s)(i \<mapsto> p), ddirty := insert i (ddirty s) \<rparr>)"

text \<open>The addition panics on overflow.\<close>

definition alloc_dir_page :: "u32 dprog" where
  "alloc_dir_page s = (if dnext s = 4294967295 then Some (Panic, s)
     else Some (Ok (dnext s), s\<lparr> dnext := dnext s + 1 \<rparr>))"

definition set_root_page :: "u32 \<Rightarrow> unit dprog" where
  "set_root_page new_root =
     pbind (modify (\<lambda>s. s\<lparr> droot := new_root \<rparr>)) (\<lambda>_.
     pbind (read_page 0) (\<lambda>buffer.
     pbind (gets local_addr) (\<lambda>a.
     pbind (gets dnext) (\<lambda>next.
     pbind (lift (map_err (\<lambda>e. PageCorruption (CannotWriteHeader e))
       (dfh_data_mut (\<lambda>data. data\<lparr> dir_root_page := new_root, next_page_id := next \<rparr>)
         \<lparr> buf_addr = a, buf_bytes = buffer \<rparr>))) (\<lambda>header.
     write_page 0 (buf_bytes header))))))"

section \<open>Descending\<close>

definition page_kind :: "page \<Rightarrow> (dir_error, page_type) outcome" where
  "page_kind p = map_err (\<lambda>_. PageCorruption (BadPageType (page_type_id (uber_header p))))
     (page_type_try_from (page_type_id (uber_header p)))"

lemma pbind_mono [partial_function_mono]:
  "(\<And>a s'. mono_option (\<lambda>f. B f a s')) \<Longrightarrow> mono_option (\<lambda>f. pbind m (\<lambda>a. B f a) s)"
  unfolding pbind_def by (cases "m s") (auto simp: monotone_def flat_ord_def split: outcome.split prod.split)

text \<open>The loop of \<open>find_leaf\<close>: it does not return on a cycle of inner pages.\<close>

partial_function (option) find_leaf_loop :: "u64 \<Rightarrow> u32 \<Rightarrow> dir \<Rightarrow> ((dir_error, u32) outcome \<times> dir) option" where
  "find_leaf_loop key current s =
     pbind (read_page current) (\<lambda>buffer.
     pbind (lift (page_kind buffer)) (\<lambda>page_type s.
       if page_type = DirectoryInner then
         pbind (lift (unwrap (di_find_child buffer key))) (\<lambda>child s. find_leaf_loop key child s) s
       else if page_type = DirectoryLeaf then Some (Ok current, s)
       else Some (Err (PageCorruption (UnexpectedPageType page_type)), s))) s"

definition find_leaf :: "u64 \<Rightarrow> u32 dprog" where
  "find_leaf key = pbind (gets droot) (\<lambda>root.
     if root = 0 then fail (PageNotFound (ucast key)) else find_leaf_loop key root)"

text \<open>The loop of \<open>find_leaf_with_path\<close>; the path is in the order of the pushes.\<close>

partial_function (option) find_path_loop ::
  "u64 \<Rightarrow> u32 \<Rightarrow> u32 list \<Rightarrow> dir \<Rightarrow> ((dir_error, u32 \<times> u32 list) outcome \<times> dir) option" where
  "find_path_loop key current path s =
     pbind (read_page current) (\<lambda>buffer.
     pbind (lift (page_kind buffer)) (\<lambda>page_type s.
       if page_type = DirectoryInner then
         pbind (lift (unwrap (di_find_child buffer key))) (\<lambda>child s. find_path_loop key child (path @ [current]) s) s
       else if page_type = DirectoryLeaf then Some (Ok (current, path), s)
       else Some (Err (PageCorruption (UnexpectedPageType page_type)), s))) s"

definition find_leaf_with_path :: "u64 \<Rightarrow> (u32 \<times> u32 list) dprog" where
  "find_leaf_with_path key = pbind (gets droot) (\<lambda>root.
     if root = 0 then ret (0, []) else find_path_loop key root [])"

section \<open>Splitting\<close>

text \<open>
  \<open>slice::binary_search_by_key\<close> on a sorted slice: the position of the key, or the position
  where it can be inserted.
\<close>

definition binary_search_by_key :: "('a \<Rightarrow> u64) \<Rightarrow> u64 \<Rightarrow> 'a list \<Rightarrow> nat + nat" where
  "binary_search_by_key f k xs = (if k \<in> f ` set xs then Inl (rank f k xs) else Inr (rank f k xs))"

definition vec_insert :: "nat \<Rightarrow> 'a \<Rightarrow> 'a list \<Rightarrow> 'a list" where
  "vec_insert i x xs = take i xs @ x # drop i xs"

definition insert_entries :: "(u32 \<times> ppage_id) list \<Rightarrow> page \<Rightarrow> (overlay_error, page) outcome" where
  "insert_entries = fold_ok (\<lambda>(k, pp). dl_insert_entry k pp)"

definition insert_separators :: "inner_entry list \<Rightarrow> page \<Rightarrow> (overlay_error, page) outcome" where
  "insert_separators = fold_ok (\<lambda>e. di_insert_separator (separator_key e) (right_child e))"

text \<open>The result also carries the buffer that \<open>leaf_buf: &mut\<close> refers to.\<close>

definition split_leaf :: "u32 \<Rightarrow> page \<Rightarrow> u32 \<Rightarrow> ppage_id \<Rightarrow> (u32 \<times> u64 \<times> page) dprog" where
  "split_leaf leaf_id leaf_buf extra_key extra_ppage =
     pbind (lift (corrupt CannotReadLeafEntry
       (traverse (\<lambda>i. bind_ok (dl_entry leaf_buf i) (\<lambda>e. Ok (logical_page_id e, to_ppage_id e)))
         [0..<leaf_num_entries leaf_buf]))) (\<lambda>entries0.
     case binary_search_by_key (\<lambda>e. ucast (fst e)) (ucast extra_key) entries0 of
       Inl _ \<Rightarrow> fail (DuplicatePage extra_key)
     | Inr pos \<Rightarrow>
       let entries = vec_insert pos (extra_key, extra_ppage) entries0;
           mid = length entries div 2;
           separator = ucast (fst (entries ! mid))
       in
       pbind alloc_dir_page (\<lambda>new_leaf_id.
       pbind (lift (corrupt SplitInsertFailed (insert_entries (drop mid entries) (dl_init zero_page new_leaf_id)))) (\<lambda>new_page.
       let new_buf = leaf_set_prev_page leaf_id (leaf_set_next_page (leaf_next_page leaf_buf) new_page) in
       pbind (write_page new_leaf_id new_buf) (\<lambda>_.
       let old_next = leaf_next_page leaf_buf; old_prev = leaf_prev_page leaf_buf in
       pbind (lift (corrupt SplitOldLeafInsertFailed (insert_entries (take mid entries) (dl_init leaf_buf leaf_id)))) (\<lambda>old_page.
       let leaf_buf' = leaf_set_prev_page old_prev (leaf_set_next_page new_leaf_id old_page) in
       pbind (if old_next \<noteq> 0 then
                pbind (read_page old_next) (\<lambda>sib_buf. write_page old_next (leaf_set_prev_page new_leaf_id sib_buf))
              else ret ()) (\<lambda>_.
       ret (new_leaf_id, separator, leaf_buf')))))))"

definition split_inner :: "u32 \<Rightarrow> page \<Rightarrow> u64 \<Rightarrow> u32 \<Rightarrow> (u32 \<times> u64 \<times> page) dprog" where
  "split_inner inner_id inner_buf sep_key rchild =
     pbind (lift (corrupt CannotReadInnerEntry (traverse (di_entry inner_buf) [0..<inner_num_keys inner_buf]))) (\<lambda>entries0.
     case binary_search_by_key separator_key sep_key entries0 of
       Inl _ \<Rightarrow> fail (PageCorruption DuplicateSeparatorInInnerSplit)
     | Inr pos \<Rightarrow>
       let entries = vec_insert pos (inner_entry_new sep_key rchild) entries0;
           mid = length entries div 2;
           pushed_up = separator_key (entries ! mid);
           new_leftmost = right_child (entries ! mid)
       in
       pbind alloc_dir_page (\<lambda>new_inner_id.
       pbind (lift (corrupt SplitInnerInsertFailed
         (insert_separators (drop (mid + 1) entries) (di_init zero_page new_inner_id new_leftmost)))) (\<lambda>new_buf.
       pbind (write_page new_inner_id new_buf) (\<lambda>_.
       pbind (lift (corrupt SplitOldInnerInsertFailed
         (insert_separators (take mid entries) (di_init inner_buf inner_id (inner_leftmost_child inner_buf))))) (\<lambda>inner_buf'.
       ret (new_inner_id, pushed_up, inner_buf'))))))"

text \<open>A new root over two pages; the same statements end \<open>insert_into_ancestors\<close> and a split of the root leaf.\<close>

definition new_root :: "u32 \<Rightarrow> u64 \<Rightarrow> u32 \<Rightarrow> unit dprog" where
  "new_root left sep_key new_child =
     pbind alloc_dir_page (\<lambda>new_root_id.
     pbind (lift (corrupt NewRootInsertFailed
       (di_insert_separator sep_key new_child (di_init zero_page new_root_id left)))) (\<lambda>new_root_buf.
     pbind (write_page new_root_id new_root_buf) (\<lambda>_.
     set_root_page new_root_id)))"

text \<open>The loop of \<open>insert_into_ancestors\<close>, over the path from the leaf upwards, and what follows it.\<close>

fun ancestors_loop :: "u32 list \<Rightarrow> u64 \<Rightarrow> u32 \<Rightarrow> unit dprog" where
  "ancestors_loop [] sep_key new_child = pbind (gets droot) (\<lambda>old_root. new_root old_root sep_key new_child)"
| "ancestors_loop (parent_id # rest) sep_key new_child =
     pbind (read_page parent_id) (\<lambda>parent_buf.
     if inner_num_keys parent_buf < MAX_KEYS then
       pbind (lift (corrupt AncestorInsertFailed (di_insert_separator sep_key new_child parent_buf))) (\<lambda>parent_buf'.
       write_page parent_id parent_buf')
     else
       pbind (split_inner parent_id parent_buf sep_key new_child) (\<lambda>(new_inner, pushed_up, parent_buf').
       pbind (write_page parent_id parent_buf') (\<lambda>_.
       ancestors_loop rest pushed_up new_inner)))"

definition insert_into_ancestors :: "u32 list \<Rightarrow> u64 \<Rightarrow> u32 \<Rightarrow> unit dprog" where
  "insert_into_ancestors path sep_key new_child = ancestors_loop (rev path) sep_key new_child"

section \<open>The operations of the directory\<close>

definition lookup :: "u32 \<Rightarrow> ppage_id dprog" where
  "lookup pid = pbind (gets droot) (\<lambda>root.
     if root = 0 then fail (PageNotFound pid)
     else pbind (find_leaf (ucast pid)) (\<lambda>leaf_id.
       pbind (read_page leaf_id) (\<lambda>buffer.
       pbind (lift (unwrap (dl_lookup buffer (ucast pid)))) (\<lambda>r. case r of
         Some pp \<Rightarrow> ret pp
       | None \<Rightarrow> fail (PageNotFound pid)))))"

definition add_page :: "u32 \<Rightarrow> ppage_id \<Rightarrow> unit dprog" where
  "add_page pid physical_id = pbind (gets droot) (\<lambda>root.
     if root = 0 then
       pbind alloc_dir_page (\<lambda>new_leaf_id.
       pbind (lift (corrupt LeafInsertFailed
         (dl_insert_entry pid physical_id (dl_init zero_page new_leaf_id)))) (\<lambda>buffer.
       pbind (write_page new_leaf_id buffer) (\<lambda>_.
       set_root_page new_leaf_id)))
     else pbind (find_leaf_with_path (ucast pid)) (\<lambda>(leaf_id, path).
       if leaf_id = 0 then fail (PageCorruption UnexpectedEmptyTree)
       else pbind (read_page leaf_id) (\<lambda>leaf_buf.
         if dl_MAX_ENTRIES \<le> leaf_num_entries leaf_buf then
           pbind (split_leaf leaf_id leaf_buf pid physical_id) (\<lambda>(new_leaf, sep, leaf_buf').
           pbind (write_page leaf_id leaf_buf') (\<lambda>_.
           if path = [] then new_root leaf_id sep new_leaf
           else insert_into_ancestors path sep new_leaf))
         else
           pbind (lift (corrupt LeafInsertFailed (dl_insert_entry pid physical_id leaf_buf))) (\<lambda>leaf_buf'.
           write_page leaf_id leaf_buf'))))"

definition update_page :: "u32 \<Rightarrow> ppage_id \<Rightarrow> unit dprog" where
  "update_page pid physical_id = pbind (gets droot) (\<lambda>root.
     if root = 0 then fail (PageNotFound pid)
     else pbind (find_leaf (ucast pid)) (\<lambda>leaf_id.
       pbind (read_page leaf_id) (\<lambda>buffer.
       pbind (lift (corrupt UpdateFailed (dl_update_entry pid physical_id buffer))) (\<lambda>(updated, buffer').
       if \<not> updated then fail (PageNotFound pid) else write_page leaf_id buffer'))))"

definition delete_page :: "u32 \<Rightarrow> unit dprog" where
  "delete_page pid = pbind (gets droot) (\<lambda>root.
     if root = 0 then fail (PageNotFound pid)
     else pbind (find_leaf (ucast pid)) (\<lambda>leaf_id.
       pbind (read_page leaf_id) (\<lambda>buffer.
       pbind (lift (corrupt DeleteFailed (dl_delete_by_key (ucast pid) buffer))) (\<lambda>(deleted, buffer').
       if \<not> deleted then fail (PageNotFound pid) else write_page leaf_id buffer'))))"

text \<open>\<open>iter\<close> is the order in which the hash set is iterated.\<close>

definition flush_pages :: "(u32 \<rightharpoonup> page) \<Rightarrow> u32 list \<Rightarrow> byte list \<Rightarrow> byte list" where
  "flush_pages cache dirty_pages f = fold (\<lambda>i f. case cache i of
       Some buffer \<Rightarrow> file_write (unat i * PAGE_BUF_SIZE) buffer f
     | None \<Rightarrow> f) dirty_pages f"

definition flush_all_dirty :: "(u32 set \<Rightarrow> u32 list) \<Rightarrow> unit dprog" where
  "flush_all_dirty iter s =
     (let dirty_pages = iter (ddirty s) in
      if dirty_pages = [] then ret () s
      else case dfile s of
        None \<Rightarrow> fail (IOError FileNotFound) s
      | Some f \<Rightarrow> ret () (s\<lparr> dfile := Some (flush_pages (dcache s) dirty_pages f),
          ddirty := ddirty s - set dirty_pages \<rparr>))"

end
