(* ===== verification/TreeModel.thy ===== *)
theory TreeModel
  imports SortedEntries "HOL-Library.Multiset"
begin

text \<open>
  Trees with the shape of the B-trees on disk, as values: a leaf has its page id and its entries,
  an inner node has its page id, its leftmost child and its separators with their right
  children. Bounds of the keys of a subtree, the entries from left to right, and contexts: the
  way from a leaf up to the root, with the rest of the tree hanging off it. Nothing here
  mentions pages; the theories of the trees relate these values to the bytes.
\<close>

section \<open>Trees\<close>

datatype 'e tree = Leaf u32 "'e list" | Node u32 "'e tree" "(u64 \<times> 'e tree) list"

fun tid :: "'e tree \<Rightarrow> u32" where
  "tid (Leaf i es) = i"
| "tid (Node i t ts) = i"

fun flat :: "'e tree \<Rightarrow> 'e list" where
  "flat (Leaf i es) = es"
| "flat (Node i t ts) = flat t @ concat (map (\<lambda>s. flat (snd s)) ts)"

fun ids :: "'e tree \<Rightarrow> u32 list" where
  "ids (Leaf i es) = [i]"
| "ids (Node i t ts) = i # ids t @ concat (map (\<lambda>s. ids (snd s)) ts)"

fun leaf_ids :: "'e tree \<Rightarrow> u32 list" where
  "leaf_ids (Leaf i es) = [i]"
| "leaf_ids (Node i t ts) = leaf_ids t @ concat (map (\<lambda>s. leaf_ids (snd s)) ts)"

text \<open>
  \<open>seg P Ps lo hi\<close>: separators cut the interval from \<open>lo\<close> to \<open>hi\<close> into pieces, one for each
  child, and each child's predicate holds of its piece.
\<close>

type_synonym piece = "nat \<Rightarrow> nat \<Rightarrow> bool"

fun seg :: "piece \<Rightarrow> (nat \<times> piece) list \<Rightarrow> piece" where
  "seg P [] lo hi \<longleftrightarrow> P lo hi"
| "seg P ((k, Q) # qs) lo hi \<longleftrightarrow> lo < k \<and> k < hi \<and> P lo k \<and> seg Q qs k hi"

fun inb :: "('e \<Rightarrow> u64) \<Rightarrow> 'e tree \<Rightarrow> piece" where
  "inb f (Leaf i es) = (\<lambda>lo hi. sorted_by f es \<and> (\<forall>e\<in>set es. lo \<le> unat (f e) \<and> unat (f e) < hi))"
| "inb f (Node i t ts) = seg (inb f t) (map (\<lambda>s. (unat (fst s), inb f (snd s))) ts)"

lemma seg_append: "seg P (as @ (k, Q) # bs) lo hi \<longleftrightarrow> seg P as lo k \<and> seg Q bs k hi \<and> lo < k \<and> k < hi"
proof (induction as arbitrary: P lo)
  case Nil
  then show ?case by auto
next
  case (Cons a as)
  obtain j R where a: "a = (j, R)" by (cases a)
  show ?case unfolding a append_Cons seg.simps Cons.IH by (rule iffI) (elim conjE; intro conjI; simp)+
qed

lemma seg_cong: "(\<And>lo hi. P lo hi \<longleftrightarrow> P' lo hi) \<Longrightarrow> seg P qs lo hi \<longleftrightarrow> seg P' qs lo hi"
  by (cases qs) auto

text \<open>The end of a child's piece.\<close>

fun upto :: "(u64 \<times> 'a) list \<Rightarrow> nat \<Rightarrow> nat" where
  "upto [] hi = hi"
| "upto (s # ss) hi = unat (fst s)"

lemma tid_in_ids [simp]: "tid t \<in> set (ids t)"
  by (cases t) simp_all

lemma leaf_ids_sub: "set (leaf_ids t) \<subseteq> set (ids t)"
  by (induction t) fastforce+

text \<open>A tree inside its bounds is sorted from left to right.\<close>

lemma seg_flat:
  assumes "\<And>t lo hi. t \<in> insert t0 (snd ` set ts) \<Longrightarrow> inb f t lo hi \<Longrightarrow>
      sorted_by f (flat t) \<and> (\<forall>e\<in>set (flat t). lo \<le> unat (f e) \<and> unat (f e) < hi)"
    and "seg (inb f t0) (map (\<lambda>s. (unat (fst s), inb f (snd s))) ts) lo hi"
  shows "sorted_by f (flat t0 @ concat (map (\<lambda>s. flat (snd s)) ts)) \<and>
    (\<forall>e\<in>set (flat t0 @ concat (map (\<lambda>s. flat (snd s)) ts)). lo \<le> unat (f e) \<and> unat (f e) < hi)"
  using assms
proof (induction ts arbitrary: t0 lo)
  case Nil
  then show ?case by simp
next
  case (Cons s ts)
  let ?k = "unat (fst s)" and ?r = "flat (snd s) @ concat (map (\<lambda>s. flat (snd s)) ts)"
  have b: "lo < ?k" "?k < hi" "inb f t0 lo ?k"
    "seg (inb f (snd s)) (map (\<lambda>s. (unat (fst s), inb f (snd s))) ts) ?k hi"
    using Cons.prems(2) by simp_all
  have l: "sorted_by f (flat t0)" "\<forall>e\<in>set (flat t0). lo \<le> unat (f e) \<and> unat (f e) < ?k"
    using Cons.prems(1) [of t0 lo ?k] b(3) by simp_all
  have "sorted_by f (flat (snd s) @ concat (map (\<lambda>s. flat (snd s)) ts)) \<and>
    (\<forall>e\<in>set (flat (snd s) @ concat (map (\<lambda>s. flat (snd s)) ts)). ?k \<le> unat (f e) \<and> unat (f e) < hi)"
    using Cons.prems(1) b(4) by (intro Cons.IH) auto
  then have r: "sorted_by f ?r" "\<forall>e\<in>set ?r. ?k \<le> unat (f e) \<and> unat (f e) < hi" by simp_all
  have "f x < f y" if "x \<in> set (flat t0)" "y \<in> set ?r" for x y
    using l(2) r(2) that by (force simp: word_less_nat_alt)
  moreover have "lo \<le> unat (f e) \<and> unat (f e) < hi" if "e \<in> set (flat t0) \<union> set ?r" for e
    using that l(2) r(2) b(1,2) by force
  moreover have "flat t0 @ concat (map (\<lambda>s. flat (snd s)) (s # ts)) = flat t0 @ ?r" by simp
  ultimately show ?case using l(1) r(1) by (simp only: sorted_by_append set_append) blast
qed

lemma inb_flat:
  "inb f t lo hi \<Longrightarrow> sorted_by f (flat t) \<and> (\<forall>e\<in>set (flat t). lo \<le> unat (f e) \<and> unat (f e) < hi)"
proof (induction t arbitrary: lo hi)
  case (Leaf i es)
  then show ?case by simp
next
  case (Node i t ts)
  have "sorted_by f (flat u) \<and> (\<forall>e\<in>set (flat u). lo \<le> unat (f e) \<and> unat (f e) < hi)"
    if "u \<in> insert t (snd ` set ts)" "inb f u lo hi" for u lo hi
    using that Node.IH by (auto simp: snds.simps) 
  from seg_flat [OF this, of t ts lo hi] Node.prems show ?case by simp
qed

section \<open>Contexts\<close>

datatype 'e frame = FLeft u32 "(u64 \<times> 'e tree) list"
  | FMid u32 "'e tree" "(u64 \<times> 'e tree) list" u64 "(u64 \<times> 'e tree) list"

fun fid :: "'e frame \<Rightarrow> u32" where
  "fid (FLeft i ts) = i"
| "fid (FMid i t as k bs) = i"

fun plug1 :: "'e frame \<Rightarrow> 'e tree \<Rightarrow> 'e tree" where
  "plug1 (FLeft i ts) u = Node i u ts"
| "plug1 (FMid i t as k bs) u = Node i t (as @ (k, u) # bs)"

text \<open>The child was split: a separator and a second child go in to its right.\<close>

fun plug2 :: "'e frame \<Rightarrow> 'e tree \<Rightarrow> u64 \<Rightarrow> 'e tree \<Rightarrow> 'e tree" where
  "plug2 (FLeft i ts) u k' v = Node i u ((k', v) # ts)"
| "plug2 (FMid i t as k bs) u k' v = Node i t (as @ (k, u) # (k', v) # bs)"

fun plug :: "'e frame list \<Rightarrow> 'e tree \<Rightarrow> 'e tree" where
  "plug [] t = t"
| "plug (f # fs) t = plug fs (plug1 f t)"

fun frame_lo :: "'e frame \<Rightarrow> nat \<Rightarrow> nat" where
  "frame_lo (FLeft i ts) lo = lo"
| "frame_lo (FMid i t as k bs) lo = unat k"

fun frame_hi :: "'e frame \<Rightarrow> nat \<Rightarrow> nat" where
  "frame_hi (FLeft i ts) hi = upto ts hi"
| "frame_hi (FMid i t as k bs) hi = upto bs hi"

fun hole_lo :: "'e frame list \<Rightarrow> nat \<Rightarrow> nat" where
  "hole_lo [] lo = lo"
| "hole_lo (f # fs) lo = frame_lo f (hole_lo fs lo)"

fun hole_hi :: "'e frame list \<Rightarrow> nat \<Rightarrow> nat" where
  "hole_hi [] hi = hi"
| "hole_hi (f # fs) hi = frame_hi f (hole_hi fs hi)"

text \<open>What lies left and right of the hole.\<close>

fun frame_pre :: "('e tree \<Rightarrow> 'a list) \<Rightarrow> 'e frame \<Rightarrow> 'a list" where
  "frame_pre g (FLeft i ts) = []"
| "frame_pre g (FMid i t as k bs) = g t @ concat (map (\<lambda>s. g (snd s)) as)"

fun frame_post :: "('e tree \<Rightarrow> 'a list) \<Rightarrow> 'e frame \<Rightarrow> 'a list" where
  "frame_post g (FLeft i ts) = concat (map (\<lambda>s. g (snd s)) ts)"
| "frame_post g (FMid i t as k bs) = concat (map (\<lambda>s. g (snd s)) bs)"

fun pre :: "('e tree \<Rightarrow> 'a list) \<Rightarrow> 'e frame list \<Rightarrow> 'a list" where
  "pre g [] = []"
| "pre g (f # fs) = pre g fs @ frame_pre g f"

fun post :: "('e tree \<Rightarrow> 'a list) \<Rightarrow> 'e frame list \<Rightarrow> 'a list" where
  "post g [] = []"
| "post g (f # fs) = frame_post g f @ post g fs"

lemma tid_plug1 [simp]: "tid (plug1 f t) = fid f"
  by (cases f) simp_all

lemma tid_plug2 [simp]: "tid (plug2 f t k u) = fid f"
  by (cases f) simp_all

lemma plug_append [simp]: "plug (fs @ gs) t = plug gs (plug fs t)"
  by (induction fs arbitrary: t) simp_all

lemma flat_plug1 [simp]: "flat (plug1 f t) = frame_pre flat f @ flat t @ frame_post flat f"
  by (cases f) simp_all

lemma flat_plug2 [simp]: "flat (plug2 f t k u) = frame_pre flat f @ flat t @ flat u @ frame_post flat f"
  by (cases f) simp_all

lemma flat_plug: "flat (plug fs t) = pre flat fs @ flat t @ post flat fs"
  by (induction fs arbitrary: t) simp_all

lemma leaf_ids_plug1 [simp]: "leaf_ids (plug1 f t) = frame_pre leaf_ids f @ leaf_ids t @ frame_post leaf_ids f"
  by (cases f) simp_all

lemma leaf_ids_plug2 [simp]:
  "leaf_ids (plug2 f t k u) = frame_pre leaf_ids f @ leaf_ids t @ leaf_ids u @ frame_post leaf_ids f"
  by (cases f) simp_all

lemma leaf_ids_plug: "leaf_ids (plug fs t) = pre leaf_ids fs @ leaf_ids t @ post leaf_ids fs"
  by (induction fs arbitrary: t) simp_all

text \<open>Bounds of a context and of what is in the hole are independent.\<close>

fun frame_inb :: "('e \<Rightarrow> u64) \<Rightarrow> 'e frame \<Rightarrow> piece" where
  "frame_inb f (FLeft i ts) lo hi \<longleftrightarrow>
     seg (\<lambda>a b. a < b) (map (\<lambda>s. (unat (fst s), inb f (snd s))) ts) lo hi"
| "frame_inb f (FMid i t as k bs) lo hi \<longleftrightarrow>
     lo < unat k \<and> unat k < hi \<and> seg (inb f t) (map (\<lambda>s. (unat (fst s), inb f (snd s))) as) lo (unat k) \<and>
     seg (\<lambda>a b. a < b) (map (\<lambda>s. (unat (fst s), inb f (snd s))) bs) (unat k) hi"

fun ctx_inb :: "('e \<Rightarrow> u64) \<Rightarrow> 'e frame list \<Rightarrow> piece" where
  "ctx_inb f [] lo hi \<longleftrightarrow> lo < hi"
| "ctx_inb f (g # gs) lo hi \<longleftrightarrow> ctx_inb f gs lo hi \<and> frame_inb f g (hole_lo gs lo) (hole_hi gs hi)"

lemma seg_upto: "lo < hi \<Longrightarrow> seg P (map (\<lambda>s. (unat (fst s), Q (snd s))) ts) lo hi \<longleftrightarrow>
    seg (\<lambda>a b. a < b) (map (\<lambda>s. (unat (fst s), Q (snd s))) ts) lo hi \<and> P lo (upto ts hi)"
  by (cases ts) auto

lemma seg_upto_less: "seg (\<lambda>a b. a < b) (map (\<lambda>s. (unat (fst s), Q (snd s))) ts) lo hi \<Longrightarrow> lo < upto ts hi"
  by (cases ts) auto

lemma inb_plug1:
  assumes "lo < hi"
  shows "inb f (plug1 g t) lo hi \<longleftrightarrow> frame_inb f g lo hi \<and> inb f t (frame_lo g lo) (frame_hi g hi)"
proof (cases g)
  case (FLeft i ts)
  with assms show ?thesis by (simp add: seg_upto [of lo hi "inb f t"])
next
  case (FMid i u as k bs)
  then show ?thesis by (auto simp: seg_append seg_upto [of _ hi "inb f t"])
qed

lemma frame_inb_hole: "frame_inb f g lo hi \<Longrightarrow> frame_lo g lo < frame_hi g hi"
  by (cases g) (auto dest: seg_upto_less)

lemma ctx_inb_hole: "ctx_inb f gs lo hi \<Longrightarrow> hole_lo gs lo < hole_hi gs hi"
  by (cases gs) (auto dest: frame_inb_hole)

lemma inb_plug:
  "ctx_inb f gs lo hi \<Longrightarrow> inb f (plug gs t) lo hi \<longleftrightarrow> inb f t (hole_lo gs lo) (hole_hi gs hi)"
proof (induction gs arbitrary: t)
  case (Cons g gs)
  then have c: "ctx_inb f gs lo hi" "frame_inb f g (hole_lo gs lo) (hole_hi gs hi)" by simp_all
  then show ?case by (simp add: Cons.IH inb_plug1 [OF ctx_inb_hole])
qed simp

lemma ctx_of_inb: "lo < hi \<Longrightarrow> inb f (plug gs t) lo hi \<Longrightarrow> ctx_inb f gs lo hi"
proof (induction gs arbitrary: t)
  case Nil
  then show ?case by simp
next
  case (Cons g gs)
  then have c: "ctx_inb f gs lo hi" by simp
  with Cons.prems inb_plug [OF c] ctx_inb_hole [OF c] show ?case by (simp add: inb_plug1)
qed

text \<open>A child split at a separator inside its piece leaves the node inside its bounds.\<close>

lemma inb_plug2:
  assumes fr: "frame_inb f g lo hi" and b: "lo < hi"
    and k: "frame_lo g lo < unat k" "unat k < frame_hi g hi"
    and t: "inb f t (frame_lo g lo) (unat k)" "inb f u (unat k) (frame_hi g hi)"
  shows "inb f (plug2 g t k u) lo hi"
proof (cases g)
  case (FLeft i ts)
  have h: "unat k < hi" if "seg (\<lambda>a b. a < b) (map (\<lambda>s. (unat (fst s), inb f (snd s))) ts) lo hi"
    using that k FLeft by (cases ts) auto
  show ?thesis
  proof (cases ts)
    case Nil
    then show ?thesis using assms FLeft by simp
  next
    case (Cons s ts')
    then show ?thesis using assms FLeft h by simp
  qed
next
  case (FMid i v as k0 bs)
  show ?thesis
  proof (cases bs)
    case Nil
    then show ?thesis using assms FMid by (simp add: seg_append)
  next
    case (Cons s ts')
    then show ?thesis using assms FMid by (simp add: seg_append)
  qed
qed

text \<open>Splitting a node at one of its separators.\<close>

lemma inb_split_node:
  "inb f (Node i t (as @ (k, u) # bs)) lo hi \<Longrightarrow>
   inb f (Node i t as) lo (unat k) \<and> inb f (Node j u bs) (unat k) hi \<and> lo < unat k \<and> unat k < hi"
  by (simp add: seg_append)

section \<open>Page ids\<close>

text \<open>The ids of a tree as a multiset; in a well-formed tree each occurs once.\<close>

definition idm :: "'e tree \<Rightarrow> u32 multiset" where "idm t = mset (ids t)"

definition idms :: "(u64 \<times> 'e tree) list \<Rightarrow> u32 multiset" where
  "idms ts = mset (concat (map (\<lambda>s. ids (snd s)) ts))"

fun frame_idm :: "'e frame \<Rightarrow> u32 multiset" where
  "frame_idm (FLeft i ts) = {#i#} + idms ts"
| "frame_idm (FMid i t as k bs) = {#i#} + idm t + idms as + idms bs"

fun ctx_idm :: "'e frame list \<Rightarrow> u32 multiset" where
  "ctx_idm [] = {#}"
| "ctx_idm (g # gs) = frame_idm g + ctx_idm gs"

definition uniq :: "'a multiset \<Rightarrow> bool" where "uniq M \<longleftrightarrow> (\<forall>x. count M x \<le> 1)"

lemma uniq_plus [simp]: "uniq (A + B) \<longleftrightarrow> uniq A \<and> uniq B \<and> set_mset A \<inter> set_mset B = {}"
proof
  assume u: "uniq (A + B)"
  have c: "count A x + count B x \<le> 1" for x using u by (simp add: uniq_def)
  have "uniq A" unfolding uniq_def
  proof
    fix x show "count A x \<le> 1" using c [of x] by linarith
  qed
  moreover have "uniq B" unfolding uniq_def
  proof
    fix x show "count B x \<le> 1" using c [of x] by linarith
  qed
  moreover have "x \<notin># B" if "x \<in># A" for x
  proof -
    have "0 < count A x" using that by simp
    then have "count B x = 0" using c [of x] by linarith
    then show ?thesis by (simp add: count_eq_zero_iff)
  qed
  ultimately show "uniq A \<and> uniq B \<and> set_mset A \<inter> set_mset B = {}" by auto
next
  assume a: "uniq A \<and> uniq B \<and> set_mset A \<inter> set_mset B = {}"
  show "uniq (A + B)" unfolding uniq_def
  proof
    fix x
    have "count A x \<le> 1" "count B x \<le> 1" "count A x = 0 \<or> count B x = 0"
      using a by (auto simp: uniq_def count_eq_zero_iff)
    then show "count (A + B) x \<le> 1" by auto
  qed
qed

lemma uniq_single [simp]: "uniq {#x#}" "uniq {#}"
  by (simp_all add: uniq_def)

lemma uniq_add [simp]: "uniq (add_mset x A) \<longleftrightarrow> x \<notin># A \<and> uniq A"
  using uniq_plus [of "{#x#}" A] by auto

lemma uniq_distinct: "uniq (mset xs) \<longleftrightarrow> distinct xs"
  by (induction xs) simp_all

lemma idm_simps [simp]:
  "idm (Leaf i es) = {#i#}" "idm (Node i t ts) = {#i#} + idm t + idms ts"
  "idms [] = {#}" "idms (s # ts) = idm (snd s) + idms ts" "idms (as @ bs) = idms as + idms bs"
  by (simp_all add: idm_def idms_def)

lemma set_idm: "set_mset (idm t) = set (ids t)"
  by (simp add: idm_def)

lemma idm_plug1: "idm (plug1 g t) = frame_idm g + idm t"
  by (cases g) (simp_all add: ac_simps)

lemma idm_plug2: "idm (plug2 g t k u) = frame_idm g + idm t + idm u"
  by (cases g) (simp_all add: ac_simps)

lemma idm_plug: "idm (plug gs t) = ctx_idm gs + idm t"
  by (induction gs arbitrary: t) (simp_all add: idm_plug1 ac_simps)

lemma in_idms: "s \<in> set ts \<Longrightarrow> x \<in># idm (snd s) \<Longrightarrow> x \<in># idms ts"
  by (induction ts) auto

lemma size_ctx_idm: "length gs \<le> size (ctx_idm gs)"
proof (induction gs)
  case (Cons g gs)
  have "0 < size (frame_idm g)" by (cases g) simp_all
  with Cons show ?case by simp
qed simp

lemma tid_plug_cong: "tid t = tid u \<Longrightarrow> tid (plug gs t) = tid (plug gs u)"
  by (cases gs rule: rev_cases) simp_all

lemma uniq_size: "uniq M \<Longrightarrow> size M = card (set_mset M)"
proof -
  assume u: "uniq M"
  obtain xs where xs: "M = mset xs" by (metis ex_mset)
  with u have "distinct xs" by (simp add: uniq_distinct)
  with xs show ?thesis by (simp add: distinct_card)
qed

text \<open>Distinct ids between 0 and a bound are fewer than the bound.\<close>

lemma uniq_below: "uniq M \<Longrightarrow> \<forall>i\<in>#M. 0 < i \<and> i < (n :: u32) \<Longrightarrow> size M < unat n + 1"
proof -
  assume u: "uniq M" and b: "\<forall>i\<in>#M. 0 < i \<and> i < n"
  have "card (set_mset M) = card (unat ` set_mset M)"
    by (rule card_image [symmetric]) (auto simp: inj_on_def intro: word_unat_eqI)
  also have "\<dots> \<le> card {..<unat n}" using b by (intro card_mono) (auto simp: word_less_nat_alt)
  finally show ?thesis using uniq_size [OF u] by simp
qed

text \<open>The leaves of a context are not the nodes on the way.\<close>

lemma frame_leaf_ids:
  assumes "x \<in> set (frame_pre leaf_ids g) \<union> set (frame_post leaf_ids g)"
  shows "x \<in># frame_idm g - {#fid g#}"
proof -
  have sub: "x \<in># idms ts" if "x \<in> set (concat (map (\<lambda>s. leaf_ids (snd s)) ts))" for ts
    using that leaf_ids_sub by (fastforce simp: set_idm intro: in_idms)
  have "x \<in># idm t" if "x \<in> set (leaf_ids t)" for t
    using that leaf_ids_sub by (auto simp: set_idm)
  with sub assms show ?thesis by (cases g) auto
qed

lemma ctx_leaf_ids:
  assumes "uniq (ctx_idm gs)" "x \<in> set (pre leaf_ids gs) \<union> set (post leaf_ids gs)"
  shows "x \<in># ctx_idm gs \<and> x \<notin> fid ` set gs"
  using assms
proof (induction gs)
  case (Cons g gs)
  have fids: "fid h \<in># ctx_idm gs" if "h \<in> set gs" for h gs
    using that
  proof (induction gs)
    case (Cons a gs)
    moreover have "fid a \<in># frame_idm a" by (cases a) simp_all
    ultimately show ?case by auto
  qed simp
  have gin: "fid g \<in># frame_idm g" by (cases g) simp_all
  have u: "uniq (frame_idm g)" "uniq (ctx_idm gs)" "set_mset (frame_idm g) \<inter> set_mset (ctx_idm gs) = {}"
    using Cons.prems(1) by simp_all
  from Cons.prems(2) consider "x \<in> set (pre leaf_ids gs) \<union> set (post leaf_ids gs)"
    | "x \<in> set (frame_pre leaf_ids g) \<union> set (frame_post leaf_ids g)" by auto
  then show ?case
  proof cases
    case 1
    with Cons.IH [OF u(2)] have "x \<in># ctx_idm gs" "x \<notin> fid ` set gs" by blast+
    with u(3) gin show ?thesis by auto
  next
    case 2
    from frame_leaf_ids [OF this] have "x \<in># frame_idm g - {#fid g#}" .
    moreover have "fid g \<notin># frame_idm g - {#fid g#}" using u(1) by (cases g) simp_all
    ultimately show ?thesis using u(3) fids [of _ gs] in_diffD [of x "frame_idm g"] by fastforce
  qed
qed simp

text \<open>The leaves of a tree are among its ids, each as often.\<close>

lemma leaf_ids_subset_mset: "mset (leaf_ids t) \<subseteq># idm t"
proof (induction t)
  case (Node i t ts)
  have "mset (concat (map (\<lambda>s. leaf_ids (snd s)) ts)) \<subseteq># idms ts"
    using Node.IH(2)
  proof (induction ts)
    case (Cons s ts)
    have "mset (leaf_ids (snd s)) \<subseteq># idm (snd s)" using Cons.prems [of s "snd s"] by (simp add: snds.simps)
    moreover have "mset (concat (map (\<lambda>s. leaf_ids (snd s)) ts)) \<subseteq># idms ts"
      by (rule Cons.IH) (auto intro: Cons.prems)
    ultimately show ?case by (simp add: subset_mset.add_mono)
  qed simp
  with Node.IH(1) have "mset (leaf_ids (Node i t ts)) \<subseteq># idm t + idms ts" by (simp add: subset_mset.add_mono)
  also have "\<dots> \<subseteq># idm (Node i t ts)" by simp
  finally show ?case .
qed simp

lemma distinct_leaf_ids: "uniq (idm t) \<Longrightarrow> distinct (leaf_ids t)"
proof -
  assume u: "uniq (idm t)"
  have "count (mset (leaf_ids t)) x \<le> 1" for x
    using mset_subset_eq_count [OF leaf_ids_subset_mset [of t], of x] u unfolding uniq_def by (meson le_trans)
  then show ?thesis unfolding uniq_distinct [symmetric] uniq_def by blast
qed

end
