(* ===== verification/TreePages.thy ===== *)
theory TreePages
  imports TreeModel TreeHeaders
begin

text \<open>
  A tree value held by pages: \<open>rep\<close> says that the pages at the tree's ids hold its leaves and
  nodes. Which pages are leaves and nodes is a parameter, so that the directory and the
  indexes share the lemmas: what a context needs of the pages, that writing elsewhere does not
  matter, that the sibling links of the leaves form a chain, and where a separator goes.
\<close>

section \<open>Pages holding a tree\<close>

type_synonym pages = "u32 \<rightharpoonup> page"

definition sep :: "u64 \<times> 'e tree \<Rightarrow> u64 \<times> u32" where
  "sep s = (fst s, tid (snd s))"

definition leaf_page :: "'e layout \<Rightarrow> page_type \<Rightarrow> page \<Rightarrow> 'e list \<Rightarrow> bool" where
  "leaf_page L t p es \<longleftrightarrow> page_inv L p \<and> page_type_id (uber_header p) = page_type_byte t \<and> entries L p = es"

definition node_page :: "page_type \<Rightarrow> page \<Rightarrow> u32 \<Rightarrow> (u64 \<times> u32) list \<Rightarrow> bool" where
  "node_page t p lm ss \<longleftrightarrow> inner_inv p \<and> page_type_id (uber_header p) = page_type_byte t \<and>
     inner_leftmost_child p = lm \<and> seps p = ss"

text \<open>A tree's format: the leaf predicate and the node predicate.\<close>

type_synonym 'e format = "(page \<Rightarrow> 'e list \<Rightarrow> bool) \<times> (page \<Rightarrow> u32 \<Rightarrow> (u64 \<times> u32) list \<Rightarrow> bool)"

fun rep :: "'e format \<Rightarrow> pages \<Rightarrow> 'e tree \<Rightarrow> bool" where
  "rep F V (Leaf i es) \<longleftrightarrow> (\<exists>p. V i = Some p \<and> fst F p es)"
| "rep F V (Node i t ts) \<longleftrightarrow> (\<exists>p. V i = Some p \<and> snd F p (tid t) (map sep ts)) \<and> rep F V t \<and> (\<forall>s\<in>set ts. rep F V (snd s))"

fun frame_lm :: "'e frame \<Rightarrow> u32 \<Rightarrow> u32" where
  "frame_lm (FLeft i ts) h = h"
| "frame_lm (FMid i t as k bs) h = tid t"

fun frame_ss :: "'e frame \<Rightarrow> u32 \<Rightarrow> (u64 \<times> u32) list" where
  "frame_ss (FLeft i ts) h = map sep ts"
| "frame_ss (FMid i t as k bs) h = map sep as @ (k, h) # map sep bs"

fun frame_ss2 :: "'e frame \<Rightarrow> u32 \<Rightarrow> u64 \<Rightarrow> u32 \<Rightarrow> (u64 \<times> u32) list" where
  "frame_ss2 (FLeft i ts) h k' c = (k', c) # map sep ts"
| "frame_ss2 (FMid i t as k bs) h k' c = map sep as @ (k, h) # (k', c) # map sep bs"

fun frame_rest :: "'e format \<Rightarrow> pages \<Rightarrow> 'e frame \<Rightarrow> bool" where
  "frame_rest F V (FLeft i ts) \<longleftrightarrow> (\<forall>s\<in>set ts. rep F V (snd s))"
| "frame_rest F V (FMid i t as k bs) \<longleftrightarrow> rep F V t \<and> (\<forall>s\<in>set as \<union> set bs. rep F V (snd s))"

definition rep_frame :: "'e format \<Rightarrow> pages \<Rightarrow> 'e frame \<Rightarrow> u32 \<Rightarrow> bool" where
  "rep_frame F V g h \<longleftrightarrow> (\<exists>p. V (fid g) = Some p \<and> snd F p (frame_lm g h) (frame_ss g h)) \<and> frame_rest F V g"

fun rep_ctx :: "'e format \<Rightarrow> pages \<Rightarrow> 'e frame list \<Rightarrow> u32 \<Rightarrow> bool" where
  "rep_ctx F V [] h \<longleftrightarrow> True"
| "rep_ctx F V (g # gs) h \<longleftrightarrow> rep_frame F V g h \<and> rep_ctx F V gs (fid g)"

lemma rep_plug1: "rep F V (plug1 g t) \<longleftrightarrow> rep_frame F V g (tid t) \<and> rep F V t"
  by (cases g) (auto simp: rep_frame_def sep_def)

lemma rep_plug2: "rep F V (plug2 g t k u) \<longleftrightarrow>
    (\<exists>p. V (fid g) = Some p \<and> snd F p (frame_lm g (tid t)) (frame_ss2 g (tid t) k (tid u))) \<and>
    frame_rest F V g \<and> rep F V t \<and> rep F V u"
  by (cases g) (auto simp: sep_def)

lemma rep_plug: "rep F V (plug gs t) \<longleftrightarrow> rep_ctx F V gs (tid t) \<and> rep F V t"
  by (induction gs arbitrary: t) (auto simp: rep_plug1)

lemma rep_tid: "rep F V t \<Longrightarrow> V (tid t) \<noteq> None"
  by (cases t) auto

section \<open>Writing elsewhere\<close>

lemma rep_cong: "(\<And>i. i \<in># idm t \<Longrightarrow> V' i = V i) \<Longrightarrow> rep F V t \<Longrightarrow> rep F V' t"
proof (induction t)
  case (Leaf i es)
  then show ?case by simp
next
  case (Node i t ts)
  have "rep F V' (snd s)" if "s \<in> set ts" for s
    using Node.prems that in_idms [of s ts] by (intro Node.IH(2) [of s "snd s"]) (auto simp: snds.simps)
  moreover have "rep F V' t" using Node.prems by (intro Node.IH(1)) auto
  ultimately show ?case using Node.prems by auto
qed

lemma rep_children_cong:
  "(\<And>i. i \<in># idms ts \<Longrightarrow> V' i = V i) \<Longrightarrow> \<forall>s\<in>set ts. rep F V (snd s) \<Longrightarrow> \<forall>s\<in>set ts. rep F V' (snd s)"
  by (meson rep_cong in_idms)

lemma frame_rest_cong:
  assumes "\<And>i. i \<in># frame_idm g - {#fid g#} \<Longrightarrow> V' i = V i" "frame_rest F V g"
  shows "frame_rest F V' g"
proof (cases g)
  case (FLeft i ts)
  with assms rep_children_cong [of ts V' V F] show ?thesis by simp
next
  case (FMid i t as k bs)
  with assms have "rep F V' t" using rep_cong [of t V' V F] by simp
  moreover have "\<forall>s\<in>set as. rep F V' (snd s)" "\<forall>s\<in>set bs. rep F V' (snd s)"
    using assms FMid by (intro rep_children_cong [of _ V' V F]; simp)+
  ultimately show ?thesis using FMid by auto
qed

lemma fid_in_frame [simp]: "fid g \<in># frame_idm g"
  by (cases g) simp_all

lemma uniq_frame: "uniq (frame_idm g) \<Longrightarrow> fid g \<notin># frame_idm g - {#fid g#}"
  by (cases g) simp_all

lemma rep_frame_cong: "(\<And>i. i \<in># frame_idm g \<Longrightarrow> V' i = V i) \<Longrightarrow> rep_frame F V g h \<Longrightarrow> rep_frame F V' g h"
proof -
  assume *: "\<And>i. i \<in># frame_idm g \<Longrightarrow> V' i = V i" and r: "rep_frame F V g h"
  have "frame_rest F V' g"
    using * r in_diffD [of _ "frame_idm g" "{#fid g#}"]
    by (intro frame_rest_cong [of g V' V F]) (auto simp: rep_frame_def)
  with * r show ?thesis by (simp add: rep_frame_def)
qed

lemma rep_ctx_cong: "(\<And>i. i \<in># ctx_idm gs \<Longrightarrow> V' i = V i) \<Longrightarrow> rep_ctx F V gs h \<Longrightarrow> rep_ctx F V' gs h"
proof (induction gs arbitrary: h)
  case (Cons g gs)
  then show ?case using rep_frame_cong [of g V' V F h] by auto
qed simp

lemma rep_upd: "rep F V t \<Longrightarrow> i \<notin># idm t \<Longrightarrow> rep F (V(i \<mapsto> p)) t"
  by (rule rep_cong [of t "V(i \<mapsto> p)" V]) auto

lemma rep_ctx_upd: "rep_ctx F V gs h \<Longrightarrow> i \<notin># ctx_idm gs \<Longrightarrow> rep_ctx F (V(i \<mapsto> p)) gs h"
  by (rule rep_ctx_cong [of gs "V(i \<mapsto> p)" V]) auto

lemma frame_rest_upd: "frame_rest F V g \<Longrightarrow> i \<notin># frame_idm g - {#fid g#} \<Longrightarrow> frame_rest F (V(i \<mapsto> p)) g"
  by (rule frame_rest_cong [of g "V(i \<mapsto> p)" V]) auto

text \<open>A page may also be replaced by one that holds the same leaf or node.\<close>

definition improves :: "'e format \<Rightarrow> pages \<Rightarrow> pages \<Rightarrow> u32 \<Rightarrow> bool" where
  "improves F V V' j \<longleftrightarrow> (\<forall>p. V j = Some p \<longrightarrow> (\<exists>p'. V' j = Some p' \<and>
     (\<forall>es. fst F p es \<longrightarrow> fst F p' es) \<and> (\<forall>lm ss. snd F p lm ss \<longrightarrow> snd F p' lm ss)))"

lemma improves_same: "V' j = V j \<Longrightarrow> improves F V V' j"
  by (simp add: improves_def)

lemma rep_improves: "(\<And>i. i \<in># idm t \<Longrightarrow> improves F V V' i) \<Longrightarrow> rep F V t \<Longrightarrow> rep F V' t"
proof (induction t)
  case (Leaf i es)
  then show ?case by (auto simp: improves_def)
next
  case (Node i t ts)
  have "rep F V' (snd s)" if "s \<in> set ts" for s
    using Node.prems that in_idms [of s ts] by (intro Node.IH(2) [of s "snd s"]) (auto simp: snds.simps)
  moreover have "rep F V' t" using Node.prems by (intro Node.IH(1)) auto
  moreover have "improves F V V' i" using Node.prems(1) by simp
  ultimately show ?case using Node.prems(2) unfolding improves_def rep.simps by blast
qed

lemma rep_ctx_improves: "(\<And>i. i \<in># ctx_idm gs \<Longrightarrow> improves F V V' i) \<Longrightarrow> rep_ctx F V gs h \<Longrightarrow> rep_ctx F V' gs h"
proof (induction gs arbitrary: h)
  case (Cons g gs)
  have im: "improves F V V' i" if "i \<in># frame_idm g" for i using Cons.prems(1) that by simp
  have kids: "\<forall>s\<in>set ts. rep F V' (snd s)" if "\<forall>s\<in>set ts. rep F V (snd s)" "set_mset (idms ts) \<subseteq> set_mset (frame_idm g)" for ts
    using that im in_idms [of _ ts] by (blast intro: rep_improves)
  have "frame_rest F V g" using Cons.prems(2) by (simp add: rep_frame_def)
  then have "frame_rest F V' g"
  proof (cases g)
    case (FLeft i ts)
    with kids [of ts] \<open>frame_rest F V g\<close> show ?thesis by auto
  next
    case (FMid i t as k bs)
    moreover have "rep F V' t" using im FMid \<open>frame_rest F V g\<close> by (intro rep_improves [of t F V V']) auto
    ultimately show ?thesis using kids [of as] kids [of bs] \<open>frame_rest F V g\<close> by auto
  qed
  moreover have "improves F V V' (fid g)" by (intro im fid_in_frame)
  then have "\<exists>p. V' (fid g) = Some p \<and> snd F p (frame_lm g h) (frame_ss g h)"
    using Cons.prems(2) by (auto simp: rep_frame_def improves_def)
  moreover have "rep_ctx F V' gs (fid g)" using Cons.prems by (intro Cons.IH) auto
  ultimately show ?case by (simp add: rep_frame_def)
qed simp

lemma leaf_ids_rep: "rep F V t \<Longrightarrow> x \<in> set (leaf_ids t) \<Longrightarrow> \<exists>p es. V x = Some p \<and> fst F p es"
proof (induction t)
  case (Node i t ts)
  then consider "x \<in> set (leaf_ids t)" | s where "s \<in> set ts" "x \<in> set (leaf_ids (snd s))" by auto
  then show ?case
  proof cases
    case 1
    with Node show ?thesis by simp
  next
    case (2 s)
    with Node.prems(1) Node.IH(2) [of s "snd s"] show ?thesis by (simp add: snds.simps)
  qed
qed auto

section \<open>Where a separator goes\<close>

lemma seg_above: "seg P (map (\<lambda>s. (unat (fst s), Q (snd s))) ts) lo hi \<Longrightarrow> s \<in> set ts \<Longrightarrow>
    lo < unat (fst s) \<and> unat (fst s) < hi \<and> upto ts hi \<le> unat (fst s)"
proof (induction ts arbitrary: P lo)
  case (Cons a ts)
  from Cons.prems(1) have "lo < unat (fst a)" "unat (fst a) < hi"
    "seg (Q (snd a)) (map (\<lambda>s. (unat (fst s), Q (snd s))) ts) (unat (fst a)) hi" by simp_all
  with Cons.IH [OF this(3)] Cons.prems(2) show ?case by (cases "s = a") force+
qed simp

lemma frame_seps_around:
  assumes "frame_inb f g lo hi" "frame_lo g lo < unat k" "unat k < frame_hi g hi"
  shows "insert_sorted fst (k, c) (frame_ss g h) = frame_ss2 g h k c" "k \<notin> fst ` set (frame_ss g h)"
proof -
  have "insert_sorted fst (k, c) (frame_ss g h) = frame_ss2 g h k c \<and> k \<notin> fst ` set (frame_ss g h)"
  proof (cases g)
    case (FLeft i ts)
    have above: "unat k < unat (fst s)" if "s \<in> set ts" for s
      using seg_above [OF _ that, of "\<lambda>a b. a < b" _ lo hi] assms that FLeft by fastforce
    have "insert_sorted fst (k, c) ([] @ map sep ts) = [] @ (k, c) # map sep ts"
      using above by (intro insert_sorted_split) (auto simp: sep_def word_less_nat_alt)
    moreover have "k \<notin> fst ` set (map sep ts)" using above by (fastforce simp: sep_def)
    ultimately show ?thesis by (simp add: FLeft)
  next
    case (FMid i t as k0 bs)
    have above: "unat k < unat (fst s)" if "s \<in> set bs" for s
      using seg_above [OF _ that, of "\<lambda>a b. a < b" _ "unat k0" hi] assms that FMid by fastforce
    have below: "unat (fst s) < unat k0" if "s \<in> set as" for s
      using seg_above [OF _ that, of "inb f t" _ lo "unat k0"] assms that FMid by fastforce
    have k0: "unat k0 < unat k" using assms FMid by simp
    have "insert_sorted fst (k, c) ((map sep as @ [(k0, h)]) @ map sep bs) = (map sep as @ [(k0, h)]) @ (k, c) # map sep bs"
      using above below k0
      by (intro insert_sorted_split) (fastforce simp: sep_def word_less_nat_alt)+
    moreover have "k \<notin> fst ` set (map sep as @ (k0, h) # map sep bs)"
      using above below k0 by (fastforce simp: sep_def)
    ultimately show ?thesis by (simp add: FMid)
  qed
  then show "insert_sorted fst (k, c) (frame_ss g h) = frame_ss2 g h k c" "k \<notin> fst ` set (frame_ss g h)" by simp_all
qed

section \<open>The links of a leaf\<close>

text \<open>The two links of a leaf leave its entries alone.\<close>

lemma leaf_links:
  assumes L: "entries_off L = 40" "count_of L = leaf_num_entries" "max_entries L \<le> 253" and p: "leaf_page L t p es"
  shows "leaf_page L t (leaf_set_next_page x p) es" "leaf_page L t (leaf_set_prev_page x p) es"
proof -
  have i: "is_page p" "leaf_num_entries p \<le> 253" using p L(2,3) by (auto simp: leaf_page_def page_inv_def)
  have raw: "raw_entry L (update_leaf_header f p) i = raw_entry L p i" if "i < leaf_num_entries p" for f i
    using that i(2) bytes_at_update_leaf_header(1) [OF i(1), of "40 + i * 16" 16] by (simp add: raw_entry_def ENTRY_SIZE_def L(1))
  have e: "entries L (leaf_set_next_page x p) = entries L p" "entries L (leaf_set_prev_page x p) = entries L p"
    using raw i(1) by (simp_all add: entries_def L(2)) (simp_all add: leaf_set_next_page_def leaf_set_prev_page_def)
  have u: "uber_header (leaf_set_next_page x p) = uber_header p" "uber_header (leaf_set_prev_page x p) = uber_header p"
    using i(1) by (simp_all add: leaf_set_next_page_def leaf_set_prev_page_def)
  show "leaf_page L t (leaf_set_next_page x p) es" "leaf_page L t (leaf_set_prev_page x p) es"
    using p i(1) e u L(2) by (auto simp: leaf_page_def page_inv_def)
qed

section \<open>The chain of leaves\<close>

fun chain :: "pages \<Rightarrow> u32 \<Rightarrow> u32 list \<Rightarrow> u32 \<Rightarrow> bool" where
  "chain V a [] b \<longleftrightarrow> True"
| "chain V a (x # xs) b \<longleftrightarrow> (\<exists>p. V x = Some p \<and> leaf_prev_page p = a \<and>
     leaf_next_page p = (case xs of [] \<Rightarrow> b | y # ys \<Rightarrow> y)) \<and> chain V x xs b"

definition head_or :: "u32 list \<Rightarrow> u32 \<Rightarrow> u32" where
  "head_or xs b = (case xs of [] \<Rightarrow> b | x # _ \<Rightarrow> x)"

definition last_or :: "u32 list \<Rightarrow> u32 \<Rightarrow> u32" where
  "last_or xs a = (if xs = [] then a else last xs)"

lemma head_or_simps [simp]: "head_or [] b = b" "head_or (x # xs) b = x"
  by (simp_all add: head_or_def)

lemma chain_append: "chain V a (xs @ ys) b \<longleftrightarrow> chain V a xs (head_or ys b) \<and> chain V (last_or xs a) ys b"
proof (induction xs arbitrary: a)
  case (Cons x xs)
  then show ?case by (cases xs; cases ys) (auto simp: last_or_def)
qed (simp add: last_or_def)

lemma chain_Cons: "chain V a (x # xs) b \<longleftrightarrow>
    (\<exists>p. V x = Some p \<and> leaf_prev_page p = a \<and> leaf_next_page p = head_or xs b) \<and> chain V x xs b"
  by (simp add: head_or_def)

text \<open>The chain depends only on the links of its pages.\<close>

lemma chain_upd:
  assumes "V i = Some p" "leaf_prev_page p' = leaf_prev_page p" "leaf_next_page p' = leaf_next_page p"
  shows "chain V a xs b \<Longrightarrow> chain (V(i \<mapsto> p')) a xs b"
proof (induction xs arbitrary: a)
  case (Cons x xs)
  then show ?case using assms by (auto simp: chain_Cons simp del: chain.simps(2))
qed simp

lemma chain_same: "(\<And>x. x \<in> set xs \<Longrightarrow> V' x = V x) \<Longrightarrow> chain V a xs b \<Longrightarrow> chain V' a xs b"
proof (induction xs arbitrary: a)
  case (Cons x xs)
  then show ?case by (auto simp: chain_Cons simp del: chain.simps(2))
qed simp

text \<open>A new page linked in behind one of the chain.\<close>

lemma chain_insert:
  assumes c: "chain V a (L @ i # R) 0" and d: "distinct (L @ i # R)" "0 \<notin> set (L @ i # R)"
    and p: "V i = Some p" and p': "leaf_prev_page p' = leaf_prev_page p" "leaf_next_page p' = n"
    and np: "leaf_prev_page np = i" "leaf_next_page np = leaf_next_page p"
    and q: "leaf_next_page p \<noteq> 0 \<Longrightarrow> V (leaf_next_page p) = Some q \<and> W (leaf_next_page p) = Some q' \<and>
         leaf_prev_page q' = n \<and> leaf_next_page q' = leaf_next_page q"
    and W: "W i = Some p'" "W n = Some np"
      "\<And>x. x \<in> set (L @ R) \<Longrightarrow> x \<noteq> leaf_next_page p \<Longrightarrow> W x = V x"
  shows "chain W a (L @ i # n # R) 0"
proof -
  have cL: "chain V a L i" and cI: "chain V (last_or L a) (i # R) 0" using c by (simp_all add: chain_append)
  have lp: "leaf_prev_page p = last_or L a" "leaf_next_page p = head_or R 0" and cR: "chain V i R 0"
    using cI p by (auto simp: chain_Cons simp del: chain.simps(2))
  have nx: "x \<noteq> leaf_next_page p" if "x \<in> set L" for x
    using that d by (cases R) (auto simp: lp)
  have "chain W a L i" using cL W(3) nx by (intro chain_same [of L W V]) auto
  moreover have "chain W n R 0"
  proof (cases R)
    case (Cons y R')
    then have y: "leaf_next_page p = y" "y \<noteq> 0" using d lp by auto
    with q have qq: "V y = Some q" "W y = Some q'" "leaf_prev_page q' = n" "leaf_next_page q' = leaf_next_page q" by auto
    have "chain V y R' 0" "leaf_next_page q = head_or R' 0"
      using cR qq(1) Cons by (auto simp: chain_Cons simp del: chain.simps(2))
    moreover have "W x = V x" if "x \<in> set R'" for x using that W(3) [of x] y d(1) Cons by auto
    ultimately show ?thesis using qq Cons chain_same [of R' W V y 0] by (auto simp: chain_Cons simp del: chain.simps(2))
  qed simp
  moreover have "L @ i # n # R = L @ (i # n # R)" by simp
  ultimately show ?thesis using W p' np lp
    by (simp add: chain_append chain_Cons del: chain.simps(2))
qed

end
