(* ===== verification/DirPages.thy ===== *)
theory DirPages
  imports Directory TreePages
begin

text \<open>
  What the steps of the page directory do to its view: the pages as \<open>read_page\<close> sees them,
  cached or in the file. Reading leaves the view alone, writing changes one page of it, and the
  splits of leaves and inner pages are runs of these steps.
\<close>

section \<open>The view\<close>

definition file_page :: "byte list option \<Rightarrow> u32 \<Rightarrow> page option" where
  "file_page f i = (case f of None \<Rightarrow> None | Some bs \<Rightarrow>
     if unat i * 4096 + 4096 \<le> length bs then Some (bytes_at (unat i * 4096) 4096 bs) else None)"

definition view :: "dir \<Rightarrow> pages" where
  "view s i = (case dcache s i of Some p \<Rightarrow> Some p | None \<Rightarrow> file_page (dfile s) i)"

text \<open>A cached page that is not dirty is the page of the file.\<close>

definition clean :: "dir \<Rightarrow> bool" where
  "clean s \<longleftrightarrow> (\<forall>i p. dcache s i = Some p \<longrightarrow> is_page p \<and> (i \<in> ddirty s \<or> file_page (dfile s) i = Some p)) \<and>
     finite (ddirty s) \<and> ddirty s \<subseteq> dom (dcache s)"

lemma view_update [simp]:
  "view (s\<lparr> droot := x \<rparr>) = view s" "view (s\<lparr> dnext := y \<rparr>) = view s"
  "clean (s\<lparr> droot := x \<rparr>) = clean s" "clean (s\<lparr> dnext := y \<rparr>) = clean s"
  by (simp_all add: view_def clean_def fun_eq_iff split: option.split)

text \<open>\<open>dst V n r s\<close>: the state shows the pages \<open>V\<close>, the counter \<open>n\<close> and the root \<open>r\<close>.\<close>

definition dst :: "pages \<Rightarrow> u32 \<Rightarrow> u32 \<Rightarrow> dir \<Rightarrow> bool" where
  "dst V n r s \<longleftrightarrow> view s = V \<and> dnext s = n \<and> droot s = r \<and> clean s \<and>
     local_addr s mod 8 = 0 \<and> dfile s \<noteq> None"

lemma dst_root: "dst V n r s \<Longrightarrow> droot s = r"
  by (simp add: dst_def)

lemma file_page_is_page: "file_page f i = Some p \<Longrightarrow> is_page p"
  by (auto simp: file_page_def is_page_def PAGE_BUF_SIZE_def split: option.splits if_splits)

lemma dst_is_page: "dst V n r s \<Longrightarrow> V i = Some p \<Longrightarrow> is_page p"
  by (auto simp: dst_def view_def clean_def dest: file_page_is_page split: option.splits)

lemma read_page_run:
  assumes "dst V n r s" "V i = Some p"
  obtains s' where "read_page i s = Some (Ok p, s')" "dst V n r s'"
proof (cases "dcache s i")
  case (Some q)
  with assms have "q = p" by (auto simp: dst_def view_def)
  with Some have "read_page i s = Some (Ok p, s)" by (simp add: read_page_def)
  then show ?thesis using assms(1) by (rule that)
next
  case None
  then have "view s i = file_page (dfile s) i" by (simp add: view_def)
  with assms have f: "file_page (dfile s) i = Some p" by (simp add: dst_def)
  define s' where "s' = s\<lparr> dcache := (dcache s)(i \<mapsto> p) \<rparr>"
  obtain f where "dfile s = Some f" using f by (cases "dfile s") (simp_all add: file_page_def)
  with f None have "read_page i s = Some (Ok p, s')"
    by (auto simp: read_page_def file_page_def s'_def PAGE_BUF_SIZE_def split: if_splits)
  moreover have "view s' = view s" using f None by (auto simp: view_def s'_def fun_eq_iff split: option.split)
  moreover have "clean s'" using assms(1) f file_page_is_page [OF f] by (auto simp: clean_def dst_def s'_def)
  ultimately show ?thesis using that assms(1) by (simp add: dst_def s'_def)
qed

lemma write_page_run:
  assumes "dst V n r s" "is_page p"
  obtains s' where "write_page i p s = Some (Ok (), s')" "dst (V(i \<mapsto> p)) n r s'"
proof -
  define s' where "s' = s\<lparr> dcache := (dcache s)(i \<mapsto> p), ddirty := insert i (ddirty s) \<rparr>"
  have "view s' = (view s)(i \<mapsto> p)" by (auto simp: view_def s'_def fun_eq_iff split: option.split)
  moreover have "clean s'" using assms by (auto simp: clean_def dst_def s'_def)
  ultimately show ?thesis using that assms by (simp add: write_page_def modify_def dst_def s'_def)
qed

lemma alloc_run:
  assumes "dst V n r s" "n \<noteq> 4294967295"
  obtains s' where "alloc_dir_page s = Some (Ok n, s')" "dst V (n + 1) r s'"
proof -
  define s' where "s' = s\<lparr> dnext := dnext s + 1 \<rparr>"
  have "view s' = view s" "clean s' = clean s" by (simp_all add: view_def clean_def s'_def fun_eq_iff split: option.split)
  then show ?thesis using that assms by (simp add: alloc_dir_page_def dst_def s'_def)
qed

section \<open>The header page\<close>

text \<open>\<open>dir_header V r n\<close>: page 0 is an accepted header that records this root and counter.\<close>

definition dir_header :: "pages \<Rightarrow> u32 \<Rightarrow> u32 \<Rightarrow> bool" where
  "dir_header V r n \<longleftrightarrow> (\<exists>p. V 0 = Some p \<and> is_page p \<and>
     page_type_id (uber_header p) = page_type_byte DirectoryFileHeader \<and>
     dir_root_page (dir_file_data_of_bytes (bytes_at 16 40 p)) = r \<and>
     next_page_id (dir_file_data_of_bytes (bytes_at 16 40 p)) = n)"

lemma set_root_run:
  assumes st: "dst V n r s" and hdr: "dir_header V r0 n0"
  obtains s' p where "set_root_page r' s = Some (Ok (), s')" "dst (V(0 \<mapsto> p)) n r' s'" "dir_header (V(0 \<mapsto> p)) r' n"
proof -
  obtain p where p: "V 0 = Some p" "is_page p" "page_type_id (uber_header p) = page_type_byte DirectoryFileHeader"
    using hdr unfolding dir_header_def by blast
  define s1 where "s1 = s\<lparr> droot := r' \<rparr>"
  have st1: "dst V n r' s1" using st by (simp add: dst_def s1_def)
  obtain s2 where s2: "read_page 0 s1 = Some (Ok p, s2)" "dst V n r' s2" by (rule read_page_run [OF st1 p(1)])
  let ?b = "\<lparr> buf_addr = local_addr s2, buf_bytes = p \<rparr>"
  let ?f = "\<lambda>data. data\<lparr> dir_root_page := r', next_page_id := n \<rparr>"
  let ?d = "dir_file_data_of_bytes (bytes_at 16 40 p)"
  have d: "dfh_data ?b = Ok ?d" using p(2) s2(2) by (simp add: dfh_data_Ok dst_def)
  have "length (df_magic (?f ?d)) = 8" "length (df_pad (?f ?d)) = 4"
    using p(2) by (simp_all add: dir_file_data_of_bytes_def is_page_def PAGE_BUF_SIZE_def bytes_at_def)
  then obtain b' where b': "dfh_data_mut ?f ?b = Ok b'" "is_page (buf_bytes b')" "buf_addr b' = local_addr s2"
    "dfh_data b' = Ok (?f ?d)" "uber_header (buf_bytes b') = uber_header p"
    using dfh_data_mut_Ok [OF _ _ d, of ?f] p(2) s2(2) by (auto simp: dst_def)
  obtain s3 where s3: "write_page 0 (buf_bytes b') s2 = Some (Ok (), s3)" "dst (V(0 \<mapsto> buf_bytes b')) n r' s3"
    by (rule write_page_run [OF s2(2) b'(2)])
  have "dfh_data b' = Ok (dir_file_data_of_bytes (bytes_at 16 40 (buf_bytes b')))"
    using b' s2(2) by (simp add: dfh_data_Ok dst_def)
  with b'(4) have eq: "dir_file_data_of_bytes (bytes_at 16 40 (buf_bytes b')) = ?f ?d" by simp
  have "dir_header (V(0 \<mapsto> buf_bytes b')) r' n" using b'(2,5) p by (simp add: dir_header_def eq)
  moreover have "set_root_page r' s = Some (Ok (), s3)"
    using s2 s3 b'(1) by (simp add: set_root_page_def pbind_def modify_def gets_def lift_def s1_def [symmetric] dst_def)
  ultimately show ?thesis using that s3 by blast
qed

section \<open>Pages that hold leaves and nodes\<close>

lemma is_page_leaf: "leaf_page L t p es \<Longrightarrow> is_page p"
  by (simp add: leaf_page_def page_inv_def)

lemma is_page_node: "node_page t p lm ss \<Longrightarrow> is_page p"
  by (simp add: node_page_def page_inv_def)

definition dir_format :: "directory_leaf_entry format" where
  "dir_format = (leaf_page dl_layout DirectoryLeaf, node_page DirectoryInner)"

lemma dir_format_simps [simp]:
  "fst dir_format = leaf_page dl_layout DirectoryLeaf" "snd dir_format = node_page DirectoryInner"
  by (simp_all add: dir_format_def)

abbreviation drep :: "pages \<Rightarrow> directory_leaf_entry tree \<Rightarrow> bool" where "drep \<equiv> rep dir_format"

lemma zero_page_is_page [simp]: "is_page zero_page"
  by (simp add: is_page_def zero_page_def)

lemma leaf_page_links:
  assumes "leaf_page dl_layout DirectoryLeaf p es"
  shows "leaf_page dl_layout DirectoryLeaf (leaf_set_next_page x p) es"
    "leaf_page dl_layout DirectoryLeaf (leaf_set_prev_page x p) es"
  by (rule leaf_links; use assms in simp)+

section \<open>Filling fresh pages\<close>

definition mk_entry :: "u32 \<times> ppage_id \<Rightarrow> directory_leaf_entry" where
  "mk_entry x = from_ppage_id (fst x) (snd x)"

text \<open>A key that came from a 32-bit page id survives the way through the pair.\<close>

definition small_key :: "directory_leaf_entry \<Rightarrow> bool" where
  "small_key e \<longleftrightarrow> unat (search_key e) < 2 ^ 32"

lemma small_key_from [simp]: "small_key (from_ppage_id k pp)"
  using unat_bound [of k] by (simp add: small_key_def unat_ucast_wide)

lemma ucast_small: "unat (w :: u64) < 2 ^ 32 \<Longrightarrow> ucast (ucast w :: u32) = w"
  by (rule word_unat_eqI) (simp add: unat_ucast_wide unat_ucast_narrow)

lemma from_to_ppage: "small_key e \<Longrightarrow> from_ppage_id (logical_page_id e) (to_ppage_id e) = e"
proof -
  assume k: "small_key e"
  let ?n = "page_number e"
  have b: "unat ?n < 4294967296" using unat_bound [of ?n] by simp
  have m: "unat (ucast ?n * word_of_nat 4096 :: u64) = unat ?n * 4096"
    using b by (simp add: unat_mult_word unat_ucast_wide)
  have "unat (ucast ?n * word_of_nat 4096 div word_of_nat 4096 :: u64) = unat ?n"
    unfolding unat_div_4096 m by simp
  then have "(ucast (ucast ?n * word_of_nat 4096 div word_of_nat 4096 :: u64) :: u32) = ?n"
    using b by (intro word_unat_eqI) (simp add: unat_ucast_narrow)
  with k show ?thesis
    by (simp add: from_ppage_id_def to_ppage_id_def logical_page_id_def PAGE_BUF_SIZE_def small_key_def ucast_small)
qed

lemma mk_entry_pair: "small_key e \<Longrightarrow> mk_entry (logical_page_id e, to_ppage_id e) = e"
  by (simp add: mk_entry_def from_to_ppage)

lemma insert_entries_run:
  assumes "leaf_page dl_layout DirectoryLeaf p es" "sorted_by search_key (es @ map mk_entry ks)"
    "length es + length ks \<le> 253"
  obtains q where "insert_entries ks p = Ok q" "leaf_page dl_layout DirectoryLeaf q (es @ map mk_entry ks)"
  using assms
proof (induction ks arbitrary: p es thesis)
  case Nil
  from Nil.prems(2) show ?case by (intro Nil.prems(1) [of p]) (simp_all add: insert_entries_def)
next
  case (Cons x ks)
  have inv: "dl_inv p" and ents: "entries dl_layout p = es"
    and ty: "page_type_id (uber_header p) = page_type_byte DirectoryLeaf"
    using Cons.prems(2) by (simp_all add: leaf_page_def)
  have cnt: "leaf_num_entries p = length es" using length_entries [of dl_layout p] ents by simp
  have less: "\<forall>e\<in>set es. search_key e < search_key (mk_entry x)" using Cons.prems(3) by auto
  have "search_key (mk_entry x) \<notin> search_key ` set es" using less by auto
  then have new: "key_of dl_layout (mk_entry x) \<notin> key_of dl_layout ` set (entries dl_layout p)" by (simp add: ents)
  have room: "count_of dl_layout p < max_entries dl_layout" using cnt Cons.prems(4) by simp
  obtain p' where p': "page_insert dl_layout (mk_entry x) p = Ok p'" "dl_inv p'"
    "entries dl_layout p' = insert_sorted (key_of dl_layout) (mk_entry x) (entries dl_layout p)" "same_header dl_layout p p'"
    by (rule dleaf.insert_Ok [OF inv room new])
  have e': "entries dl_layout p' = es @ [mk_entry x]" unfolding p'(3) ents using less by (simp add: insert_sorted_last)
  have "leaf_page dl_layout DirectoryLeaf p' (es @ [mk_entry x])"
    using p'(2) e' ty same_header_uber [OF p'(4)] by (simp add: leaf_page_def)
  then obtain q where q: "insert_entries ks p' = Ok q"
    "leaf_page dl_layout DirectoryLeaf q ((es @ [mk_entry x]) @ map mk_entry ks)"
    using Cons.prems(3,4) by (rule_tac Cons.IH [of p' "es @ [mk_entry x]"]) simp_all
  from q p'(1) show ?case
    by (intro Cons.prems(1) [of q])
      (simp_all add: insert_entries_def dl_insert_entry_def mk_entry_def [of x] case_prod_beta)
qed

lemma fresh_leaf_page:
  "is_page data \<Longrightarrow> leaf_page dl_layout DirectoryLeaf (dl_init data i) []"
  using dl_init_inv(1,2) [of data i] uber_init_uber(2) [of data DirectoryLeaf i]
  by (simp add: leaf_page_def dl_init_def is_page_def PAGE_BUF_SIZE_def)

lemma insert_separators_run:
  assumes "node_page DirectoryInner p lm ss" "sorted_by fst (ss @ map (\<lambda>e. (separator_key e, right_child e)) es)"
    "length ss + length es \<le> 254"
  obtains q where "insert_separators es p = Ok q"
    "node_page DirectoryInner q lm (ss @ map (\<lambda>e. (separator_key e, right_child e)) es)"
  using assms
proof (induction es arbitrary: p ss thesis)
  case Nil
  from Nil.prems(2) show ?case by (intro Nil.prems(1) [of p]) (simp_all add: insert_separators_def)
next
  case (Cons e es)
  let ?x = "(separator_key e, right_child e)"
  have inv: "inner_inv p" and ss: "seps p = ss" and lm: "inner_leftmost_child p = lm"
    and ty: "page_type_id (uber_header p) = page_type_byte DirectoryInner"
    using Cons.prems(2) by (simp_all add: node_page_def)
  have cnt: "inner_num_keys p < 254" using length_seps [of p] ss Cons.prems(4) by simp
  have less: "\<forall>s\<in>set ss. fst s < fst ?x" using Cons.prems(3) by auto
  then have new: "separator_key e \<notin> fst ` set (seps p)" using ss by auto
  obtain p' where p': "page_insert inner_layout (inner_entry_new (separator_key e) (right_child e)) p = Ok p'" "inner_inv p'"
    "seps p' = insert_sorted fst ?x (seps p)" "inner_leftmost_child p' = inner_leftmost_child p" "uber_header p' = uber_header p"
    by (rule insert_separator_Ok [OF inv cnt new, of "right_child e"])
  have "seps p' = ss @ [?x]" unfolding p'(3) ss using less by (rule insert_sorted_last)
  then have "node_page DirectoryInner p' lm (ss @ [?x])" using p' ty lm by (simp add: node_page_def)
  then obtain q where q: "insert_separators es p' = Ok q"
    "node_page DirectoryInner q lm ((ss @ [?x]) @ map (\<lambda>e. (separator_key e, right_child e)) es)"
    using Cons.prems(3,4) by (rule_tac Cons.IH [of p' "ss @ [?x]"]) simp_all
  from q p'(1) show ?case
    by (intro Cons.prems(1) [of q]) (simp_all add: insert_separators_def di_insert_separator_def)
qed

lemma fresh_node_page: "is_page data \<Longrightarrow> node_page DirectoryInner (di_init data i lm) lm []"
  using di_init_inv(1-3) [of data i lm] fresh_inner(4) [of data DirectoryInner i lm]
  by (simp add: node_page_def di_init_def)

section \<open>Splitting a leaf\<close>

lemma rank_map: "(\<And>e. e \<in> set es \<Longrightarrow> f (g e) = h e) \<Longrightarrow> rank f k (map g es) = rank h k es"
  by (induction es) (simp_all add: rank_def)

definition pair_of :: "directory_leaf_entry \<Rightarrow> u32 \<times> ppage_id" where
  "pair_of e = (logical_page_id e, to_ppage_id e)"

lemma pair_key: "small_key e \<Longrightarrow> ucast (fst (pair_of e)) = search_key e"
  by (simp add: pair_of_def logical_page_id_def small_key_def ucast_small)

text \<open>The entries with the new one, as pairs and as entries.\<close>

lemma split_entries:
  assumes small: "\<forall>e\<in>set es. small_key e" and new: "(ucast k :: u64) \<notin> search_key ` set es"
    and ents_def: "ents = vec_insert (rank search_key (ucast k) es) (k, pp) (map pair_of es)"
  shows "binary_search_by_key (\<lambda>e. ucast (fst e)) (ucast k) (map pair_of es) = Inr (rank search_key (ucast k) es)"
    "map mk_entry ents = insert_sorted search_key (from_ppage_id k pp) es"
proof -
  have r: "rank (\<lambda>e. ucast (fst e) :: u64) (ucast k) (map pair_of es) = rank search_key (ucast k) es"
    using small by (intro rank_map) (simp add: pair_key)
  have "(ucast k :: u64) \<notin> (\<lambda>e. ucast (fst e)) ` set (map pair_of es)"
    using new small by (auto simp: pair_key)
  then show "binary_search_by_key (\<lambda>e. ucast (fst e)) (ucast k) (map pair_of es) = Inr (rank search_key (ucast k) es)"
    by (simp only: binary_search_by_key_def r if_False)
  have m: "map mk_entry (map pair_of es') = es'" if "set es' \<subseteq> set es" for es'
    using that small by (induction es') (simp_all add: pair_of_def mk_entry_pair)
  have "map mk_entry (take j (map pair_of es)) = take j es" "map mk_entry (drop j (map pair_of es)) = drop j es" for j
    using m [of "take j es"] m [of "drop j es"] by (simp_all add: take_map drop_map set_take_subset set_drop_subset)
  then show "map mk_entry ents = insert_sorted search_key (from_ppage_id k pp) es"
    by (simp add: ents_def vec_insert_def insert_sorted_def mk_entry_def [of "(k, pp)"])
qed

lemma leaf_entries_read:
  assumes "leaf_page dl_layout DirectoryLeaf p es"
  shows "traverse (\<lambda>i. bind_ok (dl_entry p i) (\<lambda>e. Ok (logical_page_id e, to_ppage_id e))) [0..<leaf_num_entries p] =
    Ok (map pair_of es)"
proof -
  have inv: "dl_inv p" and es: "entries dl_layout p = es" using assms by (simp_all add: leaf_page_def)
  have "traverse (\<lambda>i. bind_ok (dl_entry p i) (\<lambda>e. Ok (logical_page_id e, to_ppage_id e))) [0..<leaf_num_entries p] =
    Ok (map (\<lambda>i. pair_of (es ! i)) [0..<leaf_num_entries p])"
    using dleaf.page_entry_Ok [OF inv] es by (intro traverse_Ok) (simp add: dl_entry_def pair_of_def)
  moreover have "map (\<lambda>i. pair_of (es ! i)) [0..<leaf_num_entries p] = map pair_of es"
    using length_entries [of dl_layout p] es by (intro nth_equalityI) simp_all
  ultimately show ?thesis by simp
qed

lemma split_leaf_run:
  assumes st: "dst V n r s" and p: "leaf_page dl_layout DirectoryLeaf p es" and full: "length es = 253"
    and small: "\<forall>e\<in>set es. small_key e" and new: "(ucast k :: u64) \<notin> search_key ` set es"
    and n: "n \<noteq> 4294967295"
    and sib: "leaf_next_page p \<noteq> 0 \<Longrightarrow> leaf_next_page p \<noteq> n \<and> V (leaf_next_page p) = Some q"
    and es': "es' = insert_sorted search_key (from_ppage_id k pp) es"
  obtains np p' s' where "split_leaf i p k pp s = Some (Ok (n, search_key (es' ! 127), p'), s')"
    "dst (if leaf_next_page p = 0 then V(n \<mapsto> np) else V(n \<mapsto> np, leaf_next_page p \<mapsto> leaf_set_prev_page n q)) (n + 1) r s'"
    "leaf_page dl_layout DirectoryLeaf np (drop 127 es')" "leaf_page dl_layout DirectoryLeaf p' (take 127 es')"
    "leaf_next_page np = leaf_next_page p" "leaf_prev_page np = i"
    "leaf_next_page p' = n" "leaf_prev_page p' = leaf_prev_page p"
proof -
  define ents where "ents = vec_insert (rank search_key (ucast k) es) (k, pp) (map pair_of es)"
  note se = split_entries [OF small new ents_def]
  have len: "length es' = 254" "length ents = 254"
    using full arg_cong [OF se(2), of length] by (simp_all add: es')
  have m: "map mk_entry ents = es'" using se(2) by (simp add: es')
  have sepk: "ucast (fst (ents ! 127)) = search_key (es' ! 127)"
    unfolding m [symmetric] using len by (simp add: mk_entry_def)
  have "sorted_by search_key es" using p by (auto simp: leaf_page_def page_inv_def)
  then have sorted: "sorted_by search_key es'" unfolding es' using new by (intro sorted_insert_sorted) simp_all
  have parts: "map mk_entry (drop 127 ents) = drop 127 es'" "map mk_entry (take 127 ents) = take 127 es'"
    unfolding m [symmetric] by (simp_all add: take_map drop_map)
  obtain s1 where s1: "alloc_dir_page s = Some (Ok n, s1)" "dst V (n + 1) r s1" by (rule alloc_run [OF st n])
  obtain np0 where np0: "insert_entries (drop 127 ents) (dl_init zero_page n) = Ok np0"
    "leaf_page dl_layout DirectoryLeaf np0 ([] @ map mk_entry (drop 127 ents))"
    using sorted len by (rule_tac insert_entries_run [OF fresh_leaf_page, of zero_page "drop 127 ents" n])
      (auto simp: parts intro: sorted_by_drop)
  define np where "np = leaf_set_prev_page i (leaf_set_next_page (leaf_next_page p) np0)"
  have "is_page np" using np0(2) by (simp add: np_def leaf_page_links is_page_leaf)
  then obtain s2 where s2: "write_page n np s1 = Some (Ok (), s2)" "dst (V(n \<mapsto> np)) (n + 1) r s2"
    by (rule write_page_run [OF s1(2)])
  obtain p0 where p0: "insert_entries (take 127 ents) (dl_init p i) = Ok p0"
    "leaf_page dl_layout DirectoryLeaf p0 ([] @ map mk_entry (take 127 ents))"
    using sorted len by (rule_tac insert_entries_run [OF fresh_leaf_page, of p "take 127 ents" i])
      (auto simp: parts is_page_leaf [OF p] intro: sorted_by_take)
  define p' where "p' = leaf_set_prev_page (leaf_prev_page p) (leaf_set_next_page n p0)"
  define V' where "V' = (if leaf_next_page p = 0 then V(n \<mapsto> np)
    else V(n \<mapsto> np, leaf_next_page p \<mapsto> leaf_set_prev_page n q))"
  obtain s3 where s3: "(if leaf_next_page p \<noteq> 0 then
      pbind (read_page (leaf_next_page p)) (\<lambda>sib_buf. write_page (leaf_next_page p) (leaf_set_prev_page n sib_buf))
      else ret ()) s2 = Some (Ok (), s3)" "dst V' (n + 1) r s3"
  proof (cases "leaf_next_page p = 0")
    case True
    with s2(2) that [of s2] show ?thesis by (simp add: ret_def V'_def)
  next
    case False
    then have sq: "is_page (leaf_set_prev_page n q)" using sib dst_is_page [OF st] by auto
    from False have "(V(n \<mapsto> np)) (leaf_next_page p) = Some q" using sib by simp
    then obtain s4 where s4: "read_page (leaf_next_page p) s2 = Some (Ok q, s4)" "dst (V(n \<mapsto> np)) (n + 1) r s4"
      by (rule read_page_run [OF s2(2)])
    obtain s5 where "write_page (leaf_next_page p) (leaf_set_prev_page n q) s4 = Some (Ok (), s5)"
      "dst (V(n \<mapsto> np, leaf_next_page p \<mapsto> leaf_set_prev_page n q)) (n + 1) r s5"
      by (rule write_page_run [OF s4(2) sq])
    with False s4(1) that [of s5] show ?thesis by (simp add: pbind_def V'_def)
  qed
  have "split_leaf i p k pp s = Some (Ok (n, search_key (es' ! 127), p'), s3)"
    using leaf_entries_read [OF p] se(1) s1(1) np0(1) s2(1) p0(1) s3(1) len sepk
    by (simp add: split_leaf_def pbind_def lift_def ret_def ents_def [symmetric] np_def [symmetric] p'_def Let_def)
  moreover have "leaf_page dl_layout DirectoryLeaf np (drop 127 es')" "leaf_page dl_layout DirectoryLeaf p' (take 127 es')"
    using np0(2) p0(2) unfolding np_def p'_def by (simp_all add: leaf_page_links parts)
  moreover have "is_page np0" "is_page p0" using np0(2) p0(2) by (simp_all add: is_page_leaf)
  ultimately show ?thesis using that s3(2) by (simp add: np_def p'_def V'_def)
qed

lemma split_leaf_duplicate:
  assumes "leaf_page dl_layout DirectoryLeaf p es" "\<forall>e\<in>set es. small_key e" "(ucast k :: u64) \<in> search_key ` set es"
  shows "split_leaf i p k pp s = Some (Err (DuplicatePage k), s)"
proof -
  have "(ucast k :: u64) \<in> (\<lambda>e. ucast (fst e)) ` set (map pair_of es)"
    using assms(2,3) by (force simp: pair_key)
  then have "\<exists>j. binary_search_by_key (\<lambda>e. ucast (fst e)) (ucast k) (map pair_of es) = Inl j"
    by (simp only: binary_search_by_key_def if_True) blast
  then show ?thesis using leaf_entries_read [OF assms(1)]
    by (auto simp: split_leaf_def pbind_def lift_def fail_def)
qed

section \<open>Splitting an inner page\<close>

abbreviation pr :: "inner_entry \<Rightarrow> u64 \<times> u32" where "pr e \<equiv> (separator_key e, right_child e)"

lemma seps_pr: "seps p = map pr (entries inner_layout p)"
  by (simp add: seps_def)

lemma split_inner_run:
  assumes st: "dst V n r s" and p: "node_page DirectoryInner p lm ss" and full: "length ss = 254"
    and new: "k \<notin> fst ` set ss" and n: "n \<noteq> 4294967295" and ss': "ss' = insert_sorted fst (k, c) ss"
  obtains np p' s' where "split_inner i p k c s = Some (Ok (n, fst (ss' ! 127), p'), s')"
    "dst (V(n \<mapsto> np)) (n + 1) r s'"
    "node_page DirectoryInner np (snd (ss' ! 127)) (drop 128 ss')" "node_page DirectoryInner p' lm (take 127 ss')"
proof -
  define es where "es = entries inner_layout p"
  have inv: "inner_inv p" and ss: "map pr es = ss" and lm: "inner_leftmost_child p = lm"
    using p by (simp_all add: node_page_def es_def seps_pr)
  have page: "is_page p" using inv by (simp add: page_inv_def)
  define ents where "ents = vec_insert (rank separator_key k es) (inner_entry_new k c) es"
  have r: "rank separator_key k es = rank fst k ss" unfolding ss [symmetric] by (simp add: rank_map)
  have m: "map pr ents = ss'"
    by (simp add: ents_def vec_insert_def ss' insert_sorted_def r take_map drop_map flip: ss)
  have len: "length ss' = 255" "length ents = 255"
    using full arg_cong [OF m, of length] by (simp_all add: ss')
  have parts: "map pr (drop 128 ents) = drop 128 ss'" "map pr (take 127 ents) = take 127 ss'"
    unfolding m [symmetric] by (simp_all add: take_map drop_map)
  have at: "separator_key (ents ! 127) = fst (ss' ! 127)" "right_child (ents ! 127) = snd (ss' ! 127)"
    unfolding m [symmetric] using len by simp_all
  have "sorted_by fst ss" using inv unfolding ss [symmetric] by (simp add: page_inv_def es_def sorted_by_def comp_def)
  then have sorted: "sorted_by fst ss'" unfolding ss' using new by (intro sorted_insert_sorted) simp_all
  have "separator_key ` set es = fst ` set ss" unfolding ss [symmetric] by (simp add: image_image)
  with new have bs: "binary_search_by_key separator_key k es = Inr (rank separator_key k es)"
    by (simp add: binary_search_by_key_def)
  have "length es = 254" using arg_cong [OF ss, of length] full by simp
  then have "inner_num_keys p = 254" using length_entries [of inner_layout p] by (simp add: es_def)
  moreover have "traverse (di_entry p) [0..<inner_num_keys p] = Ok (map (\<lambda>i. es ! i) [0..<inner_num_keys p])"
    using inner.page_entry_Ok [OF inv] by (intro traverse_Ok) (simp add: di_entry_def es_def)
  ultimately have rd: "traverse (di_entry p) [0..<inner_num_keys p] = Ok es"
    using \<open>length es = 254\<close> map_nth [of es] by simp
  obtain s1 where s1: "alloc_dir_page s = Some (Ok n, s1)" "dst V (n + 1) r s1" by (rule alloc_run [OF st n])
  obtain np where np: "insert_separators (drop 128 ents) (di_init zero_page n (snd (ss' ! 127))) = Ok np"
    "node_page DirectoryInner np (snd (ss' ! 127)) ([] @ map pr (drop 128 ents))"
    using sorted len
    by (rule_tac insert_separators_run [OF fresh_node_page, of zero_page "drop 128 ents" n "snd (ss' ! 127)"])
      (auto simp: parts intro: sorted_by_drop)
  obtain s2 where s2: "write_page n np s1 = Some (Ok (), s2)" "dst (V(n \<mapsto> np)) (n + 1) r s2"
    by (rule write_page_run [OF s1(2) is_page_node [OF np(2)]])
  obtain p' where p': "insert_separators (take 127 ents) (di_init p i lm) = Ok p'"
    "node_page DirectoryInner p' lm ([] @ map pr (take 127 ents))"
    using sorted len by (rule_tac insert_separators_run [OF fresh_node_page, of p "take 127 ents" i lm])
      (auto simp: parts page intro: sorted_by_take)
  have "split_inner i p k c s = Some (Ok (n, fst (ss' ! 127), p'), s2)"
    using rd bs s1(1) np(1) s2(1) p'(1) len at lm
    by (simp add: split_inner_def pbind_def lift_def ret_def ents_def [symmetric] Let_def)
  with that s2(2) np(2) p'(2) show ?thesis by (simp add: parts)
qed

lemma insert_separator_run:
  assumes p: "node_page DirectoryInner p lm ss" and room: "length ss < 254" and new: "k \<notin> fst ` set ss"
  obtains p' where "di_insert_separator k c p = Ok p'" "node_page DirectoryInner p' lm (insert_sorted fst (k, c) ss)"
proof -
  have inv: "inner_inv p" and ss: "seps p = ss" using p by (simp_all add: node_page_def)
  have "inner_num_keys p < 254" "k \<notin> fst ` set (seps p)" using length_seps [of p] ss room new by simp_all
  from insert_separator_Ok [OF inv this, of c] obtain p' where
    "page_insert inner_layout (inner_entry_new k c) p = Ok p'" "inner_inv p'"
    "seps p' = insert_sorted fst (k, c) (seps p)" "inner_leftmost_child p' = inner_leftmost_child p"
    "uber_header p' = uber_header p" by blast
  with that p ss show ?thesis by (simp add: di_insert_separator_def node_page_def)
qed

lemma dir_header_other: "i \<noteq> 0 \<Longrightarrow> dir_header (V(i \<mapsto> p)) r n = dir_header V r n"
  by (simp add: dir_header_def)

lemma new_root_run:
  assumes st: "dst V n r s" and n: "n \<noteq> 4294967295" "n \<noteq> 0" and hdr: "dir_header V r0 n0"
  obtains p h s' where "new_root l k c s = Some (Ok (), s')" "dst (V(n \<mapsto> p, 0 \<mapsto> h)) (n + 1) n s'"
    "node_page DirectoryInner p l [(k, c)]" "dir_header (V(n \<mapsto> p, 0 \<mapsto> h)) n (n + 1)"
proof -
  obtain s1 where s1: "alloc_dir_page s = Some (Ok n, s1)" "dst V (n + 1) r s1" by (rule alloc_run [OF st n(1)])
  obtain p where p: "di_insert_separator k c (di_init zero_page n l) = Ok p"
    "node_page DirectoryInner p l (insert_sorted fst (k, c) [])"
    by (rule insert_separator_run [OF fresh_node_page [of zero_page n l], of k c]) simp_all
  obtain s2 where s2: "write_page n p s1 = Some (Ok (), s2)" "dst (V(n \<mapsto> p)) (n + 1) r s2"
    by (rule write_page_run [OF s1(2) is_page_node [OF p(2)]])
  have "dir_header (V(n \<mapsto> p)) r0 n0" using hdr n(2) by (simp add: dir_header_other)
  then obtain s3 h where s3: "set_root_page n s2 = Some (Ok (), s3)" "dst (V(n \<mapsto> p, 0 \<mapsto> h)) (n + 1) n s3"
    "dir_header (V(n \<mapsto> p, 0 \<mapsto> h)) n (n + 1)"
    by (rule set_root_run [OF s2(2)])
  have "new_root l k c s = Some (Ok (), s3)"
    using s1(1) p(1) s2(1) s3(1) by (simp add: new_root_def pbind_def lift_def)
  moreover have "insert_sorted fst (k, c) [] = [(k, c)]" by (simp add: insert_sorted_def rank_def)
  ultimately show ?thesis using that s3 p(2) by simp
qed

end
