(* ===== verification/TreeSearch.thy ===== *)
theory TreeSearch
  imports TreePages
begin

text \<open>
  A search in a tree that pages hold: the child an inner page sends it to, and that the bounds of a
  leaf's piece make the entries found in it the entries of the whole tree. The directory and the indexes
  share these lemmas.
\<close>

abbreviation ktop :: nat where "ktop \<equiv> 2 ^ 64"

section \<open>Bounds of a context\<close>

lemma hole_append:
  "hole_lo (fs @ gs) lo = hole_lo fs (hole_lo gs lo)" "hole_hi (fs @ gs) hi = hole_hi fs (hole_hi gs hi)"
  by (induction fs) simp_all

lemma frame_outside:
  assumes "frame_inb f g lo hi"
  shows "lo \<le> frame_lo g lo" "frame_hi g hi \<le> hi"
    "\<forall>e\<in>set (frame_pre flat g). unat (f e) < frame_lo g lo" "\<forall>e\<in>set (frame_post flat g). frame_hi g hi \<le> unat (f e)"
proof -
  have post: "\<forall>e\<in>set (concat (map (\<lambda>s. flat (snd s)) ts)). upto ts hi \<le> unat (f e)" "upto ts hi \<le> hi"
    if "seg (\<lambda>a b. a < b) (map (\<lambda>s. (unat (fst s), inb f (snd s))) ts) lo' hi" for ts lo'
  proof -
    have "(\<forall>e\<in>set (concat (map (\<lambda>s. flat (snd s)) ts)). upto ts hi \<le> unat (f e)) \<and> upto ts hi \<le> hi"
    proof (cases ts)
      case Nil
      then show ?thesis by simp
    next
      case (Cons s us)
      with that have "inb f (Node 0 (snd s) us) (unat (fst s)) hi" "unat (fst s) < hi" by simp_all
      then show ?thesis using inb_flat [of f "Node 0 (snd s) us" "unat (fst s)" hi] Cons by fastforce
    qed
    then show "\<forall>e\<in>set (concat (map (\<lambda>s. flat (snd s)) ts)). upto ts hi \<le> unat (f e)" "upto ts hi \<le> hi" by simp_all
  qed
  have "lo \<le> frame_lo g lo \<and> frame_hi g hi \<le> hi \<and> (\<forall>e\<in>set (frame_pre flat g). unat (f e) < frame_lo g lo) \<and>
    (\<forall>e\<in>set (frame_post flat g). frame_hi g hi \<le> unat (f e))"
  proof (cases g)
    case (FLeft i ts)
    with assms post [of ts lo] show ?thesis by simp
  next
    case (FMid i t as k bs)
    with assms have "inb f (Node i t as) lo (unat k)" by simp
    from inb_flat [OF this] assms post [of bs "unat k"] FMid show ?thesis by simp
  qed
  then show "lo \<le> frame_lo g lo" "frame_hi g hi \<le> hi"
    "\<forall>e\<in>set (frame_pre flat g). unat (f e) < frame_lo g lo" "\<forall>e\<in>set (frame_post flat g). frame_hi g hi \<le> unat (f e)"
    by simp_all
qed

lemma ctx_outside:
  assumes "ctx_inb f gs lo hi"
  shows "(\<forall>e\<in>set (pre flat gs). unat (f e) < hole_lo gs lo) \<and> (\<forall>e\<in>set (post flat gs). hole_hi gs hi \<le> unat (f e))"
  using assms
proof (induction gs)
  case (Cons g gs)
  then have IH: "\<forall>e\<in>set (pre flat gs). unat (f e) < hole_lo gs lo" "\<forall>e\<in>set (post flat gs). hole_hi gs hi \<le> unat (f e)"
    and fr: "frame_inb f g (hole_lo gs lo) (hole_hi gs hi)" by simp_all
  note o = frame_outside [OF fr]
  show ?case using IH o by (fastforce intro: less_le_trans order_trans)
qed simp

text \<open>Replacing the entries of one leaf.\<close>

lemma find_replace:
  assumes "k \<notin> f ` set xs" "k \<notin> f ` set ys" "\<And>x. find_entry f x es' = (if x = k then v else find_entry f x es)"
  shows "find_entry f x (xs @ es' @ ys) = (if x = k then v else find_entry f x (xs @ es @ ys))"
proof -
  have "find_entry f k xs = None" "find_entry f k ys = None" using assms(1,2) by (simp_all add: find_entry_None)
  then show ?thesis by (cases v) (simp_all add: find_entry_append assms(3) split: option.split)
qed

lemma find_in_leaf:
  assumes "k \<notin> f ` set xs" "k \<notin> f ` set ys"
  shows "find_entry f k (xs @ es @ ys) = find_entry f k es"
proof -
  have "find_entry f k xs = None" "find_entry f k ys = None" using assms by (simp_all add: find_entry_None)
  then show ?thesis by (simp add: find_entry_append split: option.split)
qed

text \<open>Which child a search takes.\<close>

lemma child_taken:
  assumes p: "node_page T p (tid t) (map sep ts)"
    and b: "inb f (Node i t ts) lo hi" "lo \<le> unat k" "unat k < hi"
  obtains g u where "Node i t ts = plug1 g u" "fid g = i" "page_find_child inner_layout right_child p k = Ok (tid u)"
    "frame_lo g lo \<le> unat k" "unat k < frame_hi g hi" "u = t \<or> u \<in> snd ` set ts"
proof -
  have fc: "page_find_child inner_layout right_child p k = Ok (last (tid t # map snd (filter (\<lambda>s. fst s \<le> k) (map sep ts))))"
    using p find_child_last [of p k] by (simp add: node_page_def)
  show ?thesis
  proof (cases "\<exists>s\<in>set ts. fst s \<le> k")
    case False
    then have "filter (\<lambda>s. fst s \<le> k) (map sep ts) = []" by (auto simp: filter_empty_conv sep_def)
    with fc have "page_find_child inner_layout right_child p k = Ok (tid t)" by simp
    moreover have "unat k < upto ts hi" using False b(3) by (cases ts) (auto simp: word_less_nat_alt not_le)
    ultimately show ?thesis using that [of "FLeft i ts" t] b by simp
  next
    case True
    then obtain as s bs where ts: "ts = as @ s # bs" "fst s \<le> k" "\<forall>x\<in>set bs. \<not> fst x \<le> k"
      using split_list_last_prop [of ts "\<lambda>s. fst s \<le> k"] by blast
    then have "filter (\<lambda>s. fst s \<le> k) (map sep bs) = []" by (auto simp: filter_empty_conv sep_def)
    with fc ts have "page_find_child inner_layout right_child p k = Ok (tid (snd s))" by (simp add: sep_def)
    moreover have "unat k < upto bs hi" using ts(3) b(3) by (cases bs) (auto simp: word_less_nat_alt not_le)
    moreover have "unat (fst s) \<le> unat k" using ts(2) by (simp add: word_le_nat_alt)
    ultimately show ?thesis using that [of "FMid i t as (fst s) bs" "snd s"] ts(1) by simp
  qed
qed

end
