(* ===== verification/DirTree.thy ===== *)
theory DirTree
  imports DirPages TreeSearch
begin

text \<open>
  The page directory as a tree: the well-formedness of the tree the pages hold, the descent to a
  leaf, and the change of one leaf.
\<close>

section \<open>The tree in the pages\<close>

definition wf_tree :: "pages \<Rightarrow> u32 \<Rightarrow> directory_leaf_entry tree \<Rightarrow> bool" where
  "wf_tree V n t \<longleftrightarrow> drep V t \<and> inb search_key t 0 ktop \<and> uniq (idm t) \<and> (\<forall>i\<in>#idm t. 0 < i \<and> i < n) \<and>
     chain V 0 (leaf_ids t) 0 \<and> (\<forall>e\<in>set (flat t). small_key e)"

definition tmap :: "directory_leaf_entry tree \<Rightarrow> u32 \<rightharpoonup> ppage_id" where
  "tmap t l = map_option to_ppage_id (find_entry search_key (ucast l) (flat t))"

lemma drep_is_page: "drep V t \<Longrightarrow> \<exists>p. V (tid t) = Some p \<and> is_page p"
  by (cases t) (auto dest: is_page_leaf is_page_node)

section \<open>The descent\<close>

lemma page_kind_Ok: "page_type_id (uber_header p) = page_type_byte t \<Longrightarrow> page_kind p = Ok t"
  by (simp add: page_kind_def del: page_type_byte.simps)

text \<open>Which child a search takes.\<close>

lemma dir_child_taken:
  assumes "node_page DirectoryInner p (tid t) (map sep ts)" "inb search_key (Node i t ts) lo hi" "lo \<le> unat k" "unat k < hi"
  obtains g u where "Node i t ts = plug1 g u" "fid g = i" "di_find_child p k = Ok (tid u)"
    "frame_lo g lo \<le> unat k" "unat k < frame_hi g hi" "u = t \<or> u \<in> snd ` set ts"
  by (rule child_taken [OF assms]) (rule that; simp add: di_find_child_def)

lemma find_leaf_run:
  assumes "drep V t" "inb search_key t lo hi" "lo \<le> unat k" "unat k < hi" "dst V n r s"
  shows "\<exists>gs i es s'. t = plug gs (Leaf i es) \<and> find_leaf_loop k (tid t) s = Some (Ok i, s') \<and> dst V n r s' \<and>
    (\<forall>path. find_path_loop k (tid t) path s = Some (Ok (i, path @ rev (map fid gs)), s')) \<and>
    hole_lo gs lo \<le> unat k \<and> unat k < hole_hi gs hi"
  using assms
proof (induction t arbitrary: lo hi s)
  case (Leaf i es)
  then obtain p where p: "V i = Some p" "leaf_page dl_layout DirectoryLeaf p es" by auto
  obtain s' where s': "read_page i s = Some (Ok p, s')" "dst V n r s'" by (rule read_page_run [OF Leaf.prems(5) p(1)])
  have kd: "page_kind p = Ok DirectoryLeaf" using p(2) by (intro page_kind_Ok) (simp add: leaf_page_def)
  have "find_leaf_loop k i s = Some (Ok i, s')"
    using s'(1) kd by (subst find_leaf_loop.simps) (simp add: pbind_def lift_def)
  moreover have "find_path_loop k i path s = Some (Ok (i, path), s')" for path
    using s'(1) kd by (subst find_path_loop.simps) (simp add: pbind_def lift_def)
  ultimately show ?case using s'(2) Leaf.prems(3,4) by (intro exI [of _ "[]"] exI [of _ i] exI [of _ es] exI [of _ s']) simp
next
  case (Node i t ts)
  then obtain p where p: "V i = Some p" "node_page DirectoryInner p (tid t) (map sep ts)" by auto
  obtain s1 where s1: "read_page i s = Some (Ok p, s1)" "dst V n r s1" by (rule read_page_run [OF Node.prems(5) p(1)])
  have kd: "page_kind p = Ok DirectoryInner" using p(2) by (intro page_kind_Ok) (simp add: node_page_def)
  obtain g u where g: "Node i t ts = plug1 g u" "fid g = i" "di_find_child p k = Ok (tid u)"
    "frame_lo g lo \<le> unat k" "unat k < frame_hi g hi" "u = t \<or> u \<in> snd ` set ts"
    by (rule dir_child_taken [OF p(2) Node.prems(2,3,4)])
  have "lo < hi" using Node.prems(3,4) by simp
  from inb_plug1 [OF this] Node.prems(2) g(1) have u: "inb search_key u (frame_lo g lo) (frame_hi g hi)" by metis
  have ru: "drep V u" using Node.prems(1) g(1) rep_plug1 [of dir_format V g u] by metis
  have "\<exists>gs j es s'. u = plug gs (Leaf j es) \<and> find_leaf_loop k (tid u) s1 = Some (Ok j, s') \<and> dst V n r s' \<and>
    (\<forall>path. find_path_loop k (tid u) path s1 = Some (Ok (j, path @ rev (map fid gs)), s')) \<and>
    hole_lo gs (frame_lo g lo) \<le> unat k \<and> unat k < hole_hi gs (frame_hi g hi)"
  proof (cases "u = t")
    case True
    then show ?thesis using Node.IH(1) [of "frame_lo g lo" "frame_hi g hi" s1] ru u g(4,5) s1(2) by simp
  next
    case False
    then obtain x where "x \<in> set ts" "u = snd x" using g(6) by auto
    then show ?thesis
      using Node.IH(2) [of x "snd x" "frame_lo g lo" "frame_hi g hi" s1] ru u g(4,5) s1(2) by (simp add: snds.simps)
  qed
  then obtain gs j es s' where IH: "u = plug gs (Leaf j es)" "find_leaf_loop k (tid u) s1 = Some (Ok j, s')" "dst V n r s'"
    "\<And>path. find_path_loop k (tid u) path s1 = Some (Ok (j, path @ rev (map fid gs)), s')"
    "hole_lo gs (frame_lo g lo) \<le> unat k" "unat k < hole_hi gs (frame_hi g hi)" by blast
  have "find_leaf_loop k i s = Some (Ok j, s')"
    using s1(1) kd g(3) IH(2) by (subst find_leaf_loop.simps) (simp add: pbind_def lift_def)
  moreover have "find_path_loop k i path s = Some (Ok (j, path @ rev (map fid (gs @ [g]))), s')" for path
    using s1(1) kd g(2,3) IH(4) by (subst find_path_loop.simps) (simp add: pbind_def lift_def)
  moreover have "Node i t ts = plug (gs @ [g]) (Leaf j es)" using g(1) IH(1) by simp
  ultimately show ?case using IH(3,5,6)
    by (intro exI [of _ "gs @ [g]"] exI [of _ j] exI [of _ es] exI [of _ s']) (simp add: hole_append g(2))
qed

section \<open>Splits on the way up\<close>

text \<open>A node with one separator too many, cut at its middle.\<close>

lemma node_split:
  assumes kids: "drep V t0" "\<forall>s\<in>set ys. drep V (snd s)" and len: "length ys = 255"
    and p: "V i = Some p" "node_page DirectoryInner p (tid t0) (take 127 (map sep ys))"
    and q: "V n = Some q" "node_page DirectoryInner q (snd (map sep ys ! 127)) (drop 128 (map sep ys))"
    and b: "inb search_key (Node i t0 ys) lo hi"
  obtains u k w where "tid u = i" "tid w = n" "k = fst (map sep ys ! 127)" "drep V u" "drep V w"
    "inb search_key u lo (unat k)" "inb search_key w (unat k) hi" "lo < unat k" "unat k < hi"
    "flat u @ flat w = flat (Node i t0 ys)" "leaf_ids u @ leaf_ids w = leaf_ids (Node i t0 ys)"
    "idm u + idm w = idm (Node i t0 ys) + {#n#}"
proof -
  define m where "m = ys ! 127"
  have ys: "ys = take 127 ys @ (fst m, snd m) # drop 128 ys"
    using id_take_nth_drop [of 127 ys] len by (simp add: m_def)
  have nth: "map sep ys ! 127 = sep m" using len by (simp add: m_def)
  have mem: "m \<in> set ys" using len by (simp add: m_def)
  define u where "u = Node i t0 (take 127 ys)"
  define w where "w = Node n (snd m) (drop 128 ys)"
  have "drep V u" using kids p by (auto simp: u_def take_map dest: in_set_takeD)
  moreover have "drep V w" using kids q mem by (auto simp: w_def nth sep_def [of m] drop_map dest: in_set_dropD)
  moreover have "inb search_key u lo (unat (fst m)) \<and> inb search_key w (unat (fst m)) hi \<and> lo < unat (fst m) \<and> unat (fst m) < hi"
    unfolding u_def w_def using b by (intro inb_split_node) (simp only: ys [symmetric])
  moreover have "flat u @ flat w = flat (Node i t0 (take 127 ys @ (fst m, snd m) # drop 128 ys))"
    "leaf_ids u @ leaf_ids w = leaf_ids (Node i t0 (take 127 ys @ (fst m, snd m) # drop 128 ys))"
    "idm u + idm w = idm (Node i t0 (take 127 ys @ (fst m, snd m) # drop 128 ys)) + {#n#}"
    unfolding u_def w_def by simp_all
  moreover have "tid u = i" "tid w = n" "fst m = fst (map sep ys ! 127)" by (simp_all add: u_def w_def nth sep_def)
  ultimately show ?thesis unfolding ys [symmetric] by (intro that [of u w "fst m"]) blast+
qed

lemma word_Suc: "n \<noteq> 4294967295 \<Longrightarrow> unat ((n :: u32) + 1) = unat n + 1"
proof -
  assume "n \<noteq> 4294967295"
  then have "unat n \<noteq> unat (4294967295 :: u32)" using word_unat_eqI by blast
  then have "unat n + 1 < 2 ^ LENGTH(32)" using unat_bound [of n] by simp
  then show ?thesis by (simp add: unat_word_ariths)
qed

text \<open>The tree a run of \<open>insert_into_ancestors\<close> leaves.\<close>

definition grown :: "pages \<Rightarrow> u32 \<Rightarrow> directory_leaf_entry frame list \<Rightarrow> directory_leaf_entry tree \<Rightarrow>
    directory_leaf_entry tree \<Rightarrow> dir \<Rightarrow> bool" where
  "grown V n gs t1 t2 s' \<longleftrightarrow> (\<exists>V' n' n0 T. dst V' n' (tid T) s' \<and> drep V' T \<and> inb search_key T 0 ktop \<and>
     uniq (idm T) \<and> (\<forall>i\<in>#idm T. 0 < i \<and> i < n') \<and> n \<le> n' \<and> dir_header V' (tid T) n0 \<and> n0 \<le> n' \<and>
     flat T = pre flat gs @ flat t1 @ flat t2 @ post flat gs \<and>
     leaf_ids T = pre leaf_ids gs @ leaf_ids t1 @ leaf_ids t2 @ post leaf_ids gs \<and>
     (\<forall>i. i \<noteq> 0 \<and> i \<notin> fid ` set gs \<and> i < n \<longrightarrow> V' i = V i))"

text \<open>The situation in which the loop finds itself: the child \<open>t1\<close> was split and \<open>t2\<close> is the new right part.\<close>

definition pending :: "pages \<Rightarrow> u32 \<Rightarrow> directory_leaf_entry frame list \<Rightarrow> directory_leaf_entry tree \<Rightarrow>
    u64 \<Rightarrow> directory_leaf_entry tree \<Rightarrow> bool" where
  "pending V n gs t1 k t2 \<longleftrightarrow> rep_ctx dir_format V gs (tid t1) \<and> drep V t1 \<and> drep V t2 \<and>
     ctx_inb search_key gs 0 ktop \<and> hole_lo gs 0 < unat k \<and> unat k < hole_hi gs ktop \<and>
     inb search_key t1 (hole_lo gs 0) (unat k) \<and> inb search_key t2 (unat k) (hole_hi gs ktop) \<and>
     uniq (ctx_idm gs + idm t1 + idm t2) \<and> (\<forall>i\<in>#ctx_idm gs + idm t1 + idm t2. 0 < i \<and> i < n)"

lemma ancestors_root:
  assumes pend: "pending V n [] t1 k t2" and st: "dst V n r s" and r: "r = tid t1"
    and hdr: "dir_header V r n0" and room: "unat n < 2 ^ 32 - 1"
  shows "\<exists>s'. ancestors_loop [] k (tid t2) s = Some (Ok (), s') \<and> grown V n [] t1 t2 s'"
proof -
  have n: "n \<noteq> 4294967295" using room by auto
  have ids: "\<forall>i\<in>#idm t1 + idm t2. 0 < i \<and> i < n" and u: "uniq (idm t1 + idm t2)"
    and reps: "drep V t1" "drep V t2" and b: "inb search_key t1 0 (unat k)" "inb search_key t2 (unat k) ktop" "0 < unat k"
    using pend by (simp_all add: pending_def)
  have "tid t1 \<in># idm t1 + idm t2" using set_idm [of t1] tid_in_ids [of t1] by simp
  with ids have "0 < tid t1" "tid t1 < n" by blast+
  then have "0 < n" by (rule less_trans)
  then have n0: "n \<noteq> 0" by simp
  obtain p h s' where run: "new_root r k (tid t2) s = Some (Ok (), s')"
    "dst (V(n \<mapsto> p, 0 \<mapsto> h)) (n + 1) n s'" "node_page DirectoryInner p r [(k, tid t2)]"
    "dir_header (V(n \<mapsto> p, 0 \<mapsto> h)) n (n + 1)"
    by (rule new_root_run [OF st n n0 hdr])
  define T where "T = Node n t1 [(k, t2)]"
  let ?V = "V(n \<mapsto> p, 0 \<mapsto> h)"
  have same: "?V i = V i" if "i \<in># idm t1 + idm t2" for i using that ids by auto
  have "drep ?V t1" "drep ?V t2"
    using reps same rep_cong [of t1 ?V V dir_format] rep_cong [of t2 ?V V dir_format] by auto
  then have "drep ?V T" using run(3) n0 by (simp add: T_def sep_def r)
  moreover have "inb search_key T 0 ktop" using b unat_bound [of k] by (simp add: T_def)
  moreover have "n \<notin># idm t1 + idm t2" using ids by blast
  then have "uniq (idm T)" using u by (simp add: T_def)
  moreover have up: "n < n + 1" using word_Suc [OF n] by (simp add: word_less_nat_alt)
  then have "\<forall>i\<in>#idm T. 0 < i \<and> i < n + 1" using ids \<open>0 < n\<close> by (auto simp: T_def intro: less_trans)
  moreover have "flat T = flat t1 @ flat t2" "leaf_ids T = leaf_ids t1 @ leaf_ids t2" "tid T = n" by (simp_all add: T_def)
  moreover have "ancestors_loop [] k (tid t2) s = Some (Ok (), s')" using run(1) st by (simp add: dst_def)
  ultimately show ?thesis using run(2,4) up
    by (auto simp: grown_def intro!: exI [of _ ?V] exI [of _ "n + 1"] exI [of _ T])
qed

lemma ancestors_room:
  assumes pend: "pending V n (g # gs) t1 k t2" and st: "dst V n r s"
    and p: "V (fid g) = Some p" "node_page DirectoryInner p (frame_lm g (tid t1)) (frame_ss g (tid t1))"
    and less: "length (frame_ss g (tid t1)) < 254"
    and r: "r = tid (plug (g # gs) t1)" and hdr: "dir_header V r n0" "n0 \<le> n"
  shows "\<exists>s'. ancestors_loop (map fid (g # gs)) k (tid t2) s = Some (Ok (), s') \<and> grown V n (g # gs) t1 t2 s'"
proof -
  define T where "T = plug gs (plug2 g t1 k t2)"
  have ctx: "ctx_inb search_key gs 0 ktop" "frame_inb search_key g (hole_lo gs 0) (hole_hi gs ktop)"
    and k: "frame_lo g (hole_lo gs 0) < unat k" "unat k < frame_hi g (hole_hi gs ktop)"
    and b: "inb search_key t1 (frame_lo g (hole_lo gs 0)) (unat k)" "inb search_key t2 (unat k) (frame_hi g (hole_hi gs ktop))"
    and u: "uniq (frame_idm g + ctx_idm gs + idm t1 + idm t2)"
    and ids: "\<forall>i\<in>#frame_idm g + ctx_idm gs + idm t1 + idm t2. 0 < i \<and> i < n"
    and reps: "rep_frame dir_format V g (tid t1)" "rep_ctx dir_format V gs (fid g)" "drep V t1" "drep V t2"
    using pend by (simp_all add: pending_def)
  note ar = frame_seps_around [OF ctx(2) k]
  obtain p' where p': "di_insert_separator k (tid t2) p = Ok p'"
    "node_page DirectoryInner p' (frame_lm g (tid t1)) (insert_sorted fst (k, tid t2) (frame_ss g (tid t1)))"
    by (rule insert_separator_run [OF p(2) less ar(2)])
  obtain s1 where s1: "read_page (fid g) s = Some (Ok p, s1)" "dst V n r s1" by (rule read_page_run [OF st p(1)])
  obtain s2 where s2: "write_page (fid g) p' s1 = Some (Ok (), s2)" "dst (V(fid g \<mapsto> p')) n r s2"
    by (rule write_page_run [OF s1(2) is_page_node [OF p'(2)]])
  let ?V = "V(fid g \<mapsto> p')"
  have fg: "0 < fid g" "fid g < n" using ids by auto
  have out: "fid g \<notin># ctx_idm gs" "fid g \<notin># idm t1" "fid g \<notin># idm t2" "fid g \<notin># frame_idm g - {#fid g#}"
    using u fid_in_frame [of g] uniq_frame [of g] by (auto simp del: fid_in_frame)
  have "rep_ctx dir_format ?V gs (fid g)" using reps(2) out(1) by (rule rep_ctx_upd)
  moreover have "drep ?V t1" "drep ?V t2" using reps(3,4) out(2,3) by (simp_all add: rep_upd)
  moreover have "frame_rest dir_format ?V g"
    using reps(1) out(4) by (intro frame_rest_upd) (simp_all add: rep_frame_def)
  ultimately have "drep ?V T" using p'(2) by (simp add: T_def rep_plug rep_plug2 ar(1))
  moreover have "inb search_key T 0 ktop"
    unfolding T_def inb_plug [OF ctx(1)] using ctx_inb_hole [OF ctx(1)] k b by (intro inb_plug2 [OF ctx(2)])
  moreover have "idm T = frame_idm g + ctx_idm gs + idm t1 + idm t2"
    by (simp add: T_def idm_plug idm_plug2 ac_simps)
  moreover have "tid T = r"
    by (cases gs rule: rev_cases) (simp_all add: T_def r)
  moreover have "num": "inner_num_keys p < 254" using p(2) less length_seps [of p] by (simp add: node_page_def)
  moreover have "ancestors_loop (map fid (g # gs)) k (tid t2) s = Some (Ok (), s2)"
    using s1(1) s2(1) p'(1) num by (simp add: pbind_def lift_def)
  moreover have "dir_header ?V r n0" using hdr fg by (simp add: dir_header_other)
  moreover have "flat T = pre flat (g # gs) @ flat t1 @ flat t2 @ post flat (g # gs)"
    "leaf_ids T = pre leaf_ids (g # gs) @ leaf_ids t1 @ leaf_ids t2 @ post leaf_ids (g # gs)"
    by (simp_all add: T_def flat_plug leaf_ids_plug)
  ultimately show ?thesis using s2(2) u ids hdr(2)
    unfolding grown_def by (intro exI [of _ s2] conjI exI [of _ ?V] exI [of _ n] exI [of _ n0] exI [of _ T]) auto
qed

text \<open>One inner split turns the situation at a frame into the same situation one level up.\<close>

lemma ancestors_split:
  assumes pend: "pending V n (g # gs) t1 k t2" and st: "dst V n r s"
    and p: "V (fid g) = Some p" "node_page DirectoryInner p (frame_lm g (tid t1)) (frame_ss g (tid t1))"
    and full: "length (frame_ss g (tid t1)) = 254" and n: "n \<noteq> 4294967295"
  obtains np p' u km w s' where "split_inner (fid g) p k (tid t2) s = Some (Ok (n, km, p'), s')"
    "dst (V(n \<mapsto> np)) (n + 1) r s'" "tid u = fid g" "tid w = n"
    "pending (V(n \<mapsto> np, fid g \<mapsto> p')) (n + 1) gs u km w"
    "flat u @ flat w = frame_pre flat g @ flat t1 @ flat t2 @ frame_post flat g"
    "leaf_ids u @ leaf_ids w = frame_pre leaf_ids g @ leaf_ids t1 @ leaf_ids t2 @ frame_post leaf_ids g"
proof -
  have ctx: "ctx_inb search_key gs 0 ktop" "frame_inb search_key g (hole_lo gs 0) (hole_hi gs ktop)"
    and k: "frame_lo g (hole_lo gs 0) < unat k" "unat k < frame_hi g (hole_hi gs ktop)"
    and b: "inb search_key t1 (frame_lo g (hole_lo gs 0)) (unat k)" "inb search_key t2 (unat k) (frame_hi g (hole_hi gs ktop))"
    and u: "uniq (frame_idm g + ctx_idm gs + idm t1 + idm t2)"
    and ids: "\<forall>i\<in>#frame_idm g + ctx_idm gs + idm t1 + idm t2. 0 < i \<and> i < n"
    and reps: "rep_frame dir_format V g (tid t1)" "rep_ctx dir_format V gs (fid g)" "drep V t1" "drep V t2"
    using pend by (simp_all add: pending_def)
  note ar = frame_seps_around [OF ctx(2) k]
  obtain np p' s' where run: "split_inner (fid g) p k (tid t2) s =
      Some (Ok (n, fst (frame_ss2 g (tid t1) k (tid t2) ! 127), p'), s')"
    "dst (V(n \<mapsto> np)) (n + 1) r s'"
    "node_page DirectoryInner np (snd (frame_ss2 g (tid t1) k (tid t2) ! 127)) (drop 128 (frame_ss2 g (tid t1) k (tid t2)))"
    "node_page DirectoryInner p' (frame_lm g (tid t1)) (take 127 (frame_ss2 g (tid t1) k (tid t2)))"
    by (rule split_inner_run [OF st p(2) full ar(2) n ar(1) [symmetric]])
  let ?V = "V(n \<mapsto> np, fid g \<mapsto> p')"
  obtain t0 ys where T: "plug2 g t1 k t2 = Node (fid g) t0 ys" by (cases g) simp_all
  have ss: "map sep ys = frame_ss2 g (tid t1) k (tid t2)" "tid t0 = frame_lm g (tid t1)"
    using T by (cases g; auto simp: sep_def)+
  have "length (frame_ss2 g (tid t1) k (tid t2)) = 255"
    using full by (cases g) simp_all
  then have len: "length ys = 255" using arg_cong [OF ss(1), of length] by simp
  have out: "fid g \<notin># ctx_idm gs" "fid g \<notin># idm t1" "fid g \<notin># idm t2" "fid g \<notin># frame_idm g - {#fid g#}"
    using u fid_in_frame [of g] uniq_frame [of g] by (auto simp del: fid_in_frame)
  have nout: "n \<notin># frame_idm g + ctx_idm gs + idm t1 + idm t2" using ids by blast
  then have nfg: "n \<noteq> fid g" by auto
  have "drep ?V t1" "drep ?V t2" using reps(3,4) out nout by (simp_all add: rep_upd)
  moreover have "frame_rest dir_format ?V g"
    using reps(1) out(4) nout by (intro frame_rest_upd) (auto simp: rep_frame_def dest: in_diffD)
  ultimately have kids: "drep ?V t0" "\<forall>s\<in>set ys. drep ?V (snd s)"
    using T by (cases g; auto)+
  have inb2: "inb search_key (Node (fid g) t0 ys) (hole_lo gs 0) (hole_hi gs ktop)"
    unfolding T [symmetric] using ctx_inb_hole [OF ctx(1)] k b by (intro inb_plug2 [OF ctx(2)])
  have pages: "?V (fid g) = Some p'" "?V n = Some np" using nfg by simp_all
  note q = run(4,3) [folded ss]
  obtain v km w where vw: "tid v = fid g" "tid w = n" "km = fst (map sep ys ! 127)" "drep ?V v" "drep ?V w"
    "inb search_key v (hole_lo gs 0) (unat km)" "inb search_key w (unat km) (hole_hi gs ktop)"
    "hole_lo gs 0 < unat km" "unat km < hole_hi gs ktop"
    "flat v @ flat w = flat (Node (fid g) t0 ys)" "leaf_ids v @ leaf_ids w = leaf_ids (Node (fid g) t0 ys)"
    "idm v + idm w = idm (Node (fid g) t0 ys) + {#n#}"
    by (rule node_split [OF kids len pages(1) q(1) pages(2) q(2) inb2])
  have idm2: "ctx_idm gs + idm v + idm w = frame_idm g + ctx_idm gs + idm t1 + idm t2 + {#n#}"
    using vw(12) unfolding T [symmetric] idm_plug2 by (simp add: ac_simps)
  have "rep_ctx dir_format ?V gs (fid g)" using reps(2) out(1) nout by (simp add: rep_ctx_upd)
  moreover have "uniq (ctx_idm gs + idm v + idm w)" unfolding idm2 using u nout by simp
  moreover have "\<forall>i\<in>#ctx_idm gs + idm v + idm w. 0 < i \<and> i < n + 1"
  proof -
    have "n < n + 1" using word_Suc [OF n] by (simp add: word_less_nat_alt)
    moreover have "fid g \<in># frame_idm g + ctx_idm gs + idm t1 + idm t2" by simp
    then have "0 < fid g" "fid g < n" using ids by blast+
    then have "0 < n" by (rule less_trans)
    ultimately show ?thesis unfolding idm2 using ids by (auto intro: less_trans)
  qed
  ultimately have "pending ?V (n + 1) gs v km w"
    using vw ctx(1) unfolding pending_def by simp
  moreover have "flat v @ flat w = frame_pre flat g @ flat t1 @ flat t2 @ frame_post flat g"
    "leaf_ids v @ leaf_ids w = frame_pre leaf_ids g @ leaf_ids t1 @ leaf_ids t2 @ frame_post leaf_ids g"
    using vw(10,11) unfolding T [symmetric] by simp_all
  ultimately show ?thesis using that run(1,2) vw(1-3) unfolding ss(1) [symmetric] by blast
qed

lemma ancestors_run:
  assumes "pending V n gs t1 k t2" "dst V n r s" "r = tid (plug gs t1)" "dir_header V r n0" "n0 \<le> n"
    "unat n + length gs < 2 ^ 32 - 1"
  shows "\<exists>s'. ancestors_loop (map fid gs) k (tid t2) s = Some (Ok (), s') \<and> grown V n gs t1 t2 s'"
  using assms
proof (induction gs arbitrary: V n t1 k t2 s)
  case Nil
  then have "\<exists>s'. ancestors_loop [] k (tid t2) s = Some (Ok (), s') \<and> grown V n [] t1 t2 s'"
    by (intro ancestors_root [of V n t1 k t2 r s n0]) simp_all
  then show ?case by simp
next
  case (Cons g gs)
  have "rep_frame dir_format V g (tid t1)" using Cons.prems(1) by (simp add: pending_def)
  then obtain p where p: "V (fid g) = Some p"
    "node_page DirectoryInner p (frame_lm g (tid t1)) (frame_ss g (tid t1))" by (auto simp: rep_frame_def)
  then have cnt: "inner_num_keys p = length (frame_ss g (tid t1))" "inner_num_keys p \<le> 254"
    using length_seps [of p] by (auto simp: node_page_def page_inv_def)
  show ?case
  proof (cases "length (frame_ss g (tid t1)) < 254")
    case True
    show ?thesis by (rule ancestors_room [OF Cons.prems(1,2) p True Cons.prems(3,4,5)])
  next
    case False
    then have full: "length (frame_ss g (tid t1)) = 254" using cnt by simp
    have n: "n \<noteq> 4294967295" using Cons.prems(6) by auto
    obtain s1 where s1: "read_page (fid g) s = Some (Ok p, s1)" "dst V n r s1"
      by (rule read_page_run [OF Cons.prems(2) p(1)])
    obtain np p' u km w s2 where sp: "split_inner (fid g) p k (tid t2) s1 = Some (Ok (n, km, p'), s2)"
      "dst (V(n \<mapsto> np)) (n + 1) r s2" "tid u = fid g" "tid w = n"
      "pending (V(n \<mapsto> np, fid g \<mapsto> p')) (n + 1) gs u km w"
      "flat u @ flat w = frame_pre flat g @ flat t1 @ flat t2 @ frame_post flat g"
      "leaf_ids u @ leaf_ids w = frame_pre leaf_ids g @ leaf_ids t1 @ leaf_ids t2 @ frame_post leaf_ids g"
      by (rule ancestors_split [OF Cons.prems(1) s1(2) p full n])
    let ?V = "V(n \<mapsto> np, fid g \<mapsto> p')"
    have "drep ?V u" using sp(5) by (simp add: pending_def)
    from drep_is_page [OF this] have pg: "is_page p'" using sp(3) by auto
    obtain s3 where s3: "write_page (fid g) p' s2 = Some (Ok (), s3)" "dst ?V (n + 1) r s3"
      by (rule write_page_run [OF sp(2) pg])
    have fgn: "0 < fid g" "fid g < n" using Cons.prems(1) by (auto simp: pending_def)
    then have n0: "0 < n" by (rule less_trans)
    have n1: "n < n + 1" using word_Suc [OF n] by (simp add: word_less_nat_alt)
    have "tid u = tid (plug1 g t1)" using sp(3) by simp
    then have r: "r = tid (plug gs u)" using Cons.prems(3) tid_plug_cong [of u "plug1 g t1" gs] by simp
    have hdr: "dir_header ?V r n0" using Cons.prems(4) fgn n0 by (simp add: dir_header_other)
    have "\<exists>s'. ancestors_loop (map fid gs) km (tid w) s3 = Some (Ok (), s') \<and> grown ?V (n + 1) gs u w s'"
      using Cons.prems(5,6) n1 word_Suc [OF n]
      by (intro Cons.IH [OF sp(5) s3(2) r hdr]) simp_all
    then obtain s' where s': "ancestors_loop (map fid gs) km n s3 = Some (Ok (), s')" "grown ?V (n + 1) gs u w s'"
      using sp(4) by blast
    have "ancestors_loop (map fid (g # gs)) k (tid t2) s = Some (Ok (), s')"
      using s1(1) sp(1) s3(1) s'(1) cnt(1) full by (simp add: pbind_def)
    moreover have "grown V n (g # gs) t1 t2 s'"
    proof -
      obtain V' n' h T where T: "dst V' n' (tid T) s'" "drep V' T" "inb search_key T 0 ktop" "uniq (idm T)"
        "\<forall>i\<in>#idm T. 0 < i \<and> i < n'" "n + 1 \<le> n'" "dir_header V' (tid T) h" "h \<le> n'"
        "flat T = pre flat gs @ flat u @ flat w @ post flat gs"
        "leaf_ids T = pre leaf_ids gs @ leaf_ids u @ leaf_ids w @ post leaf_ids gs"
        "\<forall>i. i \<noteq> 0 \<and> i \<notin> fid ` set gs \<and> i < n + 1 \<longrightarrow> V' i = ?V i"
        using s'(2) unfolding grown_def by blast
      have "flat T = pre flat (g # gs) @ flat t1 @ flat t2 @ post flat (g # gs)"
        "leaf_ids T = pre leaf_ids (g # gs) @ leaf_ids t1 @ leaf_ids t2 @ post leaf_ids (g # gs)"
        unfolding T(9,10) using sp(6,7) by (simp_all add: append_assoc [symmetric] del: append_assoc)
      moreover have "\<forall>i. i \<noteq> 0 \<and> i \<notin> fid ` set (g # gs) \<and> i < n \<longrightarrow> V' i = V i"
        using T(11) n1 by (auto intro: less_trans)
      moreover have "n \<le> n'" using T(6) n1 by simp
      ultimately show ?thesis unfolding grown_def using T(1-5,7,8) by blast
    qed
    ultimately show ?thesis by blast
  qed
qed

end
