(* ===== verification/DirSpec.thy ===== *)
theory DirSpec
  imports DirTree
begin

text \<open>
  The contract of the page directory: it is a finite map from logical to physical page ids. The
  relation \<open>dir_rep\<close> between a state and a map, and for each operation what it answers and
  which map it leaves, errors included.
\<close>

section \<open>A directory state represents a map\<close>

definition dir_rep :: "dir \<Rightarrow> (u32 \<rightharpoonup> ppage_id) \<Rightarrow> bool" where
  "dir_rep s m \<longleftrightarrow> (\<exists>V n r h. dst V n r s \<and> dir_header V r h \<and> h \<le> n \<and> 0 < n \<and>
     (if r = 0 then m = Map.empty else \<exists>t. r = tid t \<and> wf_tree V n t \<and> m = tmap t))"

text \<open>The leaf a key belongs to, with all that is known of it.\<close>

definition located :: "pages \<Rightarrow> u32 \<Rightarrow> directory_leaf_entry frame list \<Rightarrow> u32 \<Rightarrow> directory_leaf_entry list \<Rightarrow> page \<Rightarrow> u64 \<Rightarrow> bool" where
  "located V n gs i es p k \<longleftrightarrow> wf_tree V n (plug gs (Leaf i es)) \<and> V i = Some p \<and> leaf_page dl_layout DirectoryLeaf p es \<and>
     0 < i \<and> i < n \<and> ctx_inb search_key gs 0 ktop \<and> hole_lo gs 0 \<le> unat k \<and> unat k < hole_hi gs ktop \<and>
     (\<forall>e\<in>set es. hole_lo gs 0 \<le> unat (search_key e) \<and> unat (search_key e) < hole_hi gs ktop \<and> small_key e) \<and>
     k \<notin> search_key ` set (pre flat gs) \<and> k \<notin> search_key ` set (post flat gs)"

lemma locate:
  assumes wf: "wf_tree V n t" and st: "dst V c (tid t) s"
  obtains gs i es p s' where "t = plug gs (Leaf i es)" "located V n gs i es p k" "dst V c (tid t) s'"
    "find_leaf k s = Some (Ok i, s')" "find_leaf_with_path k s = Some (Ok (i, rev (map fid gs)), s')"
proof -
  have w: "drep V t" "inb search_key t 0 ktop" "\<forall>i\<in>#idm t. 0 < i \<and> i < n" "\<forall>e\<in>set (flat t). small_key e"
    using wf by (simp_all add: wf_tree_def)
  have kb: "0 \<le> unat k" "unat k < ktop" using unat_bound [of k] by simp_all
  obtain gs i es s' where f: "t = plug gs (Leaf i es)" "find_leaf_loop k (tid t) s = Some (Ok i, s')" "dst V c (tid t) s'"
    "\<And>path. find_path_loop k (tid t) path s = Some (Ok (i, path @ rev (map fid gs)), s')"
    "hole_lo gs 0 \<le> unat k" "unat k < hole_hi gs ktop"
    using find_leaf_run [OF w(1,2) kb st] by blast
  have "tid t \<in># idm t" by (simp add: set_idm)
  with w(3) have r0: "tid t \<noteq> 0" by auto
  have root: "droot s = tid t" using st by (simp add: dst_def)
  have fl: "find_leaf k s = Some (Ok i, s')" "find_leaf_with_path k s = Some (Ok (i, rev (map fid gs)), s')"
    using f(2) f(4) [of "[]"] r0 root by (simp_all add: find_leaf_def find_leaf_with_path_def)
  have ctx: "ctx_inb search_key gs 0 ktop" using ctx_of_inb [of 0 ktop search_key gs] w(2) f(1) by simp
  have lf: "inb search_key (Leaf i es) (hole_lo gs 0) (hole_hi gs ktop)" using inb_plug [OF ctx] w(2) f(1) by simp
  have "drep V (Leaf i es)" using w(1) f(1) rep_plug [of dir_format V gs "Leaf i es"] by simp
  then obtain p where p: "V i = Some p" "leaf_page dl_layout DirectoryLeaf p es" by auto
  have ids: "0 < i" "i < n" using w(3) f(1) by (simp_all add: idm_plug)
  have small: "\<forall>e\<in>set es. small_key e" using w(4) f(1) by (simp add: flat_plug)
  note o = ctx_outside [OF ctx]
  have "k \<notin> search_key ` set (pre flat gs)" "k \<notin> search_key ` set (post flat gs)"
    using o f(5,6) by fastforce+
  then have "located V n gs i es p k" using wf f ctx lf p ids small by (simp add: located_def)
  with that f fl show ?thesis by blast
qed

lemma located_map:
  "located V n gs i es p (ucast l) \<Longrightarrow> tmap (plug gs (Leaf i es)) l = map_option to_ppage_id (find_entry search_key (ucast l) es)"
  by (simp add: tmap_def flat_plug find_in_leaf located_def)

lemma located_leaf_map: "located V n gs i es p (ucast l) \<Longrightarrow> tmap (plug gs (Leaf i es)) l = dl_map p (ucast l)"
  by (simp add: located_map dl_map_def) (simp add: located_def leaf_page_def)

section \<open>Changing one leaf\<close>

lemma leaf_write:
  assumes loc: "located V n gs i es p k"
    and p': "leaf_page dl_layout DirectoryLeaf p' es'" "leaf_prev_page p' = leaf_prev_page p" "leaf_next_page p' = leaf_next_page p"
    and es': "\<forall>e\<in>set es'. hole_lo gs 0 \<le> unat (search_key e) \<and> unat (search_key e) < hole_hi gs ktop \<and> small_key e"
  shows "wf_tree (V(i \<mapsto> p')) n (plug gs (Leaf i es'))"
proof -
  let ?V = "V(i \<mapsto> p')"
  have wf: "drep V (plug gs (Leaf i es))" "uniq (ctx_idm gs + {#i#})" "\<forall>j\<in>#ctx_idm gs + {#i#}. 0 < j \<and> j < n"
    "chain V 0 (pre leaf_ids gs @ [i] @ post leaf_ids gs) 0"
    "\<forall>e\<in>set (pre flat gs @ es @ post flat gs). small_key e"
    and ctx: "ctx_inb search_key gs 0 ktop" and p: "V i = Some p"
    using loc by (simp_all add: located_def wf_tree_def idm_plug leaf_ids_plug flat_plug)
  have out: "i \<notin># ctx_idm gs" using wf(2) by simp
  have "drep ?V (plug gs (Leaf i es'))"
    using wf(1) out p'(1) by (simp add: rep_plug rep_ctx_upd)
  moreover have "sorted_by search_key es'" using p'(1) by (auto simp: leaf_page_def page_inv_def)
  then have "inb search_key (plug gs (Leaf i es')) 0 ktop" unfolding inb_plug [OF ctx] using es' by simp
  moreover have "chain ?V 0 (leaf_ids (plug gs (Leaf i es'))) 0"
    using chain_upd [OF p p'(2,3) wf(4)] by (simp add: leaf_ids_plug)
  moreover have "uniq (idm (plug gs (Leaf i es')))" "\<forall>j\<in>#idm (plug gs (Leaf i es')). 0 < j \<and> j < n"
    using wf(2,3) by (simp_all add: idm_plug)
  moreover have "\<forall>e\<in>set (flat (plug gs (Leaf i es'))). small_key e"
    using wf(5) es' by (auto simp: flat_plug)
  ultimately show ?thesis by (simp add: wf_tree_def)
qed

text \<open>What an operation on the leaf's map does to the map of the tree.\<close>

lemma tmap_leaf_change:
  assumes loc: "located V n gs i es p (ucast l)"
    and f: "\<And>x. find_entry search_key x es' = (if x = ucast l then v else find_entry search_key x es)"
  shows "tmap (plug gs (Leaf i es')) = (tmap (plug gs (Leaf i es)))(l := map_option to_ppage_id v)"
proof
  fix x :: u32
  have out: "(ucast l :: u64) \<notin> search_key ` set (pre flat gs)" "(ucast l :: u64) \<notin> search_key ` set (post flat gs)"
    using loc by (simp_all add: located_def)
  have eq: "(ucast x :: u64) = ucast l \<longleftrightarrow> x = l"
    by (rule ucast_inj_wide) simp
  show "tmap (plug gs (Leaf i es')) x = ((tmap (plug gs (Leaf i es)))(l := map_option to_ppage_id v)) x"
    unfolding tmap_def flat_plug flat.simps find_replace [OF out f] by (simp add: eq)
qed

section \<open>The operations\<close>

text \<open>Unpacking the representation of a tree that is not empty.\<close>

lemma dir_rep_cases:
  assumes "dir_rep s m"
  obtains (empty) V n h where "dst V n 0 s" "dir_header V 0 h" "h \<le> n" "0 < n" "m = Map.empty"
  | (tree) V n h t where "dst V n (tid t) s" "dir_header V (tid t) h" "h \<le> n" "0 < n" "wf_tree V n t" "m = tmap t"
      "tid t \<noteq> 0"
proof -
  obtain V n r h where d: "dst V n r s" "dir_header V r h" "h \<le> n" "0 < n"
    "if r = 0 then m = Map.empty else \<exists>t. r = tid t \<and> wf_tree V n t \<and> m = tmap t"
    using assms unfolding dir_rep_def by blast
  show ?thesis
  proof (cases "r = 0")
    case True
    with d empty show ?thesis by simp
  next
    case False
    then obtain t where "r = tid t" "wf_tree V n t" "m = tmap t" using d(5) by auto
    with d False tree show ?thesis by blast
  qed
qed

lemma dir_rep_tree:
  "dst V n (tid t) s \<Longrightarrow> dir_header V (tid t) h \<Longrightarrow> h \<le> n \<Longrightarrow> 0 < n \<Longrightarrow> wf_tree V n t \<Longrightarrow> dir_rep s (tmap t)"
proof -
  assume a: "dst V n (tid t) s" "dir_header V (tid t) h" "h \<le> n" "0 < n" "wf_tree V n t"
  have "tid t \<in># idm t" by (simp add: set_idm)
  with a(5) have "tid t \<noteq> 0" by (auto simp: wf_tree_def)
  with a show ?thesis unfolding dir_rep_def
    by (intro exI [of _ V] exI [of _ n] exI [of _ "tid t"] exI [of _ h] conjI) auto
qed

abbreviation answer :: "(u32 \<rightharpoonup> ppage_id) \<Rightarrow> u32 \<Rightarrow> (dir_error, ppage_id) outcome" where
  "answer m l \<equiv> (case m l of Some pp \<Rightarrow> Ok pp | None \<Rightarrow> Err (PageNotFound l))"

text \<open>A search needs the tree and the root, not the counter.\<close>

lemma lookup_tree:
  assumes wf: "wf_tree V n t" and st: "dst V c (tid t) s"
  obtains s' where "lookup l s = Some (answer (tmap t) l, s')" "dst V c (tid t) s'"
proof -
  have "tid t \<in># idm t" by (simp add: set_idm)
  with wf have r0: "tid t \<noteq> 0" by (auto simp: wf_tree_def)
  obtain gs i es p s1 where loc: "t = plug gs (Leaf i es)" "located V n gs i es p (ucast l)" "dst V c (tid t) s1"
    "find_leaf (ucast l) s = Some (Ok i, s1)" by (rule locate [OF wf st])
  have p: "V i = Some p" "dl_inv p" using loc(2) by (simp_all add: located_def leaf_page_def)
  obtain s2 where s2: "read_page i s1 = Some (Ok p, s2)" "dst V c (tid t) s2" by (rule read_page_run [OF loc(3) p(1)])
  have "tmap t l = dl_map p (ucast l)" using located_leaf_map [OF loc(2)] loc(1) by simp
  then have "lookup l s = Some (answer (tmap t) l, s2)"
    using st r0 loc(4) s2(1) dl_lookup_spec [OF p(2)]
    by (auto simp: lookup_def gets_def dst_root pbind_def lift_def ret_def fail_def simp del: dl_map_None split: option.split)
  with that s2(2) show ?thesis by blast
qed

lemma lookup_rep:
  assumes "dir_rep s m"
  shows "\<exists>s'. lookup l s = Some (answer m l, s') \<and> dir_rep s' m \<and> dnext s' = dnext s"
  using assms
proof (cases rule: dir_rep_cases)
  case (empty V n h)
  then show ?thesis using assms by (simp add: lookup_def fail_def dst_root)
next
  case (tree V n h t)
  obtain s' where "lookup l s = Some (answer (tmap t) l, s')" "dst V n (tid t) s'"
    by (rule lookup_tree [OF tree(5,1)])
  moreover from this(2) have "dir_rep s' (tmap t)" "dnext s' = dnext s" using tree by (auto intro: dir_rep_tree simp: dst_def)
  ultimately show ?thesis using tree(6) by blast
qed

lemma leaf_writable:
  assumes "same_leaf_header p p'" "dl_inv p'" "leaf_page dl_layout DirectoryLeaf p es"
  shows "leaf_page dl_layout DirectoryLeaf p' (entries dl_layout p')" "leaf_prev_page p' = leaf_prev_page p"
    "leaf_next_page p' = leaf_next_page p"
  using assms by (simp_all add: same_leaf_header_def leaf_page_def)

lemma find_entry_dl: "dl_inv p \<Longrightarrow> find_entry search_key x (entries dl_layout p) = key_map dl_layout p x"
  by (simp add: key_map_def)

text \<open>An entry of a leaf that a map change left is an old one or the new one.\<close>

lemma entries_of_map:
  assumes "dl_inv p'" "key_map dl_layout p' = (key_map dl_layout p)(k := v)" "dl_inv p" "e \<in> set (entries dl_layout p')"
  shows "e \<in> set (entries dl_layout p) \<or> v = Some e"
proof -
  have so: "sorted_by search_key (entries dl_layout p)" "sorted_by search_key (entries dl_layout p')"
    using assms(1,3) by (simp_all add: page_inv_def)
  have "key_map dl_layout p' (search_key e) = Some e"
    using find_entry_Some_iff [OF so(2)] assms(4) by (simp add: key_map_def)
  then consider "v = Some e" | "key_map dl_layout p (search_key e) = Some e"
    using assms(2) by (auto split: if_splits)
  then show ?thesis
  proof cases
    case 2
    then show ?thesis using find_entry_Some_iff [OF so(1)] by (simp add: key_map_def)
  qed simp
qed

text \<open>The common end of the operations that change one leaf in place.\<close>

lemma leaf_op_rep:
  assumes tree: "dst V n (tid t) s" "dir_header V (tid t) h" "h \<le> n" "0 < n"
    and loc: "t = plug gs (Leaf i es)" "located V n gs i es p (ucast l)"
    and p': "dl_inv p'" "same_leaf_header p p'" "key_map dl_layout p' = (key_map dl_layout p)(ucast l := v)"
    and v: "\<And>e. v = Some e \<Longrightarrow> search_key e = ucast l \<and> small_key e"
  shows "\<exists>s'. write_page i p' s = Some (Ok (), s') \<and> dir_rep s' ((tmap t)(l := map_option to_ppage_id v))"
proof -
  let ?es = "entries dl_layout p'"
  have p: "dl_inv p" "leaf_page dl_layout DirectoryLeaf p es" "entries dl_layout p = es" "0 < i"
    using loc(2) by (simp_all add: located_def leaf_page_def)
  have "is_page p'" using p'(1) by (simp add: page_inv_def)
  then obtain s' where s': "write_page i p' s = Some (Ok (), s')" "dst (V(i \<mapsto> p')) n (tid t) s'"
    by (rule write_page_run [OF tree(1)])
  note w = leaf_writable [OF p'(2,1) p(2)]
  have ents: "\<forall>e\<in>set ?es. hole_lo gs 0 \<le> unat (search_key e) \<and> unat (search_key e) < hole_hi gs ktop \<and> small_key e"
  proof
    fix e assume "e \<in> set ?es"
    then have "e \<in> set es \<or> v = Some e" using entries_of_map [OF p'(1,3) p(1)] p(3) by simp
    then show "hole_lo gs 0 \<le> unat (search_key e) \<and> unat (search_key e) < hole_hi gs ktop \<and> small_key e"
      using loc(2) v [of e] by (auto simp: located_def)
  qed
  have "wf_tree (V(i \<mapsto> p')) n (plug gs (Leaf i ?es))" by (rule leaf_write [OF loc(2) w ents])
  moreover have tid: "tid (plug gs (Leaf i ?es)) = tid t" unfolding loc(1) by (rule tid_plug_cong) simp
  moreover have "tmap (plug gs (Leaf i ?es)) = (tmap t)(l := map_option to_ppage_id v)"
    unfolding loc(1)
  proof (rule tmap_leaf_change [OF loc(2)])
    fix x
    have "find_entry search_key x ?es = key_map dl_layout p' x" using p'(1) by (rule find_entry_dl)
    also have "\<dots> = (if x = ucast l then v else key_map dl_layout p x)" by (simp add: p'(3))
    also have "key_map dl_layout p x = find_entry search_key x es" using find_entry_dl [OF p(1), of x] p(3) by simp
    finally show "find_entry search_key x ?es = (if x = ucast l then v else find_entry search_key x es)" .
  qed
  moreover have "dir_header (V(i \<mapsto> p')) (tid t) h" using tree(2) p(4) by (simp add: dir_header_other)
  ultimately have "dir_rep s' ((tmap t)(l := map_option to_ppage_id v))"
    using dir_rep_tree [of "V(i \<mapsto> p')" n "plug gs (Leaf i ?es)" s' h] s'(2) tree(3,4) by simp
  with s'(1) show ?thesis by blast
qed

lemma update_rep:
  assumes rep: "dir_rep s m" and al: "page_aligned pp"
  shows "\<exists>s'. update_page l pp s = Some (if m l = None then Err (PageNotFound l) else Ok (), s') \<and>
    dir_rep s' (if m l = None then m else m(l \<mapsto> pp))"
  using rep
proof (cases rule: dir_rep_cases)
  case (empty V n h)
  then show ?thesis using rep by (simp add: update_page_def fail_def dst_root)
next
  case (tree V n h t)
  obtain gs i es p s1 where loc: "t = plug gs (Leaf i es)" "located V n gs i es p (ucast l)" "dst V n (tid t) s1"
    "find_leaf (ucast l) s = Some (Ok i, s1)" by (rule locate [OF tree(5,1)])
  have p: "V i = Some p" "dl_inv p" using loc(2) by (simp_all add: located_def leaf_page_def)
  obtain s2 where s2: "read_page i s1 = Some (Ok p, s2)" "dst V n (tid t) s2" by (rule read_page_run [OF loc(3) p(1)])
  have ml: "m l = dl_map p (ucast l)" using located_leaf_map [OF loc(2)] loc(1) tree(6) by simp
  have root: "droot s \<noteq> 0" using tree(1,7) by (simp add: dst_root)
  let ?e = "from_ppage_id l pp"
  show ?thesis
  proof (cases "m l = None")
    case True
    then have "dl_update_entry l pp p = Ok (False, p)"
      using dleaf.update_absent_map [OF p(2), of ?e] ml by (simp add: dl_update_entry_def)
    then have "update_page l pp s = Some (Err (PageNotFound l), s2)"
      using root loc(4) s2(1) by (simp add: update_page_def gets_def pbind_def lift_def fail_def)
    moreover have "dir_rep s2 m" unfolding tree(6) using s2(2) tree by (intro dir_rep_tree) simp_all
    ultimately show ?thesis using True by simp
  next
    case False
    then have old: "key_map dl_layout p (key_of dl_layout ?e) \<noteq> None" using ml by simp
    obtain p' where p': "page_update dl_layout ?e p = Ok (True, p')" "dl_inv p'" "same_header dl_layout p p'"
      "key_map dl_layout p' = (key_map dl_layout p)(key_of dl_layout ?e \<mapsto> ?e)"
      by (rule dleaf.update_map [OF p(2) old])
    have "\<exists>s'. write_page i p' s2 = Some (Ok (), s') \<and> dir_rep s' ((tmap t)(l := map_option to_ppage_id (Some ?e)))"
      using p' dl_same_header [OF p'(3) p(2) p'(2)] by (intro leaf_op_rep [OF s2(2) tree(2,3,4) loc(1,2)]) auto
    then obtain s3 where "write_page i p' s2 = Some (Ok (), s3)" "dir_rep s3 (m(l \<mapsto> pp))"
      using tree(6) ppage_roundtrip [OF al, of l] by auto
    moreover have "dl_update_entry l pp p = Ok (True, p')" using p'(1) by (simp add: dl_update_entry_def)
    ultimately show ?thesis
      using False root loc(4) s2(1) by (simp add: update_page_def gets_def pbind_def lift_def)
  qed
qed

lemma delete_rep:
  assumes rep: "dir_rep s m"
  shows "\<exists>s'. delete_page l s = Some (if m l = None then Err (PageNotFound l) else Ok (), s') \<and> dir_rep s' (m(l := None))"
  using rep
proof (cases rule: dir_rep_cases)
  case (empty V n h)
  then show ?thesis using rep by (simp add: delete_page_def fail_def dst_root)
next
  case (tree V n h t)
  obtain gs i es p s1 where loc: "t = plug gs (Leaf i es)" "located V n gs i es p (ucast l)" "dst V n (tid t) s1"
    "find_leaf (ucast l) s = Some (Ok i, s1)" by (rule locate [OF tree(5,1)])
  have p: "V i = Some p" "dl_inv p" using loc(2) by (simp_all add: located_def leaf_page_def)
  obtain s2 where s2: "read_page i s1 = Some (Ok p, s2)" "dst V n (tid t) s2" by (rule read_page_run [OF loc(3) p(1)])
  have ml: "m l = dl_map p (ucast l)" using located_leaf_map [OF loc(2)] loc(1) tree(6) by simp
  have root: "droot s \<noteq> 0" using tree(1,7) by (simp add: dst_root)
  show ?thesis
  proof (cases "m l = None")
    case True
    then have "dl_delete_by_key (ucast l) p = Ok (False, p)"
      using dleaf.delete_absent_map [OF p(2), of "ucast l"] ml by (simp add: dl_delete_by_key_def)
    then have "delete_page l s = Some (Err (PageNotFound l), s2)"
      using root loc(4) s2(1) by (simp add: delete_page_def gets_def pbind_def lift_def fail_def)
    moreover have "dir_rep s2 m" unfolding tree(6) using s2(2) tree by (intro dir_rep_tree) simp_all
    moreover have "m(l := None) = m" using True by auto
    ultimately show ?thesis using True by simp
  next
    case False
    then have old: "key_map dl_layout p (ucast l) \<noteq> None" using ml by simp
    obtain p' where p': "page_delete_by_key dl_layout (ucast l) p = Ok (True, p')" "dl_inv p'" "same_header dl_layout p p'"
      "key_map dl_layout p' = (key_map dl_layout p)(ucast l := None)"
      by (rule dleaf.delete_map [OF p(2) old])
    have "\<exists>s'. write_page i p' s2 = Some (Ok (), s') \<and> dir_rep s' ((tmap t)(l := map_option to_ppage_id None))"
      using p' dl_same_header [OF p'(3) p(2) p'(2)] by (intro leaf_op_rep [OF s2(2) tree(2,3,4) loc(1,2)]) simp_all
    then obtain s3 where "write_page i p' s2 = Some (Ok (), s3)" "dir_rep s3 (m(l := None))"
      using tree(6) by auto
    moreover have "dl_delete_by_key (ucast l) p = Ok (True, p')" using p'(1) by (simp add: dl_delete_by_key_def)
    ultimately show ?thesis
      using False root loc(4) s2(1) by (simp add: delete_page_def gets_def pbind_def lift_def)
  qed
qed

section \<open>Adding a page\<close>

text \<open>The first page of an empty directory.\<close>

lemma add_first:
  assumes st: "dst V n 0 s" and hdr: "dir_header V 0 h" and n: "0 < n" "n \<noteq> 4294967295" and al: "page_aligned pp"
  shows "\<exists>s'. add_page l pp s = Some (Ok (), s') \<and> dir_rep s' [l \<mapsto> pp] \<and> dnext s' = n + 1"
proof -
  let ?e = "from_ppage_id l pp"
  obtain s1 where s1: "alloc_dir_page s = Some (Ok n, s1)" "dst V (n + 1) 0 s1" by (rule alloc_run [OF st n(2)])
  have "insert_entries [(l, pp)] (dl_init zero_page n) = Ok p \<Longrightarrow> dl_insert_entry l pp (dl_init zero_page n) = Ok p" for p
    by (simp add: insert_entries_def)
  then obtain p where p: "dl_insert_entry l pp (dl_init zero_page n) = Ok p" "leaf_page dl_layout DirectoryLeaf p [?e]"
    "leaf_prev_page p = 0" "leaf_next_page p = 0"
  proof -
    note f = fresh_leaf_page [of zero_page n, OF zero_page_is_page]
    obtain p where p: "insert_entries [(l, pp)] (dl_init zero_page n) = Ok p"
      "leaf_page dl_layout DirectoryLeaf p ([] @ map mk_entry [(l, pp)])"
      by (rule insert_entries_run [OF f, of "[(l, pp)]"]) simp_all
    have i: "dl_inv (dl_init zero_page n)" "leaf_num_entries (dl_init zero_page n) = 0"
      "leaf_next_page (dl_init zero_page n) = 0" "leaf_prev_page (dl_init zero_page n) = 0"
      "dl_map (dl_init zero_page n) = Map.empty"
      using dl_init_inv [of zero_page n, OF zero_page_is_page] by simp_all
    have d: "dl_insert_entry l pp (dl_init zero_page n) = Ok p" using p(1) by (simp add: insert_entries_def)
    with dl_insert_entry_spec [OF i(1) al, of l] i have "same_leaf_header (dl_init zero_page n) p" by auto
    with that d p(2) i show ?thesis by (simp add: same_leaf_header_def mk_entry_def)
  qed
  obtain s2 where s2: "write_page n p s1 = Some (Ok (), s2)" "dst (V(n \<mapsto> p)) (n + 1) 0 s2"
    by (rule write_page_run [OF s1(2) is_page_leaf [OF p(2)]])
  have n0: "n \<noteq> 0" using n(1) by simp
  then have "dir_header (V(n \<mapsto> p)) 0 h" using hdr by (simp add: dir_header_other)
  then obtain s3 q where s3: "set_root_page n s2 = Some (Ok (), s3)" "dst (V(n \<mapsto> p, 0 \<mapsto> q)) (n + 1) n s3"
    "dir_header (V(n \<mapsto> p, 0 \<mapsto> q)) n (n + 1)" by (rule set_root_run [OF s2(2)])
  let ?t = "Leaf n [?e] :: directory_leaf_entry tree"
  have n1: "n < n + 1" using word_Suc [OF n(2)] by (simp add: word_less_nat_alt)
  have "wf_tree (V(n \<mapsto> p, 0 \<mapsto> q)) (n + 1) ?t"
    using p n0 n1 n(1) unat_bound [of "search_key ?e"] by (simp add: wf_tree_def)
  moreover have "0 < n + 1" using n(1) n1 by (rule less_trans)
  ultimately have "dir_rep s3 (tmap ?t)" using s3(2,3) dir_rep_tree [of _ "n + 1" ?t s3 "n + 1"] by simp
  moreover have "tmap ?t = [l \<mapsto> pp]"
  proof
    fix x :: u32
    have "(ucast x :: u64) = ucast l \<longleftrightarrow> x = l"
      by (rule ucast_inj_wide) simp
    then show "tmap ?t x = [l \<mapsto> pp] x" using ppage_roundtrip [OF al, of l] by (simp add: tmap_def find_entry_Cons find_entry_def)
  qed
  moreover have "add_page l pp s = Some (Ok (), s3)"
    using st s1(1) p(1) s2(1) s3(1) by (simp add: add_page_def gets_def pbind_def lift_def dst_root)
  moreover have "dnext s3 = n + 1" using s3(2) by (simp add: dst_def)
  ultimately show ?thesis by auto
qed

lemma add_to_empty:
  assumes "dir_rep s m" "droot s = 0" "dnext s \<noteq> 4294967295" "page_aligned pp"
  shows "\<exists>s'. add_page l pp s = Some (Ok (), s') \<and> dir_rep s' [l \<mapsto> pp] \<and> dnext s' = dnext s + 1"
  using assms(1)
proof (cases rule: dir_rep_cases)
  case (empty V n h)
  with add_first [OF empty(1,2,4) _ assms(4), of l] assms(3) show ?thesis by (auto simp: dst_def)
next
  case (tree V n h t)
  then show ?thesis using assms(2) by (simp add: dst_root)
qed

text \<open>The right sibling of a leaf is another leaf of the tree.\<close>

lemma sibling:
  assumes loc: "located V n gs i es p k" and nx: "leaf_next_page p \<noteq> 0"
  obtains q fs where "V (leaf_next_page p) = Some q" "leaf_page dl_layout DirectoryLeaf q fs"
    "leaf_next_page p \<in># ctx_idm gs" "leaf_next_page p \<notin> fid ` set gs" "leaf_next_page p \<noteq> i" "leaf_next_page p < n"
proof -
  have wf: "drep V (plug gs (Leaf i es))" "uniq (ctx_idm gs + {#i#})" "\<forall>j\<in>#ctx_idm gs + {#i#}. 0 < j \<and> j < n"
    "chain V 0 (pre leaf_ids gs @ [i] @ post leaf_ids gs) 0" and p: "V i = Some p"
    using loc by (simp_all add: located_def wf_tree_def idm_plug leaf_ids_plug)
  have "chain V (last_or (pre leaf_ids gs) 0) (i # post leaf_ids gs) 0"
    using wf(4) by (simp add: chain_append)
  then have h: "leaf_next_page p = head_or (post leaf_ids gs) 0"
    using p by (simp add: chain_Cons del: chain.simps(2))
  then obtain R where R: "post leaf_ids gs = leaf_next_page p # R" using nx by (cases "post leaf_ids gs") auto
  then have mem: "leaf_next_page p \<in> set (leaf_ids (plug gs (Leaf i es)))" by (simp add: leaf_ids_plug)
  obtain q fs where q: "V (leaf_next_page p) = Some q" "leaf_page dl_layout DirectoryLeaf q fs"
    using leaf_ids_rep [OF wf(1) mem] by auto
  have u: "uniq (ctx_idm gs)" "i \<notin># ctx_idm gs" using wf(2) by simp_all
  have "leaf_next_page p \<in># ctx_idm gs \<and> leaf_next_page p \<notin> fid ` set gs"
    using ctx_leaf_ids [OF u(1)] R by simp
  with that q u(2) wf(3) show ?thesis by auto
qed

text \<open>After the split of a leaf the tree is in the situation from which the ancestors are repaired.\<close>

lemma split_pending:
  assumes loc: "located V n gs i es p k" and e: "search_key e = k" and new: "k \<notin> search_key ` set es"
    and len: "length es = 253" and es': "es' = insert_sorted search_key e es"
    and pages: "leaf_page dl_layout DirectoryLeaf np (drop 127 es')" "leaf_page dl_layout DirectoryLeaf p' (take 127 es')"
    and sib: "leaf_next_page p \<noteq> 0 \<Longrightarrow> V (leaf_next_page p) = Some q"
    and W: "W = (if leaf_next_page p = 0 then V(n \<mapsto> np) else V(n \<mapsto> np, leaf_next_page p \<mapsto> leaf_set_prev_page n q))(i \<mapsto> p')"
    and n: "n \<noteq> 4294967295"
  shows "pending W (n + 1) gs (Leaf i (take 127 es')) (search_key (es' ! 127)) (Leaf n (drop 127 es'))"
proof -
  have ctx: "ctx_inb search_key gs 0 ktop" and kb: "hole_lo gs 0 \<le> unat k" "unat k < hole_hi gs ktop"
    and eb: "\<forall>e\<in>set es. hole_lo gs 0 \<le> unat (search_key e) \<and> unat (search_key e) < hole_hi gs ktop"
    and i: "0 < i" "i < n" and lp: "leaf_page dl_layout DirectoryLeaf p es"
    and wf: "rep_ctx dir_format V gs i" "uniq (ctx_idm gs + {#i#})" "\<forall>j\<in>#ctx_idm gs + {#i#}. 0 < j \<and> j < n"
    using loc by (simp_all add: located_def wf_tree_def idm_plug rep_plug)
  have nout: "n \<notin># ctx_idm gs + {#i#}" using wf(3) by blast
  have nx: "leaf_next_page p \<noteq> n" "leaf_next_page p \<noteq> i" if "leaf_next_page p \<noteq> 0"
    using sibling [OF loc that] nout by (metis union_iff)+
  have "improves dir_format V W j" if "j \<in># ctx_idm gs" for j
  proof (cases "j = leaf_next_page p \<and> leaf_next_page p \<noteq> 0")
    case True
    obtain q' fs where q': "V (leaf_next_page p) = Some q'" "leaf_page dl_layout DirectoryLeaf q' fs"
      using sibling [OF loc] True by metis
    then have q: "q' = q" using sib True by simp
    have ni: "\<not> node_page DirectoryInner q lm ss" for lm ss using q'(2) q by (auto simp: leaf_page_def node_page_def)
    have "W j = Some (leaf_set_prev_page n q)" using True nx by (simp add: W)
    with True q' q ni show ?thesis by (auto simp: improves_def intro: leaf_page_links)
  next
    case False
    then have "W j = V j" using that nout wf(2) by (auto simp: W)
    then show ?thesis by (rule improves_same)
  qed
  then have "rep_ctx dir_format W gs i" using wf(1) by (intro rep_ctx_improves [of gs dir_format V W]) auto
  moreover have "W i = Some p'" "W n = Some np" using i nx by (auto simp: W)
  then have "drep W (Leaf i (take 127 es'))" "drep W (Leaf n (drop 127 es'))" using pages by simp_all
  moreover have "sorted_by search_key es" using lp by (auto simp: leaf_page_def page_inv_def)
  then have sorted: "sorted_by search_key es'" unfolding es' using new e by (intro sorted_insert_sorted) simp_all
  have lens: "length es' = 254" using len by (simp add: es')
  have b': "\<forall>x\<in>set es'. hole_lo gs 0 \<le> unat (search_key x) \<and> unat (search_key x) < hole_hi gs ktop"
    using eb kb e by (auto simp: es')
  have lt: "unat (search_key x) < unat (search_key (es' ! 127))" if x: "x \<in> set (take 127 es')" for x
  proof -
    from x obtain j where "j < 127" "x = es' ! j" by (auto simp: in_set_conv_nth)
    with sorted_by_nth [OF sorted, of j 127] lens show ?thesis by (simp add: word_less_nat_alt)
  qed
  have ge: "unat (search_key (es' ! 127)) \<le> unat (search_key x)" if x: "x \<in> set (drop 127 es')" for x
  proof -
    from x obtain j where j: "j < 127" "x = es' ! (127 + j)" using lens by (auto simp: in_set_conv_nth)
    show ?thesis
    proof (cases "j = 0")
      case False
      with sorted_by_nth [OF sorted, of 127 "127 + j"] lens j show ?thesis by (simp add: word_less_nat_alt)
    qed (simp add: j)
  qed
  have mem: "es' ! 0 \<in> set (take 127 es')" "es' ! 127 \<in> set es'"
    using lens nth_mem [of 0 "take 127 es'"] by simp_all
  then have "hole_lo gs 0 < unat (search_key (es' ! 127))" "unat (search_key (es' ! 127)) < hole_hi gs ktop"
    using lt [OF mem(1)] b' in_set_takeD [OF mem(1)] by (auto intro: le_less_trans)
  moreover have "inb search_key (Leaf i (take 127 es')) (hole_lo gs 0) (unat (search_key (es' ! 127)))"
    "inb search_key (Leaf n (drop 127 es')) (unat (search_key (es' ! 127))) (hole_hi gs ktop)"
    using sorted lt ge b' by (auto dest: in_set_takeD in_set_dropD)
  moreover have "uniq (ctx_idm gs + {#i#} + {#n#})" using wf(2) nout by simp
  moreover have "\<forall>j\<in>#ctx_idm gs + {#i#} + {#n#}. 0 < j \<and> j < n + 1"
  proof -
    have "n < n + 1" using word_Suc [OF n] by (simp add: word_less_nat_alt)
    moreover have "0 < n" using i by (rule less_trans)
    ultimately show ?thesis using wf(3) by (auto intro: less_trans)
  qed
  ultimately show ?thesis using ctx by (simp add: pending_def)
qed

text \<open>The chain of leaves after the split and the repair.\<close>

lemma split_chain:
  assumes loc: "located V n gs i es p k"
    and links: "leaf_next_page np = leaf_next_page p" "leaf_prev_page np = i"
      "leaf_next_page p' = n" "leaf_prev_page p' = leaf_prev_page p"
    and sib: "leaf_next_page p \<noteq> 0 \<Longrightarrow> V (leaf_next_page p) = Some q"
    and W: "W = (if leaf_next_page p = 0 then V(n \<mapsto> np) else V(n \<mapsto> np, leaf_next_page p \<mapsto> leaf_set_prev_page n q))(i \<mapsto> p')"
    and n: "n < n + 1"
    and V': "\<forall>j. j \<noteq> 0 \<and> j \<notin> fid ` set gs \<and> j < n + 1 \<longrightarrow> V' j = W j"
  shows "chain V' 0 (pre leaf_ids gs @ [i] @ [n] @ post leaf_ids gs) 0"
proof -
  have wf: "uniq (ctx_idm gs + {#i#})" "\<forall>j\<in>#ctx_idm gs + {#i#}. 0 < j \<and> j < n"
    "chain V 0 (pre leaf_ids gs @ i # post leaf_ids gs) 0" and p: "V i = Some p" "is_page p"
    and d: "uniq (idm (plug gs (Leaf i es)))"
    using loc by (simp_all add: located_def wf_tree_def idm_plug leaf_ids_plug leaf_page_def page_inv_def)
  have u: "uniq (ctx_idm gs)" "i \<notin># ctx_idm gs" using wf(1) by simp_all
  have lid: "x \<in># ctx_idm gs \<and> x \<notin> fid ` set gs" if "x \<in> set (pre leaf_ids gs @ post leaf_ids gs)" for x
    using ctx_leaf_ids [OF u(1), of x] that by auto
  have fids: "fid g \<in># ctx_idm gs" if "g \<in> set gs" for g
    using that by (induction gs) auto
  have dist: "distinct (pre leaf_ids gs @ i # post leaf_ids gs)"
  proof -
    have "distinct (leaf_ids (plug gs (Leaf i es)))" using d by (rule distinct_leaf_ids)
    then show ?thesis by (simp add: leaf_ids_plug)
  qed
  have zero: "0 \<notin> set (pre leaf_ids gs @ i # post leaf_ids gs)" using wf(2) lid by auto
  have view: "V' j = W j" if "j \<in># ctx_idm gs + {#i#} + {#n#}" "j \<notin> fid ` set gs" for j
  proof -
    have "j \<noteq> 0" "j < n + 1" using that(1) wf(2) n by (auto intro: less_trans)
    with V' that(2) show ?thesis by blast
  qed
  have nfid: "n \<notin> fid ` set gs" "i \<notin> fid ` set gs" using fids u(2) wf(2) by auto
  have ni: "n \<noteq> i" using wf(2) by auto
  have nx: "leaf_next_page p \<noteq> 0 \<Longrightarrow> leaf_next_page p \<noteq> n \<and> leaf_next_page p \<noteq> i \<and> V' (leaf_next_page p) = W (leaf_next_page p) \<and> is_page q"
  proof -
    assume nz: "leaf_next_page p \<noteq> 0"
    obtain q' fs where s: "V (leaf_next_page p) = Some q'" "leaf_page dl_layout DirectoryLeaf q' fs"
      "leaf_next_page p \<in># ctx_idm gs" "leaf_next_page p \<notin> fid ` set gs" "leaf_next_page p \<noteq> i" "leaf_next_page p < n"
      by (rule sibling [OF loc nz])
    then show ?thesis using view [of "leaf_next_page p"] sib [OF nz] is_page_leaf [OF s(2)] by auto
  qed
  have "chain V' 0 (pre leaf_ids gs @ i # n # post leaf_ids gs) 0"
  proof (rule chain_insert [OF wf(3) dist zero p(1) links(4,3,2,1), where q = q and q' = "leaf_set_prev_page n q"])
    show "V' i = Some p'" using view [of i] nfid by (simp add: W)
    show "V' n = Some np" using view [of n] nfid ni nx by (auto simp: W)
    show "V' x = V x" if "x \<in> set (pre leaf_ids gs @ post leaf_ids gs)" "x \<noteq> leaf_next_page p" for x
      using view [of x] lid [OF that(1)] that(2) u(2) wf(2) by (auto simp: W)
    show "V (leaf_next_page p) = Some q \<and> V' (leaf_next_page p) = Some (leaf_set_prev_page n q) \<and>
      leaf_prev_page (leaf_set_prev_page n q) = n \<and> leaf_next_page (leaf_set_prev_page n q) = leaf_next_page q"
      if nz: "leaf_next_page p \<noteq> 0" using sib [OF nz] nx [OF nz] nz by (simp add: W)
  qed
  then show ?thesis by simp
qed

lemma room_left:
  assumes loc: "located V n gs i es p k" and room: "unat n < 2 ^ 31 - 1"
  shows "unat n + 1 + length gs < 2 ^ 32 - 1" "n \<noteq> 4294967295" "unat (n + 1) = unat n + 1" "n < n + 1"
proof -
  have "uniq (ctx_idm gs)" "\<forall>j\<in>#ctx_idm gs. 0 < j \<and> j < n"
    using loc by (simp_all add: located_def wf_tree_def idm_plug)
  from uniq_below [OF this] size_ctx_idm [of gs] room show "unat n + 1 + length gs < 2 ^ 32 - 1" by simp
  show n: "n \<noteq> 4294967295" using room by auto
  then show "unat (n + 1) = unat n + 1" by (rule word_Suc)
  then show "n < n + 1" by (simp add: word_less_nat_alt)
qed

text \<open>A full leaf: the split, the write of the old leaf and the repair of the ancestors.\<close>

lemma add_full_leaf:
  assumes st: "dst V n (tid t) s" and hdr: "dir_header V (tid t) h" "h \<le> n"
    and t: "t = plug gs (Leaf i es)" and loc: "located V n gs i es p (ucast l)" and full: "length es = 253"
    and new: "(ucast l :: u64) \<notin> search_key ` set es" and al: "page_aligned pp" and room: "unat n < 2 ^ 31 - 1"
  shows "\<exists>nl sep p' s1 s2 s'. split_leaf i p l pp s = Some (Ok (nl, sep, p'), s1) \<and>
    write_page i p' s1 = Some (Ok (), s2) \<and> droot s2 = tid t \<and>
    ancestors_loop (map fid gs) sep nl s2 = Some (Ok (), s') \<and> dir_rep s' ((tmap t)(l \<mapsto> pp))"
proof -
  let ?e = "from_ppage_id l pp"
  define es' where "es' = insert_sorted search_key ?e es"
  note rl = room_left [OF loc room]
  have p: "V i = Some p" "leaf_page dl_layout DirectoryLeaf p es" and small: "\<forall>e\<in>set es. small_key e"
    and i: "0 < i" "i < n" using loc by (simp_all add: located_def)
  have "\<exists>q. leaf_next_page p \<noteq> 0 \<longrightarrow> V (leaf_next_page p) = Some q \<and> leaf_next_page p \<noteq> n"
  proof (cases "leaf_next_page p = 0")
    case False
    then obtain q' fs where "V (leaf_next_page p) = Some q'" "leaf_next_page p < n" by (rule sibling [OF loc])
    then show ?thesis by auto
  qed simp
  then obtain q where q: "leaf_next_page p \<noteq> 0 \<Longrightarrow> V (leaf_next_page p) = Some q \<and> leaf_next_page p \<noteq> n" by blast
  then have q1: "leaf_next_page p \<noteq> 0 \<Longrightarrow> leaf_next_page p \<noteq> n \<and> V (leaf_next_page p) = Some q"
    and q2: "leaf_next_page p \<noteq> 0 \<Longrightarrow> V (leaf_next_page p) = Some q" by blast+
  obtain np p' s1 where sp: "split_leaf i p l pp s = Some (Ok (n, search_key (es' ! 127), p'), s1)"
    "dst (if leaf_next_page p = 0 then V(n \<mapsto> np) else V(n \<mapsto> np, leaf_next_page p \<mapsto> leaf_set_prev_page n q)) (n + 1) (tid t) s1"
    "leaf_page dl_layout DirectoryLeaf np (drop 127 es')" "leaf_page dl_layout DirectoryLeaf p' (take 127 es')"
    "leaf_next_page np = leaf_next_page p" "leaf_prev_page np = i"
    "leaf_next_page p' = n" "leaf_prev_page p' = leaf_prev_page p"
    by (rule split_leaf_run [OF st p(2) full small new rl(2) q1 es'_def])
  define W where "W = (if leaf_next_page p = 0 then V(n \<mapsto> np)
    else V(n \<mapsto> np, leaf_next_page p \<mapsto> leaf_set_prev_page n q))(i \<mapsto> p')"
  obtain s2 where s2: "write_page i p' s1 = Some (Ok (), s2)" "dst W (n + 1) (tid t) s2"
    unfolding W_def by (rule write_page_run [OF sp(2) is_page_leaf [OF sp(4)]])
  have pend: "pending W (n + 1) gs (Leaf i (take 127 es')) (search_key (es' ! 127)) (Leaf n (drop 127 es'))"
    by (rule split_pending [OF loc _ new full es'_def sp(3,4) q2 W_def rl(2)]) simp_all
  have root: "tid t = tid (plug gs (Leaf i (take 127 es')))" unfolding t by (rule tid_plug_cong) simp
  have n0: "0 < n" using i by (rule less_trans)
  then have "i \<noteq> 0" "n \<noteq> 0" using i(1) by simp_all
  with hdr(1) have hdrW: "dir_header W (tid t) h" by (simp add: W_def dir_header_other)
  have "h \<le> n + 1" using hdr(2) rl(4) by simp
  moreover have "unat (n + 1) + length gs < 2 ^ 32 - 1" using rl(1,3) by simp
  ultimately obtain s' where s': "ancestors_loop (map fid gs) (search_key (es' ! 127)) n s2 = Some (Ok (), s')"
    "grown W (n + 1) gs (Leaf i (take 127 es')) (Leaf n (drop 127 es')) s'"
    using ancestors_run [OF pend s2(2) root hdrW] by auto
  obtain V' n' h' T where T: "dst V' n' (tid T) s'" "drep V' T" "inb search_key T 0 ktop" "uniq (idm T)"
    "\<forall>i\<in>#idm T. 0 < i \<and> i < n'" "n + 1 \<le> n'" "dir_header V' (tid T) h'" "h' \<le> n'"
    "flat T = pre flat gs @ take 127 es' @ drop 127 es' @ post flat gs"
    "leaf_ids T = pre leaf_ids gs @ [i] @ [n] @ post leaf_ids gs"
    "\<forall>j. j \<noteq> 0 \<and> j \<notin> fid ` set gs \<and> j < n + 1 \<longrightarrow> V' j = W j"
    using s'(2) unfolding grown_def by auto
  have fl: "flat T = flat (plug gs (Leaf i es'))" unfolding T(9) flat_plug by simp
  have "chain V' 0 (leaf_ids T) 0"
    unfolding T(10) by (rule split_chain [OF loc sp(5-8) q2 W_def rl(4) T(11)])
  moreover have "\<forall>e\<in>set (flat T). small_key e"
    using loc unfolding fl flat_plug by (auto simp: located_def wf_tree_def flat_plug es'_def)
  ultimately have "wf_tree V' n' T" using T by (simp add: wf_tree_def)
  moreover have "0 < n'" using n0 rl(4) T(6) by simp
  ultimately have "dir_rep s' (tmap T)" using dir_rep_tree [OF T(1,7,8)] by blast
  moreover have "tmap T = (tmap t)(l \<mapsto> pp)"
  proof -
    have "tmap T = tmap (plug gs (Leaf i es'))" by (simp add: tmap_def fun_eq_iff fl)
    also have "\<dots> = (tmap t)(l := map_option to_ppage_id (Some ?e))"
      unfolding t by (rule tmap_leaf_change [OF loc]) (simp add: es'_def find_entry_insert_sorted new)
    finally show ?thesis using ppage_roundtrip [OF al, of l] by simp
  qed
  ultimately show ?thesis using sp(1) s2 s'(1) dst_root [OF s2(2)] by auto
qed

text \<open>A leaf with room takes the entry, and no page is allocated.\<close>

lemma add_room:
  assumes run: "droot s \<noteq> 0" "find_leaf_with_path (ucast l) s = Some (Ok (i, rev (map fid gs)), s1)" "read_page i s1 = Some (Ok p, s2)"
    and tree: "dst V n (tid t) s2" "dir_header V (tid t) h" "h \<le> n" "0 < n"
    and loc: "t = plug gs (Leaf i es)" "located V n gs i es p (ucast l)"
    and room: "length es < 253" and new: "tmap t l = None" and al: "page_aligned pp"
  shows "\<exists>s'. add_page l pp s = Some (Ok (), s') \<and> dir_rep s' ((tmap t)(l \<mapsto> pp)) \<and> dnext s' = n"
proof -
  let ?e = "from_ppage_id l pp"
  have p: "dl_inv p" "entries dl_layout p = es" "i \<noteq> 0" using loc(2) by (auto simp: located_def leaf_page_def)
  have less: "leaf_num_entries p < 253" using length_entries [of dl_layout p] p(2) room by simp
  have "key_map dl_layout p (key_of dl_layout ?e) = None" using new located_leaf_map [OF loc(2)] loc(1) by simp
  then obtain p' where p': "page_insert dl_layout ?e p = Ok p'" "dl_inv p'" "same_header dl_layout p p'"
    "key_map dl_layout p' = (key_map dl_layout p)(key_of dl_layout ?e \<mapsto> ?e)"
    using dleaf.insert_map [OF p(1), of ?e] less by auto
  have "\<exists>s'. write_page i p' s2 = Some (Ok (), s') \<and> dir_rep s' ((tmap t)(l := map_option to_ppage_id (Some ?e)))"
    using p' dl_same_header [OF p'(3) p(1) p'(2)] by (intro leaf_op_rep [OF tree loc]) auto
  then obtain s3 where s3: "write_page i p' s2 = Some (Ok (), s3)" "dir_rep s3 ((tmap t)(l \<mapsto> pp))"
    using ppage_roundtrip [OF al, of l] by auto
  have "dnext s3 = n" using s3(1) tree(1) by (auto simp: write_page_def modify_def dst_def)
  moreover have "dl_insert_entry l pp p = Ok p'" using p'(1) by (simp add: dl_insert_entry_def)
  ultimately show ?thesis
    using s3 run less p(3) by (simp add: add_page_def gets_def pbind_def lift_def)
qed

lemma add_rep:
  assumes rep: "dir_rep s m" and al: "page_aligned pp" and room: "unat (dnext s) < 2 ^ 31 - 1"
  shows "m l = None \<Longrightarrow> \<exists>s'. add_page l pp s = Some (Ok (), s') \<and> dir_rep s' (m(l \<mapsto> pp))"
    and "m l \<noteq> None \<Longrightarrow> \<exists>s' e. add_page l pp s = Some (Err e, s') \<and> dir_rep s' m \<and>
      (e = DuplicatePage l \<or> e = PageCorruption (LeafInsertFailed (DuplicateKey (ucast l))))"
proof -
  have "if m l = None then \<exists>s'. add_page l pp s = Some (Ok (), s') \<and> dir_rep s' (m(l \<mapsto> pp))
    else \<exists>s' e. add_page l pp s = Some (Err e, s') \<and> dir_rep s' m \<and>
      (e = DuplicatePage l \<or> e = PageCorruption (LeafInsertFailed (DuplicateKey (ucast l))))"
    using rep
  proof (cases rule: dir_rep_cases)
    case (empty V n h)
    have "n \<noteq> 4294967295" using room empty(1) by (auto simp: dst_def)
    with add_first [OF empty(1,2,4) _ al, of l] empty(5) show ?thesis by auto
  next
    case (tree V n h t)
    obtain gs i es p s1 where loc: "t = plug gs (Leaf i es)" "located V n gs i es p (ucast l)" "dst V n (tid t) s1"
      "find_leaf_with_path (ucast l) s = Some (Ok (i, rev (map fid gs)), s1)" by (rule locate [OF tree(5,1)])
    have p: "V i = Some p" "dl_inv p" "leaf_page dl_layout DirectoryLeaf p es" "entries dl_layout p = es" "i \<noteq> 0"
      "\<forall>e\<in>set es. small_key e"
      using loc(2) by (auto simp: located_def leaf_page_def)
    have cnt: "leaf_num_entries p = length es" "length es \<le> 253"
      using length_entries [of dl_layout p] p(2,4) by (auto simp: page_inv_def)
    obtain s2 where s2: "read_page i s1 = Some (Ok p, s2)" "dst V n (tid t) s2" by (rule read_page_run [OF loc(3) p(1)])
    have ml: "m l = dl_map p (ucast l)" using located_leaf_map [OF loc(2)] loc(1) tree(6) by simp
    have mem: "m l = None \<longleftrightarrow> (ucast l :: u64) \<notin> search_key ` set es"
      using key_map_None [of dl_layout p "ucast l"] p(4) ml by simp
    have root: "droot s \<noteq> 0" using tree(1,7) by (simp add: dst_root)
    have rep2: "dir_rep s2 m" unfolding tree(6) using s2(2) tree by (intro dir_rep_tree) simp_all
    have nroom: "unat n < 2 ^ 31 - 1" using room tree(1) by (simp add: dst_def)
    note run = root loc(4) s2(1) p(5)
    let ?e = "from_ppage_id l pp"
    show ?thesis
    proof (cases "length es = 253")
      case True
      show ?thesis
      proof (cases "m l = None")
        case new: True
        then have "(ucast l :: u64) \<notin> search_key ` set es" using mem by simp
        from add_full_leaf [OF s2(2) tree(2,3) loc(1,2) True this al nroom]
        obtain nl sep p' s3 s4 s' where sp: "split_leaf i p l pp s2 = Some (Ok (nl, sep, p'), s3)"
          "write_page i p' s3 = Some (Ok (), s4)" "droot s4 = tid t"
          "ancestors_loop (map fid gs) sep nl s4 = Some (Ok (), s')" "dir_rep s' ((tmap t)(l \<mapsto> pp))" by blast
        have "gs = [] \<Longrightarrow> new_root i sep nl s4 = Some (Ok (), s')"
          using sp(3,4) loc(1) by simp
        then have "add_page l pp s = Some (Ok (), s')"
          using run sp(1,2,4) True cnt
          by (cases "gs = []") (simp_all add: add_page_def gets_def pbind_def insert_into_ancestors_def)
        with sp(5) new tree(6) show ?thesis by simp
      next
        case dup: False
        then have "split_leaf i p l pp s2 = Some (Err (DuplicatePage l), s2)"
          using mem p(3,6) by (intro split_leaf_duplicate) simp_all
        then have "add_page l pp s = Some (Err (DuplicatePage l), s2)"
          using run True cnt by (simp add: add_page_def gets_def pbind_def)
        with dup rep2 show ?thesis by simp
      qed
    next
      case False
      then have less: "leaf_num_entries p < 253" using cnt by simp
      show ?thesis
      proof (cases "m l = None")
        case new: True
        have "tmap t l = None" "length es < 253" using new tree(6) False cnt(2) by simp_all
        then show ?thesis using add_room [OF root loc(4) s2(1,2) tree(2-4) loc(1,2) _ _ al] new tree(6) by auto
      next
        case dup: False
        then have "key_map dl_layout p (key_of dl_layout ?e) \<noteq> None" using ml by simp
        then have "dl_insert_entry l pp p = Err (DuplicateKey (ucast l))"
          using dleaf.insert_dup_map [OF p(2), of ?e] less by (simp add: dl_insert_entry_def del: not_None_eq)
        then have "add_page l pp s = Some (Err (PageCorruption (LeafInsertFailed (DuplicateKey (ucast l)))), s2)"
          using run less by (simp add: add_page_def gets_def pbind_def lift_def)
        with dup rep2 show ?thesis by simp
      qed
    qed
  qed
  then show "m l = None \<Longrightarrow> \<exists>s'. add_page l pp s = Some (Ok (), s') \<and> dir_rep s' (m(l \<mapsto> pp))"
    and "m l \<noteq> None \<Longrightarrow> \<exists>s' e. add_page l pp s = Some (Err e, s') \<and> dir_rep s' m \<and>
      (e = DuplicatePage l \<or> e = PageCorruption (LeafInsertFailed (DuplicateKey (ucast l))))"
    by simp_all
qed

text \<open>While all entries fit into one leaf, only the first addition allocates pages.\<close>

lemma few_entries:
  assumes "wf_tree V n t" "tid t \<noteq> 0"
  shows "length (flat t) \<le> card (dom (tmap t))"
proof -
  have t: "sorted_by search_key (flat t)" "\<forall>e\<in>set (flat t). small_key e"
    using assms(1) inb_flat [of search_key t 0 ktop] by (simp_all add: wf_tree_def)
  have "e \<in> set (flat t) \<Longrightarrow> ucast (search_key e) \<in> dom (tmap t)" for e
    using t(2) find_entry_Some_iff [OF t(1), of "search_key e" e] by (auto simp: tmap_def dom_def ucast_small small_key_def)
  then have "(\<lambda>e. ucast (search_key e) :: u32) ` set (flat t) \<subseteq> dom (tmap t)" by blast
  moreover have "finite (dom (tmap t))" by (rule finite_subset [of _ UNIV]) simp_all
  moreover have "inj_on (\<lambda>e. ucast (search_key e) :: u32) (set (flat t))"
  proof (rule inj_onI)
    fix a b assume ab: "a \<in> set (flat t)" "b \<in> set (flat t)" "(ucast (search_key a) :: u32) = ucast (search_key b)"
    then have "search_key a = search_key b" using t(2) ucast_small by (metis small_key_def)
    then show "a = b" using find_entry_Some_iff [OF t(1), of "search_key a"] ab(1,2) by (metis option.inject)
  qed
  ultimately have "card (set (flat t)) \<le> card (dom (tmap t))" by (metis card_inj_on_le)
  moreover have "distinct (flat t)" using t(1) by (simp add: sorted_by_def strict_sorted_iff distinct_map)
  ultimately show ?thesis by (simp add: distinct_card)
qed

lemma add_small:
  assumes rep: "dir_rep s m" and al: "page_aligned pp" and new: "m l = None" and few: "m \<noteq> Map.empty" "card (dom m) < 253"
  shows "\<exists>s'. add_page l pp s = Some (Ok (), s') \<and> dir_rep s' (m(l \<mapsto> pp)) \<and> dnext s' = dnext s"
  using rep
proof (cases rule: dir_rep_cases)
  case (tree V n h t)
  obtain gs i es p s1 where loc: "t = plug gs (Leaf i es)" "located V n gs i es p (ucast l)" "dst V n (tid t) s1"
    "find_leaf_with_path (ucast l) s = Some (Ok (i, rev (map fid gs)), s1)" by (rule locate [OF tree(5,1)])
  have p: "V i = Some p" using loc(2) by (simp add: located_def)
  obtain s2 where s2: "read_page i s1 = Some (Ok p, s2)" "dst V n (tid t) s2" by (rule read_page_run [OF loc(3) p])
  have root: "droot s \<noteq> 0" using tree(1,7) by (simp add: dst_root)
  have "length es < 253" using few_entries [OF tree(5,7)] few(2) tree(6) loc(1) by (simp add: flat_plug)
  from add_room [OF root loc(4) s2 tree(2-4) loc(1,2) this _ al] show ?thesis using new tree(1,6) by (auto simp: dst_def)
qed (use few in simp)

end
