(* ===== verification/DirFlush.thy ===== *)
theory DirFlush
  imports DirSpec
begin

text \<open>
  The page directory on disk: writing the dirty pages puts every page of the view into the file,
  and opening that file again gives a directory that answers every lookup as before. A directory
  that is opened on a new file is empty.
\<close>

section \<open>Writing pages to the file\<close>

lemma length_file_write: "length (file_write off xs f) = max (length f) (off + length xs)"
  by (simp add: file_write_def put_at_def)

lemma nth_file_write:
  "i < length f \<Longrightarrow> file_write off xs f ! i = (if off \<le> i \<and> i < off + length xs then xs ! (i - off) else f ! i)"
  by (auto simp: file_write_def put_at_def nth_append min_def)

lemma bytes_file_write_same: "bytes_at off (length xs) (file_write off xs f) = xs"
  by (simp add: bytes_at_def file_write_def put_at_def)

lemma bytes_file_write_other:
  assumes "a + n \<le> length f" "a + n \<le> off \<or> off + length xs \<le> a"
  shows "bytes_at a n (file_write off xs f) = bytes_at a n f"
  using assms by (intro nth_equalityI) (auto simp: nth_bytes_at nth_file_write length_file_write)

lemma file_page_write_same: "length p = 4096 \<Longrightarrow> file_page (Some (file_write (unat i * 4096) p f)) i = Some p"
  using bytes_file_write_same [of "unat i * 4096" p f] by (simp add: file_page_def length_file_write)

lemma file_page_write_other:
  assumes "length p = 4096" "i \<noteq> j" "file_page (Some f) j = Some r"
  shows "file_page (Some (file_write (unat i * 4096) p f)) j = Some r"
proof -
  have len: "unat j * 4096 + 4096 \<le> length f" and r: "bytes_at (unat j * 4096) 4096 f = r"
    using assms(3) by (auto simp: file_page_def split: if_splits)
  have "unat i \<noteq> unat j" using assms(2) word_unat_eqI by blast
  then have "unat j * 4096 + 4096 \<le> unat i * 4096 \<or> unat i * 4096 + length p \<le> unat j * 4096"
    using assms(1) by linarith
  from bytes_file_write_other [OF len this] show ?thesis
    using len r assms(1) by (simp add: file_page_def length_file_write)
qed

lemma flush_pages_Cons:
  "flush_pages c (i # is) f = flush_pages c is (case c i of Some p \<Rightarrow> file_write (unat i * 4096) p f | None \<Rightarrow> f)"
  unfolding flush_pages_def PAGE_BUF_SIZE_def by simp

lemma flush_keeps:
  assumes "\<And>i p. c i = Some p \<Longrightarrow> length p = 4096" "c j = None \<or> c j = Some r" "file_page (Some f) j = Some r"
  shows "file_page (Some (flush_pages c is f)) j = Some r"
  using assms(3)
proof (induction "is" arbitrary: f)
  case Nil
  then show ?case by (simp add: flush_pages_def)
next
  case (Cons i "is")
  have "file_page (Some (case c i of Some p \<Rightarrow> file_write (unat i * 4096) p f | None \<Rightarrow> f)) j = Some r"
    using Cons.prems assms(1,2)
    by (cases "c i"; cases "i = j") (auto simp: file_page_write_same file_page_write_other)
  then show ?case unfolding flush_pages_Cons by (rule Cons.IH)
qed

lemma flush_writes:
  assumes "\<And>i p. c i = Some p \<Longrightarrow> length p = 4096" "c j = Some r" "j \<in> set is"
  shows "file_page (Some (flush_pages c is f)) j = Some r"
  using assms(3)
proof (induction "is" arbitrary: f)
  case (Cons i "is")
  show ?case
  proof (cases "i = j")
    case True
    then have "file_page (Some (case c i of Some p \<Rightarrow> file_write (unat i * 4096) p f | None \<Rightarrow> f)) j = Some r"
      using assms(1,2) by (simp add: file_page_write_same)
    with assms(1,2) show ?thesis unfolding flush_pages_Cons by (intro flush_keeps) simp_all
  next
    case False
    then show ?thesis using Cons by (simp add: flush_pages_Cons)
  qed
qed simp

text \<open>
  After \<open>flush_all_dirty\<close> the file holds every page of the view. A file that ended inside a
  page is completed, so the view may show more pages than before.
\<close>

lemma flush_run:
  assumes st: "dst V n r s" and iter: "\<forall>A. finite A \<longrightarrow> set (iter A) = A"
  obtains s' V' where "flush_all_dirty iter s = Some (Ok (), s')" "dst V' n r s'"
    "\<forall>i p. V i = Some p \<longrightarrow> V' i = Some p \<and> file_page (dfile s') i = Some p"
proof (cases "iter (ddirty s) = []")
  case True
  have cl: "clean s" and v: "view s = V" using st by (simp_all add: dst_def)
  have "ddirty s = {}" using True iter cl by (metis clean_def set_empty2)
  then have "V i = Some p \<Longrightarrow> file_page (dfile s) i = Some p" for i p
    using cl v by (auto simp: clean_def view_def split: option.splits)
  with that [of s V] st True show ?thesis by (simp add: flush_all_dirty_def ret_def)
next
  case False
  have cl: "clean s" and v: "view s = V" and "dfile s \<noteq> None" using st by (simp_all add: dst_def)
  then obtain f where f: "dfile s = Some f" by blast
  have all: "set (iter (ddirty s)) = ddirty s" using iter cl by (simp add: clean_def)
  define f' where "f' = flush_pages (dcache s) (iter (ddirty s)) f"
  define s' where "s' = s\<lparr> dfile := Some f', ddirty := {} \<rparr>"
  have len: "length p = 4096" if "dcache s i = Some p" for i p
    using cl that by (auto simp: clean_def is_page_def PAGE_BUF_SIZE_def)
  have cached: "file_page (Some f') i = Some p" if "dcache s i = Some p" for i p
  proof (cases "i \<in> ddirty s")
    case True
    with len that all show ?thesis unfolding f'_def by (intro flush_writes) simp_all
  next
    case False
    then have "file_page (Some f) i = Some p" using cl that f by (auto simp: clean_def)
    with len that show ?thesis unfolding f'_def by (intro flush_keeps) simp_all
  qed
  have old: "file_page (Some f') i = Some p" if "V i = Some p" for i p
  proof (cases "dcache s i")
    case None
    then have "file_page (Some f) i = Some p" using that v f by (auto simp: view_def)
    with len None show ?thesis unfolding f'_def by (intro flush_keeps) simp_all
  next
    case (Some q)
    then show ?thesis using that v cached by (auto simp: view_def)
  qed
  have "flush_all_dirty iter s = Some (Ok (), s')"
    using False f all by (simp add: flush_all_dirty_def ret_def s'_def f'_def)
  moreover have "clean s'" using cl cached by (auto simp: clean_def s'_def)
  then have "dst (view s') n r s'" using st by (simp add: dst_def s'_def)
  moreover have "view s' i = Some p" if "V i = Some p" for i p
    using that old v by (auto simp: view_def s'_def split: option.splits)
  ultimately show ?thesis using that old by (simp add: s'_def)
qed

section \<open>More pages\<close>

lemma chain_more: "(\<And>i p. V i = Some p \<Longrightarrow> V' i = Some p) \<Longrightarrow> chain V a is b \<Longrightarrow> chain V' a is b"
  by (induction "is" arbitrary: a) auto

lemma wf_tree_more: "(\<And>i p. V i = Some p \<Longrightarrow> V' i = Some p) \<Longrightarrow> wf_tree V n t \<Longrightarrow> wf_tree V' n t"
  unfolding wf_tree_def using rep_improves [of t dir_format V V'] chain_more [of V V' 0 "leaf_ids t" 0]
  by (auto simp: improves_def)

lemma dir_header_more: "(\<And>i p. V i = Some p \<Longrightarrow> V' i = Some p) \<Longrightarrow> dir_header V r n \<Longrightarrow> dir_header V' r n"
  by (auto simp: dir_header_def)

lemma flush_rep:
  assumes rep: "dir_rep s m" and iter: "\<forall>A. finite A \<longrightarrow> set (iter A) = A"
  obtains s' where "flush_all_dirty iter s = Some (Ok (), s')" "dir_rep s' m"
    "\<forall>i p. view s i = Some p \<longrightarrow> file_page (dfile s') i = Some p"
proof -
  obtain V n r h where d: "dst V n r s" "dir_header V r h" "h \<le> n" "0 < n"
    "if r = 0 then m = Map.empty else \<exists>t. r = tid t \<and> wf_tree V n t \<and> m = tmap t"
    using rep unfolding dir_rep_def by blast
  obtain s' V' where s': "flush_all_dirty iter s = Some (Ok (), s')" "dst V' n r s'"
    "\<forall>i p. V i = Some p \<longrightarrow> V' i = Some p \<and> file_page (dfile s') i = Some p"
    by (rule flush_run [OF d(1) iter])
  have more: "V i = Some p \<Longrightarrow> V' i = Some p" for i p using s'(3) by blast
  have "dir_header V' r h" using more d(2) by (rule dir_header_more)
  moreover have "if r = 0 then m = Map.empty else \<exists>t. r = tid t \<and> wf_tree V' n t \<and> m = tmap t"
    using d(5) wf_tree_more [of V V' n] more by (auto split: if_splits)
  ultimately have "dir_rep s' m" using s'(2) d(3,4) unfolding dir_rep_def by blast
  moreover have "view s = V" using d(1) by (simp add: dst_def)
  ultimately show ?thesis using that s' by blast
qed

section \<open>Opening\<close>

lemma load_header_run:
  assumes hdr: "dir_header (file_page (Some f)) r h" and a: "a mod 8 = 0"
  obtains s where "open_dir (Some f) a = Some (Ok (), s)" "dst (file_page (Some f)) (if h = 0 then 1 else h) r s"
proof -
  obtain p where p: "file_page (Some f) 0 = Some p" "is_page p"
    "page_type_id (uber_header p) = page_type_byte DirectoryFileHeader"
    "dir_root_page (dir_file_data_of_bytes (bytes_at 16 40 p)) = r"
    "next_page_id (dir_file_data_of_bytes (bytes_at 16 40 p)) = h"
    using hdr by (auto simp: dir_header_def)
  have f: "4096 \<le> length f" "take 4096 f = p" using p(1) by (auto simp: file_page_def bytes_at_def split: if_splits)
  let ?b = "\<lparr> buf_addr = a, buf_bytes = p \<rparr>"
  have "dfh_from_buffer ?b = Ok ?b"
    using p(2,3) a fh_from_buffer_spec [of ?b DirectoryFileHeader]
    by (simp add: dfh_from_buffer_def is_page_def PAGE_BUF_SIZE_def del: page_type_byte.simps)
  moreover have "dfh_data ?b = Ok (dir_file_data_of_bytes (bytes_at 16 40 p))"
    using p(2) a dfh_data_Ok [of ?b] by simp
  ultimately have "open_dir (Some f) a = Some (Ok (), (dir_new (Some f) a)\<lparr> droot := r, dnext := (if h = 0 then 1 else h) \<rparr>)"
    using f p(4,5) by (simp add: open_dir_def load_header_def dir_new_def PAGE_BUF_SIZE_def pbind_def lift_def modify_def Let_def)
  moreover have "dst (file_page (Some f)) (if h = 0 then 1 else h) r ((dir_new (Some f) a)\<lparr> droot := r, dnext := (if h = 0 then 1 else h) \<rparr>)"
    using a by (simp add: dst_def dir_new_def view_def clean_def fun_eq_iff)
  ultimately show ?thesis using that by blast
qed

text \<open>A new directory file: the header alone.\<close>

lemma open_new:
  assumes a: "a mod 8 = 0"
  obtains s where "open_dir None a = Some (Ok (), s)" "dir_rep s Map.empty" "dnext s = 1" "droot s = 0"
proof -
  let ?b = "\<lparr> buf_addr = a, buf_bytes = zero_page \<rparr>"
  let ?d = "\<lparr> df_magic = dfh_MAGIC, next_tx_id = 1, last_checkpoint_lsn = 0, next_page_id = 0, dir_root_page = 0,
    next_file_id = 0, df_pad = replicate 4 0 \<rparr> :: dir_file_data"
  define p where "p = buf_bytes (dfh_init ?b 0)"
  define s where "s = (dir_new None a)\<lparr> dfile := Some (file_write 0 p []) \<rparr>"
  have len: "length p = 4096" by (simp add: p_def dfh_init_def fh_init_def Let_def is_page_def [symmetric] zero_page_def PAGE_BUF_SIZE_def put_uber_header_def put_at_def UBER_HEADER_SIZE_def)
  have ds: "length (dir_file_data_to_bytes ?d) = 40" by simp
  note u = uber_fh_init [of ?b "dir_file_data_to_bytes ?d" DirectoryFileHeader 0]
  have up: "page_type_id (uber_header p) = page_type_byte DirectoryFileHeader"
    "bytes_at 16 40 p = dir_file_data_to_bytes ?d"
    using u ds by (simp_all add: p_def dfh_init_def del: page_type_byte.simps)
  then have d: "dir_file_data_of_bytes (bytes_at 16 40 p) = ?d" by simp
  have pg: "file_page (dfile s) 0 = Some p" using file_page_write_same [OF len, of 0 "[]"] by (simp add: s_def)
  have "open_dir None a = Some (Ok (), s)"
    by (simp add: open_dir_def init_new_def modify_def s_def p_def dir_new_def)
  moreover have st: "dst (view s) 1 0 s"
    using a by (simp add: dst_def s_def dir_new_def clean_def)
  moreover have "view s 0 = Some p" using pg by (simp add: view_def s_def dir_new_def)
  then have "dir_header (view s) 0 0"
    using len up(1) d by (simp add: dir_header_def is_page_def PAGE_BUF_SIZE_def del: page_type_byte.simps)
  ultimately have "dir_rep s Map.empty"
    unfolding dir_rep_def by (intro exI [of _ "view s"] exI [of _ 1] exI [of _ 0] exI [of _ 0]) simp
  moreover have "dnext s = 1" "droot s = 0" using st by (simp_all add: dst_def)
  ultimately show ?thesis using that \<open>open_dir None a = Some (Ok (), s)\<close> by blast
qed

text \<open>Reopening a flushed directory.\<close>

lemma reopen_rep:
  assumes rep: "dir_rep s m" and iter: "\<forall>A. finite A \<longrightarrow> set (iter A) = A" and a: "a mod 8 = 0"
  obtains s' s2 where "flush_all_dirty iter s = Some (Ok (), s')" "dir_rep s' m"
    "open_dir (dfile s') a = Some (Ok (), s2)" "\<forall>l. \<exists>s3. lookup l s2 = Some (answer m l, s3)"
proof -
  obtain V n r h where d: "dst V n r s" "dir_header V r h"
    "if r = 0 then m = Map.empty else \<exists>t. r = tid t \<and> wf_tree V n t \<and> m = tmap t"
    using rep unfolding dir_rep_def by blast
  obtain s' where s': "flush_all_dirty iter s = Some (Ok (), s')" "dir_rep s' m"
    "\<forall>i p. view s i = Some p \<longrightarrow> file_page (dfile s') i = Some p" by (rule flush_rep [OF rep iter])
  have "dfile s' \<noteq> None" using s'(2) by (auto simp: dir_rep_def dst_def)
  then obtain f where f: "dfile s' = Some f" by blast
  have more: "V i = Some p \<Longrightarrow> file_page (Some f) i = Some p" for i p
    using s'(3) d(1) f by (simp add: dst_def)
  obtain s2 where s2: "open_dir (Some f) a = Some (Ok (), s2)" "dst (file_page (Some f)) (if h = 0 then 1 else h) r s2"
    by (rule load_header_run [OF dir_header_more [OF more d(2)] a])
  have "\<exists>s3. lookup l s2 = Some (answer m l, s3)" for l
  proof (cases "r = 0")
    case True
    then show ?thesis using d(3) s2(2) by (simp add: lookup_def gets_def pbind_def fail_def dst_root)
  next
    case False
    then obtain t where t: "r = tid t" "wf_tree V n t" "m = tmap t" using d(3) by auto
    have "wf_tree (file_page (Some f)) n t" using more t(2) by (rule wf_tree_more)
    then obtain s3 where "lookup l s2 = Some (answer (tmap t) l, s3)"
      using s2(2) t(1) lookup_tree by metis
    with t(3) show ?thesis by blast
  qed
  with that s' s2(1) f show ?thesis by simp
qed

end
