(* ===== verification/DirService.thy ===== *)
theory DirService
  imports DirFlush
begin

text \<open>
  The trait \<open>PageDirectory\<close> of \<open>src/src/storage/directory/directory.rs\<close>: its operations as a
  record, its contract as a locale, what a client can conclude from the contract alone, and the
  interpretation on the B-tree directory. The contract covers one operation at a time; the lemmas
  extend it to every sequence of requests.
\<close>

section \<open>The operations and what they promise\<close>

text \<open>The methods of the trait, on directories of type \<open>'d\<close> with errors of type \<open>'e\<close>.\<close>

record ('d, 'e) dir_ops =
  op_lookup :: "u32 \<Rightarrow> 'd \<Rightarrow> (('e, ppage_id) outcome \<times> 'd) option"
  op_add_page :: "u32 \<Rightarrow> ppage_id \<Rightarrow> 'd \<Rightarrow> (('e, unit) outcome \<times> 'd) option"
  op_update_page :: "u32 \<Rightarrow> ppage_id \<Rightarrow> 'd \<Rightarrow> (('e, unit) outcome \<times> 'd) option"
  op_delete_page :: "u32 \<Rightarrow> 'd \<Rightarrow> (('e, unit) outcome \<times> 'd) option"

datatype dir_request = Lookup u32 | Add u32 ppage_id | Update u32 ppage_id | Delete u32

datatype refusal = Missing | Duplicate

datatype dir_reply = Found ppage_id | Done | Refused refusal

text \<open>The specification: a finite map.\<close>

fun map_serve :: "dir_request \<Rightarrow> (u32 \<rightharpoonup> ppage_id) \<Rightarrow> dir_reply \<times> (u32 \<rightharpoonup> ppage_id)" where
  "map_serve (Lookup l) m = (case m l of Some v \<Rightarrow> Found v | None \<Rightarrow> Refused Missing, m)"
| "map_serve (Add l v) m = (if m l = None then (Done, m(l \<mapsto> v)) else (Refused Duplicate, m))"
| "map_serve (Update l v) m = (if m l = None then (Refused Missing, m) else (Done, m(l \<mapsto> v)))"
| "map_serve (Delete l) m = (if m l = None then (Refused Missing, m) else (Done, m(l := None)))"

text \<open>A directory serves a request; \<open>refuse\<close> says which refusal an error stands for.\<close>

definition reply :: "('e \<Rightarrow> refusal option) \<Rightarrow> ('a \<Rightarrow> dir_reply) \<Rightarrow> ('e, 'a) outcome \<Rightarrow> dir_reply option" where
  "reply refuse ok r = (case r of Ok v \<Rightarrow> Some (ok v) | Err e \<Rightarrow> map_option Refused (refuse e) | Panic \<Rightarrow> None)"

definition replied :: "('e \<Rightarrow> refusal option) \<Rightarrow> ('a \<Rightarrow> dir_reply) \<Rightarrow> (('e, 'a) outcome \<times> 'd) option \<Rightarrow> (dir_reply \<times> 'd) option" where
  "replied refuse ok r = (case r of None \<Rightarrow> None | Some (a, s) \<Rightarrow> map_option (\<lambda>b. (b, s)) (reply refuse ok a))"

fun dir_serve :: "('d, 'e) dir_ops \<Rightarrow> ('e \<Rightarrow> refusal option) \<Rightarrow> dir_request \<Rightarrow> 'd \<Rightarrow> (dir_reply \<times> 'd) option" where
  "dir_serve D refuse (Lookup l) s = replied refuse Found (op_lookup D l s)"
| "dir_serve D refuse (Add l v) s = replied refuse (\<lambda>_. Done) (op_add_page D l v s)"
| "dir_serve D refuse (Update l v) s = replied refuse (\<lambda>_. Done) (op_update_page D l v s)"
| "dir_serve D refuse (Delete l) s = replied refuse (\<lambda>_. Done) (op_delete_page D l s)"

fun dir_serve_all :: "('d, 'e) dir_ops \<Rightarrow> ('e \<Rightarrow> refusal option) \<Rightarrow> dir_request list \<Rightarrow> 'd \<Rightarrow> (dir_reply list \<times> 'd) option" where
  "dir_serve_all D refuse [] s = Some ([], s)"
| "dir_serve_all D refuse (r # rs) s = (case dir_serve D refuse r s of None \<Rightarrow> None
     | Some (a, s') \<Rightarrow> map_option (\<lambda>(as, s''). (a # as, s'')) (dir_serve_all D refuse rs s'))"

fun request_ok :: "(ppage_id \<Rightarrow> bool) \<Rightarrow> dir_request \<Rightarrow> bool" where
  "request_ok valid (Add l v) = valid v"
| "request_ok valid (Update l v) = valid v"
| "request_ok valid _ = True"

section \<open>The contract\<close>

text \<open>
  \<open>rep s m\<close>: the directory \<open>s\<close> holds the map \<open>m\<close>. \<open>room s\<close>: it can still grow. \<open>valid v\<close>: the
  place can be stored.
\<close>

locale page_directory =
  fixes D :: "('d, 'e) dir_ops"
    and refuse :: "'e \<Rightarrow> refusal option"
    and rep :: "'d \<Rightarrow> (u32 \<rightharpoonup> ppage_id) \<Rightarrow> bool"
    and room :: "'d \<Rightarrow> bool"
    and valid :: "ppage_id \<Rightarrow> bool"
  assumes lookup_found: "rep s m \<Longrightarrow> m l = Some v \<Longrightarrow> \<exists>s'. op_lookup D l s = Some (Ok v, s') \<and> rep s' m \<and> (room s \<longrightarrow> room s')"
    and lookup_missing: "rep s m \<Longrightarrow> m l = None \<Longrightarrow>
      \<exists>s' e. op_lookup D l s = Some (Err e, s') \<and> refuse e = Some Missing \<and> rep s' m \<and> (room s \<longrightarrow> room s')"
    and add_new: "rep s m \<Longrightarrow> room s \<Longrightarrow> valid v \<Longrightarrow> m l = None \<Longrightarrow>
      \<exists>s'. op_add_page D l v s = Some (Ok (), s') \<and> rep s' (m(l \<mapsto> v))"
    and add_old: "rep s m \<Longrightarrow> room s \<Longrightarrow> valid v \<Longrightarrow> m l \<noteq> None \<Longrightarrow>
      \<exists>s' e. op_add_page D l v s = Some (Err e, s') \<and> refuse e = Some Duplicate \<and> rep s' m"
    and update_old: "rep s m \<Longrightarrow> valid v \<Longrightarrow> m l \<noteq> None \<Longrightarrow>
      \<exists>s'. op_update_page D l v s = Some (Ok (), s') \<and> rep s' (m(l \<mapsto> v))"
    and update_missing: "rep s m \<Longrightarrow> valid v \<Longrightarrow> m l = None \<Longrightarrow>
      \<exists>s' e. op_update_page D l v s = Some (Err e, s') \<and> refuse e = Some Missing \<and> rep s' m"
    and delete_old: "rep s m \<Longrightarrow> m l \<noteq> None \<Longrightarrow>
      \<exists>s'. op_delete_page D l s = Some (Ok (), s') \<and> rep s' (m(l := None))"
    and delete_missing: "rep s m \<Longrightarrow> m l = None \<Longrightarrow>
      \<exists>s' e. op_delete_page D l s = Some (Err e, s') \<and> refuse e = Some Missing \<and> rep s' m"
begin

lemma serve_map:
  assumes "rep s m" "room s" "request_ok valid r"
  shows "\<exists>s'. dir_serve D refuse r s = Some (fst (map_serve r m), s') \<and> rep s' (snd (map_serve r m))"
proof (cases r)
  case (Lookup l)
  then show ?thesis using lookup_found [OF assms(1), of l] lookup_missing [OF assms(1), of l]
    by (cases "m l") (auto simp: replied_def reply_def)
next
  case (Add l v)
  then show ?thesis using add_new [OF assms(1,2), of v l] add_old [OF assms(1,2), of v l] assms(3)
    by (cases "m l") (auto simp: replied_def reply_def)
next
  case (Update l v)
  then show ?thesis using update_old [OF assms(1), of v l] update_missing [OF assms(1), of v l] assms(3)
    by (cases "m l") (auto simp: replied_def reply_def)
next
  case (Delete l)
  then show ?thesis using delete_old [OF assms(1), of l] delete_missing [OF assms(1), of l]
    by (cases "m l") (auto simp: replied_def reply_def)
qed

text \<open>Every sequence of requests is answered as the map answers it, until there is no room.\<close>

lemma serve_all_map:
  assumes "rep s m" "\<forall>r\<in>set rs. request_ok valid r"
  shows "\<exists>k as s'. k \<le> length rs \<and> dir_serve_all D refuse (take k rs) s = Some (as, s') \<and>
    as = fst (serve_all map_serve (take k rs) m) \<and> rep s' (snd (serve_all map_serve (take k rs) m)) \<and>
    (k = length rs \<or> \<not> room s')"
  using assms
proof (induction rs arbitrary: s m)
  case (Cons r rs)
  show ?case
  proof (cases "room s")
    case False
    then show ?thesis using Cons.prems(1) by (intro exI [of _ 0] exI [of _ "[]"] exI [of _ s]) simp
  next
    case True
    with serve_map [of s m r] Cons.prems obtain s1 where s1: "dir_serve D refuse r s = Some (fst (map_serve r m), s1)"
      "rep s1 (snd (map_serve r m))" by auto
    from Cons.IH [OF s1(2)] Cons.prems(2) obtain k as s' where "k \<le> length rs"
      "dir_serve_all D refuse (take k rs) s1 = Some (as, s')"
      "as = fst (serve_all map_serve (take k rs) (snd (map_serve r m)))"
      "rep s' (snd (serve_all map_serve (take k rs) (snd (map_serve r m))))" "k = length rs \<or> \<not> room s'" by auto
    with s1 show ?thesis
      by (intro exI [of _ "Suc k"] exI [of _ "fst (map_serve r m) # as"] exI [of _ s']) (auto split: prod.split)
  qed
qed simp

text \<open>What is registered is found, until it is replaced or deleted.\<close>

lemma add_then_lookup:
  assumes "rep s m" "room s" "valid v" "m l = None"
  obtains s1 s2 where "op_add_page D l v s = Some (Ok (), s1)" "op_lookup D l s1 = Some (Ok v, s2)" "rep s1 (m(l \<mapsto> v))"
    "rep s2 (m(l \<mapsto> v))"
  using add_new [OF assms] lookup_found [of _ "m(l \<mapsto> v)" l v] by fastforce

end

section \<open>The B-tree directory keeps the contract\<close>

definition btree_directory :: "(dir, dir_error) dir_ops" where
  "btree_directory = \<lparr> op_lookup = lookup, op_add_page = add_page, op_update_page = update_page,
     op_delete_page = delete_page \<rparr>"

lemma btree_directory_simps [simp]:
  "op_lookup btree_directory = lookup" "op_add_page btree_directory = add_page"
  "op_update_page btree_directory = update_page" "op_delete_page btree_directory = delete_page"
  by (simp_all add: btree_directory_def)

text \<open>An addition to a page that is not full reports a duplicate as a corrupted page.\<close>

fun dir_refusal :: "dir_error \<Rightarrow> refusal option" where
  "dir_refusal (PageNotFound _) = Some Missing"
| "dir_refusal (DuplicatePage _) = Some Duplicate"
| "dir_refusal (PageCorruption (LeafInsertFailed (DuplicateKey _))) = Some Duplicate"
| "dir_refusal _ = None"

definition dir_room :: "dir \<Rightarrow> bool" where
  "dir_room s \<longleftrightarrow> unat (dnext s) < 2 ^ 31 - 1"

interpretation btree: page_directory btree_directory dir_refusal dir_rep dir_room page_aligned
proof (unfold_locales, unfold btree_directory_simps dir_room_def)
  fix s m l v
  show "dir_rep s m \<Longrightarrow> m l = Some v \<Longrightarrow> \<exists>s'. lookup l s = Some (Ok v, s') \<and> dir_rep s' m \<and> (unat (dnext s) < 2 ^ 31 - 1 \<longrightarrow> unat (dnext s') < 2 ^ 31 - 1)"
    using lookup_rep [of s m l] by auto
  show "dir_rep s m \<Longrightarrow> m l = None \<Longrightarrow> \<exists>s' e. lookup l s = Some (Err e, s') \<and> dir_refusal e = Some Missing \<and> dir_rep s' m \<and>
      (unat (dnext s) < 2 ^ 31 - 1 \<longrightarrow> unat (dnext s') < 2 ^ 31 - 1)"
    using lookup_rep [of s m l] by auto
  show "dir_rep s m \<Longrightarrow> unat (dnext s) < 2 ^ 31 - 1 \<Longrightarrow> page_aligned v \<Longrightarrow> m l = None \<Longrightarrow>
      \<exists>s'. add_page l v s = Some (Ok (), s') \<and> dir_rep s' (m(l \<mapsto> v))"
    by (rule add_rep(1))
  show "dir_rep s m \<Longrightarrow> unat (dnext s) < 2 ^ 31 - 1 \<Longrightarrow> page_aligned v \<Longrightarrow> m l \<noteq> None \<Longrightarrow>
      \<exists>s' e. add_page l v s = Some (Err e, s') \<and> dir_refusal e = Some Duplicate \<and> dir_rep s' m"
    using add_rep(2) [of s m v l] by fastforce
  show "dir_rep s m \<Longrightarrow> page_aligned v \<Longrightarrow> m l \<noteq> None \<Longrightarrow> \<exists>s'. update_page l v s = Some (Ok (), s') \<and> dir_rep s' (m(l \<mapsto> v))"
    using update_rep [of s m v l] by (simp del: not_None_eq)
  show "dir_rep s m \<Longrightarrow> page_aligned v \<Longrightarrow> m l = None \<Longrightarrow>
      \<exists>s' e. update_page l v s = Some (Err e, s') \<and> dir_refusal e = Some Missing \<and> dir_rep s' m"
    using update_rep [of s m v l] by auto
  show "dir_rep s m \<Longrightarrow> m l \<noteq> None \<Longrightarrow> \<exists>s'. delete_page l s = Some (Ok (), s') \<and> dir_rep s' (m(l := None))"
    using delete_rep [of s m l] by (simp del: not_None_eq)
  show "dir_rep s m \<Longrightarrow> m l = None \<Longrightarrow> \<exists>s' e. delete_page l s = Some (Err e, s') \<and> dir_refusal e = Some Missing \<and> dir_rep s' m"
    using delete_rep [of s m l] by auto (metis fun_upd_idem_iff dir_refusal.simps(1))
qed

section \<open>A directory with one page\<close>

lemma dir_rep_root: "dir_rep s m \<Longrightarrow> m l \<noteq> None \<Longrightarrow> droot s \<noteq> 0"
  by (auto simp: dir_rep_def dst_def)

lemma one_page:
  obtains s s1 where "open_dir None 4096 = Some (Ok (), s)"
    "add_page 7 \<lparr> pp_file = 2, pp_offset = 8192 \<rparr> s = Some (Ok (), s1)"
    "dir_rep s1 [7 \<mapsto> \<lparr> pp_file = 2, pp_offset = 8192 \<rparr>]"
proof -
  obtain s where s: "open_dir None 4096 = Some (Ok (), s)" "dir_rep s Map.empty" "dnext s = 1"
    by (rule open_new [of 4096]) simp_all
  have "page_aligned \<lparr> pp_file = 2, pp_offset = 8192 \<rparr>" by (simp add: page_aligned_def PAGE_BUF_SIZE_def)
  from add_rep(1) [OF s(2) this, of 7] that s(1,3) show ?thesis by auto
qed

section \<open>Properties of the page directory\<close>

text \<open>C1: Served one after another, any sequence of lookups, additions, updates and deletions gets from
the B-tree directory the answers a finite map gives, refusals included, and leaves it holding the map the
requests leave; it stops early only when the page counter has reached 2^31 - 1.\<close>

theorem directory_serves_map:
  assumes "dir_rep s m" "\<forall>r\<in>set rs. request_ok page_aligned r"
  shows "\<exists>k as s'. k \<le> length rs \<and> dir_serve_all btree_directory dir_refusal (take k rs) s = Some (as, s') \<and>
    as = fst (serve_all map_serve (take k rs) m) \<and> dir_rep s' (snd (serve_all map_serve (take k rs) m)) \<and>
    (k = length rs \<or> \<not> dir_room s')"
  by (rule btree.serve_all_map [OF assms])

theorem directory_serves_map_witness:
  "\<exists>s k as s'. open_dir None 4096 = Some (Ok (), s) \<and> k \<le> 3 \<and>
    dir_serve_all btree_directory dir_refusal (take k [Add 7 \<lparr> pp_file = 2, pp_offset = 8192 \<rparr>, Lookup 7, Delete 9]) s = Some (as, s') \<and>
    as = take k [Done, Found \<lparr> pp_file = 2, pp_offset = 8192 \<rparr>, Refused Missing] \<and> (k = 3 \<or> \<not> dir_room s')"
proof -
  define rs where "rs = [Add 7 \<lparr> pp_file = 2, pp_offset = 8192 \<rparr>, Lookup 7, Delete 9]"
  obtain s where s: "open_dir None 4096 = Some (Ok (), s)" "dir_rep s Map.empty" by (rule open_new [of 4096]) simp_all
  have "\<forall>r\<in>set rs. request_ok page_aligned r" by (simp add: rs_def page_aligned_def PAGE_BUF_SIZE_def)
  from directory_serves_map [OF s(2) this] obtain k as s' where k: "k \<le> length rs"
    "dir_serve_all btree_directory dir_refusal (take k rs) s = Some (as, s')"
    "as = fst (serve_all map_serve (take k rs) Map.empty)" "k = length rs \<or> \<not> dir_room s'" by blast
  have len: "length rs = 3" by (simp add: rs_def)
  have "k = 0 \<or> k = 1 \<or> k = 2 \<or> k = 3" using k(1) len by linarith
  then have "fst (serve_all map_serve (take k rs) Map.empty) =
    take k [Done, Found \<lparr> pp_file = 2, pp_offset = 8192 \<rparr>, Refused Missing]" by (elim disjE) (simp_all add: rs_def)
  with s(1) k len show ?thesis unfolding rs_def [symmetric] by auto
qed

text \<open>C8: Adding a page to the directory: a new id is registered and nothing else changes; a known id is
refused and nothing changes, as \<open>DuplicatePage\<close> or, when its leaf still has room, as a page corruption.\<close>

theorem directory_add:
  assumes "dir_rep s m" "page_aligned pp" "unat (dnext s) < 2 ^ 31 - 1"
  shows "\<exists>r s'. add_page l pp s = Some (r, s') \<and>
    (if m l = None then r = Ok () \<and> dir_rep s' (m(l \<mapsto> pp))
     else r \<in> {Err (DuplicatePage l), Err (PageCorruption (LeafInsertFailed (DuplicateKey (ucast l))))} \<and> dir_rep s' m)"
  using add_rep(1,2) [OF assms, of l] by (cases "m l") fastforce+

theorem directory_add_witness:
  "\<exists>s r s'. open_dir None 4096 = Some (Ok (), s) \<and> add_page 7 \<lparr> pp_file = 2, pp_offset = 8192 \<rparr> s = Some (r, s') \<and>
    r = Ok () \<and> dir_rep s' [7 \<mapsto> \<lparr> pp_file = 2, pp_offset = 8192 \<rparr>]"
proof -
  obtain s where s: "open_dir None 4096 = Some (Ok (), s)" "dir_rep s Map.empty" "dnext s = 1"
    by (rule open_new [of 4096]) simp_all
  have "page_aligned \<lparr> pp_file = 2, pp_offset = 8192 \<rparr>" by (simp add: page_aligned_def PAGE_BUF_SIZE_def)
  from directory_add [OF s(2) this, of 7] s(1,3) show ?thesis by auto
qed

text \<open>C9: The descent ends: for every key it reaches a leaf page, the only page that can hold the key, and the
directory's answer for the key is what that page holds.\<close>

theorem directory_find_leaf:
  assumes "dir_rep s m" "droot s \<noteq> 0"
  shows "\<exists>i p s'. find_leaf (ucast l) s = Some (Ok i, s') \<and> read_page i s' = Some (Ok p, s'\<lparr> dcache := (dcache s')(i \<mapsto> p) \<rparr>) \<and>
    get_type (uber_header p) = Ok DirectoryLeaf \<and> m l = dl_map p (ucast l)"
  using assms(1)
proof (cases rule: dir_rep_cases)
  case (empty V n h)
  then show ?thesis using assms(2) by (simp add: dst_root)
next
  case (tree V n h t)
  obtain gs i es p s' where loc: "t = plug gs (Leaf i es)" "located V n gs i es p (ucast l)" "dst V n (tid t) s'"
    "find_leaf (ucast l) s = Some (Ok i, s')" by (rule locate [OF tree(5,1)])
  have p: "V i = Some p" "leaf_page dl_layout DirectoryLeaf p es" using loc(2) by (simp_all add: located_def)
  have "m l = dl_map p (ucast l)" using located_leaf_map [OF loc(2)] loc(1) tree(6) by simp
  moreover have "get_type (uber_header p) = Ok DirectoryLeaf" using p(2) by (simp add: leaf_page_def get_type_def del: page_type_byte.simps)
  moreover have "read_page i s' = Some (Ok p, s'\<lparr> dcache := (dcache s')(i \<mapsto> p) \<rparr>)"
    using loc(3) p(1)
    by (auto simp: dst_def view_def read_page_def file_page_def PAGE_BUF_SIZE_def fun_upd_idem split: option.splits if_splits)
  ultimately show ?thesis using loc(4) by blast
qed

theorem directory_find_leaf_witness:
  "\<exists>s s1 i p s'. open_dir None 4096 = Some (Ok (), s) \<and> add_page 7 \<lparr> pp_file = 2, pp_offset = 8192 \<rparr> s = Some (Ok (), s1) \<and>
    find_leaf 7 s1 = Some (Ok i, s') \<and> get_type (uber_header p) = Ok DirectoryLeaf \<and> dl_map p 7 = Some \<lparr> pp_file = 2, pp_offset = 8192 \<rparr>"
proof -
  obtain s s1 where s: "open_dir None 4096 = Some (Ok (), s)" "add_page 7 \<lparr> pp_file = 2, pp_offset = 8192 \<rparr> s = Some (Ok (), s1)"
    "dir_rep s1 [7 \<mapsto> \<lparr> pp_file = 2, pp_offset = 8192 \<rparr>]" by (rule one_page)
  have "droot s1 \<noteq> 0" by (rule dir_rep_root [OF s(3), of 7]) simp
  from directory_find_leaf [OF s(3) this, of 7] s show ?thesis by auto
qed

text \<open>C2: Flushing and opening the file again keeps the directory: the flush succeeds, and the reopened
directory answers every lookup as the old one.\<close>

theorem directory_persists:
  assumes "dir_rep s m" "\<forall>A. finite A \<longrightarrow> set (iter A) = A" "a mod 8 = 0"
  shows "\<exists>s' s2. flush_all_dirty iter s = Some (Ok (), s') \<and> dir_rep s' m \<and> open_dir (dfile s') a = Some (Ok (), s2) \<and>
    (\<forall>l. \<exists>s3. lookup l s2 = Some (case m l of Some pp \<Rightarrow> Ok pp | None \<Rightarrow> Err (PageNotFound l), s3))"
proof -
  obtain s' s2 where "flush_all_dirty iter s = Some (Ok (), s')" "dir_rep s' m"
    "open_dir (dfile s') a = Some (Ok (), s2)" "\<forall>l. \<exists>s3. lookup l s2 = Some (answer m l, s3)"
    by (rule reopen_rep [OF assms])
  then show ?thesis by blast
qed

theorem directory_persists_witness:
  "\<exists>s s1 s' s2 s3. open_dir None 4096 = Some (Ok (), s) \<and> add_page 7 \<lparr> pp_file = 2, pp_offset = 8192 \<rparr> s = Some (Ok (), s1) \<and>
    flush_all_dirty sorted_list_of_set s1 = Some (Ok (), s') \<and> open_dir (dfile s') 8192 = Some (Ok (), s2) \<and>
    lookup 7 s2 = Some (Ok \<lparr> pp_file = 2, pp_offset = 8192 \<rparr>, s3)"
proof -
  obtain s s1 where s: "open_dir None 4096 = Some (Ok (), s)" "add_page 7 \<lparr> pp_file = 2, pp_offset = 8192 \<rparr> s = Some (Ok (), s1)"
    "dir_rep s1 [7 \<mapsto> \<lparr> pp_file = 2, pp_offset = 8192 \<rparr>]" by (rule one_page)
  have "\<forall>A :: u32 set. finite A \<longrightarrow> set (sorted_list_of_set A) = A" by simp
  from directory_persists [OF s(3) this, of 8192] obtain s' s2 where
    "flush_all_dirty sorted_list_of_set s1 = Some (Ok (), s')" "open_dir (dfile s') 8192 = Some (Ok (), s2)"
    "\<forall>l. \<exists>s3. lookup l s2 = Some (answer [7 \<mapsto> \<lparr> pp_file = 2, pp_offset = 8192 \<rparr>] l, s3)" by auto
  from this(3) [rule_format, of 7] this(1,2) s(1,2) show ?thesis by auto
qed

text \<open>A directory opened on a file that does not exist is empty: every lookup, update and deletion
reports \<open>PageNotFound\<close>.\<close>

theorem directory_new_is_empty:
  assumes "a mod 8 = 0"
  shows "\<exists>s. open_dir None a = Some (Ok (), s) \<and> dir_rep s Map.empty \<and> lookup l s = Some (Err (PageNotFound l), s) \<and>
    update_page l pp s = Some (Err (PageNotFound l), s) \<and> delete_page l s = Some (Err (PageNotFound l), s)"
proof -
  obtain s where s: "open_dir None a = Some (Ok (), s)" "dir_rep s Map.empty" by (rule open_new [OF assms])
  have "droot s = 0" using s(1) by (auto simp: open_dir_def init_new_def modify_def dir_new_def)
  then show ?thesis using s by (simp add: lookup_def update_page_def delete_page_def gets_def pbind_def fail_def)
qed

theorem directory_new_is_empty_witness:
  "\<exists>s. open_dir None 4096 = Some (Ok (), s) \<and> lookup 3 s = Some (Err (PageNotFound 3), s)"
  using directory_new_is_empty [of 4096 3 "\<lparr> pp_file = 0, pp_offset = 0 \<rparr>"] by auto

end
