(* ===== verification/Allocator.thy ===== *)
theory Allocator
  imports DirLeaf
begin

text \<open>
  \<open>src/src/storage/allocator/allocator.rs\<close>: the trait \<open>PageAllocator\<close> as a record of operations
  with its contract as a locale, and \<open>SimpleAllocator\<close>, which hands out pages at the end of each
  file. A panic while the lock is held for writing poisons it, and every later use of the lock
  panics.
\<close>

section \<open>The trait\<close>

record ('a, 'f) alloc_ops =
  al_allocate :: "u32 \<Rightarrow> ('a, 'f, ppage_id) prog"
  al_deallocate :: "ppage_id \<Rightarrow> ('a, 'f, unit) prog"

text \<open>Allocating one page for each file of a list.\<close>

fun allocate_all :: "('a, 'f) alloc_ops \<Rightarrow> u32 list \<Rightarrow> ('a, 'f, ppage_id list) prog" where
  "allocate_all A [] = ret []"
| "allocate_all A (f # fs) = pbind (al_allocate A f) (\<lambda>v. pbind (allocate_all A fs) (\<lambda>vs. ret (v # vs)))"

text \<open>\<open>used s v\<close>: the page \<open>v\<close> has been handed out. \<open>space n s f\<close>: the file has \<open>n\<close> more pages.\<close>

locale page_allocator =
  fixes A :: "('a, 'f) alloc_ops"
    and used :: "'a \<Rightarrow> ppage_id \<Rightarrow> bool"
    and space :: "nat \<Rightarrow> 'a \<Rightarrow> bool"
  assumes allocate: "space (Suc n) s \<Longrightarrow> \<exists>v s'. al_allocate A f s = Some (Ok v, s') \<and> \<not> used s v \<and> pp_file v = f \<and>
      page_aligned v \<and> (\<forall>w. page_aligned w \<longrightarrow> used s' w = (used s w \<or> w = v)) \<and> space n s'"
    and deallocate: "space n s \<Longrightarrow> \<exists>s'. al_deallocate A v s = Some (Ok (), s') \<and>
      (\<forall>w. w \<noteq> v \<longrightarrow> used s' w = used s w) \<and> space n s'"
begin

lemma allocate_distinct:
  assumes "space (length fs) s"
  shows "\<exists>vs s'. allocate_all A fs s = Some (Ok vs, s') \<and> distinct vs \<and> map pp_file vs = fs \<and>
    (\<forall>v\<in>set vs. page_aligned v \<and> \<not> used s v) \<and> (\<forall>w. page_aligned w \<longrightarrow> used s' w = (used s w \<or> w \<in> set vs))"
  using assms
proof (induction fs arbitrary: s)
  case Nil
  then show ?case by (simp add: ret_def)
next
  case (Cons f fs)
  from allocate [of "length fs" s f] Cons.prems obtain v s1 where v: "al_allocate A f s = Some (Ok v, s1)"
    "\<not> used s v" "pp_file v = f" "page_aligned v" "\<forall>w. page_aligned w \<longrightarrow> used s1 w = (used s w \<or> w = v)"
    "space (length fs) s1" by auto
  from Cons.IH [OF v(6)] obtain vs s' where vs: "allocate_all A fs s1 = Some (Ok vs, s')" "distinct vs" "map pp_file vs = fs"
    "\<forall>v\<in>set vs. page_aligned v \<and> \<not> used s1 v" "\<forall>w. page_aligned w \<longrightarrow> used s' w = (used s1 w \<or> w \<in> set vs)"
    by blast
  have "v \<notin> set vs" using vs(4) v(4,5) by auto
  moreover have "allocate_all A (f # fs) s = Some (Ok (v # vs), s')"
    using v(1) vs(1) by (simp add: pbind_def ret_def)
  ultimately show ?case using v vs by (intro exI [of _ "v # vs"] exI [of _ s'] conjI) auto
qed

end

section \<open>The simple allocator\<close>

record simple_allocator =
  next_page :: "u32 \<rightharpoonup> u32"
  poisoned :: bool

definition sa_new :: simple_allocator where
  "sa_new = \<lparr> next_page = Map.empty, poisoned = False \<rparr>"

definition sa_register_file :: "u32 \<Rightarrow> u32 \<Rightarrow> (simple_allocator, 'f, unit) prog" where
  "sa_register_file fid current_page_count s = (if poisoned s then Some (Panic, s)
     else Some (Ok (), s\<lparr> next_page := (next_page s)(fid \<mapsto> current_page_count) \<rparr>))"

definition sa_page_count :: "u32 \<Rightarrow> (simple_allocator, 'f, u32 option) prog" where
  "sa_page_count fid s = (if poisoned s then Some (Panic, s) else Some (Ok (next_page s fid), s))"

text \<open>\<open>*next += 1\<close> panics at the end of the counter, after the entry has been inserted.\<close>

definition sa_allocate :: "u32 \<Rightarrow> (simple_allocator, 'f, ppage_id) prog" where
  "sa_allocate fid s = (if poisoned s then Some (Panic, s)
     else let page_num = (case next_page s fid of Some n \<Rightarrow> n | None \<Rightarrow> 1) in
       if page_num = 4294967295
       then Some (Panic, s\<lparr> next_page := (next_page s)(fid \<mapsto> page_num), poisoned := True \<rparr>)
       else Some (Ok \<lparr> pp_file = fid, pp_offset = ucast page_num * word_of_nat PAGE_BUF_SIZE \<rparr>,
         s\<lparr> next_page := (next_page s)(fid \<mapsto> page_num + 1) \<rparr>))"

definition sa_deallocate :: "ppage_id \<Rightarrow> (simple_allocator, 'f, unit) prog" where
  "sa_deallocate v = ret ()"

definition simple_allocator_ops :: "(simple_allocator, 'f) alloc_ops" where
  "simple_allocator_ops = \<lparr> al_allocate = sa_allocate, al_deallocate = sa_deallocate \<rparr>"

lemma simple_allocator_ops_simps [simp]:
  "al_allocate simple_allocator_ops = sa_allocate" "al_deallocate simple_allocator_ops = sa_deallocate"
  by (simp_all add: simple_allocator_ops_def)

section \<open>The simple allocator keeps the contract\<close>

abbreviation sa_next :: "simple_allocator \<Rightarrow> u32 \<Rightarrow> u32" where
  "sa_next s f \<equiv> (case next_page s f of Some n \<Rightarrow> n | None \<Rightarrow> 1)"

text \<open>Every page below a file's counter counts as handed out, the header page 0 among them.\<close>

definition sa_used :: "simple_allocator \<Rightarrow> ppage_id \<Rightarrow> bool" where
  "sa_used s v \<longleftrightarrow> unat (pp_offset v) < unat (sa_next s (pp_file v)) * 4096"

definition sa_space :: "nat \<Rightarrow> simple_allocator \<Rightarrow> bool" where
  "sa_space n s \<longleftrightarrow> \<not> poisoned s \<and> (\<forall>f. unat (sa_next s f) + n < 2 ^ 32)"

lemma page_offset: "unat (ucast (n :: u32) * word_of_nat PAGE_BUF_SIZE :: u64) = unat n * 4096"
proof -
  have "unat (ucast n :: u64) = unat n" by (rule unat_ucast_wide) simp
  moreover have "unat n < 2 ^ 32" using unat_bound [of n] by simp
  ultimately show ?thesis by (simp add: unat_mult_word PAGE_BUF_SIZE_def unat_of_nat)
qed

interpretation simple: page_allocator simple_allocator_ops sa_used sa_space
proof (unfold_locales, unfold simple_allocator_ops_simps)
  fix n s f
  assume sp: "sa_space (Suc n) s"
  let ?n = "sa_next s f"
  let ?v = "\<lparr> pp_file = f, pp_offset = ucast ?n * word_of_nat PAGE_BUF_SIZE \<rparr>"
  let ?s = "s\<lparr> next_page := (next_page s)(f \<mapsto> ?n + 1) \<rparr>"
  have b: "unat ?n + Suc n < 2 ^ 32" "\<not> poisoned s" using sp by (simp_all add: sa_space_def)
  then have n: "?n \<noteq> 4294967295" by (auto dest!: arg_cong [of _ "4294967295 :: u32" unat])
  have suc: "unat (?n + 1) = unat ?n + 1" using b by (simp add: unat_word_ariths)
  have off: "unat (pp_offset ?v) = unat ?n * 4096" by (simp add: page_offset)
  have al: "page_aligned ?v" using off b by (simp add: page_aligned_def)
  have used: "sa_used ?s w = (sa_used s w \<or> w = ?v)" if w: "page_aligned w" for w
  proof (cases "pp_file w = f")
    case True
    obtain k where k: "unat (pp_offset w) = k * 4096" using w by (auto simp: page_aligned_def)
    have "w = ?v \<longleftrightarrow> unat (pp_offset w) = unat (pp_offset ?v)"
      using True word_unat_eqI by (cases w) auto
    then have "w = ?v \<longleftrightarrow> k = unat ?n" using off k by simp
    moreover have "sa_used ?s w \<longleftrightarrow> k < unat ?n + 1" "sa_used s w \<longleftrightarrow> k < unat ?n"
      using True k suc by (simp_all add: sa_used_def) linarith
    ultimately show ?thesis by auto
  next
    case False
    then show ?thesis by (auto simp: sa_used_def)
  qed
  have "sa_allocate f s = Some (Ok ?v, ?s)" using b(2) n by (simp add: sa_allocate_def Let_def)
  moreover have "\<not> sa_used s ?v" using off by (simp add: sa_used_def)
  moreover have "sa_space n ?s" unfolding sa_space_def
  proof (intro conjI allI)
    fix g show "unat (sa_next ?s g) + n < 2 ^ 32"
      using sp suc b by (cases "g = f") (auto simp: sa_space_def intro: Suc_lessD)
  qed (use b in simp)
  ultimately show "\<exists>v s'. sa_allocate f s = Some (Ok v, s') \<and> \<not> sa_used s v \<and> pp_file v = f \<and>
      page_aligned v \<and> (\<forall>w. page_aligned w \<longrightarrow> sa_used s' w = (sa_used s w \<or> w = v)) \<and> sa_space n s'"
    using al used by (intro exI [of _ ?v] exI [of _ ?s]) simp
next
  fix n s v
  show "sa_space n s \<Longrightarrow> \<exists>s'. sa_deallocate v s = Some (Ok (), s') \<and> (\<forall>w. w \<noteq> v \<longrightarrow> sa_used s' w = sa_used s w) \<and> sa_space n s'"
    by (simp add: sa_deallocate_def ret_def)
qed

section \<open>Properties of the allocator\<close>

text \<open>C10: The simple allocator never hands out a page twice: for any list of files it returns one page of each
file, all different, all whole pages, none of them a header page or handed out before.\<close>

theorem allocator_distinct:
  assumes "sa_space (length fs) s"
  shows "\<exists>vs s'. allocate_all simple_allocator_ops fs s = Some (Ok vs, s') \<and> distinct vs \<and> map pp_file vs = fs \<and>
    (\<forall>v\<in>set vs. page_aligned v \<and> \<not> sa_used s v) \<and> (\<forall>w. page_aligned w \<longrightarrow> sa_used s' w = (sa_used s w \<or> w \<in> set vs))"
  by (rule simple.allocate_distinct [OF assms])

theorem allocator_distinct_witness:
  "\<exists>vs s'. allocate_all simple_allocator_ops [2, 2, 5] sa_new = Some (Ok vs, s') \<and> distinct vs \<and> map pp_file vs = [2, 2, 5]"
  using allocator_distinct [of "[2, 2, 5]" sa_new] by (auto simp: sa_space_def sa_new_def)

text \<open>The counter of one file: without registration the first page is page 1; a registered count is the next
page; and the allocation after the last page number panics and poisons the lock, so that every later
operation panics.\<close>

theorem allocator_counter:
  assumes "\<not> poisoned s"
  shows "if sa_next s f = 4294967295
    then \<exists>s'. sa_allocate f s = Some (Panic, s') \<and> sa_allocate g s' = Some (Panic, s') \<and>
      sa_page_count g s' = Some (Panic, s') \<and> sa_register_file g k s' = Some (Panic, s')
    else \<exists>s'. sa_allocate f s = Some (Ok \<lparr> pp_file = f, pp_offset = ucast (sa_next s f) * 4096 \<rparr>, s') \<and>
      sa_page_count f s' = Some (Ok (Some (sa_next s f + 1)), s') \<and> (g \<noteq> f \<longrightarrow> next_page s' g = next_page s g)"
  using assms by (simp add: sa_allocate_def sa_page_count_def sa_register_file_def Let_def PAGE_BUF_SIZE_def)

theorem allocator_counter_witness:
  "\<exists>s'. sa_allocate 3 sa_new = Some (Ok \<lparr> pp_file = 3, pp_offset = 4096 \<rparr>, s') \<and>
    sa_page_count 3 s' = Some (Ok (Some 2), s')"
  using allocator_counter [of sa_new 3 4 0] by (auto simp: sa_new_def)

end
