(* ===== verification/Disk.thy ===== *)
theory Disk
  imports DirService Allocator
begin

text \<open>
  \<open>src/src/storage/disk.rs\<close>: \<open>DiskManagerImpl\<close>, which translates logical page ids with a page
  directory and reads and writes pages in files, and makes new pages with an allocator. The code
  is generic in both, so the operations take the records of their operations; the locale
  \<open>disk_manager\<close> proves the manager's contract from the contracts of the two, and the
  interpretation applies it to the B-tree directory and the simple allocator.

  A file is a sequence of bytes named by its path inside the base directory. Opening with
  \<open>create(true)\<close> gives an empty file when there is none. Reading past the end fails, writing
  past the end fills the gap with zeros. Other failures of the operating system are not modelled.
\<close>

section \<open>File names\<close>

datatype file_type = Heap | Index | Directory

fun extension :: "file_type \<Rightarrow> string" where
  "extension Heap = ''heap''"
| "extension Index = ''idx''"
| "extension Directory = ''dir''"

definition file_path :: "u32 \<Rightarrow> file_type \<Rightarrow> string" where
  "file_path fno t = decimal (unat fno) @ ''.'' @ extension t"

lemma file_path_inj: "file_path f t = file_path g u \<Longrightarrow> f = g \<and> t = u"
proof -
  assume eq: "file_path f t = file_path g u"
  have tw: "takeWhile (\<lambda>c. c \<noteq> CHR ''.'') (file_path x y) = decimal (unat x)" for x y
    using decimal_no_dot unfolding file_path_def by (subst takeWhile_append2) auto
  from eq have "decimal (unat f) = decimal (unat g)" using tw [of f t] tw [of g u] by simp
  then have d: "f = g" using undecimal_decimal [of "unat f"] undecimal_decimal [of "unat g"] word_unat_eqI by metis
  with eq have "extension t = extension u" by (simp add: file_path_def)
  then have "t = u" by (cases t; cases u) simp_all
  with d show ?thesis by simp
qed

section \<open>The disk manager\<close>

datatype ('e, 'f) disk_error = DiskIO io_error | DirectoryError 'e | AllocatorError 'f

text \<open>A handle is the path it was opened with.\<close>

record ('d, 'a) disk =
  dk_directory :: 'd
  dk_allocator :: 'a
  next_lpage_id :: u32
  file_handles :: "u32 \<rightharpoonup> string"
  file_types :: "u32 \<rightharpoonup> file_type"
  os_files :: "string \<rightharpoonup> byte list"

type_synonym ('d, 'e, 'a, 'f, 'x) disk_prog = "(('d, 'a) disk, ('e, 'f) disk_error, 'x) prog"

definition disk_new :: "'d \<Rightarrow> 'a \<Rightarrow> u32 \<Rightarrow> (string \<rightharpoonup> byte list) \<Rightarrow> ('d, 'a) disk" where
  "disk_new d a n fs = \<lparr> dk_directory = d, dk_allocator = a, next_lpage_id = n, file_handles = Map.empty,
     file_types = Map.empty, os_files = fs \<rparr>"

definition register_file :: "u32 \<Rightarrow> file_type \<Rightarrow> ('d, 'e, 'a, 'f, unit) disk_prog" where
  "register_file fno t = modify (\<lambda>s. s\<lparr> file_types := (file_types s)(fno \<mapsto> t) \<rparr>)"

definition get_file :: "u32 \<Rightarrow> ('d, 'e, 'a, 'f, string) disk_prog" where
  "get_file fno s = (case file_handles s fno of
       Some handle \<Rightarrow> ret handle s
     | None \<Rightarrow>
       let path = file_path fno (case file_types s fno of Some t \<Rightarrow> t | None \<Rightarrow> Heap) in
       ret path (s\<lparr> os_files := (os_files s)(path \<mapsto> (case os_files s path of Some bs \<Rightarrow> bs | None \<Rightarrow> [])),
         file_handles := (file_handles s)(fno \<mapsto> path) \<rparr>))"

text \<open>\<open>fetch_add\<close> wraps around.\<close>

definition alloc_lpage_id :: "('d, 'e, 'a, 'f, u32) disk_prog" where
  "alloc_lpage_id s = ret (next_lpage_id s) (s\<lparr> next_lpage_id := next_lpage_id s + 1 \<rparr>)"

text \<open>A call of the directory or the allocator, with \<open>?\<close> converting its error.\<close>

definition in_directory :: "('d, 'e, 'x) prog \<Rightarrow> ('d, 'e, 'a, 'f, 'x) disk_prog" where
  "in_directory m s = (case m (dk_directory s) of None \<Rightarrow> None
     | Some (r, d) \<Rightarrow> Some (map_err DirectoryError r, s\<lparr> dk_directory := d \<rparr>))"

definition in_allocator :: "('a, 'f, 'x) prog \<Rightarrow> ('d, 'e, 'a, 'f, 'x) disk_prog" where
  "in_allocator m s = (case m (dk_allocator s) of None \<Rightarrow> None
     | Some (r, a) \<Rightarrow> Some (map_err AllocatorError r, s\<lparr> dk_allocator := a \<rparr>))"

text \<open>\<open>read_exact_at\<close> fills a target of \<open>n\<close> bytes; the target is the result.\<close>

definition read_page_at_loc :: "ppage_id \<Rightarrow> nat \<Rightarrow> ('d, 'e, 'a, 'f, byte list) disk_prog" where
  "read_page_at_loc loc n = pbind (get_file (pp_file loc)) (\<lambda>handle s.
     let bs = (case os_files s handle of Some bs \<Rightarrow> bs | None \<Rightarrow> []) in
     if length bs < unat (pp_offset loc) + n then fail (DiskIO UnexpectedEof) s
     else ret (bytes_at (unat (pp_offset loc)) n bs) s)"

definition write_page_at_loc :: "ppage_id \<Rightarrow> byte list \<Rightarrow> ('d, 'e, 'a, 'f, unit) disk_prog" where
  "write_page_at_loc loc data = pbind (get_file (pp_file loc)) (\<lambda>handle.
     modify (\<lambda>s. s\<lparr> os_files := (os_files s)(handle \<mapsto>
       file_write (unat (pp_offset loc)) data (case os_files s handle of Some bs \<Rightarrow> bs | None \<Rightarrow> [])) \<rparr>))"

definition disk_read_page :: "('d, 'e) dir_ops \<Rightarrow> u32 \<Rightarrow> nat \<Rightarrow> ('d, 'e, 'a, 'f, ppage_id \<times> byte list) disk_prog" where
  "disk_read_page D l n = pbind (in_directory (op_lookup D l)) (\<lambda>loc.
     pbind (read_page_at_loc loc n) (\<lambda>target. ret (loc, target)))"

definition disk_write_page :: "('d, 'e) dir_ops \<Rightarrow> u32 \<Rightarrow> byte list \<Rightarrow> ('d, 'e, 'a, 'f, unit) disk_prog" where
  "disk_write_page D l data = pbind (in_directory (op_lookup D l)) (\<lambda>loc. write_page_at_loc loc data)"

definition disk_new_page :: "('d, 'e) dir_ops \<Rightarrow> ('a, 'f) alloc_ops \<Rightarrow> u32 \<Rightarrow> ('d, 'e, 'a, 'f, u32 \<times> ppage_id) disk_prog" where
  "disk_new_page D A fno = pbind alloc_lpage_id (\<lambda>l.
     pbind (in_allocator (al_allocate A fno)) (\<lambda>loc.
     pbind (in_directory (op_add_page D l loc)) (\<lambda>_. ret (l, loc))))"

text \<open>Requests of a client that reads and writes pages of 4096 bytes.\<close>

datatype disk_request = ReadPage u32 | WritePage u32 page

fun disk_serve :: "('d, 'e) dir_ops \<Rightarrow> disk_request list \<Rightarrow> ('d, 'a) disk \<Rightarrow> ('d, 'a) disk option" where
  "disk_serve D [] s = Some s"
| "disk_serve D (ReadPage l # rs) s = (case (disk_read_page D l 4096 :: ('d, 'e, 'a, unit, ppage_id \<times> byte list) disk_prog) s of
     None \<Rightarrow> None | Some (_, s') \<Rightarrow> disk_serve D rs s')"
| "disk_serve D (WritePage l data # rs) s = (case (disk_write_page D l data :: ('d, 'e, 'a, unit, unit) disk_prog) s of
     None \<Rightarrow> None | Some (_, s') \<Rightarrow> disk_serve D rs s')"

section \<open>What a place in a file holds\<close>

definition path_of :: "('d, 'a) disk \<Rightarrow> u32 \<Rightarrow> string" where
  "path_of s fno = (case file_handles s fno of Some h \<Rightarrow> h
     | None \<Rightarrow> file_path fno (case file_types s fno of Some t \<Rightarrow> t | None \<Rightarrow> Heap))"

definition contents :: "('d, 'a) disk \<Rightarrow> u32 \<Rightarrow> byte list" where
  "contents s fno = (case os_files s (path_of s fno) of Some bs \<Rightarrow> bs | None \<Rightarrow> [])"

definition stored :: "('d, 'a) disk \<Rightarrow> ppage_id \<Rightarrow> page option" where
  "stored s v = (if length (contents s (pp_file v)) < unat (pp_offset v) + 4096 then None
     else Some (bytes_at (unat (pp_offset v)) 4096 (contents s (pp_file v))))"

definition handles_ok :: "('d, 'a) disk \<Rightarrow> bool" where
  "handles_ok s \<longleftrightarrow> (\<forall>f h. file_handles s f = Some h \<longrightarrow> (\<exists>t. h = file_path f t))"

lemma path_of_update [simp]: "path_of (s\<lparr> os_files := x \<rparr>) = path_of s" "path_of (s\<lparr> dk_directory := y \<rparr>) = path_of s"
  "path_of (s\<lparr> dk_allocator := z \<rparr>) = path_of s" "path_of (s\<lparr> next_lpage_id := n \<rparr>) = path_of s"
  by (simp_all add: path_of_def fun_eq_iff split: option.split)

lemma path_of_inj: "handles_ok s \<Longrightarrow> path_of s f = path_of s g \<Longrightarrow> f = g"
proof -
  assume ok: "handles_ok s" and eq: "path_of s f = path_of s g"
  have "\<exists>t. path_of s h = file_path h t" for h
    using ok by (cases "file_handles s h") (auto simp: path_of_def handles_ok_def)
  then obtain t u where "path_of s f = file_path f t" "path_of s g = file_path g u" by blast
  with eq show ?thesis using file_path_inj by metis
qed

text \<open>Opening a file changes neither the names nor the contents.\<close>

lemma get_file_run:
  fixes s :: "('d, 'a) disk"
  assumes "handles_ok s"
  obtains s' where "(get_file f :: ('d, 'e, 'a, 'f, string) disk_prog) s = Some (Ok (path_of s f), s')" "handles_ok s'" "path_of s' = path_of s"
    "contents s' = contents s" "dk_directory s' = dk_directory s" "dk_allocator s' = dk_allocator s"
    "next_lpage_id s' = next_lpage_id s"
proof (cases "file_handles s f")
  case (Some h)
  with that [of s] assms show ?thesis by (simp add: get_file_def ret_def path_of_def)
next
  case None
  let ?p = "path_of s f"
  define s' where "s' = s\<lparr> os_files := (os_files s)(?p \<mapsto> contents s f), file_handles := (file_handles s)(f \<mapsto> ?p) \<rparr>"
  have p: "?p = file_path f (case file_types s f of Some t \<Rightarrow> t | None \<Rightarrow> Heap)" using None by (simp add: path_of_def)
  have "(get_file f :: ('d, 'e, 'a, 'f, string) disk_prog) s = Some (Ok ?p, s')"
    using None by (simp add: get_file_def Let_def ret_def s'_def contents_def p [symmetric])
  moreover have "handles_ok s'" using assms p by (auto simp: handles_ok_def s'_def)
  moreover have path: "path_of s' = path_of s" using p by (auto simp: path_of_def s'_def fun_eq_iff None split: option.split)
  moreover have "contents s' g = contents s g" for g
    unfolding contents_def path by (auto simp: s'_def contents_def)
  then have "contents s' = contents s" by (simp add: fun_eq_iff)
  ultimately show ?thesis using that by (simp add: s'_def)
qed

lemma stored_cong: "contents s' = contents s \<Longrightarrow> stored s' = stored s"
  by (simp add: stored_def fun_eq_iff)

lemma read_loc_run:
  fixes s :: "('d, 'a) disk"
  assumes "handles_ok s"
  obtains s' where "(read_page_at_loc v 4096 :: ('d, 'e, 'a, 'f, page) disk_prog) s = Some (case stored s v of Some p \<Rightarrow> Ok p | None \<Rightarrow> Err (DiskIO UnexpectedEof), s')"
    "handles_ok s'" "stored s' = stored s" "dk_directory s' = dk_directory s" "dk_allocator s' = dk_allocator s"
    "next_lpage_id s' = next_lpage_id s"
proof -
  obtain s' where s': "(get_file (pp_file v) :: ('d, 'e, 'a, 'f, string) disk_prog) s = Some (Ok (path_of s (pp_file v)), s')" "handles_ok s'" "path_of s' = path_of s"
    "contents s' = contents s" "dk_directory s' = dk_directory s" "dk_allocator s' = dk_allocator s"
    "next_lpage_id s' = next_lpage_id s" by (rule get_file_run [OF assms])
  have "(case os_files s' (path_of s (pp_file v)) of Some bs \<Rightarrow> bs | None \<Rightarrow> []) = contents s (pp_file v)"
    using fun_cong [OF s'(4), of "pp_file v"] unfolding contents_def s'(3) .
  then have "(read_page_at_loc v 4096 :: ('d, 'e, 'a, 'f, page) disk_prog) s = Some (case stored s v of Some p \<Rightarrow> Ok p | None \<Rightarrow> Err (DiskIO UnexpectedEof), s')"
    using s'(1) by (simp add: read_page_at_loc_def pbind_def Let_def fail_def ret_def stored_def)
  with that s' show ?thesis by (simp add: stored_cong [OF s'(4)])
qed

lemma aligned_apart: "(a :: nat) mod n = 0 \<Longrightarrow> b mod n = 0 \<Longrightarrow> a \<noteq> b \<Longrightarrow> a + n \<le> b \<or> b + n \<le> a"
proof -
  assume "a mod n = 0" "b mod n = 0" and ne: "a \<noteq> b"
  then obtain i j where ij: "a = n * i" "b = n * j" by (auto simp: mod_eq_0_iff_dvd elim!: dvdE)
  with ne have "i + 1 \<le> j \<or> j + 1 \<le> i" by auto
  then have "n * (i + 1) \<le> n * j \<or> n * (j + 1) \<le> n * i" using mult_le_mono2 by blast
  with ij show ?thesis by (simp add: add.commute)
qed

text \<open>A write changes one page; pages that were there before stay.\<close>

lemma write_loc_run:
  fixes s :: "('d, 'a) disk"
  assumes "handles_ok s" "length data = 4096" "page_aligned v"
  obtains s' where "(write_page_at_loc v data :: ('d, 'e, 'a, 'f, unit) disk_prog) s = Some (Ok (), s')" "handles_ok s'" "stored s' v = Some data"
    "\<forall>w p. page_aligned w \<longrightarrow> w \<noteq> v \<longrightarrow> stored s w = Some p \<longrightarrow> stored s' w = Some p"
    "dk_directory s' = dk_directory s" "dk_allocator s' = dk_allocator s" "next_lpage_id s' = next_lpage_id s"
proof -
  obtain s1 where s1: "(get_file (pp_file v) :: ('d, 'e, 'a, 'f, string) disk_prog) s = Some (Ok (path_of s (pp_file v)), s1)" "handles_ok s1" "path_of s1 = path_of s"
    "contents s1 = contents s" "dk_directory s1 = dk_directory s" "dk_allocator s1 = dk_allocator s"
    "next_lpage_id s1 = next_lpage_id s" by (rule get_file_run [OF assms(1)])
  let ?p = "path_of s (pp_file v)" and ?c = "contents s (pp_file v)"
  have c: "(case os_files s1 ?p of Some bs \<Rightarrow> bs | None \<Rightarrow> []) = ?c"
    using fun_cong [OF s1(4), of "pp_file v"] unfolding contents_def s1(3) .
  define s' where "s' = s1\<lparr> os_files := (os_files s1)(?p \<mapsto> file_write (unat (pp_offset v)) data ?c) \<rparr>"
  have path: "path_of s' = path_of s" using s1(3) by (simp add: s'_def)
  have con: "contents s' f = (if f = pp_file v then file_write (unat (pp_offset v)) data ?c else contents s f)" for f
  proof (cases "f = pp_file v")
    case True
    then show ?thesis unfolding contents_def path by (simp add: s'_def contents_def)
  next
    case False
    then have "path_of s f \<noteq> ?p" using path_of_inj [OF assms(1)] by blast
    then have "contents s' f = contents s1 f" unfolding contents_def path s1(3) by (simp add: s'_def)
    with False s1(4) show ?thesis by simp
  qed
  have "(write_page_at_loc v data :: ('d, 'e, 'a, 'f, unit) disk_prog) s = Some (Ok (), s')"
    using s1(1) c by (simp add: write_page_at_loc_def pbind_def modify_def s'_def)
  moreover have "stored s' v = Some data"
    using bytes_file_write_same [of "unat (pp_offset v)" data ?c] assms(2)
    by (simp add: stored_def con length_file_write)
  moreover have "stored s' w = Some p" if w: "page_aligned w" "w \<noteq> v" "stored s w = Some p" for w p
  proof (cases "pp_file w = pp_file v")
    case False
    with w(3) show ?thesis by (simp add: stored_def con split: if_splits)
  next
    case True
    have "unat (pp_offset w) \<noteq> unat (pp_offset v)"
      using w(2) True word_unat_eqI by (metis ppage_id.equality old.unit.exhaust)
    then have "unat (pp_offset w) + 4096 \<le> unat (pp_offset v) \<or> unat (pp_offset v) + length data \<le> unat (pp_offset w)"
      using w(1) assms(2,3) aligned_apart by (simp add: page_aligned_def)
    moreover have "unat (pp_offset w) + 4096 \<le> length ?c" "bytes_at (unat (pp_offset w)) 4096 ?c = p"
      using w(3) True by (auto simp: stored_def split: if_splits)
    ultimately show ?thesis
      using True bytes_file_write_other [of "unat (pp_offset w)" 4096 ?c "unat (pp_offset v)" data]
      by (simp add: stored_def con length_file_write)
  qed
  moreover have "handles_ok s'" using s1(2) by (simp add: handles_ok_def s'_def)
  ultimately show ?thesis using that s1(5-7) by (simp add: s'_def)
qed

section \<open>The contract\<close>

text \<open>
  \<open>disk_rep\<close>: the directory holds the map \<open>m\<close>, its places are whole pages that were handed out by
  the allocator, and no two logical pages share a place.
\<close>

definition disk_rep :: "('d \<Rightarrow> (u32 \<rightharpoonup> ppage_id) \<Rightarrow> bool) \<Rightarrow> ('a \<Rightarrow> ppage_id \<Rightarrow> bool) \<Rightarrow> ('d, 'a) disk \<Rightarrow> (u32 \<rightharpoonup> ppage_id) \<Rightarrow> bool" where
  "disk_rep R U s m \<longleftrightarrow> R (dk_directory s) m \<and> handles_ok s \<and> inj_on m (dom m) \<and>
     (\<forall>l v. m l = Some v \<longrightarrow> page_aligned v \<and> U (dk_allocator s) v)"

text \<open>The page a logical id stands for.\<close>

definition page_of :: "('d, 'a) disk \<Rightarrow> (u32 \<rightharpoonup> ppage_id) \<Rightarrow> u32 \<Rightarrow> page option" where
  "page_of s m l = (case m l of Some v \<Rightarrow> stored s v | None \<Rightarrow> None)"

lemma page_of_cong: "stored s' = stored s \<Longrightarrow> page_of s' = page_of s"
  by (simp add: page_of_def fun_eq_iff split: option.split)

locale disk_manager = page_directory D refuse rep room page_aligned + page_allocator A used space
  for D :: "('d, 'e) dir_ops" and refuse rep room and A :: "('a, 'f) alloc_ops" and used space
begin

lemma lookup_step:
  fixes s :: "('d, 'a) disk"
  assumes "disk_rep rep used s m"
  obtains s' e where "(in_directory (op_lookup D l) :: ('d, 'e, 'a, 'g, ppage_id) disk_prog) s =
      Some (case m l of Some v \<Rightarrow> Ok v | None \<Rightarrow> Err (DirectoryError e), s')"
    "disk_rep rep used s' m" "m l = None \<longrightarrow> refuse e = Some Missing" "stored s' = stored s" "next_lpage_id s' = next_lpage_id s"
    "room (dk_directory s) \<longrightarrow> room (dk_directory s')"
proof -
  have r: "rep (dk_directory s) m" using assms by (simp add: disk_rep_def)
  have "\<exists>d e. op_lookup D l (dk_directory s) = Some (case m l of Some v \<Rightarrow> Ok v | None \<Rightarrow> Err e, d) \<and> rep d m \<and>
    (m l = None \<longrightarrow> refuse e = Some Missing) \<and> (room (dk_directory s) \<longrightarrow> room d)"
    using lookup_found [OF r, of l] lookup_missing [OF r, of l] by (cases "m l") auto
  then obtain d e where d: "op_lookup D l (dk_directory s) = Some (case m l of Some v \<Rightarrow> Ok v | None \<Rightarrow> Err e, d)"
    "rep d m" "m l = None \<longrightarrow> refuse e = Some Missing" "room (dk_directory s) \<longrightarrow> room d" by (elim exE conjE) (rule that)
  define s' where "s' = s\<lparr> dk_directory := d \<rparr>"
  have "contents s' = contents s" by (simp add: contents_def s'_def fun_eq_iff)
  then have "stored s' = stored s" by (rule stored_cong)
  moreover have "disk_rep rep used s' m" using assms d(2) by (simp add: disk_rep_def s'_def handles_ok_def)
  moreover have "(in_directory (op_lookup D l) :: ('d, 'e, 'a, 'g, ppage_id) disk_prog) s =
      Some (case m l of Some v \<Rightarrow> Ok v | None \<Rightarrow> Err (DirectoryError e), s')"
    using d(1) by (simp add: in_directory_def s'_def split: option.split)
  ultimately show ?thesis using that d(3,4) by (simp add: s'_def)
qed

lemma read_step:
  fixes s :: "('d, 'a) disk"
  assumes "disk_rep rep used s m"
  obtains s' e where "(disk_read_page D l 4096 :: ('d, 'e, 'a, 'g, ppage_id \<times> page) disk_prog) s =
      Some (case m l of None \<Rightarrow> Err (DirectoryError e)
        | Some v \<Rightarrow> (case stored s v of None \<Rightarrow> Err (DiskIO UnexpectedEof) | Some p \<Rightarrow> Ok (v, p)), s')"
    "disk_rep rep used s' m" "m l = None \<longrightarrow> refuse e = Some Missing" "stored s' = stored s" "next_lpage_id s' = next_lpage_id s"
proof -
  obtain s1 e where s1: "(in_directory (op_lookup D l) :: ('d, 'e, 'a, 'g, ppage_id) disk_prog) s =
      Some (case m l of Some v \<Rightarrow> Ok v | None \<Rightarrow> Err (DirectoryError e), s1)"
    "disk_rep rep used s1 m" "m l = None \<longrightarrow> refuse e = Some Missing" "stored s1 = stored s"
    "next_lpage_id s1 = next_lpage_id s" "room (dk_directory s) \<longrightarrow> room (dk_directory s1)" by (rule lookup_step [OF assms])
  show ?thesis
  proof (cases "m l")
    case None
    then show ?thesis using that [of e s1] s1 by (simp add: disk_read_page_def pbind_def)
  next
    case (Some v)
    have "handles_ok s1" using s1(2) by (simp add: disk_rep_def)
    then obtain s2 where s2: "(read_page_at_loc v 4096 :: ('d, 'e, 'a, 'g, page) disk_prog) s1 =
        Some (case stored s1 v of Some p \<Rightarrow> Ok p | None \<Rightarrow> Err (DiskIO UnexpectedEof), s2)"
      "handles_ok s2" "stored s2 = stored s1" "dk_directory s2 = dk_directory s1" "dk_allocator s2 = dk_allocator s1"
      "next_lpage_id s2 = next_lpage_id s1" by (rule read_loc_run)
    have "disk_rep rep used s2 m" using s1(2) s2(2,4,5) by (simp add: disk_rep_def)
    moreover have "(disk_read_page D l 4096 :: ('d, 'e, 'a, 'g, ppage_id \<times> page) disk_prog) s =
        Some (case stored s v of None \<Rightarrow> Err (DiskIO UnexpectedEof) | Some p \<Rightarrow> Ok (v, p), s2)"
      using s1(1,4) s2(1) Some by (simp add: disk_read_page_def pbind_def ret_def split: option.split)
    ultimately show ?thesis using that [of e s2] Some s1 s2 by simp
  qed
qed

lemma write_step:
  fixes s :: "('d, 'a) disk"
  assumes rep: "disk_rep rep used s m" and len: "length data = 4096"
  obtains s' e where "(disk_write_page D l data :: ('d, 'e, 'a, 'g, unit) disk_prog) s =
      Some (if m l = None then Err (DirectoryError e) else Ok (), s')"
    "disk_rep rep used s' m" "m l = None \<longrightarrow> refuse e = Some Missing" "m l \<noteq> None \<longrightarrow> page_of s' m l = Some data"
    "\<forall>l' p. l' \<noteq> l \<longrightarrow> page_of s m l' = Some p \<longrightarrow> page_of s' m l' = Some p" "next_lpage_id s' = next_lpage_id s"
proof -
  obtain s1 e where s1: "(in_directory (op_lookup D l) :: ('d, 'e, 'a, 'g, ppage_id) disk_prog) s =
      Some (case m l of Some v \<Rightarrow> Ok v | None \<Rightarrow> Err (DirectoryError e), s1)"
    "disk_rep rep used s1 m" "m l = None \<longrightarrow> refuse e = Some Missing" "stored s1 = stored s"
    "next_lpage_id s1 = next_lpage_id s" "room (dk_directory s) \<longrightarrow> room (dk_directory s1)" by (rule lookup_step [OF rep])
  have same: "page_of s1 m = page_of s m" using page_of_cong [OF s1(4)] by simp
  show ?thesis
  proof (cases "m l")
    case None
    then show ?thesis using that [of e s1] s1 same by (simp add: disk_write_page_def pbind_def)
  next
    case (Some v)
    have "handles_ok s1" "page_aligned v" using s1(2) Some by (simp_all add: disk_rep_def)
    then obtain s2 where s2: "(write_page_at_loc v data :: ('d, 'e, 'a, 'g, unit) disk_prog) s1 = Some (Ok (), s2)"
      "handles_ok s2" "stored s2 v = Some data"
      "\<forall>w p. page_aligned w \<longrightarrow> w \<noteq> v \<longrightarrow> stored s1 w = Some p \<longrightarrow> stored s2 w = Some p"
      "dk_directory s2 = dk_directory s1" "dk_allocator s2 = dk_allocator s1" "next_lpage_id s2 = next_lpage_id s1"
      by (rule write_loc_run [OF _ len])
    have rep2: "disk_rep rep used s2 m" using s1(2) s2(2,5,6) by (simp add: disk_rep_def)
    have others: "page_of s2 m l' = Some p" if ne: "l' \<noteq> l" and old: "page_of s m l' = Some p" for l' p
    proof -
      obtain w where w: "m l' = Some w" "stored s1 w = Some p"
        using old s1(4) by (auto simp: page_of_def split: option.splits)
      have "inj_on m (dom m)" using rep by (simp add: disk_rep_def)
      then have "w \<noteq> v" using ne w(1) Some inj_onD [of m "dom m" l' l] by auto
      moreover have "page_aligned w" using w(1) rep by (simp add: disk_rep_def)
      ultimately show ?thesis using w s2(4) by (simp add: page_of_def)
    qed
    have "(disk_write_page D l data :: ('d, 'e, 'a, 'g, unit) disk_prog) s = Some (Ok (), s2)"
      using s1(1) s2(1) Some by (simp add: disk_write_page_def pbind_def)
    then show ?thesis using that [of e s2] Some rep2 others s1(3,5) s2(3,7) by (simp add: page_of_def)
  qed
qed

text \<open>A new page gets a fresh place; pages that were there stay.\<close>

lemma new_step:
  fixes s :: "('d, 'a) disk"
  assumes rep: "disk_rep rep used s m" and sp: "room (dk_directory s)" "space (Suc n) (dk_allocator s)"
    and new: "m (next_lpage_id s) = None"
  obtains v s' where "disk_new_page D A f s = Some (Ok (next_lpage_id s, v), s')" "pp_file v = f" "v \<notin> ran m"
    "disk_rep rep used s' (m(next_lpage_id s \<mapsto> v))" "stored s' = stored s" "next_lpage_id s' = next_lpage_id s + 1"
    "space n (dk_allocator s')" "op_add_page D (next_lpage_id s) v (dk_directory s) = Some (Ok (), dk_directory s')"
proof -
  let ?l = "next_lpage_id s"
  obtain v a where v: "al_allocate A f (dk_allocator s) = Some (Ok v, a)" "\<not> used (dk_allocator s) v" "pp_file v = f"
    "page_aligned v" "\<forall>w. page_aligned w \<longrightarrow> used a w = (used (dk_allocator s) w \<or> w = v)" "space n a"
    using allocate [OF sp(2)] by blast
  have "rep (dk_directory s) m" using rep by (simp add: disk_rep_def)
  then obtain d where d: "op_add_page D ?l v (dk_directory s) = Some (Ok (), d)" "rep d (m(?l \<mapsto> v))"
    using add_new [of "dk_directory s" m v ?l] sp(1) v(4) new by blast
  define s' where "s' = s\<lparr> next_lpage_id := ?l + 1, dk_allocator := a, dk_directory := d \<rparr>"
  have fresh: "v \<notin> ran m" using v(2) rep by (auto simp: ran_def disk_rep_def)
  have "disk_new_page D A f s = Some (Ok (?l, v), s')"
    using v(1) d(1) by (simp add: disk_new_page_def alloc_lpage_id_def in_allocator_def in_directory_def pbind_def ret_def s'_def)
  moreover have "disk_rep rep used s' (m(?l \<mapsto> v))" unfolding disk_rep_def
  proof (intro conjI allI impI)
    show "inj_on (m(?l \<mapsto> v)) (dom (m(?l \<mapsto> v)))"
    proof (rule inj_onI)
      fix i j assume ij: "i \<in> dom (m(?l \<mapsto> v))" "j \<in> dom (m(?l \<mapsto> v))" and eq: "(m(?l \<mapsto> v)) i = (m(?l \<mapsto> v)) j"
      have no: "m k \<noteq> Some v" for k using fresh by (auto simp: ran_def)
      show "i = j"
      proof (cases "i = ?l \<or> j = ?l")
        case True
        then show ?thesis using eq no [of i] no [of j] by (auto split: if_splits)
      next
        case False
        then show ?thesis using eq ij rep inj_onD [of m "dom m" i j] by (simp add: disk_rep_def)
      qed
    qed
    show "rep (dk_directory s') (m(?l \<mapsto> v))" using d(2) by (simp add: s'_def)
    show "handles_ok s'" using rep by (simp add: disk_rep_def handles_ok_def s'_def)
    fix l w assume "(m(?l \<mapsto> v)) l = Some w"
    then have "w = v \<or> m l = Some w" by (auto split: if_splits)
    then show "page_aligned w" "used (dk_allocator s') w" using v(4,5) rep by (auto simp: disk_rep_def s'_def)
  qed
  moreover have "contents s' = contents s" by (simp add: contents_def s'_def fun_eq_iff)
  then have "stored s' = stored s" by (rule stored_cong)
  ultimately show ?thesis using that v fresh d(1) by (simp add: s'_def)
qed

text \<open>A page keeps what was last written to it, whatever is done to other pages.\<close>

lemma serve_keeps:
  fixes s :: "('d, 'a) disk"
  assumes "disk_rep rep used s m" "page_of s m l = Some p"
    "\<forall>r\<in>set rs. case r of ReadPage _ \<Rightarrow> True | WritePage l' data \<Rightarrow> l' \<noteq> l \<and> length data = 4096"
  shows "\<exists>s'. disk_serve D rs s = Some s' \<and> disk_rep rep used s' m \<and> page_of s' m l = Some p"
  using assms
proof (induction rs arbitrary: s)
  case (Cons r rs)
  show ?case
  proof (cases r)
    case (ReadPage l')
    obtain s1 e where s1: "(disk_read_page D l' 4096 :: ('d, 'e, 'a, unit, ppage_id \<times> page) disk_prog) s =
        Some (case m l' of None \<Rightarrow> Err (DirectoryError e)
          | Some v \<Rightarrow> (case stored s v of None \<Rightarrow> Err (DiskIO UnexpectedEof) | Some p \<Rightarrow> Ok (v, p)), s1)"
      "disk_rep rep used s1 m" "m l' = None \<longrightarrow> refuse e = Some Missing" "stored s1 = stored s" "next_lpage_id s1 = next_lpage_id s"
      by (rule read_step [OF Cons.prems(1)])
    have "page_of s1 m l = Some p" using Cons.prems(2) page_of_cong [OF s1(4)] by simp
    with Cons.IH [OF s1(2)] Cons.prems(3) ReadPage s1(1) show ?thesis by simp
  next
    case (WritePage l' data)
    then have d: "length data = 4096" "l' \<noteq> l" using Cons.prems(3) by simp_all
    obtain s1 e where s1: "(disk_write_page D l' data :: ('d, 'e, 'a, unit, unit) disk_prog) s =
        Some (if m l' = None then Err (DirectoryError e) else Ok (), s1)" "disk_rep rep used s1 m"
      "m l' = None \<longrightarrow> refuse e = Some Missing" "m l' \<noteq> None \<longrightarrow> page_of s1 m l' = Some data"
      "\<forall>l'' p. l'' \<noteq> l' \<longrightarrow> page_of s m l'' = Some p \<longrightarrow> page_of s1 m l'' = Some p" "next_lpage_id s1 = next_lpage_id s"
      by (rule write_step [OF Cons.prems(1) d(1)])
    have "page_of s1 m l = Some p" using s1(5) Cons.prems(2) d(2) by simp
    with Cons.IH [OF s1(2)] Cons.prems(3) WritePage s1(1) show ?thesis by simp
  qed
qed simp

end

interpretation disk: disk_manager btree_directory dir_refusal dir_rep dir_room simple_allocator_ops sa_used sa_space
  by unfold_locales

section \<open>Properties of the disk manager\<close>

abbreviation spares :: "u32 \<Rightarrow> disk_request list \<Rightarrow> bool" where
  "spares l rs \<equiv> \<forall>r\<in>set rs. case r of ReadPage _ \<Rightarrow> True | WritePage l' data \<Rightarrow> l' \<noteq> l \<and> length data = 4096"

abbreviation btree_disk :: "(dir, simple_allocator) disk \<Rightarrow> (u32 \<rightharpoonup> ppage_id) \<Rightarrow> bool" where
  "btree_disk \<equiv> disk_rep dir_rep sa_used"

type_synonym 'x btree_disk_prog = "(dir, dir_error, simple_allocator, io_error, 'x) disk_prog"

text \<open>A disk with one page, number 0.\<close>

lemma new_disk:
  obtains d where "open_dir None 4096 = Some (Ok (), d)" "btree_disk (disk_new d sa_new n Map.empty) Map.empty"
    "dnext d = 1" "droot d = 0"
proof -
  obtain d where d: "open_dir None 4096 = Some (Ok (), d)" "dir_rep d Map.empty" "dnext d = 1" "droot d = 0"
    by (rule open_new [of 4096]) simp_all
  moreover have "btree_disk (disk_new d sa_new n Map.empty) Map.empty"
    using d(2) by (simp add: disk_rep_def disk_new_def handles_ok_def)
  ultimately show ?thesis using that by simp
qed

lemma sa_new_space: "sa_space n sa_new" if "n < 1000"
  using that by (simp add: sa_space_def sa_new_def)

lemma one_page_disk:
  obtains d s v where "open_dir None 4096 = Some (Ok (), d)"
    "(disk_new_page btree_directory simple_allocator_ops 2 :: (u32 \<times> ppage_id) btree_disk_prog) (disk_new d sa_new 0 Map.empty) = Some (Ok (0, v), s)"
    "btree_disk s [0 \<mapsto> v]" "next_lpage_id s = 1" "sa_space 1 (dk_allocator s)" "dir_room (dk_directory s)"
proof -
  obtain d where d: "open_dir None 4096 = Some (Ok (), d)" "btree_disk (disk_new d sa_new 0 Map.empty) Map.empty" "dnext d = 1" "droot d = 0"
    by (rule new_disk)
  let ?s0 = "disk_new d sa_new 0 Map.empty"
  have pre: "dir_room (dk_directory ?s0)" "sa_space (Suc 1) (dk_allocator ?s0)" using d(3) sa_new_space [of "Suc 1"]
    by (simp_all add: disk_new_def dir_room_def)
  have nx: "next_lpage_id ?s0 = 0" and dk: "dk_directory ?s0 = d" by (simp_all add: disk_new_def)
  obtain v s where s: "(disk_new_page btree_directory simple_allocator_ops 2 :: (u32 \<times> ppage_id) btree_disk_prog) ?s0 = Some (Ok (0, v), s)"
    "btree_disk s [0 \<mapsto> v]" "next_lpage_id s = 1" "sa_space 1 (dk_allocator s)" "add_page 0 v d = Some (Ok (), dk_directory s)"
    by (rule disk.new_step [OF d(2) pre, of 2]) (use that d(1) nx dk in auto)
  have "page_aligned v" using s(2) by (simp add: disk_rep_def)
  moreover have "dir_rep d Map.empty" using d(2) dk by (simp add: disk_rep_def)
  ultimately have "dnext (dk_directory s) = 2" using add_to_empty [of d Map.empty v 0] d(3,4) s(5) by auto
  then have "dir_room (dk_directory s)" by (simp add: dir_room_def)
  with that d(1) s show ?thesis by blast
qed

text \<open>C3: A page reads back what was last written to it: after a write to a registered page, and any reads and
writes of other pages, reading it returns the written bytes.\<close>

theorem disk_read_last_write:
  assumes "btree_disk s m" "m l = Some v" "length data = 4096" "spares l rs"
  shows "\<exists>s1 s2 s3. (disk_write_page btree_directory l data :: unit btree_disk_prog) s = Some (Ok (), s1) \<and>
    disk_serve btree_directory rs s1 = Some s2 \<and>
    (disk_read_page btree_directory l 4096 :: (ppage_id \<times> page) btree_disk_prog) s2 = Some (Ok (v, data), s3)"
proof -
  obtain s1 e where s1: "(disk_write_page btree_directory l data :: unit btree_disk_prog) s =
      Some (if m l = None then Err (DirectoryError e) else Ok (), s1)" "btree_disk s1 m"
    "m l = None \<longrightarrow> dir_refusal e = Some Missing" "m l \<noteq> None \<longrightarrow> page_of s1 m l = Some data"
    "\<forall>l' p. l' \<noteq> l \<longrightarrow> page_of s m l' = Some p \<longrightarrow> page_of s1 m l' = Some p" "next_lpage_id s1 = next_lpage_id s"
    by (rule disk.write_step [OF assms(1,3)])
  then obtain s2 where s2: "disk_serve btree_directory rs s1 = Some s2" "btree_disk s2 m" "page_of s2 m l = Some data"
    using disk.serve_keeps [OF s1(2), of l data rs] assms(2,4) by auto
  obtain s3 e' where "(disk_read_page btree_directory l 4096 :: (ppage_id \<times> page) btree_disk_prog) s2 =
      Some (case m l of None \<Rightarrow> Err (DirectoryError e')
        | Some v \<Rightarrow> (case stored s2 v of None \<Rightarrow> Err (DiskIO UnexpectedEof) | Some p \<Rightarrow> Ok (v, p)), s3)"
    by (rule disk.read_step [OF s2(2)])
  then show ?thesis using s1(1) s2(1,3) assms(2) by (simp add: page_of_def)
qed

theorem disk_read_last_write_witness:
  "\<exists>d s v s1 s2 s3. open_dir None 4096 = Some (Ok (), d) \<and>
    (disk_new_page btree_directory simple_allocator_ops 2 :: (u32 \<times> ppage_id) btree_disk_prog) (disk_new d sa_new 0 Map.empty) = Some (Ok (0, v), s) \<and>
    (disk_write_page btree_directory 0 (replicate 4096 7) :: unit btree_disk_prog) s = Some (Ok (), s1) \<and>
    disk_serve btree_directory [WritePage 3 (replicate 4096 1), ReadPage 0] s1 = Some s2 \<and>
    (disk_read_page btree_directory 0 4096 :: (ppage_id \<times> page) btree_disk_prog) s2 = Some (Ok (v, replicate 4096 7), s3)"
proof -
  obtain d s v where s: "open_dir None 4096 = Some (Ok (), d)"
    "(disk_new_page btree_directory simple_allocator_ops 2 :: (u32 \<times> ppage_id) btree_disk_prog) (disk_new d sa_new 0 Map.empty) = Some (Ok (0, v), s)"
    "btree_disk s [0 \<mapsto> v]" by (rule one_page_disk)
  have m: "[0 \<mapsto> v] 0 = Some v" and sp: "spares 0 [WritePage 3 (replicate 4096 1), ReadPage 0]" by simp_all
  have len: "length (replicate 4096 7 :: page) = 4096" by (rule length_replicate)
  from disk_read_last_write [OF s(3) m len sp] s(1,2) show ?thesis by blast
qed

text \<open>What reading a page returns: \<open>PageNotFound\<close> for an id that is not registered, an end-of-file error for a
page that lies beyond what was ever written to its file, and otherwise its place and its bytes; no page changes.\<close>

theorem disk_read_spec:
  assumes "btree_disk s m"
  shows "\<exists>s' e. (disk_read_page btree_directory l 4096 :: (ppage_id \<times> page) btree_disk_prog) s =
      Some (case m l of None \<Rightarrow> Err (DirectoryError e)
        | Some v \<Rightarrow> (case stored s v of None \<Rightarrow> Err (DiskIO UnexpectedEof) | Some p \<Rightarrow> Ok (v, p)), s') \<and>
    (m l = None \<longrightarrow> dir_refusal e = Some Missing) \<and> btree_disk s' m \<and> stored s' = stored s"
proof -
  obtain s' e where "(disk_read_page btree_directory l 4096 :: (ppage_id \<times> page) btree_disk_prog) s =
      Some (case m l of None \<Rightarrow> Err (DirectoryError e)
        | Some v \<Rightarrow> (case stored s v of None \<Rightarrow> Err (DiskIO UnexpectedEof) | Some p \<Rightarrow> Ok (v, p)), s')"
    "btree_disk s' m" "m l = None \<longrightarrow> dir_refusal e = Some Missing" "stored s' = stored s" "next_lpage_id s' = next_lpage_id s"
    by (rule disk.read_step [OF assms])
  then show ?thesis by (intro exI [of _ s'] exI [of _ e] conjI)
qed

theorem disk_read_spec_witness:
  "\<exists>d s v e s'. open_dir None 4096 = Some (Ok (), d) \<and>
    (disk_new_page btree_directory simple_allocator_ops 2 :: (u32 \<times> ppage_id) btree_disk_prog) (disk_new d sa_new 0 Map.empty) = Some (Ok (0, v), s) \<and>
    (disk_read_page btree_directory 5 4096 :: (ppage_id \<times> page) btree_disk_prog) s = Some (Err (DirectoryError e), s') \<and>
    dir_refusal e = Some Missing"
proof -
  obtain d s v where s: "open_dir None 4096 = Some (Ok (), d)"
    "(disk_new_page btree_directory simple_allocator_ops 2 :: (u32 \<times> ppage_id) btree_disk_prog) (disk_new d sa_new 0 Map.empty) = Some (Ok (0, v), s)"
    "btree_disk s [0 \<mapsto> v]" by (rule one_page_disk)
  from disk_read_spec [OF s(3), of 5] s(1,2) show ?thesis by auto
qed

text \<open>C4: A new page: with an id that is not registered yet, it gets a place in the requested file that no other page
has, the directory registers exactly this id, the id counter advances, and no page changes.\<close>

theorem disk_new_page_fresh:
  assumes "btree_disk s m" "m (next_lpage_id s) = None" "dir_room (dk_directory s)" "sa_space 1 (dk_allocator s)"
  shows "\<exists>v s'. (disk_new_page btree_directory simple_allocator_ops f :: (u32 \<times> ppage_id) btree_disk_prog) s = Some (Ok (next_lpage_id s, v), s') \<and>
    pp_file v = f \<and> v \<notin> ran m \<and> btree_disk s' (m(next_lpage_id s \<mapsto> v)) \<and> next_lpage_id s' = next_lpage_id s + 1 \<and> stored s' = stored s"
proof -
  have sp: "sa_space (Suc 0) (dk_allocator s)" using assms(4) by simp
  show ?thesis by (rule disk.new_step [OF assms(1,3) sp assms(2), of f]) blast
qed

theorem disk_new_page_fresh_witness:
  "\<exists>d v s'. open_dir None 4096 = Some (Ok (), d) \<and>
    (disk_new_page btree_directory simple_allocator_ops 9 :: (u32 \<times> ppage_id) btree_disk_prog) (disk_new d sa_new 4 Map.empty) = Some (Ok (4, v), s') \<and>
    pp_file v = 9 \<and> next_lpage_id s' = 5"
proof -
  obtain d where d: "open_dir None 4096 = Some (Ok (), d)" "btree_disk (disk_new d sa_new 4 Map.empty) Map.empty" "dnext d = 1"
    by (rule new_disk)
  have pre: "dir_room (dk_directory (disk_new d sa_new 4 Map.empty))" "sa_space 1 (dk_allocator (disk_new d sa_new 4 Map.empty))"
    using d(3) sa_new_space [of 1] by (simp_all add: disk_new_def dir_room_def)
  have nx: "next_lpage_id (disk_new d sa_new 4 Map.empty) = 4" by (simp add: disk_new_def)
  from disk_new_page_fresh [OF d(2) _ pre, of 9] d(1) nx show ?thesis by auto
qed

text \<open>A counter that starts at a registered id, as after a restart with \<open>next_lpage_id\<close> 0, makes \<open>new_page\<close> fail:
the directory refuses the id, but the id and a page of the file have been used up.\<close>

theorem disk_new_page_collision:
  assumes "btree_disk s m" "m (next_lpage_id s) \<noteq> None" "dir_room (dk_directory s)" "sa_space 1 (dk_allocator s)"
  shows "\<exists>e s' v. (disk_new_page btree_directory simple_allocator_ops f :: (u32 \<times> ppage_id) btree_disk_prog) s = Some (Err (DirectoryError e), s') \<and>
    dir_refusal e = Some Duplicate \<and> btree_disk s' m \<and> next_lpage_id s' = next_lpage_id s + 1 \<and>
    \<not> sa_used (dk_allocator s) v \<and> sa_used (dk_allocator s') v \<and> v \<notin> ran m"
proof -
  have rep: "dir_rep (dk_directory s) m" using assms(1) by (simp add: disk_rep_def)
  have sp: "sa_space (Suc 0) (dk_allocator s)" using assms(4) by simp
  obtain v a where v: "(sa_allocate f :: (simple_allocator, io_error, ppage_id) prog) (dk_allocator s) = Some (Ok v, a)" "\<not> sa_used (dk_allocator s) v"
    "page_aligned v" "\<forall>w. page_aligned w \<longrightarrow> sa_used a w = (sa_used (dk_allocator s) w \<or> w = v)"
    using simple.allocate [OF sp, of f] by auto
  obtain e d where d: "add_page (next_lpage_id s) v (dk_directory s) = Some (Err e, d)" "dir_refusal e = Some Duplicate" "dir_rep d m"
    using btree.add_old [OF rep assms(3) v(3) assms(2)] by auto
  define s' where "s' = s\<lparr> next_lpage_id := next_lpage_id s + 1, dk_allocator := a, dk_directory := d \<rparr>"
  have "(disk_new_page btree_directory simple_allocator_ops f :: (u32 \<times> ppage_id) btree_disk_prog) s = Some (Err (DirectoryError e), s')"
    using v(1) d(1)
    by (simp add: disk_new_page_def alloc_lpage_id_def in_allocator_def in_directory_def pbind_def ret_def s'_def)
  moreover have "btree_disk s' m"
    using assms(1) d(3) v(4) by (auto simp: disk_rep_def s'_def handles_ok_def)
  moreover have "v \<notin> ran m" using v(2) assms(1) by (auto simp: ran_def disk_rep_def)
  ultimately show ?thesis using d(2) v by (intro exI [of _ e] exI [of _ s'] exI [of _ v]) (simp add: s'_def)
qed

theorem disk_new_page_collision_witness:
  "\<exists>d s v e s'. open_dir None 4096 = Some (Ok (), d) \<and>
    (disk_new_page btree_directory simple_allocator_ops 2 :: (u32 \<times> ppage_id) btree_disk_prog) (disk_new d sa_new 0 Map.empty) = Some (Ok (0, v), s) \<and>
    (disk_new_page btree_directory simple_allocator_ops 2 :: (u32 \<times> ppage_id) btree_disk_prog) (s\<lparr> next_lpage_id := 0 \<rparr>) = Some (Err (DirectoryError e), s') \<and>
    dir_refusal e = Some Duplicate"
proof -
  obtain d s v where s: "open_dir None 4096 = Some (Ok (), d)"
    "(disk_new_page btree_directory simple_allocator_ops 2 :: (u32 \<times> ppage_id) btree_disk_prog) (disk_new d sa_new 0 Map.empty) = Some (Ok (0, v), s)"
    "btree_disk s [0 \<mapsto> v]" "next_lpage_id s = 1" "sa_space 1 (dk_allocator s)" "dir_room (dk_directory s)" by (rule one_page_disk)
  let ?s = "s\<lparr> next_lpage_id := 0 \<rparr>"
  have "btree_disk ?s [0 \<mapsto> v]" "[0 \<mapsto> v] (next_lpage_id ?s) \<noteq> None" "dir_room (dk_directory ?s)" "sa_space 1 (dk_allocator ?s)"
    using s(3,5,6) by (simp_all add: disk_rep_def handles_ok_def)
  from disk_new_page_collision [OF this, of 2] s(1,2) show ?thesis by auto
qed

text \<open>C11: The allocator of a restarted server knows no file: a new page then gets page 1 of its file, although the
directory of the reopened database may have registered it, and two logical pages share one place.\<close>

theorem disk_restart_shares_place:
  assumes "dir_rep d m" "m n = None" "m l = Some \<lparr> pp_file = f, pp_offset = 4096 \<rparr>" "dir_room d"
  shows "\<exists>s'. (disk_new_page btree_directory simple_allocator_ops f :: (u32 \<times> ppage_id) btree_disk_prog) (disk_new d sa_new n fs) =
      Some (Ok (n, \<lparr> pp_file = f, pp_offset = 4096 \<rparr>), s') \<and>
    dir_rep (dk_directory s') (m(n \<mapsto> \<lparr> pp_file = f, pp_offset = 4096 \<rparr>)) \<and> n \<noteq> l"
proof -
  let ?v = "\<lparr> pp_file = f, pp_offset = 4096 \<rparr>"
  have "page_aligned ?v" by (simp add: page_aligned_def)
  then obtain d' where d: "add_page n ?v d = Some (Ok (), d')" "dir_rep d' (m(n \<mapsto> ?v))"
    using btree.add_new [OF assms(1,4) _ assms(2), of ?v] by auto
  have "(sa_allocate f :: (simple_allocator, io_error, ppage_id) prog) sa_new = Some (Ok ?v, sa_new\<lparr> next_page := [f \<mapsto> 2] \<rparr>)"
    by (simp add: sa_allocate_def sa_new_def PAGE_BUF_SIZE_def)
  then show ?thesis using d assms(2,3)
    by (auto simp: disk_new_page_def alloc_lpage_id_def in_allocator_def in_directory_def pbind_def ret_def disk_new_def)
qed

theorem disk_restart_shares_place_witness:
  "\<exists>s s1 s'. open_dir None 4096 = Some (Ok (), s) \<and> add_page 0 \<lparr> pp_file = 2, pp_offset = 4096 \<rparr> s = Some (Ok (), s1) \<and>
    (disk_new_page btree_directory simple_allocator_ops 2 :: (u32 \<times> ppage_id) btree_disk_prog) (disk_new s1 sa_new 1 Map.empty) =
      Some (Ok (1, \<lparr> pp_file = 2, pp_offset = 4096 \<rparr>), s')"
proof -
  obtain s where s: "open_dir None 4096 = Some (Ok (), s)" "dir_rep s Map.empty" "dnext s = 1" "droot s = 0"
    by (rule open_new [of 4096]) simp_all
  have "page_aligned \<lparr> pp_file = 2, pp_offset = 4096 \<rparr>" by (simp add: page_aligned_def)
  then obtain s1 where s1: "add_page 0 \<lparr> pp_file = 2, pp_offset = 4096 \<rparr> s = Some (Ok (), s1)"
    "dir_rep s1 [0 \<mapsto> \<lparr> pp_file = 2, pp_offset = 4096 \<rparr>]" "dnext s1 = 2"
    using add_to_empty [OF s(2,4), of _ 0] s(3) by auto
  from disk_restart_shares_place [OF s1(2), of 1 0 2 Map.empty] s1 s(1) show ?thesis by (auto simp: dir_room_def)
qed

end
