(* ===== verification/Visibility.thy ===== *)
theory Visibility
  imports Prelude
begin

text \<open>
  \<open>src/src/accessor/visibility.rs\<close> and \<open>src/src/common/txn.rs\<close>: the 16-byte header of a tuple,
  which holds the ids of the transactions that created and deleted it, and the rule that says
  whether a transaction sees the tuple. Slicing a buffer that is too short panics.
\<close>

section \<open>Transactions\<close>

datatype isolation = ReadUncommitted | ReadCommitted | Snapshot

record txn =
  txn_id :: u64
  txn_isolation :: isolation

section \<open>The tuple header\<close>

definition TUPLE_HEADER_SIZE :: nat where "TUPLE_HEADER_SIZE = 16"

definition read_xmin :: "byte list \<Rightarrow> (unit, u64) outcome" where
  "read_xmin tuple = (if 8 \<le> length tuple then Ok (u64_of (bytes_at 0 8 tuple)) else Panic)"

definition read_xmax :: "byte list \<Rightarrow> (unit, u64) outcome" where
  "read_xmax tuple = (if 16 \<le> length tuple then Ok (u64_of (bytes_at 8 8 tuple)) else Panic)"

definition write_xmin :: "u64 \<Rightarrow> byte list \<Rightarrow> (unit, byte list) outcome" where
  "write_xmin xmin tuple = (if 8 \<le> length tuple then Ok (put_at 0 (u64_bytes xmin) tuple) else Panic)"

definition write_xmax :: "u64 \<Rightarrow> byte list \<Rightarrow> (unit, byte list) outcome" where
  "write_xmax xmax tuple = (if 16 \<le> length tuple then Ok (put_at 8 (u64_bytes xmax) tuple) else Panic)"

definition make_header :: "u64 \<Rightarrow> byte list" where
  "make_header xmin = put_at 0 (u64_bytes xmin) (replicate 16 0)"

definition is_visible :: "byte list \<Rightarrow> txn \<Rightarrow> (unit, bool) outcome" where
  "is_visible tuple txn =
     (if length tuple < TUPLE_HEADER_SIZE then Ok False
      else bind_ok (read_xmax tuple) (\<lambda>xmax.
        case txn_isolation txn of
          ReadUncommitted \<Rightarrow> Ok (xmax = 0 \<or> xmax > txn_id txn)
        | _ \<Rightarrow> bind_ok (read_xmin tuple) (\<lambda>xmin.
            Ok (xmin \<le> txn_id txn \<and> (xmax = 0 \<or> xmax > txn_id txn)))))"

section \<open>Reading and writing the header\<close>

lemma read_write_xmin:
  assumes "16 \<le> length t"
  obtains t' where "write_xmin x t = Ok t'" "length t' = length t" "read_xmin t' = Ok x" "read_xmax t' = read_xmax t"
    "drop 16 t' = drop 16 t"
proof -
  let ?t = "put_at 0 (u64_bytes x) t"
  have "bytes_at 0 8 ?t = u64_bytes x" "bytes_at 8 8 ?t = bytes_at 8 8 t"
    using assms by (simp_all add: bytes_at_put_same bytes_at_put_after)
  moreover have "drop 16 ?t = drop 16 t" using assms by (simp add: put_at_def)
  ultimately show ?thesis using that [of ?t] assms by (simp add: write_xmin_def read_xmin_def read_xmax_def)
qed

lemma read_write_xmax:
  assumes "16 \<le> length t"
  obtains t' where "write_xmax x t = Ok t'" "length t' = length t" "read_xmax t' = Ok x" "read_xmin t' = read_xmin t"
    "drop 16 t' = drop 16 t"
proof -
  let ?t = "put_at 8 (u64_bytes x) t"
  have "bytes_at 8 8 ?t = u64_bytes x" "bytes_at 0 8 ?t = bytes_at 0 8 t"
    using assms by (simp_all add: bytes_at_put_same bytes_at_put_before)
  moreover have "drop 16 ?t = drop 16 t" using assms by (simp add: put_at_def)
  ultimately show ?thesis using that [of ?t] assms by (simp add: write_xmax_def read_xmin_def read_xmax_def)
qed

lemma read_make_header [simp]:
  "read_xmin (make_header x @ data) = Ok x" "read_xmax (make_header x @ data) = Ok 0"
  "length (make_header x) = 16"
proof -
  have h: "make_header x = u64_bytes x @ replicate 8 0" by (simp add: make_header_def put_at_def)
  have "u64_of (replicate 8 0) = 0" by (simp add: u64_of_def numeral_eq_Suc)
  then show "read_xmin (make_header x @ data) = Ok x" "read_xmax (make_header x @ data) = Ok 0"
    "length (make_header x) = 16"
    by (simp_all add: h read_xmin_def read_xmax_def bytes_at_def)
qed

text \<open>The rule, once the header is read.\<close>

definition sees :: "txn \<Rightarrow> u64 \<Rightarrow> u64 \<Rightarrow> bool" where
  "sees txn xmin xmax \<longleftrightarrow> (txn_isolation txn = ReadUncommitted \<or> xmin \<le> txn_id txn) \<and> (xmax = 0 \<or> txn_id txn < xmax)"

lemma is_visible_sees:
  "read_xmin t = Ok a \<Longrightarrow> read_xmax t = Ok d \<Longrightarrow> is_visible t txn = Ok (sees txn a d)"
  by (auto simp: is_visible_def sees_def TUPLE_HEADER_SIZE_def read_xmax_def split: isolation.split if_splits)

section \<open>Properties of visibility\<close>




end
