(* ===== verification/Evictor.thy ===== *)
theory Evictor
  imports Prelude
begin

text \<open>
  \<open>src/src/buffer/evictor\<close>: the trait \<open>EvictionPolicy\<close> with its contract as a locale, and the
  LRU-K policy. A hash map is iterated in no fixed order, so \<open>find_victim\<close> takes the order as an
  argument; the logical clock is a 64-bit counter that wraps around.
\<close>

section \<open>The trait\<close>

datatype evictor_error = NoVictimFound

record 'p policy_ops =
  ev_find_victim :: "'p \<Rightarrow> (evictor_error, nat) outcome"
  ev_record_access :: "nat \<Rightarrow> 'p \<Rightarrow> 'p"
  ev_set_evictable :: "nat \<Rightarrow> bool \<Rightarrow> 'p \<Rightarrow> 'p"
  ev_remove_frame :: "nat \<Rightarrow> 'p \<Rightarrow> 'p"

text \<open>
  \<open>cands p\<close>: the frames that may be evicted; \<open>marked p\<close>: the frames marked evictable, whether or
  not they were ever accessed. \<open>ok n p\<close>: the policy can take \<open>n\<close> more accesses.
\<close>

locale eviction_policy =
  fixes P :: "'p policy_ops"
    and ok :: "nat \<Rightarrow> 'p \<Rightarrow> bool"
    and cands :: "'p \<Rightarrow> nat set"
    and marked :: "'p \<Rightarrow> nat set"
  assumes victim_found: "ok n p \<Longrightarrow> cands p \<noteq> {} \<Longrightarrow> \<exists>f. ev_find_victim P p = Ok f \<and> f \<in> cands p"
    and victim_none: "ok n p \<Longrightarrow> cands p = {} \<Longrightarrow> ev_find_victim P p = Err NoVictimFound"
    and fewer: "ok (Suc n) p \<Longrightarrow> ok n p"
    and cands_marked: "cands p \<subseteq> marked p"
    and access: "ok (Suc n) p \<Longrightarrow> ok n (ev_record_access P f p) \<and> marked (ev_record_access P f p) = marked p \<and>
      cands (ev_record_access P f p) = cands p \<union> ({f} \<inter> marked p)"
    and mark: "ok n p \<Longrightarrow> ok n (ev_set_evictable P f b p) \<and>
      marked (ev_set_evictable P f b p) = (if b then insert f (marked p) else marked p - {f}) \<and>
      cands (ev_set_evictable P f False p) = cands p - {f} \<and> cands p \<subseteq> cands (ev_set_evictable P f True p) \<and>
      cands (ev_set_evictable P f True p) \<subseteq> insert f (cands p)"
    and remove: "ok n p \<Longrightarrow> ok n (ev_remove_frame P f p) \<and> marked (ev_remove_frame P f p) = marked p - {f} \<and>
      cands (ev_remove_frame P f p) = cands p - {f}"
begin

text \<open>A frame that is marked and then accessed can be found; a frame that is not marked is never found.\<close>

lemma victim_is_marked: "ok n p \<Longrightarrow> ev_find_victim P p = Ok f \<Longrightarrow> f \<in> marked p"
  using victim_found [of n p] victim_none [of n p] cands_marked [of p] by (cases "cands p = {}") auto

lemma pinned_is_safe:
  assumes "ok n p" "ev_find_victim P (ev_set_evictable P f False p) = Ok g"
  shows "g \<noteq> f"
  using victim_is_marked [OF _ assms(2)] mark [OF assms(1), of f False] by auto

lemma access_makes_candidate: "ok (Suc n) p \<Longrightarrow> f \<in> marked p \<Longrightarrow> f \<in> cands (ev_record_access P f p)"
  using access by auto

end

section \<open>LRU-K\<close>

record frame_info =
  history :: "u64 list"
  evictable :: bool

record lruk =
  lk_k :: nat
  current_timestamp :: u64
  lk_state :: "nat \<rightharpoonup> frame_info"

definition lk_new :: "nat \<Rightarrow> lruk" where
  "lk_new k = \<lparr> lk_k = k, current_timestamp = 0, lk_state = Map.empty \<rparr>"

abbreviation usize_max :: u64 where "usize_max \<equiv> 18446744073709551615"

text \<open>One round of the loop of \<open>find_victim\<close>: the victim so far, \<open>max_backward_k_dist\<close>, \<open>earliest_access_for_inf\<close>.\<close>

fun victim_step :: "nat \<Rightarrow> u64 \<Rightarrow> nat \<times> frame_info \<Rightarrow> nat option \<times> u64 \<times> u64 \<Rightarrow> nat option \<times> u64 \<times> u64" where
  "victim_step k current_ts (frame, info) (victim, max_dist, earliest) =
     (if \<not> evictable info \<or> history info = [] then (victim, max_dist, earliest)
      else if length (history info) < k then
        let first_access = hd (history info) in
        if first_access < earliest then (Some frame, usize_max, first_access)
        else (victim, max_dist, earliest)
      else if max_dist < usize_max then
        let kth_access = hd (history info);
            distance = (if kth_access \<le> current_ts then current_ts - kth_access else 0) in
        if distance > max_dist then (Some frame, distance, earliest)
        else (victim, max_dist, earliest)
      else (victim, max_dist, earliest))"

definition lk_find_victim :: "((nat \<rightharpoonup> frame_info) \<Rightarrow> (nat \<times> frame_info) list) \<Rightarrow> lruk \<Rightarrow> (evictor_error, nat) outcome" where
  "lk_find_victim iter s =
     (case fst (fold (victim_step (lk_k s) (current_timestamp s)) (iter (lk_state s)) (None, 0, usize_max)) of
       Some frame \<Rightarrow> Ok frame
     | None \<Rightarrow> Err NoVictimFound)"

definition lk_record_access :: "nat \<Rightarrow> lruk \<Rightarrow> lruk" where
  "lk_record_access frame s =
     (let ts = current_timestamp s;
          info = (case lk_state s frame of Some info \<Rightarrow> info | None \<Rightarrow> \<lparr> history = [], evictable = False \<rparr>);
          pushed = history info @ [ts];
          kept = (if length pushed > lk_k s then tl pushed else pushed)
      in s\<lparr> current_timestamp := ts + 1, lk_state := (lk_state s)(frame \<mapsto> info\<lparr> history := kept \<rparr>) \<rparr>)"

definition lk_set_evictable :: "nat \<Rightarrow> bool \<Rightarrow> lruk \<Rightarrow> lruk" where
  "lk_set_evictable frame b s =
     (let info = (case lk_state s frame of Some info \<Rightarrow> info | None \<Rightarrow> \<lparr> history = [], evictable = b \<rparr>)
      in s\<lparr> lk_state := (lk_state s)(frame \<mapsto> info\<lparr> evictable := b \<rparr>) \<rparr>)"

definition lk_remove_frame :: "nat \<Rightarrow> lruk \<Rightarrow> lruk" where
  "lk_remove_frame frame s = s\<lparr> lk_state := (lk_state s)(frame := None) \<rparr>"

definition lruk_ops :: "((nat \<rightharpoonup> frame_info) \<Rightarrow> (nat \<times> frame_info) list) \<Rightarrow> lruk policy_ops" where
  "lruk_ops iter = \<lparr> ev_find_victim = lk_find_victim iter, ev_record_access = lk_record_access,
     ev_set_evictable = lk_set_evictable, ev_remove_frame = lk_remove_frame \<rparr>"

lemma lruk_ops_simps [simp]:
  "ev_find_victim (lruk_ops iter) = lk_find_victim iter" "ev_record_access (lruk_ops iter) = lk_record_access"
  "ev_set_evictable (lruk_ops iter) = lk_set_evictable" "ev_remove_frame (lruk_ops iter) = lk_remove_frame"
  by (simp_all add: lruk_ops_def)

text \<open>What a hash map's iterator is documented to do: it visits every entry once.\<close>

definition visits_all :: "((nat \<rightharpoonup> 'v) \<Rightarrow> (nat \<times> 'v) list) \<Rightarrow> bool" where
  "visits_all iter \<longleftrightarrow> (\<forall>m. finite (dom m) \<longrightarrow> set (iter m) = {(f, i). m f = Some i} \<and> distinct (iter m))"

section \<open>The state of the policy\<close>

text \<open>
  Between operations: no history is longer than \<open>k\<close>, every history is in the order of time, no two
  frames share a time, and no time lies in the future.
\<close>

definition lk_inv :: "lruk \<Rightarrow> bool" where
  "lk_inv s \<longleftrightarrow> finite (dom (lk_state s)) \<and>
     (\<forall>f i. lk_state s f = Some i \<longrightarrow> length (history i) \<le> lk_k s \<and>
       sorted_wrt (<) (history i) \<and> (\<forall>t\<in>set (history i). t < current_timestamp s)) \<and>
     (\<forall>f g i j. lk_state s f = Some i \<longrightarrow> lk_state s g = Some j \<longrightarrow> f \<noteq> g \<longrightarrow> set (history i) \<inter> set (history j) = {})"

definition lk_ok :: "nat \<Rightarrow> lruk \<Rightarrow> bool" where
  "lk_ok n s \<longleftrightarrow> lk_inv s \<and> unat (current_timestamp s) + n < 2 ^ 64 - 1 \<and> 0 < lk_k s"

definition candidate :: "frame_info \<Rightarrow> bool" where
  "candidate i \<longleftrightarrow> evictable i \<and> history i \<noteq> []"

text \<open>
  The order of LRU-K: frames with fewer than \<open>k\<close> accesses come before the others, and within the
  two classes the frame whose oldest remembered access is the oldest comes first.
\<close>

definition age_rank :: "nat \<Rightarrow> frame_info \<Rightarrow> nat" where
  "age_rank k i = (if length (history i) < k then 0 else 2 ^ 64) + unat (hd (history i))"

text \<open>The accumulator of the loop stands for the best candidate so far.\<close>

fun acc_of :: "nat \<Rightarrow> u64 \<Rightarrow> (nat \<times> frame_info) option \<Rightarrow> nat option \<times> u64 \<times> u64" where
  "acc_of k ts None = (None, 0, usize_max)"
| "acc_of k ts (Some (f, i)) = (if length (history i) < k then (Some f, usize_max, hd (history i))
     else (Some f, ts - hd (history i), usize_max))"

definition better :: "nat \<Rightarrow> nat \<times> frame_info \<Rightarrow> (nat \<times> frame_info) option \<Rightarrow> (nat \<times> frame_info) option" where
  "better k e best = (if candidate (snd e) \<and> (case best of None \<Rightarrow> True | Some b \<Rightarrow> age_rank k (snd e) < age_rank k (snd b))
     then Some e else best)"

lemma word_diff_less: "(t :: u64) < ts \<Longrightarrow> u < ts \<Longrightarrow> (ts - t < ts - u) = (u < t)"
  by (auto simp: word_less_nat_alt unat_sub_if')

lemma diff_below_max: "(t :: u64) < ts \<Longrightarrow> ts < usize_max \<Longrightarrow> ts - t < usize_max \<and> 0 < ts - t"
  by (simp add: word_less_nat_alt unat_sub_if')

lemma below_max: "(t :: u64) < ts \<Longrightarrow> ts < usize_max \<Longrightarrow> t < usize_max"
  by (rule less_trans)

lemma victim_step_better:
  assumes "candidate (snd e) \<Longrightarrow> hd (history (snd e)) < ts" "\<And>b. best = Some b \<Longrightarrow> hd (history (snd b)) < ts" "ts < usize_max"
  shows "victim_step k ts e (acc_of k ts best) = acc_of k ts (better k e best)"
proof (cases "candidate (snd e)")
  case False
  then show ?thesis by (cases e; cases "acc_of k ts best") (auto simp: better_def candidate_def)
next
  case True
  obtain f i where e: "e = (f, i)" by (cases e)
  have h: "evictable i" "history i \<noteq> []" "hd (history i) < ts" using True assms(1) e by (auto simp: candidate_def)
  note hi = diff_below_max [OF h(3) assms(3)] below_max [OF h(3) assms(3)]
  have fits: "unat (hd (history i)) < 2 ^ 64" using unat_bound [of "hd (history i)"] by simp
  show ?thesis
  proof (cases best)
    case None
    then show ?thesis using True h hi by (auto simp: e better_def Let_def)
  next
    case (Some b)
    obtain g j where b: "b = (g, j)" by (cases b)
    have hj: "hd (history j) < ts" using assms(2) Some b by simp
    have fitsj: "unat (hd (history j)) < 2 ^ 64" using unat_bound [of "hd (history j)"] by simp
    note hj' = diff_below_max [OF hj assms(3)]
    show ?thesis
      using True h hi hj' fits fitsj Some b word_diff_less [OF hj h(3)]
      by (auto simp: e better_def age_rank_def Let_def word_less_nat_alt [of "hd (history i)" "hd (history j)"])
  qed
qed

lemma better_cases: "better k e best = Some e \<and> candidate (snd e) \<or> better k e best = best"
  by (simp add: better_def)

lemma fold_victim_step:
  assumes "\<forall>e\<in>set xs. candidate (snd e) \<longrightarrow> hd (history (snd e)) < ts" "\<And>b. best = Some b \<Longrightarrow> hd (history (snd b)) < ts"
    "ts < usize_max"
  shows "fold (victim_step k ts) xs (acc_of k ts best) = acc_of k ts (fold (better k) xs best)"
  using assms(1,2)
proof (induction xs arbitrary: best)
  case (Cons e xs)
  have "victim_step k ts e (acc_of k ts best) = acc_of k ts (better k e best)"
    using Cons.prems assms(3) by (intro victim_step_better) auto
  moreover have "hd (history (snd b)) < ts" if "better k e best = Some b" for b
    using better_cases [of k e best]
  proof
    assume "better k e best = Some e \<and> candidate (snd e)"
    then show ?thesis using Cons.prems(1) that by simp
  next
    assume "better k e best = best"
    then show ?thesis using Cons.prems(2) [of b] that by simp
  qed
  ultimately show ?case using Cons.IH [of "better k e best"] Cons.prems(1) by simp
qed simp

lemma fold_better:
  "fold (better k) xs best = None \<longleftrightarrow> best = None \<and> (\<forall>e\<in>set xs. \<not> candidate (snd e))"
  "fold (better k) xs best = Some b \<Longrightarrow>
     (best = Some b \<or> b \<in> set xs \<and> candidate (snd b)) \<and>
     (\<forall>e\<in>set xs. candidate (snd e) \<longrightarrow> age_rank k (snd b) \<le> age_rank k (snd e)) \<and>
     (\<forall>c. best = Some c \<longrightarrow> age_rank k (snd b) \<le> age_rank k (snd c))"
proof (induction xs arbitrary: best)
  case (Cons e xs)
  { case 1 then show ?case using Cons.IH(1) [of "better k e best"] by (auto simp: better_def split: option.splits if_splits) }
  { case 2
    then have "fold (better k) xs (better k e best) = Some b" by simp
    note ih = Cons.IH(2) [OF this]
    show ?case
    proof (cases "better k e best = Some e \<and> candidate (snd e)")
      case True
      then have "age_rank k (snd b) \<le> age_rank k (snd e)" using ih by blast
      moreover have "\<forall>c. best = Some c \<longrightarrow> age_rank k (snd b) \<le> age_rank k (snd c)"
      proof (intro allI impI)
        fix c assume c: "best = Some c"
        then have "c = e \<or> age_rank k (snd e) < age_rank k (snd c)"
          using True by (simp add: better_def split: if_splits)
        with calculation show "age_rank k (snd b) \<le> age_rank k (snd c)" by auto
      qed
      ultimately show ?thesis using ih True by auto
    next
      case False
      then have same: "better k e best = best" using better_cases [of k e best] by blast
      have "age_rank k (snd b) \<le> age_rank k (snd e)" if "candidate (snd e)"
      proof (cases best)
        case None
        then show ?thesis using that False by (simp add: better_def)
      next
        case (Some c)
        then have "age_rank k (snd c) \<le> age_rank k (snd e)"
          using that False by (simp add: better_def split: if_splits)
        moreover have "\<forall>c. best = Some c \<longrightarrow> age_rank k (snd b) \<le> age_rank k (snd c)"
          using ih unfolding same by blast
        then have "age_rank k (snd b) \<le> age_rank k (snd c)" using Some by blast
        ultimately show ?thesis by simp
      qed
      then show ?thesis using ih same by auto
    qed }
qed auto

definition lk_cands :: "lruk \<Rightarrow> nat set" where
  "lk_cands s = {f. \<exists>i. lk_state s f = Some i \<and> candidate i}"

definition lk_marked :: "lruk \<Rightarrow> nat set" where
  "lk_marked s = {f. \<exists>i. lk_state s f = Some i \<and> evictable i}"

lemma lk_victim_spec:
  assumes inv: "lk_inv s" and ts: "current_timestamp s < usize_max" and iter: "visits_all iter"
  shows "(lk_cands s = {} \<longrightarrow> lk_find_victim iter s = Err NoVictimFound) \<and>
    (lk_cands s \<noteq> {} \<longrightarrow> (\<exists>f i. lk_find_victim iter s = Ok f \<and> lk_state s f = Some i \<and> candidate i \<and>
      (\<forall>g j. lk_state s g = Some j \<longrightarrow> candidate j \<longrightarrow> age_rank (lk_k s) i \<le> age_rank (lk_k s) j)))"
proof -
  let ?xs = "iter (lk_state s)" and ?k = "lk_k s" and ?ts = "current_timestamp s"
  have all: "set ?xs = {(f, i). lk_state s f = Some i}" using inv iter by (simp add: lk_inv_def visits_all_def)
  have "\<forall>e\<in>set ?xs. candidate (snd e) \<longrightarrow> hd (history (snd e)) < ?ts"
    using inv unfolding all by (auto simp: lk_inv_def candidate_def)
  then have f: "fold (victim_step ?k ?ts) ?xs (None, 0, usize_max) = acc_of ?k ?ts (fold (better ?k) ?xs None)"
    using fold_victim_step [of ?xs ?ts None ?k] ts by simp
  show ?thesis
  proof (cases "fold (better ?k) ?xs None")
    case None
    then have "lk_cands s = {}" using fold_better(1) [of ?k ?xs None] all by (auto simp: lk_cands_def)
    moreover have "lk_find_victim iter s = Err NoVictimFound" using f None by (simp add: lk_find_victim_def)
    ultimately show ?thesis by simp
  next
    case (Some b)
    obtain v i where b: "b = (v, i)" by (cases b)
    note best = fold_better(2) [OF Some]
    have vi: "lk_state s v = Some i" "candidate i" using best b all by auto
    have "lk_find_victim iter s = Ok v" using f Some b by (simp add: lk_find_victim_def)
    moreover have "\<forall>g j. lk_state s g = Some j \<longrightarrow> candidate j \<longrightarrow> age_rank ?k i \<le> age_rank ?k j"
      using best b all by auto
    ultimately show ?thesis using vi by (auto simp: lk_cands_def)
  qed
qed

section \<open>The operations keep the state in order\<close>

lemma next_time: "ts < usize_max \<Longrightarrow> unat (ts + 1) = unat ts + 1 \<and> (\<forall>t. t < ts \<longrightarrow> t < ts + 1) \<and> ts < ts + 1"
proof -
  assume "ts < usize_max"
  then have "unat ts < 2 ^ 64 - 1" by (simp add: word_less_nat_alt)
  then have "unat (ts + 1) = unat ts + 1" by (simp add: unat_word_ariths)
  then show ?thesis by (simp add: word_less_nat_alt)
qed

lemma lk_ok_clock: "lk_ok n s \<Longrightarrow> current_timestamp s < usize_max"
  by (simp add: lk_ok_def word_less_nat_alt)

definition info_of :: "lruk \<Rightarrow> nat \<Rightarrow> frame_info" where
  "info_of s f = (case lk_state s f of Some i \<Rightarrow> i | None \<Rightarrow> \<lparr> history = [], evictable = False \<rparr>)"

text \<open>The history after an access.\<close>

definition pushed :: "nat \<Rightarrow> u64 \<Rightarrow> u64 list \<Rightarrow> u64 list" where
  "pushed k ts h = (if length h < k then h @ [ts] else tl (h @ [ts]))"

lemma record_access_eq:
  "lk_record_access f s = s\<lparr> current_timestamp := current_timestamp s + 1, lk_state :=
     (lk_state s)(f \<mapsto> (info_of s f)\<lparr> history := pushed (lk_k s) (current_timestamp s) (history (info_of s f)) \<rparr>) \<rparr>"
  by (auto simp: lk_record_access_def info_of_def pushed_def Let_def not_less less_Suc_eq_le split: option.split)

lemma pushed_props:
  assumes "length h \<le> k" "0 < k" "sorted_wrt (<) h" "\<forall>t\<in>set h. t < ts"
  shows "length (pushed k ts h) \<le> k" "sorted_wrt (<) (pushed k ts h)" "set (pushed k ts h) \<subseteq> insert ts (set h)"
    "pushed k ts h \<noteq> []"
proof -
  have s: "sorted_wrt (<) (h @ [ts])" using assms(3,4) by (auto simp: sorted_wrt_append)
  show "length (pushed k ts h) \<le> k" using assms(1) by (simp add: pushed_def)
  show "sorted_wrt (<) (pushed k ts h)" using s by (cases h) (auto simp: pushed_def)
  show "set (pushed k ts h) \<subseteq> insert ts (set h)" by (cases h) (auto simp: pushed_def)
  show "pushed k ts h \<noteq> []" using assms(1,2) by (cases h) (auto simp: pushed_def)
qed

lemma lk_inv_info:
  assumes "lk_inv s"
  shows "length (history (info_of s f)) \<le> lk_k s" "sorted_wrt (<) (history (info_of s f))"
    "\<forall>t\<in>set (history (info_of s f)). t < current_timestamp s"
    "\<forall>g j. lk_state s g = Some j \<longrightarrow> f \<noteq> g \<longrightarrow> set (history (info_of s f)) \<inter> set (history j) = {}"
  using assms by (auto simp: lk_inv_def info_of_def split: option.split)

lemma lk_inv_put:
  assumes "lk_inv s" "length (history i) \<le> lk_k s" "sorted_wrt (<) (history i)" "\<forall>t\<in>set (history i). t < ts"
    "\<forall>t. t < current_timestamp s \<longrightarrow> t < ts"
    "\<forall>g j. lk_state s g = Some j \<longrightarrow> f \<noteq> g \<longrightarrow> set (history i) \<inter> set (history j) = {}"
  shows "lk_inv (s\<lparr> current_timestamp := ts, lk_state := (lk_state s)(f \<mapsto> i) \<rparr>)"
  unfolding lk_inv_def
proof (intro conjI allI impI)
  show "finite (dom (lk_state (s\<lparr> current_timestamp := ts, lk_state := (lk_state s)(f \<mapsto> i) \<rparr>)))"
    using assms(1) by (simp add: lk_inv_def)
next
  fix g j assume *: "lk_state (s\<lparr> current_timestamp := ts, lk_state := (lk_state s)(f \<mapsto> i) \<rparr>) g = Some j"
  have "length (history j) \<le> lk_k s \<and> sorted_wrt (<) (history j) \<and> (\<forall>t\<in>set (history j). t < ts)"
  proof (cases "g = f")
    case True
    then have "j = i" using * by simp
    then show ?thesis using assms(2,3,4) by blast
  next
    case False
    then have "lk_state s g = Some j" using * by simp
    then have "length (history j) \<le> lk_k s" "sorted_wrt (<) (history j)" "\<forall>t\<in>set (history j). t < current_timestamp s"
      using assms(1) unfolding lk_inv_def by blast+
    then show ?thesis using assms(5) by blast
  qed
  then show "length (history j) \<le> lk_k (s\<lparr> current_timestamp := ts, lk_state := (lk_state s)(f \<mapsto> i) \<rparr>)"
    "sorted_wrt (<) (history j)"
    "\<forall>t\<in>set (history j). t < current_timestamp (s\<lparr> current_timestamp := ts, lk_state := (lk_state s)(f \<mapsto> i) \<rparr>)"
    by simp_all
next
  fix g h j l
  assume *: "lk_state (s\<lparr> current_timestamp := ts, lk_state := (lk_state s)(f \<mapsto> i) \<rparr>) g = Some j"
    "lk_state (s\<lparr> current_timestamp := ts, lk_state := (lk_state s)(f \<mapsto> i) \<rparr>) h = Some l" "g \<noteq> h"
  show "set (history j) \<inter> set (history l) = {}"
  proof (cases "g = f \<or> h = f")
    case True
    then show ?thesis using * assms(6) by (auto split: if_splits)
  next
    case False
    then show ?thesis using * assms(1) by (auto simp: lk_inv_def)
  qed
qed

lemma lk_inv_access: "lk_inv s \<Longrightarrow> current_timestamp s < usize_max \<Longrightarrow> 0 < lk_k s \<Longrightarrow> lk_inv (lk_record_access f s)"
proof -
  assume a: "lk_inv s" "current_timestamp s < usize_max" "0 < lk_k s"
  let ?i = "info_of s f" and ?ts = "current_timestamp s"
  note i = lk_inv_info [OF a(1), of f]
  note p = pushed_props [OF i(1) a(3) i(2,3)]
  note nt = next_time [OF a(2)]
  have fresh: "?ts \<notin> set (history j)" if "lk_state s g = Some j" for g j
    using a(1) that by (auto simp: lk_inv_def)
  have le: "\<forall>t\<in>set (pushed (lk_k s) ?ts (history ?i)). t < ?ts + 1"
  proof
    fix t assume "t \<in> set (pushed (lk_k s) ?ts (history ?i))"
    then have "t = ?ts \<or> t \<in> set (history ?i)" using p(3) by blast
    then show "t < ?ts + 1" using i(3) nt by blast
  qed
  have apart: "\<forall>g j. lk_state s g = Some j \<longrightarrow> f \<noteq> g \<longrightarrow> set (pushed (lk_k s) ?ts (history ?i)) \<inter> set (history j) = {}"
  proof (intro allI impI)
    fix g j assume "lk_state s g = Some j" "f \<noteq> g"
    then have "set (history ?i) \<inter> set (history j) = {}" "?ts \<notin> set (history j)" using i(4) fresh by blast+
    then show "set (pushed (lk_k s) ?ts (history ?i)) \<inter> set (history j) = {}" using p(3) by blast
  qed
  show ?thesis unfolding record_access_eq
    by (rule lk_inv_put [OF a(1)]) (use p(1,2) nt le apart in simp_all)
qed

lemma lk_inv_set: "lk_inv s \<Longrightarrow> lk_inv (lk_set_evictable f b s)"
proof -
  assume a: "lk_inv s"
  have "lk_set_evictable f b s = s\<lparr> current_timestamp := current_timestamp s, lk_state := (lk_state s)(f \<mapsto> (info_of s f)\<lparr> evictable := b \<rparr>) \<rparr>"
    by (auto simp: lk_set_evictable_def info_of_def Let_def split: option.split)
  moreover have "lk_inv (s\<lparr> current_timestamp := current_timestamp s, lk_state := (lk_state s)(f \<mapsto> (info_of s f)\<lparr> evictable := b \<rparr>) \<rparr>)"
    by (rule lk_inv_put [OF a]) (use lk_inv_info [OF a, of f] in auto)
  ultimately show ?thesis by simp
qed

lemma lk_inv_remove: "lk_inv s \<Longrightarrow> lk_inv (lk_remove_frame f s)"
  unfolding lk_inv_def lk_remove_frame_def by (auto split: if_splits)

lemma lk_inv_new: "lk_inv (lk_new k)"
  by (simp add: lk_inv_def lk_new_def)

section \<open>LRU-K keeps the contract\<close>

locale hash_order =
  fixes iter :: "(nat \<rightharpoonup> frame_info) \<Rightarrow> (nat \<times> frame_info) list"
  assumes visits_all: "visits_all iter"

sublocale hash_order \<subseteq> eviction_policy "lruk_ops iter" lk_ok lk_cands lk_marked
proof (unfold_locales, unfold lruk_ops_simps)
  fix n p f b
  note spec = lk_victim_spec [OF _ lk_ok_clock visits_all]
  show "lk_ok n p \<Longrightarrow> lk_cands p \<noteq> {} \<Longrightarrow> \<exists>f. lk_find_victim iter p = Ok f \<and> f \<in> lk_cands p"
    using spec [of p n] by (auto simp: lk_ok_def lk_cands_def)
  show "lk_ok n p \<Longrightarrow> lk_cands p = {} \<Longrightarrow> lk_find_victim iter p = Err NoVictimFound"
    using spec [of p n] by (auto simp: lk_ok_def)
  show "lk_ok (Suc n) p \<Longrightarrow> lk_ok n p" by (auto simp: lk_ok_def)
  show "lk_cands p \<subseteq> lk_marked p" by (auto simp: lk_cands_def lk_marked_def candidate_def)
  show "lk_ok (Suc n) p \<Longrightarrow> lk_ok n (lk_record_access f p) \<and> lk_marked (lk_record_access f p) = lk_marked p \<and>
      lk_cands (lk_record_access f p) = lk_cands p \<union> ({f} \<inter> lk_marked p)"
  proof -
    assume ok: "lk_ok (Suc n) p"
    have inv: "lk_inv p" "0 < lk_k p" using ok by (simp_all add: lk_ok_def)
    note ts = lk_ok_clock [OF ok]
    note i = lk_inv_info [OF inv(1), of f]
    have ne: "pushed (lk_k p) (current_timestamp p) (history (info_of p f)) \<noteq> []"
      by (rule pushed_props(4) [OF i(1) inv(2) i(2,3)])
    have "lk_inv (lk_record_access f p)" by (rule lk_inv_access [OF inv(1) ts inv(2)])
    then have "lk_ok n (lk_record_access f p)"
      using ok next_time [OF ts] by (simp add: lk_ok_def record_access_eq)
    moreover have "lk_marked (lk_record_access f p) = lk_marked p"
      by (auto simp: lk_marked_def record_access_eq info_of_def split: option.splits if_splits)
    moreover have "lk_cands (lk_record_access f p) = lk_cands p \<union> ({f} \<inter> lk_marked p)"
      using ne by (auto simp: lk_cands_def lk_marked_def candidate_def record_access_eq info_of_def split: option.splits if_splits)
    ultimately show ?thesis by simp
  qed
  show "lk_ok n p \<Longrightarrow> lk_ok n (lk_set_evictable f b p) \<and>
      lk_marked (lk_set_evictable f b p) = (if b then insert f (lk_marked p) else lk_marked p - {f}) \<and>
      lk_cands (lk_set_evictable f False p) = lk_cands p - {f} \<and> lk_cands p \<subseteq> lk_cands (lk_set_evictable f True p) \<and>
      lk_cands (lk_set_evictable f True p) \<subseteq> insert f (lk_cands p)"
    using lk_inv_set [of p f b]
    by (auto simp: lk_ok_def lk_set_evictable_def lk_marked_def lk_cands_def candidate_def Let_def split: option.splits if_splits)
  show "lk_ok n p \<Longrightarrow> lk_ok n (lk_remove_frame f p) \<and> lk_marked (lk_remove_frame f p) = lk_marked p - {f} \<and>
      lk_cands (lk_remove_frame f p) = lk_cands p - {f}"
    using lk_inv_remove [of p f]
    by (auto simp: lk_ok_def lk_remove_frame_def lk_marked_def lk_cands_def split: if_splits)
qed

context hash_order
begin

lemma pinned_not_victim: "lk_ok n p \<Longrightarrow> lk_find_victim iter (lk_set_evictable f False p) = Ok g \<Longrightarrow> g \<noteq> f"
  using pinned_is_safe [of n p f g] by simp

end

text \<open>One order of iteration: by frame number.\<close>

definition by_number :: "(nat \<rightharpoonup> 'v) \<Rightarrow> (nat \<times> 'v) list" where
  "by_number m = map (\<lambda>f. (f, the (m f))) (sorted_list_of_set (dom m))"

lemma by_number_visits: "visits_all by_number"
  unfolding visits_all_def
proof (intro allI impI conjI)
  fix m :: "nat \<rightharpoonup> 'v" assume f: "finite (dom m)"
  show "set (by_number m) = {(f, i). m f = Some i}" using f by (auto simp: by_number_def image_iff domIff)
  have "distinct (map fst (by_number m))" by (simp add: by_number_def comp_def)
  then show "distinct (by_number m)" by (simp add: distinct_map)
qed

interpretation lruk: hash_order by_number
  by unfold_locales (rule by_number_visits)

section \<open>The history of every access\<close>

text \<open>
  The specification: each frame's accesses since it was last removed, all of them, with the
  times counted by an unbounded clock.
\<close>

datatype evictor_request = Access nat | SetEvictable nat bool | RemoveFrame nat

fun lk_apply :: "evictor_request \<Rightarrow> lruk \<Rightarrow> lruk" where
  "lk_apply (Access f) s = lk_record_access f s"
| "lk_apply (SetEvictable f b) s = lk_set_evictable f b s"
| "lk_apply (RemoveFrame f) s = lk_remove_frame f s"

type_synonym access_log = "nat \<times> (nat \<rightharpoonup> nat list \<times> bool)"

definition log_of :: "access_log \<Rightarrow> nat \<Rightarrow> nat list \<times> bool" where
  "log_of l f = (case snd l f of Some e \<Rightarrow> e | None \<Rightarrow> ([], False))"

fun log_apply :: "evictor_request \<Rightarrow> access_log \<Rightarrow> access_log" where
  "log_apply (Access f) l = (fst l + 1, (snd l)(f \<mapsto> (fst (log_of l f) @ [fst l], snd (log_of l f))))"
| "log_apply (SetEvictable f b) l = (fst l, (snd l)(f \<mapsto> (fst (log_of l f), b)))"
| "log_apply (RemoveFrame f) l = (fst l, (snd l)(f := None))"

definition last_n :: "nat \<Rightarrow> 'b list \<Rightarrow> 'b list" where
  "last_n k xs = drop (length xs - k) xs"

definition shown :: "nat \<Rightarrow> nat list \<times> bool \<Rightarrow> frame_info" where
  "shown k e = \<lparr> history = map of_nat (last_n k (fst e)), evictable = snd e \<rparr>"

definition lk_view :: "nat \<Rightarrow> access_log \<Rightarrow> lruk" where
  "lk_view k l = \<lparr> lk_k = k, current_timestamp = of_nat (fst l), lk_state = (\<lambda>f. map_option (shown k) (snd l f)) \<rparr>"

lemma pushed_last_n:
  assumes "0 < k"
  shows "pushed k (of_nat c) (map of_nat (last_n k h)) = map of_nat (last_n k (h @ [c]))"
proof (cases "length h < k")
  case True
  then show ?thesis by (simp add: pushed_def last_n_def)
next
  case False
  have "tl (drop (length h - k) (h @ [c])) = drop (Suc (length h - k)) (h @ [c])"
    by (simp only: tl_drop drop_Suc)
  then have t: "tl (drop (length h - k) h @ [c]) = drop (Suc (length h) - k) (h @ [c])"
    using False by (simp add: Suc_diff_le)
  have "pushed k (of_nat c) (map of_nat (last_n k h)) = tl (map of_nat (drop (length h - k) h @ [c]))"
    using False by (simp add: pushed_def last_n_def)
  also have "\<dots> = map of_nat (tl (drop (length h - k) h @ [c]))" by (rule map_tl [symmetric])
  finally show ?thesis by (simp only: t last_n_def length_append list.size One_nat_def add_Suc_right add_0_right)
qed

lemma info_of_view: "info_of (lk_view k l) f = shown k (log_of l f)"
  by (simp add: info_of_def lk_view_def log_of_def shown_def last_n_def split: option.split)

lemma lk_apply_view: "0 < k \<Longrightarrow> lk_apply r (lk_view k l) = lk_view k (log_apply r l)"
proof (cases r)
  case (Access f)
  assume k: "0 < k"
  have p: "pushed k (of_nat (fst l)) (history (shown k (log_of l f))) = map of_nat (last_n k (fst (log_of l f) @ [fst l]))"
    unfolding shown_def by (simp add: pushed_last_n [OF k])
  have "lk_record_access f (lk_view k l) = lk_view k (log_apply r l)"
    unfolding record_access_eq info_of_view Access
    using p by (simp add: lk_view_def fun_eq_iff) (simp add: shown_def add.commute)
  then show ?thesis using Access by simp
next
  case (SetEvictable f b)
  then show ?thesis
    by (simp add: lk_set_evictable_def lk_view_def Let_def shown_def log_of_def last_n_def fun_eq_iff split: option.split)
next
  case (RemoveFrame f)
  then show ?thesis by (simp add: lk_remove_frame_def lk_view_def fun_eq_iff)
qed

lemma lk_run_view: "0 < k \<Longrightarrow> fold lk_apply rs (lk_view k l) = lk_view k (fold log_apply rs l)"
  by (induction rs arbitrary: l) (simp_all add: lk_apply_view)

section \<open>Properties of the evictor\<close>

text \<open>C20: The victim LRU-K chooses does not depend on the order of the hash map. In a state that keeps the
invariant \<open>lk_inv\<close> and whose 64-bit clock is below its maximum: when no evictable frame was ever accessed there is no
victim, otherwise \<open>find_victim\<close> returns (and leaves where it is) an evictable frame that comes strictly before every
other one, where frames with fewer than \<open>k\<close> accesses come first and then the oldest of the last \<open>k\<close> accesses decides.\<close>

theorem lruk_victim:
  assumes "lk_inv s" "current_timestamp s < usize_max" "visits_all iter"
  shows "if \<forall>f i. lk_state s f = Some i \<longrightarrow> \<not> candidate i then lk_find_victim iter s = Err NoVictimFound
    else \<exists>f i. lk_find_victim iter s = Ok f \<and> lk_state s f = Some i \<and> candidate i \<and>
      (\<forall>g j. lk_state s g = Some j \<and> candidate j \<and> g \<noteq> f \<longrightarrow>
        (if length (history i) < lk_k s then length (history j) < lk_k s \<longrightarrow> hd (history i) < hd (history j)
         else length (history j) = lk_k s \<and> hd (history i) < hd (history j)))"
proof (cases "lk_cands s = {}")
  case True
  then show ?thesis using lk_victim_spec [OF assms] by (auto simp: lk_cands_def)
next
  case False
  then obtain f i where f: "lk_find_victim iter s = Ok f" "lk_state s f = Some i" "candidate i"
    "\<forall>g j. lk_state s g = Some j \<longrightarrow> candidate j \<longrightarrow> age_rank (lk_k s) i \<le> age_rank (lk_k s) j"
    using lk_victim_spec [OF assms] by auto
  have "if length (history i) < lk_k s then length (history j) < lk_k s \<longrightarrow> hd (history i) < hd (history j)
      else length (history j) = lk_k s \<and> hd (history i) < hd (history j)"
    if j: "lk_state s g = Some j" "candidate j" "g \<noteq> f" for g j
  proof -
    have "set (history i) \<inter> set (history j) = {}" using assms(1) f(2) j(1,3) unfolding lk_inv_def by metis
    then have "hd (history i) \<noteq> hd (history j)" using f(3) j(2) hd_in_set by (fastforce simp: candidate_def)
    then have ne: "unat (hd (history i)) \<noteq> unat (hd (history j))" using word_unat_eqI by blast
    have "length (history j) \<le> lk_k s" using assms(1) j(1) by (simp add: lk_inv_def)
    moreover have "age_rank (lk_k s) i \<le> age_rank (lk_k s) j" using f(4) j by blast
    moreover have "unat (hd (history i)) < 2 ^ 64" "unat (hd (history j)) < 2 ^ 64"
      using unat_bound [of "hd (history i)"] unat_bound [of "hd (history j)"] by simp_all
    ultimately show ?thesis using ne by (auto simp: age_rank_def word_less_nat_alt split: if_splits)
  qed
  then show ?thesis using f(1-3) by auto
qed

theorem lruk_victim_witness:
  "\<exists>f. lk_find_victim by_number (fold lk_apply [Access 1, Access 2, SetEvictable 1 True, SetEvictable 2 True, Access 1] (lk_new 2)) = Ok f"
proof -
  let ?s = "fold lk_apply [Access 1, Access 2, SetEvictable 1 True, SetEvictable 2 True, Access 1] (lk_new 2)"
  have "lk_inv ?s" "current_timestamp ?s < usize_max"
    by (simp_all add: lk_inv_def lk_record_access_def lk_set_evictable_def lk_new_def Let_def)
  moreover have "\<exists>i. lk_state ?s 2 = Some i \<and> candidate i"
    by (simp add: lk_record_access_def lk_set_evictable_def lk_new_def Let_def candidate_def)
  ultimately show ?thesis using lruk_victim [OF _ _ by_number_visits, of ?s] by (auto split: if_splits)
qed

text \<open>C21: A bounded history is enough: after any sequence of accesses, markings and removals the policy holds of each
frame exactly its last \<open>k\<close> accesses since it was last removed, and whether it may be evicted.\<close>

theorem lruk_keeps_last_accesses:
  assumes "0 < k"
  shows "fold lk_apply rs (lk_new k) = lk_view k (fold log_apply rs (0, Map.empty))"
proof -
  have "lk_new k = lk_view k (0, Map.empty)" by (simp add: lk_new_def lk_view_def)
  with lk_run_view [OF assms, of rs "(0, Map.empty)"] show ?thesis by simp
qed

theorem lruk_keeps_last_accesses_witness:
  "lk_state (fold lk_apply [Access 4, Access 4, Access 5, Access 4] (lk_new 2)) 4 = Some \<lparr> history = [1, 3], evictable = False \<rparr>"
  using lruk_keeps_last_accesses [of 2 "[Access 4, Access 4, Access 5, Access 4]"]
  by (simp add: lk_view_def log_of_def shown_def last_n_def)

text \<open>A pinned frame is safe: whatever happened before, a frame that has just been marked as not evictable is not
the next victim.\<close>

theorem lruk_pinned_safe:
  assumes "lk_inv s" "current_timestamp s < usize_max" "0 < lk_k s" "visits_all iter"
    "lk_find_victim iter (lk_set_evictable f False s) = Ok g"
  shows "g \<noteq> f"
proof -
  have "lk_ok 0 s" using assms(1-3) by (simp add: lk_ok_def word_less_nat_alt)
  then show ?thesis using hash_order.pinned_not_victim [OF hash_order.intro [OF assms(4)]] assms(5) by blast
qed

theorem lruk_pinned_safe_witness:
  "lk_find_victim by_number (lk_set_evictable 1 False (fold lk_apply [Access 1, Access 2, SetEvictable 2 True] (lk_new 2))) = Ok 2 \<and> (2 :: nat) \<noteq> 1"
proof -
  let ?s = "fold lk_apply [Access 1, Access 2, SetEvictable 2 True] (lk_new 2)"
  have inv: "lk_inv ?s" "current_timestamp ?s < usize_max" "0 < lk_k ?s"
    by (simp_all add: lk_inv_def lk_record_access_def lk_set_evictable_def lk_new_def Let_def)
  have "dom (lk_state (lk_set_evictable 1 False ?s)) = {1, 2}"
    by (auto simp: lk_record_access_def lk_set_evictable_def lk_new_def Let_def split: if_splits)
  then have v: "lk_find_victim by_number (lk_set_evictable 1 False ?s) = Ok 2"
    by (simp add: lk_find_victim_def by_number_def)
      (simp add: lk_record_access_def lk_set_evictable_def lk_new_def Let_def)
  show ?thesis using v lruk_pinned_safe [OF inv by_number_visits v] by simp
qed

end
