(* ===== verification/Catalog.thy ===== *)
theory Catalog
  imports Prelude
begin

text \<open>
  The column types of \<open>src/src/databox/databox.rs\<close>, the catalog's records of
  \<open>src/src/catalog/catalog.rs\<close>, the system tables of \<open>src/src/catalog/schema.rs\<close> and the
  operators of \<open>src/src/parser/ast.rs\<close>.
\<close>

section \<open>Column types\<close>

datatype data_type = TBool | TI8 | TI16 | TI32 | TI64 | TU8 | TU16 | TU32 | TU64 | TF32 | TF64 | TString

fun data_type_into :: "data_type \<Rightarrow> u8" where
  "data_type_into TBool = 0"
| "data_type_into TI8 = 1" | "data_type_into TI16 = 2" | "data_type_into TI32 = 3" | "data_type_into TI64 = 4"
| "data_type_into TU8 = 5" | "data_type_into TU16 = 6" | "data_type_into TU32 = 7" | "data_type_into TU64 = 8"
| "data_type_into TF32 = 9" | "data_type_into TF64 = 10" | "data_type_into TString = 11"

text \<open>The error carries the byte (\<open>DataTypeCreateError::Invalid\<close>).\<close>

definition data_type_try_from :: "u8 \<Rightarrow> (u8, data_type) outcome" where
  "data_type_try_from v =
     (if v = 0 then Ok TBool
      else if v = 1 then Ok TI8 else if v = 2 then Ok TI16 else if v = 3 then Ok TI32 else if v = 4 then Ok TI64
      else if v = 5 then Ok TU8 else if v = 6 then Ok TU16 else if v = 7 then Ok TU32 else if v = 8 then Ok TU64
      else if v = 9 then Ok TF32 else if v = 10 then Ok TF64 else if v = 11 then Ok TString
      else Err v)"

lemma data_type_roundtrip [simp]: "data_type_try_from (data_type_into t) = Ok t"
  by (cases t) (simp_all add: data_type_try_from_def)

lemma data_type_try_from_Ok: "data_type_try_from v = Ok t \<Longrightarrow> data_type_into t = v"
  by (auto simp: data_type_try_from_def split: if_splits)

section \<open>Catalog records\<close>

record table =
  table_oid :: u32
  table_name :: string
  table_file :: u32

record column =
  col_oid :: u32
  col_table :: u32
  col_name :: string
  col_type :: data_type
  col_position :: u16
  col_nullable :: bool

record index =
  index_oid :: u32
  index_name :: string
  index_table :: u32
  index_file :: u32
  index_column :: u32

section \<open>System tables\<close>

definition SYS_TABLE_TABLES :: table where
  "SYS_TABLE_TABLES = \<lparr> table_oid = 0, table_name = ''sys_tables'', table_file = 0 \<rparr>"

definition SYS_TABLE_COLUMNS :: table where
  "SYS_TABLE_COLUMNS = \<lparr> table_oid = 1, table_name = ''sys_columns'', table_file = 1 \<rparr>"

definition SYS_TABLE_INDEXES :: table where
  "SYS_TABLE_INDEXES = \<lparr> table_oid = 2, table_name = ''sys_indexes'', table_file = 2 \<rparr>"

definition SYS_INDEX_STUB :: index where
  "SYS_INDEX_STUB = \<lparr> index_oid = 0, index_name = '''', index_table = 0, index_file = 0, index_column = 0 \<rparr>"

abbreviation sys_column :: "u32 \<Rightarrow> u32 \<Rightarrow> string \<Rightarrow> u16 \<Rightarrow> data_type \<Rightarrow> column" where
  "sys_column i t n p d \<equiv> \<lparr> col_oid = i, col_table = t, col_name = n, col_type = d, col_position = p, col_nullable = False \<rparr>"

definition SYS_COLUMNS_TABLES_TABLE :: "column list" where
  "SYS_COLUMNS_TABLES_TABLE =
    [sys_column 0 0 ''oid'' 0 TU32, sys_column 1 0 ''name'' 1 TString, sys_column 2 0 ''file_id'' 2 TU32]"

definition SYS_COLUMNS_COLUMNS_TABLE :: "column list" where
  "SYS_COLUMNS_COLUMNS_TABLE =
    [sys_column 10 1 ''oid'' 0 TU32, sys_column 11 1 ''table_oid'' 1 TU32, sys_column 12 1 ''name'' 2 TString,
     sys_column 13 1 ''type_id'' 3 TU8, sys_column 14 1 ''position'' 4 TU16, sys_column 15 1 ''nullable'' 5 TBool]"

definition SYS_COLUMNS_INDEXES_TABLE :: "column list" where
  "SYS_COLUMNS_INDEXES_TABLE =
    [sys_column 20 2 ''oid'' 0 TU32, sys_column 21 2 ''name'' 1 TString, sys_column 22 2 ''table_oid'' 2 TU32,
     sys_column 23 2 ''column_oid'' 3 TU32, sys_column 24 2 ''file_id'' 4 TU32]"

section \<open>Operators\<close>

datatype binary_op = Add | Sub | Mul | Div | Mod | Eq | NotEq | Lt | LtEq | Gt | GtEq | And | Or | Concat

datatype unary_op = Neg | Not

end
