(* ===== verification/Bound.thy ===== *)
theory Bound
  imports Catalog
begin

text \<open>
  \<open>src/src/binder/bound.rs\<close>: bound statements, what the binder makes of parsed statements and the
  planner plans. Floating-point literals are their bits; a box is its contents.
\<close>

type_synonym i64 = "64 word"

datatype literal = LInteger i64 | LFloat u64 | LString string | LBool bool | LNull

record column_ref =
  qualifier :: "string option"
  column_name :: string
  scope_index :: nat

datatype function_kind = Count | Sum | Avg | Min | Max | Coalesce | Nullif | Upper | Lower | Length | Abs | Unknown

fun is_aggregate :: "function_kind \<Rightarrow> bool" where
  "is_aggregate k = (k \<in> {Count, Sum, Avg, Min, Max})"

definition function_kind_from :: "string \<Rightarrow> function_kind" where
  "function_kind_from s =
     (if s = ''count'' then Count else if s = ''sum'' then Sum else if s = ''avg'' then Avg
      else if s = ''min'' then Min else if s = ''max'' then Max else if s = ''coalesce'' then Coalesce
      else if s = ''nullif'' then Nullif else if s = ''upper'' then Upper else if s = ''lower'' then Lower
      else if s = ''length'' \<or> s = ''len'' then Length else if s = ''abs'' then Abs else Unknown)"

record output_column =
  oc_name :: string
  oc_type :: data_type
  oc_nullable :: bool

datatype join_kind = Inner | LeftOuter | RightOuter | FullOuter | Cross

datatype bound_expr = BoundExpr (be_kind: bound_expr_kind) (be_type: data_type) (be_nullable: bool)
and bound_expr_kind =
    ELiteral literal
  | EColumn column_ref
  | EBinary bound_expr binary_op bound_expr
  | EUnary unary_op bound_expr
  | EIsNull bound_expr
  | EIsNotNull bound_expr
  | ELike bound_expr bound_expr bool
  | EBetween bound_expr bound_expr bound_expr bool
  | EIn bound_expr "bound_expr list" bool
  | EInSubquery bound_expr bound_select bool
  | EExists bound_select bool
  | ESubquery bound_select
  | EFunction string function_kind "bound_expr list" bool
  | ECast bound_expr data_type
  | ECase "bound_expr option" "(bound_expr \<times> bound_expr) list" "bound_expr option"
and bound_select = BoundSelect
    (bs_projections: "bound_select_item list") (bs_from: "bound_table_ref list") (bs_joins: "bound_join list")
    (bs_where: "bound_expr option") (bs_group_by: "bound_expr list") (bs_having: "bound_expr option")
    (bs_order_by: "bound_order_by list") (bs_limit: "bound_expr option") (bs_offset: "bound_expr option")
    (bs_distinct: bool) (bs_output: "output_column list")
and bound_select_item = BoundSelectItem (bi_expr: bound_expr) (bi_alias: string)
and bound_table_ref = BaseTable table "column list" "string option" | SubqueryRef bound_select string
and bound_join = BoundJoin (bj_kind: join_kind) (bj_table: bound_table_ref) (bj_condition: join_condition)
and join_condition = On bound_expr | Using "bound_expr list" | Natural "bound_expr list" | NoCondition
and bound_order_by = BoundOrderBy (bo_expr: bound_expr) (bo_asc: bool) (bo_nulls_first: "bool option")

section \<open>Statements\<close>

datatype foreign_key_action = NoAction | Cascade | SetNull | Restrict

record foreign_key_clause =
  fk_columns :: "string list"
  fk_ref_table :: string
  fk_ref_columns :: "string list"
  fk_on_delete :: "foreign_key_action option"
  fk_on_update :: "foreign_key_action option"

record bound_column_def =
  cd_oid :: u32
  cd_name :: string
  cd_type :: data_type
  cd_position :: u16
  cd_nullable :: bool
  cd_default :: "bound_expr option"
  cd_unique :: bool
  cd_primary_key :: bool

record bound_create_table =
  ct_oid :: u32
  ct_file :: u32
  ct_name :: string
  ct_columns :: "bound_column_def list"
  ct_primary_key :: "u16 list"
  ct_foreign_keys :: "foreign_key_clause list"
  ct_if_not_exists :: bool

record bound_drop_table =
  dt_oid :: u32
  dt_name :: string
  dt_indexes :: "u32 list"
  dt_if_exists :: bool

datatype bound_alter_action =
    AddColumn bound_column_def
  | DropColumn u32 u16
  | RenameColumn u32 string string
  | RenameTable string
  | AlterColumnType u32 data_type
  | AddForeignKey foreign_key_clause
  | DropForeignKey string
  | AddPrimaryKey "u32 list"
  | DropConstraint string

record bound_alter_table =
  at_oid :: u32
  at_name :: string
  at_action :: bound_alter_action

record bound_create_index =
  ci_oid :: u32
  ci_file :: u32
  ci_name :: string
  ci_table :: u32
  ci_column :: u32
  ci_unique :: bool
  ci_if_not_exists :: bool

record bound_drop_index =
  di_oid :: u32
  di_name :: string
  di_table :: u32
  di_if_exists :: bool

datatype bound_insert_source = InsertValues "bound_expr list list" | InsertSelect bound_select

record bound_insert =
  ins_table :: table
  ins_columns :: "column list"
  ins_targets :: "column list"
  ins_source :: bound_insert_source

record bound_assignment =
  as_column :: column
  as_value :: bound_expr

record bound_update =
  upd_table :: table
  upd_columns :: "column list"
  upd_assignments :: "bound_assignment list"
  upd_where :: "bound_expr option"

record bound_delete =
  del_table :: table
  del_columns :: "column list"
  del_where :: "bound_expr option"

datatype bound_statement =
    BCreateTable bound_create_table
  | BDropTable bound_drop_table
  | BAlterTable bound_alter_table
  | BInsert bound_insert
  | BSelect bound_select
  | BUpdate bound_update
  | BDelete bound_delete
  | BCreateIndex bound_create_index
  | BDropIndex bound_drop_index
  | BExplain bound_statement

end
