(* ===== verification/Planner.thy ===== *)
theory Planner
  imports Bound
begin

text \<open>
  \<open>src/src/planner\<close>: logical plans and the planner, which turns a bound statement into a logical
  plan. Every function of the planner that returns a \<open>Result\<close> returns \<open>Ok\<close>, so the model returns
  the plan.
\<close>

section \<open>Logical plans\<close>

type_synonym schema = "output_column list"

record seq_scan =
  ss_table :: table
  ss_columns :: "column list"
  ss_alias :: "string option"
  ss_schema :: schema

record index_scan =
  is_index :: index
  is_table :: table
  is_columns :: "column list"
  is_start_key :: "bound_expr option"
  is_end_key :: "bound_expr option"
  is_schema :: schema

record sort_key =
  sk_expr :: bound_expr
  sk_asc :: bool
  sk_nulls_first :: "bool option"

record aggregate_expr =
  ag_kind :: function_kind
  ag_arg :: "bound_expr option"
  ag_distinct :: bool
  ag_alias :: string
  ag_type :: data_type
  ag_nullable :: bool

datatype logical_plan =
    SeqScan seq_scan
  | IndexScan index_scan
  | Filter bound_expr logical_plan
  | Projection "bound_expr list" "string list" logical_plan schema
  | Join join_kind logical_plan logical_plan join_condition schema
  | Aggregate "bound_expr list" "aggregate_expr list" logical_plan schema
  | Sort "sort_key list" logical_plan
  | Limit "bound_expr option" "bound_expr option" logical_plan
  | Distinct logical_plan
  | Insert table "column list" "column list" logical_plan schema
  | Update table "column list" "bound_assignment list" logical_plan schema
  | Delete table "column list" logical_plan schema
  | CreateTable bound_create_table
  | DropTable bound_drop_table
  | AlterTable bound_alter_table
  | CreateIndex bound_create_index
  | DropIndex bound_drop_index
  | Values "bound_expr list list" schema
  | Nothing

fun plan_schema :: "logical_plan \<Rightarrow> schema" where
  "plan_schema (SeqScan n) = ss_schema n"
| "plan_schema (IndexScan n) = is_schema n"
| "plan_schema (Filter _ input) = plan_schema input"
| "plan_schema (Projection _ _ _ s) = s"
| "plan_schema (Join _ _ _ _ s) = s"
| "plan_schema (Aggregate _ _ _ s) = s"
| "plan_schema (Sort _ input) = plan_schema input"
| "plan_schema (Limit _ _ input) = plan_schema input"
| "plan_schema (Distinct input) = plan_schema input"
| "plan_schema (Insert _ _ _ _ s) = s"
| "plan_schema (Update _ _ _ _ s) = s"
| "plan_schema (Delete _ _ _ s) = s"
| "plan_schema (Values _ s) = s"
| "plan_schema _ = []"

section \<open>Aggregates\<close>

text \<open>The aggregate calls of an expression, added to those already found; one name is added only once.\<close>

fun collect_agg_from_expr :: "string \<Rightarrow> bound_expr \<Rightarrow> aggregate_expr list \<Rightarrow> aggregate_expr list" where
  "collect_agg_from_expr alias (BoundExpr (EFunction _ k args dist) t n) out =
     (if is_aggregate k \<and> \<not> list_ex (\<lambda>a. ag_alias a = alias) out
      then out @ [\<lparr> ag_kind = k, ag_arg = (case args of [] \<Rightarrow> None | a # _ \<Rightarrow> Some a), ag_distinct = dist,
        ag_alias = alias, ag_type = t, ag_nullable = n \<rparr>]
      else out)"
| "collect_agg_from_expr alias (BoundExpr (EBinary l _ r) t n) out =
     collect_agg_from_expr alias r (collect_agg_from_expr alias l out)"
| "collect_agg_from_expr alias (BoundExpr (EUnary _ e) t n) out = collect_agg_from_expr alias e out"
| "collect_agg_from_expr alias (BoundExpr (ECase operand when_then else_result) t n) out =
     (let out1 = (case operand of None \<Rightarrow> out | Some e \<Rightarrow> collect_agg_from_expr alias e out);
          out2 = fold (\<lambda>(w, r) out. collect_agg_from_expr alias r (collect_agg_from_expr alias w out)) when_then out1
      in case else_result of None \<Rightarrow> out2 | Some e \<Rightarrow> collect_agg_from_expr alias e out2)"
| "collect_agg_from_expr alias _ out = out"

definition collect_aggregates :: "bound_select_item list \<Rightarrow> bound_expr option \<Rightarrow> aggregate_expr list" where
  "collect_aggregates projections having =
     (let aggs = fold (\<lambda>p out. collect_agg_from_expr (bi_alias p) (bi_expr p) out) projections []
      in case having of None \<Rightarrow> aggs | Some h \<Rightarrow> collect_agg_from_expr ''having'' h aggs)"

definition group_column :: "schema \<Rightarrow> nat \<Rightarrow> bound_expr \<Rightarrow> output_column" where
  "group_column input i e = \<lparr> oc_name = (case be_kind e of
       EColumn cr \<Rightarrow> (if scope_index cr < length input then oc_name (input ! scope_index cr) else column_name cr)
     | _ \<Rightarrow> ''group_'' @ decimal i), oc_type = be_type e, oc_nullable = be_nullable e \<rparr>"

definition build_aggregate_schema :: "bound_expr list \<Rightarrow> aggregate_expr list \<Rightarrow> schema \<Rightarrow> schema" where
  "build_aggregate_schema group_by aggregates input =
     map2 (group_column input) [0..<length group_by] group_by @
     map (\<lambda>a. \<lparr> oc_name = ag_alias a, oc_type = ag_type a, oc_nullable = ag_nullable a \<rparr>) aggregates"

section \<open>Queries\<close>

definition merge_schemas :: "schema \<Rightarrow> schema \<Rightarrow> schema" where
  "merge_schemas left right = left @ right"

definition scan_column :: "string option \<Rightarrow> column \<Rightarrow> output_column" where
  "scan_column alias c = \<lparr> oc_name = (case alias of Some a \<Rightarrow> a @ ''.'' @ col_name c | None \<Rightarrow> col_name c),
     oc_type = col_type c, oc_nullable = col_nullable c \<rparr>"

definition base_scan :: "table \<Rightarrow> column list \<Rightarrow> string option \<Rightarrow> logical_plan" where
  "base_scan t cols alias = SeqScan \<lparr> ss_table = t, ss_columns = cols, ss_alias = alias, ss_schema = map (scan_column alias) cols \<rparr>"

definition filter_opt :: "bound_expr option \<Rightarrow> logical_plan \<Rightarrow> logical_plan" where
  "filter_opt pred plan = (case pred of None \<Rightarrow> plan | Some p \<Rightarrow> Filter p plan)"

text \<open>What \<open>plan_select\<close> puts on top of the plan of the FROM clause.\<close>

definition plan_above :: "bound_select \<Rightarrow> logical_plan \<Rightarrow> logical_plan" where
  "plan_above s p0 =
     (let p1 = filter_opt (bs_where s) p0;
          aggregates = collect_aggregates (bs_projections s) (bs_having s);
          p2 = (if bs_group_by s \<noteq> [] \<or> aggregates \<noteq> []
                then Aggregate (bs_group_by s) aggregates p1 (build_aggregate_schema (bs_group_by s) aggregates (plan_schema p1))
                else p1);
          p3 = filter_opt (bs_having s) p2;
          p4 = Projection (map bi_expr (bs_projections s)) (map bi_alias (bs_projections s)) p3 (bs_output s);
          p5 = (if bs_distinct s then Distinct p4 else p4);
          p6 = (if bs_order_by s \<noteq> []
                then Sort (map (\<lambda>k. \<lparr> sk_expr = bo_expr k, sk_asc = bo_asc k, sk_nulls_first = bo_nulls_first k \<rparr>) (bs_order_by s)) p5
                else p5)
      in if bs_limit s \<noteq> None \<or> bs_offset s \<noteq> None then Limit (bs_limit s) (bs_offset s) p6 else p6)"

text \<open>A subquery whose plan is a projection gets its columns qualified with the alias.\<close>

definition qualify :: "string \<Rightarrow> logical_plan \<Rightarrow> logical_plan" where
  "qualify alias plan = (case plan of
       Projection es as input s \<Rightarrow> Projection es as input (map (\<lambda>c. c\<lparr> oc_name := alias @ ''.'' @ oc_name c \<rparr>) s)
     | _ \<Rightarrow> plan)"

fun plan_select :: "bound_select \<Rightarrow> logical_plan"
and plan_table_ref :: "bound_table_ref \<Rightarrow> logical_plan"
and plan_joins :: "logical_plan \<Rightarrow> bound_join list \<Rightarrow> logical_plan"
where
  "plan_select (BoundSelect projections from joins wh group_by having order_by limit offset dist output) =
     plan_above (BoundSelect projections from joins wh group_by having order_by limit offset dist output)
       (case from of [] \<Rightarrow> Values [[]] [] | t # _ \<Rightarrow> plan_joins (plan_table_ref t) joins)"
| "plan_table_ref (BaseTable t columns alias) = base_scan t columns alias"
| "plan_table_ref (SubqueryRef query alias) = qualify alias (plan_select query)"
| "plan_joins plan [] = plan"
| "plan_joins plan (BoundJoin k t c # joins) =
     (let right = plan_table_ref t
      in plan_joins (Join k plan right c (merge_schemas (plan_schema plan) (plan_schema right))) joins)"

section \<open>Statements\<close>

definition rows_affected :: schema where
  "rows_affected = [\<lparr> oc_name = ''rows_affected'', oc_type = TI64, oc_nullable = False \<rparr>]"

definition plan_insert :: "bound_insert \<Rightarrow> logical_plan" where
  "plan_insert s = Insert (ins_table s) (ins_columns s) (ins_targets s)
     (case ins_source s of
        InsertValues rows \<Rightarrow> Values rows (map (scan_column None) (ins_targets s))
      | InsertSelect q \<Rightarrow> plan_select q) rows_affected"

definition plan_update :: "bound_update \<Rightarrow> logical_plan" where
  "plan_update s = Update (upd_table s) (upd_columns s) (upd_assignments s)
     (filter_opt (upd_where s) (base_scan (upd_table s) (upd_columns s) None)) rows_affected"

definition plan_delete :: "bound_delete \<Rightarrow> logical_plan" where
  "plan_delete s = Delete (del_table s) (del_columns s)
     (filter_opt (del_where s) (base_scan (del_table s) (del_columns s) None)) rows_affected"

fun plan_statement :: "bound_statement \<Rightarrow> logical_plan" where
  "plan_statement (BSelect s) = plan_select s"
| "plan_statement (BInsert s) = plan_insert s"
| "plan_statement (BUpdate s) = plan_update s"
| "plan_statement (BDelete s) = plan_delete s"
| "plan_statement (BCreateTable s) = CreateTable s"
| "plan_statement (BDropTable s) = DropTable s"
| "plan_statement (BAlterTable s) = AlterTable s"
| "plan_statement (BCreateIndex s) = CreateIndex s"
| "plan_statement (BDropIndex s) = DropIndex s"
| "plan_statement (BExplain s) = plan_statement s"

end
