(* ===== verification/Optimizer.thy ===== *)
theory Optimizer
  imports Planner
begin

text \<open>
  \<open>src/src/optimizer\<close>: physical plans and the optimizer, which pushes predicates towards the
  scans, chooses physical operators and fuses a limit over a sort. The functions that return a
  \<open>Result\<close> have no error of their own; the assertion of \<open>conjoin\<close> is a panic.
\<close>

section \<open>Physical plans\<close>

record phys_seq_scan =
  ps_table :: table
  ps_columns :: "column list"
  ps_alias :: "string option"
  ps_pushed_predicates :: "bound_expr list"
  ps_schema :: schema

record phys_index_scan =
  pi_index :: index
  pi_table :: table
  pi_columns :: "column list"
  pi_start_key :: "bound_expr option"
  pi_end_key :: "bound_expr option"
  pi_residual_predicates :: "bound_expr list"
  pi_schema :: schema

datatype physical_plan =
    PSeqScan phys_seq_scan
  | PIndexScan phys_index_scan
  | PFilter bound_expr physical_plan
  | PProjection "bound_expr list" "string list" physical_plan schema
  | PNestedLoopJoin join_kind physical_plan physical_plan join_condition schema
  | PHashJoin join_kind physical_plan physical_plan "bound_expr list" "bound_expr list" "bound_expr option" schema
  | PHashAggregate "bound_expr list" "aggregate_expr list" physical_plan schema
  | PStreamAggregate "bound_expr list" "aggregate_expr list" physical_plan schema
  | PSort "sort_key list" physical_plan
  | PTopN "sort_key list" bound_expr "bound_expr option" physical_plan
  | PLimit "bound_expr option" "bound_expr option" physical_plan
  | PDistinct physical_plan
  | PHashDistinct physical_plan
  | PInsert table "column list" "column list" physical_plan schema
  | PUpdate table "column list" "bound_assignment list" physical_plan schema
  | PDelete table "column list" physical_plan schema
  | PValues "bound_expr list list" schema
  | PCreateTable bound_create_table
  | PDropTable bound_drop_table
  | PAlterTable bound_alter_table
  | PCreateIndex bound_create_index
  | PDropIndex bound_drop_index
  | PNothing

fun phys_schema :: "physical_plan \<Rightarrow> schema" where
  "phys_schema (PSeqScan n) = ps_schema n"
| "phys_schema (PIndexScan n) = pi_schema n"
| "phys_schema (PFilter _ input) = phys_schema input"
| "phys_schema (PProjection _ _ _ s) = s"
| "phys_schema (PNestedLoopJoin _ _ _ _ s) = s"
| "phys_schema (PHashJoin _ _ _ _ _ _ s) = s"
| "phys_schema (PHashAggregate _ _ _ s) = s"
| "phys_schema (PStreamAggregate _ _ _ s) = s"
| "phys_schema (PSort _ input) = phys_schema input"
| "phys_schema (PTopN _ _ _ input) = phys_schema input"
| "phys_schema (PLimit _ _ input) = phys_schema input"
| "phys_schema (PDistinct input) = phys_schema input"
| "phys_schema (PHashDistinct input) = phys_schema input"
| "phys_schema (PInsert _ _ _ _ s) = s"
| "phys_schema (PUpdate _ _ _ _ s) = s"
| "phys_schema (PDelete _ _ _ s) = s"
| "phys_schema (PValues _ s) = s"
| "phys_schema _ = []"

section \<open>Expressions\<close>

fun split_conjunctions :: "bound_expr \<Rightarrow> bound_expr list" where
  "split_conjunctions (BoundExpr (EBinary l And r) t n) = split_conjunctions l @ split_conjunctions r"
| "split_conjunctions e = [e]"

definition conjoin :: "bound_expr list \<Rightarrow> (unit, bound_expr) outcome" where
  "conjoin exprs = (case exprs of [] \<Rightarrow> Panic
     | e # es \<Rightarrow> Ok (fold (\<lambda>e result. BoundExpr (EBinary result And e) TBool (be_nullable result \<or> be_nullable e)) es e))"

fun collect_scope_indices :: "bound_expr \<Rightarrow> nat list" where
  "collect_scope_indices (BoundExpr kind _ _) = (case kind of
       EColumn cr \<Rightarrow> [scope_index cr]
     | EBinary l _ r \<Rightarrow> collect_scope_indices l @ collect_scope_indices r
     | EUnary _ e \<Rightarrow> collect_scope_indices e
     | EIsNull e \<Rightarrow> collect_scope_indices e
     | EIsNotNull e \<Rightarrow> collect_scope_indices e
     | EBetween e low high _ \<Rightarrow> collect_scope_indices e @ collect_scope_indices low @ collect_scope_indices high
     | EIn e es _ \<Rightarrow> collect_scope_indices e @ concat (map collect_scope_indices es)
     | EFunction _ _ args _ \<Rightarrow> concat (map collect_scope_indices args)
     | ECast e _ \<Rightarrow> collect_scope_indices e
     | ECase operand when_then else_result \<Rightarrow>
         (case operand of None \<Rightarrow> [] | Some e \<Rightarrow> collect_scope_indices e) @
         concat (map (\<lambda>(w, t). collect_scope_indices w @ collect_scope_indices t) when_then) @
         (case else_result of None \<Rightarrow> [] | Some e \<Rightarrow> collect_scope_indices e)
     | _ \<Rightarrow> [])"

text \<open>\<open>(i as isize + delta) as usize\<close>.\<close>

definition shift_index :: "int \<Rightarrow> nat \<Rightarrow> nat" where
  "shift_index delta i = nat ((int i + delta) mod 2 ^ 64)"

fun shift_scope_indices :: "int \<Rightarrow> bound_expr \<Rightarrow> bound_expr" where
  "shift_scope_indices delta (BoundExpr kind t n) = BoundExpr (case kind of
       EColumn cr \<Rightarrow> EColumn (cr\<lparr> scope_index := shift_index delta (scope_index cr) \<rparr>)
     | EBinary l op r \<Rightarrow> EBinary (shift_scope_indices delta l) op (shift_scope_indices delta r)
     | EUnary op e \<Rightarrow> EUnary op (shift_scope_indices delta e)
     | EIsNull e \<Rightarrow> EIsNull (shift_scope_indices delta e)
     | EIsNotNull e \<Rightarrow> EIsNotNull (shift_scope_indices delta e)
     | other \<Rightarrow> other) t n"

section \<open>Pushing predicates\<close>

text \<open>Filters on top of a plan, the first predicate outermost.\<close>

definition filters :: "bound_expr list \<Rightarrow> logical_plan \<Rightarrow> logical_plan" where
  "filters predicates plan = foldr Filter predicates plan"

text \<open>Where a join sends a predicate: the left input, the right input, or on top of the join.\<close>

definition goes_left :: "nat \<Rightarrow> bound_expr \<Rightarrow> bool" where
  "goes_left n pred = list_all (\<lambda>i. i < n) (collect_scope_indices pred)"

definition goes_right :: "nat \<Rightarrow> bound_expr \<Rightarrow> bool" where
  "goes_right n pred = (\<not> goes_left n pred \<and> list_all (\<lambda>i. n \<le> i) (collect_scope_indices pred))"

fun push_predicates :: "logical_plan \<Rightarrow> bound_expr list \<Rightarrow> logical_plan" where
  "push_predicates (Filter predicate input) predicates =
     push_predicates input (predicates @ split_conjunctions predicate)"
| "push_predicates (SeqScan scan) predicates = filters predicates (SeqScan scan)"
| "push_predicates (Projection es as input s) predicates = Projection es as (push_predicates input predicates) s"
| "push_predicates (Join kind left right condition s) predicates =
     (let n = length (plan_schema left) in
      filters (filter (\<lambda>p. \<not> goes_left n p \<and> \<not> goes_right n p) predicates)
        (Join kind (push_predicates left (filter (goes_left n) predicates))
          (push_predicates right (map (shift_scope_indices (- int n)) (filter (goes_right n) predicates)))
          condition s))"
| "push_predicates (Aggregate g as input s) predicates = filters predicates (Aggregate g as (push_predicates input []) s)"
| "push_predicates (Sort ks input) predicates = Sort ks (push_predicates input predicates)"
| "push_predicates (Limit l off input) predicates = filters predicates (Limit l off (push_predicates input []))"
| "push_predicates (Distinct input) predicates = Distinct (push_predicates input predicates)"
| "push_predicates (Update t cs as input s) predicates = Update t cs as (push_predicates input predicates) s"
| "push_predicates (Delete t cs input s) predicates = Delete t cs (push_predicates input predicates) s"
| "push_predicates other predicates = filters predicates other"

section \<open>Index predicates and equi-joins\<close>

definition is_literal :: "bound_expr \<Rightarrow> bool" where
  "is_literal e = (case be_kind e of ELiteral _ \<Rightarrow> True | _ \<Rightarrow> False)"

fun flip_op :: "binary_op \<Rightarrow> binary_op option" where
  "flip_op Lt = Some Gt"
| "flip_op LtEq = Some GtEq"
| "flip_op Gt = Some Lt"
| "flip_op GtEq = Some LtEq"
| "flip_op Eq = Some Eq"
| "flip_op _ = None"

definition extract_index_predicate :: "bound_expr \<Rightarrow> (nat \<times> binary_op \<times> bound_expr) option" where
  "extract_index_predicate pred = (case be_kind pred of
       EBinary left op right \<Rightarrow>
         if op \<notin> {Eq, Lt, LtEq, Gt, GtEq} then None
         else (case (be_kind left, is_literal right) of
             (EColumn cr, True) \<Rightarrow> Some (scope_index cr, op, right)
           | _ \<Rightarrow> (case (be_kind right, is_literal left) of
               (EColumn cr, True) \<Rightarrow> map_option (\<lambda>flipped. (scope_index cr, flipped, left)) (flip_op op)
             | _ \<Rightarrow> None))
     | _ \<Rightarrow> None)"

fun range_from_op :: "binary_op \<Rightarrow> bound_expr \<Rightarrow> bound_expr option \<times> bound_expr option" where
  "range_from_op op key =
     (if op = Eq then (Some key, Some key)
      else if op = Gt \<or> op = GtEq then (Some key, None)
      else if op = Lt \<or> op = LtEq then (None, Some key)
      else (None, None))"

text \<open>No index is ever found: the function's body is \<open>None\<close>.\<close>

definition find_index_for_column :: "u32 \<Rightarrow> u32 \<Rightarrow> index option" where
  "find_index_for_column t c = None"

fun index_scan_from :: "seq_scan \<Rightarrow> bound_expr list \<Rightarrow> bound_expr list \<Rightarrow> bound_expr list \<Rightarrow> phys_index_scan option" where
  "index_scan_from scan predicates before [] = None"
| "index_scan_from scan predicates before (pred # rest) =
     (let continue = index_scan_from scan predicates (before @ [pred]) rest in
      case extract_index_predicate pred of
        None \<Rightarrow> continue
      | Some (col_scope_idx, op, key) \<Rightarrow>
        if length (ss_columns scan) \<le> col_scope_idx then continue
        else (case find_index_for_column (table_oid (ss_table scan)) (col_oid (ss_columns scan ! col_scope_idx)) of
            None \<Rightarrow> continue
          | Some idx \<Rightarrow>
            Some \<lparr> pi_index = idx, pi_table = ss_table scan, pi_columns = ss_columns scan,
              pi_start_key = fst (range_from_op op key), pi_end_key = snd (range_from_op op key),
              pi_residual_predicates = before @ rest, pi_schema = ss_schema scan \<rparr>))"

definition try_index_scan :: "seq_scan \<Rightarrow> bound_expr list \<Rightarrow> phys_index_scan option" where
  "try_index_scan scan predicates = index_scan_from scan predicates [] predicates"

text \<open>A conjunct that becomes a pair of hash keys.\<close>

fun equi_pair :: "bound_expr \<Rightarrow> (bound_expr \<times> bound_expr) option" where
  "equi_pair (BoundExpr (EBinary l Eq r) _ _) =
     (let left_refs = collect_scope_indices l; right_refs = collect_scope_indices r in
      if left_refs \<noteq> [] \<and> right_refs \<noteq> [] \<and> list_all (\<lambda>i. list_all (\<lambda>j. i \<noteq> j) right_refs) left_refs
      then Some (l, r) else None)"
| "equi_pair _ = None"

fun eq_sides :: "bound_expr \<Rightarrow> (bound_expr \<times> bound_expr) option" where
  "eq_sides (BoundExpr (EBinary l Eq r) _ _) = Some (l, r)"
| "eq_sides _ = None"

fun extract_equi_keys :: "join_condition \<Rightarrow> (unit, (bound_expr list \<times> bound_expr list \<times> bound_expr option) option) outcome" where
  "extract_equi_keys (On expr) =
     (let parts = split_conjunctions expr;
          keys = List.map_filter equi_pair parts;
          residual = filter (\<lambda>p. equi_pair p = None) parts in
      if keys = [] then Ok None
      else if residual = [] then Ok (Some (map fst keys, map snd keys, None))
      else bind_ok (conjoin residual) (\<lambda>r. Ok (Some (map fst keys, map snd keys, Some r))))"
| "extract_equi_keys (Using exprs) =
     (let keys = List.map_filter eq_sides exprs in
      Ok (if keys = [] then None else Some (map fst keys, map snd keys, None)))"
| "extract_equi_keys (Natural exprs) =
     (let keys = List.map_filter eq_sides exprs in
      Ok (if keys = [] then None else Some (map fst keys, map snd keys, None)))"
| "extract_equi_keys NoCondition = Ok None"

section \<open>Physical operators\<close>

definition phys_scan :: "seq_scan \<Rightarrow> phys_seq_scan" where
  "phys_scan scan = \<lparr> ps_table = ss_table scan, ps_columns = ss_columns scan, ps_alias = ss_alias scan,
     ps_pushed_predicates = [], ps_schema = ss_schema scan \<rparr>"

fun to_physical :: "logical_plan \<Rightarrow> (unit, physical_plan) outcome" where
  "to_physical Nothing = Ok PNothing"
| "to_physical (CreateTable s) = Ok (PCreateTable s)"
| "to_physical (DropTable s) = Ok (PDropTable s)"
| "to_physical (AlterTable s) = Ok (PAlterTable s)"
| "to_physical (CreateIndex s) = Ok (PCreateIndex s)"
| "to_physical (DropIndex s) = Ok (PDropIndex s)"
| "to_physical (Values rows s) = Ok (PValues rows s)"
| "to_physical (Filter predicate (SeqScan scan)) =
     (let parts = split_conjunctions predicate in
      case try_index_scan scan parts of
        Some phys_index \<Rightarrow> Ok (PIndexScan phys_index)
      | None \<Rightarrow> bind_ok (conjoin parts) (\<lambda>combined. Ok (PFilter combined (PSeqScan (phys_scan scan)))))"
| "to_physical (SeqScan scan) = Ok (PSeqScan (phys_scan scan))"
| "to_physical (IndexScan scan) = Ok (PIndexScan \<lparr> pi_index = is_index scan, pi_table = is_table scan,
     pi_columns = is_columns scan, pi_start_key = is_start_key scan, pi_end_key = is_end_key scan,
     pi_residual_predicates = [], pi_schema = is_schema scan \<rparr>)"
| "to_physical (Filter predicate input) = bind_ok (to_physical input) (\<lambda>i. Ok (PFilter predicate i))"
| "to_physical (Projection es as input s) = bind_ok (to_physical input) (\<lambda>i. Ok (PProjection es as i s))"
| "to_physical (Join kind left right condition s) =
     bind_ok (to_physical left) (\<lambda>l. bind_ok (to_physical right) (\<lambda>r.
     bind_ok (extract_equi_keys condition) (\<lambda>keys. Ok (case keys of
       Some (lk, rk, residual) \<Rightarrow>
         PHashJoin kind l r lk (map (shift_scope_indices (- int (length (phys_schema l)))) rk) residual s
     | None \<Rightarrow> PNestedLoopJoin kind l r condition s))))"
| "to_physical (Aggregate g as input s) = bind_ok (to_physical input) (\<lambda>i. Ok (PHashAggregate g as i s))"
| "to_physical (Sort ks input) = bind_ok (to_physical input) (\<lambda>i. Ok (PSort ks i))"
| "to_physical (Limit l off input) = bind_ok (to_physical input) (\<lambda>i. Ok (PLimit l off i))"
| "to_physical (Distinct input) = bind_ok (to_physical input) (\<lambda>i. Ok (PHashDistinct i))"
| "to_physical (Insert t cs ts source s) = bind_ok (to_physical source) (\<lambda>i. Ok (PInsert t cs ts i s))"
| "to_physical (Update t cs as input s) = bind_ok (to_physical input) (\<lambda>i. Ok (PUpdate t cs as i s))"
| "to_physical (Delete t cs input s) = bind_ok (to_physical input) (\<lambda>i. Ok (PDelete t cs i s))"

text \<open>A limit over a sort becomes a top-n.\<close>

fun fuse_sort_limit :: "physical_plan \<Rightarrow> physical_plan" where
  "fuse_sort_limit (PLimit (Some l) off (PSort ks input)) = PTopN ks l off (fuse_sort_limit input)"
| "fuse_sort_limit (PLimit l off input) = PLimit l off (fuse_sort_limit input)"
| "fuse_sort_limit (PFilter e input) = PFilter e (fuse_sort_limit input)"
| "fuse_sort_limit (PProjection es as input s) = PProjection es as (fuse_sort_limit input) s"
| "fuse_sort_limit (PNestedLoopJoin k l r c s) = PNestedLoopJoin k (fuse_sort_limit l) (fuse_sort_limit r) c s"
| "fuse_sort_limit (PHashJoin k l r lk rk res s) = PHashJoin k (fuse_sort_limit l) (fuse_sort_limit r) lk rk res s"
| "fuse_sort_limit (PHashAggregate g as input s) = PHashAggregate g as (fuse_sort_limit input) s"
| "fuse_sort_limit (PSort ks input) = PSort ks (fuse_sort_limit input)"
| "fuse_sort_limit (PDistinct input) = PDistinct (fuse_sort_limit input)"
| "fuse_sort_limit (PHashDistinct input) = PHashDistinct (fuse_sort_limit input)"
| "fuse_sort_limit (PInsert t cs ts source s) = PInsert t cs ts (fuse_sort_limit source) s"
| "fuse_sort_limit (PUpdate t cs as input s) = PUpdate t cs as (fuse_sort_limit input) s"
| "fuse_sort_limit (PDelete t cs input s) = PDelete t cs (fuse_sort_limit input) s"
| "fuse_sort_limit leaf = leaf"

definition optimize :: "logical_plan \<Rightarrow> (unit, physical_plan) outcome" where
  "optimize plan = bind_ok (to_physical (push_predicates plan [])) (\<lambda>p. Ok (fuse_sort_limit p))"

end
