(* ===== verification/PlanSemantics.thy ===== *)
theory PlanSemantics
  imports Optimizer "HOL-Library.List_Lexorder"
begin

text \<open>
  A reference semantics for plans: the rows a plan stands for, given the rows of the tables and
  the meaning of the operators. The repository has no executor yet, so this is what a logical and
  a physical plan are taken to mean; the optimizer is measured against it. The meaning of operators,
  functions and subqueries is a parameter (a record); \<open>sql_laws\<close> says what is relied on.
\<close>

section \<open>Meaning of operators\<close>

record 'v sql =
  q_lit :: "literal \<Rightarrow> 'v"
  q_null :: 'v
  q_true :: "'v \<Rightarrow> bool"
  q_bin :: "binary_op \<Rightarrow> 'v \<Rightarrow> 'v \<Rightarrow> 'v"
  q_un :: "unary_op \<Rightarrow> 'v \<Rightarrow> 'v"
  q_is_null :: "'v \<Rightarrow> 'v"
  q_is_not_null :: "'v \<Rightarrow> 'v"
  q_like :: "'v \<Rightarrow> 'v \<Rightarrow> bool \<Rightarrow> 'v"
  q_between :: "'v \<Rightarrow> 'v \<Rightarrow> 'v \<Rightarrow> bool \<Rightarrow> 'v"
  q_in :: "'v \<Rightarrow> 'v list \<Rightarrow> bool \<Rightarrow> 'v"
  q_in_subquery :: "'v \<Rightarrow> bound_select \<Rightarrow> 'v list \<Rightarrow> bool \<Rightarrow> 'v"
  q_exists :: "bound_select \<Rightarrow> 'v list \<Rightarrow> bool \<Rightarrow> 'v"
  q_subquery :: "bound_select \<Rightarrow> 'v list \<Rightarrow> 'v"
  q_function :: "string \<Rightarrow> function_kind \<Rightarrow> 'v list \<Rightarrow> bool \<Rightarrow> 'v"
  q_cast :: "'v \<Rightarrow> data_type \<Rightarrow> 'v"
  q_case :: "'v option \<Rightarrow> ('v \<times> 'v) list \<Rightarrow> 'v option \<Rightarrow> 'v"
  q_table :: "table \<Rightarrow> 'v list list"
  q_index :: "index \<Rightarrow> table \<Rightarrow> 'v option \<Rightarrow> 'v option \<Rightarrow> 'v list list"
  q_sort :: "sort_key list \<Rightarrow> 'v list list \<Rightarrow> 'v list list"
  q_aggregate :: "bound_expr list \<Rightarrow> aggregate_expr list \<Rightarrow> 'v list list \<Rightarrow> 'v list list"
  q_limit :: "'v option \<Rightarrow> 'v option \<Rightarrow> 'v list list \<Rightarrow> 'v list list"
  q_insert :: "table \<Rightarrow> column list \<Rightarrow> column list \<Rightarrow> 'v list list \<Rightarrow> 'v list list"
  q_update :: "table \<Rightarrow> column list \<Rightarrow> bound_assignment list \<Rightarrow> 'v list list \<Rightarrow> 'v list list"
  q_delete :: "table \<Rightarrow> column list \<Rightarrow> 'v list list \<Rightarrow> 'v list list"

text \<open>A conjunction is true when both sides are; sorting is stable, so it commutes with a filter.\<close>

definition sql_laws :: "'v sql \<Rightarrow> bool" where
  "sql_laws S \<longleftrightarrow> (\<forall>a b. q_true S (q_bin S And a b) = (q_true S a \<and> q_true S b)) \<and>
     (\<forall>P ks xs. filter P (q_sort S ks xs) = q_sort S ks (filter P xs))"

section \<open>Expressions\<close>

definition column_value :: "'v sql \<Rightarrow> 'v list \<Rightarrow> nat \<Rightarrow> 'v" where
  "column_value S row i = (if i < length row then row ! i else q_null S)"

fun eval :: "'v sql \<Rightarrow> 'v list \<Rightarrow> bound_expr \<Rightarrow> 'v" where
  "eval S row (BoundExpr kind _ _) = (case kind of
       ELiteral l \<Rightarrow> q_lit S l
     | EColumn cr \<Rightarrow> column_value S row (scope_index cr)
     | EBinary l op r \<Rightarrow> q_bin S op (eval S row l) (eval S row r)
     | EUnary op e \<Rightarrow> q_un S op (eval S row e)
     | EIsNull e \<Rightarrow> q_is_null S (eval S row e)
     | EIsNotNull e \<Rightarrow> q_is_not_null S (eval S row e)
     | ELike e p neg \<Rightarrow> q_like S (eval S row e) (eval S row p) neg
     | EBetween e low high neg \<Rightarrow> q_between S (eval S row e) (eval S row low) (eval S row high) neg
     | EIn e es neg \<Rightarrow> q_in S (eval S row e) (map (eval S row) es) neg
     | EInSubquery e q neg \<Rightarrow> q_in_subquery S (eval S row e) q row neg
     | EExists q neg \<Rightarrow> q_exists S q row neg
     | ESubquery q \<Rightarrow> q_subquery S q row
     | EFunction name k args d \<Rightarrow> q_function S name k (map (eval S row) args) d
     | ECast e t \<Rightarrow> q_cast S (eval S row e) t
     | ECase operand when_then else_result \<Rightarrow>
         q_case S (map_option (eval S row) operand)
           (map (\<lambda>(w, t). (eval S row w, eval S row t)) when_then) (map_option (eval S row) else_result))"

definition holds :: "'v sql \<Rightarrow> 'v list \<Rightarrow> bound_expr \<Rightarrow> bool" where
  "holds S row e \<longleftrightarrow> q_true S (eval S row e)"

definition all_hold :: "'v sql \<Rightarrow> 'v list \<Rightarrow> bound_expr list \<Rightarrow> bool" where
  "all_hold S row es \<longleftrightarrow> list_all (holds S row) es"

lemma all_hold_simps [simp]:
  "all_hold S row []" "all_hold S row (e # es) = (holds S row e \<and> all_hold S row es)"
  "all_hold S row (es @ fs) = (all_hold S row es \<and> all_hold S row fs)"
  by (simp_all add: all_hold_def)

lemma all_hold_iff: "all_hold S row es \<longleftrightarrow> (\<forall>e\<in>set es. holds S row e)"
  by (simp add: all_hold_def list_all_iff)

section \<open>Plans\<close>

fun condition_holds :: "'v sql \<Rightarrow> join_condition \<Rightarrow> 'v list \<Rightarrow> bool" where
  "condition_holds S (On e) row = holds S row e"
| "condition_holds S (Using es) row = all_hold S row es"
| "condition_holds S (Natural es) row = all_hold S row es"
| "condition_holds S NoCondition row = True"

definition matching :: "('r list \<Rightarrow> 'r list \<Rightarrow> bool) \<Rightarrow> 'r list list \<Rightarrow> 'r list list \<Rightarrow> 'r list list" where
  "matching c L R = concat (map (\<lambda>l. map ((@) l) (filter (c l) R)) L)"

definition left_padded :: "'r list \<Rightarrow> ('r list \<Rightarrow> 'r list \<Rightarrow> bool) \<Rightarrow> 'r list list \<Rightarrow> 'r list list \<Rightarrow> 'r list list" where
  "left_padded nulls c L R = concat (map (\<lambda>l. if list_ex (c l) R then map ((@) l) (filter (c l) R) else [l @ nulls]) L)"

definition right_unmatched :: "'r list \<Rightarrow> ('r list \<Rightarrow> 'r list \<Rightarrow> bool) \<Rightarrow> 'r list list \<Rightarrow> 'r list list \<Rightarrow> 'r list list" where
  "right_unmatched nulls c L R = map ((@) nulls) (filter (\<lambda>r. \<not> list_ex (\<lambda>l. c l r) L) R)"

fun join_rows :: "'r \<Rightarrow> join_kind \<Rightarrow> nat \<Rightarrow> nat \<Rightarrow> ('r list \<Rightarrow> 'r list \<Rightarrow> bool) \<Rightarrow> 'r list list \<Rightarrow> 'r list list \<Rightarrow> 'r list list" where
  "join_rows null Inner n m c L R = matching c L R"
| "join_rows null Cross n m c L R = matching c L R"
| "join_rows null LeftOuter n m c L R = left_padded (replicate m null) c L R"
| "join_rows null RightOuter n m c L R = matching c L R @ right_unmatched (replicate n null) c L R"
| "join_rows null FullOuter n m c L R = left_padded (replicate m null) c L R @ right_unmatched (replicate n null) c L R"

fun run :: "'v sql \<Rightarrow> logical_plan \<Rightarrow> 'v list list" where
  "run S (SeqScan n) = q_table S (ss_table n)"
| "run S (IndexScan n) = q_index S (is_index n) (is_table n) (map_option (eval S []) (is_start_key n)) (map_option (eval S []) (is_end_key n))"
| "run S (Filter e p) = filter (\<lambda>row. holds S row e) (run S p)"
| "run S (Projection es _ p _) = map (\<lambda>row. map (eval S row) es) (run S p)"
| "run S (Join k l r c _) = join_rows (q_null S) k (length (plan_schema l)) (length (plan_schema r))
     (\<lambda>x y. condition_holds S c (x @ y)) (run S l) (run S r)"
| "run S (Aggregate g as p _) = q_aggregate S g as (run S p)"
| "run S (Sort ks p) = q_sort S ks (run S p)"
| "run S (Limit l off p) = q_limit S (map_option (eval S []) l) (map_option (eval S []) off) (run S p)"
| "run S (Distinct p) = remdups (run S p)"
| "run S (Insert t cs ts p _) = q_insert S t cs ts (run S p)"
| "run S (Update t cs as p _) = q_update S t cs as (run S p)"
| "run S (Delete t cs p _) = q_delete S t cs (run S p)"
| "run S (Values rows _) = map (map (eval S [])) rows"
| "run S _ = []"

definition residual_holds :: "'v sql \<Rightarrow> bound_expr option \<Rightarrow> 'v list \<Rightarrow> bool" where
  "residual_holds S res row \<longleftrightarrow> (case res of None \<Rightarrow> True | Some e \<Rightarrow> holds S row e)"

text \<open>A hash join compares the left keys on the left row with the right keys on the right row.\<close>

definition keys_match :: "'v sql \<Rightarrow> bound_expr list \<Rightarrow> bound_expr list \<Rightarrow> 'v list \<Rightarrow> 'v list \<Rightarrow> bool" where
  "keys_match S lk rk x y \<longleftrightarrow> list_all2 (\<lambda>a b. q_true S (q_bin S Eq (eval S x a) (eval S y b))) lk rk"

fun run_phys :: "'v sql \<Rightarrow> physical_plan \<Rightarrow> 'v list list" where
  "run_phys S (PSeqScan n) = filter (\<lambda>row. all_hold S row (ps_pushed_predicates n)) (q_table S (ps_table n))"
| "run_phys S (PIndexScan n) = filter (\<lambda>row. all_hold S row (pi_residual_predicates n))
     (q_index S (pi_index n) (pi_table n) (map_option (eval S []) (pi_start_key n)) (map_option (eval S []) (pi_end_key n)))"
| "run_phys S (PFilter e p) = filter (\<lambda>row. holds S row e) (run_phys S p)"
| "run_phys S (PProjection es _ p _) = map (\<lambda>row. map (eval S row) es) (run_phys S p)"
| "run_phys S (PNestedLoopJoin k l r c _) = join_rows (q_null S) k (length (phys_schema l)) (length (phys_schema r))
     (\<lambda>x y. condition_holds S c (x @ y)) (run_phys S l) (run_phys S r)"
| "run_phys S (PHashJoin k l r lk rk res _) = join_rows (q_null S) k (length (phys_schema l)) (length (phys_schema r))
     (\<lambda>x y. keys_match S lk rk x y \<and> residual_holds S res (x @ y)) (run_phys S l) (run_phys S r)"
| "run_phys S (PHashAggregate g as p _) = q_aggregate S g as (run_phys S p)"
| "run_phys S (PStreamAggregate g as p _) = q_aggregate S g as (run_phys S p)"
| "run_phys S (PSort ks p) = q_sort S ks (run_phys S p)"
| "run_phys S (PTopN ks l off p) = q_limit S (Some (eval S [] l)) (map_option (eval S []) off) (q_sort S ks (run_phys S p))"
| "run_phys S (PLimit l off p) = q_limit S (map_option (eval S []) l) (map_option (eval S []) off) (run_phys S p)"
| "run_phys S (PDistinct p) = remdups (run_phys S p)"
| "run_phys S (PHashDistinct p) = remdups (run_phys S p)"
| "run_phys S (PInsert t cs ts p _) = q_insert S t cs ts (run_phys S p)"
| "run_phys S (PUpdate t cs as p _) = q_update S t cs as (run_phys S p)"
| "run_phys S (PDelete t cs p _) = q_delete S t cs (run_phys S p)"
| "run_phys S (PValues rows _) = map (map (eval S [])) rows"
| "run_phys S _ = []"

section \<open>Facts about joins\<close>

lemma filter_concat_map: "filter P (concat (map f xs)) = concat (map (\<lambda>x. filter P (f x)) xs)"
  by (induction xs) simp_all

lemma concat_map_filter: "concat (map f (filter P xs)) = concat (map (\<lambda>x. if P x then f x else []) xs)"
  by (induction xs) simp_all

lemma matching_filter:
  assumes "\<And>l. l \<in> set L \<Longrightarrow> length l = n"
  shows "matching c (filter P L) (filter Q R) = filter (\<lambda>row. P (take n row) \<and> Q (drop n row)) (matching c L R)"
  unfolding matching_def filter_concat_map concat_map_filter
  by (rule arg_cong [of _ _ concat], rule map_cong [OF refl])
    (auto simp: assms filter_map comp_def conj_commute intro: filter_cong)

lemma left_padded_filter:
  assumes "\<And>l. l \<in> set L \<Longrightarrow> length l = n"
  shows "left_padded nulls c (filter P L) R = filter (\<lambda>row. P (take n row)) (left_padded nulls c L R)"
  unfolding left_padded_def filter_concat_map concat_map_filter
  by (rule arg_cong [of _ _ concat], rule map_cong [OF refl]) (auto simp: assms filter_map comp_def)

lemma right_unmatched_filter:
  "right_unmatched nulls c L (filter Q R) = filter (\<lambda>row. Q (drop (length nulls) row)) (right_unmatched nulls c L R)"
  by (simp add: right_unmatched_def filter_map comp_def conj_commute)

lemma matching_cong:
  "(\<And>l r. l \<in> set L \<Longrightarrow> r \<in> set R \<Longrightarrow> c l r = d l r) \<Longrightarrow> matching c L R = matching d L R"
  unfolding matching_def
proof (rule arg_cong [of _ _ concat], rule map_cong [OF refl])
  fix l assume "l \<in> set L" and cd: "\<And>l r. l \<in> set L \<Longrightarrow> r \<in> set R \<Longrightarrow> c l r = d l r"
  then have "filter (c l) R = filter (d l) R" by (auto intro!: filter_cong)
  then show "map ((@) l) (filter (c l) R) = map ((@) l) (filter (d l) R)" by simp
qed

lemma list_ex_cong': "(\<And>x. x \<in> set xs \<Longrightarrow> P x = Q x) \<Longrightarrow> list_ex P xs = list_ex Q xs"
  by (auto simp: list_ex_iff)

lemma join_rows_cong:
  assumes "\<And>l r. l \<in> set L \<Longrightarrow> r \<in> set R \<Longrightarrow> c l r = d l r"
  shows "join_rows null k n m c L R = join_rows null k n m d L R"
proof -
  have m: "matching c L R = matching d L R" using assms by (rule matching_cong)
  have l: "left_padded x c L R = left_padded x d L R" for x
    unfolding left_padded_def
  proof (rule arg_cong [of _ _ concat], rule map_cong [OF refl])
    fix l assume "l \<in> set L"
    then have "filter (c l) R = filter (d l) R" "list_ex (c l) R = list_ex (d l) R"
      using assms by (auto intro!: filter_cong list_ex_cong')
    then show "(if list_ex (c l) R then map ((@) l) (filter (c l) R) else [l @ x]) =
      (if list_ex (d l) R then map ((@) l) (filter (d l) R) else [l @ x])" by simp
  qed
  have r: "right_unmatched x c L R = right_unmatched x d L R" for x
    unfolding right_unmatched_def
    by (rule arg_cong [of _ _ "map ((@) x)"], rule filter_cong [OF refl])
      (use assms in \<open>simp add: list_ex_iff\<close>)
  show ?thesis using m l r by (cases k) simp_all
qed

text \<open>Which sides of a join may be filtered before it.\<close>

fun left_filterable :: "join_kind \<Rightarrow> bool" where
  "left_filterable k = (k = Inner \<or> k = Cross \<or> k = LeftOuter)"

fun right_filterable :: "join_kind \<Rightarrow> bool" where
  "right_filterable k = (k = Inner \<or> k = Cross \<or> k = RightOuter)"

lemma join_rows_filter:
  assumes "\<And>l. l \<in> set L \<Longrightarrow> length l = n" "left_filterable k \<or> P = (\<lambda>_. True)" "right_filterable k \<or> Q = (\<lambda>_. True)"
  shows "join_rows null k n m c (filter P L) (filter Q R) =
    filter (\<lambda>row. P (take n row) \<and> Q (drop n row)) (join_rows null k n m c L R)"
proof (cases k)
  case LeftOuter
  then have "Q = (\<lambda>_. True)" using assms(3) by simp
  then show ?thesis using LeftOuter left_padded_filter [OF assms(1)] by simp
next
  case RightOuter
  then have "P = (\<lambda>_. True)" using assms(2) by simp
  then show ?thesis using RightOuter matching_filter [OF assms(1), of L c P Q R] right_unmatched_filter [of "replicate n null" c L Q R]
    by simp
next
  case FullOuter
  then show ?thesis using assms(2,3) by simp
qed (use matching_filter [OF assms(1)] in simp_all)

end
