(* ===== verification/QueryRows.thy ===== *)
theory QueryRows
  imports PlanSemantics
begin

text \<open>
  The rows a bound SELECT stands for, written over its clauses and not over plans, and that
  \<open>src/src/planner/planner.rs\<close> makes a plan with exactly these rows. Like \<open>PlanSemantics\<close> this is a
  reference: the repository has no executor. Aggregate calls are collected as the planner
  collects them, and ORDER BY sorts the rows of the result, as the planner has it.
\<close>

section \<open>The rows of a query\<close>

definition aggregated :: "bound_select \<Rightarrow> bool" where
  "aggregated s \<longleftrightarrow> bs_group_by s \<noteq> [] \<or> collect_aggregates (bs_projections s) (bs_having s) \<noteq> []"

text \<open>A missing condition keeps every row.\<close>

definition passes :: "'v sql \<Rightarrow> bound_expr option \<Rightarrow> 'v list \<Rightarrow> bool" where
  "passes S cond row \<longleftrightarrow> (case cond of None \<Rightarrow> True | Some e \<Rightarrow> holds S row e)"

definition order_key :: "bound_order_by \<Rightarrow> sort_key" where
  "order_key k = \<lparr> sk_expr = bo_expr k, sk_asc = bo_asc k, sk_nulls_first = bo_nulls_first k \<rparr>"

text \<open>From the rows of FROM and joins to the result: WHERE, GROUP BY with the aggregates, HAVING, the
  projections, DISTINCT, ORDER BY, and LIMIT with OFFSET.\<close>

definition result_rows :: "'v sql \<Rightarrow> bound_select \<Rightarrow> 'v list list \<Rightarrow> 'v list list" where
  "result_rows S s rows =
     (let kept = [row \<leftarrow> rows. passes S (bs_where s) row];
          groups = (if aggregated s then q_aggregate S (bs_group_by s) (collect_aggregates (bs_projections s) (bs_having s)) kept else kept);
          shown = [map (\<lambda>p. eval S row (bi_expr p)) (bs_projections s). row \<leftarrow> groups, passes S (bs_having s) row];
          unique = (if bs_distinct s then remdups shown else shown);
          ordered = (if bs_order_by s = [] then unique else q_sort S (map order_key (bs_order_by s)) unique)
      in if bs_limit s = None \<and> bs_offset s = None then ordered
         else q_limit S (map_option (eval S []) (bs_limit s)) (map_option (eval S []) (bs_offset s)) ordered)"

fun source_width :: "bound_table_ref \<Rightarrow> nat" where
  "source_width (BaseTable t columns alias) = length columns"
| "source_width (SubqueryRef q alias) = length (bs_output q)"

text \<open>FROM is the product of its items, in their order; each join adds its table to what is joined so far.\<close>

fun query_rows :: "'v sql \<Rightarrow> bound_select \<Rightarrow> 'v list list"
and source_rows :: "'v sql \<Rightarrow> bound_table_ref \<Rightarrow> 'v list list"
and joined_rows :: "'v sql \<Rightarrow> nat \<Rightarrow> 'v list list \<Rightarrow> bound_join list \<Rightarrow> 'v list list"
where
  "query_rows S (BoundSelect ps from joins wh gb hv ob lim off d out) =
     result_rows S (BoundSelect ps from joins wh gb hv ob lim off d out)
       (joined_rows S (sum_list (map source_width from)) (map concat (product_lists (map (\<lambda>t. source_rows S t) from))) joins)"
| "source_rows S (BaseTable t columns alias) = q_table S t"
| "source_rows S (SubqueryRef q alias) = query_rows S q"
| "joined_rows S n rows [] = rows"
| "joined_rows S n rows (BoundJoin k t c # joins) =
     joined_rows S (n + source_width t)
       (join_rows (q_null S) k n (source_width t) (\<lambda>x y. condition_holds S c (x @ y)) rows (source_rows S t)) joins"

text \<open>One FROM item at most, here and in the subqueries of FROM and joins: the planner plans only the first.\<close>

fun one_from :: "bound_select \<Rightarrow> bool"
and one_from_table :: "bound_table_ref \<Rightarrow> bool"
and one_from_joins :: "bound_join list \<Rightarrow> bool"
where
  "one_from (BoundSelect ps from joins wh gb hv ob lim off d out) =
     ((case from of [] \<Rightarrow> joins = [] | t # ts \<Rightarrow> ts = [] \<and> one_from_table t) \<and> one_from_joins joins)"
| "one_from_table (BaseTable t columns alias) = True"
| "one_from_table (SubqueryRef q alias) = one_from q"
| "one_from_joins [] = True"
| "one_from_joins (BoundJoin k t c # joins) = (one_from_table t \<and> one_from_joins joins)"

section \<open>The planner\<close>

lemma run_filter_opt: "run S (filter_opt e p) = filter (passes S e) (run S p)"
  by (cases e) (simp_all add: filter_opt_def passes_def cong: filter_cong)

lemma plan_above_rows: "run S (plan_above s p) = result_rows S s (run S p)"
proof -
  have "map f (filter P xs) = [f x. x \<leftarrow> xs, P x]" for f :: "'a list \<Rightarrow> 'a list" and P xs
    by (induction xs) simp_all
  moreover have "(\<lambda>k. \<lparr> sk_expr = bo_expr k, sk_asc = bo_asc k, sk_nulls_first = bo_nulls_first k \<rparr>) = order_key"
    by (simp add: order_key_def fun_eq_iff)
  ultimately show ?thesis
    by (simp add: plan_above_def result_rows_def Let_def run_filter_opt aggregated_def comp_def)
qed

lemma run_qualify: "run S (qualify a p) = run S p"
  by (cases p) (simp_all add: qualify_def)

lemma planned_width: "length (plan_schema (plan_table_ref t)) = source_width t"
proof (cases t)
  case (SubqueryRef q a)
  have "plan_schema (plan_select q) = bs_output q" by (cases q) (simp add: plan_above_def Let_def)
  then show ?thesis using SubqueryRef by (auto simp: qualify_def split: logical_plan.split)
qed (simp add: base_scan_def)

lemma planner_rows_all:
  "one_from s \<Longrightarrow> run S (plan_select s) = query_rows S s"
  "one_from_table t \<Longrightarrow> run S (plan_table_ref t) = source_rows S t"
  "one_from_joins js \<Longrightarrow> run S (plan_joins p js) = joined_rows S (length (plan_schema p)) (run S p) js"
proof (induction s and t and p js rule: plan_select_plan_table_ref_plan_joins.induct)
  case (1 ps tables joins wh gb hv ob lim off d out)
  have single: "map concat (product_lists [xs]) = xs" for xs :: "'a list list"
    by (induction xs) simp_all
  show ?case
  proof (cases tables)
    case Nil
    then show ?thesis using 1 by (simp add: plan_above_rows)
  next
    case (Cons t ts)
    then show ?thesis using 1 by (simp add: plan_above_rows single planned_width del: product_lists.simps)
  qed
next
  case (5 p k t c joins)
  then show ?case by (simp add: Let_def planned_width merge_schemas_def)
qed (simp_all add: base_scan_def run_qualify)


end
