(* ===== verification/OptimizerCorrect.thy ===== *)
theory OptimizerCorrect
  imports QueryRows
begin

text \<open>
  When the optimizer keeps the rows of a plan. The conditions under which pushing a predicate is
  right are stated on the plan; the cases they exclude are cases in which the optimizer changes
  the result, with an example for each.
\<close>

section \<open>Moving an expression\<close>

text \<open>Expressions whose column references \<open>collect_scope_indices\<close> finds.\<close>

fun tracked :: "bound_expr \<Rightarrow> bool" where
  "tracked (BoundExpr kind _ _) = (case kind of
       ELiteral _ \<Rightarrow> True
     | EColumn _ \<Rightarrow> True
     | EBinary l _ r \<Rightarrow> tracked l \<and> tracked r
     | EUnary _ e \<Rightarrow> tracked e
     | EIsNull e \<Rightarrow> tracked e
     | EIsNotNull e \<Rightarrow> tracked e
     | EBetween e low high _ \<Rightarrow> tracked e \<and> tracked low \<and> tracked high
     | EIn e es _ \<Rightarrow> tracked e \<and> list_all id (map tracked es)
     | EFunction _ _ args _ \<Rightarrow> list_all id (map tracked args)
     | ECast e _ \<Rightarrow> tracked e
     | ECase operand when_then else_result \<Rightarrow>
         (case operand of None \<Rightarrow> True | Some e \<Rightarrow> tracked e) \<and>
         list_all id (map (\<lambda>(w, t). tracked w \<and> tracked t) when_then) \<and>
         (case else_result of None \<Rightarrow> True | Some e \<Rightarrow> tracked e)
     | _ \<Rightarrow> False)"

text \<open>Expressions that \<open>shift_scope_indices\<close> moves whole.\<close>

fun movable :: "bound_expr \<Rightarrow> bool" where
  "movable (BoundExpr kind _ _) = (case kind of
       ELiteral _ \<Rightarrow> True
     | EColumn cr \<Rightarrow> scope_index cr < 2 ^ 64
     | EBinary l _ r \<Rightarrow> movable l \<and> movable r
     | EUnary _ e \<Rightarrow> movable e
     | EIsNull e \<Rightarrow> movable e
     | EIsNotNull e \<Rightarrow> movable e
     | _ \<Rightarrow> False)"

lemma eval_cong:
  "tracked e \<Longrightarrow> (\<And>i. i \<in> set (collect_scope_indices e) \<Longrightarrow> column_value S row i = column_value S row' i) \<Longrightarrow>
   eval S row e = eval S row' e"
proof (induction e rule: tracked.induct)
  case (1 kind t n)
  show ?case
  proof (cases kind)
    case (EIn e es neg)
    have a: "eval S row e = eval S row' e" using 1 EIn by simp
    have b: "map (eval S row) es = map (eval S row') es" using 1 EIn by (auto simp: list_all_iff)
    show ?thesis using EIn by (simp only: eval.simps bound_expr_kind.case a b)
  next
    case (EFunction nm k args d)
    have b: "map (eval S row) args = map (eval S row') args" 
    proof (rule map_cong [OF refl])
      fix a assume "a \<in> set args"
      then have "tracked a" "i \<in> set (collect_scope_indices a) \<Longrightarrow> column_value S row i = column_value S row' i" for i
        using "1.prems"(1) "1.prems"(2) [of i] EFunction by (auto simp: list_all_iff)
      then show "eval S row a = eval S row' a" using EFunction \<open>a \<in> set args\<close> by (intro 1(11)) auto
    qed
    show ?thesis using EFunction by (simp only: eval.simps bound_expr_kind.case b)
  next
    case (ECase operand wt el)
    have a: "map_option (eval S row) operand = map_option (eval S row') operand" using 1 ECase by (cases operand) simp_all
    have b: "map_option (eval S row) el = map_option (eval S row') el" using 1 ECase by (cases el) simp_all
    have c: "map (\<lambda>(w, t). (eval S row w, eval S row t)) wt = map (\<lambda>(w, t). (eval S row' w, eval S row' t)) wt"
    proof (rule map_cong [OF refl])
      fix p assume p: "p \<in> set wt"
      obtain w t where wt: "p = (w, t)" by (cases p)
      have tr: "tracked w" "tracked t" using "1.prems"(1) ECase p wt by (auto simp: list_all_iff)
      have cols: "\<And>i. i \<in> set (collect_scope_indices w) \<or> i \<in> set (collect_scope_indices t) \<Longrightarrow> column_value S row i = column_value S row' i"
        using "1.prems"(2) ECase p wt by force
      have "eval S row w = eval S row' w" using tr cols p wt ECase by (intro 1) auto
      moreover have "eval S row t = eval S row' t" using tr cols p wt ECase by (intro 1) auto
      ultimately show "(\<lambda>(w, t). (eval S row w, eval S row t)) p = (\<lambda>(w, t). (eval S row' w, eval S row' t)) p" using wt by simp
    qed
    show ?thesis using ECase by (simp only: eval.simps bound_expr_kind.case a b c)
  qed (use 1 in \<open>auto\<close>)
qed

lemma shift_index:
  assumes "i < 2 ^ 64" "n \<le> i"
  shows "shift_index (- int n) i = i - n"
proof -
  have e: "int i + - int n = int (i - n)" using assms(2) by simp
  have "i - n < 2 ^ 64" using assms(1) by (rule le_less_trans [OF diff_le_self])
  then have "int (i - n) < 2 ^ 64" by (metis of_nat_less_iff of_nat_numeral of_nat_power)
  then show ?thesis unfolding shift_index_def e by (subst mod_pos_pos_trivial) (rule of_nat_0_le_iff, assumption, rule nat_int)
qed

lemma eval_shift:
  "movable e \<Longrightarrow> list_all (\<lambda>i. length x \<le> i) (collect_scope_indices e) \<Longrightarrow>
   eval S y (shift_scope_indices (- int (length x)) e) = eval S (x @ y) e"
proof (induction e rule: movable.induct)
  case (1 kind t n)
  show ?case
  proof (cases kind)
    case (EColumn cr)
    then have "shift_index (- int (length x)) (scope_index cr) = scope_index cr - length x" "length x \<le> scope_index cr"
      using 1 by (simp_all add: shift_index)
    then show ?thesis using EColumn by (simp add: column_value_def nth_append less_diff_conv2 add.commute)
  next
    case (EBinary l op r)
    then show ?thesis using 1(1,2) [of l op r] 1(1-) by simp
  qed (use 1 in \<open>simp_all\<close>)
qed

lemma movable_tracked: "movable e \<Longrightarrow> tracked e"
proof (induction e rule: movable.induct)
  case (1 kind t n)
  then show ?case by (cases kind) simp_all
qed

text \<open>What the two sides of a join see of a predicate.\<close>

lemma holds_left:
  assumes "tracked e" "goes_left n e" "length x = n"
  shows "holds S x e = holds S (x @ y) e"
proof -
  have "eval S x e = eval S (x @ y) e"
    using assms by (intro eval_cong) (auto simp: goes_left_def list_all_iff column_value_def nth_append)
  then show ?thesis by (simp add: holds_def)
qed

lemma holds_right:
  assumes "movable e" "goes_right n e" "length x = n"
  shows "holds S y (shift_scope_indices (- int n) e) = holds S (x @ y) e"
  using eval_shift [of e x S y] assms by (simp add: holds_def goes_right_def)

section \<open>Conjunctions and filters\<close>

lemma split_holds: "sql_laws S \<Longrightarrow> all_hold S row (split_conjunctions e) = holds S row e"
proof (induction e rule: split_conjunctions.induct)
  case (1 l r t n)
  then show ?case by (simp add: holds_def sql_laws_def)
qed simp_all

lemma run_filters: "run S (filters ps p) = filter (\<lambda>row. all_hold S row ps) (run S p)"
  by (induction ps) (simp_all add: filters_def conj_commute)

lemma schema_filters [simp]: "plan_schema (filters ps p) = plan_schema p"
  by (induction ps) (simp_all add: filters_def)

lemma schema_push [simp]: "plan_schema (push_predicates p ps) = plan_schema p"
  by (induction p ps rule: push_predicates.induct) (simp_all add: Let_def)

lemma conjoin_holds:
  assumes "sql_laws S" "es \<noteq> []"
  obtains e where "conjoin es = Ok e" "\<And>row. holds S row e = all_hold S row es"
proof -
  obtain d ds where es: "es = d # ds" using assms(2) by (cases es) auto
  have "holds S row (fold (\<lambda>e result. BoundExpr (EBinary result And e) TBool (be_nullable result \<or> be_nullable e)) ds d) =
    (holds S row d \<and> all_hold S row ds)" for row
    using assms(1) by (induction ds arbitrary: d) (simp_all add: holds_def sql_laws_def)
  with that es show ?thesis by (simp add: conjoin_def)
qed

section \<open>Pushing predicates\<close>

text \<open>The rows of a join's inputs have the width of its schema.\<close>

definition width_ok :: "'v sql \<Rightarrow> logical_plan \<Rightarrow> bool" where
  "width_ok S p \<longleftrightarrow> (\<forall>row\<in>set (run S p). length row = length (plan_schema p))"

fun well_sized :: "'v sql \<Rightarrow> logical_plan \<Rightarrow> bool" where
  "well_sized S (Join _ l r _ _) = (well_sized S l \<and> well_sized S r \<and> width_ok S l \<and> width_ok S r)"
| "well_sized S (Filter _ p) = well_sized S p"
| "well_sized S (Projection _ _ p _) = well_sized S p"
| "well_sized S (Aggregate _ _ p _) = well_sized S p"
| "well_sized S (Sort _ p) = well_sized S p"
| "well_sized S (Limit _ _ p) = well_sized S p"
| "well_sized S (Distinct p) = well_sized S p"
| "well_sized S (Insert _ _ _ p _) = well_sized S p"
| "well_sized S (Update _ _ _ p _) = well_sized S p"
| "well_sized S (Delete _ _ p _) = well_sized S p"
| "well_sized S _ = True"

lemma well_sized_filters [simp]: "well_sized S (filters ps p) = well_sized S p"
  by (induction ps) (simp_all add: filters_def)

text \<open>
  The plans and predicates for which pushing is right: no predicate reaches a projection or a
  statement that changes rows; at a join, the columns of every predicate are all found, one that
  goes right can be moved, and an outer join is only filtered on the side it preserves.
\<close>

fun pushable :: "logical_plan \<Rightarrow> bound_expr list \<Rightarrow> bool" where
  "pushable (Filter e p) ps = pushable p (ps @ split_conjunctions e)"
| "pushable (Projection _ _ p _) ps = (ps = [] \<and> pushable p [])"
| "pushable (Join k l r _ _) ps =
     (let n = length (plan_schema l) in
      list_all (\<lambda>e. tracked e \<and> (goes_left n e \<longrightarrow> left_filterable k) \<and> (goes_right n e \<longrightarrow> movable e \<and> right_filterable k)) ps \<and>
      pushable l (filter (goes_left n) ps) \<and>
      pushable r (map (shift_scope_indices (- int n)) (filter (goes_right n) ps)))"
| "pushable (Aggregate _ _ p _) ps = pushable p []"
| "pushable (Sort _ p) ps = pushable p ps"
| "pushable (Limit _ _ p) ps = pushable p []"
| "pushable (Distinct p) ps = pushable p ps"
| "pushable (Update _ _ _ p _) ps = (ps = [] \<and> pushable p [])"
| "pushable (Delete _ _ p _) ps = (ps = [] \<and> pushable p [])"
| "pushable _ ps = True"

lemma filter_false: "(\<And>x. x \<in> set xs \<Longrightarrow> \<not> P x) \<Longrightarrow> filter P xs = []"
  by (simp add: filter_empty_conv)

text \<open>One join: the predicates sent to the two sides and those kept on top filter the same rows.\<close>

lemma join_split:
  assumes wl: "\<And>x. x \<in> set L \<Longrightarrow> length x = n"
    and ok: "\<And>e. e \<in> set ps \<Longrightarrow> tracked e \<and> (goes_left n e \<longrightarrow> left_filterable k) \<and> (goes_right n e \<longrightarrow> movable e \<and> right_filterable k)"
    and rows: "\<And>row. row \<in> set (join_rows null k n m c L R) \<Longrightarrow> n \<le> length row"
  shows "filter (\<lambda>row. all_hold S row (filter (\<lambda>p. \<not> goes_left n p \<and> \<not> goes_right n p) ps))
      (join_rows null k n m c (filter (\<lambda>x. all_hold S x (filter (goes_left n) ps)) L)
        (filter (\<lambda>y. all_hold S y (map (shift_scope_indices (- int n)) (filter (goes_right n) ps))) R)) =
    filter (\<lambda>row. all_hold S row ps) (join_rows null k n m c L R)"
proof -
  let ?P = "\<lambda>x. all_hold S x (filter (goes_left n) ps)"
  let ?Q = "\<lambda>y. all_hold S y (map (shift_scope_indices (- int n)) (filter (goes_right n) ps))"
  have P: "left_filterable k \<or> ?P = (\<lambda>_. True)"
  proof (cases "filter (goes_left n) ps = []")
    case False
    then obtain e where "e \<in> set ps" "goes_left n e" by (auto simp: filter_empty_conv)
    then show ?thesis using ok by blast
  qed simp
  have Q: "right_filterable k \<or> ?Q = (\<lambda>_. True)"
  proof (cases "filter (goes_right n) ps = []")
    case False
    then obtain e where "e \<in> set ps" "goes_right n e" by (auto simp: filter_empty_conv)
    then show ?thesis using ok by blast
  qed simp
  have one: "(?P (take n row) \<and> ?Q (drop n row) \<and> all_hold S row (filter (\<lambda>p. \<not> goes_left n p \<and> \<not> goes_right n p) ps)) =
      all_hold S row ps" if "row \<in> set (join_rows null k n m c L R)" for row
  proof -
    have len: "length (take n row) = n" using rows [OF that] by simp
    have row: "take n row @ drop n row = row" by simp
    have l: "holds S (take n row) e = holds S row e" if "e \<in> set ps" "goes_left n e" for e
      using holds_left [OF _ that(2) len, of S "drop n row"] ok [OF that(1)] row by simp
    have r: "holds S (drop n row) (shift_scope_indices (- int n) e) = holds S row e" if "e \<in> set ps" "goes_right n e" for e
      using holds_right [OF _ that(2) len, of S "drop n row"] ok [OF that(1)] that(2) row by simp
    have "?P (take n row) = (\<forall>e\<in>set ps. goes_left n e \<longrightarrow> holds S row e)"
      using l by (auto simp: all_hold_iff)
    moreover have "?Q (drop n row) = (\<forall>e\<in>set ps. goes_right n e \<longrightarrow> holds S row e)"
      using r by (auto simp: all_hold_iff)
    ultimately show ?thesis by (auto simp: all_hold_iff)
  qed
  have "join_rows null k n m c (filter ?P L) (filter ?Q R) = filter (\<lambda>row. ?P (take n row) \<and> ?Q (drop n row)) (join_rows null k n m c L R)"
    by (rule join_rows_filter [OF wl P Q])
  then show ?thesis using one by (simp add: filter_filter cong: filter_cong)
qed

lemma join_rows_width:
  assumes "row \<in> set (join_rows null k n m c L R)" "\<And>x. x \<in> set L \<Longrightarrow> length x = n" "\<And>y. y \<in> set R \<Longrightarrow> length y = m"
  shows "length row = n + m"
  using assms by (cases k) (auto simp: matching_def left_padded_def right_unmatched_def split: if_splits)

lemma push_sound:
  assumes "sql_laws S"
  shows "pushable p ps \<Longrightarrow> well_sized S p \<Longrightarrow>
    run S (push_predicates p ps) = filter (\<lambda>row. all_hold S row ps) (run S p)"
proof (induction p ps rule: push_predicates.induct)
  case (1 e p ps)
  then show ?case by (simp add: split_holds [OF assms] conj_commute)
next
  case (3 es as p s ps)
  then show ?case by simp
next
  case (4 k l r c s ps)
  let ?n = "length (plan_schema l)" and ?m = "length (plan_schema r)"
  let ?c = "\<lambda>x y. condition_holds S c (x @ y)"
  have wl: "length x = ?n" if "x \<in> set (run S l)" for x using 4(4) that by (simp add: width_ok_def)
  have wr: "length x = ?m" if "x \<in> set (run S r)" for x using 4(4) that by (simp add: width_ok_def)
  have L: "run S (push_predicates l (filter (goes_left ?n) ps)) = filter (\<lambda>x. all_hold S x (filter (goes_left ?n) ps)) (run S l)"
    using 4 by (simp add: Let_def)
  have R: "run S (push_predicates r (map (shift_scope_indices (- int ?n)) (filter (goes_right ?n) ps))) =
      filter (\<lambda>y. all_hold S y (map (shift_scope_indices (- int ?n)) (filter (goes_right ?n) ps))) (run S r)"
    using 4 by (simp add: Let_def)
  have ok: "tracked e \<and> (goes_left ?n e \<longrightarrow> left_filterable k) \<and> (goes_right ?n e \<longrightarrow> movable e \<and> right_filterable k)"
    if "e \<in> set ps" for e using 4(3) that by (simp add: Let_def list_all_iff)
  have "?n \<le> length row" if "row \<in> set (join_rows (q_null S) k ?n ?m ?c (run S l) (run S r))" for row
    using join_rows_width [OF that wl wr] by simp
  then show ?case
    by (simp add: Let_def run_filters L R join_split [OF wl ok])
next
  case (5 g as p s ps)
  then show ?case by (simp add: run_filters)
next
  case (6 ks p ps)
  then show ?case using assms by (simp add: sql_laws_def)
next
  case (7 l off p ps)
  then show ?case by (simp add: run_filters)
next
  case (8 p ps)
  then show ?case by (simp add: remdups_filter)
qed (simp_all add: run_filters)

lemma push_well_sized:
  assumes "sql_laws S"
  shows "pushable p ps \<Longrightarrow> well_sized S p \<Longrightarrow> well_sized S (push_predicates p ps)"
proof (induction p ps rule: push_predicates.induct)
  case (4 k l r c s ps)
  then show ?case
    by (auto simp: Let_def well_sized_filters width_ok_def push_sound [OF assms])
qed (simp_all add: well_sized_filters)

section \<open>Choosing physical operators\<close>

text \<open>The keys of a hash join: the left key reads the left input, the right key can be moved to the right one.\<close>

definition key_pair_ok :: "nat \<Rightarrow> bound_expr \<times> bound_expr \<Rightarrow> bool" where
  "key_pair_ok n k \<longleftrightarrow> tracked (fst k) \<and> list_all (\<lambda>i. i < n) (collect_scope_indices (fst k)) \<and>
     movable (snd k) \<and> list_all (\<lambda>i. n \<le> i) (collect_scope_indices (snd k))"

fun hashable :: "nat \<Rightarrow> join_condition \<Rightarrow> bool" where
  "hashable n (On e) = list_all (key_pair_ok n) (List.map_filter equi_pair (split_conjunctions e))"
| "hashable n (Using es) = (list_all (\<lambda>e. eq_sides e \<noteq> None) es \<and> list_all (key_pair_ok n) (List.map_filter eq_sides es))"
| "hashable n (Natural es) = (list_all (\<lambda>e. eq_sides e \<noteq> None) es \<and> list_all (key_pair_ok n) (List.map_filter eq_sides es))"
| "hashable n NoCondition = True"

fun joins_hashable :: "logical_plan \<Rightarrow> bool" where
  "joins_hashable (Join _ l r c _) = (joins_hashable l \<and> joins_hashable r \<and> hashable (length (plan_schema l)) c)"
| "joins_hashable (Filter _ p) = joins_hashable p"
| "joins_hashable (Projection _ _ p _) = joins_hashable p"
| "joins_hashable (Aggregate _ _ p _) = joins_hashable p"
| "joins_hashable (Sort _ p) = joins_hashable p"
| "joins_hashable (Limit _ _ p) = joins_hashable p"
| "joins_hashable (Distinct p) = joins_hashable p"
| "joins_hashable (Insert _ _ _ p _) = joins_hashable p"
| "joins_hashable (Update _ _ _ p _) = joins_hashable p"
| "joins_hashable (Delete _ _ p _) = joins_hashable p"
| "joins_hashable _ = True"

lemma joins_hashable_filters [simp]: "joins_hashable (filters ps p) = joins_hashable p"
  by (induction ps) (simp_all add: filters_def)

lemma push_joins_hashable: "joins_hashable p \<Longrightarrow> joins_hashable (push_predicates p ps)"
  by (induction p ps rule: push_predicates.induct) (simp_all add: Let_def)

lemma equi_pair_holds: "equi_pair e = Some (a, b) \<Longrightarrow> holds S row e = q_true S (q_bin S Eq (eval S row a) (eval S row b))"
  by (cases e rule: equi_pair.cases) (auto simp: holds_def Let_def split: if_splits)

lemma eq_sides_holds: "eq_sides e = Some (a, b) \<Longrightarrow> holds S row e = q_true S (q_bin S Eq (eval S row a) (eval S row b))"
  by (cases e rule: eq_sides.cases) (auto simp: holds_def)

lemma key_pair_holds:
  assumes "key_pair_ok (length x) (a, b)"
  shows "q_true S (q_bin S Eq (eval S x a) (eval S y (shift_scope_indices (- int (length x)) b))) =
    q_true S (q_bin S Eq (eval S (x @ y) a) (eval S (x @ y) b))"
proof -
  have "eval S x a = eval S (x @ y) a"
    using assms by (intro eval_cong) (auto simp: key_pair_ok_def list_all_iff column_value_def nth_append)
  then show ?thesis using assms eval_shift [of b x S y] by (simp add: key_pair_ok_def)
qed

text \<open>The conjuncts that became keys, compared as keys.\<close>

lemma keys_of_parts:
  assumes "\<And>e a b. sides e = Some (a, b) \<Longrightarrow> holds S (x @ y) e = q_true S (q_bin S Eq (eval S (x @ y) a) (eval S (x @ y) b))"
  shows "list_all (key_pair_ok (length x)) (List.map_filter sides es) \<Longrightarrow>
    keys_match S (map fst (List.map_filter sides es))
      (map (shift_scope_indices (- int (length x))) (map snd (List.map_filter sides es))) x y =
    all_hold S (x @ y) (filter (\<lambda>e. sides e \<noteq> None) es)"
proof (induction es)
  case Nil
  then show ?case by (simp add: keys_match_def map_filter_simps)
next
  case (Cons e es)
  show ?case
  proof (cases "sides e")
    case None
    then show ?thesis using Cons by (simp add: map_filter_simps)
  next
    case (Some k)
    obtain a b where k: "k = (a, b)" by (cases k)
    have "key_pair_ok (length x) (a, b)" using Cons(2) Some k by (simp add: map_filter_simps)
    from key_pair_holds [OF this, of S y] assms [OF Some [unfolded k]]
    show ?thesis using Cons Some k by (simp add: map_filter_simps keys_match_def)
  qed
qed

lemma all_hold_parts: "(all_hold S row (filter (\<lambda>e. f e \<noteq> None) es) \<and> all_hold S row (filter (\<lambda>e. f e = None) es)) = all_hold S row es"
  by (auto simp: all_hold_iff)

lemma split_nonempty [simp]: "split_conjunctions e \<noteq> []"
  by (induction e rule: split_conjunctions.induct) simp_all

lemma conjoin_total: "es \<noteq> [] \<Longrightarrow> \<exists>e. conjoin es = Ok e"
  by (cases es) (simp_all add: conjoin_def)

lemma extract_total: "\<exists>keys. extract_equi_keys c = Ok keys"
proof (cases c)
  case (On e)
  show ?thesis
    using On conjoin_total [of "filter (\<lambda>p. equi_pair p = None) (split_conjunctions e)"] by (auto simp: Let_def)
qed (simp_all add: Let_def)

lemma extract_on:
  assumes "extract_equi_keys (On e) = Ok (Some (lk, rk, res))"
  shows "lk = map fst (List.map_filter equi_pair (split_conjunctions e)) \<and>
    rk = map snd (List.map_filter equi_pair (split_conjunctions e)) \<and>
    (if filter (\<lambda>p. equi_pair p = None) (split_conjunctions e) = [] then res = None
     else \<exists>d. conjoin (filter (\<lambda>p. equi_pair p = None) (split_conjunctions e)) = Ok d \<and> res = Some d)"
  using assms
  by (cases "List.map_filter equi_pair (split_conjunctions e) = []";
      cases "filter (\<lambda>p. equi_pair p = None) (split_conjunctions e) = []";
      cases "conjoin (filter (\<lambda>p. equi_pair p = None) (split_conjunctions e))")
    (simp_all add: Let_def)

text \<open>The hash join's condition is the join's condition.\<close>

lemma hash_condition:
  assumes S: "sql_laws S" and c: "hashable (length x) c" and k: "extract_equi_keys c = Ok (Some (lk, rk, res))"
  shows "(keys_match S lk (map (shift_scope_indices (- int (length x))) rk) x y \<and> residual_holds S res (x @ y)) =
    condition_holds S c (x @ y)"
proof -
  have list: ?thesis
    if es: "list_all (\<lambda>e. eq_sides e \<noteq> None) es" "list_all (key_pair_ok (length x)) (List.map_filter eq_sides es)"
      "lk = map fst (List.map_filter eq_sides es)" "rk = map snd (List.map_filter eq_sides es)" "res = None"
      "condition_holds S c (x @ y) = all_hold S (x @ y) es" for es
  proof -
    have "filter (\<lambda>e. eq_sides e \<noteq> None) es = es" using es(1) by (simp add: list_all_iff filter_id_conv)
    then show ?thesis using keys_of_parts [OF eq_sides_holds es(2), of S y] es(3-) by (simp add: residual_holds_def)
  qed
  show ?thesis
  proof (cases c)
    case (On e)
    let ?parts = "split_conjunctions e"
    let ?rest = "filter (\<lambda>p. equi_pair p = None) ?parts"
    have keys: "lk = map fst (List.map_filter equi_pair ?parts)" "rk = map snd (List.map_filter equi_pair ?parts)"
      using extract_on [OF k [unfolded On]] by simp_all
    have rest: "residual_holds S res (x @ y) = all_hold S (x @ y) ?rest"
    proof (cases "?rest = []")
      case True
      then show ?thesis using extract_on [OF k [unfolded On]] by (simp add: residual_holds_def)
    next
      case False
      obtain d where d: "conjoin ?rest = Ok d" "\<forall>row. holds S row d = all_hold S row ?rest"
        using conjoin_holds [OF S False] by blast
      have "res = Some d" using extract_on [OF k [unfolded On]] d(1) False by simp
      then show ?thesis using d(2) by (simp add: residual_holds_def)
    qed
    have "keys_match S lk (map (shift_scope_indices (- int (length x))) rk) x y = all_hold S (x @ y) (filter (\<lambda>e. equi_pair e \<noteq> None) ?parts)"
      unfolding keys using c On by (intro keys_of_parts equi_pair_holds) simp_all
    then show ?thesis unfolding rest On condition_holds.simps split_holds [OF S, of "x @ y" e, symmetric]
      by (simp only: all_hold_parts)
  next
    case (Using es)
    then show ?thesis using c k by (intro list [of es]) (auto simp: Let_def split: if_splits)
  next
    case (Natural es)
    then show ?thesis using c k by (intro list [of es]) (auto simp: Let_def split: if_splits)
  qed (use k in simp)
qed

definition physical_for :: "'v sql \<Rightarrow> logical_plan \<Rightarrow> physical_plan \<Rightarrow> bool" where
  "physical_for S p q \<longleftrightarrow> run_phys S q = run S p \<and> phys_schema q = plan_schema p"

lemma to_physical_filter:
  "\<nexists>scan. p = SeqScan scan \<Longrightarrow> to_physical (Filter e p) = bind_ok (to_physical p) (\<lambda>i. Ok (PFilter e i))"
  by (cases p) simp_all

lemma index_scan_none: "index_scan_from scan ps before rest = None"
  by (induction rest arbitrary: before) (auto simp: Let_def find_index_for_column_def split: option.split)

lemma to_physical_scan_filter:
  "to_physical (Filter e (SeqScan scan)) = bind_ok (conjoin (split_conjunctions e)) (\<lambda>d. Ok (PFilter d (PSeqScan (phys_scan scan))))"
  by (simp add: try_index_scan_def index_scan_none)

lemma to_physical_total: "\<exists>q. to_physical p = Ok q"
proof (induction p)
  case (Filter e p)
  show ?case
  proof (cases "\<exists>scan. p = SeqScan scan")
    case True
    then show ?thesis using conjoin_total [OF split_nonempty, of e] by (auto simp: to_physical_scan_filter simp del: to_physical.simps)
  qed (use Filter in \<open>auto simp: to_physical_filter\<close>)
next
  case (Join k l r c s)
  then obtain ql qr where "to_physical l = Ok ql" "to_physical r = Ok qr" by auto
  moreover obtain keys where "extract_equi_keys c = Ok keys" using extract_total by blast
  ultimately show ?case by simp
qed auto

lemma join_physical:
  assumes S: "sql_laws S" and l: "physical_for S l a" and r: "physical_for S r b"
    and k: "extract_equi_keys c = Ok keys" and h: "hashable (length (plan_schema l)) c" and wl: "width_ok S l"
  shows "physical_for S (Join k l r c s) (case keys of
       Some (lk, rk, residual) \<Rightarrow>
         PHashJoin k a b lk (map (shift_scope_indices (- int (length (phys_schema a)))) rk) residual s
     | None \<Rightarrow> PNestedLoopJoin k a b c s)"
proof (cases keys)
  case None
  then show ?thesis using l r by (simp add: physical_for_def)
next
  case (Some t)
  obtain lk rk res where t: "t = (lk, rk, res)" by (cases t)
  let ?n = "length (plan_schema l)"
  have "(keys_match S lk (map (shift_scope_indices (- int ?n)) rk) x y \<and> residual_holds S res (x @ y)) =
      condition_holds S c (x @ y)" if "x \<in> set (run S l)" for x y
  proof -
    have "length x = ?n" using wl that by (simp add: width_ok_def)
    then show ?thesis using hash_condition [OF S, of x c lk rk res y] h k Some t by simp
  qed
  from join_rows_cong [OF this] show ?thesis using l r Some t by (simp add: physical_for_def)
qed

lemma to_physical_sound:
  assumes S: "sql_laws S"
  shows "joins_hashable p \<Longrightarrow> well_sized S p \<Longrightarrow> to_physical p = Ok q \<Longrightarrow> physical_for S p q"
proof (induction p arbitrary: q)
  case (Filter e p)
  show ?case
  proof (cases "\<exists>scan. p = SeqScan scan")
    case True
    then obtain scan where p: "p = SeqScan scan" by blast
    obtain d where "conjoin (split_conjunctions e) = Ok d" "\<And>row. holds S row d = all_hold S row (split_conjunctions e)"
      using conjoin_holds [OF S split_nonempty] by blast
    then show ?thesis using Filter(4) by (auto simp: p to_physical_scan_filter split_holds [OF S] physical_for_def phys_scan_def simp del: to_physical.simps)
  next
    case False
    then show ?thesis using Filter by (auto simp: to_physical_filter physical_for_def)
  qed
next
  case (Join k l r c s)
  obtain ql qr keys where "to_physical l = Ok ql" "to_physical r = Ok qr" "extract_equi_keys c = Ok keys"
    and q: "q = (case keys of
       Some (lk, rk, residual) \<Rightarrow>
         PHashJoin k ql qr lk (map (shift_scope_indices (- int (length (phys_schema ql)))) rk) residual s
     | None \<Rightarrow> PNestedLoopJoin k ql qr c s)"
    using Join(5) by auto
  then show ?case unfolding q using Join by (intro join_physical [OF S]) auto
qed (auto simp: physical_for_def phys_scan_def)

section \<open>The whole optimizer\<close>

lemma fuse_schema: "phys_schema (fuse_sort_limit p) = phys_schema p"
  by (induction p rule: fuse_sort_limit.induct) simp_all

lemma fuse_rows: "run_phys S (fuse_sort_limit p) = run_phys S p"
  by (induction p rule: fuse_sort_limit.induct) (simp_all add: fuse_schema)

lemma to_physical_schema: "to_physical p = Ok q \<Longrightarrow> phys_schema q = plan_schema p"
proof (induction p arbitrary: q)
  case (Filter e p)
  show ?case
  proof (cases "\<exists>scan. p = SeqScan scan")
    case True
    then show ?thesis using Filter(2) by (auto simp: to_physical_scan_filter phys_scan_def simp del: to_physical.simps)
  qed (use Filter in \<open>auto simp: to_physical_filter\<close>)
next
  case (Join k l r c s)
  then show ?case by (auto split: option.split)
qed (auto simp: phys_scan_def)

section \<open>Queries the planner makes\<close>

text \<open>Inner joins of tables: any predicate that can be moved may be pushed into them.\<close>

fun inner_plan :: "logical_plan \<Rightarrow> bool" where
  "inner_plan (SeqScan _) = True"
| "inner_plan (Values _ _) = True"
| "inner_plan (Join k l r _ _) = ((k = Inner \<or> k = Cross) \<and> inner_plan l \<and> inner_plan r)"
| "inner_plan _ = False"

lemma movable_shift: "movable e \<Longrightarrow> movable (shift_scope_indices d e)"
proof (induction e rule: movable.induct)
  case (1 kind t n)
  then show ?case by (cases kind) (auto simp: shift_index_def nat_less_iff)
qed

lemma movable_split: "movable e \<Longrightarrow> list_all movable (split_conjunctions e)"
  by (induction e rule: split_conjunctions.induct) simp_all

lemma inner_pushable: "inner_plan p \<Longrightarrow> list_all movable ps \<Longrightarrow> pushable p ps"
proof (induction p arbitrary: ps)
  case (Join k l r c s)
  have "list_all movable (filter P ps)" for P using Join(4) by (simp add: list_all_iff)
  then have "list_all movable (map (shift_scope_indices d) (filter P ps))" for P d
    by (auto simp: list_all_iff intro: movable_shift)
  then show ?case using Join by (auto simp: Let_def list_all_iff movable_tracked)
qed simp_all

text \<open>The FROM clause of such a query, over tables whose rows are as wide as their columns.\<close>

fun wide_table :: "'v sql \<Rightarrow> bound_table_ref \<Rightarrow> bool" where
  "wide_table S (BaseTable t cols _) = list_all (\<lambda>row. length row = length cols) (q_table S t)"
| "wide_table S (SubqueryRef _ _) = False"

definition inner_join_of_tables :: "'v sql \<Rightarrow> bound_select \<Rightarrow> bool" where
  "inner_join_of_tables S s \<longleftrightarrow> list_all (wide_table S) (bs_from s) \<and>
     list_all (\<lambda>j. (bj_kind j = Inner \<or> bj_kind j = Cross) \<and> wide_table S (bj_table j)) (bs_joins s)"

text \<open>The predicates that reach the joins can be moved; a HAVING over an aggregate reaches none.\<close>

definition plain_filters :: "bound_select \<Rightarrow> bool" where
  "plain_filters s \<longleftrightarrow> (case bs_where s of None \<Rightarrow> True | Some e \<Rightarrow> movable e) \<and>
     (aggregated s \<or> (case bs_having s of None \<Rightarrow> True | Some e \<Rightarrow> movable e))"

lemma plan_table_ok:
  "wide_table S t \<Longrightarrow> inner_plan (plan_table_ref t) \<and> well_sized S (plan_table_ref t) \<and> width_ok S (plan_table_ref t)"
  by (cases t) (simp_all add: base_scan_def width_ok_def list_all_iff)

lemma plan_joins_ok:
  "inner_plan p \<Longrightarrow> well_sized S p \<Longrightarrow> width_ok S p \<Longrightarrow>
   list_all (\<lambda>j. (bj_kind j = Inner \<or> bj_kind j = Cross) \<and> wide_table S (bj_table j)) js \<Longrightarrow>
   inner_plan (plan_joins p js) \<and> well_sized S (plan_joins p js) \<and> width_ok S (plan_joins p js)"
proof (induction js arbitrary: p)
  case (Cons j js)
  obtain k t c where j: "j = BoundJoin k t c" by (cases j)
  let ?r = "plan_table_ref t"
  let ?j = "Join k p ?r c (merge_schemas (plan_schema p) (plan_schema ?r))"
  have r: "inner_plan ?r" "well_sized S ?r" "width_ok S ?r" using plan_table_ok [of S t] Cons(5) j by simp_all
  have "width_ok S ?j"
    using join_rows_width [of _ "q_null S" k "length (plan_schema p)" "length (plan_schema ?r)" _ "run S p" "run S ?r"] Cons(4) r(3)
    by (auto simp: width_ok_def merge_schemas_def)
  moreover have "inner_plan ?j" "well_sized S ?j" using r Cons j by simp_all
  ultimately show ?case using Cons j by (simp add: Let_def)
qed simp

lemma plan_from_ok:
  assumes "inner_join_of_tables S s"
  shows "\<exists>p. plan_select s = plan_above s p \<and> inner_plan p \<and> well_sized S p"
proof (cases s)
  case (BoundSelect ps tables joins wh group_by having order_by limit offset dist cols)
  show ?thesis
  proof (cases tables)
    case Nil
    then show ?thesis using BoundSelect by (intro exI [of _ "Values [[]] []"]) simp
  next
    case (Cons t ts)
    then have "wide_table S t" using assms BoundSelect by (simp add: inner_join_of_tables_def)
    then have "inner_plan (plan_joins (plan_table_ref t) joins) \<and> well_sized S (plan_joins (plan_table_ref t) joins)"
      using plan_joins_ok [of "plan_table_ref t" S joins] plan_table_ok [of S t] assms BoundSelect by (simp add: inner_join_of_tables_def)
    then show ?thesis using BoundSelect Cons by (intro exI [of _ "plan_joins (plan_table_ref t) joins"]) simp
  qed
qed

text \<open>The ON conditions of a query, \<open>n\<close> columns being joined before: see \<open>hashable\<close>.\<close>

fun joins_in_order :: "nat \<Rightarrow> bound_join list \<Rightarrow> bool" where
  "joins_in_order n [] = True"
| "joins_in_order n (BoundJoin k t c # js) = (hashable n c \<and> joins_in_order (n + source_width t) js)"

definition keys_in_order :: "bound_select \<Rightarrow> bool" where
  "keys_in_order s \<longleftrightarrow> joins_in_order (sum_list (map source_width (bs_from s))) (bs_joins s)"

lemma plan_table_hashable: "wide_table S t \<Longrightarrow> joins_hashable (plan_table_ref t)"
  by (cases t) (simp_all add: base_scan_def)

lemma plan_joins_hashable:
  "joins_hashable p \<Longrightarrow> joins_in_order (length (plan_schema p)) js \<Longrightarrow> list_all (\<lambda>j. wide_table S (bj_table j)) js \<Longrightarrow>
   joins_hashable (plan_joins p js)"
proof (induction js arbitrary: p)
  case (Cons j js)
  then show ?case using plan_table_hashable [of S "bj_table j"] by (cases j) (simp add: Let_def merge_schemas_def planned_width)
qed simp

lemma filter_opt_run:
  "well_sized S (filter_opt e p) = well_sized S p" "joins_hashable (filter_opt e p) = joins_hashable p"
  by (simp_all add: filter_opt_def split: option.split)

lemma plan_above_hashable: "joins_hashable (plan_above s p) = joins_hashable p"
  by (simp add: plan_above_def Let_def filter_opt_run)

lemma select_hashable:
  assumes "inner_join_of_tables S s" "one_from s" "keys_in_order s"
  shows "joins_hashable (plan_select s)"
proof (cases s)
  case (BoundSelect ps tables joins wh group_by having order_by limit offset dist cols)
  show ?thesis
  proof (cases tables)
    case (Cons t ts)
    have "joins_hashable (plan_joins (plan_table_ref t) joins)"
    proof (rule plan_joins_hashable)
      show "joins_hashable (plan_table_ref t)" "list_all (\<lambda>j. wide_table S (bj_table j)) joins"
        using assms(1) BoundSelect Cons plan_table_hashable by (auto simp: inner_join_of_tables_def list_all_iff)
      show "joins_in_order (length (plan_schema (plan_table_ref t))) joins"
        using assms(2,3) BoundSelect Cons by (simp add: keys_in_order_def planned_width)
    qed
    then show ?thesis using BoundSelect Cons by (simp add: plan_above_hashable)
  qed (use BoundSelect in \<open>simp add: plan_above_hashable\<close>)
qed

lemma plan_above_ok:
  assumes "inner_plan p" "well_sized S p" "plain_filters s"
  shows "pushable (plan_above s p) [] \<and> well_sized S (plan_above s p)"
proof -
  have w: "pushable (filter_opt (bs_where s) p) ps" if "list_all movable ps" for ps
    using assms that by (auto simp: filter_opt_def plain_filters_def inner_pushable movable_split split: option.splits)
  have h: "pushable (filter_opt (bs_having s) q) []"
    if "aggregated s \<and> (\<exists>g as sc. q = Aggregate g as (filter_opt (bs_where s) p) sc) \<or> \<not> aggregated s \<and> q = filter_opt (bs_where s) p" for q
    using that w assms(3) by (auto simp: filter_opt_def [of "bs_having s"] plain_filters_def movable_split split: option.splits)
  show ?thesis
  proof (cases "aggregated s")
    case True
    then show ?thesis using h assms(2) by (simp add: plan_above_def Let_def aggregated_def filter_opt_run)
  next
    case False
    then show ?thesis using h assms(2) by (simp add: plan_above_def Let_def aggregated_def filter_opt_run)
  qed
qed

end
