(* ===== verification/OptimizerClaims.thy ===== *)
theory OptimizerClaims
  imports OptimizerCorrect
begin

text \<open>
  What the planner and the optimizer guarantee, over a concrete semantics of the operators that
  shows the laws can be met, and the queries whose result the optimizer changes.
\<close>

section \<open>A semantics of the operators\<close>

datatype val = VNull | VBool bool | VInt int | VStr string

fun val_lit :: "literal \<Rightarrow> val" where
  "val_lit (LInteger i) = VInt (sint i)"
| "val_lit (LFloat b) = VInt (uint b)"
| "val_lit (LString s) = VStr s"
| "val_lit (LBool b) = VBool b"
| "val_lit LNull = VNull"

definition val_true :: "val \<Rightarrow> bool" where
  "val_true v = (v = VBool True)"

fun val_bin :: "binary_op \<Rightarrow> val \<Rightarrow> val \<Rightarrow> val" where
  "val_bin And a b = VBool (val_true a \<and> val_true b)"
| "val_bin Or a b = VBool (val_true a \<or> val_true b)"
| "val_bin Eq a b = (if a = VNull \<or> b = VNull then VNull else VBool (a = b))"
| "val_bin Lt (VInt a) (VInt b) = VBool (a < b)"
| "val_bin Gt (VInt a) (VInt b) = VBool (b < a)"
| "val_bin Add (VInt a) (VInt b) = VInt (a + b)"
| "val_bin _ _ _ = VNull"

fun val_between :: "val \<Rightarrow> val \<Rightarrow> val \<Rightarrow> bool \<Rightarrow> val" where
  "val_between (VInt a) (VInt low) (VInt high) neg = VBool ((low \<le> a \<and> a \<le> high) \<noteq> neg)"
| "val_between _ _ _ _ = VNull"

text \<open>A sort rank, compared lexicographically; a NULL comes first.\<close>

fun val_rank :: "val \<Rightarrow> int list" where
  "val_rank VNull = [0]"
| "val_rank (VBool b) = [1, of_bool b]"
| "val_rank (VInt i) = [2, i]"
| "val_rank (VStr s) = 3 # map of_char s"

definition val_keys :: "sort_key list \<Rightarrow> (val list \<Rightarrow> bound_expr \<Rightarrow> val) \<Rightarrow> val list \<Rightarrow> int list list" where
  "val_keys ks ev row = map (\<lambda>k. (if sk_asc k then id else map uminus) (val_rank (ev row (sk_expr k)))) ks"

definition core_sql :: "(u32 \<Rightarrow> val list list) \<Rightarrow> val sql" where
  "core_sql db = \<lparr> q_lit = val_lit, q_null = VNull, q_true = val_true, q_bin = val_bin,
     q_un = (\<lambda>op v. case (op, v) of (Neg, VInt i) \<Rightarrow> VInt (- i) | (Not, VBool b) \<Rightarrow> VBool (\<not> b) | _ \<Rightarrow> VNull),
     q_is_null = (\<lambda>v. VBool (v = VNull)), q_is_not_null = (\<lambda>v. VBool (v \<noteq> VNull)),
     q_like = (\<lambda>v p neg. VBool ((v = p) \<noteq> neg)), q_between = val_between,
     q_in = (\<lambda>v vs neg. VBool ((v \<in> set vs) \<noteq> neg)), q_in_subquery = (\<lambda>v q row neg. VNull),
     q_exists = (\<lambda>q row neg. VNull), q_subquery = (\<lambda>q row. VNull), q_function = (\<lambda>nm k vs d. VNull),
     q_cast = (\<lambda>v t. v), q_case = (\<lambda>operand wts el. VNull), q_table = db \<circ> table_oid,
     q_index = (\<lambda>ix t lo hi. []), q_sort = (\<lambda>ks rows. rows), q_aggregate = (\<lambda>g as rows. [[VInt (int (length rows))]]),
     q_limit = (\<lambda>l off rows. case l of Some (VInt i) \<Rightarrow> take (nat i) rows | _ \<Rightarrow> rows),
     q_insert = (\<lambda>t cs ts rows. [[VInt (int (length rows))]]), q_update = (\<lambda>t cs as rows. [[VInt (int (length rows))]]),
     q_delete = (\<lambda>t cs rows. [[VInt (int (length rows))]]) \<rparr>"

text \<open>Sorting uses the keys as the expressions' values; it is the library's stable sort.\<close>

definition ref_sql :: "(u32 \<Rightarrow> val list list) \<Rightarrow> val sql" where
  "ref_sql db = (core_sql db)\<lparr> q_sort := (\<lambda>ks rows. sort_key (val_keys ks (eval (core_sql db))) rows) \<rparr>"

lemma ref_sql_laws: "sql_laws (ref_sql db)"
  by (simp add: sql_laws_def ref_sql_def core_sql_def val_true_def filter_sort)

section \<open>Example tables\<close>

abbreviation col :: "nat \<Rightarrow> bound_expr" where
  "col i \<equiv> BoundExpr (EColumn \<lparr> qualifier = None, column_name = ''c'', scope_index = i \<rparr>) TI64 True"

abbreviation num :: "i64 \<Rightarrow> bound_expr" where
  "num i \<equiv> BoundExpr (ELiteral (LInteger i)) TI64 False"

abbreviation binary :: "binary_op \<Rightarrow> bound_expr \<Rightarrow> bound_expr \<Rightarrow> bound_expr" where
  "binary op a b \<equiv> BoundExpr (EBinary a op b) TBool True"

definition example_table :: "u32 \<Rightarrow> bound_table_ref" where
  "example_table i = BaseTable \<lparr> table_oid = i, table_name = ''t'', table_file = i \<rparr>
     [\<lparr> col_oid = 0, col_table = i, col_name = ''a'', col_type = TI64, col_position = 0, col_nullable = True \<rparr>,
      \<lparr> col_oid = 1, col_table = i, col_name = ''b'', col_type = TI64, col_position = 1, col_nullable = True \<rparr>] None"

text \<open>Table 10 has the rows (1, 7) and (2, 8), table 11 the rows (1, 5) and (3, 6).\<close>

definition example_rows :: "u32 \<Rightarrow> val list list" where
  "example_rows i = (if i = 10 then [[VInt 1, VInt 7], [VInt 2, VInt 8]]
     else if i = 11 then [[VInt 1, VInt 5], [VInt 3, VInt 6]] else [])"

definition example_join :: "join_kind \<Rightarrow> join_condition \<Rightarrow> logical_plan" where
  "example_join k c = plan_joins (plan_table_ref (example_table 10)) [BoundJoin k (example_table 11) c]"

abbreviation example_sql :: "val sql" where
  "example_sql \<equiv> ref_sql example_rows"

lemmas example_simps = example_join_def example_table_def example_rows_def base_scan_def scan_column_def merge_schemas_def
  ref_sql_def core_sql_def holds_def column_value_def val_true_def matching_def left_padded_def

text \<open>SELECT * FROM t10 JOIN t11 ON t10.a = t11.a WHERE t10.b = 7 AND t11.b = 5.\<close>

definition example_select :: bound_select where
  "example_select = BoundSelect (map (\<lambda>i. BoundSelectItem (col i) ''c'') [0, 1, 2, 3]) [example_table 10]
     [BoundJoin Inner (example_table 11) (On (binary Eq (col 0) (col 2)))]
     (Some (binary And (binary Eq (col 1) (num 7)) (binary Eq (col 3) (num 5)))) [] None [] None None False
     (map (\<lambda>i. \<lparr> oc_name = ''c'', oc_type = TI64, oc_nullable = True \<rparr>) [0, 1, 2, 3::nat])"

lemmas example_select_simps = example_select_def plan_above_def Let_def example_simps filter_opt_def collect_aggregates_def
  key_pair_ok_def width_ok_def inner_join_of_tables_def plain_filters_def goes_left_def goes_right_def

lemma example_select_facts:
  "well_sized example_sql (plan_select example_select)" "pushable (plan_select example_select) []"
  "joins_hashable (plan_select example_select)" "inner_join_of_tables example_sql example_select" "plain_filters example_select"
  "run example_sql (plan_select example_select) = [[VInt 1, VInt 7, VInt 1, VInt 5]]"
  by (simp_all add: example_select_simps)

lemma example_query:
  "one_from example_select" "keys_in_order example_select"
  "query_rows example_sql example_select = [[VInt 1, VInt 7, VInt 1, VInt 5]]"
  by (simp_all add: example_select_simps keys_in_order_def result_rows_def passes_def aggregated_def)

section \<open>The optimizer\<close>

text \<open>C16: whatever plan it is given, the optimizer returns a physical plan (neither an error nor
  the panic of the assertion in \<open>conjoin\<close>), and that plan has the columns of the logical one.\<close>

theorem optimizer_returns_plan: "\<exists>q. optimize p = Ok q \<and> phys_schema q = plan_schema p"
proof -
  obtain q where q: "to_physical (push_predicates p []) = Ok q" using to_physical_total by blast
  with to_physical_schema [OF q] fuse_schema [of q] show ?thesis by (simp add: optimize_def)
qed

lemma optimize_sound:
  assumes "sql_laws S" "well_sized S p" "pushable p []" "joins_hashable p"
  shows "\<exists>q. optimize p = Ok q \<and> run_phys S q = run S p"
proof -
  obtain q where q: "to_physical (push_predicates p []) = Ok q" using to_physical_total by blast
  have "physical_for S (push_predicates p []) q"
    using to_physical_sound [OF assms(1) _ _ q] push_joins_hashable push_well_sized assms by blast
  then have "run_phys S (fuse_sort_limit q) = run S p"
    using push_sound [OF assms(1) assms(3) assms(2)] by (simp add: physical_for_def fuse_rows)
  then show ?thesis using q by (simp add: optimize_def)
qed

text \<open>C13: pushing predicates towards the scans, turning equalities into hash keys, choosing
  physical operators and fusing a limit over a sort keep the rows of the plan, in order and with
  duplicates, when no predicate reaches a projection or the padded side of an outer join, the
  predicates a join sends to its right input and the right hash keys are of the kinds
  \<open>shift_scope_indices\<close> moves, and the left hash keys read the left input.\<close>

theorem optimizer_keeps_rows:
  assumes "sql_laws S" "well_sized S p" "pushable p []" "joins_hashable p"
  shows "\<exists>q. optimize p = Ok q \<and> run_phys S q = run S p"
  using assms by (rule optimize_sound)


theorem optimizer_keeps_rows_witness:
  "\<exists>q. optimize (plan_select example_select) = Ok q \<and> run_phys example_sql q = [[VInt 1, VInt 7, VInt 1, VInt 5]]"
  using optimizer_keeps_rows [OF ref_sql_laws example_select_facts(1-3)] example_select_facts(6) by simp



section \<open>Plans whose rows the optimizer changes\<close>

text \<open>Examples that the conditions of \<open>pushable\<close> are needed.\<close>

definition physical_rows :: "logical_plan \<Rightarrow> (unit, val list list) outcome" where
  "physical_rows p = bind_ok (optimize p) (\<lambda>q. Ok (run_phys example_sql q))"

lemmas optimize_simps = physical_rows_def optimize_def goes_left_def goes_right_def filters_def shift_index_def
  try_index_scan_def conjoin_def Let_def phys_scan_def index_scan_none keys_match_def residual_holds_def

text \<open>SELECT a FROM (SELECT b AS a FROM t10) WHERE a = 1: the filter is sent below the projection unchanged.\<close>

definition subquery_filter :: logical_plan where
  "subquery_filter = Filter (binary Eq (col 0) (num 1)) (Projection [col 1] [''a''] (plan_table_ref (example_table 10))
     [\<lparr> oc_name = ''a'', oc_type = TI64, oc_nullable = True \<rparr>])"

text \<open>t10 LEFT JOIN t11 ON t10.a = t11.a WHERE t11.b = 5: the filter is sent into the padded side.\<close>

definition left_join_filter :: logical_plan where
  "left_join_filter = Filter (binary Eq (col 3) (num 5)) (example_join LeftOuter (On (binary Eq (col 0) (col 2))))"

text \<open>t10 JOIN t11 ON t10.a = t11.a WHERE t11.b BETWEEN 5 AND 6: sent right with its index not shifted.\<close>

definition between_filter :: logical_plan where
  "between_filter = Filter (BoundExpr (EBetween (col 3) (num 5) (num 6) False) TBool True)
     (example_join Inner (On (binary Eq (col 0) (col 2))))"

text \<open>The same with LIKE, whose columns are not collected: sent left.\<close>

definition like_filter :: logical_plan where
  "like_filter = Filter (BoundExpr (ELike (col 3) (num 5) False) TBool True)
     (example_join Inner (On (binary Eq (col 0) (col 2))))"

lemma pushed_below_projection: "run example_sql subquery_filter = [] \<and> physical_rows subquery_filter = Ok [[VInt 7]]"
  by (simp add: subquery_filter_def optimize_simps example_simps)

lemma pushed_into_padded_side:
  "run example_sql left_join_filter = [[VInt 1, VInt 7, VInt 1, VInt 5]] \<and>
   physical_rows left_join_filter = Ok [[VInt 1, VInt 7, VInt 1, VInt 5], [VInt 2, VInt 8, VNull, VNull]]"
  by (simp add: left_join_filter_def optimize_simps example_simps)

lemma between_not_shifted:
  "run example_sql between_filter = [[VInt 1, VInt 7, VInt 1, VInt 5]] \<and> physical_rows between_filter = Ok []"
  by (simp add: between_filter_def optimize_simps example_simps)

lemma like_sent_left:
  "run example_sql like_filter = [[VInt 1, VInt 7, VInt 1, VInt 5]] \<and> physical_rows like_filter = Ok []"
  by (simp add: like_filter_def optimize_simps example_simps)

section \<open>Joins written right table first\<close>

definition column_equality :: "column_ref \<Rightarrow> column_ref \<Rightarrow> bound_expr" where
  "column_equality l r = BoundExpr (EBinary (BoundExpr (EColumn l) TI64 True) Eq (BoundExpr (EColumn r) TI64 True)) TBool True"

text \<open>The rows of such a join, and what the optimizer makes of it.\<close>

definition right_first :: "bound_table_ref \<Rightarrow> bound_table_ref \<Rightarrow> column_ref \<Rightarrow> column_ref \<Rightarrow> logical_plan" where
  "right_first t u r l = plan_joins (plan_table_ref t) [BoundJoin Inner u (On (column_equality r l))]"

lemma no_match: "(\<And>x y. x \<in> set L \<Longrightarrow> \<not> c x y) \<Longrightarrow> matching c L R = []"
  by (induction L) (simp_all add: matching_def)

text \<open>C17: the optimizer loses the rows of a join whose ON equality names the right table's column first: for
  all base tables t (its rows as wide as its columns) and u, whatever they hold, the logical plan of
  t JOIN u ON u.r = t.l has the pairs with equal columns, but the physical plan is a hash join whose left key
  lies beyond the row of t, so it returns no row at all, since a missing value equals nothing.\<close>

theorem right_first_join_loses_rows:
  assumes "t = BaseTable tab cols al" "u = BaseTable tab' cols' al'"
    "scope_index l < length cols" "length cols \<le> scope_index r"
    "\<And>row. row \<in> set (q_table S tab) \<Longrightarrow> length row = length cols" "\<And>v. \<not> q_true S (q_bin S Eq (q_null S) v)"
  shows "run S (right_first t u r l) = [x @ y. x \<leftarrow> q_table S tab, y \<leftarrow> q_table S tab',
      q_true S (q_bin S Eq (column_value S (x @ y) (scope_index r)) (x ! scope_index l))] \<and>
    (\<exists>q. optimize (right_first t u r l) = Ok q \<and> run_phys S q = [])"
proof
  have pairs: "matching c L R = [x @ y. x \<leftarrow> L, y \<leftarrow> R, d x y]" if "\<And>x y. x \<in> set L \<Longrightarrow> c x y = d x y" for c d :: "'a list \<Rightarrow> 'a list \<Rightarrow> bool" and L R
  proof -
    have "map ((@) x) (filter (d x) R) = [x @ y. y \<leftarrow> R, d x y]" for x by (induction R) simp_all
    with that show ?thesis unfolding matching_def by (intro arg_cong [of _ _ concat] map_cong refl) (simp cong: filter_cong)
  qed
  show "run S (right_first t u r l) = [x @ y. x \<leftarrow> q_table S tab, y \<leftarrow> q_table S tab',
      q_true S (q_bin S Eq (column_value S (x @ y) (scope_index r)) (x ! scope_index l))]"
    unfolding right_first_def using assms
    by (simp add: base_scan_def holds_def column_equality_def) (intro pairs, simp add: column_value_def nth_append)
  have "matching (\<lambda>x y. q_true S (q_bin S Eq (column_value S x (scope_index r)) (f y))) (q_table S tab) R = []" for f R
    using assms(4-6) by (intro no_match) (simp add: column_value_def)
  then show "\<exists>q. optimize (right_first t u r l) = Ok q \<and> run_phys S q = []"
    using assms by (simp add: right_first_def optimize_simps base_scan_def column_equality_def)
qed

theorem right_first_join_loses_rows_witness:
  "run example_sql (right_first (example_table 10) (example_table 11)
      \<lparr> qualifier = None, column_name = ''a'', scope_index = 2 \<rparr> \<lparr> qualifier = None, column_name = ''a'', scope_index = 0 \<rparr>) =
      [[VInt 1, VInt 7, VInt 1, VInt 5]] \<and>
   (\<exists>q. optimize (right_first (example_table 10) (example_table 11)
      \<lparr> qualifier = None, column_name = ''a'', scope_index = 2 \<rparr> \<lparr> qualifier = None, column_name = ''a'', scope_index = 0 \<rparr>) = Ok q \<and>
     run_phys example_sql q = [])"
proof -
  let ?l = "\<lparr> qualifier = None, column_name = ''a'', scope_index = 0 \<rparr>"
  let ?r = "\<lparr> qualifier = None, column_name = ''a'', scope_index = 2 \<rparr>"
  have wide: "row \<in> set (q_table example_sql \<lparr> table_oid = 10, table_name = ''t'', table_file = 10 \<rparr>) \<Longrightarrow> length row = 2" for row
    by (auto simp: example_simps)
  have null: "\<not> q_true example_sql (q_bin example_sql Eq (q_null example_sql) v)" for v
    by (simp add: example_simps)
  have rows: "[x @ y. x \<leftarrow> q_table example_sql \<lparr> table_oid = 10, table_name = ''t'', table_file = 10 \<rparr>,
      y \<leftarrow> q_table example_sql \<lparr> table_oid = 11, table_name = ''t'', table_file = 11 \<rparr>,
      q_true example_sql (q_bin example_sql Eq (column_value example_sql (x @ y) (scope_index ?r)) (x ! scope_index ?l))] =
      [[VInt 1, VInt 7, VInt 1, VInt 5]]"
    by (simp add: example_simps)
  show ?thesis
    using right_first_join_loses_rows [OF example_table_def [of 10] example_table_def [of 11], of ?l ?r example_sql, OF _ _ _ null] wide
    unfolding rows by simp
qed

section \<open>The planner\<close>

lemma collect_agg_aliases:
  "distinct (map ag_alias out) \<Longrightarrow> distinct (map ag_alias (collect_agg_from_expr nm e out))"
proof (induction nm e out rule: collect_agg_from_expr.induct)
  case (4 nm operand wts el t n out)
  let ?step = "\<lambda>(w, r) out. collect_agg_from_expr nm r (collect_agg_from_expr nm w out)"
  let ?out1 = "case operand of None \<Rightarrow> out | Some e \<Rightarrow> collect_agg_from_expr nm e out"
  have 1: "distinct (map ag_alias ?out1)" using 4 by (auto split: option.split)
  have 2: "distinct (map ag_alias (fold ?step xs o1))" if "set xs \<subseteq> set wts" "distinct (map ag_alias o1)" for xs o1
    using that
  proof (induction xs arbitrary: o1)
    case (Cons x xs)
    obtain w r where x: "x = (w, r)" by (cases x)
    show ?case using Cons x 4 by auto
  qed simp
  show ?case using 4 1 2 [OF subset_refl 1] by (auto simp: Let_def split: option.split)
qed (auto simp: list_ex_iff)

text \<open>The aggregates of a SELECT have distinct names: one per projection alias and one for
  HAVING, so the columns the aggregation appends to the group keys can be told apart.\<close>

theorem planner_aggregate_names: "distinct (map ag_alias (collect_aggregates ps h))"
proof -
  have "distinct (map ag_alias (fold (\<lambda>p out. collect_agg_from_expr (bi_alias p) (bi_expr p) out) ps out))"
    if "distinct (map ag_alias out)" for out
    using that by (induction ps arbitrary: out) (simp_all add: collect_agg_aliases)
  then show ?thesis by (simp add: collect_aggregates_def Let_def collect_agg_aliases split: option.split)
qed

text \<open>SELECT MIN(a) + MAX(a) AS x: the second call, under the same alias, is dropped.\<close>

lemma second_aggregate_dropped:
  "map ag_kind (collect_aggregates [BoundSelectItem (binary Add
     (BoundExpr (EFunction ''min'' Min [col 0] False) TI64 True) (BoundExpr (EFunction ''max'' Max [col 0] False) TI64 True)) ''x''] None)
   = [Min]"
  by (simp add: collect_aggregates_def)

end
