(* ===== verification/Floats.thy ===== *)
theory Floats
  imports Prelude "HOL-Library.Log_Nat"
begin

text \<open>
  What the code uses of the language's floating-point numbers: the \<open>as\<close> conversions from integers
  and between \<open>f32\<close> and \<open>f64\<close>, and the comparison. A float is its bits. The magnitude bits of a
  format with \<open>p\<close> significand bits and least exponent \<open>q\<close> are read as \<open>m * 2 ^ e\<close>, and written with
  rounding to nearest, ties to even.
\<close>

section \<open>Magnitudes\<close>

definition float_decode :: "nat \<Rightarrow> int \<Rightarrow> nat \<Rightarrow> nat \<times> int" where
  "float_decode p q b = (let e = b div 2 ^ (p - 1); f = b mod 2 ^ (p - 1)
     in if e = 0 then (f, q) else (2 ^ (p - 1) + f, q + int e - 1))"

definition round_half_even :: "nat \<Rightarrow> nat \<Rightarrow> nat" where
  "round_half_even m d = (let k = m div d; r = m mod d
     in if d < 2 * r \<or> (d = 2 * r \<and> odd k) then k + 1 else k)"

text \<open>The bits of the representable number nearest to \<open>m * 2 ^ e\<close>; past the largest one, infinity.\<close>

definition float_encode :: "nat \<Rightarrow> int \<Rightarrow> nat \<Rightarrow> nat \<Rightarrow> int \<Rightarrow> nat" where
  "float_encode p q infinity m e =
     (if m = 0 then 0
      else let x = max q (e + int (floorlog 2 m) - int p);
               k = (if x \<le> e then m * 2 ^ nat (e - x) else round_half_even m (2 ^ nat (x - e)))
           in min infinity (nat (x - q) * 2 ^ (p - 1) + k))"

definition f64_infinity :: nat where "f64_infinity = 2047 * 2 ^ 52"
definition f32_infinity :: nat where "f32_infinity = 255 * 2 ^ 23"

section \<open>Conversions\<close>

abbreviation f64_magnitude :: "nat \<Rightarrow> int \<Rightarrow> nat" where
  "f64_magnitude \<equiv> float_encode 53 (- 1074) f64_infinity"

definition f64_of_int :: "int \<Rightarrow> u64" where
  "f64_of_int i = word_of_nat (f64_magnitude (nat \<bar>i\<bar>) 0 + (if i < 0 then 2 ^ 63 else 0))"

text \<open>The quiet bit of a NaN is set; the other bits of its payload are kept.\<close>

definition f64_of_f32 :: "u32 \<Rightarrow> u64" where
  "f64_of_f32 w = (let b = unat w mod 2 ^ 31; sign = (if 2 ^ 31 \<le> unat w then 2 ^ 63 else 0 :: nat)
     in if b = f32_infinity then word_of_nat (f64_infinity + sign)
        else if f32_infinity < b then word_of_nat (f64_infinity + 2 ^ 51 + b mod 2 ^ 22 * 2 ^ 29 + sign)
        else (case float_decode 24 (- 149) b of (m, e) \<Rightarrow> word_of_nat (f64_magnitude m e + sign)))"

definition f32_of_f64 :: "u64 \<Rightarrow> u32" where
  "f32_of_f64 w = (let b = unat w mod 2 ^ 63; sign = (if 2 ^ 63 \<le> unat w then 2 ^ 31 else 0 :: nat)
     in if b = f64_infinity then word_of_nat (f32_infinity + sign)
        else if f64_infinity < b then word_of_nat (f32_infinity + 2 ^ 22 + b mod 2 ^ 51 div 2 ^ 29 + sign)
        else (case float_decode 53 (- 1074) b of (m, e) \<Rightarrow>
          word_of_nat (float_encode 24 (- 149) f32_infinity m e + sign)))"

section \<open>Comparison\<close>

datatype ordering = Less | Equal | Greater

fun reverse_ordering :: "ordering \<Rightarrow> ordering" where
  "reverse_ordering Less = Greater" | "reverse_ordering Equal = Equal" | "reverse_ordering Greater = Less"

definition compare_by :: "'a::linorder \<Rightarrow> 'a \<Rightarrow> ordering" where
  "compare_by a b = (if a < b then Less else if a = b then Equal else Greater)"

lemma compare_by_simps [simp]:
  "compare_by a a = Equal" "compare_by a b = Equal \<longleftrightarrow> a = b" "compare_by a b = Less \<longleftrightarrow> a < b"
  "compare_by a b = Greater \<longleftrightarrow> b < a"
  by (auto simp: compare_by_def)

lemma compare_by_reverse: "compare_by b a = reverse_ordering (compare_by a b)"
  by (auto simp: compare_by_def)

text \<open>The number a sign and magnitude stand for in the order: both zeros are equal.\<close>

definition float_rank :: "nat \<Rightarrow> nat \<Rightarrow> int" where
  "float_rank sign_bit n = (if 2 ^ sign_bit \<le> n then - int (n - 2 ^ sign_bit) else int n)"

definition f64_compare :: "u64 \<Rightarrow> u64 \<Rightarrow> ordering option" where
  "f64_compare a b = (if f64_infinity < unat a mod 2 ^ 63 \<or> f64_infinity < unat b mod 2 ^ 63 then None
     else Some (compare_by (float_rank 63 (unat a)) (float_rank 63 (unat b))))"

definition f32_compare :: "u32 \<Rightarrow> u32 \<Rightarrow> ordering option" where
  "f32_compare a b = (if f32_infinity < unat a mod 2 ^ 31 \<or> f32_infinity < unat b mod 2 ^ 31 then None
     else Some (compare_by (float_rank 31 (unat a)) (float_rank 31 (unat b))))"

lemma f64_compare_reverse: "f64_compare b a = map_option reverse_ordering (f64_compare a b)"
  by (auto simp: f64_compare_def intro: compare_by_reverse)

lemma f32_compare_reverse: "f32_compare b a = map_option reverse_ordering (f32_compare a b)"
  by (auto simp: f32_compare_def intro: compare_by_reverse)

section \<open>Integers as f64\<close>

lemma floorlog_exact:
  assumes "0 < n"
  shows "2 ^ (floorlog 2 n - 1) \<le> n" "n < 2 ^ floorlog 2 n" "0 < floorlog 2 n"
  using floorlog_bounds [of n 2] assms by (auto intro: gr0I)

text \<open>Up to 53 bits the conversion only shifts.\<close>

lemma f64_magnitude_small:
  assumes "0 < n" "n < 2 ^ 53"
  shows "f64_magnitude n 0 = (floorlog 2 n + 1021) * 2 ^ 52 + n * 2 ^ (53 - floorlog 2 n)"
proof -
  let ?k = "floorlog 2 n"
  have k: "?k \<le> 53" "0 < ?k" using floorlog_leI [of n 2 53] floorlog_exact(3) [OF assms(1)] assms by simp_all
  have x: "max (- 1074) (int ?k - 53) = int ?k - 53" by simp
  have "n * 2 ^ (53 - ?k) < 2 ^ ?k * 2 ^ (53 - ?k)" using floorlog_exact(2) [OF assms(1)] by simp
  also have "\<dots> = 2 ^ 53" using k by (simp flip: power_add)
  finally have m: "n * 2 ^ (53 - ?k) < 2 ^ 53" .
  have "(?k + 1021) * 2 ^ 52 + n * 2 ^ (53 - ?k) < (?k + 1021) * 2 ^ 52 + 2 ^ 53" using m by (rule add_strict_left_mono)
  also have "\<dots> \<le> 2047 * 2 ^ 52" using k by simp
  finally have lim: "(?k + 1021) * 2 ^ 52 + n * 2 ^ (53 - ?k) < f64_infinity" by (simp only: f64_infinity_def)
  have e: "nat (int ?k - 53 - - 1074) = ?k + 1021" "nat (0 - (int ?k - 53)) = 53 - ?k" using k by simp_all
  have "f64_magnitude n 0 = min f64_infinity (nat (int ?k - 53 - - 1074) * 2 ^ 52 + n * 2 ^ nat (0 - (int ?k - 53)))"
    using assms(1) k x by (simp add: float_encode_def Let_def)
  then show ?thesis unfolding e using lim by (simp only: min_def) simp
qed

lemma f64_magnitude_bound: "f64_magnitude m e \<le> f64_infinity"
  by (simp add: float_encode_def Let_def)

lemma f64_magnitude_mono:
  assumes "a < b" "b < 2 ^ 53"
  shows "f64_magnitude a 0 < f64_magnitude b 0"
proof (cases "a = 0")
  case True
  have "0 < f64_magnitude b 0" using assms by (subst f64_magnitude_small) simp_all
  then show ?thesis using True by (simp add: float_encode_def)
next
  case False
  let ?k = "floorlog 2 a" and ?l = "floorlog 2 b"
  have a: "0 < a" "a < 2 ^ 53" and b: "0 < b" using False assms by simp_all
  have kl: "?k \<le> ?l" using assms(1) by (intro floorlog_mono) simp
  have l: "?l \<le> 53" using floorlog_leI [of b 2 53] assms by simp
  have lb: "2 ^ 52 \<le> b * 2 ^ (53 - ?l)"
  proof -
    have "(2::nat) ^ 52 = 2 ^ (?l - 1) * 2 ^ (53 - ?l)" using l floorlog_exact(3) [OF b] by (simp flip: power_add)
    also have "\<dots> \<le> b * 2 ^ (53 - ?l)" using floorlog_exact(1) [OF b] by simp
    finally show ?thesis .
  qed
  have ub: "a * 2 ^ (53 - ?k) < 2 ^ 53"
  proof -
    have "a * 2 ^ (53 - ?k) < 2 ^ ?k * 2 ^ (53 - ?k)" using floorlog_exact(2) [OF a(1)] by simp
    also have "\<dots> = 2 ^ 53" using kl l by (simp flip: power_add)
    finally show ?thesis .
  qed
  have "(?k + 1021) * 2 ^ 52 + a * 2 ^ (53 - ?k) < (?l + 1021) * 2 ^ 52 + b * 2 ^ (53 - ?l)"
  proof (cases "?k = ?l")
    case True
    then show ?thesis using assms(1) by simp
  next
    case False
    then have "?k + 1 \<le> ?l" using kl by simp
    then have "(?k + 1022) * 2 ^ 52 \<le> (?l + 1021) * (2 ^ 52 :: nat)" by (intro mult_le_mono1) simp
    then show ?thesis using lb ub by simp
  qed
  then show ?thesis using f64_magnitude_small a b assms(2) by simp
qed

lemma f64_of_int_rank:
  shows "float_rank 63 (unat (f64_of_int i)) = (if i < 0 then - 1 else 1) * int (f64_magnitude (nat \<bar>i\<bar>) 0)"
    and "unat (f64_of_int i) mod 2 ^ 63 \<le> f64_infinity"
proof -
  let ?m = "f64_magnitude (nat \<bar>i\<bar>) 0"
  have m: "?m < 2 ^ 63" using f64_magnitude_bound [of "nat \<bar>i\<bar>" 0] by (simp add: f64_infinity_def)
  have "?m + (if i < 0 then 2 ^ 63 else 0) < 2 ^ 63 + 2 ^ 63" using m by (intro add_less_le_mono) simp_all
  then have u: "unat (f64_of_int i) = ?m + (if i < 0 then 2 ^ 63 else 0)"
    unfolding f64_of_int_def by (subst unat_of_nat) (simp add: mod_less)
  show "float_rank 63 (unat (f64_of_int i)) = (if i < 0 then - 1 else 1) * int ?m"
    using m by (auto simp: u float_rank_def)
  show "unat (f64_of_int i) mod 2 ^ 63 \<le> f64_infinity"
    using m f64_magnitude_bound [of "nat \<bar>i\<bar>" 0] by (auto simp: u)
qed

text \<open>The conversion keeps the order of integers of at most 53 bits.\<close>

lemma f64_of_int_compare:
  assumes "\<bar>i\<bar> < 2 ^ 53" "\<bar>j\<bar> < 2 ^ 53"
  shows "f64_compare (f64_of_int i) (f64_of_int j) = Some (compare_by i j)"
proof -
  let ?f = "\<lambda>n. int (f64_magnitude (nat \<bar>n\<bar>) 0)"
  let ?r = "\<lambda>n. (if n < 0 then - 1 else 1) * ?f n"
  have mono: "?f x < ?f y" if "\<bar>x\<bar> < \<bar>y\<bar>" "\<bar>y\<bar> < 2 ^ 53" for x y
    using f64_magnitude_mono [of "nat \<bar>x\<bar>" "nat \<bar>y\<bar>"] that by simp
  have zero: "?f 0 = 0" by (simp add: float_encode_def)
  have "?r x < ?r y" if xy: "x < y" "\<bar>x\<bar> < 2 ^ 53" "\<bar>y\<bar> < 2 ^ 53" for x y
  proof -
    consider "0 \<le> x" | "x < 0" "0 \<le> y" | "y < 0" using xy by linarith
    then show ?thesis
    proof cases
      case 1
      then show ?thesis using mono [of x y] xy by simp
    next
      case 2
      then show ?thesis using mono [of 0 x] xy zero by simp
    next
      case 3
      then show ?thesis using mono [of y x] xy by simp
    qed
  qed
  then have ij: "i < j \<Longrightarrow> ?r i < ?r j" and ji: "j < i \<Longrightarrow> ?r j < ?r i" using assms by blast+
  have "compare_by (?r i) (?r j) = compare_by i j"
  proof (cases i j rule: linorder_cases)
    case less
    with ij show ?thesis unfolding compare_by_def by (simp only: if_True)
  next
    case greater
    with ji have "?r j < ?r i" by blast
    then have "\<not> ?r i < ?r j" "?r i \<noteq> ?r j" by linarith+
    with greater show ?thesis unfolding compare_by_def by (simp only: if_False) simp
  qed simp
  then show ?thesis
    using f64_of_int_rank [of i] f64_of_int_rank [of j] by (simp add: f64_compare_def)
qed

lemma f64_of_int_reflexive: "f64_compare (f64_of_int i) (f64_of_int i) = Some Equal"
  using f64_of_int_rank(2) [of i] by (simp add: f64_compare_def)

end
