(* ===== verification/Databox.thy ===== *)
theory Databox
  imports Catalog Floats
begin

text \<open>
  \<open>src/src/databox/databox.rs\<close>: the values of columns, their conversion, their bytes and their
  order. A string is the sequence of its UTF-8 bytes as characters; a float is its bits. How the
  standard library prints a float is an argument of the functions that print.
\<close>

section \<open>Types\<close>

fun fixed_size :: "data_type \<Rightarrow> nat option" where
  "fixed_size t = (case t of TString \<Rightarrow> None
     | TBool \<Rightarrow> Some 1 | TI8 \<Rightarrow> Some 1 | TU8 \<Rightarrow> Some 1 | TI16 \<Rightarrow> Some 2 | TU16 \<Rightarrow> Some 2
     | TI32 \<Rightarrow> Some 4 | TU32 \<Rightarrow> Some 4 | TF32 \<Rightarrow> Some 4 | TI64 \<Rightarrow> Some 8 | TU64 \<Rightarrow> Some 8 | TF64 \<Rightarrow> Some 8)"

definition is_numeric :: "data_type \<Rightarrow> bool" where
  "is_numeric t = (t \<notin> {TBool, TString})"

definition is_signed_int :: "data_type \<Rightarrow> bool" where
  "is_signed_int t = (t \<in> {TI8, TI16, TI32, TI64})"

definition is_unsigned_int :: "data_type \<Rightarrow> bool" where
  "is_unsigned_int t = (t \<in> {TU8, TU16, TU32, TU64})"

definition is_float :: "data_type \<Rightarrow> bool" where
  "is_float t = (t \<in> {TF32, TF64})"

section \<open>Values\<close>

datatype db_value =
    DBool bool
  | DI8 u8 | DI16 u16 | DI32 u32 | DI64 u64
  | DU8 u8 | DU16 u16 | DU32 u32 | DU64 u64
  | DF32 u32 | DF64 u64
  | DString string
  | DNull

fun value_type :: "db_value \<Rightarrow> data_type option" where
  "value_type (DBool _) = Some TBool"
| "value_type (DI8 _) = Some TI8"
| "value_type (DI16 _) = Some TI16"
| "value_type (DI32 _) = Some TI32"
| "value_type (DI64 _) = Some TI64"
| "value_type (DU8 _) = Some TU8"
| "value_type (DU16 _) = Some TU16"
| "value_type (DU32 _) = Some TU32"
| "value_type (DU64 _) = Some TU64"
| "value_type (DF32 _) = Some TF32"
| "value_type (DF64 _) = Some TF64"
| "value_type (DString _) = Some TString"
| "value_type DNull = None"

fun is_null :: "db_value \<Rightarrow> bool" where
  "is_null v = (v = DNull)"

text \<open>\<open>Into<Value> for DataType\<close>.\<close>

definition data_type_value :: "data_type \<Rightarrow> db_value" where
  "data_type_value t = DU8 (data_type_into t)"

section \<open>Conversions\<close>

fun to_i64 :: "db_value \<Rightarrow> u64 option" where
  "to_i64 (DI8 v) = Some (scast v)"
| "to_i64 (DI16 v) = Some (scast v)"
| "to_i64 (DI32 v) = Some (scast v)"
| "to_i64 (DI64 v) = Some v"
| "to_i64 (DU8 v) = Some (ucast v)"
| "to_i64 (DU16 v) = Some (ucast v)"
| "to_i64 (DU32 v) = Some (ucast v)"
| "to_i64 (DBool b) = Some (of_bool b)"
| "to_i64 _ = None"

fun to_u64 :: "db_value \<Rightarrow> u64 option" where
  "to_u64 (DU8 v) = Some (ucast v)"
| "to_u64 (DU16 v) = Some (ucast v)"
| "to_u64 (DU32 v) = Some (ucast v)"
| "to_u64 (DU64 v) = Some v"
| "to_u64 (DBool b) = Some (of_bool b)"
| "to_u64 (DI8 v) = (if 0 \<le> sint v then Some (scast v) else None)"
| "to_u64 (DI16 v) = (if 0 \<le> sint v then Some (scast v) else None)"
| "to_u64 (DI32 v) = (if 0 \<le> sint v then Some (scast v) else None)"
| "to_u64 (DI64 v) = (if 0 \<le> sint v then Some v else None)"
| "to_u64 _ = None"

fun to_f64 :: "db_value \<Rightarrow> u64 option" where
  "to_f64 (DI8 v) = Some (f64_of_int (sint v))"
| "to_f64 (DI16 v) = Some (f64_of_int (sint v))"
| "to_f64 (DI32 v) = Some (f64_of_int (sint v))"
| "to_f64 (DI64 v) = Some (f64_of_int (sint v))"
| "to_f64 (DU8 v) = Some (f64_of_int (uint v))"
| "to_f64 (DU16 v) = Some (f64_of_int (uint v))"
| "to_f64 (DU32 v) = Some (f64_of_int (uint v))"
| "to_f64 (DU64 v) = Some (f64_of_int (uint v))"
| "to_f64 (DF32 v) = Some (f64_of_f32 v)"
| "to_f64 (DF64 v) = Some v"
| "to_f64 _ = None"

definition signed_decimal :: "int \<Rightarrow> string" where
  "signed_decimal i = (if i < 0 then ''-'' @ decimal (nat (- i)) else decimal (nat i))"

fun value_display :: "(u32 \<Rightarrow> string) \<Rightarrow> (u64 \<Rightarrow> string) \<Rightarrow> db_value \<Rightarrow> string" where
  "value_display f32 f64 (DBool v) = (if v then ''true'' else ''false'')"
| "value_display f32 f64 (DI8 v) = signed_decimal (sint v)"
| "value_display f32 f64 (DI16 v) = signed_decimal (sint v)"
| "value_display f32 f64 (DI32 v) = signed_decimal (sint v)"
| "value_display f32 f64 (DI64 v) = signed_decimal (sint v)"
| "value_display f32 f64 (DU8 v) = decimal (unat v)"
| "value_display f32 f64 (DU16 v) = decimal (unat v)"
| "value_display f32 f64 (DU32 v) = decimal (unat v)"
| "value_display f32 f64 (DU64 v) = decimal (unat v)"
| "value_display f32 f64 (DF32 v) = f32 v"
| "value_display f32 f64 (DF64 v) = f64 v"
| "value_display f32 f64 (DString v) = v"
| "value_display f32 f64 DNull = ''NULL''"

fun cast_bool :: "db_value \<Rightarrow> db_value option" where
  "cast_bool (DI8 v) = Some (DBool (v \<noteq> 0))"
| "cast_bool (DI32 v) = Some (DBool (v \<noteq> 0))"
| "cast_bool (DI64 v) = Some (DBool (v \<noteq> 0))"
| "cast_bool (DU8 v) = Some (DBool (v \<noteq> 0))"
| "cast_bool _ = None"

definition cast :: "(u32 \<Rightarrow> string) \<Rightarrow> (u64 \<Rightarrow> string) \<Rightarrow> db_value \<Rightarrow> data_type \<Rightarrow> db_value option" where
  "cast f32 f64 v target =
     (if is_null v then Some DNull
      else if value_type v = Some target then Some v
      else (case target of
          TI16 \<Rightarrow> map_option (\<lambda>x. DI16 (ucast x)) (to_i64 v)
        | TI32 \<Rightarrow> map_option (\<lambda>x. DI32 (ucast x)) (to_i64 v)
        | TI64 \<Rightarrow> map_option DI64 (to_i64 v)
        | TU16 \<Rightarrow> map_option (\<lambda>x. DU16 (ucast x)) (to_u64 v)
        | TU32 \<Rightarrow> map_option (\<lambda>x. DU32 (ucast x)) (to_u64 v)
        | TU64 \<Rightarrow> map_option DU64 (to_u64 v)
        | TF32 \<Rightarrow> map_option (\<lambda>x. DF32 (f32_of_f64 x)) (to_f64 v)
        | TF64 \<Rightarrow> map_option DF64 (to_f64 v)
        | TString \<Rightarrow> Some (DString (value_display f32 f64 v))
        | TBool \<Rightarrow> cast_bool v
        | _ \<Rightarrow> None))"

section \<open>Bytes\<close>

definition string_bytes :: "string \<Rightarrow> byte list" where
  "string_bytes s = map (\<lambda>c. word_of_nat (of_char c)) s"

definition bytes_string :: "byte list \<Rightarrow> string" where
  "bytes_string bs = map (\<lambda>b. char_of (unat b)) bs"

text \<open>
  The standard library's lossy decoding of UTF-8: how many bytes the next character takes, or, when
  it is not one, how many are replaced by the replacement character.
\<close>

definition byte_in :: "nat \<Rightarrow> nat \<Rightarrow> byte list \<Rightarrow> nat \<Rightarrow> bool" where
  "byte_in low high bs i = (i < length bs \<and> low \<le> unat (bs ! i) \<and> unat (bs ! i) \<le> high)"

definition utf8_chunk :: "byte list \<Rightarrow> bool \<times> nat" where
  "utf8_chunk bs = (let first = unat (hd bs);
       second = (if first = 224 then byte_in 160 191 bs 1
         else if first = 237 then byte_in 128 159 bs 1
         else if first = 240 then byte_in 144 191 bs 1
         else if first = 244 then byte_in 128 143 bs 1
         else byte_in 128 191 bs 1)
     in if first < 128 then (True, 1)
        else if first < 194 \<or> 244 < first \<or> \<not> second then (False, 1)
        else if first < 224 then (True, 2)
        else if \<not> byte_in 128 191 bs 2 then (False, 2)
        else if first < 240 then (True, 3)
        else if \<not> byte_in 128 191 bs 3 then (False, 3)
        else (True, 4))"

lemma utf8_chunk_pos: "0 < snd (utf8_chunk bs)"
  by (simp add: utf8_chunk_def Let_def)

function utf8_lossy :: "byte list \<Rightarrow> byte list" where
  "utf8_lossy bs = (if bs = [] then []
     else let (valid, n) = utf8_chunk bs
          in (if valid then take n bs else [239, 191, 189]) @ utf8_lossy (drop n bs))"
  by pat_completeness auto

termination
proof (relation "measure length")
  fix bs :: "byte list" and v n x y
  assume "bs \<noteq> []" "x = utf8_chunk bs" "(v, n) = x"
  then have "0 < n" using utf8_chunk_pos [of bs] by (metis snd_conv)
  then show "(drop n bs, bs) \<in> measure length" using \<open>bs \<noteq> []\<close> by simp
qed simp

declare utf8_lossy.simps [simp del]

definition decode_string :: "byte list \<Rightarrow> string" where
  "decode_string bs = bytes_string (utf8_lossy bs)"

fun to_bytes :: "db_value \<Rightarrow> byte list" where
  "to_bytes (DBool v) = [of_bool v]"
| "to_bytes (DI8 v) = [v]"
| "to_bytes (DI16 v) = u16_bytes v"
| "to_bytes (DI32 v) = u32_bytes v"
| "to_bytes (DI64 v) = u64_bytes v"
| "to_bytes (DU8 v) = [v]"
| "to_bytes (DU16 v) = u16_bytes v"
| "to_bytes (DU32 v) = u32_bytes v"
| "to_bytes (DU64 v) = u64_bytes v"
| "to_bytes (DF32 v) = u32_bytes v"
| "to_bytes (DF64 v) = u64_bytes v"
| "to_bytes (DString s) = string_bytes s"
| "to_bytes DNull = []"

definition first_byte :: "byte list \<Rightarrow> byte option" where
  "first_byte data = (case data of [] \<Rightarrow> None | b # _ \<Rightarrow> Some b)"

fun from_bytes :: "data_type \<Rightarrow> byte list \<Rightarrow> db_value option" where
  "from_bytes TBool data = map_option (\<lambda>b. DBool (b \<noteq> 0)) (first_byte data)"
| "from_bytes TI8 data = map_option DI8 (first_byte data)"
| "from_bytes TI16 data = map_option (\<lambda>b. DI16 (u16_of b)) (get_range 0 2 data)"
| "from_bytes TI32 data = map_option (\<lambda>b. DI32 (u32_of b)) (get_range 0 4 data)"
| "from_bytes TI64 data = map_option (\<lambda>b. DI64 (u64_of b)) (get_range 0 8 data)"
| "from_bytes TU8 data = map_option DU8 (first_byte data)"
| "from_bytes TU16 data = map_option (\<lambda>b. DU16 (u16_of b)) (get_range 0 2 data)"
| "from_bytes TU32 data = map_option (\<lambda>b. DU32 (u32_of b)) (get_range 0 4 data)"
| "from_bytes TU64 data = map_option (\<lambda>b. DU64 (u64_of b)) (get_range 0 8 data)"
| "from_bytes TF32 data = map_option (\<lambda>b. DF32 (u32_of b)) (get_range 0 4 data)"
| "from_bytes TF64 data = map_option (\<lambda>b. DF64 (u64_of b)) (get_range 0 8 data)"
| "from_bytes TString data = Some (DString (decode_string data))"

section \<open>Order\<close>

fun string_compare :: "string \<Rightarrow> string \<Rightarrow> ordering" where
  "string_compare [] [] = Equal"
| "string_compare [] (_ # _) = Less"
| "string_compare (_ # _) [] = Greater"
| "string_compare (c # cs) (d # ds) =
     (if (of_char c :: nat) = of_char d then string_compare cs ds else compare_by (of_char c :: nat) (of_char d))"

text \<open>Values of different types are promoted to \<open>f64\<close>.\<close>

definition promoted_cmp :: "db_value \<Rightarrow> db_value \<Rightarrow> ordering option" where
  "promoted_cmp v w = (case to_f64 v of None \<Rightarrow> None
     | Some a \<Rightarrow> (case to_f64 w of None \<Rightarrow> None | Some b \<Rightarrow> f64_compare a b))"

definition partial_cmp :: "db_value \<Rightarrow> db_value \<Rightarrow> ordering option" where
  "partial_cmp v w =
     (if v = DNull \<and> w = DNull then Some Equal
      else if v = DNull then Some Less
      else if w = DNull then Some Greater
      else (case v of
          DBool a \<Rightarrow> (case w of DBool b \<Rightarrow> Some (compare_by a b) | _ \<Rightarrow> promoted_cmp v w)
        | DI8 a \<Rightarrow> (case w of DI8 b \<Rightarrow> Some (compare_by (sint a) (sint b)) | _ \<Rightarrow> promoted_cmp v w)
        | DI16 a \<Rightarrow> (case w of DI16 b \<Rightarrow> Some (compare_by (sint a) (sint b)) | _ \<Rightarrow> promoted_cmp v w)
        | DI32 a \<Rightarrow> (case w of DI32 b \<Rightarrow> Some (compare_by (sint a) (sint b)) | _ \<Rightarrow> promoted_cmp v w)
        | DI64 a \<Rightarrow> (case w of DI64 b \<Rightarrow> Some (compare_by (sint a) (sint b)) | _ \<Rightarrow> promoted_cmp v w)
        | DU8 a \<Rightarrow> (case w of DU8 b \<Rightarrow> Some (compare_by a b) | _ \<Rightarrow> promoted_cmp v w)
        | DU16 a \<Rightarrow> (case w of DU16 b \<Rightarrow> Some (compare_by a b) | _ \<Rightarrow> promoted_cmp v w)
        | DU32 a \<Rightarrow> (case w of DU32 b \<Rightarrow> Some (compare_by a b) | _ \<Rightarrow> promoted_cmp v w)
        | DU64 a \<Rightarrow> (case w of DU64 b \<Rightarrow> Some (compare_by a b) | _ \<Rightarrow> promoted_cmp v w)
        | DF32 a \<Rightarrow> (case w of DF32 b \<Rightarrow> f32_compare a b | _ \<Rightarrow> promoted_cmp v w)
        | DF64 a \<Rightarrow> (case w of DF64 b \<Rightarrow> f64_compare a b | _ \<Rightarrow> promoted_cmp v w)
        | DString a \<Rightarrow> (case w of DString b \<Rightarrow> Some (string_compare a b) | _ \<Rightarrow> promoted_cmp v w)
        | DNull \<Rightarrow> None))"

section \<open>Round trips\<close>

text \<open>Sequences in which every character is well formed.\<close>

function valid_utf8 :: "byte list \<Rightarrow> bool" where
  "valid_utf8 bs = (if bs = [] then True else fst (utf8_chunk bs) \<and> valid_utf8 (drop (snd (utf8_chunk bs)) bs))"
  by pat_completeness auto

termination
  by (relation "measure length") (use utf8_chunk_pos in auto)

declare valid_utf8.simps [simp del]

lemma utf8_lossy_valid: "valid_utf8 bs \<Longrightarrow> utf8_lossy bs = bs"
proof (induction bs rule: utf8_lossy.induct)
  case (1 bs)
  show ?case
  proof (cases "bs = []")
    case False
    obtain v n where c: "utf8_chunk bs = (v, n)" by (cases "utf8_chunk bs")
    then have "v" "valid_utf8 (drop n bs)" using 1(2) False by (subst (asm) valid_utf8.simps; simp)+
    then show ?thesis using 1(1) [OF False] c False by (subst utf8_lossy.simps) simp
  qed (subst utf8_lossy.simps, simp)
qed

lemma ascii_valid: "list_all (\<lambda>b. unat b < 128) bs \<Longrightarrow> valid_utf8 bs"
proof (induction bs)
  case (Cons b bs)
  then have "utf8_chunk (b # bs) = (True, 1)" by (simp add: utf8_chunk_def)
  with Cons show ?case by (subst valid_utf8.simps) simp
qed (subst valid_utf8.simps, simp)

lemma bytes_string_bytes [simp]: "bytes_string (string_bytes s) = s"
proof -
  have "char_of (unat (word_of_nat (of_char c) :: byte)) = c" for c
  proof -
    have "of_char c < (256 :: nat)" by (rule nat_of_char_less_256)
    then have "unat (word_of_nat (of_char c) :: byte) = of_char c" by (simp add: unat_of_nat)
    then show ?thesis by simp
  qed
  then show ?thesis by (simp add: bytes_string_def string_bytes_def comp_def)
qed

lemma get_range_append [simp]: "length xs = n \<Longrightarrow> get_range 0 n (xs @ ys) = Some xs"
  by (simp add: get_range_def bytes_at_def)

lemma from_to_bytes:
  assumes "value_type v = Some t" "t = TString \<longrightarrow> rest = [] \<and> valid_utf8 (to_bytes v)"
  shows "from_bytes t (to_bytes v @ rest) = Some v \<and> (t \<noteq> TString \<longrightarrow> fixed_size t = Some (length (to_bytes v)))"
  using assms by (cases v) (auto simp: first_byte_def decode_string_def utf8_lossy_valid)

text \<open>C22: what \<open>to_bytes\<close> writes \<open>from_bytes\<close> reads back at the value's type, for every value of a
  type, whatever follows it in the buffer; for a string, when nothing follows and it is well-formed
  UTF-8, as every Rust string is. Values of fixed width take as many bytes as \<open>fixed_size\<close> says.\<close>

theorem value_bytes_roundtrip:
  assumes "value_type v = Some t" "t = TString \<longrightarrow> rest = [] \<and> valid_utf8 (to_bytes v)"
  shows "from_bytes t (to_bytes v @ rest) = Some v \<and> (t \<noteq> TString \<longrightarrow> fixed_size t = Some (length (to_bytes v)))"
  using assms by (rule from_to_bytes)

theorem value_bytes_roundtrip_witness:
  "from_bytes TI32 (to_bytes (DI32 (- 5)) @ [7, 7]) = Some (DI32 (- 5)) \<and>
   from_bytes TString (to_bytes (DString ''abc'')) = Some (DString ''abc'')"
proof -
  have "valid_utf8 (to_bytes (DString ''abc''))"
    by (rule ascii_valid) (simp add: string_bytes_def)
  with value_bytes_roundtrip [of "DI32 (- 5)" TI32 "[7, 7]"] value_bytes_roundtrip [of "DString ''abc''" TString "[]"]
  show ?thesis by simp
qed

section \<open>Casts\<close>

text \<open>The number an integer value stands for, and the numbers of an integer type.\<close>

fun num_of :: "db_value \<Rightarrow> int option" where
  "num_of (DI8 v) = Some (sint v)"
| "num_of (DI16 v) = Some (sint v)"
| "num_of (DI32 v) = Some (sint v)"
| "num_of (DI64 v) = Some (sint v)"
| "num_of (DU8 v) = Some (uint v)"
| "num_of (DU16 v) = Some (uint v)"
| "num_of (DU32 v) = Some (uint v)"
| "num_of (DU64 v) = Some (uint v)"
| "num_of _ = None"

definition int_range :: "data_type \<Rightarrow> int set" where
  "int_range t = (case t of
       TI8 \<Rightarrow> {- (2 ^ 7)..<2 ^ 7} | TI16 \<Rightarrow> {- (2 ^ 15)..<2 ^ 15} | TI32 \<Rightarrow> {- (2 ^ 31)..<2 ^ 31} | TI64 \<Rightarrow> {- (2 ^ 63)..<2 ^ 63}
     | TU8 \<Rightarrow> {0..<2 ^ 8} | TU16 \<Rightarrow> {0..<2 ^ 16} | TU32 \<Rightarrow> {0..<2 ^ 32} | TU64 \<Rightarrow> {0..<2 ^ 64} | _ \<Rightarrow> {})"

lemma word_of_sint: "word_of_int (sint v) = scast v" "word_of_int (uint w) = ucast w"
  by (simp_all only: scast_eq ucast_eq)

lemma to_i64_num: "num_of v = Some i \<Longrightarrow> value_type v \<noteq> Some TU64 \<Longrightarrow> to_i64 v = Some (word_of_int i)"
  by (cases v) (auto simp: scast_eq ucast_eq)

lemma to_u64_num: "num_of v = Some i \<Longrightarrow> 0 \<le> i \<Longrightarrow> to_u64 v = Some (word_of_int i)"
  by (cases v) (auto simp: scast_eq ucast_eq)

lemma sint_of_fitting:
  "- (2 ^ (LENGTH('a) - 1)) \<le> i \<Longrightarrow> i < 2 ^ (LENGTH('a) - 1) \<Longrightarrow> sint (word_of_int i :: 'a::len word) = i"
  by (simp add: sint_sbintrunc' signed_take_bit_int_eq_self)

lemma uint_of_fitting: "0 \<le> i \<Longrightarrow> i < 2 ^ LENGTH('a) \<Longrightarrow> uint (word_of_int i :: 'a::len word) = i"
  by (simp add: uint_word_of_int)

lemma ucast_word_of_int: "LENGTH('b) \<le> LENGTH('a) \<Longrightarrow> (ucast (word_of_int i :: 'a::len word) :: 'b::len word) = word_of_int i"
  by (simp add: unsigned_of_int word_of_int_eq_iff)

text \<open>Which casts between integer types the code has.\<close>

definition castable :: "data_type option \<Rightarrow> data_type \<Rightarrow> bool" where
  "castable from_type target \<longleftrightarrow> (target \<in> {TI16, TI32, TI64} \<and> from_type \<noteq> Some TU64) \<or> target \<in> {TU16, TU32, TU64}"

text \<open>a cast between integer types whose number fits the target type keeps the number and gives a
  value of the target type; a cast of a value to its own type is the value, and NULL stays NULL.\<close>

theorem cast_keeps_number:
  assumes "num_of v = Some i" "i \<in> int_range target" "castable (value_type v) target"
  shows "(\<exists>w. cast f32 f64 v target = Some w \<and> value_type w = Some target \<and> num_of w = Some i) \<and>
    (\<forall>t. value_type v = Some t \<longrightarrow> cast f32 f64 v t = Some v) \<and> cast f32 f64 DNull target = Some DNull"
proof -
  have nn: "\<not> is_null v" using assms(1) by (cases v) simp_all
  have own: "cast f32 f64 v t = Some v" if "value_type v = Some t" for t using nn that by (simp add: cast_def)
  have null: "cast f32 f64 DNull target = Some DNull" by (simp add: cast_def)
  have "\<exists>w. cast f32 f64 v target = Some w \<and> value_type w = Some target \<and> num_of w = Some i"
  proof (cases "value_type v = Some target")
    case True
    then show ?thesis using own assms(1) by blast
  next
    case False
    have unfold: "cast f32 f64 v target = (case target of
          TI16 \<Rightarrow> map_option (\<lambda>x. DI16 (ucast x)) (to_i64 v)
        | TI32 \<Rightarrow> map_option (\<lambda>x. DI32 (ucast x)) (to_i64 v)
        | TI64 \<Rightarrow> map_option DI64 (to_i64 v)
        | TU16 \<Rightarrow> map_option (\<lambda>x. DU16 (ucast x)) (to_u64 v)
        | TU32 \<Rightarrow> map_option (\<lambda>x. DU32 (ucast x)) (to_u64 v)
        | _ \<Rightarrow> map_option DU64 (to_u64 v))"
      using nn False assms(3) unfolding cast_def castable_def by (cases target) simp_all
    show ?thesis
      using assms to_i64_num [OF assms(1)] to_u64_num [OF assms(1)] unfolding unfold castable_def
      by (cases target) (auto simp: int_range_def ucast_word_of_int sint_of_fitting uint_of_fitting)
  qed
  then show ?thesis using own null by blast
qed

theorem cast_keeps_number_witness:
  "\<exists>w. cast (\<lambda>_. '''') (\<lambda>_. '''') (DI64 (- 7)) TI16 = Some w \<and> value_type w = Some TI16 \<and> num_of w = Some (- 7)"
  using cast_keeps_number [of "DI64 (- 7)" "- 7" TI16 "\<lambda>_. ''''" "\<lambda>_. ''''"] by (simp add: int_range_def castable_def)

text \<open>A number that does not fit is cut, not refused.\<close>

lemma cast_wraps: "cast f32 f64 (DI64 70000) TI16 = Some (DI16 4464)"
  by (simp add: cast_def)

section \<open>Order of values\<close>

lemma string_compare_reverse: "string_compare t s = reverse_ordering (string_compare s t)"
  by (induction s t rule: string_compare.induct) (auto intro: compare_by_reverse)

lemma string_compare_refl [simp]: "string_compare s s = Equal"
  by (induction s) simp_all

lemma promoted_cmp_reverse: "promoted_cmp w v = map_option reverse_ordering (promoted_cmp v w)"
  by (cases "to_f64 v"; cases "to_f64 w") (simp_all add: promoted_cmp_def f64_compare_reverse [symmetric])

lemma partial_cmp_reverse: "partial_cmp w v = map_option reverse_ordering (partial_cmp v w)"
  by (cases v; cases w)
    (simp_all add: partial_cmp_def promoted_cmp_reverse [symmetric] f64_compare_reverse [symmetric]
      f32_compare_reverse [symmetric] string_compare_reverse [symmetric] compare_by_reverse [symmetric])

lemma promoted_cmp_num:
  assumes "num_of v = Some i" "num_of w = Some j" "\<bar>i\<bar> < 2 ^ 53" "\<bar>j\<bar> < 2 ^ 53"
  shows "promoted_cmp v w = Some (compare_by i j)"
proof -
  have "to_f64 u = Some (f64_of_int k)" if "num_of u = Some k" for u k using that by (cases u) auto
  then show ?thesis using assms f64_of_int_compare [OF assms(3,4)] by (simp add: promoted_cmp_def)
qed

lemma compare_by_uint: "compare_by (uint a) (uint b) = compare_by a b"
  by (simp add: compare_by_def word_less_def word_uint_eq_iff)

text \<open>the order of integer values is the order of their numbers when both have one type, and between
  types when both numbers have at most 53 bits.\<close>

theorem value_order_exact:
  assumes "num_of v = Some i" "num_of w = Some j"
    "value_type v = value_type w \<or> \<bar>i\<bar> < 2 ^ 53 \<and> \<bar>j\<bar> < 2 ^ 53"
  shows "partial_cmp v w = Some (compare_by i j)"
proof (cases "value_type v = value_type w")
  case True
  then show ?thesis using assms(1,2) by (cases v; cases w) (auto simp: partial_cmp_def compare_by_uint)
next
  case False
  then have "partial_cmp v w = promoted_cmp v w"
    using assms(1,2) by (cases v; cases w) (simp_all add: partial_cmp_def)
  with False promoted_cmp_num assms show ?thesis by simp
qed

theorem value_order_exact_witness: "partial_cmp (DI8 (- 3)) (DU64 4) = Some Less"
  using value_order_exact [of "DI8 (- 3)" "- 3" "DU64 4" 4] by simp

text \<open>Comparing two values the other way round reverses the result, a value that is not NULL is
  above NULL, and NULL equals NULL.\<close>

theorem value_order_laws:
  "partial_cmp w v = map_option reverse_ordering (partial_cmp v w) \<and>
   partial_cmp DNull v = Some (if v = DNull then Equal else Less)"
  by (rule conjI [OF partial_cmp_reverse]) (simp add: partial_cmp_def)

text \<open>Past 53 bits the promotion to \<open>f64\<close> makes different numbers equal.\<close>

lemma large_numbers_equal: "partial_cmp (DI64 9007199254740993) (DU64 9007199254740992) = Some Equal"
proof -
  have "floorlog 2 (9007199254740993::nat) = 54" "floorlog 2 (9007199254740992::nat) = 54"
    by (intro antisym floorlog_leI floorlog_geI; simp)+
  then have "f64_magnitude 9007199254740993 0 = f64_magnitude 9007199254740992 0"
    by (simp add: float_encode_def round_half_even_def)
  then have "f64_of_int 9007199254740993 = f64_of_int 9007199254740992" by (simp add: f64_of_int_def)
  then show ?thesis by (simp add: partial_cmp_def promoted_cmp_def f64_of_int_reflexive)
qed

end
