(* ===== verification/Layout.thy ===== *)
theory Layout
  imports Databox
begin

text \<open>
  \<open>src/src/databox/layout.rs\<close>: where the columns of a tuple are, and reading and writing one of
  them in a tuple's bytes. The 16-bit offsets are natural numbers here; an addition that would pass
  65535 is the panic of the code.
\<close>

unbundle bit_operations_syntax

section \<open>Layouts\<close>

definition HEADER_SIZE :: nat where "HEADER_SIZE = 16"
definition VAR_PTR_SIZE :: nat where "VAR_PTR_SIZE = 4"

record tuple_layout =
  tl_count :: nat
  null_bitmap_offset :: nat
  tl_offsets :: "string \<rightharpoonup> nat"
  tl_types :: "string \<rightharpoonup> data_type"
  fixed_len :: nat

fun get_type_layout :: "data_type \<Rightarrow> nat \<times> nat" where
  "get_type_layout t = (case t of
       TBool \<Rightarrow> (1, 1) | TI8 \<Rightarrow> (1, 1) | TU8 \<Rightarrow> (1, 1)
     | TI16 \<Rightarrow> (2, 2) | TU16 \<Rightarrow> (2, 2)
     | TI32 \<Rightarrow> (4, 4) | TU32 \<Rightarrow> (4, 4) | TF32 \<Rightarrow> (4, 4)
     | TI64 \<Rightarrow> (8, 8) | TU64 \<Rightarrow> (8, 8) | TF64 \<Rightarrow> (8, 8)
     | TString \<Rightarrow> (VAR_PTR_SIZE, 4))"

text \<open>The loop over the columns.\<close>

fun place_columns :: "column list \<Rightarrow> nat \<Rightarrow> (string \<rightharpoonup> nat) \<Rightarrow> (string \<rightharpoonup> data_type) \<Rightarrow>
    (unit, (string \<rightharpoonup> nat) \<times> (string \<rightharpoonup> data_type) \<times> nat) outcome" where
  "place_columns [] current_offset offsets types = Ok (offsets, types, current_offset)"
| "place_columns (col # columns) current_offset offsets types =
     (let (size, align) = get_type_layout (col_type col);
          padding = (align - current_offset mod align) mod align;
          start = current_offset + padding
      in if 65535 < start + size then Panic
         else place_columns columns (start + size) (offsets(col_name col \<mapsto> start)) (types(col_name col \<mapsto> col_type col)))"

definition tuple_layout_from :: "column list \<Rightarrow> (unit, tuple_layout) outcome" where
  "tuple_layout_from columns =
     (let columns = sort_key col_position columns;
          count = length columns mod 65536
      in if 65535 < count + 7 then Panic
         else bind_ok (place_columns columns (HEADER_SIZE + (count + 7) div 8) Map.empty Map.empty)
           (\<lambda>(offsets, types, current_offset).
             Ok \<lparr> tl_count = count, null_bitmap_offset = HEADER_SIZE, tl_offsets = offsets, tl_types = types,
               fixed_len = current_offset \<rparr>))"

section \<open>Fields\<close>

definition read_le_arr :: "nat \<Rightarrow> byte list \<Rightarrow> nat \<Rightarrow> byte list option" where
  "read_le_arr n data off = get_range off (off + n) data"

definition write_le :: "byte list \<Rightarrow> nat \<Rightarrow> byte list \<Rightarrow> byte list" where
  "write_le data off bytes = (if off + length bytes \<le> length data then put_at off bytes data else data)"

definition get_byte :: "byte list \<Rightarrow> nat \<Rightarrow> byte option" where
  "get_byte data i = (if i < length data then Some (data ! i) else None)"

definition read_string :: "byte list \<Rightarrow> nat \<Rightarrow> db_value option" where
  "read_string tuple p =
     Option.bind (read_le_arr 2 tuple p) (\<lambda>lb. Option.bind (read_le_arr 2 tuple (p + 2)) (\<lambda>ob.
       let len = unat (u16_of lb); off = unat (u16_of ob)
       in Some (DString (if off + len \<le> length tuple then decode_string (bytes_at off len tuple) else ''''))))"

definition read_typed :: "data_type \<Rightarrow> byte list \<Rightarrow> nat \<Rightarrow> db_value option" where
  "read_typed dtype tuple p = (case dtype of
       TBool \<Rightarrow> map_option (\<lambda>b. DBool (b \<noteq> 0)) (get_byte tuple p)
     | TI8 \<Rightarrow> map_option DI8 (get_byte tuple p)
     | TI16 \<Rightarrow> map_option (\<lambda>b. DI16 (u16_of b)) (read_le_arr 2 tuple p)
     | TI32 \<Rightarrow> map_option (\<lambda>b. DI32 (u32_of b)) (read_le_arr 4 tuple p)
     | TI64 \<Rightarrow> map_option (\<lambda>b. DI64 (u64_of b)) (read_le_arr 8 tuple p)
     | TU8 \<Rightarrow> map_option DU8 (get_byte tuple p)
     | TU16 \<Rightarrow> map_option (\<lambda>b. DU16 (u16_of b)) (read_le_arr 2 tuple p)
     | TU32 \<Rightarrow> map_option (\<lambda>b. DU32 (u32_of b)) (read_le_arr 4 tuple p)
     | TU64 \<Rightarrow> map_option (\<lambda>b. DU64 (u64_of b)) (read_le_arr 8 tuple p)
     | TF32 \<Rightarrow> map_option (\<lambda>b. DF32 (u32_of b)) (read_le_arr 4 tuple p)
     | TF64 \<Rightarrow> map_option (\<lambda>b. DF64 (u64_of b)) (read_le_arr 8 tuple p)
     | TString \<Rightarrow> read_string tuple p)"

text \<open>\<open>(tuple[byte_idx] >> (col_index % 8)) & 1 == 1\<close>, false past the end of the tuple.\<close>

definition null_bit :: "tuple_layout \<Rightarrow> nat \<Rightarrow> byte list \<Rightarrow> bool" where
  "null_bit L col_index tuple =
     (let byte_idx = null_bitmap_offset L + col_index div 8
      in byte_idx < length tuple \<and> drop_bit (col_index mod 8) (tuple ! byte_idx) AND 1 = 1)"

definition read_field :: "tuple_layout \<Rightarrow> string \<Rightarrow> nat \<Rightarrow> byte list \<Rightarrow> db_value option" where
  "read_field L name col_index tuple =
     Option.bind (tl_offsets L name) (\<lambda>offset. Option.bind (tl_types L name) (\<lambda>dtype.
       if null_bit L col_index tuple then Some DNull else read_typed dtype tuple offset))"

definition write_byte :: "byte list \<Rightarrow> nat \<Rightarrow> byte \<Rightarrow> byte list" where
  "write_byte data i b = (if i < length data then data[i := b] else data)"

definition write_typed :: "byte list \<Rightarrow> nat \<Rightarrow> db_value \<Rightarrow> byte list" where
  "write_typed tuple p v = (case v of
       DBool _ \<Rightarrow> write_byte tuple p (hd (to_bytes v))
     | DI8 _ \<Rightarrow> write_byte tuple p (hd (to_bytes v))
     | DU8 _ \<Rightarrow> write_byte tuple p (hd (to_bytes v))
     | _ \<Rightarrow> write_le tuple p (to_bytes v))"

text \<open>The change of the tuple and the returned flag.\<close>

definition write_field :: "tuple_layout \<Rightarrow> string \<Rightarrow> nat \<Rightarrow> byte list \<Rightarrow> db_value \<Rightarrow> bool \<times> byte list" where
  "write_field L name col_index tuple v = (case tl_offsets L name of
       None \<Rightarrow> (False, tuple)
     | Some offset \<Rightarrow>
         let byte_idx = null_bitmap_offset L + col_index div 8;
             mask = push_bit (col_index mod 8) 1
         in if is_null v then (True, if byte_idx < length tuple then tuple[byte_idx := tuple ! byte_idx OR mask] else tuple)
            else let cleared = (if byte_idx < length tuple then tuple[byte_idx := tuple ! byte_idx AND NOT mask] else tuple)
                 in case v of DString _ \<Rightarrow> (False, cleared) | _ \<Rightarrow> (True, write_typed cleared offset v))"

section \<open>Where columns are\<close>

definition col_size :: "column \<Rightarrow> nat" where "col_size c = fst (get_type_layout (col_type c))"
definition col_align :: "column \<Rightarrow> nat" where "col_align c = snd (get_type_layout (col_type c))"

definition align_up :: "nat \<Rightarrow> nat \<Rightarrow> nat" where
  "align_up a x = x + (a - x mod a) mod a"

fun starts :: "column list \<Rightarrow> nat \<Rightarrow> nat list" where
  "starts [] x = []"
| "starts (c # cs) x = align_up (col_align c) x # starts cs (align_up (col_align c) x + col_size c)"

fun end_of :: "column list \<Rightarrow> nat \<Rightarrow> nat" where
  "end_of [] x = x"
| "end_of (c # cs) x = end_of cs (align_up (col_align c) x + col_size c)"

lemma length_starts [simp]: "length (starts cs x) = length cs"
  by (induction cs arbitrary: x) simp_all

lemma align_up_ge: "x \<le> align_up a x" by (simp add: align_up_def)

lemma align_up_aligned:
  assumes "0 < a"
  shows "a dvd align_up a x"
proof -
  have "x mod a \<le> a" using assms by (simp add: less_imp_le)
  then have "x + (a - x mod a) = x div a * a + a" using div_mult_mod_eq [of x a] by linarith
  then have "(x + (a - x mod a)) mod a = 0" by simp
  then show ?thesis by (simp add: align_up_def dvd_eq_mod_eq_0 mod_add_right_eq)
qed

lemma col_size_pos: "0 < col_size c" "0 < col_align c"
  by (cases "col_type c"; simp add: col_size_def col_align_def VAR_PTR_SIZE_def)+

lemma end_of_ge: "x + length cs \<le> end_of cs x"
proof (induction cs arbitrary: x)
  case (Cons c cs)
  have "x + length (c # cs) \<le> align_up (col_align c) x + col_size c + length cs"
    using align_up_ge [of x "col_align c"] col_size_pos(1) [of c] by simp
  also have "\<dots> \<le> end_of (c # cs) x" using Cons by simp
  finally show ?case .
qed simp

lemma starts_facts:
  "k < length cs \<Longrightarrow> x \<le> starts cs x ! k \<and> starts cs x ! k + col_size (cs ! k) \<le> end_of cs x \<and>
     col_align (cs ! k) dvd starts cs x ! k"
proof (induction cs arbitrary: x k)
  case (Cons c cs)
  let ?s = "align_up (col_align c) x"
  show ?case
  proof (cases k)
    case 0
    then show ?thesis using align_up_ge [of x "col_align c"] align_up_aligned col_size_pos(2)
      le_add1 [THEN order_trans, OF end_of_ge [of "?s + col_size c" cs]] by simp
  next
    case (Suc j)
    have "x \<le> ?s + col_size c" using align_up_ge [of x "col_align c"] by simp
    then show ?thesis using Cons.IH [of j "?s + col_size c"] Cons.prems Suc by auto
  qed
qed simp

text \<open>The columns follow one another without overlap.\<close>

lemma starts_ordered: "i < j \<Longrightarrow> j < length cs \<Longrightarrow> starts cs x ! i + col_size (cs ! i) \<le> starts cs x ! j"
proof (induction cs arbitrary: x i j)
  case (Cons c cs)
  obtain j' where j: "j = Suc j'" using Cons.prems by (cases j) auto
  show ?case
  proof (cases i)
    case 0
    then show ?thesis using j Cons.prems starts_facts [of j' cs "align_up (col_align c) x + col_size c"] by simp
  next
    case (Suc i')
    then show ?thesis using j Cons by simp
  qed
qed simp

lemma place_columns_Ok:
  "place_columns cs x offs typs = Ok (offs', typs', e) \<Longrightarrow>
   e = end_of cs x \<and> offs' = offs(map col_name cs [\<mapsto>] starts cs x) \<and> typs' = typs(map col_name cs [\<mapsto>] map col_type cs) \<and>
   (x \<le> 65535 \<longrightarrow> e \<le> 65535)"
proof (induction cs arbitrary: x offs typs)
  case (Cons c cs)
  show ?case
  proof (cases "65535 < align_up (col_align c) x + col_size c")
    case True
    then show ?thesis using Cons.prems
      by (cases "get_type_layout (col_type c)") (simp add: Let_def col_size_def col_align_def align_up_def)
  next
    case False
    then have "place_columns cs (align_up (col_align c) x + col_size c) (offs(col_name c \<mapsto> align_up (col_align c) x))
      (typs(col_name c \<mapsto> col_type c)) = Ok (offs', typs', e)"
      using Cons.prems by (cases "get_type_layout (col_type c)") (simp add: Let_def col_size_def col_align_def align_up_def)
    from Cons.IH [OF this] False show ?thesis by (simp add: fun_upd_def)
  qed
qed simp

lemma map_upds_nth:
  "distinct xs \<Longrightarrow> length xs = length ys \<Longrightarrow> k < length xs \<Longrightarrow> (m(xs [\<mapsto>] ys)) (xs ! k) = Some (ys ! k)"
proof (induction xs arbitrary: ys m k)
  case (Cons x xs)
  obtain y zs where ys: "ys = y # zs" using Cons.prems by (cases ys) auto
  show ?case
  proof (cases k)
    case (Suc j)
    then have "xs ! j \<noteq> x" using Cons.prems by (auto simp: nth_mem)
    then show ?thesis using Cons ys Suc by simp
  qed (use Cons ys in simp)
qed simp

section \<open>Fields do not interfere\<close>

text \<open>Facts about one byte of the null bitmap.\<close>

lemma drop_bit_one: "drop_bit i (b :: byte) AND 1 = 1 \<longleftrightarrow> bit b i"
  by (simp add: and_one_eq bit_iff_odd_drop_bit odd_iff_mod_2_eq_one)

lemma null_bit_iff: "null_bit L i tuple \<longleftrightarrow>
    null_bitmap_offset L + i div 8 < length tuple \<and> bit (tuple ! (null_bitmap_offset L + i div 8)) (i mod 8)"
  by (simp add: null_bit_def Let_def drop_bit_one)

lemma bit_mask_set: "i < 8 \<Longrightarrow> j < 8 \<Longrightarrow> bit (b OR push_bit i 1 :: byte) j = (bit b j \<or> i = j)"
  by (auto simp: bit_simps)

lemma bit_mask_clear: "i < 8 \<Longrightarrow> j < 8 \<Longrightarrow> bit (b AND NOT (push_bit i 1) :: byte) j = (bit b j \<and> i \<noteq> j)"
  by (auto simp: bit_simps)

definition touch :: "nat \<Rightarrow> byte list \<Rightarrow> (byte \<Rightarrow> byte) \<Rightarrow> byte list" where
  "touch n tuple f = (if n < length tuple then tuple[n := f (tuple ! n)] else tuple)"

lemma length_writes [simp]:
  "length (touch n tuple f) = length tuple" "length (write_byte tuple n b) = length tuple" "length (write_le tuple n bs) = length tuple"
  "length (write_typed tuple n v) = length tuple"
  by (simp_all add: touch_def write_byte_def write_le_def write_typed_def split: db_value.split)

text \<open>A typed write changes only the bytes of its field.\<close>

definition value_size :: "db_value \<Rightarrow> nat" where
  "value_size v = length (to_bytes v)"

lemma write_byte_le: "write_byte tuple n b = write_le tuple n [b]"
  by (auto simp: write_byte_def write_le_def put_at_def upd_conv_take_nth_drop)

lemma write_typed_le: "write_typed tuple n v = write_le tuple n (to_bytes v)"
  by (cases v) (simp_all add: write_typed_def write_byte_le)

lemma nth_write_typed:
  "i < length tuple \<Longrightarrow> i < n \<or> n + value_size v \<le> i \<Longrightarrow> write_typed tuple n v ! i = tuple ! i"
  by (auto simp: write_typed_le write_le_def nth_put_at value_size_def)

lemma bytes_write_typed:
  "m + k \<le> n \<or> n + value_size v \<le> m \<Longrightarrow> m + k \<le> length tuple \<Longrightarrow> bytes_at m k (write_typed tuple n v) = bytes_at m k tuple"
  by (rule nth_equalityI) (auto simp: nth_bytes_at nth_write_typed)

lemma nth_touch: "i \<noteq> n \<Longrightarrow> touch n tuple f ! i = tuple ! i"
  by (simp add: touch_def)

lemma bytes_touch:
  "n < m \<or> m + k \<le> n \<Longrightarrow> m + k \<le> length tuple \<Longrightarrow> bytes_at m k (touch n tuple f) = bytes_at m k tuple"
  by (rule nth_equalityI) (auto simp: nth_bytes_at touch_def)

lemma size_of_type: "fixed_size t = Some n \<Longrightarrow> fst (get_type_layout t) = n"
  by (cases t) auto

lemma bytes_at_one: "m < length tuple \<Longrightarrow> bytes_at m (Suc 0) tuple = [tuple ! m]"
  by (simp add: bytes_at_def take_Suc hd_drop_conv_nth)

lemma read_typed_from_bytes:
  "fixed_size t = Some n \<Longrightarrow> read_typed t tuple m = (if m + n \<le> length tuple then from_bytes t (bytes_at m n tuple) else None)"
  by (cases t) (auto simp: read_typed_def read_le_arr_def get_range_def get_byte_def first_byte_def bytes_at_one bytes_at_bytes_at)

lemma read_write_typed:
  assumes "value_type v = Some t" "t \<noteq> TString" "m + value_size v \<le> length tuple"
  shows "read_typed t (write_typed tuple m v) m = Some v"
proof -
  have f: "fixed_size t = Some (value_size v)" "from_bytes t (to_bytes v) = Some v"
    using from_to_bytes [of v t "[]"] assms(1,2) by (simp_all add: value_size_def)
  have "bytes_at m (value_size v) (write_typed tuple m v) = to_bytes v"
    using assms(3) by (simp add: write_typed_le write_le_def value_size_def)
  then show ?thesis using f assms(3) by (simp add: read_typed_from_bytes [OF f(1)])
qed

definition string_in_heap :: "tuple_layout \<Rightarrow> string \<Rightarrow> byte list \<Rightarrow> bool" where
  "string_in_heap L name tuple = (case tl_offsets L name of None \<Rightarrow> True
     | Some m \<Rightarrow> fixed_len L \<le> unat (u16_of (bytes_at (m + 2) 2 tuple)))"

text \<open>Reading a field depends on its bytes, and for a string on the bytes it points to.\<close>

lemma read_typed_cong:
  assumes "length t' = length tuple" "m + fst (get_type_layout t) \<le> f" "f \<le> length tuple"
    and "bytes_at m (fst (get_type_layout t)) t' = bytes_at m (fst (get_type_layout t)) tuple"
    and "t = TString \<Longrightarrow> f \<le> unat (u16_of (bytes_at (m + 2) 2 tuple))"
    and "\<And>i. f \<le> i \<Longrightarrow> i < length tuple \<Longrightarrow> t' ! i = tuple ! i"
  shows "read_typed t t' m = read_typed t tuple m"
proof (cases "t = TString")
  case False
  then obtain n where n: "fixed_size t = Some n" by (cases t) auto
  then show ?thesis using assms size_of_type [OF n] by (simp add: read_typed_from_bytes)
next
  case True
  then have b: "bytes_at m 4 t' = bytes_at m 4 tuple" and l: "m + 4 \<le> length tuple"
    using assms(2-4) by (simp_all add: VAR_PTR_SIZE_def)
  have p: "bytes_at m 2 t' = bytes_at m 2 tuple" "bytes_at (m + 2) 2 t' = bytes_at (m + 2) 2 tuple"
    using b l assms(1) bytes_at_bytes_at [of 0 2 4 m t'] bytes_at_bytes_at [of 0 2 4 m tuple]
      bytes_at_bytes_at [of 2 2 4 m t'] bytes_at_bytes_at [of 2 2 4 m tuple] by simp_all
  let ?off = "unat (u16_of (bytes_at (m + 2) 2 tuple))" and ?len = "unat (u16_of (bytes_at m 2 tuple))"
  have "bytes_at ?off ?len t' = bytes_at ?off ?len tuple" if "?off + ?len \<le> length tuple"
    using that assms(1,5,6) True by (intro nth_equalityI) (auto simp: nth_bytes_at)
  then show ?thesis using True p l assms(1)
    by (simp add: read_typed_def read_string_def read_le_arr_def get_range_def Let_def)
qed

lemma layout_facts:
  assumes "tuple_layout_from cols = Ok L" "distinct (map col_name cols)"
  defines "cs \<equiv> sort_key col_position cols"
  shows "null_bitmap_offset L = 16 \<and> fixed_len L \<le> 65535 \<and>
    (\<exists>pos. length pos = length cs \<and>
      (\<forall>k<length cs. tl_offsets L (col_name (cs ! k)) = Some (pos ! k) \<and> tl_types L (col_name (cs ! k)) = Some (col_type (cs ! k)) \<and>
        16 + (length cs + 7) div 8 \<le> pos ! k \<and> pos ! k + col_size (cs ! k) \<le> fixed_len L \<and> col_align (cs ! k) dvd pos ! k) \<and>
      (\<forall>i j. i < j \<and> j < length cs \<longrightarrow> pos ! i + col_size (cs ! i) \<le> pos ! j))"
proof -
  let ?x = "16 + (length cs mod 65536 + 7) div 8"
  obtain offs typs e where p: "place_columns cs ?x Map.empty Map.empty = Ok (offs, typs, e)"
    and L: "L = \<lparr> tl_count = length cs mod 65536, null_bitmap_offset = HEADER_SIZE, tl_offsets = offs, tl_types = typs, fixed_len = e \<rparr>"
    and c: "length cs mod 65536 + 7 \<le> 65535"
    using assms(1) by (auto simp: tuple_layout_from_def Let_def cs_def HEADER_SIZE_def split: if_splits)
  have x: "?x \<le> 65535" using div_le_mono [OF c, of 8] by simp
  have f: "e = end_of cs ?x" "offs = map_upds Map.empty (map col_name cs) (starts cs ?x)"
    "typs = map_upds Map.empty (map col_name cs) (map col_type cs)" "e \<le> 65535"
    using place_columns_Ok [OF p] x by simp_all
  have "length cs \<le> e" using end_of_ge [of ?x cs] f(1) by simp
  then have n: "length cs mod 65536 = length cs" using f(4) by simp
  have d: "distinct (map col_name cs)" using assms(2) by (simp add: cs_def distinct_map)
  have names: "offs (col_name (cs ! k)) = Some (starts cs ?x ! k)" "typs (col_name (cs ! k)) = Some (col_type (cs ! k))" if "k < length cs" for k
    using map_upds_nth [OF d, of "starts cs ?x" k Map.empty] map_upds_nth [OF d, of "map col_type cs" k Map.empty] that
    by (simp_all add: f)
  have "\<forall>k<length cs. tl_offsets L (col_name (cs ! k)) = Some (starts cs ?x ! k) \<and> tl_types L (col_name (cs ! k)) = Some (col_type (cs ! k)) \<and>
        16 + (length cs + 7) div 8 \<le> starts cs ?x ! k \<and> starts cs ?x ! k + col_size (cs ! k) \<le> fixed_len L \<and> col_align (cs ! k) dvd starts cs ?x ! k"
    using names starts_facts [of _ cs ?x] n by (simp add: L f(1))
  then show ?thesis using f(4) starts_ordered [of _ _ cs ?x] by (intro conjI exI [of _ "starts cs ?x"]) (auto simp: L HEADER_SIZE_def)
qed

lemma write_field_value:
  assumes "tl_offsets L name = Some m" "value_type v = Some t" "t \<noteq> TString"
  shows "write_field L name i tuple v = (True, write_typed (touch (null_bitmap_offset L + i div 8) tuple (\<lambda>b. b AND NOT (push_bit (i mod 8) 1))) m v)"
  using assms by (cases v) (simp_all add: write_field_def Let_def touch_def)

lemma write_field_null:
  assumes "tl_offsets L name = Some m"
  shows "write_field L name i tuple DNull = (True, touch (null_bitmap_offset L + i div 8) tuple (\<lambda>b. b OR push_bit (i mod 8) 1))"
  using assms by (simp add: write_field_def Let_def touch_def)

text \<open>Two columns share a bitmap byte or not; either way the other bit is kept.\<close>

lemma null_bit_touch:
  assumes "null_bitmap_offset L + i div 8 < length tuple"
    and "\<And>b j. j < 8 \<Longrightarrow> bit (f b) j = (if j = i mod 8 then x else bit b j)"
  shows "null_bit L j (touch (null_bitmap_offset L + i div 8) tuple f) = (if j = i then x else null_bit L j tuple)"
proof -
  have "j = i \<longleftrightarrow> j div 8 = i div 8 \<and> j mod 8 = i mod 8" by (metis div_mult_mod_eq)
  then show ?thesis using assms(1) by (auto simp: null_bit_iff touch_def nth_list_update assms(2))
qed

lemma null_bit_write_typed:
  "null_bitmap_offset L + j div 8 < m \<Longrightarrow> null_bitmap_offset L + j div 8 < length tuple \<Longrightarrow>
   null_bit L j (write_typed tuple m v) = null_bit L j tuple"
  by (simp add: null_bit_iff nth_write_typed)

text \<open>Where the columns lie: position by position behind the bitmap, inside the fixed part, apart.\<close>

definition placed :: "tuple_layout \<Rightarrow> column list \<Rightarrow> nat list \<Rightarrow> bool" where
  "placed L cs pos \<longleftrightarrow> null_bitmap_offset L = 16 \<and>
     (\<forall>j<length cs. tl_offsets L (col_name (cs ! j)) = Some (pos ! j) \<and> tl_types L (col_name (cs ! j)) = Some (col_type (cs ! j)) \<and>
        16 + (length cs + 7) div 8 \<le> pos ! j \<and> pos ! j + col_size (cs ! j) \<le> fixed_len L) \<and>
     (\<forall>i j. i < j \<and> j < length cs \<longrightarrow> pos ! i + col_size (cs ! i) \<le> pos ! j)"

lemma layout_placed:
  assumes "tuple_layout_from cols = Ok L" "distinct (map col_name cols)"
  shows "\<exists>pos. placed L (sort_key col_position cols) pos"
  using layout_facts [OF assms] unfolding placed_def by blast

lemma placed_column:
  assumes "placed L cs pos" "j < length cs"
  shows "tl_offsets L (col_name (cs ! j)) = Some (pos ! j)" "tl_types L (col_name (cs ! j)) = Some (col_type (cs ! j))"
    "pos ! j + col_size (cs ! j) \<le> fixed_len L"
  using assms unfolding placed_def by blast+

lemma placed_bitmap:
  assumes "placed L cs pos" "j < length cs" "k < length cs"
  shows "null_bitmap_offset L + k div 8 < pos ! j" "null_bitmap_offset L + k div 8 < fixed_len L"
proof -
  have "16 + k div 8 < 16 + (length cs + 7) div 8" using assms(3) by linarith
  moreover have "null_bitmap_offset L = 16" "16 + (length cs + 7) div 8 \<le> pos ! j" "pos ! j + col_size (cs ! j) \<le> fixed_len L"
    using assms(1,2) unfolding placed_def by blast+
  ultimately show "null_bitmap_offset L + k div 8 < pos ! j" "null_bitmap_offset L + k div 8 < fixed_len L" by linarith+
qed

definition same_field :: "tuple_layout \<Rightarrow> column list \<Rightarrow> byte list \<Rightarrow> byte list \<Rightarrow> nat \<Rightarrow> bool" where
  "same_field L cs tuple t j \<longleftrightarrow> ((col_type (cs ! j) = TString \<longrightarrow> string_in_heap L (col_name (cs ! j)) tuple) \<longrightarrow>
     read_field L (col_name (cs ! j)) j t = read_field L (col_name (cs ! j)) j tuple)"

lemma same_read:
  assumes "placed L cs pos" "j < length cs" "fixed_len L \<le> length tuple"
    and n: "null_bit L j t = null_bit L j tuple" and l: "length t = length tuple"
    and b: "bytes_at (pos ! j) (col_size (cs ! j)) t = bytes_at (pos ! j) (col_size (cs ! j)) tuple"
    and h: "\<And>i. fixed_len L \<le> i \<Longrightarrow> i < length tuple \<Longrightarrow> t ! i = tuple ! i"
  shows "same_field L cs tuple t j"
  unfolding same_field_def
proof
  assume s: "col_type (cs ! j) = TString \<longrightarrow> string_in_heap L (col_name (cs ! j)) tuple"
  have "read_typed (col_type (cs ! j)) t (pos ! j) = read_typed (col_type (cs ! j)) tuple (pos ! j)"
    using l b h s placed_column [OF assms(1,2)] assms(3)
    by (intro read_typed_cong [where f = "fixed_len L"]) (auto simp: col_size_def string_in_heap_def)
  then show "read_field L (col_name (cs ! j)) j t = read_field L (col_name (cs ! j)) j tuple"
    using placed_column [OF assms(1,2)] n by (simp add: read_field_def)
qed

lemma write_null_independent:
  assumes "placed L cs pos" "k < length cs" "fixed_len L \<le> length tuple"
  shows "\<exists>t. write_field L (col_name (cs ! k)) k tuple DNull = (True, t) \<and> length t = length tuple \<and>
    read_field L (col_name (cs ! k)) k t = Some DNull \<and> (\<forall>j<length cs. j \<noteq> k \<longrightarrow> same_field L cs tuple t j)"
proof -
  let ?byte = "null_bitmap_offset L + k div 8"
  let ?t = "touch ?byte tuple (\<lambda>b. b OR push_bit (k mod 8) 1)"
  have inb: "?byte < length tuple" using placed_bitmap(2) [OF assms(1,2,2)] assms(3) by simp
  have bit: "null_bit L j ?t = (if j = k then True else null_bit L j tuple)" for j
    using inb by (rule null_bit_touch) (subst bit_mask_set, auto)
  have "same_field L cs tuple ?t j" if j: "j < length cs" "j \<noteq> k" for j
  proof (rule same_read [OF assms(1) j(1) assms(3)])
    show "bytes_at (pos ! j) (col_size (cs ! j)) ?t = bytes_at (pos ! j) (col_size (cs ! j)) tuple"
      using placed_bitmap(1) [OF assms(1) j(1) assms(2)] placed_column(3) [OF assms(1) j(1)] assms(3) by (intro bytes_touch) simp_all
    show "?t ! i = tuple ! i" if "fixed_len L \<le> i" for i
      using placed_bitmap(2) [OF assms(1,2,2)] that by (intro nth_touch) simp
  qed (use bit [of j] j in simp_all)
  moreover have "read_field L (col_name (cs ! k)) k ?t = Some DNull"
    using placed_column [OF assms(1,2)] bit [of k] by (simp add: read_field_def)
  ultimately show ?thesis using write_field_null [OF placed_column(1) [OF assms(1,2)]] by auto
qed

lemma write_value_independent:
  assumes "placed L cs pos" "k < length cs" "fixed_len L \<le> length tuple"
    and v: "value_type v = Some (col_type (cs ! k))" "col_type (cs ! k) \<noteq> TString"
  shows "\<exists>t. write_field L (col_name (cs ! k)) k tuple v = (True, t) \<and> length t = length tuple \<and>
    read_field L (col_name (cs ! k)) k t = Some v \<and> (\<forall>j<length cs. j \<noteq> k \<longrightarrow> same_field L cs tuple t j)"
proof -
  let ?byte = "null_bitmap_offset L + k div 8"
  let ?c = "touch ?byte tuple (\<lambda>b. b AND NOT (push_bit (k mod 8) 1))"
  let ?t = "write_typed ?c (pos ! k) v"
  note off = placed_column [OF assms(1)] and low = placed_bitmap [OF assms(1)]
  have size: "value_size v = col_size (cs ! k)"
    using from_to_bytes [of v _ "[]"] v size_of_type by (auto simp: value_size_def col_size_def)
  have bit: "null_bit L j ?t = (if j = k then False else null_bit L j tuple)" if j: "j < length cs" for j
  proof -
    have "null_bit L j ?t = null_bit L j ?c"
      using low(1) [OF assms(2) j] low(2) [OF assms(2) j] assms(3) by (intro null_bit_write_typed) simp_all
    also have "\<dots> = (if j = k then False else null_bit L j tuple)"
      using low(2) [OF assms(2,2)] assms(3) by (intro null_bit_touch) (simp, subst bit_mask_clear, auto)
    finally show ?thesis .
  qed
  have "same_field L cs tuple ?t j" if j: "j < length cs" "j \<noteq> k" for j
  proof (rule same_read [OF assms(1) j(1) assms(3)])
    have apart: "pos ! j + col_size (cs ! j) \<le> pos ! k \<or> pos ! k + value_size v \<le> pos ! j"
      using assms(1,2) j size unfolding placed_def by (metis linorder_neqE_nat)
    have "bytes_at (pos ! j) (col_size (cs ! j)) ?t = bytes_at (pos ! j) (col_size (cs ! j)) ?c"
      using apart off(3) [OF j(1)] assms(3) by (intro bytes_write_typed) simp_all
    also have "\<dots> = bytes_at (pos ! j) (col_size (cs ! j)) tuple"
      using low(1) [OF j(1) assms(2)] off(3) [OF j(1)] assms(3) by (intro bytes_touch) simp_all
    finally show "bytes_at (pos ! j) (col_size (cs ! j)) ?t = bytes_at (pos ! j) (col_size (cs ! j)) tuple" .
    show "?t ! i = tuple ! i" if "fixed_len L \<le> i" "i < length tuple" for i
    proof -
      have "?t ! i = ?c ! i" using that off(3) [OF assms(2)] size by (intro nth_write_typed) simp_all
      then show ?thesis using low(2) [OF assms(2,2)] that by (simp add: nth_touch)
    qed
  qed (use bit j in simp_all)
  moreover have "read_field L (col_name (cs ! k)) k ?t = Some v"
    using off [OF assms(2)] bit [OF assms(2)] read_write_typed [OF v, of "pos ! k" ?c] size assms(3)
    by (simp add: read_field_def)
  ultimately show ?thesis using write_field_value [OF off(1) [OF assms(2)] v] by auto
qed

text \<open>C23: in a tuple laid out for columns of distinct names, at least as long as the fixed part: writing NULL
  into any column, or a value of the column's own type into a column that is not a string, succeeds,
  reading the column gives the value back, and every other column reads as before, if it is a string provided
  that its data lie behind the fixed part. (A value of another type is written at its own width and
  does overwrite its neighbours, see \<open>wrong_type_overwrites\<close>.)\<close>

theorem tuple_fields_independent:
  assumes "tuple_layout_from cols = Ok L" "distinct (map col_name cols)" "cs = sort_key col_position cols"
    "k < length cs" "fixed_len L \<le> length tuple"
    "v = DNull \<or> value_type v = Some (col_type (cs ! k)) \<and> col_type (cs ! k) \<noteq> TString"
  shows "\<exists>t'. write_field L (col_name (cs ! k)) k tuple v = (True, t') \<and> length t' = length tuple \<and>
    read_field L (col_name (cs ! k)) k t' = Some v \<and>
    (\<forall>j<length cs. j \<noteq> k \<and> (col_type (cs ! j) = TString \<longrightarrow> string_in_heap L (col_name (cs ! j)) tuple) \<longrightarrow>
      read_field L (col_name (cs ! j)) j t' = read_field L (col_name (cs ! j)) j tuple)"
proof -
  obtain pos where "placed L cs pos" using layout_placed [OF assms(1,2)] assms(3) by blast
  then show ?thesis using write_null_independent write_value_independent assms(4-6) unfolding same_field_def by metis
qed

definition example_columns :: "column list" where
  "example_columns =
     [\<lparr> col_oid = 2, col_table = 9, col_name = ''name'', col_type = TString, col_position = 1, col_nullable = True \<rparr>,
      \<lparr> col_oid = 1, col_table = 9, col_name = ''id'', col_type = TI32, col_position = 0, col_nullable = False \<rparr>,
      \<lparr> col_oid = 3, col_table = 9, col_name = ''age'', col_type = TU8, col_position = 2, col_nullable = True \<rparr>]"

definition example_layout :: tuple_layout where
  "example_layout = \<lparr> tl_count = 3, null_bitmap_offset = 16,
     tl_offsets = [''id'' \<mapsto> 20, ''name'' \<mapsto> 24, ''age'' \<mapsto> 28],
     tl_types = [''id'' \<mapsto> TI32, ''name'' \<mapsto> TString, ''age'' \<mapsto> TU8], fixed_len = 29 \<rparr>"

lemma example_sorted: "sort_key col_position example_columns = [example_columns ! 1, example_columns ! 0, example_columns ! 2]"
  by (simp add: example_columns_def)

lemma example_layout_from: "tuple_layout_from example_columns = Ok example_layout"
  by (simp add: tuple_layout_from_def Let_def example_sorted)
    (simp add: example_columns_def example_layout_def HEADER_SIZE_def VAR_PTR_SIZE_def)

theorem tuple_fields_independent_witness:
  "\<exists>t'. write_field example_layout ''id'' 0 (replicate 40 0) (DI32 42) = (True, t') \<and>
     read_field example_layout ''id'' 0 t' = Some (DI32 42) \<and>
     read_field example_layout ''age'' 2 t' = read_field example_layout ''age'' 2 (replicate 40 0)"
proof -
  have d: "distinct (map col_name example_columns)" by (simp add: example_columns_def)
  have cs: "sort_key col_position example_columns ! 0 = example_columns ! 1" "sort_key col_position example_columns ! 2 = example_columns ! 2"
    "length (sort_key col_position example_columns) = 3" by (simp_all add: example_sorted)
  have names: "col_name (example_columns ! 1) = ''id''" "col_type (example_columns ! 1) = TI32"
    "col_name (example_columns ! 2) = ''age''" "col_type (example_columns ! 2) = TU8" by (simp_all add: example_columns_def)
  obtain t' where t: "write_field example_layout ''id'' 0 (replicate 40 0) (DI32 42) = (True, t')"
    "read_field example_layout ''id'' 0 t' = Some (DI32 42)"
    and o: "\<forall>j<3. j \<noteq> 0 \<and> (col_type (sort_key col_position example_columns ! j) = TString \<longrightarrow>
        string_in_heap example_layout (col_name (sort_key col_position example_columns ! j)) (replicate 40 0)) \<longrightarrow>
      read_field example_layout (col_name (sort_key col_position example_columns ! j)) j t' =
      read_field example_layout (col_name (sort_key col_position example_columns ! j)) j (replicate 40 0)"
    using tuple_fields_independent [OF example_layout_from d refl, of 0 "replicate 40 0" "DI32 42"]
    unfolding cs names by (auto simp: example_layout_def)
  have "read_field example_layout ''age'' 2 t' = read_field example_layout ''age'' 2 (replicate 40 0)"
    using o [rule_format, of 2] unfolding cs names by simp
  with t show ?thesis by blast
qed

text \<open>The fixed columns of a layout follow the header and a null bitmap with one bit per column, each is
  aligned to its type, they do not overlap, all end before \<open>fixed_len\<close>, and everything fits 16 bits.\<close>

theorem layout_places_columns:
  assumes "tuple_layout_from cols = Ok L" "distinct (map col_name cols)" "cs = sort_key col_position cols"
  shows "null_bitmap_offset L = 16 \<and> fixed_len L \<le> 65535 \<and>
    (\<exists>pos. length pos = length cs \<and>
      (\<forall>k<length cs. tl_offsets L (col_name (cs ! k)) = Some (pos ! k) \<and> tl_types L (col_name (cs ! k)) = Some (col_type (cs ! k)) \<and>
        16 + (length cs + 7) div 8 \<le> pos ! k \<and> pos ! k + col_size (cs ! k) \<le> fixed_len L \<and> col_align (cs ! k) dvd pos ! k) \<and>
      (\<forall>i j. i < j \<and> j < length cs \<longrightarrow> pos ! i + col_size (cs ! i) \<le> pos ! j))"
  using layout_facts [OF assms(1,2)] unfolding assms(3) .

theorem layout_places_columns_witness:
  "null_bitmap_offset example_layout = 16 \<and> fixed_len example_layout \<le> 65535"
proof -
  have "distinct (map col_name example_columns)" by (simp add: example_columns_def)
  from layout_places_columns [OF example_layout_from this refl] show ?thesis by blast
qed

text \<open>A value of another type is written at its own width: an \<open>i64\<close> put into the column \<open>id\<close> of four
  bytes overwrites the pointer of \<open>name\<close>.\<close>

lemma wrong_type_overwrites:
  "read_field example_layout ''name'' 1 (replicate 40 0) = Some (DString '''') \<and>
   read_field example_layout ''name'' 1 (snd (write_field example_layout ''id'' 0 (replicate 40 0) (DI64 4294967296))) =
     Some (DString [CHR 0x00])"
proof -
  have eight: "8 = Suc (Suc (Suc (Suc (Suc (Suc (Suc (Suc 0)))))))" by simp
  have b: "u64_bytes 4294967296 = [0, 0, 0, 0, 1, 0, 0, 0]" unfolding u64_bytes_def eight le_enc.simps by simp
  have zero: "(replicate 40 (0 :: byte))[16 := 0] = replicate 40 0" by (rule nth_equalityI) (simp_all add: nth_list_update)
  have w: "snd (write_field example_layout ''id'' 0 (replicate 40 0) (DI64 4294967296)) =
      replicate 20 0 @ [0, 0, 0, 0, 1, 0, 0, 0] @ replicate 12 0"
    by (simp add: write_field_def example_layout_def write_typed_def write_le_def put_at_def b zero)
  have c: "utf8_lossy [0] = [0]" "utf8_lossy [] = []"
    by (simp_all add: utf8_lossy_valid ascii_valid)
  have z: "le_dec (replicate 2 (0 :: byte)) = 0" by (simp add: numeral_2_eq_2)
  show ?thesis unfolding w
    by (simp add: read_field_def example_layout_def null_bit_def read_typed_def read_string_def read_le_arr_def get_range_def
        bytes_at_def u16_of_def decode_string_def c bytes_string_def nth_append z Let_def char_of_def)
qed

end
