(* ===== verification/Ast.thy ===== *)
theory Ast
  imports Bound
begin

text \<open>
  \<open>src/src/parser/ast.rs\<close>: parsed statements. A box is its contents and a floating-point literal is
  its bits.
\<close>

datatype ast_join_kind = AInner | ALeftOuter | ARightOuter | AFullOuter | ACross

record ast_column_ref =
  cr_table :: "string option"
  cr_column :: string

datatype ast_expr =
    ALiteral literal
  | AColumn ast_column_ref
  | ABinary ast_expr binary_op ast_expr
  | AUnary unary_op ast_expr
  | AIsNull ast_expr
  | AIsNotNull ast_expr
  | ALike ast_expr ast_expr bool
  | ABetween ast_expr ast_expr ast_expr bool
  | AIn ast_expr "ast_expr list" bool
  | AInSubquery ast_expr select_stmt bool
  | AExists select_stmt bool
  | ASubquery select_stmt
  | AFunction string "ast_expr list" bool
  | ACast ast_expr data_type
  | ACase "ast_expr option" "(ast_expr \<times> ast_expr) list" "ast_expr option"
  | AWildcard
and select_stmt = SelectStmt
    (se_projections: "select_item list") (se_from: "table_ref list") (se_joins: "ast_join list")
    (se_where: "ast_expr option") (se_group_by: "ast_expr list") (se_having: "ast_expr option")
    (se_order_by: "order_by_expr list") (se_limit: "ast_expr option") (se_offset: "ast_expr option")
    (se_distinct: bool)
and select_item = SelectWildcard | SelectQualifiedWildcard string | SelectExpr ast_expr "string option"
and table_ref = NamedTable string "string option" | SubqueryTable select_stmt string
and ast_join = AstJoin (jo_kind: ast_join_kind) (jo_table: table_ref) (jo_condition: ast_join_condition)
and ast_join_condition = AOn ast_expr | AUsing "string list" | ANatural | ANoCondition
and order_by_expr = OrderByExpr (ob_expr: ast_expr) (ob_asc: bool) (ob_nulls_first: "bool option")

record column_def =
  de_name :: string
  de_type :: data_type
  de_nullable :: bool
  de_default :: "ast_expr option"
  de_unique :: bool
  de_primary_key :: bool

record create_table_stmt =
  ctab_name :: string
  ctab_columns :: "column_def list"
  ctab_primary_key :: "string list"
  ctab_foreign_keys :: "foreign_key_clause list"
  ctab_if_not_exists :: bool

record drop_table_stmt =
  dtab_name :: string
  dtab_if_exists :: bool

datatype alter_table_action =
    AlterAddColumn column_def
  | AlterDropColumn string
  | AlterRenameColumn string string
  | AlterRenameTable string
  | AlterTypeOfColumn string data_type
  | AlterAddForeignKey foreign_key_clause
  | AlterDropForeignKey string
  | AlterAddPrimaryKey "string list"
  | AlterDropConstraint string

record alter_table_stmt =
  atab_name :: string
  atab_action :: alter_table_action

datatype insert_source = SourceValues "ast_expr list list" | SourceSelect select_stmt

record insert_stmt =
  inss_table :: string
  inss_columns :: "string list option"
  inss_source :: insert_source

record assignment =
  asg_column :: string
  asg_value :: ast_expr

record update_stmt =
  upds_table :: string
  upds_alias :: "string option"
  upds_assignments :: "assignment list"
  upds_where :: "ast_expr option"

record delete_stmt =
  dels_table :: string
  dels_alias :: "string option"
  dels_where :: "ast_expr option"

record create_index_stmt =
  cidx_name :: string
  cidx_table :: string
  cidx_columns :: "string list"
  cidx_unique :: bool
  cidx_if_not_exists :: bool

record drop_index_stmt =
  didx_name :: string
  didx_table :: string
  didx_if_exists :: bool

text \<open>\<open>IsolationLevel\<close> of \<open>src/src/transaction/mod.rs\<close>, which BEGIN carries.\<close>

datatype isolation_level = IsoReadUncommitted | IsoReadCommitted | IsoRepeatableRead | IsoSnapshot | IsoSerializable

datatype statement =
    BeginTransaction isolation_level
  | Commit
  | Rollback
  | StCreateTable create_table_stmt
  | StDropTable drop_table_stmt
  | StAlterTable alter_table_stmt
  | StInsert insert_stmt
  | StSelect select_stmt
  | StUpdate update_stmt
  | StDelete delete_stmt
  | StCreateIndex create_index_stmt
  | StDropIndex drop_index_stmt
  | StExplain statement

end
