(* ===== verification/CatalogCache.thy ===== *)
theory CatalogCache
  imports Catalog
begin

text \<open>
  \<open>src/src/accessor/catalog_cache.rs\<close> and the error type of \<open>src/src/accessor/accessor.rs\<close>: the
  in-memory catalog, and that it answers as the sequence of registrations it was given says.
\<close>

section \<open>Errors\<close>

datatype 'b accessor_error =
    BufferError 'b
  | TupleNonExistent
  | AlreadyDeleted u64
  | TupleNotVisible u64 u64 u64
  | NotFound string
  | AccessPageCorruption string
  | DuplicateOId u32
  | CapacityExceeded string

section \<open>The cache\<close>

record catalog_cache =
  cc_tables :: "u32 \<rightharpoonup> table"
  cc_tables_by_name :: "string \<rightharpoonup> u32"
  cc_columns :: "u32 \<rightharpoonup> column list"
  cc_indexes :: "u32 \<rightharpoonup> index"
  cc_indexes_by_name :: "string \<rightharpoonup> u32"

definition register_table :: "table \<Rightarrow> catalog_cache \<Rightarrow> ('b accessor_error, catalog_cache) outcome" where
  "register_table t c =
     (if cc_tables c (table_oid t) \<noteq> None then Err (DuplicateOId (table_oid t))
      else Ok (c\<lparr> cc_tables_by_name := (cc_tables_by_name c)(table_name t \<mapsto> table_oid t),
        cc_tables := (cc_tables c)(table_oid t \<mapsto> t) \<rparr>))"

definition register_columns :: "u32 \<Rightarrow> column list \<Rightarrow> catalog_cache \<Rightarrow> catalog_cache" where
  "register_columns oid columns c = c\<lparr> cc_columns := (cc_columns c)(oid \<mapsto> columns) \<rparr>"

definition register_index :: "index \<Rightarrow> catalog_cache \<Rightarrow> ('b accessor_error, catalog_cache) outcome" where
  "register_index i c =
     (if cc_indexes c (index_oid i) \<noteq> None then Err (DuplicateOId (index_oid i))
      else Ok (c\<lparr> cc_indexes_by_name := (cc_indexes_by_name c)(index_name i \<mapsto> index_oid i),
        cc_indexes := (cc_indexes c)(index_oid i \<mapsto> i) \<rparr>))"

definition empty_cache :: catalog_cache where
  "empty_cache = \<lparr> cc_tables = Map.empty, cc_tables_by_name = Map.empty, cc_columns = Map.empty,
     cc_indexes = Map.empty, cc_indexes_by_name = Map.empty \<rparr>"

text \<open>\<open>new\<close> expects the registrations of the system tables to succeed.\<close>

definition cache_new :: "('b accessor_error, catalog_cache) outcome" where
  "cache_new =
     bind_ok (unwrap (register_table SYS_TABLE_TABLES empty_cache :: ('b accessor_error, catalog_cache) outcome)) (\<lambda>c.
     let c1 = register_columns 0 SYS_COLUMNS_TABLES_TABLE c in
     bind_ok (unwrap (register_table SYS_TABLE_COLUMNS c1 :: ('b accessor_error, catalog_cache) outcome)) (\<lambda>c2.
     let c3 = register_columns 1 SYS_COLUMNS_COLUMNS_TABLE c2 in
     bind_ok (unwrap (register_table SYS_TABLE_INDEXES c3 :: ('b accessor_error, catalog_cache) outcome)) (\<lambda>c4.
     Ok (register_columns 2 SYS_COLUMNS_INDEXES_TABLE c4))))"

definition ok_or :: "'e \<Rightarrow> 'a option \<Rightarrow> ('e, 'a) outcome" where
  "ok_or e x = (case x of None \<Rightarrow> Err e | Some a \<Rightarrow> Ok a)"

definition quoted :: "string \<Rightarrow> string" where
  "quoted s = [CHR 0x27] @ s @ [CHR 0x27]"

definition get_table_by_oid :: "catalog_cache \<Rightarrow> u32 \<Rightarrow> ('b accessor_error, table) outcome" where
  "get_table_by_oid c oid = ok_or (NotFound (''table oid '' @ decimal (unat oid))) (cc_tables c oid)"

definition get_table_by_name :: "catalog_cache \<Rightarrow> string \<Rightarrow> ('b accessor_error, table) outcome" where
  "get_table_by_name c name = bind_ok (ok_or (NotFound (''table '' @ quoted name)) (cc_tables_by_name c name)) (get_table_by_oid c)"

definition get_index_by_oid :: "catalog_cache \<Rightarrow> u32 \<Rightarrow> ('b accessor_error, index) outcome" where
  "get_index_by_oid c oid = ok_or (NotFound (''index oid '' @ decimal (unat oid))) (cc_indexes c oid)"

definition get_index_by_name :: "catalog_cache \<Rightarrow> string \<Rightarrow> ('b accessor_error, index) outcome" where
  "get_index_by_name c name = bind_ok (ok_or (NotFound (''index '' @ quoted name)) (cc_indexes_by_name c name)) (get_index_by_oid c)"

definition get_table_columns :: "catalog_cache \<Rightarrow> u32 \<Rightarrow> ('b accessor_error, column list) outcome" where
  "get_table_columns c oid = ok_or (NotFound (''columns for table oid '' @ decimal (unat oid))) (cc_columns c oid)"

lemmas cache_defs = register_table_def register_columns_def register_index_def get_table_by_oid_def get_table_by_name_def
  get_index_by_oid_def get_index_by_name_def get_table_columns_def ok_or_def

section \<open>The catalog as a log\<close>

text \<open>The registrations that took effect, the latest first.\<close>

datatype catalog_entry = TableEntry table "column list" | IndexEntry index

fun log_table_oid :: "catalog_entry list \<Rightarrow> u32 \<Rightarrow> (table \<times> column list) option" where
  "log_table_oid [] oid = None"
| "log_table_oid (TableEntry t cs # es) oid = (if table_oid t = oid then Some (t, cs) else log_table_oid es oid)"
| "log_table_oid (IndexEntry _ # es) oid = log_table_oid es oid"

fun log_table_name :: "catalog_entry list \<Rightarrow> string \<Rightarrow> table option" where
  "log_table_name [] n = None"
| "log_table_name (TableEntry t cs # es) n = (if table_name t = n then Some t else log_table_name es n)"
| "log_table_name (IndexEntry _ # es) n = log_table_name es n"

fun log_index_oid :: "catalog_entry list \<Rightarrow> u32 \<Rightarrow> index option" where
  "log_index_oid [] oid = None"
| "log_index_oid (TableEntry _ _ # es) oid = log_index_oid es oid"
| "log_index_oid (IndexEntry i # es) oid = (if index_oid i = oid then Some i else log_index_oid es oid)"

fun log_index_name :: "catalog_entry list \<Rightarrow> string \<Rightarrow> index option" where
  "log_index_name [] n = None"
| "log_index_name (TableEntry _ _ # es) n = log_index_name es n"
| "log_index_name (IndexEntry i # es) n = (if index_name i = n then Some i else log_index_name es n)"

text \<open>\<open>AccessorImpl::register_table\<close> registers a table with its columns; \<open>register_index\<close> an index.\<close>

definition accessor_register_table :: "table \<Rightarrow> column list \<Rightarrow> catalog_cache \<Rightarrow> ('b accessor_error, catalog_cache) outcome" where
  "accessor_register_table t cs c = bind_ok (register_table t c) (\<lambda>c'. Ok (register_columns (table_oid t) cs c'))"

definition register_entry :: "catalog_entry \<Rightarrow> catalog_cache \<Rightarrow> ('b accessor_error, catalog_cache) outcome" where
  "register_entry e c = (case e of TableEntry t cs \<Rightarrow> accessor_register_table t cs c | IndexEntry i \<Rightarrow> register_index i c)"

definition log_register :: "catalog_entry \<Rightarrow> catalog_entry list \<Rightarrow> catalog_entry list option" where
  "log_register e es = (case e of
       TableEntry t _ \<Rightarrow> if log_table_oid es (table_oid t) = None then Some (e # es) else None
     | IndexEntry i \<Rightarrow> if log_index_oid es (index_oid i) = None then Some (e # es) else None)"

definition entry_oid :: "catalog_entry \<Rightarrow> u32" where
  "entry_oid e = (case e of TableEntry t _ \<Rightarrow> table_oid t | IndexEntry i \<Rightarrow> index_oid i)"

definition cache_log :: "catalog_entry list \<Rightarrow> catalog_cache \<Rightarrow> bool" where
  "cache_log es c \<longleftrightarrow>
     (\<forall>o'. cc_tables c o' = map_option fst (log_table_oid es o') \<and> cc_columns c o' = map_option snd (log_table_oid es o')) \<and>
     (\<forall>n. cc_tables_by_name c n = map_option table_oid (log_table_name es n)) \<and>
     (\<forall>n t. log_table_name es n = Some t \<longrightarrow> map_option fst (log_table_oid es (table_oid t)) = Some t) \<and>
     (\<forall>o'. cc_indexes c o' = log_index_oid es o') \<and>
     (\<forall>n. cc_indexes_by_name c n = map_option index_oid (log_index_name es n)) \<and>
     (\<forall>n i. log_index_name es n = Some i \<longrightarrow> log_index_oid es (index_oid i) = Some i)"

lemma cache_log_register:
  fixes r :: "('b accessor_error, catalog_cache) outcome"
  assumes "cache_log es c" and r: "r = register_entry e c"
  shows "case log_register e es of None \<Rightarrow> r = Err (DuplicateOId (entry_oid e)) | Some es' \<Rightarrow> \<exists>c'. r = Ok c' \<and> cache_log es' c'"
proof (cases e)
  case (TableEntry t cs)
  show ?thesis
  proof (cases "log_table_oid es (table_oid t)")
    case None
    have "register_entry e c = (Ok (register_columns (table_oid t) cs (c\<lparr> cc_tables_by_name := (cc_tables_by_name c)(table_name t \<mapsto> table_oid t),
        cc_tables := (cc_tables c)(table_oid t \<mapsto> t) \<rparr>)) :: ('b accessor_error, catalog_cache) outcome)"
      using None assms(1) by (simp add: register_entry_def accessor_register_table_def register_table_def TableEntry cache_log_def)
    moreover have "cache_log (e # es) (register_columns (table_oid t) cs (c\<lparr> cc_tables_by_name := (cc_tables_by_name c)(table_name t \<mapsto> table_oid t),
        cc_tables := (cc_tables c)(table_oid t \<mapsto> t) \<rparr>))"
      using None assms(1) unfolding cache_log_def TableEntry register_columns_def by auto (metis option.distinct(1))
    ultimately show ?thesis using None r by (simp add: log_register_def TableEntry)
  next
    case (Some p)
    then show ?thesis using assms by (simp add: log_register_def TableEntry register_entry_def accessor_register_table_def
      register_table_def cache_log_def entry_oid_def)
  qed
next
  case (IndexEntry i)
  show ?thesis
  proof (cases "log_index_oid es (index_oid i)")
    case None
    have "register_entry e c = (Ok (c\<lparr> cc_indexes_by_name := (cc_indexes_by_name c)(index_name i \<mapsto> index_oid i),
        cc_indexes := (cc_indexes c)(index_oid i \<mapsto> i) \<rparr>) :: ('b accessor_error, catalog_cache) outcome)"
      using None assms(1) by (simp add: register_entry_def register_index_def IndexEntry cache_log_def)
    moreover have "cache_log (e # es) (c\<lparr> cc_indexes_by_name := (cc_indexes_by_name c)(index_name i \<mapsto> index_oid i),
        cc_indexes := (cc_indexes c)(index_oid i \<mapsto> i) \<rparr>)"
      using None assms(1) unfolding cache_log_def IndexEntry by auto
    ultimately show ?thesis using None r by (simp add: log_register_def IndexEntry)
  next
    case (Some p)
    then show ?thesis using assms by (simp add: log_register_def IndexEntry register_entry_def register_index_def cache_log_def entry_oid_def)
  qed
qed

definition register_or_keep :: "catalog_entry \<Rightarrow> catalog_cache \<Rightarrow> catalog_cache" where
  "register_or_keep e c = (case (register_entry e c :: (unit accessor_error, catalog_cache) outcome) of Ok c' \<Rightarrow> c' | _ \<Rightarrow> c)"

definition log_or_keep :: "catalog_entry \<Rightarrow> catalog_entry list \<Rightarrow> catalog_entry list" where
  "log_or_keep e es = (case log_register e es of None \<Rightarrow> es | Some es' \<Rightarrow> es')"

definition system_log :: "catalog_entry list" where
  "system_log = [TableEntry SYS_TABLE_INDEXES SYS_COLUMNS_INDEXES_TABLE, TableEntry SYS_TABLE_COLUMNS SYS_COLUMNS_COLUMNS_TABLE,
     TableEntry SYS_TABLE_TABLES SYS_COLUMNS_TABLES_TABLE]"

lemma cache_new_log: "\<exists>c. cache_new = Ok c \<and> cache_log system_log c"
proof -
  have names: "table_name SYS_TABLE_TABLES = ''sys_tables''" "table_name SYS_TABLE_COLUMNS = ''sys_columns''"
    "table_name SYS_TABLE_INDEXES = ''sys_indexes''" "table_oid SYS_TABLE_TABLES = 0" "table_oid SYS_TABLE_COLUMNS = 1"
    "table_oid SYS_TABLE_INDEXES = 2"
    by (simp_all add: SYS_TABLE_TABLES_def SYS_TABLE_COLUMNS_def SYS_TABLE_INDEXES_def)
  show ?thesis
    by (simp add: cache_new_def register_table_def empty_cache_def register_columns_def Let_def names cache_log_def system_log_def)
qed

lemma cache_log_keep: "cache_log es c \<Longrightarrow> cache_log (log_or_keep e es) (register_or_keep e c)"
  using cache_log_register [of es c "register_entry e c :: (unit accessor_error, catalog_cache) outcome" e]
  by (auto simp: register_or_keep_def log_or_keep_def split: option.splits)

lemma cache_log_fold: "cache_log es c \<Longrightarrow> cache_log (fold log_or_keep rs es) (fold register_or_keep rs c)"
  by (induction rs arbitrary: es c) (simp_all add: cache_log_keep)

lemma cache_log_lookups:
  assumes "cache_log es c"
  shows "get_table_by_oid c oid = (case log_table_oid es oid of Some (t, cs) \<Rightarrow> Ok t | None \<Rightarrow> Err (NotFound (''table oid '' @ decimal (unat oid))))"
    "get_table_columns c oid = (case log_table_oid es oid of Some (t, cs) \<Rightarrow> Ok cs | None \<Rightarrow> Err (NotFound (''columns for table oid '' @ decimal (unat oid))))"
    "get_table_by_name c n = (case log_table_name es n of Some t \<Rightarrow> Ok t | None \<Rightarrow> Err (NotFound (''table '' @ quoted n)))"
    "get_index_by_oid c oid = (case log_index_oid es oid of Some i \<Rightarrow> Ok i | None \<Rightarrow> Err (NotFound (''index oid '' @ decimal (unat oid))))"
    "get_index_by_name c n = (case log_index_name es n of Some i \<Rightarrow> Ok i | None \<Rightarrow> Err (NotFound (''index '' @ quoted n)))"
proof -
  show "get_table_by_oid c oid = (case log_table_oid es oid of Some (t, cs) \<Rightarrow> Ok t | None \<Rightarrow> Err (NotFound (''table oid '' @ decimal (unat oid))))"
    "get_table_columns c oid = (case log_table_oid es oid of Some (t, cs) \<Rightarrow> Ok cs | None \<Rightarrow> Err (NotFound (''columns for table oid '' @ decimal (unat oid))))"
    "get_index_by_oid c oid = (case log_index_oid es oid of Some i \<Rightarrow> Ok i | None \<Rightarrow> Err (NotFound (''index oid '' @ decimal (unat oid))))"
    using assms by (auto simp: cache_log_def cache_defs split: option.split)
  show "get_table_by_name c n = (case log_table_name es n of Some t \<Rightarrow> Ok t | None \<Rightarrow> Err (NotFound (''table '' @ quoted n)))"
  proof (cases "log_table_name es n")
    case (Some t)
    then obtain cs where "log_table_oid es (table_oid t) = Some (t, cs)" using assms unfolding cache_log_def by fastforce
    then show ?thesis using Some assms by (simp add: cache_log_def cache_defs)
  qed (use assms in \<open>simp add: cache_log_def cache_defs\<close>)
  show "get_index_by_name c n = (case log_index_name es n of Some i \<Rightarrow> Ok i | None \<Rightarrow> Err (NotFound (''index '' @ quoted n)))"
  proof (cases "log_index_name es n")
    case (Some i)
    then have "log_index_oid es (index_oid i) = Some i" using assms unfolding cache_log_def by blast
    then show ?thesis using Some assms by (simp add: cache_log_def cache_defs)
  qed (use assms in \<open>simp add: cache_log_def cache_defs\<close>)
qed

text \<open>C29: the catalog is created without a panic, and after any sequence of registrations it answers as the
  log of those that took effect: a registration takes effect when its object id is new among the tables or
  the indexes, an id finds the entry registered with it, its columns included, and a name finds the entry
  registered last with that name, so every name that is found leads to an entry of that name.\<close>

theorem catalog_serves_log:
  "\<exists>c0. (cache_new :: (unit accessor_error, catalog_cache) outcome) = Ok c0 \<and>
    (let c = fold register_or_keep rs c0; es = fold log_or_keep rs system_log in
      (register_entry e c :: (unit accessor_error, catalog_cache) outcome) = (case log_register e es of None \<Rightarrow> Err (DuplicateOId (entry_oid e)) | Some _ \<Rightarrow> Ok (register_or_keep e c)) \<and>
      get_table_by_oid c oid = (case log_table_oid es oid of Some (t, cs) \<Rightarrow> Ok t | None \<Rightarrow> Err (NotFound (''table oid '' @ decimal (unat oid)))) \<and>
      get_table_columns c oid = (case log_table_oid es oid of Some (t, cs) \<Rightarrow> Ok cs | None \<Rightarrow> Err (NotFound (''columns for table oid '' @ decimal (unat oid)))) \<and>
      get_table_by_name c n = (case log_table_name es n of Some t \<Rightarrow> Ok t | None \<Rightarrow> Err (NotFound (''table '' @ quoted n))) \<and>
      get_index_by_oid c oid = (case log_index_oid es oid of Some i \<Rightarrow> Ok i | None \<Rightarrow> Err (NotFound (''index oid '' @ decimal (unat oid)))) \<and>
      get_index_by_name c n = (case log_index_name es n of Some i \<Rightarrow> Ok i | None \<Rightarrow> Err (NotFound (''index '' @ quoted n))))"
proof -
  obtain c0 where c0: "(cache_new :: (unit accessor_error, catalog_cache) outcome) = Ok c0" "cache_log system_log c0" using cache_new_log by blast
  let ?c = "fold register_or_keep rs c0" and ?es = "fold log_or_keep rs system_log"
  have l: "cache_log ?es ?c" using c0(2) by (rule cache_log_fold)
  have "(register_entry e ?c :: (unit accessor_error, catalog_cache) outcome) = (case log_register e ?es of None \<Rightarrow> Err (DuplicateOId (entry_oid e)) | Some _ \<Rightarrow> Ok (register_or_keep e ?c))"
    using cache_log_register [OF l refl, of e] by (auto simp: register_or_keep_def split: option.splits)
  then show ?thesis unfolding Let_def
    by (intro exI [of _ c0] conjI c0(1) cache_log_lookups [OF l])
qed

end
