(* ===== verification/Binder.thy ===== *)
theory Binder
  imports Ast CatalogCache
begin

text \<open>
  \<open>src/src/binder\<close>: scopes and the binder, which resolves the names of a parsed statement. The
  catalog the binder asks, the Unicode lower-casing of the standard library and the allocator of object
  ids (an interface without an implementation in the repository) are arguments.
\<close>

section \<open>Scopes\<close>

text \<open>\<open>str::eq_ignore_ascii_case\<close>.\<close>

definition ascii_lower :: "char \<Rightarrow> char" where
  "ascii_lower c = (let n = of_char c :: nat in if 65 \<le> n \<and> n \<le> 90 then char_of (n + 32) else c)"

definition eq_ignore_case :: "string \<Rightarrow> string \<Rightarrow> bool" where
  "eq_ignore_case s t = (map ascii_lower s = map ascii_lower t)"

record scope_column =
  sc_qualifier :: "string option"
  sc_name :: string
  sc_type :: data_type
  sc_nullable :: bool
  sc_index :: nat
  sc_catalog :: "column option"

type_synonym scope = "scope_column list"

datatype 'b bind_error =
    UnknownTable string
  | UnknownColumn string
  | AmbiguousColumn string
  | DuplicateName string
  | TypeMismatch data_type data_type string
  | Unsupported string
  | CatalogError "'b accessor_error"
  | InvalidDefault string
  | AggregateNotAllowed string
  | NonGroupedColumn string
  | SubqueryTooManyColumns
  | MultiColumnIndexUnsupported
  | TableAlreadyExists string
  | IndexAlreadyExists string
  | ColumnCountMismatch nat nat
  | NoColumnsInIndex

fun add_table :: "string option \<Rightarrow> column list \<Rightarrow> bool \<Rightarrow> scope \<Rightarrow> scope" where
  "add_table q [] nullable sc = sc"
| "add_table q (col # columns) nullable sc = add_table q columns nullable
     (sc @ [\<lparr> sc_qualifier = q, sc_name = col_name col, sc_type = col_type col, sc_nullable = col_nullable col \<or> nullable,
       sc_index = length sc, sc_catalog = Some col \<rparr>])"

definition add_derived :: "string \<Rightarrow> data_type \<Rightarrow> bool \<Rightarrow> scope \<Rightarrow> scope" where
  "add_derived name dtype nullable sc =
     sc @ [\<lparr> sc_qualifier = None, sc_name = name, sc_type = dtype, sc_nullable = nullable, sc_index = length sc, sc_catalog = None \<rparr>]"

definition qualifier_matches :: "string \<Rightarrow> scope_column \<Rightarrow> bool" where
  "qualifier_matches q c = (case sc_qualifier c of None \<Rightarrow> False | Some sq \<Rightarrow> eq_ignore_case sq q)"

definition resolve :: "scope \<Rightarrow> string option \<Rightarrow> string \<Rightarrow> ('b bind_error, scope_column) outcome" where
  "resolve sc q name =
     (let matches = filter (\<lambda>c. eq_ignore_case (sc_name c) name \<and> (case q of None \<Rightarrow> True | Some q' \<Rightarrow> qualifier_matches q' c)) sc
      in case matches of
          [c] \<Rightarrow> Ok c
        | [] \<Rightarrow> Err (UnknownColumn (case q of Some q' \<Rightarrow> q' @ ''.'' @ name | None \<Rightarrow> name))
        | _ \<Rightarrow> Err (AmbiguousColumn name))"

definition all_columns_for_qualifier :: "scope \<Rightarrow> string \<Rightarrow> scope_column list" where
  "all_columns_for_qualifier sc q = filter (qualifier_matches q) sc"

section \<open>Types of expressions\<close>

text \<open>The binder's own classification of types; \<open>u64\<close> is not in it.\<close>

definition bnd_is_integer :: "data_type \<Rightarrow> bool" where
  "bnd_is_integer t = (t \<in> {TI8, TI16, TI32, TI64, TU8, TU16, TU32})"

definition bnd_is_numeric :: "data_type \<Rightarrow> bool" where
  "bnd_is_numeric t = (t \<in> {TI8, TI16, TI32, TI64, TU8, TU16, TU32, TF32, TF64})"

fun numeric_rank :: "data_type \<Rightarrow> nat" where
  "numeric_rank t = (case t of TI8 \<Rightarrow> 1 | TU8 \<Rightarrow> 1 | TI16 \<Rightarrow> 2 | TU16 \<Rightarrow> 2 | TI32 \<Rightarrow> 3 | TU32 \<Rightarrow> 3
     | TI64 \<Rightarrow> 4 | TF32 \<Rightarrow> 5 | TF64 \<Rightarrow> 6 | _ \<Rightarrow> 0)"

definition wider_numeric :: "data_type \<Rightarrow> data_type \<Rightarrow> data_type option" where
  "wider_numeric a b = (if \<not> bnd_is_numeric a \<or> \<not> bnd_is_numeric b then None
     else if numeric_rank b \<le> numeric_rank a then Some a else Some b)"

text \<open>\<open>{op:?}\<close>.\<close>

fun binary_op_name :: "binary_op \<Rightarrow> string" where
  "binary_op_name op = (case op of Add \<Rightarrow> ''Add'' | Sub \<Rightarrow> ''Sub'' | Mul \<Rightarrow> ''Mul'' | Div \<Rightarrow> ''Div'' | Mod \<Rightarrow> ''Mod''
     | Eq \<Rightarrow> ''Eq'' | NotEq \<Rightarrow> ''NotEq'' | Lt \<Rightarrow> ''Lt'' | LtEq \<Rightarrow> ''LtEq'' | Gt \<Rightarrow> ''Gt'' | GtEq \<Rightarrow> ''GtEq''
     | And \<Rightarrow> ''And'' | Or \<Rightarrow> ''Or'' | Concat \<Rightarrow> ''Concat'')"

definition infer_binary_type :: "binary_op \<Rightarrow> bound_expr \<Rightarrow> bound_expr \<Rightarrow> ('b bind_error, data_type \<times> bool) outcome" where
  "infer_binary_type op left right =
     (let nullable = be_nullable left \<or> be_nullable right
      in if op \<in> {Eq, NotEq, Lt, LtEq, Gt, GtEq, And, Or} then Ok (TBool, nullable)
         else if op = Concat then Ok (TString, nullable)
         else (case wider_numeric (be_type left) (be_type right) of
             None \<Rightarrow> Err (TypeMismatch (be_type left) (be_type right) (binary_op_name op))
           | Some t \<Rightarrow> Ok (t, nullable)))"

definition first_type :: "data_type \<Rightarrow> bound_expr list \<Rightarrow> data_type" where
  "first_type dflt args = (case args of [] \<Rightarrow> dflt | a # _ \<Rightarrow> be_type a)"

fun infer_function_type :: "function_kind \<Rightarrow> bound_expr list \<Rightarrow> data_type \<times> bool" where
  "infer_function_type k args = (case k of
       Count \<Rightarrow> (TI64, False)
     | Sum \<Rightarrow> (if bnd_is_integer (first_type TF64 args) then TI64 else TF64, True)
     | Avg \<Rightarrow> (if bnd_is_integer (first_type TF64 args) then TI64 else TF64, True)
     | Min \<Rightarrow> (first_type TI64 args, True)
     | Max \<Rightarrow> (first_type TI64 args, True)
     | Upper \<Rightarrow> (TString, True)
     | Lower \<Rightarrow> (TString, True)
     | function_kind.Length \<Rightarrow> (TI64, True)
     | function_kind.Abs \<Rightarrow> (first_type TI64 args, True)
     | Coalesce \<Rightarrow> (first_type TString args, list_all be_nullable args)
     | Nullif \<Rightarrow> (first_type TString args, True)
     | Unknown \<Rightarrow> (TString, True))"

fun bind_literal :: "literal \<Rightarrow> bound_expr" where
  "bind_literal l = (case l of
       LInteger n \<Rightarrow> BoundExpr (ELiteral l) TI64 False
     | LFloat f \<Rightarrow> BoundExpr (ELiteral l) TF64 False
     | LString s \<Rightarrow> BoundExpr (ELiteral l) TString False
     | LBool b \<Rightarrow> BoundExpr (ELiteral l) TBool False
     | LNull \<Rightarrow> BoundExpr (ELiteral l) TString True)"

text \<open>The bound reference to a column of the scope.\<close>

definition column_expr :: "scope_column \<Rightarrow> bound_expr" where
  "column_expr c = BoundExpr (EColumn \<lparr> qualifier = sc_qualifier c, column_name = sc_name c, scope_index = sc_index c \<rparr>)
     (sc_type c) (sc_nullable c)"

fun translate_join_kind :: "ast_join_kind \<Rightarrow> join_kind" where
  "translate_join_kind AInner = Inner"
| "translate_join_kind ALeftOuter = LeftOuter"
| "translate_join_kind ARightOuter = RightOuter"
| "translate_join_kind AFullOuter = FullOuter"
| "translate_join_kind ACross = Cross"

fun infer_alias :: "ast_expr \<Rightarrow> string" where
  "infer_alias (AColumn c) = cr_column c"
| "infer_alias (AFunction name _ _) = name"
| "infer_alias _ = ''?column?''"

section \<open>The catalog the binder asks\<close>

record 'b binder_env =
  table_by_name :: "string \<Rightarrow> ('b accessor_error, table) outcome"
  index_by_name :: "string \<Rightarrow> ('b accessor_error, index) outcome"
  table_columns :: "u32 \<Rightarrow> ('b accessor_error, column list) outcome"
  to_lowercase :: "string \<Rightarrow> string"

definition find_table :: "'b binder_env \<Rightarrow> string \<Rightarrow> ('b bind_error, table) outcome" where
  "find_table env name = map_err (\<lambda>_. UnknownTable name) (table_by_name env name)"

definition find_columns :: "'b binder_env \<Rightarrow> table \<Rightarrow> ('b bind_error, column list) outcome" where
  "find_columns env t = map_err CatalogError (table_columns env (table_oid t))"

definition sorted_columns :: "'b binder_env \<Rightarrow> table \<Rightarrow> ('b bind_error, column list) outcome" where
  "sorted_columns env t = bind_ok (find_columns env t) (\<lambda>cs. Ok (sort_key col_position cs))"

definition column_named :: "column list \<Rightarrow> string \<Rightarrow> ('b bind_error, column) outcome" where
  "column_named cs name = ok_or (UnknownColumn name) (List.find (\<lambda>c. eq_ignore_case (col_name c) name) cs)"

section \<open>Joins\<close>

definition add_table_ref_to_scope :: "bound_table_ref \<Rightarrow> bool \<Rightarrow> scope \<Rightarrow> scope" where
  "add_table_ref_to_scope t nullable sc = (case t of
       BaseTable tab columns alias \<Rightarrow> add_table (Some (case alias of Some a \<Rightarrow> a | None \<Rightarrow> table_name tab)) columns nullable sc
     | SubqueryRef query alias \<Rightarrow> fold (\<lambda>c sc.
         let sc' = add_derived (oc_name c) (oc_type c) (oc_nullable c \<or> nullable) sc; idx = length sc' - 1
         in sc'[idx := (sc' ! idx)\<lparr> sc_qualifier := Some alias \<rparr>]) (bs_output query) sc)"

definition equality :: "scope_column \<Rightarrow> scope_column \<Rightarrow> bound_expr" where
  "equality l r = BoundExpr (EBinary (column_expr l) Eq (column_expr r)) TBool False"

text \<open>The last column of the scope with a name.\<close>

definition last_named :: "scope \<Rightarrow> string \<Rightarrow> scope_column option" where
  "last_named sc name = (let m = filter (\<lambda>c. eq_ignore_case (sc_name c) name) sc in if m = [] then None else Some (last m))"

definition using_pair :: "scope \<Rightarrow> string \<Rightarrow> ('b bind_error, bound_expr) outcome" where
  "using_pair sc name = bind_ok (resolve sc None name) (\<lambda>left.
     bind_ok (ok_or (UnknownColumn name) (last_named sc name)) (\<lambda>right. Ok (equality left right)))"

definition right_names :: "'b binder_env \<Rightarrow> bound_table_ref \<Rightarrow> string list" where
  "right_names env t = (case t of
       BaseTable _ columns _ \<Rightarrow> map (to_lowercase env \<circ> col_name) columns
     | SubqueryRef query _ \<Rightarrow> map (to_lowercase env \<circ> oc_name) (bs_output query))"

fun natural_pairs :: "scope \<Rightarrow> string list \<Rightarrow> ('b bind_error, bound_expr list) outcome" where
  "natural_pairs sc [] = Ok []"
| "natural_pairs sc (name # names) = (case (resolve sc None name :: ('b bind_error, scope_column) outcome) of
       Ok left \<Rightarrow> (case last_named sc name of
           None \<Rightarrow> Panic
         | Some right \<Rightarrow> bind_ok (natural_pairs sc names) (\<lambda>es. Ok (equality left right # es)))
     | _ \<Rightarrow> natural_pairs sc names)"

section \<open>Expressions and queries\<close>

definition opt_ok :: "('a \<Rightarrow> ('e, 'c) outcome) \<Rightarrow> 'a option \<Rightarrow> ('e, 'c option) outcome" where
  "opt_ok f x = (case x of None \<Rightarrow> Ok None | Some a \<Rightarrow> bind_ok (f a) (\<lambda>b. Ok (Some b)))"

lemma traverse_cong [fundef_cong]:
  "xs = ys \<Longrightarrow> (\<And>x. x \<in> set ys \<Longrightarrow> f x = g x) \<Longrightarrow> traverse f xs = traverse g ys"
  by (induction xs arbitrary: ys) auto

lemma opt_ok_cong [fundef_cong]:
  "x = y \<Longrightarrow> (\<And>a. y = Some a \<Longrightarrow> f a = g a) \<Longrightarrow> opt_ok f x = opt_ok g y"
  by (auto simp: opt_ok_def split: option.split)

text \<open>What a wildcard stands for: one projection for each column.\<close>

definition wildcard_items :: "scope_column list \<Rightarrow> bound_select_item list" where
  "wildcard_items cs = map (\<lambda>c. BoundSelectItem (column_expr c) (sc_name c)) cs"

text \<open>The positions and aliases of ORDER BY; \<open>None\<close> for an expression that is bound as usual.\<close>

definition order_by_alias :: "bound_select_item list \<Rightarrow> ast_expr \<Rightarrow> ('b bind_error, bound_expr option) outcome" where
  "order_by_alias projections e = (case e of
       ALiteral (LInteger n) \<Rightarrow>
         (let idx = unat (n - 1)
          in if idx < length projections then Ok (Some (bi_expr (projections ! idx)))
             else Err (Unsupported (''ORDER BY position '' @ (if sint n < 0 then ''-'' @ decimal (nat (- sint n)) else decimal (nat (sint n))) @ '' out of range'')))
     | AColumn c \<Rightarrow>
         if cr_table c = None
         then Ok (map_option bi_expr (List.find (\<lambda>p. eq_ignore_case (bi_alias p) (cr_column c)) projections))
         else Ok None
     | _ \<Rightarrow> Ok None)"

definition wildcard_error :: "'b bind_error" where
  "wildcard_error = Unsupported ''wildcard (*) is only valid in SELECT or COUNT(*)''"

text \<open>The type and nullability of a CASE.\<close>

definition case_type :: "(bound_expr \<times> bound_expr) list \<Rightarrow> bound_expr option \<Rightarrow> data_type" where
  "case_type when_then else_result = (case when_then of
       (_, t) # _ \<Rightarrow> be_type t
     | [] \<Rightarrow> (case else_result of Some e \<Rightarrow> be_type e | None \<Rightarrow> TString))"

definition case_nullable :: "(bound_expr \<times> bound_expr) list \<Rightarrow> bound_expr option \<Rightarrow> bool" where
  "case_nullable when_then else_result \<longleftrightarrow> else_result = None \<or> list_ex (\<lambda>(_, t). be_nullable t) when_then \<or>
     (case else_result of Some e \<Rightarrow> be_nullable e | None \<Rightarrow> False)"

fun bind_expr :: "'b binder_env \<Rightarrow> scope \<Rightarrow> ast_expr \<Rightarrow> ('b bind_error, bound_expr) outcome"
and bind_select :: "'b binder_env \<Rightarrow> select_stmt \<Rightarrow> ('b bind_error, bound_select) outcome"
and bind_from :: "'b binder_env \<Rightarrow> scope \<Rightarrow> table_ref list \<Rightarrow> ('b bind_error, scope \<times> bound_table_ref list) outcome"
and bind_table_ref :: "'b binder_env \<Rightarrow> table_ref \<Rightarrow> ('b bind_error, bound_table_ref) outcome"
and bind_joins :: "'b binder_env \<Rightarrow> scope \<Rightarrow> ast_join list \<Rightarrow> ('b bind_error, scope \<times> bound_join list) outcome"
and bind_join_condition :: "'b binder_env \<Rightarrow> scope \<Rightarrow> bound_table_ref \<Rightarrow> ast_join_condition \<Rightarrow> ('b bind_error, join_condition) outcome"
and bind_item :: "'b binder_env \<Rightarrow> scope \<Rightarrow> select_item \<Rightarrow> ('b bind_error, bound_select_item list) outcome"
and bind_order_by :: "'b binder_env \<Rightarrow> scope \<Rightarrow> bound_select_item list \<Rightarrow> order_by_expr \<Rightarrow> ('b bind_error, bound_order_by) outcome"
where
  "bind_expr env sc (ALiteral l) = Ok (bind_literal l)"
| "bind_expr env sc (AColumn c) = bind_ok (resolve sc (cr_table c) (cr_column c)) (\<lambda>col. Ok (column_expr col))"
| "bind_expr env sc (ABinary left op right) =
     bind_ok (bind_expr env sc left) (\<lambda>l. bind_ok (bind_expr env sc right) (\<lambda>r.
     bind_ok (infer_binary_type op l r) (\<lambda>(t, n). Ok (BoundExpr (EBinary l op r) t n))))"
| "bind_expr env sc (AUnary op e) = bind_ok (bind_expr env sc e) (\<lambda>inner.
     if op = Neg \<and> \<not> bnd_is_numeric (be_type inner) then Err (TypeMismatch TI64 (be_type inner) ''unary minus'')
     else Ok (BoundExpr (EUnary op inner) (if op = Neg then be_type inner else TBool) (be_nullable inner)))"
| "bind_expr env sc (AIsNull e) = bind_ok (bind_expr env sc e) (\<lambda>b. Ok (BoundExpr (EIsNull b) TBool False))"
| "bind_expr env sc (AIsNotNull e) = bind_ok (bind_expr env sc e) (\<lambda>b. Ok (BoundExpr (EIsNotNull b) TBool False))"
| "bind_expr env sc (ALike e p neg) = bind_ok (bind_expr env sc e) (\<lambda>b. bind_ok (bind_expr env sc p) (\<lambda>bp.
     Ok (BoundExpr (ELike b bp neg) TBool False)))"
| "bind_expr env sc (ABetween e low high neg) = bind_ok (bind_expr env sc e) (\<lambda>b. bind_ok (bind_expr env sc low) (\<lambda>bl.
     bind_ok (bind_expr env sc high) (\<lambda>bh. Ok (BoundExpr (EBetween b bl bh neg) TBool False))))"
| "bind_expr env sc (AIn e es neg) = bind_ok (bind_expr env sc e) (\<lambda>b. bind_ok (traverse (\<lambda>x. bind_expr env sc x) es) (\<lambda>bs.
     Ok (BoundExpr (EIn b bs neg) TBool False)))"
| "bind_expr env sc (AInSubquery e q neg) = bind_ok (bind_expr env sc e) (\<lambda>b. bind_ok (bind_select env q) (\<lambda>s.
     if length (bs_output s) \<noteq> 1 then Err SubqueryTooManyColumns else Ok (BoundExpr (EInSubquery b s neg) TBool False)))"
| "bind_expr env sc (AExists q neg) = bind_ok (bind_select env q) (\<lambda>s. Ok (BoundExpr (EExists s neg) TBool False))"
| "bind_expr env sc (ASubquery q) = bind_ok (bind_select env q) (\<lambda>s.
     if length (bs_output s) \<noteq> 1 then Err SubqueryTooManyColumns
     else Ok (BoundExpr (ESubquery s) (oc_type (bs_output s ! 0)) (oc_nullable (bs_output s ! 0))))"
| "bind_expr env sc (AFunction name args d) =
     bind_ok (traverse (\<lambda>a. if a = AWildcard then Ok (BoundExpr (ELiteral (LInteger 1)) TI64 False) else bind_expr env sc a) args) (\<lambda>bs.
     case infer_function_type (function_kind_from name) bs of (t, n) \<Rightarrow>
     Ok (BoundExpr (EFunction name (function_kind_from name) bs d) t n))"
| "bind_expr env sc (ACast e t) = bind_ok (bind_expr env sc e) (\<lambda>inner. Ok (BoundExpr (ECast inner t) t (be_nullable inner)))"
| "bind_expr env sc (ACase operand when_then else_result) =
     bind_ok (opt_ok (\<lambda>x. bind_expr env sc x) operand) (\<lambda>bo.
     bind_ok (traverse (\<lambda>(w, t). bind_ok (bind_expr env sc w) (\<lambda>bw. bind_ok (bind_expr env sc t) (\<lambda>bt. Ok (bw, bt)))) when_then) (\<lambda>bwt.
     bind_ok (opt_ok (\<lambda>x. bind_expr env sc x) else_result) (\<lambda>be.
     Ok (BoundExpr (ECase bo bwt be) (case_type bwt be) (case_nullable bwt be)))))"
| "bind_expr env sc AWildcard = Err wildcard_error"
| "bind_select env (SelectStmt projections tables joins wh group_by having order_by limit offset dist) =
     bind_ok (bind_from env [] tables) (\<lambda>(sc0, bound_from).
     bind_ok (bind_joins env sc0 joins) (\<lambda>(sc, bound_joins).
     bind_ok (opt_ok (\<lambda>x. bind_expr env sc x) wh) (\<lambda>where_clause.
     bind_ok (traverse (\<lambda>x. bind_expr env sc x) group_by) (\<lambda>bound_group.
     bind_ok (opt_ok (\<lambda>x. bind_expr env sc x) having) (\<lambda>bound_having.
     bind_ok (traverse (\<lambda>x. bind_item env sc x) projections) (\<lambda>items.
     let projs = concat items in
     bind_ok (traverse (\<lambda>x. bind_order_by env sc projs x) order_by) (\<lambda>bound_order.
     bind_ok (opt_ok (\<lambda>x. bind_expr env sc x) limit) (\<lambda>bound_limit.
     bind_ok (opt_ok (\<lambda>x. bind_expr env sc x) offset) (\<lambda>bound_offset.
     Ok (BoundSelect projs bound_from bound_joins where_clause bound_group bound_having bound_order bound_limit bound_offset dist
       (map (\<lambda>p. \<lparr> oc_name = bi_alias p, oc_type = be_type (bi_expr p), oc_nullable = be_nullable (bi_expr p) \<rparr>) projs)))))))))))"
| "bind_from env sc [] = Ok (sc, [])"
| "bind_from env sc (t # ts) = bind_ok (bind_table_ref env t) (\<lambda>b.
     bind_ok (bind_from env (add_table_ref_to_scope b False sc) ts) (\<lambda>(sc', bs). Ok (sc', b # bs)))"
| "bind_table_ref env (NamedTable name alias) = bind_ok (find_table env name) (\<lambda>t.
     bind_ok (sorted_columns env t) (\<lambda>cs. Ok (BaseTable t cs alias)))"
| "bind_table_ref env (SubqueryTable q alias) = bind_ok (bind_select env q) (\<lambda>s. Ok (SubqueryRef s alias))"
| "bind_joins env sc [] = Ok (sc, [])"
| "bind_joins env sc (AstJoin kind t condition # js) = bind_ok (bind_table_ref env t) (\<lambda>b.
     let sc' = add_table_ref_to_scope b (kind = ALeftOuter \<or> kind = AFullOuter \<or> kind = ARightOuter) sc in
     bind_ok (bind_join_condition env sc' b condition) (\<lambda>c.
     bind_ok (bind_joins env sc' js) (\<lambda>(sc'', bs). Ok (sc'', BoundJoin (translate_join_kind kind) b c # bs))))"
| "bind_join_condition env sc right (AOn e) = bind_ok (bind_expr env sc e) (\<lambda>b. Ok (On b))"
| "bind_join_condition env sc right (AUsing names) = bind_ok (traverse (using_pair sc) names) (\<lambda>es. Ok (Using es))"
| "bind_join_condition env sc right ANatural = bind_ok (natural_pairs sc (right_names env right)) (\<lambda>es. Ok (Natural es))"
| "bind_join_condition env sc right ANoCondition = Ok NoCondition"
| "bind_item env sc SelectWildcard = Ok (wildcard_items sc)"
| "bind_item env sc (SelectQualifiedWildcard q) =
     (let cols = all_columns_for_qualifier sc q in if cols = [] then Err (UnknownTable q) else Ok (wildcard_items cols))"
| "bind_item env sc (SelectExpr e alias) = bind_ok (bind_expr env sc e) (\<lambda>b.
     Ok [BoundSelectItem b (case alias of Some a \<Rightarrow> a | None \<Rightarrow> infer_alias e)])"
| "bind_order_by env sc projections (OrderByExpr e asc nulls_first) =
     bind_ok (bind_ok (order_by_alias projections e) (\<lambda>found. case found of Some b \<Rightarrow> Ok b | None \<Rightarrow> bind_expr env sc e)) (\<lambda>b.
     Ok (BoundOrderBy b asc nulls_first))"

section \<open>Statements\<close>

text \<open>The allocator of object and file ids: an interface (\<open>OidAllocator\<close>).\<close>

record 'o oid_ops =
  oid_next :: "'o \<Rightarrow> u32 \<times> 'o"
  oid_next_file :: "'o \<Rightarrow> u32 \<times> 'o"

definition alloc_id :: "('o \<Rightarrow> u32 \<times> 'o) \<Rightarrow> ('o, 'e, u32) prog" where
  "alloc_id f s = (case f s of (i, s') \<Rightarrow> Some (Ok i, s'))"

definition bind_default_expr :: "'b binder_env \<Rightarrow> ast_expr \<Rightarrow> ('b bind_error, bound_expr) outcome" where
  "bind_default_expr env e = (case e of
       AColumn _ \<Rightarrow> Err (InvalidDefault ''default value cannot reference a column'')
     | AFunction name _ _ \<Rightarrow>
         if is_aggregate (function_kind_from name) then Err (InvalidDefault ''default value cannot contain an aggregate function'')
         else bind_expr env [] e
     | _ \<Rightarrow> bind_expr env [] e)"

definition coerce_expr :: "bound_expr \<Rightarrow> data_type \<Rightarrow> string \<Rightarrow> ('b bind_error, bound_expr) outcome" where
  "coerce_expr e target context_name =
     (if be_type e = target then Ok e
      else if be_kind e = ELiteral LNull then Ok (BoundExpr (be_kind e) target (be_nullable e))
      else if bnd_is_numeric (be_type e) \<and> bnd_is_numeric target \<and> numeric_rank (be_type e) \<le> numeric_rank target
      then Ok (BoundExpr (ECast e target) target (be_nullable e))
      else Err (TypeMismatch target (be_type e) context_name))"

definition expect_bool_or_numeric :: "bound_expr \<Rightarrow> string \<Rightarrow> ('b bind_error, unit) outcome" where
  "expect_bool_or_numeric e context_name =
     (if be_type e = TBool \<or> bnd_is_numeric (be_type e) then Ok () else Err (TypeMismatch TBool (be_type e) context_name))"

text \<open>The first column whose lower-cased name was seen before.\<close>

fun first_duplicate :: "'b binder_env \<Rightarrow> string set \<Rightarrow> column_def list \<Rightarrow> string option" where
  "first_duplicate env seen [] = None"
| "first_duplicate env seen (c # cs) =
     (let lower = to_lowercase env (de_name c)
      in if lower \<in> seen then Some (de_name c) else first_duplicate env (insert lower seen) cs)"

definition bind_column_def :: "'b binder_env \<Rightarrow> 'o oid_ops \<Rightarrow> nat \<Rightarrow> column_def \<Rightarrow> ('o, 'b bind_error, bound_column_def) prog" where
  "bind_column_def env ids pos c = pbind (lift (opt_ok (bind_default_expr env) (de_default c))) (\<lambda>dflt.
     pbind (alloc_id (oid_next ids)) (\<lambda>oid.
     ret \<lparr> cd_oid = oid, cd_name = de_name c, cd_type = de_type c, cd_position = word_of_nat pos, cd_nullable = de_nullable c,
       cd_default = dflt, cd_unique = de_unique c, cd_primary_key = de_primary_key c \<rparr>))"

fun bind_column_defs :: "'b binder_env \<Rightarrow> 'o oid_ops \<Rightarrow> nat \<Rightarrow> column_def list \<Rightarrow> ('o, 'b bind_error, bound_column_def list) prog" where
  "bind_column_defs env ids pos [] = ret []"
| "bind_column_defs env ids pos (c # cs) = pbind (bind_column_def env ids pos c) (\<lambda>b.
     pbind (bind_column_defs env ids (pos + 1) cs) (\<lambda>bs. ret (b # bs)))"

definition primary_key_position :: "bound_column_def list \<Rightarrow> string \<Rightarrow> ('b bind_error, u16) outcome" where
  "primary_key_position cols name =
     ok_or (UnknownColumn name) (map_option cd_position (List.find (\<lambda>c. eq_ignore_case (cd_name c) name) cols))"

definition is_ok :: "('e, 'a) outcome \<Rightarrow> bool" where
  "is_ok r = (case r of Ok _ \<Rightarrow> True | _ \<Rightarrow> False)"

definition bind_create_table :: "'b binder_env \<Rightarrow> 'o oid_ops \<Rightarrow> create_table_stmt \<Rightarrow> ('o, 'b bind_error, bound_statement) prog" where
  "bind_create_table env ids s =
     (if is_ok (table_by_name env (ctab_name s)) \<and> \<not> ctab_if_not_exists s then fail (TableAlreadyExists (ctab_name s))
      else (case first_duplicate env {} (ctab_columns s) of
          Some name \<Rightarrow> fail (DuplicateName name)
        | None \<Rightarrow>
          pbind (alloc_id (oid_next ids)) (\<lambda>oid.
          pbind (alloc_id (oid_next_file ids)) (\<lambda>file_no.
          pbind (bind_column_defs env ids 0 (ctab_columns s)) (\<lambda>cols.
          pbind (lift (traverse (primary_key_position cols) (ctab_primary_key s))) (\<lambda>pk.
          ret (BCreateTable \<lparr> ct_oid = oid, ct_file = file_no, ct_name = ctab_name s, ct_columns = cols, ct_primary_key = pk,
            ct_foreign_keys = ctab_foreign_keys s, ct_if_not_exists = ctab_if_not_exists s \<rparr>)))))))"

text \<open>A panic of the catalog passes through every match.\<close>

definition bind_drop_table :: "'b binder_env \<Rightarrow> drop_table_stmt \<Rightarrow> ('b bind_error, bound_statement) outcome" where
  "bind_drop_table env s = (case table_by_name env (dtab_name s) of
       Ok t \<Rightarrow> Ok (BDropTable \<lparr> dt_oid = table_oid t, dt_name = dtab_name s, dt_indexes = [], dt_if_exists = dtab_if_exists s \<rparr>)
     | Err _ \<Rightarrow>
         if dtab_if_exists s then Ok (BDropTable \<lparr> dt_oid = 0, dt_name = dtab_name s, dt_indexes = [], dt_if_exists = True \<rparr>)
         else Err (UnknownTable (dtab_name s))
     | Panic \<Rightarrow> Panic)"

fun bind_alter_action :: "'b binder_env \<Rightarrow> 'o oid_ops \<Rightarrow> column list \<Rightarrow> alter_table_action \<Rightarrow> ('o, 'b bind_error, bound_alter_action) prog" where
  "bind_alter_action env ids columns (AlterAddColumn c) =
     pbind (bind_column_def env ids (length columns) c) (\<lambda>b. ret (AddColumn b))"
| "bind_alter_action env ids columns (AlterDropColumn name) =
     pbind (lift (column_named columns name)) (\<lambda>c. ret (DropColumn (col_oid c) (col_position c)))"
| "bind_alter_action env ids columns (AlterRenameColumn old_name new_name) =
     pbind (lift (column_named columns old_name)) (\<lambda>c. ret (RenameColumn (col_oid c) old_name new_name))"
| "bind_alter_action env ids columns (AlterRenameTable new_name) = ret (RenameTable new_name)"
| "bind_alter_action env ids columns (AlterTypeOfColumn name new_type) =
     pbind (lift (column_named columns name)) (\<lambda>c. ret (AlterColumnType (col_oid c) new_type))"
| "bind_alter_action env ids columns (AlterAddForeignKey fk) = ret (AddForeignKey fk)"
| "bind_alter_action env ids columns (AlterDropForeignKey name) = ret (DropForeignKey name)"
| "bind_alter_action env ids columns (AlterAddPrimaryKey names) =
     pbind (lift (traverse (\<lambda>n. bind_ok (column_named columns n) (\<lambda>c. Ok (col_oid c))) names)) (\<lambda>oids. ret (AddPrimaryKey oids))"
| "bind_alter_action env ids columns (AlterDropConstraint name) = ret (DropConstraint name)"

definition bind_alter_table :: "'b binder_env \<Rightarrow> 'o oid_ops \<Rightarrow> alter_table_stmt \<Rightarrow> ('o, 'b bind_error, bound_statement) prog" where
  "bind_alter_table env ids s = pbind (lift (find_table env (atab_name s))) (\<lambda>t.
     pbind (lift (find_columns env t)) (\<lambda>columns.
     pbind (bind_alter_action env ids columns (atab_action s)) (\<lambda>action.
     ret (BAlterTable \<lparr> at_oid = table_oid t, at_name = atab_name s, at_action = action \<rparr>))))"

definition bind_create_index :: "'b binder_env \<Rightarrow> 'o oid_ops \<Rightarrow> create_index_stmt \<Rightarrow> ('o, 'b bind_error, bound_statement) prog" where
  "bind_create_index env ids s = (case cidx_columns s of
       [] \<Rightarrow> fail NoColumnsInIndex
     | [name] \<Rightarrow>
         if is_ok (index_by_name env (cidx_name s)) \<and> \<not> cidx_if_not_exists s then fail (IndexAlreadyExists (cidx_name s))
         else pbind (lift (find_table env (cidx_table s))) (\<lambda>t.
           pbind (lift (find_columns env t)) (\<lambda>columns.
           pbind (lift (column_named columns name)) (\<lambda>c.
           pbind (alloc_id (oid_next ids)) (\<lambda>oid.
           pbind (alloc_id (oid_next_file ids)) (\<lambda>file_no.
           ret (BCreateIndex \<lparr> ci_oid = oid, ci_file = file_no, ci_name = cidx_name s, ci_table = table_oid t,
             ci_column = col_oid c, ci_unique = cidx_unique s, ci_if_not_exists = cidx_if_not_exists s \<rparr>))))))
     | _ \<Rightarrow> fail MultiColumnIndexUnsupported)"

definition bind_drop_index :: "'b binder_env \<Rightarrow> drop_index_stmt \<Rightarrow> ('b bind_error, bound_statement) outcome" where
  "bind_drop_index env s = (case index_by_name env (didx_name s) of
       Ok i \<Rightarrow> Ok (BDropIndex \<lparr> di_oid = index_oid i, di_name = didx_name s, di_table = index_table i, di_if_exists = didx_if_exists s \<rparr>)
     | Err _ \<Rightarrow>
         if didx_if_exists s then Ok (BDropIndex \<lparr> di_oid = 0, di_name = didx_name s, di_table = 0, di_if_exists = True \<rparr>)
         else Err (UnknownTable (didx_name s))
     | Panic \<Rightarrow> Panic)"

definition bind_value :: "'b binder_env \<Rightarrow> scope \<Rightarrow> ast_expr \<Rightarrow> column \<Rightarrow> ('b bind_error, bound_expr) outcome" where
  "bind_value env sc e c = bind_ok (bind_expr env sc e) (\<lambda>b. coerce_expr b (col_type c) (col_name c))"

definition bind_row :: "'b binder_env \<Rightarrow> column list \<Rightarrow> ast_expr list \<Rightarrow> ('b bind_error, bound_expr list) outcome" where
  "bind_row env targets row = (if length row \<noteq> length targets then Err (ColumnCountMismatch (length targets) (length row))
     else traverse (\<lambda>(e, c). bind_value env [] e c) (zip row targets))"

definition bind_insert_source :: "'b binder_env \<Rightarrow> column list \<Rightarrow> insert_source \<Rightarrow> ('b bind_error, bound_insert_source) outcome" where
  "bind_insert_source env targets src = (case src of
       SourceValues rows \<Rightarrow> bind_ok (traverse (bind_row env targets) rows) (\<lambda>bs. Ok (InsertValues bs))
     | SourceSelect q \<Rightarrow> bind_ok (bind_select env q) (\<lambda>b.
         if length (bs_output b) \<noteq> length targets then Err (ColumnCountMismatch (length targets) (length (bs_output b)))
         else Ok (InsertSelect b)))"

definition bind_insert :: "'b binder_env \<Rightarrow> insert_stmt \<Rightarrow> ('b bind_error, bound_statement) outcome" where
  "bind_insert env s = bind_ok (find_table env (inss_table s)) (\<lambda>t. bind_ok (sorted_columns env t) (\<lambda>columns.
     bind_ok (case inss_columns s of None \<Rightarrow> Ok columns | Some names \<Rightarrow> traverse (column_named columns) names) (\<lambda>targets.
     bind_ok (bind_insert_source env targets (inss_source s)) (\<lambda>src.
     Ok (BInsert \<lparr> ins_table = t, ins_columns = columns, ins_targets = targets, ins_source = src \<rparr>)))))"

definition table_scope :: "string option \<Rightarrow> string \<Rightarrow> column list \<Rightarrow> scope" where
  "table_scope alias name columns = add_table (Some (case alias of Some a \<Rightarrow> a | None \<Rightarrow> name)) columns False []"

definition bind_assignment :: "'b binder_env \<Rightarrow> scope \<Rightarrow> column list \<Rightarrow> assignment \<Rightarrow> ('b bind_error, bound_assignment) outcome" where
  "bind_assignment env sc columns a = bind_ok (column_named columns (asg_column a)) (\<lambda>c.
     bind_ok (bind_value env sc (asg_value a) c) (\<lambda>v. Ok \<lparr> as_column = c, as_value = v \<rparr>))"

definition bind_update :: "'b binder_env \<Rightarrow> update_stmt \<Rightarrow> ('b bind_error, bound_statement) outcome" where
  "bind_update env s = bind_ok (find_table env (upds_table s)) (\<lambda>t. bind_ok (sorted_columns env t) (\<lambda>columns.
     let sc = table_scope (upds_alias s) (upds_table s) columns in
     bind_ok (traverse (bind_assignment env sc columns) (upds_assignments s)) (\<lambda>assignments.
     bind_ok (opt_ok (bind_expr env sc) (upds_where s)) (\<lambda>wh.
     bind_ok (case wh of None \<Rightarrow> Ok () | Some w \<Rightarrow> expect_bool_or_numeric w ''WHERE'') (\<lambda>_.
     Ok (BUpdate \<lparr> upd_table = t, upd_columns = columns, upd_assignments = assignments, upd_where = wh \<rparr>))))))"

definition bind_delete :: "'b binder_env \<Rightarrow> delete_stmt \<Rightarrow> ('b bind_error, bound_statement) outcome" where
  "bind_delete env s = bind_ok (find_table env (dels_table s)) (\<lambda>t. bind_ok (sorted_columns env t) (\<lambda>columns.
     let sc = table_scope (dels_alias s) (dels_table s) columns in
     bind_ok (opt_ok (bind_expr env sc) (dels_where s)) (\<lambda>wh.
     bind_ok (case wh of None \<Rightarrow> Ok () | Some w \<Rightarrow> expect_bool_or_numeric w ''WHERE'') (\<lambda>_.
     Ok (BDelete \<lparr> del_table = t, del_columns = columns, del_where = wh \<rparr>)))))"

text \<open>Transaction statements are not for the binder: \<open>unreachable!()\<close>.\<close>

fun bind_statement :: "'b binder_env \<Rightarrow> 'o oid_ops \<Rightarrow> statement \<Rightarrow> ('o, 'b bind_error, bound_statement) prog" where
  "bind_statement env ids (StCreateTable s) = bind_create_table env ids s"
| "bind_statement env ids (StDropTable s) = lift (bind_drop_table env s)"
| "bind_statement env ids (StAlterTable s) = bind_alter_table env ids s"
| "bind_statement env ids (StInsert s) = lift (bind_insert env s)"
| "bind_statement env ids (StSelect s) = pbind (lift (bind_select env s)) (\<lambda>b. ret (BSelect b))"
| "bind_statement env ids (StUpdate s) = lift (bind_update env s)"
| "bind_statement env ids (StDelete s) = lift (bind_delete env s)"
| "bind_statement env ids (StCreateIndex s) = bind_create_index env ids s"
| "bind_statement env ids (StDropIndex s) = lift (bind_drop_index env s)"
| "bind_statement env ids (StExplain s) = pbind (bind_statement env ids s) (\<lambda>b. ret (BExplain b))"
| "bind_statement env ids _ = lift Panic"

end
