(* ===== verification/BinderClaims.thy ===== *)
theory BinderClaims
  imports Binder
begin

text \<open>
  What the binder guarantees: it panics only on the transaction statements, which are not for it.
\<close>

section \<open>The catalog cache as the binder's catalog\<close>

definition cache_env :: "(string \<Rightarrow> string) \<Rightarrow> catalog_cache \<Rightarrow> 'b binder_env" where
  "cache_env lower c = \<lparr> table_by_name = get_table_by_name c, index_by_name = get_index_by_name c,
     table_columns = get_table_columns c, to_lowercase = lower \<rparr>"

section \<open>No panic\<close>

definition no_panic :: "'b binder_env \<Rightarrow> bool" where
  "no_panic env \<longleftrightarrow> (\<forall>n. table_by_name env n \<noteq> Panic) \<and> (\<forall>n. index_by_name env n \<noteq> Panic) \<and> (\<forall>i. table_columns env i \<noteq> Panic)"

lemma bind_Ok: "bind_ok m f = Ok b \<longleftrightarrow> (\<exists>a. m = Ok a \<and> f a = Ok b)"
  by (cases m) auto

lemma traverse_list_all:
  assumes "traverse f xs = Ok ys" "\<And>x y. x \<in> set xs \<Longrightarrow> f x = Ok y \<Longrightarrow> P y"
  shows "list_all P ys"
  using assms
proof (induction xs arbitrary: ys)
  case (Cons x xs)
  obtain y zs where "f x = Ok y" "traverse f xs = Ok zs" "ys = y # zs" using Cons.prems(1) by (auto simp: bind_Ok)
  then show ?case using Cons.IH [of zs] Cons.prems(2) by auto
qed simp

lemma bind_ok_Panic_iff: "bind_ok m f = Panic \<longleftrightarrow> m = Panic \<or> (\<exists>a. m = Ok a \<and> f a = Panic)"
  by (cases m) auto

lemma traverse_Panic: "traverse f xs = Panic \<Longrightarrow> \<exists>x\<in>set xs. f x = Panic"
  by (induction xs) (auto simp: bind_ok_Panic_iff)

lemma opt_ok_Panic: "opt_ok f x = Panic \<Longrightarrow> \<exists>a. x = Some a \<and> f a = Panic"
  by (auto simp: opt_ok_def bind_ok_Panic_iff split: option.splits)

lemma map_err_Panic [simp]: "map_err f m = Panic \<longleftrightarrow> m = Panic"
  by (cases m) auto

lemma ok_or_Panic [simp]: "ok_or e x \<noteq> Panic"
  by (simp add: ok_or_def split: option.split)

lemma cache_env_no_panic: "no_panic (cache_env lower c)"
  by (auto simp: no_panic_def cache_env_def get_table_by_name_def get_index_by_name_def get_table_columns_def
    get_table_by_oid_def get_index_by_oid_def bind_ok_Panic_iff)

lemma lookups_no_panic:
  assumes "no_panic env"
  shows "find_table env n \<noteq> Panic" "find_columns env t \<noteq> Panic" "sorted_columns env t \<noteq> Panic" "column_named cs n \<noteq> Panic"
  using assms by (auto simp: no_panic_def find_table_def find_columns_def sorted_columns_def column_named_def bind_ok_Panic_iff)

lemma resolve_no_panic: "resolve sc q n \<noteq> Panic"
  by (auto simp: resolve_def Let_def split: list.split)

lemma resolve_Ok: "resolve sc q n = Ok c \<Longrightarrow> c \<in> set sc \<and> eq_ignore_case (sc_name c) n"
proof -
  assume a: "resolve sc q n = Ok c"
  let ?P = "\<lambda>c. eq_ignore_case (sc_name c) n \<and> (case q of None \<Rightarrow> True | Some q' \<Rightarrow> qualifier_matches q' c)"
  have "filter ?P sc = [c]" using a by (auto simp: resolve_def Let_def split: list.splits)
  then have "c \<in> set (filter ?P sc)" by simp
  then show ?thesis by simp
qed

lemma resolve_unqualified: "resolve sc None n = Ok c \<Longrightarrow> filter (\<lambda>c. eq_ignore_case (sc_name c) n) sc = [c]"
  by (auto simp: resolve_def Let_def split: list.splits)

lemma last_named_resolved: "resolve sc None n = Ok c \<Longrightarrow> last_named sc n = Some c"
  by (auto dest: resolve_unqualified simp: last_named_def)

lemma natural_no_panic: "(natural_pairs sc names :: ('b bind_error, bound_expr list) outcome) \<noteq> Panic"
proof (induction names)
  case (Cons n names)
  show ?case
  proof (cases "resolve sc None n :: ('b bind_error, scope_column) outcome")
    case (Ok c)
    then show ?thesis using Cons last_named_resolved [OF Ok] by (simp add: bind_ok_Panic_iff)
  qed (use Cons in simp_all)
qed simp

lemma using_no_panic: "using_pair sc n \<noteq> Panic"
  by (auto simp: using_pair_def bind_ok_Panic_iff resolve_no_panic)

lemma infer_binary_no_panic: "infer_binary_type op l r \<noteq> Panic"
  by (auto simp: infer_binary_type_def Let_def split: option.split)

lemma order_by_no_panic: "order_by_alias ps e \<noteq> Panic"
  by (auto simp: order_by_alias_def Let_def split: ast_expr.split literal.split)

lemma binds_no_panic:
  fixes env :: "'b binder_env"
  assumes "no_panic env"
  shows "bind_expr env sc e \<noteq> Panic" "bind_select env q \<noteq> Panic" "bind_from env sc ts \<noteq> Panic" "bind_table_ref env t \<noteq> Panic"
    "bind_joins env sc js \<noteq> Panic" "bind_join_condition env sc r c \<noteq> Panic" "bind_item env sc i \<noteq> Panic" "bind_order_by env sc ps ob \<noteq> Panic"
  using assms
proof (induction env sc e and env q and env sc ts and env t and env sc js and env sc r c and env sc i and env sc ps ob
    rule: bind_expr_bind_select_bind_from_bind_table_ref_bind_joins_bind_join_condition_bind_item_bind_order_by.induct)
qed (auto simp: bind_ok_Panic_iff resolve_no_panic infer_binary_no_panic lookups_no_panic Let_def order_by_no_panic wildcard_error_def
    using_no_panic natural_no_panic
    dest!: traverse_Panic opt_ok_Panic split: if_splits prod.splits option.splits)

text \<open>Programs that return and do not panic.\<close>

definition safe_prog :: "('s, 'e, 'a) prog \<Rightarrow> bool" where
  "safe_prog p \<longleftrightarrow> (\<forall>s. \<exists>r s'. p s = Some (r, s') \<and> r \<noteq> Panic)"

lemma safe_pbind: "safe_prog m \<Longrightarrow> (\<And>a. safe_prog (f a)) \<Longrightarrow> safe_prog (pbind m f)"
  unfolding safe_prog_def
proof (intro allI)
  fix s assume m: "\<forall>s. \<exists>r s'. m s = Some (r, s') \<and> r \<noteq> Panic" and f: "\<And>a. \<forall>s. \<exists>r s'. f a s = Some (r, s') \<and> r \<noteq> Panic"
  obtain r s' where "m s = Some (r, s')" "r \<noteq> Panic" using m by blast
  then show "\<exists>r s'. pbind m f s = Some (r, s') \<and> r \<noteq> Panic" using f by (cases r) (simp_all add: pbind_def)
qed

lemma safe_basic: "safe_prog (ret a)" "safe_prog (fail e)" "m \<noteq> Panic \<Longrightarrow> safe_prog (lift m)" "safe_prog (alloc_id g)"
  by (auto simp: safe_prog_def ret_def fail_def lift_def alloc_id_def split: prod.split)

lemmas safe_rules = safe_pbind safe_basic

lemma bind_default_no_panic: "no_panic env \<Longrightarrow> bind_default_expr env e \<noteq> Panic"
  by (simp del: bind_expr.simps add: bind_default_expr_def binds_no_panic split: ast_expr.split)

lemma safe_column_def: "no_panic env \<Longrightarrow> safe_prog (bind_column_def env ids pos c)"
  unfolding bind_column_def_def by (intro safe_rules) (auto dest!: opt_ok_Panic simp: bind_default_no_panic)

lemma safe_column_defs: "no_panic env \<Longrightarrow> safe_prog (bind_column_defs env ids pos cs)"
  by (induction cs arbitrary: pos) (auto intro!: safe_rules safe_column_def)

lemma safe_create_table: "no_panic env \<Longrightarrow> safe_prog (bind_create_table env ids s)"
  unfolding bind_create_table_def
  by (auto split: option.split intro!: safe_rules safe_column_defs simp: primary_key_position_def dest!: traverse_Panic)

lemma safe_alter_table:
  assumes "no_panic env"
  shows "safe_prog (bind_alter_table env ids s)"
proof -
  have "safe_prog (bind_alter_action env ids cs a)" for cs a
    by (cases a) (auto intro!: safe_rules safe_column_def assms dest!: traverse_Panic simp: lookups_no_panic [OF assms] bind_ok_Panic_iff)
  then show ?thesis unfolding bind_alter_table_def by (intro safe_rules lookups_no_panic [OF assms])
qed

lemma safe_create_index: "no_panic env \<Longrightarrow> safe_prog (bind_create_index env ids s)"
  unfolding bind_create_index_def by (auto split: list.split intro!: safe_rules simp: lookups_no_panic)

lemma coerce_no_panic: "coerce_expr e t n \<noteq> Panic"
  by (simp add: coerce_expr_def)

lemma bind_value_no_panic: "no_panic env \<Longrightarrow> bind_value env sc e c \<noteq> Panic"
  by (auto simp: bind_value_def bind_ok_Panic_iff binds_no_panic coerce_no_panic)

lemma bind_row_no_panic: "no_panic env \<Longrightarrow> bind_row env targets row \<noteq> Panic"
  by (auto simp: bind_row_def bind_value_no_panic dest!: traverse_Panic)

lemma bind_insert_no_panic: "no_panic env \<Longrightarrow> bind_insert env s \<noteq> Panic"
  by (auto simp: bind_insert_def bind_insert_source_def bind_ok_Panic_iff lookups_no_panic binds_no_panic bind_row_no_panic
    dest!: traverse_Panic split: option.splits insert_source.splits if_splits)

lemma expect_no_panic: "expect_bool_or_numeric e n \<noteq> Panic"
  by (simp add: expect_bool_or_numeric_def)

lemma bind_update_no_panic: "no_panic env \<Longrightarrow> bind_update env s \<noteq> Panic"
  by (auto simp: bind_update_def bind_assignment_def Let_def bind_ok_Panic_iff lookups_no_panic binds_no_panic bind_value_no_panic expect_no_panic
    dest!: traverse_Panic opt_ok_Panic split: option.splits)

lemma bind_delete_no_panic: "no_panic env \<Longrightarrow> bind_delete env s \<noteq> Panic"
  by (auto simp: bind_delete_def Let_def bind_ok_Panic_iff lookups_no_panic binds_no_panic expect_no_panic
    dest!: opt_ok_Panic split: option.splits)

lemma bind_drop_no_panic: "no_panic env \<Longrightarrow> bind_drop_table env s \<noteq> Panic" "no_panic env \<Longrightarrow> bind_drop_index env t \<noteq> Panic"
  by (auto simp: bind_drop_table_def bind_drop_index_def no_panic_def split: outcome.split)

fun ends_in_transaction :: "statement \<Rightarrow> bool" where
  "ends_in_transaction (StExplain s) = ends_in_transaction s"
| "ends_in_transaction (BeginTransaction _) = True"
| "ends_in_transaction Commit = True"
| "ends_in_transaction Rollback = True"
| "ends_in_transaction _ = False"

lemma safe_statement: "no_panic env \<Longrightarrow> \<not> ends_in_transaction st \<Longrightarrow> safe_prog (bind_statement env ids st)"
  by (induction st) (auto intro!: safe_rules safe_create_table safe_alter_table safe_create_index
    simp: bind_drop_no_panic bind_insert_no_panic bind_update_no_panic bind_delete_no_panic binds_no_panic)

lemma transaction_panics: "ends_in_transaction st \<Longrightarrow> \<exists>s'. bind_statement env ids st s = Some (Panic, s')"
  by (induction st) (auto simp: lift_def pbind_def)

text \<open>C28: binding a statement against the catalog cache always returns, and it panics exactly for BEGIN,
  COMMIT and ROLLBACK, under any number of EXPLAINs; the \<open>unwrap\<close> of a natural join and every index into
  the columns are safe.\<close>

theorem bind_panics_only_on_transactions:
  "\<exists>r s'. bind_statement (cache_env lower c :: 'b binder_env) ids st s = Some (r, s') \<and> (r = Panic \<longleftrightarrow> ends_in_transaction st)"
proof (cases "ends_in_transaction st")
  case True
  then obtain s' where "bind_statement (cache_env lower c :: 'b binder_env) ids st s = Some (Panic, s')"
    using transaction_panics [of st "cache_env lower c :: 'b binder_env" ids s] by blast
  then show ?thesis using True by simp
next
  case False
  obtain r s' where "bind_statement (cache_env lower c :: 'b binder_env) ids st s = Some (r, s')" "r \<noteq> Panic"
    using safe_statement [OF cache_env_no_panic False, of lower c ids] unfolding safe_prog_def by blast
  then show ?thesis using False by simp
qed

section \<open>Values and columns\<close>

lemma traverse_pairs: "traverse f xs = Ok ys \<Longrightarrow> list_all2 (\<lambda>x y. f x = Ok y) xs ys"
  by (induction xs arbitrary: ys) (auto simp: bind_Ok)

lemma coerce_type: "coerce_expr e t n = Ok b \<Longrightarrow> be_type b = t"
  by (auto simp: coerce_expr_def split: if_splits)

lemma bind_value_type: "bind_value env sc e c = Ok b \<Longrightarrow> be_type b = col_type c"
  by (auto simp: bind_value_def bind_Ok coerce_type)

lemma bind_row_types: "bind_row env targets row = Ok bs \<Longrightarrow> map be_type bs = map col_type targets"
proof -
  assume a: "bind_row env targets row = Ok bs"
  then have l: "length row = length targets" and t: "traverse (\<lambda>(e, c). bind_value env [] e c) (zip row targets) = Ok bs"
    by (auto simp: bind_row_def split: if_splits)
  from traverse_pairs [OF t] l show ?thesis
    by (auto simp: list_all2_conv_all_nth intro!: nth_equalityI dest!: bind_value_type)
qed

lemma integer_literal_coercion:
  "coerce_expr (bind_literal (LInteger n)) t nm =
     (if t = TI64 then Ok (bind_literal (LInteger n))
      else if t = TF32 \<or> t = TF64 then Ok (BoundExpr (ECast (bind_literal (LInteger n)) t) t False)
      else Err (TypeMismatch t TI64 nm))"
  by (cases t) (simp_all add: coerce_expr_def bnd_is_numeric_def)

lemma column_named_in: "column_named cs n = Ok c \<Longrightarrow> c \<in> set cs \<and> eq_ignore_case (col_name c) n"
  by (auto simp: column_named_def ok_or_def find_Some_iff split: option.splits)

definition condition_typed :: "bound_expr option \<Rightarrow> bool" where
  "condition_typed w \<longleftrightarrow> pred_option (\<lambda>e. be_type e = TBool \<or> bnd_is_numeric (be_type e)) w"

text \<open>What the binder promises about the rows it lets a statement write.\<close>

fun values_typed :: "bound_statement \<Rightarrow> bool" where
  "values_typed (BInsert i) \<longleftrightarrow> set (ins_targets i) \<subseteq> set (ins_columns i) \<and> sorted (map col_position (ins_columns i)) \<and>
     (case ins_source i of
        InsertValues rows \<Rightarrow> list_all (\<lambda>r. map be_type r = map col_type (ins_targets i)) rows
      | InsertSelect q \<Rightarrow> length (bs_output q) = length (ins_targets i))"
| "values_typed (BUpdate u) \<longleftrightarrow> sorted (map col_position (upd_columns u)) \<and> condition_typed (upd_where u) \<and>
     list_all (\<lambda>a. as_column a \<in> set (upd_columns u) \<and> be_type (as_value a) = col_type (as_column a)) (upd_assignments u)"
| "values_typed (BDelete d) \<longleftrightarrow> sorted (map col_position (del_columns d)) \<and> condition_typed (del_where d)"
| "values_typed (BExplain b) \<longleftrightarrow> values_typed b"
| "values_typed _ \<longleftrightarrow> True"

lemma sorted_columns_sorted: "sorted_columns env t = Ok cs \<Longrightarrow> sorted (map col_position cs)"
  by (auto simp: sorted_columns_def bind_Ok)

lemma expect_typed: "(case w of None \<Rightarrow> Ok () | Some e \<Rightarrow> expect_bool_or_numeric e n) = Ok u \<Longrightarrow> condition_typed w"
  by (auto simp: condition_typed_def expect_bool_or_numeric_def split: option.splits if_splits)

lemma rows_typed: "traverse (bind_row env targets) rows = Ok bs \<Longrightarrow> list_all (\<lambda>r. map be_type r = map col_type targets) bs"
  by (erule traverse_list_all) (rule bind_row_types)

lemma targets_in: "traverse (column_named cs) names = Ok targets \<Longrightarrow> set targets \<subseteq> set cs"
  using traverse_list_all [of "column_named cs" names targets "\<lambda>c. c \<in> set cs"] column_named_in
  by (auto simp: list_all_iff)

lemma insert_typed: "bind_insert env i = Ok b \<Longrightarrow> values_typed b"
  by (cases "inss_source i"; cases "inss_columns i")
    (auto simp: bind_insert_def bind_insert_source_def bind_Ok sorted_columns_sorted rows_typed
      split: if_splits dest: targets_in)

lemma assignments_typed:
  "traverse (bind_assignment env sc cs) xs = Ok ys \<Longrightarrow>
     list_all (\<lambda>a. as_column a \<in> set cs \<and> be_type (as_value a) = col_type (as_column a)) ys"
  by (erule traverse_list_all) (auto simp: bind_assignment_def bind_Ok dest!: bind_value_type column_named_in)

lemma update_typed: "bind_update env u = Ok b \<Longrightarrow> values_typed b"
  by (auto simp: bind_update_def Let_def bind_Ok sorted_columns_sorted expect_typed assignments_typed)

lemma delete_typed: "bind_delete env d = Ok b \<Longrightarrow> values_typed b"
  by (auto simp: bind_delete_def Let_def bind_Ok sorted_columns_sorted expect_typed)

lemma pbind_returns:
  "pbind m f s = Some (Ok b, s') \<longleftrightarrow> (\<exists>a s1. m s = Some (Ok a, s1) \<and> f a s1 = Some (Ok b, s'))"
  by (auto simp: pbind_def split: option.splits prod.splits outcome.splits)

lemma lift_Ok: "lift m s = Some (Ok b, s') \<longleftrightarrow> m = Ok b \<and> s' = s"
  by (auto simp: lift_def)

lemma ret_Ok: "ret a s = Some (Ok b, s') \<longleftrightarrow> b = a \<and> s' = s"
  by (auto simp: ret_def)

lemmas prog_Ok = pbind_returns lift_Ok ret_Ok

lemma schema_change_typed:
  "bind_create_table env ids c s = Some (Ok b, s') \<Longrightarrow> values_typed b"
  "bind_alter_table env ids a s = Some (Ok b, s') \<Longrightarrow> values_typed b"
  "bind_create_index env ids i s = Some (Ok b, s') \<Longrightarrow> values_typed b"
  "bind_drop_table env d = Ok b \<Longrightarrow> values_typed b"
  "bind_drop_index env x = Ok b \<Longrightarrow> values_typed b"
  by (auto simp: bind_create_table_def bind_alter_table_def bind_create_index_def bind_drop_table_def bind_drop_index_def prog_Ok fail_def
    split: if_splits option.splits list.splits outcome.splits)

text \<open>C26: every value an accepted INSERT .. VALUES or UPDATE writes has exactly the type of its column, with
  one value for each target column; of INSERT .. SELECT the query has as many columns as there are targets, and
  their types are not compared. The targets are columns of the table, whose columns are in catalog order, and
  every WHERE of UPDATE and DELETE is boolean or numeric. (EXPLAIN of such a statement likewise.)\<close>

theorem bound_values_typed:
  "bind_statement env ids st s = Some (Ok b, s') \<Longrightarrow> values_typed b"
proof (induction st arbitrary: b)
  case (StExplain st)
  then show ?case by (auto simp: prog_Ok)
qed (auto simp: prog_Ok insert_typed update_typed delete_typed schema_change_typed)

text \<open>A catalog with one table \<open>t (a i64 not null, b i16)\<close>.\<close>

definition demo_env :: "'b binder_env" where
  "demo_env = \<lparr> table_by_name = (\<lambda>n. if n = ''t'' then Ok \<lparr> table_oid = 7, table_name = ''t'', table_file = 3 \<rparr> else Err (NotFound n)),
     index_by_name = (\<lambda>n. Err (NotFound n)),
     table_columns = (\<lambda>_. Ok [\<lparr> col_oid = 2, col_table = 7, col_name = ''b'', col_type = TI16, col_position = 1, col_nullable = True \<rparr>,
       \<lparr> col_oid = 1, col_table = 7, col_name = ''a'', col_type = TI64, col_position = 0, col_nullable = False \<rparr>]),
     to_lowercase = map ascii_lower \<rparr>"

lemma ascii_demo: "ascii_lower CHR ''t'' = CHR ''t''" "ascii_lower CHR ''x'' = CHR ''x''"
    "ascii_lower CHR ''a'' = CHR ''a''" "ascii_lower CHR ''b'' = CHR ''b''" "ascii_lower CHR ''A'' = CHR ''a''" "ascii_lower CHR ''B'' = CHR ''b''"
  by code_simp+

lemmas demo_simps = demo_env_def find_table_def sorted_columns_def find_columns_def add_table_ref_to_scope_def resolve_def
  eq_ignore_case_def ascii_demo qualifier_matches_def column_expr_def infer_binary_type_def wider_numeric_def bnd_is_numeric_def
  opt_ok_def

definition demo_ids :: "nat oid_ops" where
  "demo_ids = \<lparr> oid_next = (\<lambda>n. (word_of_nat n, n + 1)), oid_next_file = (\<lambda>n. (word_of_nat n, n + 1)) \<rparr>"

theorem bound_values_typed_witness:
  "\<exists>b. bind_statement (demo_env :: 'b binder_env) demo_ids
       (StInsert \<lparr> inss_table = ''t'', inss_columns = Some [''B'', ''a''], inss_source = SourceValues [[ALiteral LNull, ALiteral (LInteger 5)]] \<rparr>) 7
     = Some (Ok b, 7) \<and> values_typed b"
proof -
  let ?st = "StInsert \<lparr> inss_table = ''t'', inss_columns = Some [''B'', ''a''], inss_source = SourceValues [[ALiteral LNull, ALiteral (LInteger 5)]] \<rparr>"
  have "\<exists>b. bind_statement (demo_env :: 'b binder_env) demo_ids ?st 7 = Some (Ok b, 7)"
    by (simp add: demo_simps bind_insert_def bind_insert_source_def bind_row_def bind_value_def column_named_def ok_or_def coerce_expr_def lift_def)
  then show ?thesis by (elim exE) (intro exI conjI bound_values_typed, assumption+)
qed

section \<open>New tables\<close>

lemma first_duplicate_None:
  "first_duplicate env seen cs = None \<longleftrightarrow> distinct (map (to_lowercase env \<circ> de_name) cs) \<and> (\<forall>c\<in>set cs. to_lowercase env (de_name c) \<notin> seen)"
proof (induction cs arbitrary: seen)
  case (Cons c cs)
  then show ?case by (simp add: Let_def image_iff ball_conj_distrib) metis
qed simp

text \<open>A bound column against its definition at a position.\<close>

definition column_of_def :: "nat \<Rightarrow> column_def \<Rightarrow> bound_column_def \<Rightarrow> bool" where
  "column_of_def pos d c \<longleftrightarrow> cd_name c = de_name d \<and> cd_type c = de_type d \<and> cd_position c = word_of_nat pos \<and>
     cd_nullable c = de_nullable d \<and> cd_unique c = de_unique d \<and> cd_primary_key c = de_primary_key d \<and>
     (cd_default c = None \<longleftrightarrow> de_default d = None)"

lemma bind_column_def_of: "bind_column_def env ids pos d s = Some (Ok c, s') \<Longrightarrow> column_of_def pos d c"
  by (auto simp: bind_column_def_def column_of_def_def prog_Ok opt_ok_def bind_Ok split: option.splits)

lemma bind_column_defs_of:
  "bind_column_defs env ids pos ds s = Some (Ok cs, s') \<Longrightarrow>
     length cs = length ds \<and> (\<forall>i<length ds. column_of_def (pos + i) (ds ! i) (cs ! i))"
proof (induction ds arbitrary: pos s cs)
  case Nil
  then show ?case by (simp add: ret_Ok)
next
  case (Cons d ds)
  from Cons.prems obtain c s1 bs where 1: "bind_column_def env ids pos d s = Some (Ok c, s1)"
    and 2: "bind_column_defs env ids (pos + 1) ds s1 = Some (Ok bs, s')" and cs: "cs = c # bs"
    by (auto simp: prog_Ok)
  show ?case using bind_column_def_of [OF 1] Cons.IH [OF 2] cs by (auto simp: less_Suc_eq_0_disj)
qed

text \<open>A key column: the position of the first column with the name.\<close>

definition key_at :: "bound_column_def list \<Rightarrow> string \<Rightarrow> u16 \<Rightarrow> bool" where
  "key_at cs n p \<longleftrightarrow> (\<exists>i<length cs. eq_ignore_case (cd_name (cs ! i)) n \<and> p = cd_position (cs ! i) \<and>
     (\<forall>j<i. \<not> eq_ignore_case (cd_name (cs ! j)) n))"

lemma primary_key_at: "primary_key_position cs n = Ok p \<Longrightarrow> key_at cs n p"
  by (auto simp: primary_key_position_def key_at_def ok_or_def find_Some_iff split: option.splits)

text \<open>C30: an accepted CREATE TABLE has one bound column for each definition, in order, numbered from zero in
  16 bits, with lower-cased names all different and the key columns found by name; it is refused for a name
  the catalog knows, unless IF NOT EXISTS is given.\<close>

theorem create_table_columns:
  fixes env :: "'b binder_env"
  assumes "bind_statement env ids (StCreateTable d) s = Some (Ok b, s')"
  shows "\<exists>c. b = BCreateTable c \<and> length (ct_columns c) = length (ctab_columns d) \<and>
    (\<forall>i<length (ctab_columns d). column_of_def i (ctab_columns d ! i) (ct_columns c ! i)) \<and>
    distinct (map (to_lowercase env \<circ> cd_name) (ct_columns c)) \<and>
    list_all2 (key_at (ct_columns c)) (ctab_primary_key d) (ct_primary_key c) \<and>
    (is_ok (table_by_name env (ctab_name d)) \<longrightarrow> ct_if_not_exists c)"
proof -
  from assms have "is_ok (table_by_name env (ctab_name d)) \<longrightarrow> ctab_if_not_exists d" "first_duplicate env {} (ctab_columns d) = None"
    and "\<exists>oid file_no cs pk s1. bind_column_defs env ids 0 (ctab_columns d) s1 = Some (Ok cs, s') \<and>
      (traverse (primary_key_position cs) (ctab_primary_key d) :: ('b bind_error, u16 list) outcome) = Ok pk \<and>
      b = BCreateTable \<lparr> ct_oid = oid, ct_file = file_no, ct_name = ctab_name d, ct_columns = cs, ct_primary_key = pk,
        ct_foreign_keys = ctab_foreign_keys d, ct_if_not_exists = ctab_if_not_exists d \<rparr>"
    by (auto simp: bind_create_table_def prog_Ok fail_def split: if_splits option.splits intro: exI)
  then obtain oid file_no cs pk s1 where
    n: "is_ok (table_by_name env (ctab_name d)) \<longrightarrow> ctab_if_not_exists d" "first_duplicate env {} (ctab_columns d) = None"
    and c: "bind_column_defs env ids 0 (ctab_columns d) s1 = Some (Ok cs, s')"
    and k: "(traverse (primary_key_position cs) (ctab_primary_key d) :: ('b bind_error, u16 list) outcome) = Ok pk"
    and b: "b = BCreateTable \<lparr> ct_oid = oid, ct_file = file_no, ct_name = ctab_name d, ct_columns = cs, ct_primary_key = pk,
        ct_foreign_keys = ctab_foreign_keys d, ct_if_not_exists = ctab_if_not_exists d \<rparr>"
    by (elim exE conjE) (rule that)
  have of: "length cs = length (ctab_columns d)" "\<forall>i<length (ctab_columns d). column_of_def i (ctab_columns d ! i) (cs ! i)"
    using bind_column_defs_of [OF c] by simp_all
  then have "map cd_name cs = map de_name (ctab_columns d)" by (auto simp: column_of_def_def intro!: nth_equalityI)
  then have "map (to_lowercase env \<circ> cd_name) cs = map (to_lowercase env \<circ> de_name) (ctab_columns d)"
    using map_map [symmetric, where f = "to_lowercase env"] by metis
  moreover have "list_all2 (key_at cs) (ctab_primary_key d) pk"
    using traverse_pairs [OF k] by (rule list.rel_mono_strong) (rule primary_key_at)
  ultimately show ?thesis using n of b by (auto simp: first_duplicate_None)
qed

abbreviation "plain_column n t \<equiv> \<lparr> de_name = n, de_type = t, de_nullable = False, de_default = None, de_unique = False, de_primary_key = False \<rparr>"

definition demo_create :: create_table_stmt where
  "demo_create = \<lparr> ctab_name = ''x'', ctab_columns = [plain_column ''a'' TI64, plain_column ''b'' TI16], ctab_primary_key = [''B''],
     ctab_foreign_keys = [], ctab_if_not_exists = False \<rparr>"

theorem create_table_columns_witness:
  "\<exists>c s'. bind_statement (demo_env :: 'b binder_env) demo_ids (StCreateTable demo_create) 100 = Some (Ok (BCreateTable c), s') \<and>
     map cd_position (ct_columns c) = [0, 1] \<and> ct_primary_key c = [1] \<and> distinct (map (map ascii_lower \<circ> cd_name) (ct_columns c))"
proof -
  have "\<exists>c s'. bind_statement (demo_env :: 'b binder_env) demo_ids (StCreateTable demo_create) 100 = Some (Ok (BCreateTable c), s') \<and>
      map cd_position (ct_columns c) = [0, 1] \<and> ct_primary_key c = [1]"
    by (simp add: bind_create_table_def demo_create_def demo_ids_def demo_simps is_ok_def bind_column_def_def alloc_id_def
      primary_key_position_def ok_or_def pbind_def lift_def ret_def)
  then obtain c s' where c: "bind_statement (demo_env :: 'b binder_env) demo_ids (StCreateTable demo_create) 100 = Some (Ok (BCreateTable c), s')"
      "map cd_position (ct_columns c) = [0, 1]" "ct_primary_key c = [1]"
    by (elim exE conjE) (rule that)
  have "distinct (map (map ascii_lower \<circ> cd_name) (ct_columns c))"
    using create_table_columns [OF c(1)] by (simp add: demo_env_def)
  then show ?thesis by (intro exI [of _ c] exI [of _ s'] conjI c)
qed

end
