(* ===== verification/BinderScopes.thy ===== *)
theory BinderScopes
  imports BinderClaims Planner
begin

text \<open>
  Names and types in bound queries: an invariant of the bound tree (every column is the column of its
  scope, every type follows the rules of the binder), that the binder establishes it for all queries and
  subqueries, and that the plan of the FROM clause has the columns of the scope.
\<close>

section \<open>The invariant of bound queries\<close>

definition scope_ok :: "scope \<Rightarrow> bool" where
  "scope_ok sc \<longleftrightarrow> (\<forall>i<length sc. sc_index (sc ! i) = i)"

definition column_in :: "scope \<Rightarrow> column_ref \<Rightarrow> data_type \<Rightarrow> bool \<Rightarrow> bool" where
  "column_in sc cr t n \<longleftrightarrow> scope_index cr < length sc \<and> BoundExpr (EColumn cr) t n = column_expr (sc ! scope_index cr)"

definition binary_type_ok :: "binary_op \<Rightarrow> bound_expr \<Rightarrow> bound_expr \<Rightarrow> data_type \<Rightarrow> bool" where
  "binary_type_ok op l r t \<longleftrightarrow>
     (if op \<in> {Eq, NotEq, Lt, LtEq, Gt, GtEq, And, Or} then t = TBool
      else if op = Concat then t = TString
      else bnd_is_numeric (be_type l) \<and> bnd_is_numeric (be_type r) \<and> t \<in> {be_type l, be_type r} \<and>
        numeric_rank t = max (numeric_rank (be_type l)) (numeric_rank (be_type r)))"

definition outer_join :: "join_kind \<Rightarrow> bool" where
  "outer_join k \<longleftrightarrow> k \<in> {LeftOuter, RightOuter, FullOuter}"

definition from_scope :: "scope \<Rightarrow> bound_table_ref list \<Rightarrow> scope" where
  "from_scope sc ts = fold (\<lambda>t. add_table_ref_to_scope t False) ts sc"

definition joins_scope :: "scope \<Rightarrow> bound_join list \<Rightarrow> scope" where
  "joins_scope sc js = fold (\<lambda>j. add_table_ref_to_scope (bj_table j) (outer_join (bj_kind j))) js sc"

text \<open>The scope of the clauses of a query.\<close>

definition select_scope :: "bound_select \<Rightarrow> scope" where
  "select_scope s = joins_scope (from_scope [] (bs_from s)) (bs_joins s)"

definition output_of :: "bound_select_item list \<Rightarrow> output_column list" where
  "output_of ps = map (\<lambda>p. \<lparr> oc_name = bi_alias p, oc_type = be_type (bi_expr p), oc_nullable = be_nullable (bi_expr p) \<rparr>) ps"

fun expr_in :: "scope \<Rightarrow> bound_expr \<Rightarrow> bool"
and select_in :: "bound_select \<Rightarrow> bool"
and table_in :: "bound_table_ref \<Rightarrow> bool"
and joins_in :: "scope \<Rightarrow> bound_join list \<Rightarrow> bool"
and condition_in :: "scope \<Rightarrow> join_condition \<Rightarrow> bool"
where
  "expr_in sc (BoundExpr kind t n) = (case kind of
       ELiteral l \<Rightarrow> BoundExpr kind t n = bind_literal l
     | EColumn cr \<Rightarrow> column_in sc cr t n
     | EBinary l op r \<Rightarrow> expr_in sc l \<and> expr_in sc r \<and> binary_type_ok op l r t
     | EUnary op e \<Rightarrow> expr_in sc e \<and> (if op = Neg then bnd_is_numeric (be_type e) \<and> t = be_type e else t = TBool)
     | EIsNull e \<Rightarrow> expr_in sc e \<and> t = TBool
     | EIsNotNull e \<Rightarrow> expr_in sc e \<and> t = TBool
     | ELike e p _ \<Rightarrow> expr_in sc e \<and> expr_in sc p \<and> t = TBool
     | EBetween e low high _ \<Rightarrow> expr_in sc e \<and> expr_in sc low \<and> expr_in sc high \<and> t = TBool
     | EIn e es _ \<Rightarrow> expr_in sc e \<and> list_all (\<lambda>x. expr_in sc x) es \<and> t = TBool
     | EInSubquery e s _ \<Rightarrow> expr_in sc e \<and> select_in s \<and> length (bs_output s) = 1 \<and> t = TBool
     | EExists s _ \<Rightarrow> select_in s \<and> t = TBool
     | ESubquery s \<Rightarrow> select_in s \<and> map oc_type (bs_output s) = [t]
     | EFunction _ k args _ \<Rightarrow> list_all (\<lambda>x. expr_in sc x) args \<and> infer_function_type k args = (t, n)
     | ECast e target \<Rightarrow> expr_in sc e \<and> t = target
     | ECase operand wts els \<Rightarrow> pred_option (\<lambda>x. expr_in sc x) operand \<and>
         list_all (\<lambda>(w, r). expr_in sc w \<and> expr_in sc r) wts \<and> pred_option (\<lambda>x. expr_in sc x) els \<and>
         t = case_type wts els)"
| "select_in (BoundSelect ps ts js wh gb hv ob lim off d out) =
     (let sc0 = from_scope [] ts; sc = joins_scope sc0 js
      in list_all (\<lambda>x. table_in x) ts \<and> joins_in sc0 js \<and>
        list_all (\<lambda>p. case p of BoundSelectItem e _ \<Rightarrow> expr_in sc e) ps \<and>
        pred_option (\<lambda>x. expr_in sc x) wh \<and> list_all (\<lambda>x. expr_in sc x) gb \<and> pred_option (\<lambda>x. expr_in sc x) hv \<and>
        list_all (\<lambda>k. case k of BoundOrderBy e _ _ \<Rightarrow> expr_in sc e) ob \<and>
        pred_option (\<lambda>x. expr_in sc x) lim \<and> pred_option (\<lambda>x. expr_in sc x) off \<and> out = output_of ps)"
| "table_in (BaseTable t columns alias) = True"
| "table_in (SubqueryRef s alias) = select_in s"
| "joins_in sc [] = True"
| "joins_in sc (BoundJoin k t c # js) =
     (let sc' = add_table_ref_to_scope t (outer_join k) sc in table_in t \<and> condition_in sc' c \<and> joins_in sc' js)"
| "condition_in sc (On e) = expr_in sc e"
| "condition_in sc (Using es) = list_all (\<lambda>x. expr_in sc x) es"
| "condition_in sc (Natural es) = list_all (\<lambda>x. expr_in sc x) es"
| "condition_in sc NoCondition = True"

section \<open>The binder establishes it\<close>

lemma opt_ok_pred:
  assumes "opt_ok f x = Ok y" "\<And>a b. x = Some a \<Longrightarrow> f a = Ok b \<Longrightarrow> P b"
  shows "pred_option P y"
  using assms by (auto simp: opt_ok_def bind_Ok split: option.splits)

lemma resolve_in: "resolve sc q n = Ok c \<Longrightarrow> c \<in> set sc"
  using resolve_Ok by blast

lemma last_named_in: "last_named sc n = Some c \<Longrightarrow> c \<in> set sc"
  by (auto simp: last_named_def Let_def split: if_splits) (metis filter_is_subset last_in_set subsetD)

lemma column_expr_in: "scope_ok sc \<Longrightarrow> c \<in> set sc \<Longrightarrow> expr_in sc (column_expr c)"
  by (auto simp: scope_ok_def column_expr_def column_in_def in_set_conv_nth)

lemma equality_in: "scope_ok sc \<Longrightarrow> l \<in> set sc \<Longrightarrow> r \<in> set sc \<Longrightarrow> expr_in sc (equality l r)"
  by (simp add: equality_def column_expr_in binary_type_ok_def)

lemma wildcard_in: "scope_ok sc \<Longrightarrow> set cs \<subseteq> set sc \<Longrightarrow> list_all (\<lambda>p. expr_in sc (bi_expr p)) (wildcard_items cs)"
  by (auto simp: wildcard_items_def list_all_iff column_expr_in)

lemma wider_numeric_ok: "wider_numeric a b = Some t \<Longrightarrow>
    bnd_is_numeric a \<and> bnd_is_numeric b \<and> t \<in> {a, b} \<and> numeric_rank t = max (numeric_rank a) (numeric_rank b)"
  by (auto simp: wider_numeric_def max_def simp del: numeric_rank.simps split: if_splits)

lemma infer_binary_ok: "infer_binary_type op l r = Ok (t, n) \<Longrightarrow> binary_type_ok op l r t"
  by (auto simp: infer_binary_type_def binary_type_ok_def Let_def simp del: numeric_rank.simps
    dest!: wider_numeric_ok split: if_splits option.splits)

lemma using_pair_in: "using_pair sc n = Ok e \<Longrightarrow> scope_ok sc \<Longrightarrow> expr_in sc e"
  by (auto simp: using_pair_def bind_Ok ok_or_def intro!: equality_in dest: resolve_in last_named_in split: option.splits)

lemma natural_pairs_in: "natural_pairs sc ns = Ok es \<Longrightarrow> scope_ok sc \<Longrightarrow> list_all (\<lambda>e. expr_in sc e) es"
  by (induction ns arbitrary: es)
    (auto simp: bind_Ok intro!: equality_in dest: resolve_in last_named_in split: option.splits outcome.splits)

lemma scope_ok_empty: "scope_ok []"
  by (simp add: scope_ok_def)

lemma scope_ok_snoc: "scope_ok sc \<Longrightarrow> sc_index c = length sc \<Longrightarrow> scope_ok (sc @ [c])"
  by (auto simp: scope_ok_def nth_append less_Suc_eq)

lemma scope_ok_add_table: "scope_ok sc \<Longrightarrow> scope_ok (add_table q cs n sc)"
  by (induction cs arbitrary: sc) (simp_all add: scope_ok_snoc)

lemma scope_ok_add_ref: "scope_ok sc \<Longrightarrow> scope_ok (add_table_ref_to_scope t n sc)"
proof (cases t)
  case (SubqueryRef q al)
  let ?step = "\<lambda>c sc. let sc' = add_derived (oc_name c) (oc_type c) (oc_nullable c \<or> n) sc; idx = length sc' - 1
    in sc'[idx := (sc' ! idx)\<lparr> sc_qualifier := Some al \<rparr>]"
  assume "scope_ok sc"
  then have "scope_ok (fold ?step cs sc)" for cs
    by (induction cs arbitrary: sc) (simp_all add: add_derived_def scope_ok_snoc)
  then show ?thesis using SubqueryRef by (simp add: add_table_ref_to_scope_def)
qed (simp add: add_table_ref_to_scope_def scope_ok_add_table)

lemma order_by_alias_in:
  "order_by_alias ps e = Ok (Some b) \<Longrightarrow> list_all (\<lambda>p. expr_in sc (bi_expr p)) ps \<Longrightarrow> expr_in sc b"
  by (auto simp: order_by_alias_def Let_def list_all_iff find_Some_iff
    split: ast_expr.splits literal.splits if_splits)

lemma outer_join_kind: "outer_join (translate_join_kind k) \<longleftrightarrow> k = ALeftOuter \<or> k = AFullOuter \<or> k = ARightOuter"
  by (cases k) (simp_all add: outer_join_def)

lemma list_all_concat: "list_all (list_all P) xss \<Longrightarrow> list_all P (concat xss)"
  by (auto simp: list_all_iff)

lemma map_err_Ok: "map_err f m = Ok a \<longleftrightarrow> m = Ok a"
  by (cases m) simp_all

lemmas in_simps = bind_Ok Let_def from_scope_def joins_scope_def scope_ok_empty scope_ok_add_ref column_expr_in

lemma item_case: "case_bound_select_item (\<lambda>e a. f e) = (\<lambda>p. f (bi_expr p))"
  by (rule ext) (simp split: bound_select_item.split)

lemma order_case: "case_bound_order_by (\<lambda>e a n. f e) = (\<lambda>k. f (bo_expr k))"
  by (rule ext) (simp split: bound_order_by.split)

lemma binds_in:
  fixes env :: "'b binder_env"
  shows "\<And>b. bind_expr env sc e = Ok b \<Longrightarrow> scope_ok sc \<Longrightarrow> expr_in sc b"
    "\<And>s. bind_select env q = Ok s \<Longrightarrow> select_in s"
    "\<And>sc' bs. bind_from env sc ts = Ok (sc', bs) \<Longrightarrow> scope_ok sc \<Longrightarrow>
       sc' = from_scope sc bs \<and> scope_ok sc' \<and> list_all (\<lambda>x. table_in x) bs"
    "\<And>b. bind_table_ref env t = Ok b \<Longrightarrow> table_in b"
    "\<And>sc' bs. bind_joins env sc js = Ok (sc', bs) \<Longrightarrow> scope_ok sc \<Longrightarrow>
       sc' = joins_scope sc bs \<and> scope_ok sc' \<and> joins_in sc bs"
    "\<And>d. bind_join_condition env sc r c = Ok d \<Longrightarrow> scope_ok sc \<Longrightarrow> condition_in sc d"
    "\<And>is. bind_item env sc i = Ok is \<Longrightarrow> scope_ok sc \<Longrightarrow> list_all (\<lambda>p. expr_in sc (bi_expr p)) is"
    "\<And>k. bind_order_by env sc ps ob = Ok k \<Longrightarrow> scope_ok sc \<Longrightarrow> list_all (\<lambda>p. expr_in sc (bi_expr p)) ps \<Longrightarrow> expr_in sc (bo_expr k)"
proof (induction env sc e and env q and env sc ts and env t and env sc js and env sc r c and env sc i and env sc ps ob
    rule: bind_expr_bind_select_bind_from_bind_table_ref_bind_joins_bind_join_condition_bind_item_bind_order_by.induct)
  case (1 env sc l)
  then show ?case by (cases l) auto
next
  case (2 env sc c)
  then show ?case by (auto simp: bind_Ok dest!: resolve_in intro: column_expr_in)
next
  case (3 env sc left op right)
  then show ?case by (auto simp: bind_Ok dest: infer_binary_ok)
next
  case (9 env sc e es neg)
  then show ?case by (auto simp: bind_Ok elim!: traverse_list_all)
next
  case (13 env sc name args d)
  let ?bind = "\<lambda>a. if a = AWildcard then Ok (BoundExpr (ELiteral (LInteger 1)) TI64 False) else bind_expr env sc a"
  obtain bs where bs: "traverse ?bind args = Ok bs" using "13.prems" by (auto simp: bind_Ok)
  have "list_all (\<lambda>x. expr_in sc x) bs"
    by (rule traverse_list_all [OF bs]) (use 13 in \<open>auto split: if_splits\<close>)
  then show ?case using "13.prems" bs by (auto simp: bind_Ok simp del: infer_function_type.simps split: prod.splits)
next
  case (12 env sc q)
  then obtain s where s: "bind_select env q = Ok s" "length (bs_output s) = 1" "b = BoundExpr (ESubquery s) (oc_type (bs_output s ! 0)) (oc_nullable (bs_output s ! 0))"
    by (auto simp: bind_Ok split: if_splits)
  then show ?case using 12 by (cases "bs_output s") auto
next
  case (15 env sc operand wts els)
  let ?both = "\<lambda>(w, t). bind_ok (bind_expr env sc w) (\<lambda>bw. bind_ok (bind_expr env sc t) (\<lambda>bt. Ok (bw, bt)))"
  obtain bo bwt be where p: "opt_ok (\<lambda>x. bind_expr env sc x) operand = Ok bo" "traverse ?both wts = Ok bwt"
      "opt_ok (\<lambda>x. bind_expr env sc x) els = Ok be" and b: "b = BoundExpr (ECase bo bwt be) (case_type bwt be) (case_nullable bwt be)"
    using "15.prems"(1) by (auto simp: bind_Ok)
  have "pred_option (\<lambda>x. expr_in sc x) bo" by (rule opt_ok_pred [OF p(1)]) (use 15 in auto)
  moreover have "pred_option (\<lambda>x. expr_in sc x) be" by (rule opt_ok_pred [OF p(3)]) (use 15 p in auto)
  moreover have "list_all (\<lambda>(w, r). expr_in sc w \<and> expr_in sc r) bwt"
    by (rule traverse_list_all [OF p(2)]) (use 15 p in \<open>fastforce simp: bind_Ok\<close>)
  ultimately show ?case using b by simp
next
  case (17 env ps ts js wh gb hv ob lim off d)
  let ?e = "\<lambda>sc x. bind_expr env sc x"
  from "17.prems" obtain sc0 bts sc bjs bwh bgb bhv items bob blim boff where
    p: "bind_from env [] ts = Ok (sc0, bts)" "bind_joins env sc0 js = Ok (sc, bjs)" "opt_ok (?e sc) wh = Ok bwh"
      "traverse (?e sc) gb = Ok bgb" "opt_ok (?e sc) hv = Ok bhv" "traverse (\<lambda>x. bind_item env sc x) ps = Ok items"
      "traverse (\<lambda>x. bind_order_by env sc (concat items) x) ob = Ok bob" "opt_ok (?e sc) lim = Ok blim" "opt_ok (?e sc) off = Ok boff"
    and s: "s = BoundSelect (concat items) bts bjs bwh bgb bhv bob blim boff d (output_of (concat items))"
    by (auto simp: bind_Ok Let_def output_of_def)
  have f: "sc0 = from_scope [] bts" "scope_ok sc0" "list_all (\<lambda>x. table_in x) bts"
    using "17.IH"(1) p(1) scope_ok_empty by auto
  have j: "sc = joins_scope sc0 bjs" "scope_ok sc" "joins_in sc0 bjs" using "17.IH"(2) p f by auto
  have "list_all (\<lambda>p. expr_in sc (bi_expr p)) (concat items)"
    by (rule list_all_concat, rule traverse_list_all [OF p(6)]) (use "17.IH"(6) p j in auto)
  moreover have "pred_option (\<lambda>x. expr_in sc x) bwh" by (rule opt_ok_pred [OF p(3)]) (use "17.IH"(3) p j in auto)
  moreover have "list_all (\<lambda>x. expr_in sc x) bgb" by (rule traverse_list_all [OF p(4)]) (use "17.IH"(4) p j in auto)
  moreover have "pred_option (\<lambda>x. expr_in sc x) bhv" by (rule opt_ok_pred [OF p(5)]) (use "17.IH"(5) p j in auto)
  moreover have "pred_option (\<lambda>x. expr_in sc x) blim" by (rule opt_ok_pred [OF p(8)]) (use "17.IH"(8) p j in auto)
  moreover have "pred_option (\<lambda>x. expr_in sc x) boff" by (rule opt_ok_pred [OF p(9)]) (use "17.IH"(9) p j in auto)
  moreover have "list_all (\<lambda>k. expr_in sc (bo_expr k)) bob"
    by (rule traverse_list_all [OF p(7)]) (use "17.IH"(7) p j calculation(1) in auto)
  ultimately show ?case using s f j by (simp add: Let_def item_case order_case)
next
  case (28 env sc)
  then show ?case by (auto simp: wildcard_in)
next
  case (29 env sc q)
  then show ?case by (auto simp: wildcard_in all_columns_for_qualifier_def Let_def split: if_splits)
next
  case (31 env sc ps e asc nf)
  then show ?case by (auto simp: bind_Ok dest: order_by_alias_in split: option.splits)
next
  case (18)
  then show ?case by (simp add: from_scope_def)
next
  case (19)
  then show ?case by (fastforce simp: bind_Ok from_scope_def scope_ok_add_ref)
next
  case (22)
  then show ?case by (simp add: joins_scope_def)
next
  case (23)
  then show ?case by (fastforce simp: bind_Ok joins_scope_def scope_ok_add_ref Let_def outer_join_kind)
qed (auto simp: bind_Ok using_pair_in natural_pairs_in elim!: traverse_list_all split: if_splits)

text \<open>C24: every query the binder accepts satisfies the invariant, at every depth: each column of an
  expression is the column of that clause's scope at the bound index, with its name, qualifier, type and
  nullability; a join condition only reads the tables joined so far; operators, functions, casts and CASE
  have the types of the binder's rules, with the wider of two numeric types; subqueries used as values have
  exactly one column; the output columns are the projections.\<close>

theorem bound_queries_well_typed:
  "bind_select env q = Ok s \<Longrightarrow> select_in s"
  by (rule binds_in)

abbreviation col :: "string \<Rightarrow> string \<Rightarrow> ast_expr" where
  "col q n \<equiv> AColumn \<lparr> cr_table = Some q, cr_column = n \<rparr>"

text \<open>\<open>SELECT t.b + x.A FROM t JOIN t AS x ON t.a = x.a WHERE x.b IS NULL\<close>.\<close>

definition demo_query :: select_stmt where
  "demo_query = SelectStmt [SelectExpr (ABinary (col ''t'' ''b'') Add (col ''x'' ''A'')) None] [NamedTable ''t'' None]
     [AstJoin AInner (NamedTable ''t'' (Some ''x'')) (AOn (ABinary (col ''t'' ''a'') Eq (col ''x'' ''a'')))]
     (Some (AIsNull (col ''x'' ''b''))) [] None [] None None False"

lemma demo_bound:
  "\<exists>s t. bind_select (demo_env :: 'b binder_env) demo_query = Ok s \<and> bs_from s = [t] \<and> map oc_type (bs_output s) = [TI64] \<and>
     map sc_type (select_scope s) = [TI64, TI16, TI64, TI16]"
  by (simp add: demo_query_def demo_simps select_scope_def from_scope_def joins_scope_def)

theorem bound_queries_well_typed_witness:
  "\<exists>s. bind_select (demo_env :: 'b binder_env) demo_query = Ok s \<and> select_in s \<and> map oc_type (bs_output s) = [TI64]"
proof -
  obtain s t where s: "bind_select (demo_env :: 'b binder_env) demo_query = Ok s" "bs_from s = [t]" "map oc_type (bs_output s) = [TI64]"
    using demo_bound [where 'b = 'b] by (elim exE conjE) (rule that)
  show ?thesis by (intro exI [of _ s] conjI s bound_queries_well_typed [OF s(1)])
qed

section \<open>The scope and the plan\<close>

text \<open>A column of the scope and the planned column that holds it. The plan has the qualified name where the
  table has an alias; it does not add the nullability an outer join causes.\<close>

definition planned_as :: "scope_column \<Rightarrow> output_column \<Rightarrow> bool" where
  "planned_as c p \<longleftrightarrow> oc_type p = sc_type c \<and> (oc_nullable p \<longrightarrow> sc_nullable c) \<and>
     (oc_name p = sc_name c \<or> (case sc_qualifier c of None \<Rightarrow> False | Some q \<Rightarrow> oc_name p = q @ ''.'' @ sc_name c))"

lemma planned_snoc: "list_all2 planned_as sc cols \<Longrightarrow> planned_as c p \<Longrightarrow> list_all2 planned_as (sc @ [c]) (cols @ [p])"
  by (simp add: list_all2_appendI)

lemma planned_add_table:
  "list_all2 planned_as sc cols \<Longrightarrow> alias = None \<or> alias = Some q \<Longrightarrow>
   list_all2 planned_as (add_table (Some q) cs n sc) (cols @ map (scan_column alias) cs)"
proof (induction cs arbitrary: sc cols)
  case (Cons c cs)
  let ?c = "\<lparr> sc_qualifier = Some q, sc_name = col_name c, sc_type = col_type c, sc_nullable = col_nullable c \<or> n,
    sc_index = length sc, sc_catalog = Some c \<rparr>"
  have "planned_as ?c (scan_column alias c)" using Cons(3) by (auto simp: planned_as_def scan_column_def)
  then have "list_all2 planned_as (sc @ [?c]) (cols @ [scan_column alias c])" using Cons(2) by (rule planned_snoc [rotated])
  from Cons(1) [OF this Cons(3)] show ?case by simp
qed simp

lemma planned_add_derived:
  assumes "\<And>c. c \<in> set cs \<Longrightarrow> f c = c \<or> f c = c\<lparr> oc_name := al @ ''.'' @ oc_name c \<rparr>"
  shows "list_all2 planned_as sc cols \<Longrightarrow> list_all2 planned_as (fold (\<lambda>c sc.
         let sc' = add_derived (oc_name c) (oc_type c) (oc_nullable c \<or> n) sc; idx = length sc' - 1
         in sc'[idx := (sc' ! idx)\<lparr> sc_qualifier := Some al \<rparr>]) cs sc) (cols @ map f cs)"
  using assms
proof (induction cs arbitrary: sc cols)
  case (Cons c cs)
  let ?c = "\<lparr> sc_qualifier = Some al, sc_name = oc_name c, sc_type = oc_type c, sc_nullable = oc_nullable c \<or> n,
    sc_index = length sc, sc_catalog = None \<rparr>"
  have "planned_as ?c (f c)" using Cons(3) [of c] by (auto simp: planned_as_def)
  then have 1: "list_all2 planned_as (sc @ [?c]) (cols @ [f c])" using Cons(2) by (rule planned_snoc [rotated])
  show ?case using Cons(1) [OF 1] Cons(3) by (simp add: add_derived_def)
qed simp

lemma plan_select_schema: "plan_schema (plan_select s) = bs_output s"
  by (cases s) (simp add: plan_above_def Let_def)

lemma qualify_schema:
  "plan_schema (qualify a p) = plan_schema p \<or> plan_schema (qualify a p) = map (\<lambda>c. c\<lparr> oc_name := a @ ''.'' @ oc_name c \<rparr>) (plan_schema p)"
  by (auto simp: qualify_def split: logical_plan.split)

lemma planned_add_ref:
  assumes "list_all2 planned_as sc cols"
  shows "list_all2 planned_as (add_table_ref_to_scope t n sc) (cols @ plan_schema (plan_table_ref t))"
proof (cases t)
  case (BaseTable tab cs al)
  then show ?thesis using planned_add_table [OF assms, of al] by (auto simp: add_table_ref_to_scope_def base_scan_def split: option.split)
next
  case (SubqueryRef q al)
  have "\<exists>f. plan_schema (plan_table_ref t) = map f (bs_output q) \<and> (\<forall>c. f c = c \<or> f c = c\<lparr> oc_name := al @ ''.'' @ oc_name c \<rparr>)"
    using qualify_schema [of al "plan_select q"] SubqueryRef
    by (elim disjE) (intro exI [of _ id], simp add: plan_select_schema,
        intro exI [of _ "\<lambda>c. c\<lparr> oc_name := al @ ''.'' @ oc_name c \<rparr>"], simp add: plan_select_schema)
  then obtain f where f: "plan_schema (plan_table_ref t) = map f (bs_output q)"
    "\<And>c. f c = c \<or> f c = c\<lparr> oc_name := al @ ''.'' @ oc_name c \<rparr>" by blast
  show ?thesis unfolding f(1) unfolding SubqueryRef add_table_ref_to_scope_def bound_table_ref.case
    by (rule planned_add_derived [OF f(2) assms])
qed

lemma planned_joins:
  "list_all2 planned_as sc (plan_schema p) \<Longrightarrow> list_all2 planned_as (joins_scope sc js) (plan_schema (plan_joins p js))"
proof (induction js arbitrary: sc p)
  case (Cons j js)
  obtain k t c where j: "j = BoundJoin k t c" by (cases j)
  let ?r = "plan_table_ref t"
  have "list_all2 planned_as (add_table_ref_to_scope t (outer_join k) sc)
      (plan_schema (Join k p ?r c (merge_schemas (plan_schema p) (plan_schema ?r))))"
    using planned_add_ref [OF Cons(2)] by (simp add: merge_schemas_def)
  from Cons(1) [OF this] show ?case by (simp add: j joins_scope_def Let_def)
qed (simp add: joins_scope_def)

lemma column_in_fields:
  "column_in sc cr ty n \<Longrightarrow> sc_type (sc ! scope_index cr) = ty \<and> sc_nullable (sc ! scope_index cr) = n \<and>
     sc_name (sc ! scope_index cr) = column_name cr \<and> sc_qualifier (sc ! scope_index cr) = qualifier cr"
  by (cases cr) (auto simp: column_in_def column_expr_def)

text \<open>The expressions of WHERE, GROUP BY and the projections.\<close>

definition clause_exprs :: "bound_select \<Rightarrow> bound_expr list" where
  "clause_exprs s = (case bs_where s of None \<Rightarrow> [] | Some e \<Rightarrow> [e]) @ bs_group_by s @ map bi_expr (bs_projections s)"

lemma select_in_clauses: "select_in s \<Longrightarrow> list_all (expr_in (select_scope s)) (clause_exprs s)"
  by (cases s; cases "bs_where s") (auto simp: clause_exprs_def select_scope_def Let_def list_all_iff item_case)

text \<open>C25: for an accepted query with one FROM item, whatever its joins, the expressions of WHERE, GROUP BY
  and the projections are bound in the scope of the query (each column reference is \<open>column_in\<close> it), and the
  plan of FROM and joins has one column for each column of that scope, in order, of the same type, with
  the same name or the name qualified by the alias, and nullable only where the scope has it nullable. So
  each column reference of the scope points into the planned rows at a column with its type and its name.
  (With more than one FROM item only the first is planned.)\<close>

theorem plan_has_scope_columns:
  assumes "bind_select env q = Ok s" "bs_from s = [t]"
  shows "list_all (expr_in (select_scope s)) (clause_exprs s) \<and>
    list_all2 planned_as (select_scope s) (plan_schema (plan_joins (plan_table_ref t) (bs_joins s))) \<and>
    (column_in (select_scope s) cr ty n \<longrightarrow>
       scope_index cr < length (plan_schema (plan_joins (plan_table_ref t) (bs_joins s))) \<and>
       (let c = plan_schema (plan_joins (plan_table_ref t) (bs_joins s)) ! scope_index cr
        in oc_type c = ty \<and> (oc_nullable c \<longrightarrow> n) \<and>
          (oc_name c = column_name cr \<or> (case qualifier cr of None \<Rightarrow> False | Some a \<Rightarrow> oc_name c = a @ ''.'' @ column_name cr))))"
proof -
  let ?schema = "plan_schema (plan_joins (plan_table_ref t) (bs_joins s))"
  have "list_all2 planned_as (from_scope [] [t]) (plan_schema (plan_table_ref t))"
    using planned_add_ref [of "[]" "[]" t False] by (simp add: from_scope_def)
  then have 1: "list_all2 planned_as (select_scope s) ?schema"
    using planned_joins assms(2) by (simp add: select_scope_def)
  have 2: "list_all (expr_in (select_scope s)) (clause_exprs s)" using binds_in(2) [OF assms(1)] by (rule select_in_clauses)
  have "scope_index cr < length ?schema \<and> planned_as (select_scope s ! scope_index cr) (?schema ! scope_index cr)"
    if "column_in (select_scope s) cr ty n"
    using that 1 by (auto simp: column_in_def list_all2_conv_all_nth)
  then show ?thesis using 1 2 column_in_fields [of "select_scope s" cr ty n] by (auto simp: planned_as_def Let_def split: option.splits)
qed

theorem plan_has_scope_columns_witness:
  "\<exists>s t. bind_select (demo_env :: 'b binder_env) demo_query = Ok s \<and> bs_from s = [t] \<and>
     list_all2 planned_as (select_scope s) (plan_schema (plan_joins (plan_table_ref t) (bs_joins s))) \<and>
     map sc_type (select_scope s) = [TI64, TI16, TI64, TI16]"
proof -
  obtain s t where s: "bind_select (demo_env :: 'b binder_env) demo_query = Ok s" "bs_from s = [t]"
      "map sc_type (select_scope s) = [TI64, TI16, TI64, TI16]"
    using demo_bound [where 'b = 'b] by (elim exE conjE) (rule that)
  show ?thesis using plan_has_scope_columns [OF s(1,2)] by (intro exI [of _ s] exI [of _ t] conjI s) blast
qed

section \<open>Shared columns of joins\<close>

definition same_name :: "scope \<Rightarrow> string \<Rightarrow> scope_column list" where
  "same_name sc name = filter (\<lambda>c. eq_ignore_case (sc_name c) name) sc"

lemma resolve_same: "resolve sc None n = Ok c \<Longrightarrow> same_name sc n = [c]"
  by (auto simp: resolve_def same_name_def Let_def split: list.splits)

lemma resolve_shared:
  "2 \<le> length (same_name sc n) \<Longrightarrow> (resolve sc None n :: ('b bind_error, scope_column) outcome) = Err (AmbiguousColumn n)"
  by (auto simp: resolve_def same_name_def Let_def split: list.split)

lemma pair_is_itself:
  assumes "resolve sc None n = Ok l" "last_named sc n = Some r"
  shows "l = r"
  using resolve_same [OF assms(1)] assms(2) by (auto simp: same_name_def last_named_def)

lemma using_itself: "using_pair sc n = Ok e \<Longrightarrow> \<exists>c. same_name sc n = [c] \<and> e = equality c c"
  using pair_is_itself by (fastforce simp: using_pair_def ok_or_def dest: resolve_same split: option.splits)

lemma natural_itself: "natural_pairs sc ns = Ok es \<Longrightarrow> e \<in> set es \<Longrightarrow> \<exists>n\<in>set ns. \<exists>c. same_name sc n = [c] \<and> e = equality c c"
proof (induction ns arbitrary: es)
  case (Cons n ns)
  then show ?case using pair_is_itself
    by (fastforce dest: resolve_same split: outcome.splits option.splits)
qed simp

text \<open>C27: USING and NATURAL never compare the two tables: every equation they bind compares one column with
  itself, a column whose name no other column in scope has. A column the tables share makes USING fail as
  ambiguous, and NATURAL drops it silently.\<close>

theorem shared_columns_are_not_joined:
  fixes env :: "'b binder_env"
  shows "(bind_join_condition env sc right c = Ok (Using es) \<or> bind_join_condition env sc right c = Ok (Natural es) \<longrightarrow>
      list_all (\<lambda>e. \<exists>n col. same_name sc n = [col] \<and> e = equality col col) es) \<and>
   (2 \<le> length (same_name sc n) \<longrightarrow>
      bind_join_condition env sc right (AUsing (n # ns)) = Err (AmbiguousColumn n) \<and>
      natural_pairs sc (n # ms) = (natural_pairs sc ms :: ('b bind_error, bound_expr list) outcome))"
proof (intro conjI impI)
  assume "bind_join_condition env sc right c = Ok (Using es) \<or> bind_join_condition env sc right c = Ok (Natural es)"
  then consider (u) names where "(traverse (using_pair sc) names :: ('b bind_error, bound_expr list) outcome) = Ok es"
    | (n) "(natural_pairs sc (right_names env right) :: ('b bind_error, bound_expr list) outcome) = Ok es"
    by (cases c) (auto intro: that)
  then show "list_all (\<lambda>e. \<exists>n col. same_name sc n = [col] \<and> e = equality col col) es"
  proof cases
    case u
    then show ?thesis by (rule traverse_list_all) (blast dest: using_itself)
  next
    case n
    then show ?thesis unfolding list_all_iff by (blast dest: natural_itself)
  qed
qed (simp_all add: using_pair_def resolve_shared)

definition shared_scope :: scope where
  "shared_scope = add_table (Some ''x'') [sys_column 3 8 ''a'' 0 TI64] False
     (add_table (Some ''t'') [sys_column 1 7 ''a'' 0 TI64, sys_column 2 7 ''b'' 1 TI16] False [])"

theorem shared_columns_are_not_joined_witness:
  "bind_join_condition (demo_env :: 'b binder_env) shared_scope (BaseTable SYS_TABLE_TABLES [] None) (AUsing [''a'']) = Err (AmbiguousColumn ''a'') \<and>
   (\<exists>es. bind_join_condition (demo_env :: 'b binder_env) shared_scope (BaseTable SYS_TABLE_TABLES [] None) (AUsing [''b'']) = Ok (Using es) \<and>
     list_all (\<lambda>e. \<exists>n col. same_name shared_scope n = [col] \<and> e = equality col col) es)"
proof -
  have 1: "2 \<le> length (same_name shared_scope ''a'')"
    by (simp add: same_name_def shared_scope_def eq_ignore_case_def ascii_demo)
  have "\<exists>es. bind_join_condition (demo_env :: 'b binder_env) shared_scope (BaseTable SYS_TABLE_TABLES [] None) (AUsing [''b'']) = Ok (Using es)"
    by (simp add: using_pair_def resolve_def last_named_def ok_or_def shared_scope_def eq_ignore_case_def ascii_demo)
  then obtain es where 2: "bind_join_condition (demo_env :: 'b binder_env) shared_scope (BaseTable SYS_TABLE_TABLES [] None) (AUsing [''b'']) = Ok (Using es)"
    by blast
  show ?thesis using shared_columns_are_not_joined [of "demo_env :: 'b binder_env" shared_scope "BaseTable SYS_TABLE_TABLES [] None" "AUsing [''b'']" es "''a''" "[]" "[]"] 1 2
    by blast
qed

end
