(* ===== verification/Session.thy ===== *)
theory Session
  imports Binder
begin

text \<open>
  \<open>src/src/transaction/mod.rs\<close>, \<open>src/src/session.rs\<close>, \<open>src/src/error.rs\<close> and the connection loop of
  \<open>src/src/server/tcp.rs\<close>: transactions, sessions and what clients' requests do to them. The parser,
  which translates the tree of a third-party crate, is an argument. A panic ends the task of its
  connection, which drops the session; the counters are shared by all sessions.
\<close>

section \<open>Transactions\<close>

fun as_str :: "isolation_level \<Rightarrow> string" where
  "as_str IsoReadUncommitted = ''READ UNCOMMITTED''"
| "as_str IsoReadCommitted = ''READ COMMITTED''"
| "as_str IsoRepeatableRead = ''REPEATABLE READ''"
| "as_str IsoSnapshot = ''SNAPSHOT''"
| "as_str IsoSerializable = ''SERIALIZABLE''"

definition isolation_level_default :: isolation_level where
  "isolation_level_default = IsoRepeatableRead"

datatype txn_state = TxnActive | TxnCommitted | TxnAborted

record transaction =
  tx_id :: u64
  tx_read_ts :: u64
  tx_commit_ts :: "u64 option"
  tx_state :: txn_state
  tx_isolation :: isolation_level

definition transaction_new :: "u64 \<Rightarrow> u64 \<Rightarrow> isolation_level \<Rightarrow> transaction" where
  "transaction_new i ts level = \<lparr> tx_id = i, tx_read_ts = ts, tx_commit_ts = None, tx_state = TxnActive, tx_isolation = level \<rparr>"

record transaction_manager =
  next_txn_id :: u64
  tm_current_ts :: u64

definition tm_new :: transaction_manager where
  "tm_new = \<lparr> next_txn_id = 1, tm_current_ts = 0 \<rparr>"

text \<open>\<open>fetch_add\<close> wraps around.\<close>

definition tm_begin :: "isolation_level \<Rightarrow> transaction_manager \<Rightarrow> transaction \<times> transaction_manager" where
  "tm_begin level tm = (transaction_new (next_txn_id tm) (tm_current_ts tm) level, tm\<lparr> next_txn_id := next_txn_id tm + 1 \<rparr>)"

section \<open>Sessions\<close>

datatype 'b db_error =
    ParseError string
  | BindError "'b bind_error"
  | TooManyStatements
  | EmptyStatement
  | TransactionAlreadyInProgress
  | InvalidTransactionState string
  | NotInTransaction

text \<open>\<open>todo!()\<close>.\<close>

definition tm_commit :: "transaction \<Rightarrow> ('b db_error, unit) outcome" where
  "tm_commit t = Panic"

definition tm_rollback :: "transaction \<Rightarrow> ('b db_error, unit) outcome" where
  "tm_rollback t = Panic"

record session =
  session_id :: u64
  current_txn :: "transaction option"
  session_isolation :: isolation_level
  next_txn_isolation :: "isolation_level option"
  session_next_oid :: u32

definition session_new :: "u64 \<Rightarrow> session" where
  "session_new i = \<lparr> session_id = i, current_txn = None, session_isolation = isolation_level_default,
     next_txn_isolation = None, session_next_oid = 1 \<rparr>"

type_synonym 'b parser_fun = "string \<Rightarrow> ('b db_error, statement list) outcome"

definition execute_sql_in_txn :: "statement \<Rightarrow> (session \<times> transaction_manager, 'b db_error, string) prog" where
  "execute_sql_in_txn stmt = ret []"

definition finish_txn :: "(transaction \<Rightarrow> ('b db_error, unit) outcome) \<Rightarrow> string \<Rightarrow> (session \<times> transaction_manager, 'b db_error, string) prog" where
  "finish_txn finish reply = (\<lambda>(ses, tm). (case current_txn ses of
       None \<Rightarrow> fail NotInTransaction (ses, tm)
     | Some t \<Rightarrow> (case finish t of
           Ok _ \<Rightarrow> ret reply (ses\<lparr> current_txn := None \<rparr>, tm)
         | Err e \<Rightarrow> fail e (ses, tm)
         | Panic \<Rightarrow> lift Panic (ses, tm))))"

fun execute_statement :: "statement \<Rightarrow> (session \<times> transaction_manager, 'b db_error, string) prog" where
  "execute_statement (BeginTransaction level) (ses, tm) =
     (if current_txn ses \<noteq> None then fail TransactionAlreadyInProgress (ses, tm)
      else (case tm_begin level tm of (t, tm') \<Rightarrow> ret ''BEGIN'' (ses\<lparr> current_txn := Some t \<rparr>, tm')))"
| "execute_statement Commit (ses, tm) = finish_txn tm_commit ''COMMIT'' (ses, tm)"
| "execute_statement Rollback (ses, tm) = finish_txn tm_rollback ''ROLLBACK'' (ses, tm)"
| "execute_statement stmt (ses, tm) = execute_sql_in_txn stmt (ses, tm)"

definition execute_sql :: "'b parser_fun \<Rightarrow> string \<Rightarrow> (session \<times> transaction_manager, 'b db_error, string) prog" where
  "execute_sql parse sql = pbind (lift (parse sql)) (\<lambda>ast. case ast of
       [stmt] \<Rightarrow> execute_statement stmt
     | [] \<Rightarrow> fail EmptyStatement
     | _ \<Rightarrow> fail TooManyStatements)"

section \<open>Connections\<close>

text \<open>The server: the manager and the session counter all connections share, and the session of each open
  connection.\<close>

record server =
  sv_manager :: transaction_manager
  sv_counter :: u64
  sv_sessions :: "nat \<rightharpoonup> session"

definition server_new :: server where
  "server_new = \<lparr> sv_manager = tm_new, sv_counter = 1, sv_sessions = Map.empty \<rparr>"

text \<open>One step: a connection is accepted, a line (already trimmed) arrives on an open connection, or a
  connection ends. The answer is what is written back.\<close>

inductive server_step :: "'b parser_fun \<Rightarrow> server \<Rightarrow> server \<Rightarrow> bool" for parse where
  accept: "sv_sessions s c = None \<Longrightarrow>
     server_step parse s (s\<lparr> sv_counter := sv_counter s + 1, sv_sessions := (sv_sessions s)(c \<mapsto> session_new (sv_counter s)) \<rparr>)"
| blank: "sv_sessions s c = Some ses \<Longrightarrow> server_step parse s s"
| answered: "sv_sessions s c = Some ses \<Longrightarrow> sql \<noteq> [] \<Longrightarrow>
     execute_sql parse sql (ses, sv_manager s) = Some (r, ses', tm') \<Longrightarrow> r \<noteq> Panic \<Longrightarrow>
     server_step parse s (s\<lparr> sv_manager := tm', sv_sessions := (sv_sessions s)(c \<mapsto> ses') \<rparr>)"
| panicked: "sv_sessions s c = Some ses \<Longrightarrow> sql \<noteq> [] \<Longrightarrow>
     execute_sql parse sql (ses, sv_manager s) = Some (Panic, ses', tm') \<Longrightarrow>
     server_step parse s (s\<lparr> sv_manager := tm', sv_sessions := (sv_sessions s)(c := None) \<rparr>)"
| closed: "sv_sessions s c = Some ses \<Longrightarrow> server_step parse s (s\<lparr> sv_sessions := (sv_sessions s)(c := None) \<rparr>)"

inductive server_run :: "'b parser_fun \<Rightarrow> nat \<Rightarrow> server \<Rightarrow> bool" for parse where
  start: "server_run parse 0 server_new"
| step: "server_run parse n s \<Longrightarrow> server_step parse s s' \<Longrightarrow> server_run parse (Suc n) s'"

section \<open>What a request does\<close>

lemma execute_statement_cases:
  "execute_statement stmt (ses, tm) =
     (case stmt of
        BeginTransaction level \<Rightarrow>
          (if current_txn ses = None
           then Some (Ok ''BEGIN'', ses\<lparr> current_txn := Some (transaction_new (next_txn_id tm) (tm_current_ts tm) level) \<rparr>,
             tm\<lparr> next_txn_id := next_txn_id tm + 1 \<rparr>)
           else Some (Err TransactionAlreadyInProgress, ses, tm))
      | Commit \<Rightarrow> Some (if current_txn ses = None then Err NotInTransaction else Panic, ses, tm)
      | Rollback \<Rightarrow> Some (if current_txn ses = None then Err NotInTransaction else Panic, ses, tm)
      | _ \<Rightarrow> Some (Ok [], ses, tm))"
  by (cases stmt) (auto simp: tm_begin_def finish_txn_def tm_commit_def tm_rollback_def execute_sql_in_txn_def
    ret_def fail_def lift_def split: option.split)

lemma execute_sql_cases:
  "execute_sql parse sql (ses, tm) = (case parse sql of
       Err e \<Rightarrow> Some (Err e, ses, tm)
     | Panic \<Rightarrow> Some (Panic, ses, tm)
     | Ok [] \<Rightarrow> Some (Err EmptyStatement, ses, tm)
     | Ok [stmt] \<Rightarrow> execute_statement stmt (ses, tm)
     | Ok _ \<Rightarrow> Some (Err TooManyStatements, ses, tm))"
  by (auto simp: execute_sql_def pbind_def lift_def fail_def split: outcome.split list.split)

text \<open>A request changes nothing, or it begins a transaction in a session without one.\<close>

lemma execute_sql_effect:
  assumes "execute_sql parse sql (ses, tm) = Some (r, ses', tm')"
  shows "(ses' = ses \<and> tm' = tm) \<or>
    (\<exists>level. current_txn ses = None \<and> r = Ok ''BEGIN'' \<and>
       ses' = ses\<lparr> current_txn := Some (transaction_new (next_txn_id tm) (tm_current_ts tm) level) \<rparr> \<and>
       tm' = tm\<lparr> next_txn_id := next_txn_id tm + 1 \<rparr>)"
  using assms by (auto simp: execute_sql_cases execute_statement_cases split: outcome.splits list.splits statement.splits if_splits)

section \<open>Numbers of sessions and transactions\<close>

text \<open>Numbers handed out by a counter that starts at 1: all among the first \<open>k\<close>, none held twice.\<close>

definition numbered :: "nat \<Rightarrow> (nat \<rightharpoonup> u64) \<Rightarrow> bool" where
  "numbered k f \<longleftrightarrow> (\<forall>c w. f c = Some w \<longrightarrow> 0 < unat w \<and> unat w \<le> k) \<and> (\<forall>c c' w. f c = Some w \<longrightarrow> f c' = Some w \<longrightarrow> c = c')"

lemma unat_counter: "k < 2 ^ 64 \<Longrightarrow> unat (word_of_nat k :: u64) = k"
  by (simp add: unat_of_nat take_bit_nat_eq_self)

lemma numbered_fewer:
  assumes "numbered k f" "k \<le> k'" "\<And>c w. g c = Some w \<Longrightarrow> f c = Some w"
  shows "numbered k' g"
  unfolding numbered_def
proof (intro conjI allI impI)
  fix c w assume "g c = Some w"
  then have "f c = Some w" by (rule assms(3))
  then have "0 < unat w \<and> unat w \<le> k" using assms(1) unfolding numbered_def by blast
  then show "0 < unat w" "unat w \<le> k'" using assms(2) by simp_all
next
  fix c c' w assume "g c = Some w" "g c' = Some w"
  then have "f c = Some w" "f c' = Some w" by (simp_all add: assms(3))
  then show "c = c'" using assms(1) unfolding numbered_def by blast
qed

lemma numbered_next:
  assumes "numbered k f" "unat v = Suc k"
  shows "numbered (Suc k) (f(c \<mapsto> v))"
proof -
  have range: "f d = Some w \<Longrightarrow> 0 < unat w \<and> unat w \<le> k" and inj: "f d = Some w \<Longrightarrow> f d' = Some w \<Longrightarrow> d = d'" for d d' w
    using assms(1) unfolding numbered_def by blast+
  have old: "f d \<noteq> Some v" for d using range [of d v] assms(2) by auto
  have upd: "(f(c \<mapsto> v)) d = Some w \<longleftrightarrow> (if d = c then w = v else f d = Some w)" for d w by auto
  show ?thesis unfolding numbered_def upd
  proof (intro conjI allI impI)
    fix d w assume "if d = c then w = v else f d = Some w"
    then show "0 < unat w" "unat w \<le> Suc k" using range [of d w] assms(2) by (auto split: if_splits)
  next
    fix d d' w assume "if d = c then w = v else f d = Some w" "if d' = c then w = v else f d' = Some w"
    then show "d = d'" using old inj [of d w d'] by (auto split: if_splits)
  qed
qed

lemma numbered_new: "numbered k f \<Longrightarrow> Suc k < 2 ^ 64 \<Longrightarrow> numbered (Suc k) (f(c \<mapsto> word_of_nat (Suc k)))"
  by (rule numbered_next) (assumption, rule unat_counter)

text \<open>What the server's connections hold.\<close>

definition session_ids :: "server \<Rightarrow> nat \<rightharpoonup> u64" where
  "session_ids s c = map_option session_id (sv_sessions s c)"

definition open_txn :: "server \<Rightarrow> nat \<rightharpoonup> transaction" where
  "open_txn s c = Option.bind (sv_sessions s c) current_txn"

definition txn_ids :: "server \<Rightarrow> nat \<rightharpoonup> u64" where
  "txn_ids s c = map_option tx_id (open_txn s c)"

definition fresh_txn :: "transaction \<Rightarrow> bool" where
  "fresh_txn t \<longleftrightarrow> tx_read_ts t = 0 \<and> tx_commit_ts t = None \<and> tx_state t = TxnActive"

definition server_ok :: "nat \<Rightarrow> server \<Rightarrow> bool" where
  "server_ok n s \<longleftrightarrow> (\<exists>a\<le>n. sv_counter s = word_of_nat (Suc a) \<and> numbered a (session_ids s)) \<and>
     (\<exists>b\<le>n. next_txn_id (sv_manager s) = word_of_nat (Suc b) \<and> numbered b (txn_ids s)) \<and>
     tm_current_ts (sv_manager s) = 0 \<and> (\<forall>c t. open_txn s c = Some t \<longrightarrow> fresh_txn t)"

lemma server_okI:
  "a \<le> n \<Longrightarrow> sv_counter s = word_of_nat (Suc a) \<Longrightarrow> numbered a (session_ids s) \<Longrightarrow>
   b \<le> n \<Longrightarrow> next_txn_id (sv_manager s) = word_of_nat (Suc b) \<Longrightarrow> numbered b (txn_ids s) \<Longrightarrow>
   tm_current_ts (sv_manager s) = 0 \<Longrightarrow> (\<And>c t. open_txn s c = Some t \<Longrightarrow> fresh_txn t) \<Longrightarrow> server_ok n s"
  unfolding server_ok_def by blast

lemma server_ok_keep:
  assumes "server_ok n s" "sv_counter s' = sv_counter s" "sv_manager s' = sv_manager s"
    "\<And>c ses. sv_sessions s' c = Some ses \<Longrightarrow> sv_sessions s c = Some ses"
  shows "server_ok (Suc n) s'"
proof -
  have ids: "session_ids s' c = Some w \<Longrightarrow> session_ids s c = Some w" for c w
    using assms(4) by (auto simp: session_ids_def)
  have open': "open_txn s' c = Some t \<Longrightarrow> open_txn s c = Some t" for c t
    using assms(4) by (auto simp: open_txn_def Option.bind_eq_Some_conv)
  then have txns: "txn_ids s' c = Some w \<Longrightarrow> txn_ids s c = Some w" for c w
    by (auto simp: txn_ids_def)
  from assms(1) obtain a b where a: "a \<le> n" "sv_counter s = word_of_nat (Suc a)" "numbered a (session_ids s)"
    and b: "b \<le> n" "next_txn_id (sv_manager s) = word_of_nat (Suc b)" "numbered b (txn_ids s)"
    and z: "tm_current_ts (sv_manager s) = 0" "\<And>c t. open_txn s c = Some t \<Longrightarrow> fresh_txn t"
    unfolding server_ok_def by blast
  have "numbered a (session_ids s')" by (rule numbered_fewer [OF a(3) order_refl ids])
  moreover have "numbered b (txn_ids s')" by (rule numbered_fewer [OF b(3) order_refl txns])
  moreover have "open_txn s' c = Some t \<Longrightarrow> fresh_txn t" for c t using z(2) open' by blast
  ultimately show ?thesis using a(1,2) b(1,2) z(1) assms(2,3)
    by (intro server_okI [of a _ _ b]) simp_all
qed

lemma server_ok_accept:
  assumes "server_ok n s" "Suc n < 2 ^ 64" "sv_sessions s c = None"
  shows "server_ok (Suc n) (s\<lparr> sv_counter := sv_counter s + 1, sv_sessions := (sv_sessions s)(c \<mapsto> session_new (sv_counter s)) \<rparr>)"
    (is "server_ok _ ?s")
proof -
  from assms(1) obtain a b where a: "a \<le> n" "sv_counter s = word_of_nat (Suc a)" "numbered a (session_ids s)"
    and b: "b \<le> n" "next_txn_id (sv_manager s) = word_of_nat (Suc b)" "numbered b (txn_ids s)"
    and t: "tm_current_ts (sv_manager s) = 0" "\<And>c t. open_txn s c = Some t \<Longrightarrow> fresh_txn t"
    unfolding server_ok_def by blast
  have ids: "session_ids ?s = (session_ids s)(c \<mapsto> word_of_nat (Suc a))"
    using a(2) by (auto simp: session_ids_def session_new_def)
  have txns: "open_txn ?s = open_txn s" using assms(3) by (auto simp: open_txn_def session_new_def)
  have "numbered (Suc a) (session_ids ?s)" unfolding ids by (rule numbered_new) (use a assms(2) in auto)
  moreover have "sv_counter ?s = word_of_nat (Suc (Suc a))" using a(2) by simp
  moreover have "txn_ids ?s = txn_ids s" using txns by (auto simp: txn_ids_def)
  ultimately show ?thesis using a b t txns by (intro server_okI [of "Suc a" _ _ b]) simp_all
qed

lemma server_ok_begin:
  assumes "server_ok n s" "Suc n < 2 ^ 64" "sv_sessions s c = Some ses"
    and t: "t = transaction_new (next_txn_id (sv_manager s)) (tm_current_ts (sv_manager s)) level"
  shows "server_ok (Suc n) (s\<lparr> sv_manager := (sv_manager s)\<lparr> next_txn_id := next_txn_id (sv_manager s) + 1 \<rparr>,
     sv_sessions := (sv_sessions s)(c \<mapsto> ses\<lparr> current_txn := Some t \<rparr>) \<rparr>)"
    (is "server_ok _ ?s")
proof -
  from assms(1) obtain a b where a: "a \<le> n" "sv_counter s = word_of_nat (Suc a)" "numbered a (session_ids s)"
    and b: "b \<le> n" "next_txn_id (sv_manager s) = word_of_nat (Suc b)" "numbered b (txn_ids s)"
    and z: "tm_current_ts (sv_manager s) = 0" "\<And>c t. open_txn s c = Some t \<Longrightarrow> fresh_txn t"
    unfolding server_ok_def by blast
  have ids: "session_ids ?s = session_ids s" using assms(3) by (auto simp: session_ids_def)
  have txns: "open_txn ?s = (open_txn s)(c \<mapsto> t)" by (simp add: fun_eq_iff open_txn_def)
  have "tx_id t = word_of_nat (Suc b)" unfolding t transaction_new_def b(2) by simp
  then have "txn_ids ?s = (txn_ids s)(c \<mapsto> word_of_nat (Suc b))"
    unfolding fun_eq_iff txn_ids_def txns by simp
  then have "numbered (Suc b) (txn_ids ?s)" using numbered_new [OF b(3)] b(1) assms(2) by simp
  moreover have "next_txn_id (sv_manager ?s) = word_of_nat (Suc (Suc b))" using b(2) by simp
  moreover have "fresh_txn t" using z(1) by (simp add: t transaction_new_def fresh_txn_def)
  ultimately show ?thesis using a b(1) z ids txns
    by (intro server_okI [of a _ _ "Suc b"]) (simp_all split: if_splits)
qed

lemma server_ok_step:
  assumes "server_ok n s" "server_step parse s s'" "Suc n < 2 ^ 64"
  shows "server_ok (Suc n) s'"
  using assms(2)
proof cases
  case (accept c)
  then show ?thesis using server_ok_accept [OF assms(1,3)] by simp
next
  case (blank c ses)
  then show ?thesis by (simp add: server_ok_keep [OF assms(1)])
next
  case (answered c ses sql r ses' tm')
  from execute_sql_effect [OF answered(4)] consider "ses' = ses" "tm' = sv_manager s"
    | level where "ses' = ses\<lparr> current_txn := Some (transaction_new (next_txn_id (sv_manager s)) (tm_current_ts (sv_manager s)) level) \<rparr>"
        "tm' = (sv_manager s)\<lparr> next_txn_id := next_txn_id (sv_manager s) + 1 \<rparr>"
    by blast
  then show ?thesis
  proof cases
    case 1
    then show ?thesis unfolding answered(1) by (intro server_ok_keep [OF assms(1)]) (use answered(2) in \<open>auto split: if_splits\<close>)
  next
    case 2
    show ?thesis unfolding answered(1) 2 by (rule server_ok_begin [OF assms(1,3) answered(2) refl])
  qed
next
  case (panicked c ses sql ses' tm')
  from execute_sql_effect [OF panicked(4)] have "tm' = sv_manager s" by auto
  then show ?thesis unfolding panicked(1) by (intro server_ok_keep [OF assms(1)]) (auto split: if_splits)
next
  case (closed c ses)
  then show ?thesis by (intro server_ok_keep [OF assms(1)]) (auto split: if_splits)
qed

lemma server_ok_run: "server_run parse n s \<Longrightarrow> n < 2 ^ 64 \<Longrightarrow> server_ok n s"
proof (induction rule: server_run.induct)
  case start
  show ?case by (rule server_okI [of 0 _ _ 0])
    (simp_all add: server_new_def tm_new_def numbered_def session_ids_def txn_ids_def open_txn_def)
next
  case (step n s s')
  then show ?case using server_ok_step by simp
qed

text \<open>C31: whatever the connections send, in any order, as long as fewer than \<open>2^64\<close> steps are taken: no two
  open connections have one session number, no two open transactions one transaction number, and none of the
  numbers is 0; an open transaction is active, uncommitted and reads at time 0.\<close>

theorem server_numbers_distinct:
  assumes "server_run parse n s" "n < 2 ^ 64"
  shows "(\<forall>c c' i. session_ids s c = Some i \<longrightarrow> session_ids s c' = Some i \<longrightarrow> c = c') \<and>
    (\<forall>c c' t t'. open_txn s c = Some t \<longrightarrow> open_txn s c' = Some t' \<longrightarrow> tx_id t = tx_id t' \<longrightarrow> c = c') \<and>
    (\<forall>c t. open_txn s c = Some t \<longrightarrow> tx_id t \<noteq> 0 \<and> fresh_txn t)"
proof -
  obtain a b where a: "numbered a (session_ids s)" and b: "numbered b (txn_ids s)"
    and z: "\<And>c t. open_txn s c = Some t \<Longrightarrow> fresh_txn t"
    using server_ok_run [OF assms] unfolding server_ok_def by blast
  have "txn_ids s c = Some (tx_id t)" if "open_txn s c = Some t" for c t using that by (simp add: txn_ids_def)
  then show ?thesis using a b z unfolding numbered_def by (metis unat_0 less_irrefl)
qed

text \<open>C32: a transaction that a session has begun stays open, unchanged, in every step until its connection ends;
  no request of any connection finishes it. COMMIT and ROLLBACK inside a transaction panic, which ends the
  connection.\<close>

theorem transactions_never_finish:
  assumes "server_step parse s s'" "open_txn s c = Some t"
  shows "(open_txn s' c = Some t \<or> sv_sessions s' c = None) \<and>
    (current_txn ses \<noteq> None \<longrightarrow> execute_statement Commit (ses, tm) = Some (Panic, ses, tm) \<and>
       execute_statement Rollback (ses, tm) = Some (Panic, ses, tm))"
proof
  show "open_txn s' c = Some t \<or> sv_sessions s' c = None"
    using assms(1)
  proof cases
    case (answered d ses sql r ses' tm')
    from assms(2) obtain ses0 where c: "sv_sessions s c = Some ses0" "current_txn ses0 = Some t"
      by (auto simp: open_txn_def Option.bind_eq_Some_conv)
    show ?thesis using execute_sql_effect [OF answered(4)] answered c by (auto simp: open_txn_def)
  qed (use assms(2) in \<open>auto simp: open_txn_def split: if_splits\<close>)
qed (auto simp: execute_statement_cases)

section \<open>An example\<close>

definition demo_parse :: "'b parser_fun" where
  "demo_parse sql = (if sql = ''begin'' then Ok [BeginTransaction IsoSnapshot] else Ok [Commit])"

definition demo_txn :: "u64 \<Rightarrow> transaction" where
  "demo_txn i = transaction_new i 0 IsoSnapshot"

text \<open>Two connections, the first of which has begun a transaction; then both have.\<close>

definition demo_server :: "transaction option \<Rightarrow> u64 \<Rightarrow> server" where
  "demo_server second n = \<lparr> sv_manager = \<lparr> next_txn_id = n, tm_current_ts = 0 \<rparr>, sv_counter = 3,
     sv_sessions = [0 \<mapsto> (session_new 1)\<lparr> current_txn := Some (demo_txn 1) \<rparr>, 1 \<mapsto> (session_new 2)\<lparr> current_txn := second \<rparr>] \<rparr>"

lemma demo_begin:
  assumes "sv_sessions s c = Some ses" "current_txn ses = None" "tm_current_ts (sv_manager s) = 0"
  shows "server_step (demo_parse :: 'b parser_fun) s
    (s\<lparr> sv_manager := (sv_manager s)\<lparr> next_txn_id := next_txn_id (sv_manager s) + 1 \<rparr>,
       sv_sessions := (sv_sessions s)(c \<mapsto> ses\<lparr> current_txn := Some (demo_txn (next_txn_id (sv_manager s))) \<rparr>) \<rparr>)"
  by (rule server_step.answered [OF assms(1), of "''begin''" _ "Ok ''BEGIN''"])
    (simp_all add: execute_sql_cases execute_statement_cases demo_parse_def assms demo_txn_def)

lemma demo_run: "server_run (demo_parse :: 'b parser_fun) 4 (demo_server (Some (demo_txn 2)) 3)"
proof -
  let ?p = "demo_parse :: 'b parser_fun"
  define s1 where "s1 = server_new\<lparr> sv_counter := 2, sv_sessions := [0 \<mapsto> session_new 1] \<rparr>"
  define s2 where "s2 = s1\<lparr> sv_counter := 3, sv_sessions := [0 \<mapsto> session_new 1, 1 \<mapsto> session_new 2] \<rparr>"
  have 1: "server_step ?p server_new s1"
    using server_step.accept [of server_new 0 ?p] by (simp add: s1_def server_new_def)
  have 2: "server_step ?p s1 s2"
    using server_step.accept [of s1 1 ?p] by (simp add: s2_def s1_def)
  have 3: "server_step ?p s2 (demo_server None 2)"
    using demo_begin [of s2 0 "session_new 1"] by (simp add: s2_def s1_def server_new_def tm_new_def demo_server_def session_new_def fun_upd_twist)
  have 4: "server_step ?p (demo_server None 2) (demo_server (Some (demo_txn 2)) 3)"
    using demo_begin [of "demo_server None 2" 1 "(session_new 2)\<lparr> current_txn := None \<rparr>"] by (simp add: demo_server_def)
  have "server_run ?p (Suc (Suc (Suc (Suc 0)))) (demo_server (Some (demo_txn 2)) 3)"
    by (rule server_run.step [OF server_run.step [OF server_run.step [OF server_run.step [OF server_run.start 1] 2] 3] 4])
  then show ?thesis by (simp add: eval_nat_numeral)
qed

theorem server_numbers_distinct_witness:
  "open_txn (demo_server (Some (demo_txn 2)) 3) 0 = Some (demo_txn 1) \<and> open_txn (demo_server (Some (demo_txn 2)) 3) 1 = Some (demo_txn 2) \<and>
   fresh_txn (demo_txn 1) \<and> tx_id (demo_txn 1) \<noteq> tx_id (demo_txn 2)"
proof -
  let ?s = "demo_server (Some (demo_txn 2)) 3"
  have o: "open_txn ?s 0 = Some (demo_txn 1)" "open_txn ?s 1 = Some (demo_txn 2)" by (simp_all add: open_txn_def demo_server_def)
  have n: "(4 :: nat) < 2 ^ 64" by simp
  have "fresh_txn (demo_txn 1)" "tx_id (demo_txn 1) = tx_id (demo_txn 2) \<Longrightarrow> (0 :: nat) = 1"
    using server_numbers_distinct [OF demo_run n] o by blast+
  then show ?thesis using o by auto
qed

theorem transactions_never_finish_witness:
  "\<exists>s'. server_step (demo_parse :: 'b parser_fun) (demo_server None 2) s' \<and> sv_sessions s' 0 = None \<and>
     open_txn (demo_server None 2) 0 = Some (demo_txn 1)"
proof -
  let ?s = "demo_server None 2" and ?p = "demo_parse :: 'b parser_fun"
  let ?s' = "?s\<lparr> sv_manager := sv_manager ?s, sv_sessions := (sv_sessions ?s)(0 := None) \<rparr>"
  have st: "server_step ?p ?s ?s'"
    by (rule server_step.panicked [where sql = "''commit''" and ses = "(session_new 1)\<lparr> current_txn := Some (demo_txn 1) \<rparr>"])
      (simp_all add: demo_server_def execute_sql_cases execute_statement_cases demo_parse_def)
  have "open_txn ?s 0 = Some (demo_txn 1)" by (simp add: open_txn_def demo_server_def)
  from transactions_never_finish [OF st this] have "sv_sessions ?s' 0 = None" by (auto simp: open_txn_def)
  then show ?thesis using st by (auto simp: open_txn_def demo_server_def)
qed

end
