(* ===== verification/BufferPool.thy ===== *)
theory BufferPool
  imports Disk Evictor
begin

text \<open>
  \<open>src/src/buffer\<close>: the buffer pool of \<open>impl/buffer_pool.rs\<close> with the guards of \<open>impl/guard.rs\<close>, over
  any disk manager and any eviction policy. The operations are modelled one call at a time, with the
  guards a caller holds as part of the state: waiting for a latch that the caller itself holds is an
  operation that does not return. A failed read leaves the frame as it was. Which vacant frame the set
  of vacant frames yields first is an argument.
\<close>

section \<open>The disk manager's interface\<close>

record ('s, 'e) disk_ops =
  dm_read_page :: "u32 \<Rightarrow> nat \<Rightarrow> ('s, 'e, ppage_id \<times> page) prog"
  dm_write_page :: "u32 \<Rightarrow> page \<Rightarrow> ('s, 'e, unit) prog"
  dm_read_page_at_loc :: "ppage_id \<Rightarrow> nat \<Rightarrow> ('s, 'e, page) prog"
  dm_write_page_at_loc :: "ppage_id \<Rightarrow> page \<Rightarrow> ('s, 'e, unit) prog"
  dm_new_page :: "u32 \<Rightarrow> ('s, 'e, u32 \<times> ppage_id) prog"

definition disk_manager_ops :: "('d, 'e) dir_ops \<Rightarrow> ('a, 'f) alloc_ops \<Rightarrow> (('d, 'a) disk, ('e, 'f) disk_error) disk_ops" where
  "disk_manager_ops D A = \<lparr> dm_read_page = disk_read_page D, dm_write_page = disk_write_page D,
     dm_read_page_at_loc = read_page_at_loc, dm_write_page_at_loc = write_page_at_loc, dm_new_page = disk_new_page D A \<rparr>"

section \<open>The pool\<close>

text \<open>An error of the write-ahead log has no values, since its type has none.\<close>

datatype 'e buffer_error = OOM | StorageError 'e | EvictorError evictor_error | SomeoneFuckedUp string

datatype frame_meta = Vacant | Loaded u32 ppage_id bool

datatype latch = Free | Readers nat | Writer

record ('s, 'p) pool =
  bp_disk :: 's
  bp_policy :: 'p
  num_frames :: nat
  pool_buf :: "page list"
  pin_counts :: "byte list"
  frame_metas :: "frame_meta list"
  vacant_frames :: "nat set"
  lpage_map :: "u32 \<rightharpoonup> nat"
  ppage_map :: "ppage_id \<rightharpoonup> nat"
  latches :: "latch list"

type_synonym ('s, 'p, 'e, 'a) pool_prog = "(('s, 'p) pool, 'e buffer_error, 'a) prog"

definition pool_new :: "nat \<Rightarrow> 's \<Rightarrow> 'p \<Rightarrow> ('s, 'p) pool" where
  "pool_new n d p = \<lparr> bp_disk = d, bp_policy = p, num_frames = n, pool_buf = replicate n (replicate PAGE_BUF_SIZE 0),
     pin_counts = replicate n 0, frame_metas = replicate n Vacant, vacant_frames = {0..<n}, lpage_map = Map.empty,
     ppage_map = Map.empty, latches = replicate n Free \<rparr>"

text \<open>A call of the disk manager, with its error converted.\<close>

definition in_disk :: "('s, 'e, 'a) prog \<Rightarrow> ('s, 'p, 'e, 'a) pool_prog" where
  "in_disk m s = (case m (bp_disk s) of None \<Rightarrow> None | Some (r, d) \<Rightarrow> Some (map_err StorageError r, s\<lparr> bp_disk := d \<rparr>))"

section \<open>Pins and latches\<close>

text \<open>Indexing with a frame number that does not exist panics. The counters are bytes that wrap around.\<close>

definition incr_pin :: "'p policy_ops \<Rightarrow> nat \<Rightarrow> ('s, 'p, 'e, unit) pool_prog" where
  "incr_pin P f s = (if length (pin_counts s) \<le> f then lift Panic s
     else let old_pin = pin_counts s ! f; s' = s\<lparr> pin_counts := (pin_counts s)[f := old_pin + 1] \<rparr>
       in ret () (if old_pin = 0 then s'\<lparr> bp_policy := ev_set_evictable P f False (bp_policy s) \<rparr> else s'))"

definition decr_pin :: "'p policy_ops \<Rightarrow> nat \<Rightarrow> ('s, 'p, 'e, unit) pool_prog" where
  "decr_pin P f s = (if length (pin_counts s) \<le> f then lift Panic s
     else let old_pin = pin_counts s ! f; s' = s\<lparr> pin_counts := (pin_counts s)[f := old_pin - 1] \<rparr>
       in ret () (if old_pin = 1 then s'\<lparr> bp_policy := ev_set_evictable P f True (bp_policy s) \<rparr> else s'))"

definition latch_write :: "nat \<Rightarrow> ('s, 'p, 'e, unit) pool_prog" where
  "latch_write f s = (if length (latches s) \<le> f then lift Panic s
     else case latches s ! f of Free \<Rightarrow> ret () (s\<lparr> latches := (latches s)[f := Writer] \<rparr>) | _ \<Rightarrow> None)"

definition latch_read :: "nat \<Rightarrow> ('s, 'p, 'e, unit) pool_prog" where
  "latch_read f s = (if length (latches s) \<le> f then lift Panic s
     else case latches s ! f of
         Free \<Rightarrow> ret () (s\<lparr> latches := (latches s)[f := Readers 1] \<rparr>)
       | Readers n \<Rightarrow> ret () (s\<lparr> latches := (latches s)[f := Readers (n + 1)] \<rparr>)
       | Writer \<Rightarrow> None)"

definition unlatch :: "nat \<Rightarrow> ('s, 'p) pool \<Rightarrow> ('s, 'p) pool" where
  "unlatch f s = s\<lparr> latches := (latches s)[f := (case latches s ! f of Readers n \<Rightarrow> if 1 < n then Readers (n - 1) else Free | _ \<Rightarrow> Free)] \<rparr>"

text \<open>What runs when a program with a latch ends, however it ends.\<close>

definition latched :: "nat \<Rightarrow> ('s, 'p, 'e, 'a) pool_prog \<Rightarrow> ('s, 'p, 'e, 'a) pool_prog" where
  "latched f m s = (case m s of None \<Rightarrow> None | Some (r, s') \<Rightarrow> Some (r, unlatch f s'))"

section \<open>Frames\<close>

definition mark_frame_dirty :: "nat \<Rightarrow> ('s, 'p, 'e, unit) pool_prog" where
  "mark_frame_dirty f s = (if length (frame_metas s) \<le> f then lift Panic s
     else case frame_metas s ! f of
         Loaded l v d \<Rightarrow> ret () (s\<lparr> frame_metas := (frame_metas s)[f := Loaded l v True] \<rparr>)
       | Vacant \<Rightarrow> fail (SomeoneFuckedUp ''attempted to mark vacant frame as dirty'') s)"

definition frame_lpage_id :: "nat \<Rightarrow> ('s, 'p, 'e, u32) pool_prog" where
  "frame_lpage_id f s = (if length (frame_metas s) \<le> f then lift Panic s
     else case frame_metas s ! f of Loaded l v d \<Rightarrow> ret l s | Vacant \<Rightarrow> lift Panic s)"

text \<open>One round of \<open>evict\<close> under the latch of the victim: \<open>True\<close> is to try again.\<close>

definition evict_frame :: "('s, 'e) disk_ops \<Rightarrow> 'p policy_ops \<Rightarrow> nat \<Rightarrow> ('s, 'p, 'e, bool) pool_prog" where
  "evict_frame K P f s = (if pin_counts s ! f \<noteq> 0 then ret True s
     else case frame_metas s ! f of
         Vacant \<Rightarrow> ret False (s\<lparr> vacant_frames := insert f (vacant_frames s) \<rparr>)
       | Loaded l v d \<Rightarrow>
           pbind (if d then in_disk (dm_write_page_at_loc K v (pool_buf s ! f)) else ret ()) (\<lambda>_ s.
             ret False (s\<lparr> lpage_map := (lpage_map s)(l := None), ppage_map := (ppage_map s)(v := None),
               frame_metas := (frame_metas s)[f := Vacant], vacant_frames := insert f (vacant_frames s),
               bp_policy := ev_remove_frame P f (bp_policy s) \<rparr>)) s)"

partial_function (option) evict :: "('s, 'e) disk_ops \<Rightarrow> 'p policy_ops \<Rightarrow> ('s, 'p) pool \<Rightarrow> (('e buffer_error, unit) outcome \<times> ('s, 'p) pool) option" where
  "evict K P s = pbind (lift (map_err EvictorError (ev_find_victim P (bp_policy s)))) (\<lambda>f s.
     pbind (latch_write f) (\<lambda>_ s. pbind (latched f (evict_frame K P f)) (\<lambda>again s.
       if again then evict K P s else ret () s) s) s) s"

definition take_vacant :: "(nat set \<Rightarrow> nat) \<Rightarrow> ('s, 'p) pool \<Rightarrow> nat option \<times> ('s, 'p) pool" where
  "take_vacant pick s = (if vacant_frames s = {} then (None, s)
     else (Some (pick (vacant_frames s)), s\<lparr> vacant_frames := vacant_frames s - {pick (vacant_frames s)} \<rparr>))"

text \<open>The loop that finds a vacant frame.\<close>

partial_function (option) vacant_frame ::
  "(nat set \<Rightarrow> nat) \<Rightarrow> ('s, 'e) disk_ops \<Rightarrow> 'p policy_ops \<Rightarrow> ('s, 'p) pool \<Rightarrow> (('e buffer_error, nat) outcome \<times> ('s, 'p) pool) option" where
  "vacant_frame pick K P s = (case take_vacant pick s of
       (Some f, s') \<Rightarrow> ret f s'
     | (None, s') \<Rightarrow> pbind (evict K P) (\<lambda>_ s. vacant_frame pick K P s) s')"

text \<open>
  The loop of the four fetch operations, which differ in the map they search and publish to: a frame
  pinned, and whether the page is in it. A frame to load into is latched.
\<close>

definition claim_frame :: "'p policy_ops \<Rightarrow> (('s, 'p) pool \<Rightarrow> nat option) \<Rightarrow> (nat \<Rightarrow> ('s, 'p) pool \<Rightarrow> ('s, 'p) pool) \<Rightarrow> nat \<Rightarrow> ('s, 'p, 'e, nat \<times> bool) pool_prog" where
  "claim_frame P look publish f =
     pbind (incr_pin P f) (\<lambda>_. pbind (latch_write f) (\<lambda>_ s. (case look s of
         Some idx \<Rightarrow>
           pbind (decr_pin P f) (\<lambda>_. pbind (modify (\<lambda>s. s\<lparr> vacant_frames := insert f (vacant_frames s) \<rparr>)) (\<lambda>_.
           pbind (incr_pin P idx) (\<lambda>_. pbind (modify (unlatch f)) (\<lambda>_. ret (idx, True))))) s
       | None \<Rightarrow> ret (f, False) (publish f s))))"

partial_function (option) find_frame ::
  "(nat set \<Rightarrow> nat) \<Rightarrow> ('s, 'e) disk_ops \<Rightarrow> 'p policy_ops \<Rightarrow> (('s, 'p) pool \<Rightarrow> nat option) \<Rightarrow> (nat \<Rightarrow> ('s, 'p) pool \<Rightarrow> ('s, 'p) pool) \<Rightarrow>
    ('s, 'p) pool \<Rightarrow> (('e buffer_error, nat \<times> bool) outcome \<times> ('s, 'p) pool) option" where
  "find_frame pick K P look publish s = (case look s of
       Some idx \<Rightarrow> pbind (incr_pin P idx) (\<lambda>_. ret (idx, True)) s
     | None \<Rightarrow> (case take_vacant pick s of
           (Some f, s') \<Rightarrow> claim_frame P look publish f s'
         | (None, s') \<Rightarrow> pbind (evict K P) (\<lambda>_ s. find_frame pick K P look publish s) s'))"

definition find_by_lpage where
  "find_by_lpage pick K P l = find_frame pick K P (\<lambda>s. lpage_map s l) (\<lambda>f s. s\<lparr> lpage_map := (lpage_map s)(l \<mapsto> f) \<rparr>)"

definition find_by_loc where
  "find_by_loc pick K P v = find_frame pick K P (\<lambda>s. ppage_map s v) (\<lambda>f s. s\<lparr> ppage_map := (ppage_map s)(v \<mapsto> f) \<rparr>)"

section \<open>Loading\<close>

text \<open>On an error the write latch is dropped; the pin and the published map entry stay.\<close>

definition unlatch_on_error :: "nat \<Rightarrow> ('s, 'p, 'e, 'a) pool_prog \<Rightarrow> ('s, 'p, 'e, 'a) pool_prog" where
  "unlatch_on_error f m s = (case m s of
       None \<Rightarrow> None | Some (Ok a, s') \<Rightarrow> Some (Ok a, s') | Some (r, s') \<Rightarrow> Some (r, unlatch f s'))"

definition load_page :: "('s, 'e) disk_ops \<Rightarrow> u32 \<Rightarrow> nat \<Rightarrow> ('s, 'p, 'e, unit) pool_prog" where
  "load_page K l f = unlatch_on_error f (pbind (in_disk (dm_read_page K l PAGE_BUF_SIZE)) (\<lambda>(v, data).
     modify (\<lambda>s. s\<lparr> pool_buf := (pool_buf s)[f := data], frame_metas := (frame_metas s)[f := Loaded l v False],
       ppage_map := (ppage_map s)(v \<mapsto> f) \<rparr>)))"

definition load_page_at_loc :: "('s, 'e) disk_ops \<Rightarrow> ppage_id \<Rightarrow> nat \<Rightarrow> ('s, 'p, 'e, unit) pool_prog" where
  "load_page_at_loc K v f = unlatch_on_error f (pbind (in_disk (dm_read_page_at_loc K v PAGE_BUF_SIZE)) (\<lambda>data.
     modify (\<lambda>s. s\<lparr> pool_buf := (pool_buf s)[f := data], frame_metas := (frame_metas s)[f := Loaded (page_id (uber_header data)) v False],
       lpage_map := (lpage_map s)(page_id (uber_header data) \<mapsto> f) \<rparr>)))"

section \<open>Guards\<close>

text \<open>A guard is its frame. A read guard records the access when it is made, a write guard does not.\<close>

definition read_guard_new :: "'p policy_ops \<Rightarrow> nat \<Rightarrow> ('s, 'p, 'e, nat) pool_prog" where
  "read_guard_new P f s = ret f (s\<lparr> bp_policy := ev_record_access P f (bp_policy s) \<rparr>)"

definition write_guard_new :: "nat \<Rightarrow> ('s, 'p, 'e, nat) pool_prog" where
  "write_guard_new f = ret f"

definition downgrade :: "nat \<Rightarrow> ('s, 'p, 'e, nat) pool_prog" where
  "downgrade f s = ret f (s\<lparr> latches := (latches s)[f := Readers 1] \<rparr>)"

definition guard_page :: "nat \<Rightarrow> ('s, 'p) pool \<Rightarrow> page" where
  "guard_page f s = pool_buf s ! f"

definition guard_update :: "nat \<Rightarrow> page \<Rightarrow> ('s, 'p, 'e, unit) pool_prog" where
  "guard_update f data = modify (\<lambda>s. s\<lparr> pool_buf := (pool_buf s)[f := data] \<rparr>)"

text \<open>Flushing the log is not implemented.\<close>

definition flush_wal_upto :: "u64 \<Rightarrow> ('s, 'p, 'e, unit) pool_prog" where
  "flush_wal_upto lsn = lift Panic"

definition commit_wal :: "nat \<Rightarrow> u64 \<Rightarrow> ('s, 'p, 'e, unit) pool_prog" where
  "commit_wal f lsn = flush_wal_upto lsn"

definition drop_guard :: "'p policy_ops \<Rightarrow> nat \<Rightarrow> ('s, 'p, 'e, unit) pool_prog" where
  "drop_guard P f = pbind (decr_pin P f) (\<lambda>_. modify (unlatch f))"

section \<open>The operations of the pool\<close>

definition fetch_page_write where
  "fetch_page_write pick K P l = pbind (find_by_lpage pick K P l) (\<lambda>(f, is_loaded).
     if is_loaded then pbind (latch_write f) (\<lambda>_. write_guard_new f)
     else pbind (load_page K l f) (\<lambda>_. write_guard_new f))"

definition fetch_page_read where
  "fetch_page_read pick K P l = pbind (find_by_lpage pick K P l) (\<lambda>(f, is_loaded).
     if is_loaded then pbind (latch_read f) (\<lambda>_. read_guard_new P f)
     else pbind (load_page K l f) (\<lambda>_. pbind (write_guard_new f) downgrade))"

definition fetch_page_at_loc_write where
  "fetch_page_at_loc_write pick K P v = pbind (find_by_loc pick K P v) (\<lambda>(f, is_loaded).
     if is_loaded then pbind (latch_write f) (\<lambda>_. write_guard_new f)
     else pbind (load_page_at_loc K v f) (\<lambda>_. write_guard_new f))"

definition fetch_page_at_loc_read where
  "fetch_page_at_loc_read pick K P v = pbind (find_by_loc pick K P v) (\<lambda>(f, is_loaded).
     if is_loaded then pbind (latch_read f) (\<lambda>_. read_guard_new P f)
     else pbind (load_page_at_loc K v f) (\<lambda>_. pbind (write_guard_new f) downgrade))"

definition pool_new_page where
  "pool_new_page pick K P fno = pbind (in_disk (dm_new_page K fno)) (\<lambda>(l, v).
     pbind (vacant_frame pick K P) (\<lambda>f.
     pbind (incr_pin P f) (\<lambda>_.
     pbind (latch_write f) (\<lambda>_.
     pbind (modify (\<lambda>s. s\<lparr> pool_buf := (pool_buf s)[f := replicate PAGE_BUF_SIZE 0],
       frame_metas := (frame_metas s)[f := Loaded l v False],
       lpage_map := (lpage_map s)(l \<mapsto> f), ppage_map := (ppage_map s)(v \<mapsto> f) \<rparr>)) (\<lambda>_.
     write_guard_new f)))))"

definition load_page_as_unevictable where
  "load_page_as_unevictable pick K P l = pbind (\<lambda>s. (case fetch_page_read pick K P l s of
       None \<Rightarrow> None | Some (r, s') \<Rightarrow> Some (unwrap r, s'))) (\<lambda>f. pbind (incr_pin P f) (\<lambda>_. drop_guard P f))"

definition load_page_loc_as_unevictable where
  "load_page_loc_as_unevictable pick K P v = pbind (\<lambda>s. (case fetch_page_at_loc_read pick K P v s of
       None \<Rightarrow> None | Some (r, s') \<Rightarrow> Some (unwrap r, s'))) (\<lambda>f. pbind (incr_pin P f) (\<lambda>_. drop_guard P f))"

definition dirty_frames :: "('s, 'p) pool \<Rightarrow> (nat \<times> ppage_id) list" where
  "dirty_frames s = concat (map (\<lambda>(f, m). case m of Loaded l v d \<Rightarrow> if d then [(f, v)] else [] | Vacant \<Rightarrow> [])
     (enumerate 0 (frame_metas s)))"

definition flush_frame :: "('s, 'e) disk_ops \<Rightarrow> nat \<Rightarrow> ppage_id \<Rightarrow> ('s, 'p, 'e, unit) pool_prog" where
  "flush_frame K f v = pbind (latch_read f) (\<lambda>_. latched f (\<lambda>s. (case frame_metas s ! f of
       Loaded l w d \<Rightarrow> if d \<and> w = v
         then pbind (in_disk (dm_write_page_at_loc K v (pool_buf s ! f))) (\<lambda>_.
           modify (\<lambda>s. case frame_metas s ! f of Loaded l w d \<Rightarrow> s\<lparr> frame_metas := (frame_metas s)[f := Loaded l w False] \<rparr> | Vacant \<Rightarrow> s)) s
         else ret () s
     | Vacant \<Rightarrow> ret () s)))"

fun flush_frames :: "('s, 'e) disk_ops \<Rightarrow> (nat \<times> ppage_id) list \<Rightarrow> ('s, 'p, 'e, unit) pool_prog" where
  "flush_frames K [] = ret ()"
| "flush_frames K ((f, v) # fs) = pbind (flush_frame K f v) (\<lambda>_. flush_frames K fs)"

definition flush_all_dirty_frames :: "('s, 'e) disk_ops \<Rightarrow> ('s, 'p, 'e, unit) pool_prog" where
  "flush_all_dirty_frames K = pbind (gets dirty_frames) (flush_frames K)"

end
