(* ===== verification/PoolInvariant.thy ===== *)
theory PoolInvariant
  imports BufferPool
begin

text \<open>
  The contract of the buffer pool: what it asks of a disk manager, as a locale with the disk's own
  definitions as its instance; the invariant of a pool some of whose frames are held by guards; and
  that every operation of the pool keeps it.
\<close>

section \<open>What the pool asks of the disk\<close>

text \<open>
  \<open>rep s m\<close>: the logical pages of the disk are at the places \<open>m\<close>. \<open>on_disk s v\<close>: the page at a place; a
  place that was never written has none. \<open>anon v\<close>: a place that no logical page has, like page 0 of a
  file; such a page is fetched by its place, and its header gives 0 for its id.
\<close>

locale page_store =
  fixes K :: "('s, 'e) disk_ops"
    and rep :: "'s \<Rightarrow> (u32 \<rightharpoonup> ppage_id) \<Rightarrow> bool"
    and on_disk :: "'s \<Rightarrow> ppage_id \<Rightarrow> page option"
    and place :: "ppage_id \<Rightarrow> bool"
    and anon :: "ppage_id \<Rightarrow> bool"
    and can_grow :: "'s \<Rightarrow> (u32 \<rightharpoonup> ppage_id) \<Rightarrow> bool"
  assumes places: "rep s m \<Longrightarrow> inj_on m (dom m)" "rep s m \<Longrightarrow> m l = Some v \<Longrightarrow> place v \<and> \<not> anon v" "anon v \<Longrightarrow> place v"
    and page_length: "on_disk s v = Some pg \<Longrightarrow> length pg = PAGE_BUF_SIZE"
    and read_id: "rep s m \<Longrightarrow> m l = Some v \<Longrightarrow> on_disk s v = Some pg \<Longrightarrow>
      \<exists>s'. dm_read_page K l PAGE_BUF_SIZE s = Some (Ok (v, pg), s') \<and> rep s' m \<and> on_disk s' = on_disk s \<and> (can_grow s m \<longrightarrow> can_grow s' m)"
    and read_place: "rep s m \<Longrightarrow> on_disk s v = Some pg \<Longrightarrow>
      \<exists>s'. dm_read_page_at_loc K v PAGE_BUF_SIZE s = Some (Ok pg, s') \<and> rep s' m \<and> on_disk s' = on_disk s \<and> (can_grow s m \<longrightarrow> can_grow s' m)"
    and write_place: "rep s m \<Longrightarrow> place v \<Longrightarrow> length pg = PAGE_BUF_SIZE \<Longrightarrow>
      \<exists>s'. dm_write_page_at_loc K v pg s = Some (Ok (), s') \<and> rep s' m \<and> on_disk s' v = Some pg \<and>
        (\<forall>w p. place w \<longrightarrow> w \<noteq> v \<longrightarrow> on_disk s w = Some p \<longrightarrow> on_disk s' w = Some p) \<and> (can_grow s m \<longrightarrow> can_grow s' m)"
    and new_place: "rep s m \<Longrightarrow> can_grow s m \<Longrightarrow>
      \<exists>l v s'. dm_new_page K f s = Some (Ok (l, v), s') \<and> m l = None \<and> l \<noteq> 0 \<and> v \<notin> ran m \<and> pp_file v = f \<and>
        rep s' (m(l \<mapsto> v)) \<and> on_disk s' = on_disk s"

section \<open>The invariant\<close>

text \<open>\<open>H f\<close>: the latch a guard holds on frame \<open>f\<close>, or \<open>Free\<close>; a guard pins its frame once.\<close>

definition frames_ok :: "(nat \<Rightarrow> latch) \<Rightarrow> ('s, 'p) pool \<Rightarrow> bool" where
  "frames_ok H s \<longleftrightarrow> length (pool_buf s) = num_frames s \<and> length (pin_counts s) = num_frames s \<and>
     length (frame_metas s) = num_frames s \<and> length (latches s) = num_frames s \<and>
     (\<forall>f<num_frames s. latches s ! f = H f \<and> pin_counts s ! f = (if H f = Free then 0 else 1) \<and>
        H f \<in> {Free, Readers 1, Writer} \<and> length (pool_buf s ! f) = PAGE_BUF_SIZE \<and>
        (frame_metas s ! f = Vacant \<longrightarrow> H f = Free)) \<and>
     (\<forall>f\<ge>num_frames s. H f = Free) \<and>
     vacant_frames s = {f. f < num_frames s \<and> frame_metas s ! f = Vacant}"

text \<open>The id 0 names a frame only when it is registered; otherwise the frames without an id go by it.\<close>

definition named :: "(u32 \<rightharpoonup> ppage_id) \<Rightarrow> u32 \<Rightarrow> bool" where
  "named m l \<longleftrightarrow> l \<noteq> 0 \<or> m 0 \<noteq> None"

definition id_of :: "(ppage_id \<Rightarrow> bool) \<Rightarrow> (u32 \<rightharpoonup> ppage_id) \<Rightarrow> u32 \<Rightarrow> ppage_id \<Rightarrow> bool" where
  "id_of anon m l v \<longleftrightarrow> m l = Some v \<or> l = 0 \<and> m 0 = None \<and> anon v"

definition maps_ok :: "(ppage_id \<Rightarrow> bool) \<Rightarrow> ('s, 'p) pool \<Rightarrow> (u32 \<rightharpoonup> ppage_id) \<Rightarrow> bool" where
  "maps_ok anon s m \<longleftrightarrow>
     (\<forall>l f. named m l \<longrightarrow> (lpage_map s l = Some f \<longleftrightarrow> f < num_frames s \<and> (\<exists>v d. frame_metas s ! f = Loaded l v d))) \<and>
     (\<forall>v f. ppage_map s v = Some f \<longleftrightarrow> f < num_frames s \<and> (\<exists>l d. frame_metas s ! f = Loaded l v d)) \<and>
     (\<forall>f<num_frames s. \<forall>l v d. frame_metas s ! f = Loaded l v d \<longrightarrow> id_of anon m l v)"

definition evictable_ok :: "'p set \<Rightarrow> ('p \<Rightarrow> nat set) \<Rightarrow> (nat \<Rightarrow> latch) \<Rightarrow> ('s, 'p) pool \<Rightarrow> bool" where
  "evictable_ok good marked H s \<longleftrightarrow> bp_policy s \<in> good \<and>
     (\<forall>f\<in>marked (bp_policy s). f < num_frames s \<and> frame_metas s ! f \<noteq> Vacant \<and> H f = Free)"

definition clean_ok :: "('s \<Rightarrow> ppage_id \<Rightarrow> page option) \<Rightarrow> (nat \<Rightarrow> latch) \<Rightarrow> ('s, 'p) pool \<Rightarrow> bool" where
  "clean_ok on_disk H s \<longleftrightarrow> (\<forall>f<num_frames s. \<forall>l v. frame_metas s ! f = Loaded l v False \<longrightarrow> H f \<noteq> Writer \<longrightarrow>
     on_disk (bp_disk s) v = Some (pool_buf s ! f))"

text \<open>What a place holds: what its frame holds, or else the disk.\<close>

definition pool_view :: "('s \<Rightarrow> ppage_id \<Rightarrow> page option) \<Rightarrow> ('s, 'p) pool \<Rightarrow> ppage_id \<Rightarrow> page option" where
  "pool_view on_disk s v = (case ppage_map s v of Some f \<Rightarrow> Some (pool_buf s ! f) | None \<Rightarrow> on_disk (bp_disk s) v)"

text \<open>Nothing is lost from one state to the next, and the frames of guards stay as they are.\<close>

definition keeps_pages :: "('s \<Rightarrow> ppage_id \<Rightarrow> page option) \<Rightarrow> (ppage_id \<Rightarrow> bool) \<Rightarrow> ('s, 'p) pool \<Rightarrow> ('s, 'p) pool \<Rightarrow> bool" where
  "keeps_pages on_disk place s s' \<longleftrightarrow> (\<forall>v p. place v \<longrightarrow> pool_view on_disk s v = Some p \<longrightarrow> pool_view on_disk s' v = Some p)"

definition keeps_held :: "(nat \<Rightarrow> latch) \<Rightarrow> ('s, 'p) pool \<Rightarrow> ('s, 'p) pool \<Rightarrow> bool" where
  "keeps_held H s s' \<longleftrightarrow> num_frames s' = num_frames s \<and>
     (\<forall>f. H f \<noteq> Free \<longrightarrow> frame_metas s' ! f = frame_metas s ! f \<and> pool_buf s' ! f = pool_buf s ! f)"

text \<open>No frame becomes dirty.\<close>

definition keeps_clean :: "('s, 'p) pool \<Rightarrow> ('s, 'p) pool \<Rightarrow> bool" where
  "keeps_clean s s' \<longleftrightarrow> (\<forall>f<num_frames s. \<forall>l v. frame_metas s' ! f = Loaded l v True \<longrightarrow> frame_metas s ! f = Loaded l v True)"

locale buffer_pool = page_store K rep on_disk place anon can_grow + eviction_policy P ok cands marked
  for K :: "('s, 'e) disk_ops" and rep on_disk place anon can_grow and P :: "'p policy_ops" and ok cands marked +
  fixes pick :: "nat set \<Rightarrow> nat"
  assumes pick: "finite S \<Longrightarrow> S \<noteq> {} \<Longrightarrow> pick S \<in> S"
begin

definition inv :: "nat \<Rightarrow> (nat \<Rightarrow> latch) \<Rightarrow> ('s, 'p) pool \<Rightarrow> (u32 \<rightharpoonup> ppage_id) \<Rightarrow> bool" where
  "inv n H s m \<longleftrightarrow> rep (bp_disk s) m \<and> frames_ok H s \<and> maps_ok anon s m \<and>
     evictable_ok (Collect (ok n)) marked H s \<and> clean_ok on_disk H s"

definition keeps :: "(u32 \<rightharpoonup> ppage_id) \<Rightarrow> (nat \<Rightarrow> latch) \<Rightarrow> ('s, 'p) pool \<Rightarrow> ('s, 'p) pool \<Rightarrow> bool" where
  "keeps m H s s' \<longleftrightarrow> keeps_pages on_disk place s s' \<and> keeps_held H s s' \<and> keeps_clean s s' \<and>
     (can_grow (bp_disk s) m \<longrightarrow> can_grow (bp_disk s') m)"

lemma keeps_refl [simp]: "keeps m H s s"
  by (simp add: keeps_def keeps_pages_def keeps_held_def keeps_clean_def)

lemma keeps_trans: "keeps m H s t \<Longrightarrow> keeps m H t u \<Longrightarrow> keeps m H s u"
  by (simp add: keeps_def keeps_pages_def keeps_held_def keeps_clean_def)

lemma invD:
  assumes "inv n H s m"
  shows "rep (bp_disk s) m" "frames_ok H s" "maps_ok anon s m" "ok n (bp_policy s)"
  using assms by (simp_all add: inv_def evictable_ok_def)

lemma marked_frame:
  assumes "inv n H s m" "f \<in> marked (bp_policy s)"
  shows "f < num_frames s" "frame_metas s ! f \<noteq> Vacant" "H f = Free"
  using assms by (auto simp: inv_def evictable_ok_def)

lemma clean_frame:
  assumes "inv n H s m" "f < num_frames s" "frame_metas s ! f = Loaded l v False" "H f \<noteq> Writer"
  shows "on_disk (bp_disk s) v = Some (pool_buf s ! f)"
  using assms by (simp add: inv_def clean_ok_def)

lemma lengths:
  assumes "inv n H s m"
  shows "length (latches s) = num_frames s" "length (pin_counts s) = num_frames s" "length (frame_metas s) = num_frames s"
    "length (pool_buf s) = num_frames s"
  using invD(2) [OF assms] by (simp_all add: frames_ok_def)

lemma frame:
  assumes "inv n H s m" "f < num_frames s"
  shows "latches s ! f = H f" "pin_counts s ! f = (if H f = Free then 0 else 1)" "H f \<in> {Free, Readers 1, Writer}"
    "length (pool_buf s ! f) = PAGE_BUF_SIZE" "frame_metas s ! f = Vacant \<Longrightarrow> H f = Free"
  using invD(2) [OF assms(1)] assms(2) by (simp_all add: frames_ok_def)

lemma lpage_iff: "inv n H s m \<Longrightarrow> named m l \<Longrightarrow> lpage_map s l = Some f \<longleftrightarrow> f < num_frames s \<and> (\<exists>v d. frame_metas s ! f = Loaded l v d)"
  by (simp add: inv_def maps_ok_def)

lemma ppage_iff: "inv n H s m \<Longrightarrow> ppage_map s v = Some f \<longleftrightarrow> f < num_frames s \<and> (\<exists>l d. frame_metas s ! f = Loaded l v d)"
  by (simp add: inv_def maps_ok_def)

lemma loaded_id: "inv n H s m \<Longrightarrow> f < num_frames s \<Longrightarrow> frame_metas s ! f = Loaded l v d \<Longrightarrow> id_of anon m l v"
  by (simp add: inv_def maps_ok_def)

lemma id_place: "rep d m \<Longrightarrow> id_of anon m l v \<Longrightarrow> place v"
  using places by (auto simp: id_of_def)

lemma loaded_place: "inv n H s m \<Longrightarrow> f < num_frames s \<Longrightarrow> frame_metas s ! f = Loaded l v d \<Longrightarrow> place v"
  using loaded_id id_place invD(1) by blast

lemma named_reg: "m l = Some v \<Longrightarrow> named m l"
  by (auto simp: named_def)

lemma named_id: "named m l \<Longrightarrow> id_of anon m l v \<Longrightarrow> m l = Some v"
  by (auto simp: named_def id_of_def)

lemma vacant_iff: "inv n H s m \<Longrightarrow> f \<in> vacant_frames s \<longleftrightarrow> f < num_frames s \<and> frame_metas s ! f = Vacant"
  by (simp add: inv_def frames_ok_def)

lemma vacant_finite: "inv n H s m \<Longrightarrow> finite (vacant_frames s)"
  by (rule finite_subset [of _ "{..<num_frames s}"]) (auto simp: vacant_iff)

lemma one_frame:
  assumes "inv n H s m" "f < num_frames s" "frame_metas s ! f = Loaded l v d"
  shows "named m l \<Longrightarrow> g < num_frames s \<Longrightarrow> frame_metas s ! g = Loaded l w e \<Longrightarrow> g = f"
    "g < num_frames s \<Longrightarrow> frame_metas s ! g = Loaded k v e \<Longrightarrow> g = f"
proof -
  have v: "ppage_map s v = Some f" using ppage_iff [OF assms(1), of v f] assms(2,3) by blast
  show "g = f" if "g < num_frames s" "frame_metas s ! g = Loaded k v e"
    using ppage_iff [OF assms(1), of v g] that v by auto
  assume n: "named m l"
  have l: "lpage_map s l = Some f" using lpage_iff [OF assms(1) n, of f] assms(2,3) by blast
  show "g = f" if "g < num_frames s" "frame_metas s ! g = Loaded l w e"
    using lpage_iff [OF assms(1) n, of g] that l by auto
qed

text \<open>The view of a place in a frame.\<close>

lemma view_loaded:
  assumes "inv n H s m" "f < num_frames s" "frame_metas s ! f = Loaded l v d"
  shows "pool_view on_disk s v = Some (pool_buf s ! f)"
  using ppage_iff [OF assms(1), of v f] assms(2,3) by (auto simp: pool_view_def)

section \<open>Eviction\<close>

definition evicted :: "'s \<Rightarrow> nat \<Rightarrow> u32 \<Rightarrow> ppage_id \<Rightarrow> ('s, 'p) pool \<Rightarrow> ('s, 'p) pool" where
  "evicted d f l v s = s\<lparr> bp_disk := d, bp_policy := ev_remove_frame P f (bp_policy s), frame_metas := (frame_metas s)[f := Vacant],
     vacant_frames := insert f (vacant_frames s), lpage_map := (lpage_map s)(l := None), ppage_map := (ppage_map s)(v := None) \<rparr>"

lemma evicted_inv:
  assumes inv: "inv n H s m" and f: "f < num_frames s" "H f = Free" "frame_metas s ! f = Loaded l v b"
    and d: "rep d m" "on_disk d v = Some (pool_buf s ! f)" "\<And>w p. place w \<Longrightarrow> on_disk (bp_disk s) w = Some p \<Longrightarrow> w \<noteq> v \<Longrightarrow> on_disk d w = Some p"
      "can_grow (bp_disk s) m \<longrightarrow> can_grow d m"
  shows "inv n H (evicted d f l v s) m" "keeps m H s (evicted d f l v s)"
proof -
  let ?s = "evicted d f l v s"
  note len = lengths [OF inv]
  have metas: "g < num_frames s \<Longrightarrow> frame_metas ?s ! g = (if g = f then Vacant else frame_metas s ! g)" for g
    using len by (simp add: evicted_def nth_list_update)
  have same: "num_frames ?s = num_frames s" "pool_buf ?s = pool_buf s" "bp_disk ?s = d" by (simp_all add: evicted_def)
  note other = one_frame [OF inv f(1,3)]
  have gone: "named m l \<Longrightarrow> frame_metas ?s ! g \<noteq> Loaded l w e" "frame_metas ?s ! g \<noteq> Loaded k v e" if "g < num_frames s" for g k w e
    by (auto simp: metas [OF that] dest: other(1) [OF _ that] other(2) [OF that])
  have "frames_ok H ?s" unfolding frames_ok_def
  proof (intro conjI allI impI)
    show "vacant_frames ?s = {g. g < num_frames ?s \<and> frame_metas ?s ! g = Vacant}"
    proof (rule set_eqI)
      show "g \<in> vacant_frames ?s \<longleftrightarrow> g \<in> {g. g < num_frames ?s \<and> frame_metas ?s ! g = Vacant}" for g
        using vacant_iff [OF inv, of g] f(1) len by (cases "g = f") (simp_all add: evicted_def)
    qed
    show "H g = Free" if "num_frames ?s \<le> g" for g using invD(2) [OF inv] that by (simp add: frames_ok_def same)
  qed (use len frame [OF inv] f metas in \<open>simp_all add: evicted_def split: if_splits\<close>)
  moreover have "maps_ok anon ?s m" unfolding maps_ok_def
  proof (intro conjI allI impI)
    fix k g assume nk: "named m k"
    show "lpage_map ?s k = Some g \<longleftrightarrow> g < num_frames ?s \<and> (\<exists>w e. frame_metas ?s ! g = Loaded k w e)"
    proof (cases "k = l \<or> g = f")
      case True
      then have "lpage_map ?s k \<noteq> Some g" using lpage_iff [OF inv nk, of f] f(3) by (auto simp: evicted_def)
      moreover have "frame_metas ?s ! g \<noteq> Loaded k w e" if "g < num_frames s" for w e
        using True gone(1) [OF that, of w e] nk metas [OF that] by auto
      ultimately show ?thesis by (auto simp: same)
    next
      case False
      then show ?thesis using lpage_iff [OF inv nk, of g] by (simp add: evicted_def)
    qed
  next
    fix w g
    show "ppage_map ?s w = Some g \<longleftrightarrow> g < num_frames ?s \<and> (\<exists>k e. frame_metas ?s ! g = Loaded k w e)"
    proof (cases "w = v \<or> g = f")
      case True
      then have "ppage_map ?s w \<noteq> Some g" using ppage_iff [OF inv, of w f] f(3) by (auto simp: evicted_def)
      moreover have "frame_metas ?s ! g \<noteq> Loaded k w e" if "g < num_frames s" for k e
        using True gone(2) [OF that, of k e] metas [OF that] by auto
      ultimately show ?thesis by (auto simp: same)
    next
      case False
      then show ?thesis using ppage_iff [OF inv, of w g] by (simp add: evicted_def)
    qed
  next
    fix g k w e assume "g < num_frames ?s" "frame_metas ?s ! g = Loaded k w e"
    then show "id_of anon m k w" using metas [of g] loaded_id [OF inv] by (auto simp: same split: if_splits)
  qed
  moreover have "evictable_ok (Collect (ok n)) marked H ?s"
    using remove [OF invD(4) [OF inv], of f] marked_frame [OF inv] metas
    by (auto simp: evictable_ok_def evicted_def)
  moreover have "clean_ok on_disk H ?s" unfolding clean_ok_def
  proof (intro allI impI)
    fix g k w assume g: "g < num_frames ?s" "frame_metas ?s ! g = Loaded k w False" "H g \<noteq> Writer"
    then have old: "g < num_frames s" "g \<noteq> f" "frame_metas s ! g = Loaded k w False"
      using metas [of g] by (auto simp: same split: if_splits)
    then have "w \<noteq> v" using other(2) by blast
    then show "on_disk (bp_disk ?s) w = Some (pool_buf ?s ! g)"
      using d(3) [OF loaded_place [OF inv old(1,3)] clean_frame [OF inv old(1,3) g(3)]] by (simp add: same)
  qed
  ultimately show "inv n H ?s m" using d(1) by (simp add: inv_def same)
  have "keeps_clean s ?s" using metas by (simp add: keeps_clean_def)
  then show "keeps m H s ?s" unfolding keeps_def keeps_pages_def keeps_held_def
  proof (intro conjI allI impI)
    fix w p assume w: "place w" and p: "pool_view on_disk s w = Some p"
    show "pool_view on_disk ?s w = Some p"
    proof (cases "w = v")
      case True
      then show ?thesis using p d(2) view_loaded [OF inv f(1,3)] by (simp add: pool_view_def evicted_def)
    next
      case False
      then show ?thesis using p w d(3) by (simp add: pool_view_def evicted_def split: option.splits)
    qed
  next
    fix g assume "H g \<noteq> Free"
    then have "g \<noteq> f" using f(2) by blast
    then show "frame_metas ?s ! g = frame_metas s ! g" "pool_buf ?s ! g = pool_buf s ! g"
      by (simp_all add: evicted_def)
  next
    show "can_grow (bp_disk ?s) m" if "can_grow (bp_disk s) m" using that d(4) by (simp add: same)
  qed (simp add: same)
qed

lemma victim_frame:
  assumes "inv n H s m" "f \<in> cands (bp_policy s)"
  obtains l v d where "f < num_frames s" "H f = Free" "frame_metas s ! f = Loaded l v d"
  using marked_frame [OF assms(1), of f] cands_marked [of "bp_policy s"] assms(2) that
  by (cases "frame_metas s ! f") auto

lemma evict_run:
  assumes inv: "inv n H s m"
  shows "evict K P s = Some (Err (EvictorError NoVictimFound), s) \<or>
    (\<exists>s' f. evict K P s = Some (Ok (), s') \<and> inv n H s' m \<and> keeps m H s s' \<and> f \<in> vacant_frames s' \<and>
       (\<forall>l. lpage_map s l = None \<longrightarrow> lpage_map s' l = None) \<and> (\<forall>v. ppage_map s v = None \<longrightarrow> ppage_map s' v = None))"
proof (cases "cands (bp_policy s) = {}")
  case True
  then have "ev_find_victim P (bp_policy s) = Err NoVictimFound" by (rule victim_none [OF invD(4) [OF inv]])
  then show ?thesis by (subst evict.simps) (simp add: pbind_def lift_def)
next
  case False
  then obtain f where v: "ev_find_victim P (bp_policy s) = Ok f" "f \<in> cands (bp_policy s)"
    using victim_found [OF invD(4) [OF inv]] by blast
  obtain l w d where f: "f < num_frames s" "H f = Free" "frame_metas s ! f = Loaded l w d"
    using v(2) by (rule victim_frame [OF inv])
  note len = lengths [OF inv] and fr = frame [OF inv f(1)]
  have free: "latches s ! f = Free" "pin_counts s ! f = 0" using fr f(2) by simp_all
  have pv: "place w" by (rule loaded_place [OF inv f(1,3)])
  obtain disk where disk: "rep disk m" "on_disk disk w = Some (pool_buf s ! f)"
      "\<And>u p. place u \<Longrightarrow> on_disk (bp_disk s) u = Some p \<Longrightarrow> u \<noteq> w \<Longrightarrow> on_disk disk u = Some p"
      "can_grow (bp_disk s) m \<longrightarrow> can_grow disk m"
    and wr: "d \<Longrightarrow> dm_write_page_at_loc K w (pool_buf s ! f) (bp_disk s) = Some (Ok (), disk)" "\<not> d \<Longrightarrow> disk = bp_disk s"
  proof (cases d)
    case True
    obtain d' where d': "dm_write_page_at_loc K w (pool_buf s ! f) (bp_disk s) = Some (Ok (), d')" "rep d' m"
        "on_disk d' w = Some (pool_buf s ! f)" "\<forall>u p. place u \<longrightarrow> u \<noteq> w \<longrightarrow> on_disk (bp_disk s) u = Some p \<longrightarrow> on_disk d' u = Some p"
        "can_grow (bp_disk s) m \<longrightarrow> can_grow d' m"
      using write_place [OF invD(1) [OF inv] pv fr(4)] by blast
    then show ?thesis using that [of d'] True by simp
  next
    case False
    then have "on_disk (bp_disk s) w = Some (pool_buf s ! f)" using clean_frame [OF inv f(1)] f(2,3) by simp
    then show ?thesis using that [of "bp_disk s"] False invD(1) [OF inv] by simp
  qed
  have relatch: "(latches s)[f := Free] = latches s" using free(1) by (metis list_update_id)
  have "latched f (evict_frame K P f) (s\<lparr> latches := (latches s)[f := Writer] \<rparr>) =
      Some ((Ok False :: ('e buffer_error, bool) outcome), evicted disk f l w s)"
    using free f(1,3) wr
    by (cases d) (simp_all add: latched_def evict_frame_def in_disk_def pbind_def ret_def unlatch_def evicted_def relatch len)
  moreover have "latch_write f s = Some ((Ok () :: ('e buffer_error, unit) outcome), s\<lparr> latches := (latches s)[f := Writer] \<rparr>)"
    using free(1) f(1) len by (simp add: latch_write_def ret_def)
  ultimately have "evict K P s = Some (Ok (), evicted disk f l w s)"
    by (subst evict.simps) (simp add: v(1) pbind_def lift_def ret_def)
  moreover note evicted_inv [OF inv f disk]
  ultimately show ?thesis by (intro disjI2 exI [of _ "evicted disk f l w s"] exI [of _ f]) (simp add: evicted_def)
qed

section \<open>A page comes into a frame\<close>

definition placed :: "'s \<Rightarrow> nat \<Rightarrow> u32 \<Rightarrow> ppage_id \<Rightarrow> page \<Rightarrow> latch \<Rightarrow> ('s, 'p) pool \<Rightarrow> ('s, 'p) pool" where
  "placed d f l v pg L s = s\<lparr> bp_disk := d, bp_policy := ev_set_evictable P f False (bp_policy s), pool_buf := (pool_buf s)[f := pg],
     pin_counts := (pin_counts s)[f := 1], frame_metas := (frame_metas s)[f := Loaded l v False], vacant_frames := vacant_frames s - {f},
     lpage_map := (lpage_map s)(l \<mapsto> f), ppage_map := (ppage_map s)(v \<mapsto> f), latches := (latches s)[f := L] \<rparr>"

lemma free_place:
  assumes inv: "inv n H s m" and l: "lpage_map s l = None" "m' l = Some v" and m': "rep d m'" "m \<subseteq>\<^sub>m m'" "named m l"
  shows "ppage_map s v = None"
proof (rule ccontr)
  assume "ppage_map s v \<noteq> None"
  then obtain g k e where g: "g < num_frames s" "frame_metas s ! g = Loaded k v e" using ppage_iff [OF inv, of v] by auto
  have "id_of anon m k v" by (rule loaded_id [OF inv g])
  moreover have "\<not> anon v" using places(2) [OF m'(1) l(2)] by simp
  ultimately have "m' k = Some v" using m'(2) by (auto simp: id_of_def map_le_def dom_def)
  then have "k = l" using places(1) [OF m'(1)] l(2) by (metis inj_onD domI)
  then show False using g lpage_iff [OF inv m'(3), of g] l(1) by auto
qed

lemma placed_inv:
  assumes inv: "inv n H s m" and f: "f \<in> vacant_frames s" and l: "ppage_map s v = None" "id_of anon m' l v" "named m' l \<Longrightarrow> lpage_map s l = None"
    and pg: "length pg = PAGE_BUF_SIZE" and L: "L \<in> {Readers 1, Writer}" "L = Readers 1 \<Longrightarrow> on_disk d v = Some pg"
    and d: "rep d m'" "m \<subseteq>\<^sub>m m'" "m' 0 \<noteq> None \<Longrightarrow> m 0 \<noteq> None" "on_disk d = on_disk (bp_disk s)"
  shows "inv n (H(f := L)) (placed d f l v pg L s) m'"
proof -
  let ?s = "placed d f l v pg L s" and ?H = "H(f := L)"
  note len = lengths [OF inv]
  have fv: "f < num_frames s" "frame_metas s ! f = Vacant" using vacant_iff [OF inv] f by auto
  have nm: "named m k" if "named m' k" for k using that d(3) by (auto simp: named_def)
  have same: "num_frames ?s = num_frames s" "bp_disk ?s = d" by (simp_all add: placed_def)
  have metas: "frame_metas ?s ! g = (if g = f then Loaded l v False else frame_metas s ! g)" if "g < num_frames s" for g
    using len that by (simp add: placed_def nth_list_update)
  have "frames_ok ?H ?s" unfolding frames_ok_def
  proof (intro conjI allI impI)
    show "vacant_frames ?s = {g. g < num_frames ?s \<and> frame_metas ?s ! g = Vacant}"
    proof (rule set_eqI)
      show "g \<in> vacant_frames ?s \<longleftrightarrow> g \<in> {g. g < num_frames ?s \<and> frame_metas ?s ! g = Vacant}" for g
        using vacant_iff [OF inv, of g] fv len by (cases "g = f") (simp_all add: placed_def)
    qed
    show "?H g = Free" if "num_frames ?s \<le> g" for g using invD(2) [OF inv] fv that by (simp add: frames_ok_def same)
    fix g assume "g < num_frames ?s"
    then have g: "g < num_frames s" by (simp add: same)
    note fr = frame [OF inv g]
    show "latches ?s ! g = ?H g" "length (pool_buf ?s ! g) = PAGE_BUF_SIZE" "?H g \<in> {Free, Readers 1, Writer}"
        "pin_counts ?s ! g = (if ?H g = Free then 0 else 1)"
      using fr(1-4) g len pg L(1) by (cases "g = f"; auto simp: placed_def)+
    show "?H g = Free" if "frame_metas ?s ! g = Vacant"
      using fr(5) that metas [OF g] by (cases "g = f") simp_all
  qed (simp_all add: placed_def len)
  moreover have "maps_ok anon ?s m'" unfolding maps_ok_def
  proof (intro conjI allI impI)
    show "lpage_map ?s k = Some g \<longleftrightarrow> g < num_frames ?s \<and> (\<exists>w e. frame_metas ?s ! g = Loaded k w e)" if "named m' k" for k g
      using lpage_iff [OF inv nm [OF that], of g] fv l(3) that len by (cases "k = l"; cases "g = f") (auto simp: placed_def)
    show "ppage_map ?s w = Some g \<longleftrightarrow> g < num_frames ?s \<and> (\<exists>k e. frame_metas ?s ! g = Loaded k w e)" for w g
      using ppage_iff [OF inv, of w g] fv l(1) len by (cases "w = v"; cases "g = f") (auto simp: placed_def)
    show "id_of anon m' k w" if "g < num_frames ?s" "frame_metas ?s ! g = Loaded k w e" for g k w e
    proof (cases "g = f")
      case True
      then show ?thesis using that metas [of g] l(2) fv by simp
    next
      case False
      then have "id_of anon m k w" using that metas [of g] loaded_id [OF inv, of g k w e] by (simp add: same)
      moreover have "m' 0 = None" if "m 0 = None" using d(3) that by (cases "m' 0") simp_all
      ultimately show ?thesis using d(2) by (auto simp: id_of_def map_le_def dom_def)
    qed
  qed
  moreover have "evictable_ok (Collect (ok n)) marked ?H ?s"
    using mark [OF invD(4) [OF inv], of f False] marked_frame [OF inv] metas
    by (auto simp: evictable_ok_def placed_def)
  moreover have "clean_ok on_disk ?H ?s" unfolding clean_ok_def
  proof (intro allI impI)
    fix g k w assume g: "g < num_frames ?s" "frame_metas ?s ! g = Loaded k w False" "?H g \<noteq> Writer"
    show "on_disk (bp_disk ?s) w = Some (pool_buf ?s ! g)"
    proof (cases "g = f")
      case True
      then show ?thesis using g metas [of g] L fv len by (auto simp: placed_def)
    next
      case False
      then have old: "g < num_frames s" "frame_metas s ! g = Loaded k w False" "H g \<noteq> Writer" using g metas [of g] by (simp_all add: same)
      then show ?thesis using clean_frame [OF inv old] False d(4) by (simp add: placed_def)
    qed
  qed
  ultimately show "inv n ?H ?s m'" using d(1) by (simp add: inv_def same)
qed

lemma placed_view:
  assumes inv: "inv n H s m" and f: "f \<in> vacant_frames s" and d: "on_disk d = on_disk (bp_disk s)"
  shows "pool_view on_disk (placed d f l v pg L s) = (pool_view on_disk s)(v \<mapsto> pg)"
proof
  fix w
  have fv: "f < num_frames s" "frame_metas s ! f = Vacant" using vacant_iff [OF inv] f by auto
  have "ppage_map s w \<noteq> Some f" using ppage_iff [OF inv, of w f] fv by simp
  then show "pool_view on_disk (placed d f l v pg L s) w = ((pool_view on_disk s)(v \<mapsto> pg)) w"
    using fv lengths [OF inv] d by (cases "w = v") (auto simp: pool_view_def placed_def split: option.split)
qed

section \<open>A guard on a page that is in a frame\<close>

definition grabbed :: "nat \<Rightarrow> latch \<Rightarrow> ('s, 'p) pool \<Rightarrow> ('s, 'p) pool" where
  "grabbed f L s = s\<lparr> pin_counts := (pin_counts s)[f := 1], bp_policy := ev_set_evictable P f False (bp_policy s),
     latches := (latches s)[f := L] \<rparr>"

lemma grabbed_same: "frame_metas (grabbed f L s) = frame_metas s" "pool_buf (grabbed f L s) = pool_buf s"
    "lpage_map (grabbed f L s) = lpage_map s" "ppage_map (grabbed f L s) = ppage_map s" "bp_disk (grabbed f L s) = bp_disk s"
    "num_frames (grabbed f L s) = num_frames s" "vacant_frames (grabbed f L s) = vacant_frames s"
    "pool_view on_disk (grabbed f L s) = pool_view on_disk s"
  by (simp_all add: grabbed_def pool_view_def fun_eq_iff split: option.split)

lemma grabbed_inv:
  assumes inv: "inv n H s m" and f: "f < num_frames s" "frame_metas s ! f \<noteq> Vacant" "H f = Free" and L: "L \<in> {Readers 1, Writer}"
  shows "inv n (H(f := L)) (grabbed f L s) m"
proof -
  let ?s = "grabbed f L s" and ?H = "H(f := L)"
  note len = lengths [OF inv]
  have "frames_ok ?H ?s" unfolding frames_ok_def grabbed_same
  proof (intro conjI allI impI)
    show "vacant_frames s = {f. f < num_frames s \<and> frame_metas s ! f = Vacant}" using vacant_iff [OF inv] by blast
    show "?H g = Free" if "num_frames s \<le> g" for g using invD(2) [OF inv] f that by (simp add: frames_ok_def)
    fix g assume g: "g < num_frames s"
    note fr = frame [OF inv g]
    show "latches ?s ! g = ?H g" "?H g \<in> {Free, Readers 1, Writer}" "pin_counts ?s ! g = (if ?H g = Free then 0 else 1)"
      using fr(1-3) g len L by (cases "g = f"; auto simp: grabbed_def)+
    show "length (pool_buf s ! g) = PAGE_BUF_SIZE" by (rule fr(4))
    show "?H g = Free" if "frame_metas s ! g = Vacant" using fr(5) that f(2) by auto
  qed (simp_all add: grabbed_def len)
  moreover have "maps_ok anon ?s m" using invD(3) [OF inv] by (simp add: maps_ok_def grabbed_same)
  moreover have "evictable_ok (Collect (ok n)) marked ?H ?s"
    using mark [OF invD(4) [OF inv], of f False] marked_frame [OF inv] by (auto simp: evictable_ok_def grabbed_def)
  moreover have "clean_ok on_disk ?H ?s"
    using clean_frame [OF inv] f(3) unfolding clean_ok_def grabbed_same by (metis fun_upd_apply latch.distinct(5) latch.distinct(3))
  ultimately show ?thesis using invD(1) [OF inv] by (simp add: inv_def grabbed_same)
qed

text \<open>An access is remembered.\<close>

lemma access_inv: "inv (Suc n) H s m \<Longrightarrow> inv n H (s\<lparr> bp_policy := ev_record_access P f (bp_policy s) \<rparr>) m"
  using access [of n "bp_policy s" f] by (simp add: inv_def frames_ok_def maps_ok_def evictable_ok_def clean_ok_def)

lemma view_policy: "pool_view on_disk (s\<lparr> bp_policy := p \<rparr>) = pool_view on_disk s"
  by (simp add: pool_view_def fun_eq_iff split: option.split)

lemma inv_fewer: "inv (Suc n) H s m \<Longrightarrow> inv n H s m"
  using fewer [of n "bp_policy s"] by (simp add: inv_def evictable_ok_def)

section \<open>Finding a frame\<close>

lemma claim_run:
  assumes inv: "inv n H s m" and f: "f \<in> vacant_frames s" and look: "\<And>t. lpage_map t = lpage_map s \<Longrightarrow> ppage_map t = ppage_map s \<Longrightarrow> look t = None"
  shows "claim_frame P look publish f (s\<lparr> vacant_frames := vacant_frames s - {f} \<rparr>) =
    Some (Ok (f, False), publish f (grabbed f Writer (s\<lparr> vacant_frames := vacant_frames s - {f} \<rparr>)))"
proof -
  have fv: "f < num_frames s" "frame_metas s ! f = Vacant" using vacant_iff [OF inv] f by auto
  have "H f = Free" by (rule frame(5) [OF inv fv])
  then have free: "latches s ! f = Free" "pin_counts s ! f = 0" using frame [OF inv fv(1)] by simp_all
  show ?thesis
    using fv free lengths [OF inv]
    by (simp add: claim_frame_def incr_pin_def latch_write_def grabbed_def pbind_def ret_def look)
qed

lemma find_vacant:
  assumes inv: "inv n H s m" and v: "vacant_frames s \<noteq> {}"
    and look: "\<forall>u. lpage_map u = lpage_map s \<longrightarrow> ppage_map u = ppage_map s \<longrightarrow> look u = None"
  shows "pick (vacant_frames s) \<in> vacant_frames s"
    "find_frame pick K P look publish s = Some (Ok (pick (vacant_frames s), False), publish (pick (vacant_frames s))
      (grabbed (pick (vacant_frames s)) Writer (s\<lparr> vacant_frames := vacant_frames s - {pick (vacant_frames s)} \<rparr>)))"
proof -
  show f: "pick (vacant_frames s) \<in> vacant_frames s" using vacant_finite [OF inv] v by (rule pick)
  have "look u = None" if "lpage_map u = lpage_map s" "ppage_map u = ppage_map s" for u
    using that look by simp
  from claim_run [of n H s m "pick (vacant_frames s)" look publish, OF inv f this]
  show "find_frame pick K P look publish s = Some (Ok (pick (vacant_frames s), False), publish (pick (vacant_frames s))
      (grabbed (pick (vacant_frames s)) Writer (s\<lparr> vacant_frames := vacant_frames s - {pick (vacant_frames s)} \<rparr>)))"
    using look v by (subst find_frame.simps) (simp add: take_vacant_def)
qed

lemma find_run:
  assumes inv: "inv n H s m" and none: "look s = None"
    and look: "\<forall>t. (\<forall>l. lpage_map s l = None \<longrightarrow> lpage_map t l = None) \<longrightarrow> (\<forall>v. ppage_map s v = None \<longrightarrow> ppage_map t v = None) \<longrightarrow> look t = None"
  shows "find_frame pick K P look publish s = Some (Err (EvictorError NoVictimFound), s) \<or>
    (\<exists>s' f. find_frame pick K P look publish s =
        Some (Ok (f, False), publish f (grabbed f Writer (s'\<lparr> vacant_frames := vacant_frames s' - {f} \<rparr>))) \<and>
      inv n H s' m \<and> keeps m H s s' \<and> f \<in> vacant_frames s' \<and>
      (\<forall>l. lpage_map s l = None \<longrightarrow> lpage_map s' l = None) \<and> (\<forall>v. ppage_map s v = None \<longrightarrow> ppage_map s' v = None))"
proof -
  have vacant: "pick (vacant_frames t) \<in> vacant_frames t"
    "find_frame pick K P look publish t =
      Some (Ok (pick (vacant_frames t), False), publish (pick (vacant_frames t))
        (grabbed (pick (vacant_frames t)) Writer (t\<lparr> vacant_frames := vacant_frames t - {pick (vacant_frames t)} \<rparr>)))"
    if t: "inv n H t m" "vacant_frames t \<noteq> {}" and old: "\<forall>l. lpage_map s l = None \<longrightarrow> lpage_map t l = None"
      "\<forall>v. ppage_map s v = None \<longrightarrow> ppage_map t v = None" for t
  proof -
    have "\<forall>u. lpage_map u = lpage_map t \<longrightarrow> ppage_map u = ppage_map t \<longrightarrow> look u = None" using look old by simp
    from find_vacant [OF t this] show "pick (vacant_frames t) \<in> vacant_frames t"
      "find_frame pick K P look publish t =
        Some (Ok (pick (vacant_frames t), False), publish (pick (vacant_frames t))
          (grabbed (pick (vacant_frames t)) Writer (t\<lparr> vacant_frames := vacant_frames t - {pick (vacant_frames t)} \<rparr>)))" .
  qed
  show ?thesis
  proof (cases "vacant_frames s = {}")
    case False
    have "keeps m H s s" by simp
    then show ?thesis using vacant [OF inv False] inv by blast
  next
    case True
    then have step: "find_frame pick K P look publish s = pbind (evict K P) (\<lambda>_ s. find_frame pick K P look publish s) s"
      using none by (subst find_frame.simps) (simp add: take_vacant_def)
    from evict_run [OF inv] show ?thesis
    proof (elim disjE exE conjE)
      assume "evict K P s = Some (Err (EvictorError NoVictimFound), s)"
      then show ?thesis using step by (simp add: pbind_def)
    next
      fix t g assume t: "evict K P s = Some (Ok (), t)" "inv n H t m" "keeps m H s t" "g \<in> vacant_frames t"
        "\<forall>l. lpage_map s l = None \<longrightarrow> lpage_map t l = None" "\<forall>v. ppage_map s v = None \<longrightarrow> ppage_map t v = None"
      have "vacant_frames t \<noteq> {}" using t(4) by blast
      from vacant [OF t(2) this t(5,6)] t show ?thesis using step by (simp add: pbind_def) blast
    qed
  qed
qed

section \<open>The fetch operations\<close>

text \<open>What a caller gets: a guard with latch \<open>L\<close> on frame \<open>f\<close>, which holds the page at \<open>v\<close> with the bytes
  \<open>pg\<close>; the frame is dirty or its page is as on disk.\<close>

definition settled :: "nat \<Rightarrow> ('s, 'p) pool \<Rightarrow> bool" where
  "settled f s \<longleftrightarrow> (\<forall>l v. frame_metas s ! f = Loaded l v False \<longrightarrow> on_disk (bp_disk s) v = Some (pool_buf s ! f))"

definition got :: "nat \<Rightarrow> (nat \<Rightarrow> latch) \<Rightarrow> ('s, 'p) pool \<Rightarrow> ('s, 'p) pool \<Rightarrow> (u32 \<rightharpoonup> ppage_id) \<Rightarrow> latch \<Rightarrow> nat \<Rightarrow> u32 \<Rightarrow> ppage_id \<Rightarrow> page \<Rightarrow> bool" where
  "got n H s t m L f l v pg \<longleftrightarrow> inv n (H(f := L)) t m \<and> keeps m H s t \<and> f < num_frames t \<and> H f = Free \<and>
     (\<exists>d. frame_metas t ! f = Loaded l v d) \<and> pool_buf t ! f = pg \<and> settled f t"

lemma got_grabbed:
  assumes inv: "inv n H s m" and f: "f < num_frames s" "frame_metas s ! f = Loaded l v d" "H f = Free" and L: "L \<in> {Readers 1, Writer}"
  shows "got n H s (grabbed f L s) m L f l v (pool_buf s ! f)"
proof -
  have "inv n (H(f := L)) (grabbed f L s) m" by (rule grabbed_inv [OF inv f(1) _ f(3) L]) (simp add: f(2))
  moreover have "settled f (grabbed f L s)" using clean_frame [OF inv f(1)] f(3) by (simp add: settled_def grabbed_same)
  ultimately show ?thesis using f by (auto simp: got_def keeps_def keeps_pages_def keeps_held_def keeps_clean_def grabbed_same)
qed

lemma got_placed:
  assumes inv: "inv n H s' m" and k: "keeps m H s s'" and f: "f \<in> vacant_frames s'"
    and l: "ppage_map s' v = None" "id_of anon m l v" "named m l \<Longrightarrow> lpage_map s' l = None" "on_disk (bp_disk s') v = Some pg"
    and L: "L \<in> {Readers 1, Writer}" and d: "rep d m" "on_disk d = on_disk (bp_disk s')"
      "can_grow (bp_disk s') m \<longrightarrow> can_grow d m"
  shows "got n H s (placed d f l v pg L s') m L f l v pg"
proof -
  let ?t = "placed d f l v pg L s'"
  have fv: "f < num_frames s'" "frame_metas s' ! f = Vacant" using vacant_iff [OF inv] f by auto
  have free: "H f = Free" by (rule frame(5) [OF inv fv])
  have "inv n (H(f := L)) ?t m"
    by (rule placed_inv [OF inv f l(1,2,3) page_length [OF l(4)] L]) (simp_all add: d l(4))
  moreover have "pool_view on_disk s' v = Some pg" using l(1,4) by (simp add: pool_view_def)
  then have "keeps_pages on_disk place s' ?t" by (auto simp: keeps_pages_def placed_view [OF inv f d(2)])
  moreover have "keeps_held H s' ?t" unfolding keeps_held_def
  proof (intro conjI allI impI)
    fix g assume "H g \<noteq> Free"
    then have "g \<noteq> f" using free by blast
    then show "frame_metas ?t ! g = frame_metas s' ! g" "pool_buf ?t ! g = pool_buf s' ! g" by (simp_all add: placed_def)
  qed (simp add: placed_def)
  moreover have "keeps_clean s' ?t" using lengths [OF inv] fv by (auto simp: keeps_clean_def placed_def nth_list_update)
  moreover have "can_grow (bp_disk s') m \<longrightarrow> can_grow (bp_disk ?t) m" using d(3) by (simp add: placed_def)
  ultimately have i: "inv n (H(f := L)) ?t m" and "keeps m H s' ?t" by (simp_all add: keeps_def)
  from keeps_trans [OF k this(2)] have "keeps m H s ?t" .
  moreover have "settled f ?t" using l(4) d(2) fv lengths [OF inv] by (simp add: settled_def placed_def)
  ultimately show ?thesis using i fv free lengths [OF inv] by (simp add: got_def placed_def ex_bool_eq)
qed

text \<open>The frame that a fetch by id, or by place, has claimed.\<close>

definition claimed_id :: "u32 \<Rightarrow> nat \<Rightarrow> ('s, 'p) pool \<Rightarrow> ('s, 'p) pool" where
  "claimed_id l f s = (grabbed f Writer (s\<lparr> vacant_frames := vacant_frames s - {f} \<rparr>))\<lparr> lpage_map := (lpage_map s)(l \<mapsto> f) \<rparr>"

definition claimed_place :: "ppage_id \<Rightarrow> nat \<Rightarrow> ('s, 'p) pool \<Rightarrow> ('s, 'p) pool" where
  "claimed_place v f s = (grabbed f Writer (s\<lparr> vacant_frames := vacant_frames s - {f} \<rparr>))\<lparr> ppage_map := (ppage_map s)(v \<mapsto> f) \<rparr>"

lemma load_run:
  assumes inv: "inv n H s m" and l: "m l = Some v" "on_disk (bp_disk s) v = Some pg"
  obtains d where "rep d m" "on_disk d = on_disk (bp_disk s)" "can_grow (bp_disk s) m \<longrightarrow> can_grow d m" "load_page K l f (claimed_id l f s) = Some (Ok (), placed d f l v pg Writer s)"
proof -
  obtain d where d: "dm_read_page K l PAGE_BUF_SIZE (bp_disk s) = Some (Ok (v, pg), d)" "rep d m" "on_disk d = on_disk (bp_disk s)"
      "can_grow (bp_disk s) m \<longrightarrow> can_grow d m"
    using read_id [OF invD(1) [OF inv] l] by blast
  moreover have "load_page K l f (claimed_id l f s) = Some (Ok (), placed d f l v pg Writer s)"
    using d(1) by (simp add: load_page_def claimed_id_def unlatch_on_error_def in_disk_def grabbed_def placed_def pbind_def modify_def)
  ultimately show ?thesis using that by blast
qed

lemma load_at_run:
  assumes inv: "inv n H s m" and l: "on_disk (bp_disk s) v = Some pg"
  obtains d where "rep d m" "on_disk d = on_disk (bp_disk s)" "can_grow (bp_disk s) m \<longrightarrow> can_grow d m"
    "load_page_at_loc K v f (claimed_place v f s) = Some (Ok (), placed d f (page_id (uber_header pg)) v pg Writer s)"
proof -
  obtain d where d: "dm_read_page_at_loc K v PAGE_BUF_SIZE (bp_disk s) = Some (Ok pg, d)" "rep d m" "on_disk d = on_disk (bp_disk s)"
      "can_grow (bp_disk s) m \<longrightarrow> can_grow d m"
    using read_place [OF invD(1) [OF inv] l] by blast
  moreover have "load_page_at_loc K v f (claimed_place v f s) = Some (Ok (), placed d f (page_id (uber_header pg)) v pg Writer s)"
    using d(1) by (simp add: load_page_at_loc_def claimed_place_def unlatch_on_error_def in_disk_def grabbed_def placed_def pbind_def modify_def)
  ultimately show ?thesis using that by blast
qed

lemma found_run:
  assumes inv: "inv n H s m" and f: "f < num_frames s" "H f = Free" "look s = Some f"
  shows "find_frame pick K P look publish s = Some ((Ok (f, True) :: ('e buffer_error, nat \<times> bool) outcome), grabbed f Free s)"
proof -
  have l: "latches s ! f = Free" "pin_counts s ! f = 0" using frame [OF inv f(1)] f(2) by simp_all
  then have r: "(latches s)[f := Free] = latches s" by (metis list_update_id)
  show ?thesis
    by (subst find_frame.simps) (use f l lengths [OF inv] in \<open>simp add: incr_pin_def grabbed_def pbind_def ret_def r\<close>)
qed

text \<open>A page is found, or loaded into a vacant frame, or there is no frame for it.\<close>

lemma find_cases:
  assumes inv: "inv n H s m" and l: "m l = Some v" and pg: "pool_view on_disk s v = Some pg" and free: "\<forall>f. ppage_map s v = Some f \<longrightarrow> H f = Free"
  obtains (found) f where "H f = Free" "find_by_lpage pick K P l s = Some ((Ok (f, True) :: ('e buffer_error, nat \<times> bool) outcome), grabbed f Free s)"
      "f < num_frames s" "\<And>L. L \<in> {Readers 1, Writer} \<Longrightarrow> got n H s (grabbed f L s) m L f l v pg"
  | (full) "find_by_lpage pick K P l s = Some (Err (EvictorError NoVictimFound), s)"
  | (loaded) f d s' t where "find_by_lpage pick K P l s = Some (Ok (f, False), t)"
      "load_page K l f t = Some (Ok (), placed d f l v pg Writer s')"
      "\<And>L. L \<in> {Readers 1, Writer} \<Longrightarrow> got n H s (placed d f l v pg L s') m L f l v pg"
proof -
  have nl: "named m l" using l by (simp add: named_reg)
  show ?thesis
  proof (cases "lpage_map s l")
    case (Some f)
    then obtain w e where f: "f < num_frames s" "frame_metas s ! f = Loaded l w e" using lpage_iff [OF inv nl, of f] by auto
    then have "w = v" using named_id [OF nl loaded_id [OF inv f]] l by simp
    then have fv: "frame_metas s ! f = Loaded l v e" using f(2) by simp
    have pf: "ppage_map s v = Some f" using ppage_iff [OF inv, of v f] f(1) fv by auto
    then have Hf: "H f = Free" using free by blast
    have "pool_buf s ! f = pg" using pg pf by (simp add: pool_view_def)
    then have g: "got n H s (grabbed f L s) m L f l v pg" if "L \<in> {Readers 1, Writer}" for L
      using got_grabbed [OF inv f(1) fv Hf that] by simp
    have "find_by_lpage pick K P l s = Some ((Ok (f, True) :: ('e buffer_error, nat \<times> bool) outcome), grabbed f Free s)"
      unfolding find_by_lpage_def by (rule found_run [where look = "\<lambda>s. lpage_map s l", OF inv f(1) Hf Some])
    from found [OF Hf this f(1) g] show ?thesis .
  next
    case None
    have "\<forall>t. (\<forall>l. lpage_map s l = None \<longrightarrow> lpage_map t l = None) \<longrightarrow> (\<forall>v. ppage_map s v = None \<longrightarrow> ppage_map t v = None) \<longrightarrow>
        lpage_map (t :: ('s, 'p) pool) l = None" using None by blast
    from find_run [of n H s m "\<lambda>s. lpage_map s l" "\<lambda>f s. s\<lparr> lpage_map := (lpage_map s)(l \<mapsto> f) \<rparr>", OF inv None this]
    show ?thesis
    proof (elim disjE exE conjE)
      assume "find_frame pick K P (\<lambda>s. lpage_map s l) (\<lambda>f s. s\<lparr> lpage_map := (lpage_map s)(l \<mapsto> f) \<rparr>) s = Some (Err (EvictorError NoVictimFound), s)"
      then show ?thesis by (intro full) (simp add: find_by_lpage_def)
    next
      fix s' f
      assume r: "find_frame pick K P (\<lambda>s. lpage_map s l) (\<lambda>f s. s\<lparr> lpage_map := (lpage_map s)(l \<mapsto> f) \<rparr>) s =
          Some (Ok (f, False), (grabbed f Writer (s'\<lparr> vacant_frames := vacant_frames s' - {f} \<rparr>))\<lparr> lpage_map :=
            (lpage_map (grabbed f Writer (s'\<lparr> vacant_frames := vacant_frames s' - {f} \<rparr>)))(l \<mapsto> f) \<rparr>)"
        and s': "inv n H s' m" "keeps m H s s'" "f \<in> vacant_frames s'" "\<forall>l. lpage_map s l = None \<longrightarrow> lpage_map s' l = None"
      have lp: "lpage_map s' l = None" using s'(4) None by blast
      have pp: "ppage_map s' v = None" by (rule free_place [OF s'(1) lp l invD(1) [OF s'(1)] map_le_refl nl])
      have "place v" using places(2) [OF invD(1) [OF inv] l] by simp
      then have "pool_view on_disk s' v = Some pg" using s'(2) pg by (simp add: keeps_def keeps_pages_def)
      then have c: "on_disk (bp_disk s') v = Some pg" using pp by (simp add: pool_view_def)
      obtain d where d: "rep d m" "on_disk d = on_disk (bp_disk s')" "can_grow (bp_disk s') m \<longrightarrow> can_grow d m" "load_page K l f (claimed_id l f s') = Some (Ok (), placed d f l v pg Writer s')"
        by (rule load_run [OF s'(1) l c])
      have id: "id_of anon m l v" using l by (simp add: id_of_def)
      have "find_by_lpage pick K P l s = Some (Ok (f, False), claimed_id l f s')" using r by (simp add: find_by_lpage_def claimed_id_def grabbed_same)
      then show ?thesis using d(4) got_placed [OF s'(1-3) pp id lp c _ d(1-3)] by (rule loaded)
    qed
  qed
qed

lemma find_at_cases:
  assumes inv: "inv n H s m" and v: "anon v" "m 0 = None" and pg: "pool_view on_disk s v = Some pg" "page_id (uber_header pg) = 0"
    and free: "\<forall>f. ppage_map s v = Some f \<longrightarrow> H f = Free"
  obtains (found) f where "H f = Free" "find_by_loc pick K P v s = Some ((Ok (f, True) :: ('e buffer_error, nat \<times> bool) outcome), grabbed f Free s)"
      "f < num_frames s" "\<And>L. L \<in> {Readers 1, Writer} \<Longrightarrow> got n H s (grabbed f L s) m L f 0 v pg"
  | (full) "find_by_loc pick K P v s = Some (Err (EvictorError NoVictimFound), s)"
  | (loaded) f d s' t where "find_by_loc pick K P v s = Some (Ok (f, False), t)"
      "load_page_at_loc K v f t = Some (Ok (), placed d f 0 v pg Writer s')"
      "\<And>L. L \<in> {Readers 1, Writer} \<Longrightarrow> got n H s (placed d f 0 v pg L s') m L f 0 v pg"
proof (cases "ppage_map s v")
  case (Some f)
  then obtain l e where f: "f < num_frames s" "frame_metas s ! f = Loaded l v e" using ppage_iff [OF inv, of v f] by auto
  have "id_of anon m l v" by (rule loaded_id [OF inv f])
  then have "l = 0" using v places(2) [OF invD(1) [OF inv], of l v] by (auto simp: id_of_def)
  then have fv: "frame_metas s ! f = Loaded 0 v e" using f(2) by simp
  have Hf: "H f = Free" using free Some by blast
  have "pool_buf s ! f = pg" using pg(1) Some by (simp add: pool_view_def)
  then have g: "got n H s (grabbed f L s) m L f 0 v pg" if "L \<in> {Readers 1, Writer}" for L
    using got_grabbed [OF inv f(1) fv Hf that] by simp
  have "find_by_loc pick K P v s = Some ((Ok (f, True) :: ('e buffer_error, nat \<times> bool) outcome), grabbed f Free s)"
    unfolding find_by_loc_def by (rule found_run [where look = "\<lambda>s. ppage_map s v", OF inv f(1) Hf Some])
  from found [OF Hf this f(1) g] show ?thesis .
next
  case None
  have "\<forall>t. (\<forall>l. lpage_map s l = None \<longrightarrow> lpage_map t l = None) \<longrightarrow> (\<forall>v. ppage_map s v = None \<longrightarrow> ppage_map t v = None) \<longrightarrow>
      ppage_map (t :: ('s, 'p) pool) v = None" using None by blast
  from find_run [of n H s m "\<lambda>s. ppage_map s v" "\<lambda>f s. s\<lparr> ppage_map := (ppage_map s)(v \<mapsto> f) \<rparr>", OF inv None this]
  show ?thesis
  proof (elim disjE exE conjE)
    assume "find_frame pick K P (\<lambda>s. ppage_map s v) (\<lambda>f s. s\<lparr> ppage_map := (ppage_map s)(v \<mapsto> f) \<rparr>) s = Some (Err (EvictorError NoVictimFound), s)"
    then show ?thesis by (intro full) (simp add: find_by_loc_def)
  next
    fix s' f
    assume r: "find_frame pick K P (\<lambda>s. ppage_map s v) (\<lambda>f s. s\<lparr> ppage_map := (ppage_map s)(v \<mapsto> f) \<rparr>) s =
        Some (Ok (f, False), (grabbed f Writer (s'\<lparr> vacant_frames := vacant_frames s' - {f} \<rparr>))\<lparr> ppage_map :=
          (ppage_map (grabbed f Writer (s'\<lparr> vacant_frames := vacant_frames s' - {f} \<rparr>)))(v \<mapsto> f) \<rparr>)"
      and s': "inv n H s' m" "keeps m H s s'" "f \<in> vacant_frames s'" "\<forall>v. ppage_map s v = None \<longrightarrow> ppage_map s' v = None"
    have pp: "ppage_map s' v = None" using s'(4) None by blast
    have "pool_view on_disk s' v = Some pg" using s'(2) pg(1) places(3) [OF v(1)] by (simp add: keeps_def keeps_pages_def)
    then have c: "on_disk (bp_disk s') v = Some pg" using pp by (simp add: pool_view_def)
    obtain d where d: "rep d m" "on_disk d = on_disk (bp_disk s')" "can_grow (bp_disk s') m \<longrightarrow> can_grow d m"
      "load_page_at_loc K v f (claimed_place v f s') = Some (Ok (), placed d f 0 v pg Writer s')"
      by (rule load_at_run [OF s'(1) c, of f]) (use pg(2) that in simp)
    have id: "id_of anon m 0 v" and nn: "named m 0 \<Longrightarrow> lpage_map s' 0 = None" using v by (simp_all add: id_of_def named_def)
    have "find_by_loc pick K P v s = Some (Ok (f, False), claimed_place v f s')" using r by (simp add: find_by_loc_def claimed_place_def grabbed_same)
    then show ?thesis using d(4) got_placed [OF s'(1-3) pp id nn c _ d(1-3)] by (rule loaded)
  qed
qed

lemma relatched: "latches (grabbed f Free s) = (latches s)[f := Free]"
    "(grabbed f Free s)\<lparr> latches := (latches s)[f := L] \<rparr> = grabbed f L s"
    "(placed d f l v pg Writer s)\<lparr> latches := (latches (placed d f l v pg Writer s))[f := L] \<rparr> = placed d f l v pg L s"
  by (simp_all add: grabbed_def placed_def)

text \<open>The four fetches; a frame whose latch is free, or no frame.\<close>

lemma fetch_write_run:
  assumes inv: "inv n H s m" and l: "m l = Some v" and pg: "pool_view on_disk s v = Some pg" and free: "\<forall>f. ppage_map s v = Some f \<longrightarrow> H f = Free"
  shows "fetch_page_write pick K P l s = Some (Err (EvictorError NoVictimFound), s) \<or>
    (\<exists>f t. fetch_page_write pick K P l s = Some (Ok f, t) \<and> got n H s t m Writer f l v pg)"
  using inv l pg free
proof (cases rule: find_cases)
  case (found f)
  have "latch_write f (grabbed f Free s) = Some ((Ok () :: ('e buffer_error, unit) outcome), grabbed f Writer s)"
    using found(3) lengths [OF inv] by (simp add: latch_write_def ret_def relatched)
  then have "fetch_page_write pick K P l s = Some (Ok f, grabbed f Writer s)"
    using found(2) by (simp add: fetch_page_write_def pbind_def write_guard_new_def ret_def)
  then show ?thesis using found(4) [of Writer] by blast
next
  case full
  then show ?thesis by (simp add: fetch_page_write_def pbind_def)
next
  case (loaded f d s' t)
  then have "fetch_page_write pick K P l s = Some (Ok f, placed d f l v pg Writer s')"
    by (simp add: fetch_page_write_def pbind_def write_guard_new_def ret_def)
  then show ?thesis using loaded(3) [of Writer] by blast
qed

lemma fetch_at_write_run:
  assumes inv: "inv n H s m" and v: "anon v" "m 0 = None" and pg: "pool_view on_disk s v = Some pg" "page_id (uber_header pg) = 0"
    and free: "\<forall>f. ppage_map s v = Some f \<longrightarrow> H f = Free"
  shows "fetch_page_at_loc_write pick K P v s = Some (Err (EvictorError NoVictimFound), s) \<or>
    (\<exists>f t. fetch_page_at_loc_write pick K P v s = Some (Ok f, t) \<and> got n H s t m Writer f 0 v pg)"
  using inv v pg free
proof (cases rule: find_at_cases)
  case (found f)
  have "latch_write f (grabbed f Free s) = Some ((Ok () :: ('e buffer_error, unit) outcome), grabbed f Writer s)"
    using found(3) lengths [OF inv] by (simp add: latch_write_def ret_def relatched)
  then have "fetch_page_at_loc_write pick K P v s = Some (Ok f, grabbed f Writer s)"
    using found(2) by (simp add: fetch_page_at_loc_write_def pbind_def write_guard_new_def ret_def)
  then show ?thesis using found(4) [of Writer] by blast
next
  case full
  then show ?thesis by (simp add: fetch_page_at_loc_write_def pbind_def)
next
  case (loaded f d s' t)
  then have "fetch_page_at_loc_write pick K P v s = Some (Ok f, placed d f 0 v pg Writer s')"
    by (simp add: fetch_page_at_loc_write_def pbind_def write_guard_new_def ret_def)
  then show ?thesis using loaded(3) [of Writer] by blast
qed

lemma found_read:
  assumes inv: "inv (Suc n) H s m" and f: "f < num_frames s" and g: "\<And>L. L \<in> {Readers 1, Writer} \<Longrightarrow> got (Suc n) H s (grabbed f L s) m L f l v pg"
  shows "\<exists>t. pbind (latch_read f) (\<lambda>_. read_guard_new P f) (grabbed f Free s) = Some ((Ok f :: ('e buffer_error, nat) outcome), t) \<and>
    got n H s t m (Readers 1) f l v pg"
proof -
  let ?t = "(grabbed f (Readers 1) s)\<lparr> bp_policy := ev_record_access P f (bp_policy (grabbed f (Readers 1) s)) \<rparr>"
  have "latch_read f (grabbed f Free s) = Some ((Ok () :: ('e buffer_error, unit) outcome), grabbed f (Readers 1) s)"
    using f lengths [OF inv] by (simp add: latch_read_def ret_def relatched)
  then have "pbind (latch_read f) (\<lambda>_. read_guard_new P f) (grabbed f Free s) = Some ((Ok f :: ('e buffer_error, nat) outcome), ?t)"
    by (simp add: pbind_def read_guard_new_def ret_def)
  moreover have "got n H s ?t m (Readers 1) f l v pg"
    using g [of "Readers 1"] access_inv [of n "H(f := Readers 1)" "grabbed f (Readers 1) s" m f]
    by (simp add: got_def keeps_def keeps_pages_def keeps_held_def keeps_clean_def settled_def view_policy)
  ultimately show ?thesis by blast
qed

lemma fetch_read_run:
  assumes inv: "inv (Suc n) H s m" and l: "m l = Some v" and pg: "pool_view on_disk s v = Some pg" and free: "\<forall>f. ppage_map s v = Some f \<longrightarrow> H f = Free"
  shows "fetch_page_read pick K P l s = Some (Err (EvictorError NoVictimFound), s) \<or>
    (\<exists>f t. fetch_page_read pick K P l s = Some (Ok f, t) \<and> got n H s t m (Readers 1) f l v pg)"
  using inv l pg free
proof (cases rule: find_cases)
  case (found f)
  obtain t where "pbind (latch_read f) (\<lambda>_. read_guard_new P f) (grabbed f Free s) = Some ((Ok f :: ('e buffer_error, nat) outcome), t)"
    "got n H s t m (Readers 1) f l v pg" using found_read [OF inv found(3,4)] by blast
  moreover have "fetch_page_read pick K P l s = pbind (latch_read f) (\<lambda>_. read_guard_new P f) (grabbed f Free s)"
    using found(2) by (simp add: fetch_page_read_def pbind_def)
  ultimately show ?thesis by auto
next
  case full
  then show ?thesis by (simp add: fetch_page_read_def pbind_def)
next
  case (loaded f d s' t)
  then have "fetch_page_read pick K P l s = Some (Ok f, placed d f l v pg (Readers 1) s')"
    by (simp add: fetch_page_read_def pbind_def write_guard_new_def ret_def downgrade_def relatched)
  moreover have "got n H s (placed d f l v pg (Readers 1) s') m (Readers 1) f l v pg"
    using loaded(3) [of "Readers 1"] inv_fewer by (auto simp: got_def)
  ultimately show ?thesis by blast
qed

lemma fetch_at_read_run:
  assumes inv: "inv (Suc n) H s m" and v: "anon v" "m 0 = None" and pg: "pool_view on_disk s v = Some pg" "page_id (uber_header pg) = 0"
    and free: "\<forall>f. ppage_map s v = Some f \<longrightarrow> H f = Free"
  shows "fetch_page_at_loc_read pick K P v s = Some (Err (EvictorError NoVictimFound), s) \<or>
    (\<exists>f t. fetch_page_at_loc_read pick K P v s = Some (Ok f, t) \<and> got n H s t m (Readers 1) f 0 v pg)"
  using inv v pg free
proof (cases rule: find_at_cases)
  case (found f)
  obtain t where "pbind (latch_read f) (\<lambda>_. read_guard_new P f) (grabbed f Free s) = Some ((Ok f :: ('e buffer_error, nat) outcome), t)"
    "got n H s t m (Readers 1) f 0 v pg" using found_read [OF inv found(3,4)] by blast
  moreover have "fetch_page_at_loc_read pick K P v s = pbind (latch_read f) (\<lambda>_. read_guard_new P f) (grabbed f Free s)"
    using found(2) by (simp add: fetch_page_at_loc_read_def pbind_def)
  ultimately show ?thesis by auto
next
  case full
  then show ?thesis by (simp add: fetch_page_at_loc_read_def pbind_def)
next
  case (loaded f d s' t)
  then have "fetch_page_at_loc_read pick K P v s = Some (Ok f, placed d f 0 v pg (Readers 1) s')"
    by (simp add: fetch_page_at_loc_read_def pbind_def write_guard_new_def ret_def downgrade_def relatched)
  moreover have "got n H s (placed d f 0 v pg (Readers 1) s') m (Readers 1) f 0 v pg"
    using loaded(3) [of "Readers 1"] inv_fewer by (auto simp: got_def)
  ultimately show ?thesis by blast
qed

section \<open>Changing a page and releasing its guard\<close>

definition rewritten :: "nat \<Rightarrow> u32 \<Rightarrow> ppage_id \<Rightarrow> page \<Rightarrow> ('s, 'p) pool \<Rightarrow> ('s, 'p) pool" where
  "rewritten f l v pg s = s\<lparr> pool_buf := (pool_buf s)[f := pg], frame_metas := (frame_metas s)[f := Loaded l v True] \<rparr>"

lemma rewritten_inv:
  assumes inv: "inv n H s m" and f: "f < num_frames s" "frame_metas s ! f = Loaded l v d" "length pg = PAGE_BUF_SIZE"
  shows "inv n H (rewritten f l v pg s) m" "pool_view on_disk (rewritten f l v pg s) = (pool_view on_disk s)(v \<mapsto> pg)"
proof -
  let ?s = "rewritten f l v pg s"
  note len = lengths [OF inv]
  have same: "num_frames ?s = num_frames s" "bp_disk ?s = bp_disk s" "lpage_map ?s = lpage_map s" "ppage_map ?s = ppage_map s"
    "bp_policy ?s = bp_policy s" "latches ?s = latches s" "pin_counts ?s = pin_counts s" "vacant_frames ?s = vacant_frames s"
    by (simp_all add: rewritten_def)
  have metas: "frame_metas ?s ! g = (if g = f then Loaded l v True else frame_metas s ! g)"
    "pool_buf ?s ! g = (if g = f then pg else pool_buf s ! g)" if "g < num_frames s" for g
    using len that by (simp_all add: rewritten_def nth_list_update)
  have old: "(\<exists>e. frame_metas ?s ! g = Loaded k w e) \<longleftrightarrow> (\<exists>e. frame_metas s ! g = Loaded k w e)" if "g < num_frames s" for g k w
    using metas(1) [OF that] f(2) by auto
  have vac: "frame_metas ?s ! g = Vacant \<longleftrightarrow> frame_metas s ! g = Vacant" if "g < num_frames s" for g
    using metas(1) [OF that] f(2) by auto
  have "frames_ok H ?s"
    using invD(2) [OF inv] metas vac f(3) unfolding frames_ok_def same by (auto simp: rewritten_def)
  moreover have "maps_ok anon ?s m" unfolding maps_ok_def same
  proof (intro conjI allI impI)
    show "lpage_map s k = Some g \<longleftrightarrow> g < num_frames s \<and> (\<exists>w e. frame_metas ?s ! g = Loaded k w e)" if "named m k" for k g
      by (simp add: lpage_iff [OF inv that] old cong: conj_cong)
    show "ppage_map s w = Some g \<longleftrightarrow> g < num_frames s \<and> (\<exists>k e. frame_metas ?s ! g = Loaded k w e)" for w g
      by (simp add: ppage_iff [OF inv] old cong: conj_cong)
    show "id_of anon m k w" if "g < num_frames s" "frame_metas ?s ! g = Loaded k w e" for g k w e
      using old [of g k w] that loaded_id [OF inv] by blast
  qed
  moreover have "evictable_ok (Collect (ok n)) marked H ?s"
    using inv vac unfolding inv_def evictable_ok_def same by auto
  moreover have "clean_ok on_disk H ?s" unfolding clean_ok_def same
  proof (intro allI impI)
    fix g k w assume g: "g < num_frames s" "frame_metas ?s ! g = Loaded k w False" "H g \<noteq> Writer"
    then have "g \<noteq> f" using metas(1) [OF g(1)] by auto
    then show "on_disk (bp_disk s) w = Some (pool_buf ?s ! g)"
      using clean_frame [OF inv g(1) _ g(3)] g(2) metas [OF g(1)] by auto
  qed
  ultimately show "inv n H ?s m" using invD(1) [OF inv] by (simp add: inv_def same)
  have pf: "ppage_map s v = Some f" using ppage_iff [OF inv, of v f] f by auto
  show "pool_view on_disk ?s = (pool_view on_disk s)(v \<mapsto> pg)"
  proof
    fix w
    show "pool_view on_disk ?s w = ((pool_view on_disk s)(v \<mapsto> pg)) w"
    proof (cases "ppage_map s w")
      case None
      then have "w \<noteq> v" using pf by auto
      then show ?thesis using None by (simp add: pool_view_def same)
    next
      case (Some g)
      then have g: "g < num_frames s" "g = f \<longleftrightarrow> w = v" using ppage_iff [OF inv, of w g] pf f(2) by auto
      then show ?thesis using Some metas(2) [OF g(1)] by (simp add: pool_view_def same)
    qed
  qed
qed

lemma mark_run: "inv n H s m \<Longrightarrow> f < num_frames s \<Longrightarrow> frame_metas s ! f = Loaded l v d \<Longrightarrow>
    pbind (guard_update f pg) (\<lambda>_. mark_frame_dirty f) s = Some ((Ok () :: ('e buffer_error, unit) outcome), rewritten f l v pg s)"
  using lengths [of n H s m] by (simp add: guard_update_def mark_frame_dirty_def ret_def rewritten_def)

definition dropped :: "nat \<Rightarrow> ('s, 'p) pool \<Rightarrow> ('s, 'p) pool" where
  "dropped f s = s\<lparr> pin_counts := (pin_counts s)[f := 0], bp_policy := ev_set_evictable P f True (bp_policy s),
     latches := (latches s)[f := Free] \<rparr>"

lemma dropped_same: "frame_metas (dropped f s) = frame_metas s" "pool_buf (dropped f s) = pool_buf s"
    "lpage_map (dropped f s) = lpage_map s" "ppage_map (dropped f s) = ppage_map s" "bp_disk (dropped f s) = bp_disk s"
    "num_frames (dropped f s) = num_frames s" "vacant_frames (dropped f s) = vacant_frames s"
    "pool_view on_disk (dropped f s) = pool_view on_disk s"
  by (simp_all add: dropped_def pool_view_def fun_eq_iff split: option.split)

lemma drop_run:
  assumes inv: "inv n H s m" and f: "f < num_frames s" "H f \<noteq> Free" "frame_metas s ! f \<noteq> Vacant"
    and settled: "H f = Writer \<Longrightarrow> settled f s"
  shows "drop_guard P f s = Some ((Ok () :: ('e buffer_error, unit) outcome), dropped f s)" "inv n (H(f := Free)) (dropped f s) m"
proof -
  let ?s = "dropped f s" and ?H = "H(f := Free)"
  note len = lengths [OF inv]
  have pin: "pin_counts s ! f = 1" "latches s ! f \<in> {Readers 1, Writer}" using frame [OF inv f(1)] f(2) by auto
  show "drop_guard P f s = Some ((Ok () :: ('e buffer_error, unit) outcome), ?s)"
    using f(1) pin len by (auto simp: drop_guard_def decr_pin_def pbind_def ret_def modify_def unlatch_def dropped_def)
  have "frames_ok ?H ?s" unfolding frames_ok_def dropped_same
  proof (intro conjI allI impI)
    show "vacant_frames s = {f. f < num_frames s \<and> frame_metas s ! f = Vacant}" using vacant_iff [OF inv] by blast
    show "?H g = Free" if "num_frames s \<le> g" for g using invD(2) [OF inv] f that by (simp add: frames_ok_def)
    fix g assume g: "g < num_frames s"
    note fr = frame [OF inv g]
    show "latches ?s ! g = ?H g" "?H g \<in> {Free, Readers 1, Writer}" "pin_counts ?s ! g = (if ?H g = Free then 0 else 1)"
      using fr(1-3) g len by (cases "g = f"; auto simp: dropped_def)+
    show "length (pool_buf s ! g) = PAGE_BUF_SIZE" by (rule fr(4))
    show "?H g = Free" if "frame_metas s ! g = Vacant" using fr(5) that by simp
  qed (simp_all add: dropped_def len)
  moreover have "maps_ok anon ?s m" using invD(3) [OF inv] by (simp add: maps_ok_def dropped_same)
  moreover have "evictable_ok (Collect (ok n)) marked ?H ?s"
    using mark [OF invD(4) [OF inv], of f True] marked_frame [OF inv] f(1,3) by (auto simp: evictable_ok_def dropped_def)
  moreover have "clean_ok on_disk ?H ?s" unfolding clean_ok_def dropped_same
  proof (intro allI impI)
    fix g l v assume g: "g < num_frames s" "frame_metas s ! g = Loaded l v False" "?H g \<noteq> Writer"
    show "on_disk (bp_disk s) v = Some (pool_buf s ! g)"
    proof (cases "H g = Writer")
      case True
      then have "g = f" using g(3) by (cases "g = f") simp_all
      then show ?thesis using True settled g(2) by (simp add: settled_def)
    next
      case False
      then show ?thesis by (rule clean_frame [OF inv g(1,2)])
    qed
  qed
  ultimately show "inv n ?H ?s m" using invD(1) [OF inv] by (simp add: inv_def dropped_same)
qed

section \<open>A new page\<close>

lemma disk_inv:
  assumes inv: "inv n H s m" and d: "rep d m'" "m \<subseteq>\<^sub>m m'" "m' 0 = m 0" "on_disk d = on_disk (bp_disk s)"
  shows "inv n H (s\<lparr> bp_disk := d \<rparr>) m'" "pool_view on_disk (s\<lparr> bp_disk := d \<rparr>) = pool_view on_disk s"
proof -
  have "named m' l = named m l" for l using d(3) by (simp add: named_def)
  moreover have "id_of anon m' l v" if "id_of anon m l v" for l v
    using that d(2,3) by (auto simp: id_of_def map_le_def dom_def)
  ultimately have "maps_ok anon (s\<lparr> bp_disk := d \<rparr>) m'"
    using invD(3) [OF inv] by (simp add: maps_ok_def)
  moreover have "clean_ok on_disk H (s\<lparr> bp_disk := d \<rparr>)"
    using clean_frame [OF inv] d(4) by (simp add: clean_ok_def)
  ultimately show "inv n H (s\<lparr> bp_disk := d \<rparr>) m'"
    using inv d(1) by (simp add: inv_def frames_ok_def evictable_ok_def)
  show "pool_view on_disk (s\<lparr> bp_disk := d \<rparr>) = pool_view on_disk s"
    using d(4) by (auto simp: pool_view_def fun_eq_iff split: option.split)
qed

lemma vacant_run:
  assumes inv: "inv n H s m"
  shows "vacant_frame pick K P s = Some (Err (EvictorError NoVictimFound), s) \<or>
    (\<exists>s' f. vacant_frame pick K P s = Some (Ok f, s'\<lparr> vacant_frames := vacant_frames s' - {f} \<rparr>) \<and>
      inv n H s' m \<and> keeps m H s s' \<and> f \<in> vacant_frames s' \<and> (\<forall>l. lpage_map s l = None \<longrightarrow> lpage_map s' l = None))"
proof -
  have vacant: "pick (vacant_frames t) \<in> vacant_frames t"
    "vacant_frame pick K P t = Some (Ok (pick (vacant_frames t)), t\<lparr> vacant_frames := vacant_frames t - {pick (vacant_frames t)} \<rparr>)"
    if "inv n H t m" "vacant_frames t \<noteq> {}" for t
    using pick [OF vacant_finite [OF that(1)] that(2)] that(2) by (simp, subst vacant_frame.simps) (simp_all add: take_vacant_def ret_def)
  show ?thesis
  proof (cases "vacant_frames s = {}")
    case False
    have "keeps m H s s" by simp
    then show ?thesis using vacant [OF inv False] inv by blast
  next
    case True
    then have step: "vacant_frame pick K P s = pbind (evict K P) (\<lambda>_ s. vacant_frame pick K P s) s"
      by (subst vacant_frame.simps) (simp add: take_vacant_def)
    from evict_run [OF inv] show ?thesis
    proof (elim disjE exE conjE)
      assume "evict K P s = Some (Err (EvictorError NoVictimFound), s)"
      then show ?thesis using step by (simp add: pbind_def)
    next
      fix t g assume t: "evict K P s = Some (Ok (), t)" "inv n H t m" "keeps m H s t" "g \<in> vacant_frames t"
        "\<forall>l. lpage_map s l = None \<longrightarrow> lpage_map t l = None"
      have "vacant_frames t \<noteq> {}" using t(4) by blast
      from vacant [OF t(2) this] t show ?thesis using step by (simp add: pbind_def) blast
    qed
  qed
qed

lemma new_page_run:
  assumes inv: "inv n H s m" and grow: "can_grow (bp_disk s) m"
  shows "\<exists>l v t. m l = None \<and> l \<noteq> 0 \<and> v \<notin> ran m \<and> pp_file v = fno \<and>
    (pool_new_page pick K P fno s = Some (Err (EvictorError NoVictimFound), t) \<and> inv n H t (m(l \<mapsto> v)) \<and> keeps_pages on_disk place s t \<and> keeps_held H s t \<or>
     (\<exists>f. pool_new_page pick K P fno s = Some (Ok f, t) \<and> inv n (H(f := Writer)) t (m(l \<mapsto> v)) \<and> keeps_held H s t \<and> H f = Free \<and> f < num_frames t \<and>
       frame_metas t ! f = Loaded l v False \<and> pool_buf t ! f = replicate PAGE_BUF_SIZE 0 \<and>
       (\<forall>w p. place w \<longrightarrow> w \<noteq> v \<longrightarrow> pool_view on_disk s w = Some p \<longrightarrow> pool_view on_disk t w = Some p)))"
proof -
  obtain l v d where d: "dm_new_page K fno (bp_disk s) = Some (Ok (l, v), d)" "m l = None" "l \<noteq> 0" "v \<notin> ran m" "pp_file v = fno" "rep d (m(l \<mapsto> v))"
      "on_disk d = on_disk (bp_disk s)"
    using new_place [OF invD(1) [OF inv] grow, of fno] by blast
  let ?s = "s\<lparr> bp_disk := d \<rparr>" and ?m = "m(l \<mapsto> v)"
  have le: "m \<subseteq>\<^sub>m ?m" and z: "?m 0 = m 0" using d(2,3) by (auto simp: map_le_def)
  have new: "in_disk (dm_new_page K fno) s = Some ((Ok (l, v) :: ('e buffer_error, u32 \<times> ppage_id) outcome), ?s)" using d(1) by (simp add: in_disk_def)
  note inv' = disk_inv(1) [OF inv d(6) le z d(7)] and view = disk_inv(2) [OF inv d(6) le z d(7)]
  have here: "keeps_pages on_disk place s ?s" "keeps_held H s ?s" by (simp_all add: keeps_pages_def keeps_held_def view)
  have nl: "lpage_map s l = None"
  proof (rule ccontr)
    assume "lpage_map s l \<noteq> None"
    then obtain g w e where g: "g < num_frames s" "frame_metas s ! g = Loaded l w e"
      using lpage_iff [OF inv, of l] d(3) by (auto simp: named_def)
    then show False using loaded_id [OF inv g] d(2,3) by (simp add: id_of_def)
  qed
  have ml: "?m l = Some v" and nm: "named ?m l" using d(3) by (simp_all add: named_def)
  from vacant_run [OF inv'] show ?thesis
  proof (elim disjE exE conjE)
    assume "vacant_frame pick K P ?s = Some (Err (EvictorError NoVictimFound), ?s)"
    then have "pool_new_page pick K P fno s = Some (Err (EvictorError NoVictimFound), ?s)"
      using new by (simp add: pool_new_page_def pbind_def)
    then show ?thesis using d(2-5) inv' here by blast
  next
    fix s' f assume s': "vacant_frame pick K P ?s = Some (Ok f, s'\<lparr> vacant_frames := vacant_frames s' - {f} \<rparr>)"
      "inv n H s' ?m" "keeps ?m H ?s s'" "f \<in> vacant_frames s'" "\<forall>l. lpage_map ?s l = None \<longrightarrow> lpage_map s' l = None"
    let ?t = "placed (bp_disk s') f l v (replicate PAGE_BUF_SIZE 0) Writer s'"
    have fv: "f < num_frames s'" "frame_metas s' ! f = Vacant" using vacant_iff [OF s'(2)] s'(4) by auto
    have free: "H f = Free" by (rule frame(5) [OF s'(2) fv])
    then have lp: "latches s' ! f = Free" "pin_counts s' ! f = 0" using frame [OF s'(2) fv(1)] by simp_all
    have lp': "lpage_map s' l = None" using s'(5) nl by simp
    have pp: "ppage_map s' v = None" by (rule free_place [OF s'(2) lp' ml invD(1) [OF s'(2)] map_le_refl nm])
    have run: "pool_new_page pick K P fno s = Some (Ok f, ?t)"
      using new s'(1) fv lp lengths [OF s'(2)]
      by (simp add: pool_new_page_def pbind_def incr_pin_def latch_write_def modify_def ret_def write_guard_new_def placed_def)
    have id: "id_of anon ?m l v" by (simp add: id_of_def)
    have "inv n (H(f := Writer)) ?t ?m"
      by (rule placed_inv [OF s'(2,4) pp id lp']) (simp_all add: invD(1) [OF s'(2)])
    moreover have keep: "keeps_pages on_disk place s s'" "keeps_held H s s'"
      using here s'(3) by (simp_all add: keeps_def keeps_pages_def keeps_held_def)
    have "keeps_held H s ?t" unfolding keeps_held_def
    proof (intro conjI allI impI)
      fix g assume g: "H g \<noteq> Free"
      then have "g \<noteq> f" using free by blast
      then show "frame_metas ?t ! g = frame_metas s ! g" "pool_buf ?t ! g = pool_buf s ! g"
        using keep(2) g by (simp_all add: placed_def keeps_held_def)
    qed (use keep(2) in \<open>simp add: placed_def keeps_held_def\<close>)
    moreover have "pool_view on_disk ?t w = Some p" if "place w" "w \<noteq> v" "pool_view on_disk s w = Some p" for w p
      using keep(1) that by (simp add: placed_view [OF s'(2,4)] keeps_pages_def)
    ultimately show ?thesis using run d(2-5) free fv lengths [OF s'(2)]
      by (intro exI [of _ l] exI [of _ v] exI [of _ ?t]) (simp add: placed_def)
  qed
qed

section \<open>Flushing\<close>

definition cleaned :: "'s \<Rightarrow> nat \<Rightarrow> u32 \<Rightarrow> ppage_id \<Rightarrow> ('s, 'p) pool \<Rightarrow> ('s, 'p) pool" where
  "cleaned d f l v s = s\<lparr> bp_disk := d, frame_metas := (frame_metas s)[f := Loaded l v False] \<rparr>"

lemma cleaned_inv:
  assumes inv: "inv n H s m" and f: "f < num_frames s" "frame_metas s ! f = Loaded l v b"
    and d: "rep d m" "on_disk d v = Some (pool_buf s ! f)" "\<And>w p. place w \<Longrightarrow> on_disk (bp_disk s) w = Some p \<Longrightarrow> w \<noteq> v \<Longrightarrow> on_disk d w = Some p"
  shows "inv n H (cleaned d f l v s) m" "keeps_pages on_disk place s (cleaned d f l v s)"
proof -
  let ?s = "cleaned d f l v s"
  note len = lengths [OF inv]
  have same: "num_frames ?s = num_frames s" "bp_disk ?s = d" "lpage_map ?s = lpage_map s" "ppage_map ?s = ppage_map s" "pool_buf ?s = pool_buf s"
    "bp_policy ?s = bp_policy s" "latches ?s = latches s" "pin_counts ?s = pin_counts s" "vacant_frames ?s = vacant_frames s"
    by (simp_all add: cleaned_def)
  have metas: "frame_metas ?s ! g = (if g = f then Loaded l v False else frame_metas s ! g)" if "g < num_frames s" for g
    using len that by (simp add: cleaned_def nth_list_update)
  have old: "(\<exists>e. frame_metas ?s ! g = Loaded k w e) \<longleftrightarrow> (\<exists>e. frame_metas s ! g = Loaded k w e)" if "g < num_frames s" for g k w
    using metas [OF that] f(2) by auto
  have vac: "frame_metas ?s ! g = Vacant \<longleftrightarrow> frame_metas s ! g = Vacant" if "g < num_frames s" for g
    using metas [OF that] f(2) by auto
  have "frames_ok H ?s"
    using invD(2) [OF inv] vac unfolding frames_ok_def same by (auto simp: cleaned_def)
  moreover have "maps_ok anon ?s m" unfolding maps_ok_def same
  proof (intro conjI allI impI)
    show "lpage_map s k = Some g \<longleftrightarrow> g < num_frames s \<and> (\<exists>w e. frame_metas ?s ! g = Loaded k w e)" if "named m k" for k g
      by (simp add: lpage_iff [OF inv that] old cong: conj_cong)
    show "ppage_map s w = Some g \<longleftrightarrow> g < num_frames s \<and> (\<exists>k e. frame_metas ?s ! g = Loaded k w e)" for w g
      by (simp add: ppage_iff [OF inv] old cong: conj_cong)
    show "id_of anon m k w" if "g < num_frames s" "frame_metas ?s ! g = Loaded k w e" for g k w e
      using old [of g k w] that loaded_id [OF inv] by blast
  qed
  moreover have "evictable_ok (Collect (ok n)) marked H ?s"
    using inv vac unfolding inv_def evictable_ok_def same by auto
  moreover have "clean_ok on_disk H ?s" unfolding clean_ok_def same
  proof (intro allI impI)
    fix g k w assume g: "g < num_frames s" "frame_metas ?s ! g = Loaded k w False" "H g \<noteq> Writer"
    show "on_disk d w = Some (pool_buf s ! g)"
    proof (cases "g = f")
      case True
      then show ?thesis using g metas [OF g(1)] d(2) by simp
    next
      case False
      then have old: "frame_metas s ! g = Loaded k w False" using g metas [OF g(1)] by simp
      have "w \<noteq> v" using one_frame(2) [OF inv f g(1)] old False by auto
      then show ?thesis using d(3) [OF loaded_place [OF inv g(1) old] clean_frame [OF inv g(1) old g(3)]] by simp
    qed
  qed
  ultimately show "inv n H ?s m" using d(1) by (simp add: inv_def same)
  show "keeps_pages on_disk place s ?s" unfolding keeps_pages_def
  proof (intro allI impI)
    fix w p assume w: "place w" "pool_view on_disk s w = Some p"
    show "pool_view on_disk ?s w = Some p"
    proof (cases "w = v")
      case True
      then have "ppage_map s w = Some f" using ppage_iff [OF inv, of v f] f by auto
      then show ?thesis using w(2) by (simp add: pool_view_def same)
    next
      case False
      then show ?thesis using d(3) [OF w(1)] w(2) by (simp add: pool_view_def same split: option.splits)
    qed
  qed
qed

lemma flush_one:
  assumes inv: "inv n H s m" and f: "f < num_frames s" "H f \<noteq> Writer" "frame_metas s ! f = Loaded l v True"
  obtains t where "flush_frame K f v s = Some ((Ok () :: ('e buffer_error, unit) outcome), t)" "inv n H t m" "num_frames t = num_frames s"
    "frame_metas t = (frame_metas s)[f := Loaded l v False]" "keeps_pages on_disk place s t"
proof -
  note fr = frame [OF inv f(1)] and len = lengths [OF inv]
  have pv: "place v" by (rule loaded_place [OF inv f(1,3)])
  obtain d where d: "dm_write_page_at_loc K v (pool_buf s ! f) (bp_disk s) = Some (Ok (), d)" "rep d m" "on_disk d v = Some (pool_buf s ! f)"
      "\<forall>w p. place w \<longrightarrow> w \<noteq> v \<longrightarrow> on_disk (bp_disk s) w = Some p \<longrightarrow> on_disk d w = Some p"
    using write_place [OF invD(1) [OF inv] pv fr(4)] by blast
  let ?t = "cleaned d f l v s" and ?L = "if H f = Free then Readers 1 else Readers (Suc (Suc 0))"
  have L: "H f = Free \<or> H f = Readers 1" using fr(3) f(2) by auto
  have same: "(latches s)[f := H f] = latches s" using fr(1) by (metis list_update_id)
  have "latch_read f s = Some ((Ok () :: ('e buffer_error, unit) outcome), s\<lparr> latches := (latches s)[f := ?L] \<rparr>)"
    using L fr(1) f(1) len by (auto simp: latch_read_def ret_def)
  moreover have "(latches s)[f := (case ?L of Readers n \<Rightarrow> if 1 < n then Readers (n - 1) else Free | _ \<Rightarrow> Free)] = latches s"
    using L same by auto
  ultimately have "flush_frame K f v s = Some ((Ok () :: ('e buffer_error, unit) outcome), ?t)"
    using f(1,3) d(1) len by (simp add: flush_frame_def pbind_def latched_def in_disk_def modify_def unlatch_def cleaned_def)
  moreover have "inv n H ?t m" and "keeps_pages on_disk place s ?t"
    using cleaned_inv [OF inv f(1,3) d(2,3)] d(4) by blast+
  moreover have "num_frames ?t = num_frames s" "frame_metas ?t = (frame_metas s)[f := Loaded l v False]" by (simp_all add: cleaned_def)
  ultimately show ?thesis using that [of ?t] by blast
qed

lemma flush_list:
  assumes "inv n H s m" "distinct (map fst fs)" "\<forall>(f, v)\<in>set fs. f < num_frames s \<and> H f \<noteq> Writer \<and> (\<exists>l. frame_metas s ! f = Loaded l v True)"
  shows "\<exists>t. flush_frames K fs s = Some ((Ok () :: ('e buffer_error, unit) outcome), t) \<and> inv n H t m \<and> num_frames t = num_frames s \<and>
    (\<forall>g<num_frames s. g \<notin> fst ` set fs \<longrightarrow> frame_metas t ! g = frame_metas s ! g) \<and>
    (\<forall>(g, v)\<in>set fs. \<exists>l. frame_metas t ! g = Loaded l v False) \<and>
    keeps_pages on_disk place s t"
  using assms
proof (induction fs arbitrary: s)
  case Nil
  then show ?case by (simp add: ret_def keeps_pages_def)
next
  case (Cons e fs)
  obtain f v where e: "e = (f, v)" by (cases e)
  obtain l where f: "f < num_frames s" "H f \<noteq> Writer" "frame_metas s ! f = Loaded l v True" using Cons.prems(3) e by auto
  obtain t where t: "flush_frame K f v s = Some ((Ok () :: ('e buffer_error, unit) outcome), t)" "inv n H t m" "num_frames t = num_frames s"
    "frame_metas t = (frame_metas s)[f := Loaded l v False]" "keeps_pages on_disk place s t"
    by (rule flush_one [OF Cons.prems(1) f]) blast
  have other: "frame_metas t ! g = frame_metas s ! g" if "g \<noteq> f" for g using t(4) that by simp
  have fresh: "f \<notin> fst ` set fs" using Cons.prems(2) e by (auto simp: image_iff)
  have "\<forall>(g, w)\<in>set fs. g < num_frames t \<and> H g \<noteq> Writer \<and> (\<exists>l. frame_metas t ! g = Loaded l w True)"
  proof (intro ballI, clarify)
    fix g w assume g: "(g, w) \<in> set fs"
    then have "g \<noteq> f" using fresh by (auto simp: image_iff)
    then show "g < num_frames t \<and> H g \<noteq> Writer \<and> (\<exists>l. frame_metas t ! g = Loaded l w True)"
      using Cons.prems(3) g other t(3) by fastforce
  qed
  moreover have "distinct (map fst fs)" using Cons.prems(2) by simp
  ultimately obtain u where u: "flush_frames K fs t = Some ((Ok () :: ('e buffer_error, unit) outcome), u)" "inv n H u m" "num_frames u = num_frames t"
    "\<forall>g<num_frames t. g \<notin> fst ` set fs \<longrightarrow> frame_metas u ! g = frame_metas t ! g"
    "\<forall>(g, v)\<in>set fs. \<exists>l. frame_metas u ! g = Loaded l v False"
    "keeps_pages on_disk place t u"
    using Cons.IH [OF t(2)] by blast
  have "flush_frames K (e # fs) s = Some ((Ok () :: ('e buffer_error, unit) outcome), u)" using t(1) u(1) e by (simp add: pbind_def)
  moreover have "frame_metas u ! f = Loaded l v False"
    using u(4) fresh f(1) t(3,4) lengths(3) [OF Cons.prems(1)] by simp
  moreover have "\<forall>g<num_frames s. g \<notin> fst ` set (e # fs) \<longrightarrow> frame_metas u ! g = frame_metas s ! g"
    using u(4) t(3) other e by auto
  moreover have "keeps_pages on_disk place s u" using t(5) u(6) by (simp add: keeps_pages_def)
  ultimately show ?case using u t e by (intro exI [of _ u]) auto
qed

lemma dirty_frames_eq:
  "dirty_frames s = concat (map (\<lambda>f. case frame_metas s ! f of Loaded l v d \<Rightarrow> if d then [(f, v)] else [] | Vacant \<Rightarrow> []) [0..<length (frame_metas s)])"
proof -
  have "enumerate 0 (frame_metas s) = map (\<lambda>f. (f, frame_metas s ! f)) [0..<length (frame_metas s)]"
    by (rule nth_equalityI) (simp_all add: nth_enumerate_eq)
  then show ?thesis by (simp add: dirty_frames_def comp_def)
qed

lemma dirty_frames_set: "(f, v) \<in> set (dirty_frames s) \<longleftrightarrow> f < length (frame_metas s) \<and> (\<exists>l. frame_metas s ! f = Loaded l v True)"
proof -
  have one: "(f, v) \<in> set (case mt of Loaded l v d \<Rightarrow> if d then [(g, v)] else [] | Vacant \<Rightarrow> []) \<longleftrightarrow> f = g \<and> (\<exists>l. mt = Loaded l v True)" for mt g
    by (cases mt) auto
  show ?thesis unfolding dirty_frames_eq set_concat set_map UN_iff bex_simps one by auto
qed

lemma concat_distinct_keys:
  assumes "distinct ks" "\<And>k. distinct (map fst (h k)) \<and> fst ` set (h k) \<subseteq> {k}"
  shows "distinct (map fst (concat (map h ks)))"
  using assms(1)
proof (induction ks)
  case (Cons k ks)
  have "fst ` set (concat (map h ks)) \<subseteq> set ks" using assms(2) by fastforce
  then have "fst ` set (h k) \<inter> fst ` set (concat (map h ks)) = {}" using Cons.prems assms(2) [of k] by auto
  then show ?case using Cons assms(2) [of k] by simp
qed simp

lemma dirty_frames_distinct: "distinct (map fst (dirty_frames s))"
  unfolding dirty_frames_eq by (rule concat_distinct_keys) (simp_all split: frame_meta.split)

lemma flush_all_run:
  assumes inv: "inv n H s m" and H: "\<forall>f. H f \<noteq> Writer"
  shows "\<exists>t. flush_all_dirty_frames K s = Some ((Ok () :: ('e buffer_error, unit) outcome), t) \<and> inv n H t m \<and>
    keeps_pages on_disk place s t \<and> (\<forall>v p. pool_view on_disk t v = Some p \<longrightarrow> on_disk (bp_disk t) v = Some p)"
proof -
  note len = lengths [OF inv]
  have "\<forall>(f, v)\<in>set (dirty_frames s). f < num_frames s \<and> H f \<noteq> Writer \<and> (\<exists>l. frame_metas s ! f = Loaded l v True)"
    using H len by (auto simp: dirty_frames_set)
  from flush_list [OF inv dirty_frames_distinct this]
  obtain t where t: "flush_frames K (dirty_frames s) s = Some ((Ok () :: ('e buffer_error, unit) outcome), t)" "inv n H t m" "num_frames t = num_frames s"
    "\<forall>g<num_frames s. g \<notin> fst ` set (dirty_frames s) \<longrightarrow> frame_metas t ! g = frame_metas s ! g"
    "\<forall>(g, v)\<in>set (dirty_frames s). \<exists>l. frame_metas t ! g = Loaded l v False"
    "keeps_pages on_disk place s t" by blast
  have clean: "frame_metas t ! g \<noteq> Loaded l v True" if g: "g < num_frames s" for g l v
  proof (cases "g \<in> fst ` set (dirty_frames s)")
    case True
    then show ?thesis using t(5) by fastforce
  next
    case False
    then have "frame_metas t ! g = frame_metas s ! g" using t(4) g by blast
    moreover have "frame_metas s ! g \<noteq> Loaded l v True"
    proof
      assume "frame_metas s ! g = Loaded l v True"
      then have "(g, v) \<in> set (dirty_frames s)" using g len by (simp add: dirty_frames_set)
      then show False using False by force
    qed
    ultimately show ?thesis by simp
  qed
  have "on_disk (bp_disk t) v = Some p" if p: "pool_view on_disk t v = Some p" for v p
  proof (cases "ppage_map t v")
    case None
    then show ?thesis using p by (simp add: pool_view_def)
  next
    case (Some f)
    then obtain l b where f: "f < num_frames t" "frame_metas t ! f = Loaded l v b" using ppage_iff [OF t(2), of v f] by auto
    then have "frame_metas t ! f = Loaded l v False" using clean [of f l v] t(3) by (cases b) auto
    then show ?thesis using clean_frame [OF t(2) f(1)] H p Some by (simp add: pool_view_def)
  qed
  then show ?thesis using t by (intro exI [of _ t]) (simp add: flush_all_dirty_frames_def)
qed

end

end
