(* ===== verification/PoolClaims.thy ===== *)
theory PoolClaims
  imports PoolInvariant
begin

text \<open>
  What clients of the buffer pool may rely on: over the disk with the B-tree directory and the LRU-K
  policy, a pool answers like a map of pages, whatever it keeps in its frames, or refuses a request
  for want of a frame; and when it refuses.
\<close>

section \<open>Clients that use one page at a time\<close>

text \<open>
  Reads and writes of whole pages, as the accessors do them: fetch, use, release; and the flush. A write
  sets the bytes and marks the frame dirty.
\<close>

datatype pool_request = PoolRead u32 | PoolWrite u32 page | PoolFlush

fun pool_step :: "(nat set \<Rightarrow> nat) \<Rightarrow> ('s, 'e) disk_ops \<Rightarrow> 'p policy_ops \<Rightarrow> pool_request \<Rightarrow> ('s, 'p, 'e, page option) pool_prog" where
  "pool_step pick K P (PoolRead l) = pbind (fetch_page_read pick K P l) (\<lambda>f. pbind (gets (guard_page f)) (\<lambda>pg.
     pbind (drop_guard P f) (\<lambda>_. ret (Some pg))))"
| "pool_step pick K P (PoolWrite l pg) = pbind (fetch_page_write pick K P l) (\<lambda>f.
     pbind (pbind (guard_update f pg) (\<lambda>_. mark_frame_dirty f)) (\<lambda>_. pbind (drop_guard P f) (\<lambda>_. ret None)))"
| "pool_step pick K P PoolFlush = pbind (flush_all_dirty_frames K) (\<lambda>_. ret None)"

fun pool_serve :: "(nat set \<Rightarrow> nat) \<Rightarrow> ('s, 'e) disk_ops \<Rightarrow> 'p policy_ops \<Rightarrow> pool_request list \<Rightarrow> ('s, 'p) pool \<Rightarrow>
    (('e buffer_error, page option) outcome list \<times> ('s, 'p) pool) option" where
  "pool_serve pick K P [] s = Some ([], s)"
| "pool_serve pick K P (r # rs) s = (case pool_step pick K P r s of None \<Rightarrow> None
     | Some (a, s') \<Rightarrow> (case pool_serve pick K P rs s' of None \<Rightarrow> None | Some (as, s'') \<Rightarrow> Some (a # as, s'')))"

text \<open>The specification: a map of pages. A refused request changes nothing; a flush is never refused.\<close>

fun page_answer :: "(u32 \<rightharpoonup> page) \<Rightarrow> pool_request \<Rightarrow> page option" where
  "page_answer M (PoolRead l) = M l"
| "page_answer M _ = None"

fun page_effect :: "(u32 \<rightharpoonup> page) \<Rightarrow> pool_request \<Rightarrow> (u32 \<rightharpoonup> page)" where
  "page_effect M (PoolWrite l pg) = M(l \<mapsto> pg)"
| "page_effect M _ = M"

fun request_ok :: "(u32 \<rightharpoonup> page) \<Rightarrow> pool_request \<Rightarrow> bool" where
  "request_ok M (PoolRead l) = (M l \<noteq> None)"
| "request_ok M (PoolWrite l pg) = (M l \<noteq> None \<and> length pg = PAGE_BUF_SIZE)"
| "request_ok M PoolFlush = True"

fun served :: "(u32 \<rightharpoonup> page) \<Rightarrow> pool_request list \<Rightarrow> ('e buffer_error, page option) outcome list \<Rightarrow> (u32 \<rightharpoonup> page) \<Rightarrow> bool" where
  "served M [] as M' \<longleftrightarrow> as = [] \<and> M' = M"
| "served M (r # rs) as M' \<longleftrightarrow> (\<exists>a as'. as = a # as' \<and>
     (a = Ok (page_answer M r) \<and> served (page_effect M r) rs as' M' \<or>
      a = Err (EvictorError NoVictimFound) \<and> r \<noteq> PoolFlush \<and> served M rs as' M'))"

lemma request_effect: "request_ok M r \<Longrightarrow> dom (page_effect M r) = dom M"
  by (cases r) auto

lemma request_ok_dom: "dom M' = dom M \<Longrightarrow> request_ok M' r = request_ok M r"
  by (cases r) (auto simp: dom_def)

context buffer_pool
begin

text \<open>Nothing is held between two requests.\<close>

lemma nothing_held: "(\<lambda>_. Free)(f := L, f := Free) = (\<lambda>_. Free)"
  by (rule ext) simp

text \<open>What reading page \<open>l\<close> gives.\<close>

definition page_at :: "('s, 'p) pool \<Rightarrow> (u32 \<rightharpoonup> ppage_id) \<Rightarrow> u32 \<Rightarrow> page option" where
  "page_at s m l = (case m l of Some v \<Rightarrow> pool_view on_disk s v | None \<Rightarrow> None)"

lemma page_at_Some: "page_at s m l = Some pg \<longleftrightarrow> (\<exists>v. m l = Some v \<and> pool_view on_disk s v = Some pg)"
  by (simp add: page_at_def split: option.split)

lemma page_at_keeps: "rep d m \<Longrightarrow> keeps_pages on_disk place s t \<Longrightarrow> page_at s m l = Some pg \<Longrightarrow> page_at t m l = Some pg"
  using places(2) by (auto simp: page_at_Some keeps_pages_def)

lemma map_le_Some: "M \<subseteq>\<^sub>m N \<Longrightarrow> M x = Some y \<Longrightarrow> N x = Some y"
  by (auto simp: map_le_def dom_def)

lemma page_at_le: "rep d m \<Longrightarrow> keeps_pages on_disk place s t \<Longrightarrow> M \<subseteq>\<^sub>m page_at s m \<Longrightarrow> M \<subseteq>\<^sub>m page_at t m"
  using page_at_keeps unfolding map_le_def dom_def by fastforce

lemma dropped_pages: "keeps_pages on_disk place s t \<Longrightarrow> keeps_pages on_disk place s (dropped f t)"
  by (simp add: keeps_pages_def dropped_same)

lemma read_served:
  assumes inv: "inv (Suc n) (\<lambda>_. Free) s m" and M: "M \<subseteq>\<^sub>m page_at s m" and l: "M l = Some pg"
  shows "\<exists>a t. pool_step pick K P (PoolRead l) s = Some (a, t) \<and> inv n (\<lambda>_. Free) t m \<and> M \<subseteq>\<^sub>m page_at t m \<and>
    (a = Ok (Some pg) \<or> a = Err (EvictorError NoVictimFound) \<and> t = s)"
proof -
  obtain v where v: "m l = Some v" "pool_view on_disk s v = Some pg" using map_le_Some [OF M l] by (auto simp: page_at_Some)
  have free: "\<forall>f. ppage_map s v = Some f \<longrightarrow> Free = Free" by simp
  from fetch_read_run [OF inv v free] show ?thesis
  proof (elim disjE exE conjE)
    assume "fetch_page_read pick K P l s = Some (Err (EvictorError NoVictimFound), s)"
    then show ?thesis using M inv_fewer [OF inv] by (intro exI [of _ "Err (EvictorError NoVictimFound)"] exI [of _ s]) (simp add: pbind_def)
  next
    fix f t assume t: "fetch_page_read pick K P l s = Some (Ok f, t)" "got n (\<lambda>_. Free) s t m (Readers 1) f l v pg"
    then have g: "inv n ((\<lambda>_. Free)(f := Readers 1)) t m" "f < num_frames t" "frame_metas t ! f \<noteq> Vacant" "pool_buf t ! f = pg"
      and keep: "keeps_pages on_disk place s t"
      by (auto simp: got_def keeps_def)
    have held: "((\<lambda>_. Free)(f := Readers 1)) f \<noteq> Free"
      and dirty: "((\<lambda>_. Free)(f := Readers 1)) f = Writer \<Longrightarrow> settled f t" by simp_all
    note drop = drop_run [OF g(1,2) held g(3) dirty]
    have "pool_step pick K P (PoolRead l) s = Some (Ok (Some pg), dropped f t)"
      using t(1) drop(1) g(4) by (simp add: pbind_def guard_page_def gets_def ret_def)
    moreover have "inv n (\<lambda>_. Free) (dropped f t) m" using drop(2) unfolding nothing_held by simp
    moreover have "M \<subseteq>\<^sub>m page_at (dropped f t) m" by (rule page_at_le [OF invD(1) [OF inv] dropped_pages [OF keep] M])
    ultimately show ?thesis by blast
  qed
qed

lemma write_served:
  assumes inv: "inv n (\<lambda>_. Free) s m" and M: "M \<subseteq>\<^sub>m page_at s m" and l: "M l \<noteq> None" "length pg = PAGE_BUF_SIZE"
  shows "\<exists>a t. pool_step pick K P (PoolWrite l pg) s = Some (a, t) \<and> inv n (\<lambda>_. Free) t m \<and>
    (a = Ok None \<and> M(l \<mapsto> pg) \<subseteq>\<^sub>m page_at t m \<or> a = Err (EvictorError NoVictimFound) \<and> t = s)"
proof -
  obtain old where old: "M l = Some old" using l(1) by auto
  obtain v where v: "m l = Some v" "pool_view on_disk s v = Some old" using map_le_Some [OF M old] by (auto simp: page_at_Some)
  have free: "\<forall>f. ppage_map s v = Some f \<longrightarrow> Free = Free" by simp
  from fetch_write_run [OF inv v free] show ?thesis
  proof (elim disjE exE conjE)
    assume "fetch_page_write pick K P l s = Some (Err (EvictorError NoVictimFound), s)"
    then show ?thesis using inv by (intro exI [of _ "Err (EvictorError NoVictimFound)"] exI [of _ s]) (simp add: pbind_def)
  next
    let ?H = "\<lambda>f. (\<lambda>_. Free)(f := Writer)"
    fix f t assume t: "fetch_page_write pick K P l s = Some (Ok f, t)" "got n (\<lambda>_. Free) s t m Writer f l v old"
    then obtain d where g: "inv n (?H f) t m" "f < num_frames t" "frame_metas t ! f = Loaded l v d"
      and keep: "keeps_pages on_disk place s t"
      by (auto simp: got_def keeps_def)
    let ?t = "rewritten f l v pg t"
    note rw = rewritten_inv [OF g l(2)] and mark = mark_run [OF g, of pg]
    have f: "f < num_frames ?t" "frame_metas ?t ! f = Loaded l v True" using g(2) lengths [OF g(1)] by (simp_all add: rewritten_def)
    have held: "?H f f \<noteq> Free" and dirty: "?H f f = Writer \<Longrightarrow> settled f ?t"
      and loaded: "frame_metas ?t ! f \<noteq> Vacant" using f(2) by (simp_all add: settled_def)
    note drop = drop_run [OF rw(1) f(1) held loaded dirty]
    have "pool_step pick K P (PoolWrite l pg) s = Some (Ok None, dropped f ?t)"
      using t(1) mark drop(1) by (simp add: pbind_def ret_def)
    moreover have "inv n (\<lambda>_. Free) (dropped f ?t) m" using drop(2) unfolding nothing_held by simp
    moreover have "M(l \<mapsto> pg) \<subseteq>\<^sub>m page_at (dropped f ?t) m" unfolding map_le_def
    proof
      fix k assume "k \<in> dom (M(l \<mapsto> pg))"
      show "(M(l \<mapsto> pg)) k = page_at (dropped f ?t) m k"
      proof (cases "k = l")
        case True
        then show ?thesis using v(1) by (simp add: page_at_def dropped_same rw(2))
      next
        case False
        then obtain p where p: "M k = Some p" using \<open>k \<in> dom (M(l \<mapsto> pg))\<close> by auto
        then have "page_at t m k = Some p" using page_at_le [OF invD(1) [OF inv] keep M] by (rule map_le_Some [rotated])
        moreover have "m k \<noteq> Some v" using False v(1) places(1) [OF invD(1) [OF inv]] by (metis domI inj_onD)
        ultimately show ?thesis using False p by (auto simp: page_at_Some dropped_same rw(2) page_at_def split: option.splits)
      qed
    qed
    ultimately show ?thesis by blast
  qed
qed

lemma flush_served:
  assumes inv: "inv n (\<lambda>_. Free) s m" and M: "M \<subseteq>\<^sub>m page_at s m"
  shows "\<exists>t. flush_all_dirty_frames K s = Some ((Ok () :: ('e buffer_error, unit) outcome), t) \<and>
    pool_step pick K P PoolFlush s = Some (Ok None, t) \<and> inv n (\<lambda>_. Free) t m \<and> M \<subseteq>\<^sub>m page_at t m \<and>
    (\<forall>l p. M l = Some p \<longrightarrow> (\<exists>v. m l = Some v \<and> on_disk (bp_disk t) v = Some p))"
proof -
  obtain t where t: "flush_all_dirty_frames K s = Some ((Ok () :: ('e buffer_error, unit) outcome), t)" "inv n (\<lambda>_. Free) t m"
    "keeps_pages on_disk place s t" "\<forall>v p. pool_view on_disk t v = Some p \<longrightarrow> on_disk (bp_disk t) v = Some p"
    using flush_all_run [OF inv] by auto
  have le: "M \<subseteq>\<^sub>m page_at t m" by (rule page_at_le [OF invD(1) [OF inv] t(3) M])
  have "\<exists>v. m l = Some v \<and> on_disk (bp_disk t) v = Some p" if "M l = Some p" for l p
    using map_le_Some [OF le that] t(4) by (auto simp: page_at_Some)
  then show ?thesis using t(1,2) le by (intro exI [of _ t]) (simp add: pbind_def ret_def)
qed

lemma requests_served:
  assumes "inv (length rs + n) (\<lambda>_. Free) s m" "M \<subseteq>\<^sub>m page_at s m" "\<forall>r\<in>set rs. request_ok M r"
  shows "\<exists>as t M'. pool_serve pick K P rs s = Some (as, t) \<and> served M rs as M' \<and> inv n (\<lambda>_. Free) t m \<and> M' \<subseteq>\<^sub>m page_at t m"
  using assms
proof (induction rs arbitrary: s M)
  case Nil
  then show ?case by simp
next
  case (Cons r rs)
  have inv: "inv (Suc (length rs + n)) (\<lambda>_. Free) s m" using Cons.prems(1) by simp
  have ok: "request_ok M r" using Cons.prems(3) by simp
  have "\<exists>a t. pool_step pick K P r s = Some (a, t) \<and> inv (length rs + n) (\<lambda>_. Free) t m \<and>
      (a = Ok (page_answer M r) \<and> page_effect M r \<subseteq>\<^sub>m page_at t m \<or>
       a = Err (EvictorError NoVictimFound) \<and> r \<noteq> PoolFlush \<and> M \<subseteq>\<^sub>m page_at t m)"
  proof (cases r)
    case (PoolRead l)
    then obtain pg where "M l = Some pg" using ok by auto
    then show ?thesis using read_served [OF inv Cons.prems(2), of l pg] PoolRead by auto
  next
    case (PoolWrite l pg)
    then show ?thesis using write_served [OF inv_fewer [OF inv] Cons.prems(2), of l pg] ok Cons.prems(2) by auto
  next
    case PoolFlush
    then show ?thesis using flush_served [OF inv_fewer [OF inv] Cons.prems(2)] by auto
  qed
  then obtain a t where st: "pool_step pick K P r s = Some (a, t)" "inv (length rs + n) (\<lambda>_. Free) t m"
    "a = Ok (page_answer M r) \<and> page_effect M r \<subseteq>\<^sub>m page_at t m \<or>
     a = Err (EvictorError NoVictimFound) \<and> r \<noteq> PoolFlush \<and> M \<subseteq>\<^sub>m page_at t m"
    by blast
  from st(3) show ?case
  proof
    assume a: "a = Ok (page_answer M r) \<and> page_effect M r \<subseteq>\<^sub>m page_at t m"
    have "\<forall>r'\<in>set rs. request_ok (page_effect M r) r'"
      using Cons.prems(3) request_ok_dom [OF request_effect [OF ok]] by simp
    from Cons.IH [OF st(2) _ this] a st(1) show ?thesis by auto
  next
    assume a: "a = Err (EvictorError NoVictimFound) \<and> r \<noteq> PoolFlush \<and> M \<subseteq>\<^sub>m page_at t m"
    have "\<forall>r'\<in>set rs. request_ok M r'" using Cons.prems(3) by simp
    from Cons.IH [OF st(2) _ this] a st(1) show ?thesis by auto
  qed
qed

lemma new_pool_inv:
  assumes "rep d m" "ok n p" "marked p = {}"
  shows "inv n (\<lambda>_. Free) (pool_new k d p) m" "pool_view on_disk (pool_new k d p) = on_disk d"
  using assms by (auto simp: inv_def pool_new_def frames_ok_def maps_ok_def evictable_ok_def clean_ok_def pool_view_def)

section \<open>Pages that are read for the first time\<close>

lemma first_fetch:
  assumes inv: "inv n H s m" and v: "vacant_frames s \<noteq> {}" and l: "lpage_map s l = None"
  obtains f where "f \<in> vacant_frames s" "find_by_lpage pick K P l s = Some ((Ok (f, False) :: ('e buffer_error, nat \<times> bool) outcome), claimed_id l f s)"
proof -
  have look: "\<forall>u. lpage_map u = lpage_map s \<longrightarrow> ppage_map u = ppage_map s \<longrightarrow> lpage_map (u :: ('s, 'p) pool) l = None" using l by simp
  from find_vacant(1) [OF inv v look] find_vacant(2) [OF inv v look, of "\<lambda>f s. s\<lparr> lpage_map := (lpage_map s)(l \<mapsto> f) \<rparr>"] that show ?thesis
    by (simp add: find_by_lpage_def grabbed_same claimed_id_def)
qed

lemma first_read:
  assumes inv: "inv n (\<lambda>_. Free) s m" and v: "vacant_frames s \<noteq> {}" and l: "lpage_map s l = None" "page_at s m l = Some pg"
  obtains f t where "pool_step pick K P (PoolRead l) s = Some (Ok (Some pg), t)" "inv n (\<lambda>_. Free) t m" "f \<in> vacant_frames s"
    "vacant_frames t = vacant_frames s - {f}" "lpage_map t = (lpage_map s)(l \<mapsto> f)"
    "bp_policy t = ev_set_evictable P f True (ev_set_evictable P f False (bp_policy s))"
    "\<And>k p. page_at s m k = Some p \<Longrightarrow> page_at t m k = Some p"
proof -
  obtain f where f: "f \<in> vacant_frames s" "find_by_lpage pick K P l s = Some ((Ok (f, False) :: ('e buffer_error, nat \<times> bool) outcome), claimed_id l f s)"
    by (rule first_fetch [OF inv v l(1)])
  obtain w where w: "m l = Some w" "pool_view on_disk s w = Some pg" using l(2) by (auto simp: page_at_Some)
  have nl: "named m l" using w(1) by (simp add: named_reg)
  have pp: "ppage_map s w = None" by (rule free_place [OF inv l(1) w(1) invD(1) [OF inv] map_le_refl nl])
  then have c: "on_disk (bp_disk s) w = Some pg" using w(2) by (simp add: pool_view_def)
  obtain d where d: "rep d m" "on_disk d = on_disk (bp_disk s)" "can_grow (bp_disk s) m \<longrightarrow> can_grow d m" "load_page K l f (claimed_id l f s) = Some (Ok (), placed d f l w pg Writer s)"
    by (rule load_run [OF inv w(1) c])
  let ?t = "placed d f l w pg (Readers 1) s"
  have read: "fetch_page_read pick K P l s = Some (Ok f, ?t)"
    using f(2) d(4) by (simp add: fetch_page_read_def pbind_def write_guard_new_def ret_def downgrade_def relatched)
  have id: "id_of anon m l w" using w(1) by (simp add: id_of_def)
  from got_placed [OF inv keeps_refl f(1) pp id l(1) c _ d(1-3), of "Readers 1"]
  have g: "inv n ((\<lambda>_. Free)(f := Readers 1)) ?t m" "f < num_frames ?t" "frame_metas ?t ! f \<noteq> Vacant" "pool_buf ?t ! f = pg"
      and keep: "keeps_pages on_disk place s ?t"
    by (auto simp: got_def keeps_def)
  have held: "((\<lambda>_. Free)(f := Readers 1)) f \<noteq> Free"
    and dirty: "((\<lambda>_. Free)(f := Readers 1)) f = Writer \<Longrightarrow> settled f ?t" by simp_all
  note drop = drop_run [OF g(1,2) held g(3) dirty]
  show ?thesis
  proof (rule that [of "dropped f ?t" f])
    show "pool_step pick K P (PoolRead l) s = Some (Ok (Some pg), dropped f ?t)"
      using read drop(1) g(4) by (simp add: pbind_def guard_page_def gets_def ret_def)
    show "inv n (\<lambda>_. Free) (dropped f ?t) m" using drop(2) unfolding nothing_held by simp
    show "bp_policy (dropped f ?t) = ev_set_evictable P f True (ev_set_evictable P f False (bp_policy s))"
      by (simp add: dropped_def placed_def)
    show "page_at (dropped f ?t) m k = Some p" if "page_at s m k = Some p" for k p
      by (rule page_at_keeps [OF invD(1) [OF inv] dropped_pages [OF keep] that])
  qed (use f(1) in \<open>simp_all add: dropped_same, simp_all add: placed_def\<close>)
qed

text \<open>A read that fails leaves the frame it had claimed in the map, and pinned.\<close>

lemma failed_read:
  assumes inv: "inv n H s m" and v: "vacant_frames s \<noteq> {}" and l: "lpage_map s l = None"
    and err: "dm_read_page K l PAGE_BUF_SIZE (bp_disk s) = Some (Err e, d)"
  shows "\<exists>f t u. fetch_page_read pick K P l s = Some (Err (StorageError e), t) \<and> f < num_frames s \<and> pin_counts t ! f = 1 \<and>
    fetch_page_read pick K P l t = Some (Ok f, u) \<and> guard_page f u = pool_buf s ! f \<and>
    frame_lpage_id f u = Some ((Panic :: ('e buffer_error, u32) outcome), u)"
proof -
  obtain f where f: "f \<in> vacant_frames s" "find_by_lpage pick K P l s = Some ((Ok (f, False) :: ('e buffer_error, nat \<times> bool) outcome), claimed_id l f s)"
    by (rule first_fetch [OF inv v l])
  have fv: "f < num_frames s" "frame_metas s ! f = Vacant" using vacant_iff [OF inv] f(1) by auto
  note len = lengths [OF inv]
  define t where "t = (grabbed f Free (s\<lparr> vacant_frames := vacant_frames s - {f} \<rparr>))\<lparr> lpage_map := (lpage_map s)(l \<mapsto> f), bp_disk := d \<rparr>"
  have first: "fetch_page_read pick K P l s = Some (Err (StorageError e), t)"
    using f(2) err fv len
    by (simp add: fetch_page_read_def load_page_def unlatch_on_error_def in_disk_def pbind_def unlatch_def claimed_id_def grabbed_def t_def)
  have t: "lpage_map t l = Some f" "pin_counts t ! f = 1" "latches t ! f = Free" "f < length (latches t)" "f < length (pin_counts t)"
    "frame_metas t = frame_metas s" "pool_buf t = pool_buf s"
    using fv len by (simp_all add: t_def grabbed_def)
  define u where "u = t\<lparr> pin_counts := (pin_counts t)[f := 2], latches := (latches t)[f := Readers 1], bp_policy := ev_record_access P f (bp_policy t) \<rparr>"
  have "find_by_lpage pick K P l t = Some ((Ok (f, True) :: ('e buffer_error, nat \<times> bool) outcome), t\<lparr> pin_counts := (pin_counts t)[f := 2] \<rparr>)"
    unfolding find_by_lpage_def by (subst find_frame.simps) (use t in \<open>simp add: incr_pin_def pbind_def ret_def\<close>)
  then have "fetch_page_read pick K P l t = Some (Ok f, u)"
    using t by (simp add: fetch_page_read_def pbind_def latch_read_def read_guard_new_def ret_def u_def)
  moreover have "frame_lpage_id f u = Some ((Panic :: ('e buffer_error, u32) outcome), u)"
    using fv len t(6) by (simp add: frame_lpage_id_def lift_def u_def)
  moreover have "guard_page f u = pool_buf s ! f" using t(7) by (simp add: guard_page_def u_def)
  ultimately show ?thesis using first t(2) fv(1) by blast
qed

end

section \<open>Over the disk, with LRU-K\<close>

definition can_add :: "(dir, simple_allocator) disk \<Rightarrow> (u32 \<rightharpoonup> ppage_id) \<Rightarrow> bool" where
  "can_add s m \<longleftrightarrow> dir_room (dk_directory s) \<and> sa_space (Suc 0) (dk_allocator s) \<and> m (next_lpage_id s) = None \<and> next_lpage_id s \<noteq> 0"

abbreviation btree_disk_ops :: "((dir, simple_allocator) disk, (dir_error, io_error) disk_error) disk_ops" where
  "btree_disk_ops \<equiv> disk_manager_ops btree_directory simple_allocator_ops"

lemma page_of_Some: "page_of s m l = Some pg \<longleftrightarrow> (\<exists>v. m l = Some v \<and> stored s v = Some pg)"
  by (simp add: page_of_def split: option.split)

lemma stored_length: "stored s v = Some pg \<Longrightarrow> length pg = PAGE_BUF_SIZE"
  by (auto simp: stored_def PAGE_BUF_SIZE_def split: if_splits)

lemma disk_write_loc:
  assumes rep: "btree_disk s m" and v: "page_aligned v" "length pg = PAGE_BUF_SIZE"
  shows "\<exists>s'. dm_write_page_at_loc btree_disk_ops v pg s = Some (Ok (), s') \<and> btree_disk s' m \<and> stored s' v = Some pg \<and>
    (\<forall>w p. page_aligned w \<longrightarrow> w \<noteq> v \<longrightarrow> stored s w = Some p \<longrightarrow> stored s' w = Some p) \<and>
    dk_allocator s' = dk_allocator s \<and> (can_add s m \<longrightarrow> can_add s' m)"
proof -
  have h: "handles_ok s" "length pg = 4096" using rep v by (auto simp: disk_rep_def PAGE_BUF_SIZE_def)
  obtain s' where s': "(write_page_at_loc v pg :: unit btree_disk_prog) s = Some (Ok (), s')" "handles_ok s'" "stored s' v = Some pg"
    "\<forall>w p. page_aligned w \<longrightarrow> w \<noteq> v \<longrightarrow> stored s w = Some p \<longrightarrow> stored s' w = Some p"
    "dk_directory s' = dk_directory s" "dk_allocator s' = dk_allocator s" "next_lpage_id s' = next_lpage_id s"
    by (rule write_loc_run [OF h v(1)])
  have "btree_disk s' m" using rep s'(2,5,6) by (simp add: disk_rep_def)
  then show ?thesis using s' by (intro exI [of _ s']) (simp add: disk_manager_ops_def can_add_def)
qed

lemma disk_new_loc:
  assumes rep: "btree_disk s m" and grow: "can_add s m"
  obtains l v s' where "dm_new_page btree_disk_ops f s = Some (Ok (l, v), s')" "m l = None" "l \<noteq> 0" "v \<notin> ran m" "pp_file v = f"
    "btree_disk s' (m(l \<mapsto> v))" "stored s' = stored s" "\<not> sa_used (dk_allocator s) v" "\<And>w. sa_used (dk_allocator s) w \<Longrightarrow> page_aligned w \<Longrightarrow> sa_used (dk_allocator s') w"
    "next_lpage_id s' = next_lpage_id s + 1"
proof -
  let ?l = "next_lpage_id s"
  have g: "dir_room (dk_directory s)" "sa_space (Suc 0) (dk_allocator s)" "m ?l = None" "?l \<noteq> 0" using grow by (simp_all add: can_add_def)
  obtain v s' where s': "(disk_new_page btree_directory simple_allocator_ops f :: (u32 \<times> ppage_id) btree_disk_prog) s = Some (Ok (?l, v), s')"
    "pp_file v = f" "v \<notin> ran m" "btree_disk s' (m(?l \<mapsto> v))" "stored s' = stored s" "next_lpage_id s' = ?l + 1"
    by (rule disk.new_step [OF rep g(1-3), of f])
  obtain w a where a: "(sa_allocate f :: (simple_allocator, io_error, ppage_id) prog) (dk_allocator s) = Some (Ok w, a)" "\<not> sa_used (dk_allocator s) w"
    "\<forall>u. page_aligned u \<longrightarrow> sa_used a u = (sa_used (dk_allocator s) u \<or> u = w)"
    using simple.allocate [OF g(2), of f] by auto
  have "w = v" "dk_allocator s' = a"
    using s'(1) a(1) by (auto simp: disk_new_page_def alloc_lpage_id_def in_allocator_def in_directory_def pbind_def ret_def
      split: option.splits outcome.splits)
  then show ?thesis using that [of ?l v s'] s' g a(2,3) by (simp add: disk_manager_ops_def)
qed

lemma disk_read_id:
  assumes rep: "btree_disk s m" and l: "m l = Some v" "stored s v = Some pg"
  shows "\<exists>s'. dm_read_page btree_disk_ops l PAGE_BUF_SIZE s = Some (Ok (v, pg), s') \<and> btree_disk s' m \<and> stored s' = stored s \<and>
    dk_allocator s' = dk_allocator s \<and> (can_add s m \<longrightarrow> can_add s' m)"
proof -
  obtain s1 e where s1: "(in_directory (op_lookup btree_directory l) :: ppage_id btree_disk_prog) s =
      Some (case m l of Some v \<Rightarrow> Ok v | None \<Rightarrow> Err (DirectoryError e), s1)"
    "btree_disk s1 m" "stored s1 = stored s" "next_lpage_id s1 = next_lpage_id s" "dir_room (dk_directory s) \<longrightarrow> dir_room (dk_directory s1)"
    by (rule disk.lookup_step [OF rep])
  have al: "dk_allocator s1 = dk_allocator s" using s1(1) l(1) by (auto simp: in_directory_def split: option.splits)
  have "handles_ok s1" using s1(2) by (simp add: disk_rep_def)
  then obtain s' where s': "(read_page_at_loc v 4096 :: page btree_disk_prog) s1 = Some (case stored s1 v of Some p \<Rightarrow> Ok p | None \<Rightarrow> Err (DiskIO UnexpectedEof), s')"
    "handles_ok s'" "stored s' = stored s1" "dk_directory s' = dk_directory s1" "dk_allocator s' = dk_allocator s1"
    "next_lpage_id s' = next_lpage_id s1"
    by (rule read_loc_run)
  have "btree_disk s' m" using s1(2) s'(2,4,5) by (simp add: disk_rep_def)
  then show ?thesis using s1 s' l al
    by (intro exI [of _ s']) (simp add: disk_manager_ops_def disk_read_page_def pbind_def ret_def PAGE_BUF_SIZE_def can_add_def)
qed

lemma disk_read_loc:
  assumes rep: "btree_disk s m" and l: "stored s v = Some pg"
  shows "\<exists>s'. dm_read_page_at_loc btree_disk_ops v PAGE_BUF_SIZE s = Some (Ok pg, s') \<and> btree_disk s' m \<and> stored s' = stored s \<and>
    dk_allocator s' = dk_allocator s \<and> (can_add s m \<longrightarrow> can_add s' m)"
proof -
  have "handles_ok s" using rep by (simp add: disk_rep_def)
  then obtain s' where s': "(read_page_at_loc v 4096 :: page btree_disk_prog) s = Some (case stored s v of Some p \<Rightarrow> Ok p | None \<Rightarrow> Err (DiskIO UnexpectedEof), s')"
    "handles_ok s'" "stored s' = stored s" "dk_directory s' = dk_directory s" "dk_allocator s' = dk_allocator s"
    "next_lpage_id s' = next_lpage_id s"
    by (rule read_loc_run)
  have "btree_disk s' m" using rep s'(2,4,5) by (simp add: disk_rep_def)
  then show ?thesis using s' l by (intro exI [of _ s']) (simp add: disk_manager_ops_def PAGE_BUF_SIZE_def can_add_def)
qed

text \<open>A disk all of whose pages are fetched by their ids.\<close>

interpretation btree_store: page_store btree_disk_ops "disk_rep dir_rep sa_used" stored page_aligned "\<lambda>_. False" can_add
proof unfold_locales
  fix s :: "(dir, simple_allocator) disk" and m l pg v f
  show "btree_disk s m \<Longrightarrow> inj_on m (dom m)" by (simp add: disk_rep_def)
  show "btree_disk s m \<Longrightarrow> m l = Some v \<Longrightarrow> page_aligned v \<and> \<not> False" by (simp add: disk_rep_def)
  show "stored s v = Some pg \<Longrightarrow> length pg = PAGE_BUF_SIZE" by (rule stored_length)
  show "btree_disk s m \<Longrightarrow> can_add s m \<Longrightarrow> \<exists>l v s'. dm_new_page btree_disk_ops f s = Some (Ok (l, v), s') \<and> m l = None \<and> l \<noteq> 0 \<and>
      v \<notin> ran m \<and> pp_file v = f \<and> btree_disk s' (m(l \<mapsto> v)) \<and> stored s' = stored s"
    by (rule disk_new_loc [of s m f]) auto
qed (use disk_read_id disk_read_loc disk_write_loc in blast)+

text \<open>Page 0 of a file has no id; the pages of a table are found from there, with 0 for the end of the chain.\<close>

definition file_start :: "ppage_id \<Rightarrow> bool" where
  "file_start v \<longleftrightarrow> pp_offset v = 0"

definition table_disk :: "(dir, simple_allocator) disk \<Rightarrow> (u32 \<rightharpoonup> ppage_id) \<Rightarrow> bool" where
  "table_disk s m \<longleftrightarrow> btree_disk s m \<and> m 0 = None \<and> (\<forall>l v. m l = Some v \<longrightarrow> \<not> file_start v) \<and>
     (\<forall>v. file_start v \<longrightarrow> sa_used (dk_allocator s) v)"

interpretation table_store: page_store btree_disk_ops table_disk stored page_aligned file_start can_add
proof unfold_locales
  fix s :: "(dir, simple_allocator) disk" and m l pg v f
  have fa: "page_aligned w" if "file_start w" for w using that by (simp add: page_aligned_def file_start_def)
  then show "file_start v \<Longrightarrow> page_aligned v" .
  show "table_disk s m \<Longrightarrow> inj_on m (dom m)" by (simp add: table_disk_def disk_rep_def)
  show "table_disk s m \<Longrightarrow> m l = Some v \<Longrightarrow> page_aligned v \<and> \<not> file_start v" by (auto simp: table_disk_def disk_rep_def)
  show "stored s v = Some pg \<Longrightarrow> length pg = PAGE_BUF_SIZE" by (rule stored_length)
  show "table_disk s m \<Longrightarrow> m l = Some v \<Longrightarrow> stored s v = Some pg \<Longrightarrow>
      \<exists>s'. dm_read_page btree_disk_ops l PAGE_BUF_SIZE s = Some (Ok (v, pg), s') \<and> table_disk s' m \<and> stored s' = stored s \<and> (can_add s m \<longrightarrow> can_add s' m)"
    using disk_read_id [of s m l v pg] by (auto simp: table_disk_def)
  show "table_disk s m \<Longrightarrow> stored s v = Some pg \<Longrightarrow>
      \<exists>s'. dm_read_page_at_loc btree_disk_ops v PAGE_BUF_SIZE s = Some (Ok pg, s') \<and> table_disk s' m \<and> stored s' = stored s \<and> (can_add s m \<longrightarrow> can_add s' m)"
    using disk_read_loc [of s m v pg] by (auto simp: table_disk_def)
  show "table_disk s m \<Longrightarrow> page_aligned v \<Longrightarrow> length pg = PAGE_BUF_SIZE \<Longrightarrow>
      \<exists>s'. dm_write_page_at_loc btree_disk_ops v pg s = Some (Ok (), s') \<and> table_disk s' m \<and> stored s' v = Some pg \<and>
        (\<forall>w p. page_aligned w \<longrightarrow> w \<noteq> v \<longrightarrow> stored s w = Some p \<longrightarrow> stored s' w = Some p) \<and> (can_add s m \<longrightarrow> can_add s' m)"
    using disk_write_loc [of s m v pg] by (auto simp: table_disk_def)
  show "table_disk s m \<Longrightarrow> can_add s m \<Longrightarrow> \<exists>l v s'. dm_new_page btree_disk_ops f s = Some (Ok (l, v), s') \<and> m l = None \<and> l \<noteq> 0 \<and>
      v \<notin> ran m \<and> pp_file v = f \<and> table_disk s' (m(l \<mapsto> v)) \<and> stored s' = stored s"
  proof -
    assume t: "table_disk s m" and g: "can_add s m"
    have b: "btree_disk s m" using t by (simp add: table_disk_def)
    obtain l v s' where s': "dm_new_page btree_disk_ops f s = Some (Ok (l, v), s')" "m l = None" "l \<noteq> 0" "v \<notin> ran m" "pp_file v = f"
      "btree_disk s' (m(l \<mapsto> v))" "stored s' = stored s" "\<not> sa_used (dk_allocator s) v"
      "\<And>w. sa_used (dk_allocator s) w \<Longrightarrow> page_aligned w \<Longrightarrow> sa_used (dk_allocator s') w"
      by (rule disk_new_loc [OF b g, of f]) (rule that; assumption)
    have "table_disk s' (m(l \<mapsto> v))" using t s'(3,6,8,9) fa by (auto simp: table_disk_def)
    then show ?thesis using s' by blast
  qed
qed

text \<open>Any order in which the hash sets and maps yield their entries.\<close>

locale lruk_pool = hash_order iter for iter +
  fixes pick :: "nat set \<Rightarrow> nat"
  assumes picks: "finite S \<Longrightarrow> S \<noteq> {} \<Longrightarrow> pick S \<in> S"

sublocale lruk_pool \<subseteq> bp: buffer_pool btree_disk_ops "disk_rep dir_rep sa_used" stored page_aligned "\<lambda>_. False" can_add "lruk_ops iter" lk_ok lk_cands lk_marked pick
  by unfold_locales (rule picks)

interpretation first_pool: lruk_pool by_number Min
  by unfold_locales (rule Min_in)

lemma lk_new_ok: "0 < k \<Longrightarrow> n < 2 ^ 64 - 1 \<Longrightarrow> lk_ok n (lk_new k)" "lk_marked (lk_new k) = {}"
  by (simp_all add: lk_ok_def lk_inv_def lk_new_def lk_marked_def)

definition no_history :: "lruk \<Rightarrow> bool" where
  "no_history p \<longleftrightarrow> (\<forall>f i. lk_state p f = Some i \<longrightarrow> history i = [])"

lemma no_history_mark: "no_history p \<Longrightarrow> no_history (lk_set_evictable f b p)"
  by (auto simp: no_history_def lk_set_evictable_def Let_def split: option.splits)

lemma no_history_cands: "no_history p \<Longrightarrow> lk_cands p = {}"
  by (auto simp: no_history_def lk_cands_def candidate_def)

context lruk_pool
begin

lemma new_pool: "btree_disk d m \<Longrightarrow> 0 < k \<Longrightarrow> n < 2 ^ 64 - 1 \<Longrightarrow> bp.inv n (\<lambda>_. Free) (pool_new fs d (lk_new k)) m"
  by (intro bp.new_pool_inv(1)) (simp_all add: lk_new_ok)

lemma first_reads:
  assumes "bp.inv n (\<lambda>_. Free) s m" "no_history (bp_policy s)" "length ls \<le> card (vacant_frames s)" "distinct ls"
    "\<forall>l\<in>set ls. lpage_map s l = None \<and> bp.page_at s m l \<noteq> None"
  shows "\<exists>t. pool_serve pick btree_disk_ops (lruk_ops iter) (map PoolRead ls) s = Some (map (\<lambda>l. Ok (bp.page_at s m l)) ls, t) \<and>
    bp.inv n (\<lambda>_. Free) t m \<and> no_history (bp_policy t) \<and> card (vacant_frames t) = card (vacant_frames s) - length ls \<and>
    (\<forall>l. l \<notin> set ls \<longrightarrow> lpage_map t l = lpage_map s l)"
  using assms
proof (induction ls arbitrary: s)
  case Nil
  then show ?case by simp
next
  case (Cons l ls)
  have v: "vacant_frames s \<noteq> {}" using Cons.prems(3) by auto
  have fin: "finite (vacant_frames s)" by (rule bp.vacant_finite [OF Cons.prems(1)])
  obtain pg where l: "lpage_map s l = None" "bp.page_at s m l = Some pg" using Cons.prems(5) by auto
  obtain f t where t: "pool_step pick btree_disk_ops (lruk_ops iter) (PoolRead l) s = Some (Ok (Some pg), t)" "bp.inv n (\<lambda>_. Free) t m" "f \<in> vacant_frames s"
    "vacant_frames t = vacant_frames s - {f}" "lpage_map t = (lpage_map s)(l \<mapsto> f)"
    "bp_policy t = ev_set_evictable (lruk_ops iter) f True (ev_set_evictable (lruk_ops iter) f False (bp_policy s))"
    "\<And>k p. bp.page_at s m k = Some p \<Longrightarrow> bp.page_at t m k = Some p"
    by (rule bp.first_read [OF Cons.prems(1) v l]) blast
  have same: "bp.page_at t m k = bp.page_at s m k" if "k \<in> set ls" for k
    using Cons.prems(5) t(7) that by fastforce
  have "no_history (bp_policy t)" using t(6) Cons.prems(2) by (simp add: no_history_mark)
  moreover have card: "card (vacant_frames t) = card (vacant_frames s) - 1" using t(3,4) fin by simp
  then have "length ls \<le> card (vacant_frames t)" using Cons.prems(3) by simp
  moreover have "distinct ls" using Cons.prems(4) by simp
  moreover have "\<forall>k\<in>set ls. lpage_map t k = None \<and> bp.page_at t m k \<noteq> None"
    using Cons.prems(4,5) t(5) same by auto
  ultimately obtain u where u: "pool_serve pick btree_disk_ops (lruk_ops iter) (map PoolRead ls) t = Some (map (\<lambda>l. Ok (bp.page_at t m l)) ls, u)"
    "bp.inv n (\<lambda>_. Free) u m" "no_history (bp_policy u)" "card (vacant_frames u) = card (vacant_frames t) - length ls"
    "\<forall>k. k \<notin> set ls \<longrightarrow> lpage_map u k = lpage_map t k"
    using Cons.IH [OF t(2)] by blast
  have "map (\<lambda>l. Ok (bp.page_at t m l)) ls = (map (\<lambda>l. Ok (bp.page_at s m l)) ls ::
      ((dir_error, io_error) disk_error buffer_error, page option) outcome list)"
    using same by simp
  then have "pool_serve pick btree_disk_ops (lruk_ops iter) (map PoolRead (l # ls)) s = Some (map (\<lambda>l. Ok (bp.page_at s m l)) (l # ls), u)"
    using t(1) u(1) l(2) by simp
  moreover have "card (vacant_frames u) = card (vacant_frames s) - length (l # ls)" using u(4) card by simp
  moreover have "\<forall>k. k \<notin> set (l # ls) \<longrightarrow> lpage_map u k = lpage_map s k" using u(5) t(5) by simp
  ultimately show ?case using u(2,3) by blast
qed

lemma full_pool:
  assumes inv: "bp.inv n H s m" and h: "no_history (bp_policy s)" and v: "vacant_frames s = {}" and l: "lpage_map s l = None"
  shows "pool_step pick btree_disk_ops (lruk_ops iter) (PoolRead l) s = Some (Err (EvictorError NoVictimFound), s)"
proof -
  have "lk_find_victim iter (bp_policy s) = Err NoVictimFound"
    using victim_none [OF bp.invD(4) [OF inv] no_history_cands [OF h]] by simp
  then have "evict btree_disk_ops (lruk_ops iter) s = Some (Err (EvictorError NoVictimFound), s)"
    by (subst evict.simps) (simp add: pbind_def lift_def)
  then have "find_by_lpage pick btree_disk_ops (lruk_ops iter) l s = Some (Err (EvictorError NoVictimFound), s)"
    unfolding find_by_lpage_def by (subst find_frame.simps) (simp add: l v take_vacant_def pbind_def)
  then show ?thesis by (simp add: fetch_page_read_def pbind_def)
qed

text \<open>The page map, the flush, the pages read for the first time, and the failed read, from a new pool.\<close>

lemma new_pages: "bp.page_at (pool_new fs d p) m = page_of d m"
  by (simp add: bp.page_at_def page_of_def pool_view_def pool_new_def fun_eq_iff split: option.split)

lemma page_map:
  assumes "btree_disk d m" "0 < k" "length rs < 2 ^ 64 - 1" "\<forall>r\<in>set rs. request_ok (page_of d m) r"
  shows "\<exists>as s M. pool_serve pick btree_disk_ops (lruk_ops iter) rs (pool_new fs d (lk_new k)) = Some (as, s) \<and>
    served (page_of d m) rs as M \<and> bp.inv 0 (\<lambda>_. Free) s m \<and> M \<subseteq>\<^sub>m bp.page_at s m"
proof -
  have "bp.inv (length rs + 0) (\<lambda>_. Free) (pool_new fs d (lk_new k)) m" using new_pool [OF assms(1,2)] assms(3) by simp
  moreover have "page_of d m \<subseteq>\<^sub>m bp.page_at (pool_new fs d (lk_new k)) m" by (simp add: map_le_def new_pages)
  ultimately show ?thesis by (rule bp.requests_served) (rule assms(4))
qed

lemma flushed_map:
  assumes "btree_disk d m" "0 < k" "length rs < 2 ^ 64 - 1" "\<forall>r\<in>set rs. request_ok (page_of d m) r"
  shows "\<exists>as s t M. pool_serve pick btree_disk_ops (lruk_ops iter) rs (pool_new fs d (lk_new k)) = Some (as, s) \<and>
    served (page_of d m) rs as M \<and> flush_all_dirty_frames btree_disk_ops s = Some (Ok (), t) \<and>
    btree_disk (bp_disk t) m \<and> M \<subseteq>\<^sub>m page_of (bp_disk t) m"
proof -
  obtain as s M where s: "pool_serve pick btree_disk_ops (lruk_ops iter) rs (pool_new fs d (lk_new k)) = Some (as, s)"
    "served (page_of d m) rs as M" "bp.inv 0 (\<lambda>_. Free) s m" "M \<subseteq>\<^sub>m bp.page_at s m"
    using page_map [OF assms] by blast
  obtain t where t: "flush_all_dirty_frames btree_disk_ops s = Some ((Ok () :: ((dir_error, io_error) disk_error buffer_error, unit) outcome), t)"
    "bp.inv 0 (\<lambda>_. Free) t m" "\<forall>l p. M l = Some p \<longrightarrow> (\<exists>v. m l = Some v \<and> stored (bp_disk t) v = Some p)"
    using bp.flush_served [OF s(3,4)] by blast
  have "M \<subseteq>\<^sub>m page_of (bp_disk t) m" unfolding map_le_def
  proof
    fix l assume "l \<in> dom M"
    then obtain p where p: "M l = Some p" by auto
    then obtain v where "m l = Some v" "stored (bp_disk t) v = Some p" using t(3) by blast
    then show "M l = page_of (bp_disk t) m l" using p by (simp add: page_of_def)
  qed
  then show ?thesis using s(1,2) t(1) bp.invD(1) [OF t(2)] by blast
qed

lemma refused_read:
  assumes d: "btree_disk d m" "0 < k" and ls: "distinct (l # ls)" "\<forall>x\<in>set (l # ls). page_of d m x \<noteq> None"
  shows "\<exists>s. pool_serve pick btree_disk_ops (lruk_ops iter) (map PoolRead ls) (pool_new (length ls) d (lk_new k)) =
      Some (map (\<lambda>x. Ok (page_of d m x)) ls, s) \<and>
    pool_step pick btree_disk_ops (lruk_ops iter) (PoolRead l) s = Some (Err (EvictorError NoVictimFound), s)"
proof -
  let ?s = "pool_new (length ls) d (lk_new k)"
  have inv: "bp.inv 0 (\<lambda>_. Free) ?s m" by (rule new_pool [OF d]) simp
  have new: "no_history (bp_policy ?s)" "card (vacant_frames ?s) = length ls" "lpage_map ?s = Map.empty"
    "bp.page_at ?s m = page_of d m"
    using new_pages by (simp_all add: pool_new_def no_history_def lk_new_def)
  have pre: "length ls \<le> card (vacant_frames ?s)" "distinct ls"
    "\<forall>l\<in>set ls. lpage_map ?s l = None \<and> bp.page_at ?s m l \<noteq> None"
    using ls by (simp_all add: new)
  obtain t where t: "pool_serve pick btree_disk_ops (lruk_ops iter) (map PoolRead ls) ?s = Some (map (\<lambda>l. Ok (bp.page_at ?s m l)) ls, t)"
    "bp.inv 0 (\<lambda>_. Free) t m" "no_history (bp_policy t)" "card (vacant_frames t) = card (vacant_frames ?s) - length ls"
    "\<forall>l. l \<notin> set ls \<longrightarrow> lpage_map t l = lpage_map ?s l"
    using first_reads [OF inv new(1) pre] by blast
  have "vacant_frames t = {}" using t(4) new(2) bp.vacant_finite [OF t(2)] by simp
  moreover have "lpage_map t l = None" using t(5) ls(1) by (simp add: new)
  ultimately have "pool_step pick btree_disk_ops (lruk_ops iter) (PoolRead l) t = Some (Err (EvictorError NoVictimFound), t)"
    by (rule full_pool [OF t(2,3)])
  then show ?thesis using t(1) by (simp add: new)
qed

lemma missing_page:
  assumes d: "btree_disk d m" "0 < k" and l: "m l = None" and n: "0 < n"
  shows "\<exists>e t f u. fetch_page_read pick btree_disk_ops (lruk_ops iter) l (pool_new n d (lk_new k)) = Some (Err (StorageError (DirectoryError e)), t) \<and>
    dir_refusal e = Some Missing \<and> pin_counts t ! f = 1 \<and>
    fetch_page_read pick btree_disk_ops (lruk_ops iter) l t = Some (Ok f, u) \<and>
    guard_page f u = replicate PAGE_BUF_SIZE 0 \<and>
    frame_lpage_id f u = Some ((Panic :: ((dir_error, io_error) disk_error buffer_error, u32) outcome), u)"
proof -
  let ?s = "pool_new n d (lk_new k)"
  obtain d' e where d': "(disk_read_page btree_directory l 4096 :: (ppage_id \<times> page) btree_disk_prog) d =
      Some (case m l of None \<Rightarrow> Err (DirectoryError e)
        | Some v \<Rightarrow> (case stored d v of None \<Rightarrow> Err (DiskIO UnexpectedEof) | Some p \<Rightarrow> Ok (v, p)), d')"
    "m l = None \<longrightarrow> dir_refusal e = Some Missing"
    by (rule disk.read_step [OF d(1)])
  have inv: "bp.inv 0 (\<lambda>_. Free) ?s m" by (rule new_pool [OF d]) simp
  have "vacant_frames ?s \<noteq> {}" "lpage_map ?s l = None" using n by (simp_all add: pool_new_def)
  moreover have "dm_read_page btree_disk_ops l PAGE_BUF_SIZE (bp_disk ?s) = Some (Err (DirectoryError e), d')"
    using d'(1) l by (simp add: disk_manager_ops_def PAGE_BUF_SIZE_def pool_new_def)
  ultimately obtain f t u where r: "fetch_page_read pick btree_disk_ops (lruk_ops iter) l ?s = Some (Err (StorageError (DirectoryError e)), t)"
    "pin_counts t ! f = 1" "fetch_page_read pick btree_disk_ops (lruk_ops iter) l t = Some (Ok f, u)" "f < n" "guard_page f u = pool_buf ?s ! f"
    "frame_lpage_id f u = Some ((Panic :: ((dir_error, io_error) disk_error buffer_error, u32) outcome), u)"
    using bp.failed_read [OF inv] by (fastforce simp: pool_new_def)
  then have "guard_page f u = replicate PAGE_BUF_SIZE 0" by (simp add: pool_new_def)
  then show ?thesis using r d'(2) l by blast
qed

end

lemma any_pool:
  assumes "visits_all iter" "\<forall>S. finite S \<longrightarrow> S \<noteq> {} \<longrightarrow> pick S \<in> S"
  shows "lruk_pool iter pick"
  using assms by unfold_locales auto

lemma some_order: "visits_all by_number" "\<forall>S :: nat set. finite S \<longrightarrow> S \<noteq> {} \<longrightarrow> Min S \<in> S"
  using by_number_visits Min_in by blast+

text \<open>A disk with two pages, numbers 0 and 1, that have been written.\<close>

lemma two_pages:
  obtains d m where "btree_disk d m" "page_of d m 0 = Some (replicate PAGE_BUF_SIZE 7)" "page_of d m 1 = Some (replicate PAGE_BUF_SIZE 8)"
    "m 9 = None"
proof -
  obtain s v where s: "btree_disk s [0 \<mapsto> v]" "next_lpage_id s = 1" "sa_space 1 (dk_allocator s)" "dir_room (dk_directory s)"
    by (rule one_page_disk) blast
  obtain w s1 where w: "(disk_new_page btree_directory simple_allocator_ops 2 :: (u32 \<times> ppage_id) btree_disk_prog) s = Some (Ok (1, w), s1)"
    "btree_disk s1 [0 \<mapsto> v, 1 \<mapsto> w]"
    by (rule disk.new_step [OF s(1), of 0 2]) (use s in simp_all)
  let ?m = "[0 :: u32 \<mapsto> v, 1 \<mapsto> w]"
  have m: "?m 0 = Some v" "?m 1 = Some w" by simp_all
  have pa: "page_aligned u" if "?m l = Some u" for l u using w(2) that by (simp only: disk_rep_def)
  note al = pa [OF m(1)] pa [OF m(2)]
  have "inj_on ?m (dom ?m)" using w(2) by (simp only: disk_rep_def)
  then have ne: "v \<noteq> w" using m by (metis domI inj_onD zero_neq_one)
  obtain s2 where s2: "btree_disk s2 ?m" "stored s2 v = Some (replicate PAGE_BUF_SIZE 7)"
    using disk_write_loc [OF w(2) al(1), of "replicate PAGE_BUF_SIZE 7"] unfolding length_replicate by blast
  obtain s3 where s3: "btree_disk s3 ?m" "stored s3 w = Some (replicate PAGE_BUF_SIZE 8)"
      "\<forall>u p. page_aligned u \<longrightarrow> u \<noteq> w \<longrightarrow> stored s2 u = Some p \<longrightarrow> stored s3 u = Some p"
    using disk_write_loc [OF s2(1) al(2), of "replicate PAGE_BUF_SIZE 8"] unfolding length_replicate by blast
  have "stored s3 v = Some (replicate PAGE_BUF_SIZE 7)" using s3(3) s2(2) al(1) ne by blast
  with s3(1,2) show ?thesis using that [of s3 ?m] by (simp add: page_of_def)
qed

section \<open>Properties of the pool\<close>

text \<open>C33: A client of a new pool, over a database whose pages are on disk, is answered like the map of these pages:
every read returns what was last written, whatever was evicted in between, or the request is refused for want of a
frame and changes nothing. The order in which the hash maps and sets yield their entries does not matter.\<close>

theorem pool_answers_like_page_map:
  assumes "visits_all iter" "\<forall>S. finite S \<longrightarrow> S \<noteq> {} \<longrightarrow> pick S \<in> S" "btree_disk d m" "0 < k" "length rs < 2 ^ 64 - 1"
    "\<forall>r\<in>set rs. request_ok (page_of d m) r"
  shows "\<exists>as s M. pool_serve pick btree_disk_ops (lruk_ops iter) rs (pool_new n d (lk_new k)) = Some (as, s) \<and>
    served (page_of d m) rs as M"
  using lruk_pool.page_map [OF any_pool [OF assms(1,2)] assms(3-6)] by blast

theorem pool_answers_like_page_map_witness:
  "\<exists>d m as s M. btree_disk d m \<and> page_of d m 0 = Some (replicate PAGE_BUF_SIZE 7) \<and>
    pool_serve Min btree_disk_ops (lruk_ops by_number) [PoolRead 0, PoolWrite 1 (replicate PAGE_BUF_SIZE 3), PoolFlush, PoolRead 1]
      (pool_new 1 d (lk_new 2)) = Some (as, s) \<and>
    served (page_of d m) [PoolRead 0, PoolWrite 1 (replicate PAGE_BUF_SIZE 3), PoolFlush, PoolRead 1] as M"
proof -
  let ?rs = "[PoolRead 0, PoolWrite 1 (replicate PAGE_BUF_SIZE 3), PoolFlush, PoolRead 1]"
  obtain d m where d: "btree_disk d m" "page_of d m 0 = Some (replicate PAGE_BUF_SIZE 7)" "page_of d m 1 = Some (replicate PAGE_BUF_SIZE 8)"
    by (rule two_pages)
  have "\<forall>r\<in>set ?rs. request_ok (page_of d m) r" "length ?rs < 2 ^ 64 - 1" "(0 :: nat) < 2" using d(2,3) by simp_all
  from pool_answers_like_page_map [OF some_order d(1) this(3,2,1), of 1] d(1,2) show ?thesis by blast
qed

text \<open>C34: After any requests, flushing the pool puts on disk exactly what the page map holds, and the database stays
well formed: what was written is there after a restart.\<close>

theorem pool_flush_reaches_disk:
  assumes "visits_all iter" "\<forall>S. finite S \<longrightarrow> S \<noteq> {} \<longrightarrow> pick S \<in> S" "btree_disk d m" "0 < k" "length rs < 2 ^ 64 - 1"
    "\<forall>r\<in>set rs. request_ok (page_of d m) r"
  shows "\<exists>as s t M. pool_serve pick btree_disk_ops (lruk_ops iter) rs (pool_new n d (lk_new k)) = Some (as, s) \<and>
    served (page_of d m) rs as M \<and> flush_all_dirty_frames btree_disk_ops s = Some (Ok (), t) \<and>
    btree_disk (bp_disk t) m \<and> M \<subseteq>\<^sub>m page_of (bp_disk t) m"
  using lruk_pool.flushed_map [OF any_pool [OF assms(1,2)] assms(3-6)] by blast

theorem pool_flush_reaches_disk_witness:
  "\<exists>d m as s t M. btree_disk d m \<and> page_of d m 0 = Some (replicate PAGE_BUF_SIZE 7) \<and>
    pool_serve Min btree_disk_ops (lruk_ops by_number) [PoolWrite 0 (replicate PAGE_BUF_SIZE 3), PoolRead 0] (pool_new 1 d (lk_new 2)) = Some (as, s) \<and>
    served (page_of d m) [PoolWrite 0 (replicate PAGE_BUF_SIZE 3), PoolRead 0] as M \<and>
    flush_all_dirty_frames btree_disk_ops s = Some (Ok (), t) \<and> M \<subseteq>\<^sub>m page_of (bp_disk t) m"
proof -
  let ?rs = "[PoolWrite 0 (replicate PAGE_BUF_SIZE 3), PoolRead 0]"
  obtain d m where d: "btree_disk d m" "page_of d m 0 = Some (replicate PAGE_BUF_SIZE 7)"
    by (rule two_pages)
  have "\<forall>r\<in>set ?rs. request_ok (page_of d m) r" "length ?rs < 2 ^ 64 - 1" "(0 :: nat) < 2" using d(2) by simp_all
  from pool_flush_reaches_disk [OF some_order d(1) this(3,2,1), of 1] d(1,2) show ?thesis by blast
qed

text \<open>C35: A first read never counts as an access (the guard that loads a page is downgraded without one), so LRU-K
has no history for its frame and never evicts it: once as many pages as there are frames have each been read once and
released, reading any other page is refused, although no frame is in use.\<close>

theorem pool_refuses_after_first_reads:
  assumes "visits_all iter" "\<forall>S. finite S \<longrightarrow> S \<noteq> {} \<longrightarrow> pick S \<in> S" "btree_disk d m" "0 < k"
    "distinct (l # ls)" "\<forall>x\<in>set (l # ls). page_of d m x \<noteq> None"
  shows "\<exists>s. pool_serve pick btree_disk_ops (lruk_ops iter) (map PoolRead ls) (pool_new (length ls) d (lk_new k)) =
      Some (map (\<lambda>x. Ok (page_of d m x)) ls, s) \<and>
    pool_step pick btree_disk_ops (lruk_ops iter) (PoolRead l) s = Some (Err (EvictorError NoVictimFound), s)"
  by (rule lruk_pool.refused_read [OF any_pool [OF assms(1,2)] assms(3-6)])

theorem pool_refuses_after_first_reads_witness:
  "\<exists>d m s. btree_disk d m \<and> pool_serve Min btree_disk_ops (lruk_ops by_number) [PoolRead 0] (pool_new 1 d (lk_new 2)) =
      Some ([Ok (Some (replicate PAGE_BUF_SIZE 7))], s) \<and>
    pool_step Min btree_disk_ops (lruk_ops by_number) (PoolRead 1) s = Some (Err (EvictorError NoVictimFound), s)"
proof -
  obtain d m where d: "btree_disk d m" "page_of d m 0 = Some (replicate PAGE_BUF_SIZE 7)" "page_of d m 1 = Some (replicate PAGE_BUF_SIZE 8)"
    by (rule two_pages)
  have "distinct [1, 0 :: u32]" "\<forall>x\<in>set [1, 0]. page_of d m x \<noteq> None" "(0 :: nat) < 2" using d(2,3) by simp_all
  from pool_refuses_after_first_reads [OF some_order d(1) this(3,1,2)] d(1,2) show ?thesis by auto
qed

text \<open>C36: Fetching a page that is not registered fails, but leaves the id in the pool's map and its frame pinned: the
next fetch of the id succeeds, with a guard on a page of zeros that was never read, and asking the guard for the id of
its page panics.\<close>

theorem pool_failed_read_leaves_frame:
  assumes "visits_all iter" "\<forall>S. finite S \<longrightarrow> S \<noteq> {} \<longrightarrow> pick S \<in> S" "btree_disk d m" "0 < k" "m l = None" "0 < n"
  shows "\<exists>e t f u. fetch_page_read pick btree_disk_ops (lruk_ops iter) l (pool_new n d (lk_new k)) = Some (Err (StorageError (DirectoryError e)), t) \<and>
    dir_refusal e = Some Missing \<and> pin_counts t ! f = 1 \<and>
    fetch_page_read pick btree_disk_ops (lruk_ops iter) l t = Some (Ok f, u) \<and>
    guard_page f u = replicate PAGE_BUF_SIZE 0 \<and>
    frame_lpage_id f u = Some ((Panic :: ((dir_error, io_error) disk_error buffer_error, u32) outcome), u)"
  by (rule lruk_pool.missing_page [OF any_pool [OF assms(1,2)] assms(3-6)])

theorem pool_failed_read_leaves_frame_witness:
  "\<exists>d m e t f u. btree_disk d m \<and>
    fetch_page_read Min btree_disk_ops (lruk_ops by_number) 9 (pool_new 4 d (lk_new 2)) = Some (Err (StorageError (DirectoryError e)), t) \<and>
    fetch_page_read Min btree_disk_ops (lruk_ops by_number) 9 t = Some (Ok f, u) \<and>
    guard_page f u = replicate PAGE_BUF_SIZE 0 \<and>
    frame_lpage_id f u = Some ((Panic :: ((dir_error, io_error) disk_error buffer_error, u32) outcome), u)"
proof -
  obtain d m where d: "btree_disk d m" "m 9 = None" by (rule two_pages)
  have "(0 :: nat) < 2" "(0 :: nat) < 4" by simp_all
  from pool_failed_read_leaves_frame [OF some_order d(1) this(1) d(2) this(2)] d(1) show ?thesis by blast
qed

end
