(* ===== verification/PoolAccess.thy ===== *)
theory PoolAccess
  imports BufferPool FileHeaders CatalogCache
begin

text \<open>
  How the accessors of tables and indexes (\<open>src/src/accessor/heap.rs\<close>, \<open>btree.rs\<close>) use the pages of a buffer
  pool: the conversion of errors, guards that are released when their scope ends, and the page behind a
  guard, read and written through \<open>Deref\<close> and \<open>DerefMut\<close> of \<open>src/src/buffer/impl/guard.rs\<close>.
\<close>

section \<open>Errors and guards\<close>

type_synonym ('s, 'p, 'e, 'a) access_prog = "(('s, 'p) pool, 'e buffer_error accessor_error, 'a) prog"

definition with_err :: "('e \<Rightarrow> 'f) \<Rightarrow> ('s, 'e, 'a) prog \<Rightarrow> ('s, 'f, 'a) prog" where
  "with_err g m s = (case m s of None \<Rightarrow> None | Some (r, s') \<Rightarrow> Some (map_err g r, s'))"

abbreviation in_pool :: "('s, 'p, 'e, 'a) pool_prog \<Rightarrow> ('s, 'p, 'e, 'a) access_prog" where
  "in_pool \<equiv> with_err BufferError"

text \<open>The result of a call as a value, for code that goes on after an error.\<close>

definition caught :: "('s, 'e, 'a) prog \<Rightarrow> ('s, 'f, ('e, 'a) outcome) prog" where
  "caught m s = (case m s of None \<Rightarrow> None | Some (Panic, s') \<Rightarrow> Some (Panic, s') | Some (r, s') \<Rightarrow> Some (Ok r, s'))"

text \<open>A guard in scope while \<open>m\<close> runs.\<close>

definition with_guard :: "'p policy_ops \<Rightarrow> nat \<Rightarrow> ('s, 'p, 'e, 'a) access_prog \<Rightarrow> ('s, 'p, 'e, 'a) access_prog" where
  "with_guard P f m s = (case m s of None \<Rightarrow> None
     | Some (r, s') \<Rightarrow> pbind (in_pool (drop_guard P f)) (\<lambda>_. lift r) s')"

fun drop_guards :: "'p policy_ops \<Rightarrow> nat list \<Rightarrow> ('s, 'p, 'e, unit) access_prog" where
  "drop_guards P [] = ret ()"
| "drop_guards P (f # fs) = pbind (in_pool (drop_guard P f)) (\<lambda>_. drop_guards P fs)"

text \<open>Guards that are passed on when \<open>m\<close> succeeds and released when it does not.\<close>

definition on_fail :: "'p policy_ops \<Rightarrow> nat list \<Rightarrow> ('s, 'p, 'e, 'a) access_prog \<Rightarrow> ('s, 'p, 'e, 'a) access_prog" where
  "on_fail P fs m s = (case m s of None \<Rightarrow> None | Some (Ok a, s') \<Rightarrow> Some (Ok a, s')
     | Some (r, s') \<Rightarrow> pbind (drop_guards P fs) (\<lambda>_. lift r) s')"

section \<open>The page behind a guard\<close>

text \<open>The buffer of a frame, with its address in the pool's buffer, which is aligned to 4096 bytes.\<close>

definition frame_buf :: "nat \<Rightarrow> ('s, 'p) pool \<Rightarrow> mem_buf" where
  "frame_buf f s = \<lparr> buf_addr = f * PAGE_BUF_SIZE, buf_bytes = guard_page f s \<rparr>"

definition on_frame :: "nat \<Rightarrow> (mem_buf, 'e, 'a) prog \<Rightarrow> (('s, 'p) pool, 'e, 'a) prog" where
  "on_frame f m s = (case m (frame_buf f s) of None \<Rightarrow> None
     | Some (r, b) \<Rightarrow> Some (r, s\<lparr> pool_buf := (pool_buf s)[f := buf_bytes b] \<rparr>))"

definition from_frame :: "nat \<Rightarrow> (mem_buf \<Rightarrow> ('e, 'a) outcome) \<Rightarrow> (('s, 'p) pool, 'e, 'a) prog" where
  "from_frame f g s = lift (g (frame_buf f s)) s"

text \<open>The same for code that uses the page without references into it.\<close>

definition on_page :: "nat \<Rightarrow> (page, 'e, 'a) prog \<Rightarrow> (('s, 'p) pool, 'e, 'a) prog" where
  "on_page f m s = (case m (guard_page f s) of None \<Rightarrow> None
     | Some (r, p) \<Rightarrow> Some (r, s\<lparr> pool_buf := (pool_buf s)[f := p] \<rparr>))"

definition from_page :: "nat \<Rightarrow> (page \<Rightarrow> ('e, 'a) outcome) \<Rightarrow> (('s, 'p) pool, 'e, 'a) prog" where
  "from_page f g s = lift (g (guard_page f s)) s"

text \<open>A call that changes the page or fails and leaves it.\<close>

definition page_upd :: "('a \<Rightarrow> ('e, 'a) outcome) \<Rightarrow> ('a, 'e, unit) prog" where
  "page_upd g p = (case g p of Ok p' \<Rightarrow> Some (Ok (), p') | Err e \<Rightarrow> Some (Err e, p) | Panic \<Rightarrow> Some (Panic, p))"

text \<open>The page a file starts with.\<close>

definition header_loc :: "u32 \<Rightarrow> ppage_id" where
  "header_loc file = \<lparr> pp_file = file, pp_offset = 0 \<rparr>"

definition mark_dirty :: "nat \<Rightarrow> ('s, 'p, 'e, unit) access_prog" where
  "mark_dirty f = in_pool (mark_frame_dirty f)"

text \<open>A call that changes the page at any address.\<close>

lemma on_frame_to:
  assumes "m (frame_buf f u) = Some (r, b)"
  shows "on_frame f m u = Some (r, u\<lparr> pool_buf := (pool_buf u)[f := buf_bytes b] \<rparr>)"
  using assms by (simp add: on_frame_def)

lemma marked_frame_run:
  assumes "f < length (frame_metas u)" "frame_metas u ! f = Loaded l v d"
  shows "mark_dirty f u = Some (Ok (), u\<lparr> frame_metas := (frame_metas u)[f := Loaded l v True] \<rparr>)"
  using assms by (simp add: mark_dirty_def with_err_def mark_frame_dirty_def ret_def)

end
