(* ===== verification/AccessRules.thy ===== *)
theory AccessRules
  imports PoolClaims PoolAccess
begin

text \<open>
  Rules for programs that fetch a page of the pool, use it and release it: what they return and what they
  leave, in terms of the invariant of the pool and the view of its pages.
\<close>

abbreviation refused :: "('e buffer_error accessor_error, 'a) outcome" where
  "refused \<equiv> Err (BufferError (EvictorError NoVictimFound))"

lemma pbind_assoc: "pbind (pbind a b) c = pbind a (\<lambda>x. pbind (b x) c)"
  by (rule ext) (auto simp: pbind_def split: option.split prod.split outcome.split)

lemma with_guard_run:
  fixes m :: "('s, 'p, 'e, 'a) access_prog"
  assumes "m s = Some (r, t)" "drop_guard P f t = Some ((Ok () :: ('e buffer_error, unit) outcome), u)"
  shows "with_guard P f m s = Some (r, u)"
  using assms by (simp add: with_guard_def with_err_def pbind_def lift_def)

context buffer_pool
begin

lemma keeps_view: "keeps m H s t \<Longrightarrow> place v \<Longrightarrow> pool_view on_disk s v = Some p \<Longrightarrow> pool_view on_disk t v = Some p"
  by (simp add: keeps_def keeps_pages_def)

lemma keeps_dropped: "keeps m H s t \<Longrightarrow> keeps m H s (dropped f t)"
  by (simp add: keeps_def keeps_pages_def keeps_held_def keeps_clean_def dropped_same)

lemma released: "(H :: nat \<Rightarrow> latch) f = Free \<Longrightarrow> (H(f := L))(f := Free) = H"
  by (rule ext) simp

lemma got_drop:
  assumes g: "got n H s t m L f l v pg" and L: "L \<in> {Readers 1, Writer}"
  shows "drop_guard P f t = Some ((Ok () :: ('e buffer_error, unit) outcome), dropped f t)" "inv n H (dropped f t) m" "keeps m H s (dropped f t)"
proof -
  have i: "inv n (H(f := L)) t m" "f < num_frames t" "frame_metas t ! f \<noteq> Vacant" "settled f t" "H f = Free" "keeps m H s t"
    using g by (auto simp: got_def)
  have held: "(H(f := L)) f \<noteq> Free" using L by auto
  note d = drop_run [OF i(1,2) held i(3,4)]
  show "drop_guard P f t = Some ((Ok () :: ('e buffer_error, unit) outcome), dropped f t)" by (rule d(1))
  show "inv n H (dropped f t) m" by (rule d(2) [unfolded released [of H f L, OF i(5)]])
  show "keeps m H s (dropped f t)" by (rule keeps_dropped [OF i(6)])
qed

text \<open>A page that is only looked at.\<close>

lemma guarded_read:
  fixes fetch :: "('s, 'p, 'e, nat) pool_prog"
  assumes inv: "inv n H s m"
    and got: "fetch s = Some (Err (EvictorError NoVictimFound), s) \<or> (\<exists>f t. fetch s = Some (Ok f, t) \<and> got n H s t m L f l v pg)"
    and L: "L \<in> {Readers 1, Writer}"
    and use: "\<forall>f u. pool_buf u ! f = pg \<longrightarrow> M f u = Some (x, u)"
  shows "\<exists>r t. pbind (in_pool fetch) (\<lambda>f. with_guard P f (M f)) s = Some (r, t) \<and> inv n H t m \<and> keeps m H s t \<and> (r = refused \<or> r = x)"
  using got
proof (elim disjE exE conjE)
  assume "fetch s = Some (Err (EvictorError NoVictimFound), s)"
  then show ?thesis using inv keeps_refl by (simp add: pbind_def with_err_def)
next
  fix f t assume f: "fetch s = Some (Ok f, t)" "got n H s t m L f l v pg"
  note d = got_drop [OF f(2) L]
  have "M f t = Some (x, t)" using use f(2) by (simp add: got_def)
  from with_guard_run [of "M f", OF this d(1)] have "pbind (in_pool fetch) (\<lambda>f. with_guard P f (M f)) s = Some (x, dropped f t)"
    using f(1) by (simp add: pbind_def with_err_def)
  then show ?thesis using d(2,3) by blast
qed

lemma fetched_read_run:
  assumes inv: "inv (Suc n) H s m" and l: "m l = Some v" "pool_view on_disk s v = Some pg" "\<forall>f. ppage_map s v = Some f \<longrightarrow> H f = Free"
    and use: "\<forall>f u. pool_buf u ! f = pg \<longrightarrow> M f u = Some (x, u)"
  shows "\<exists>r t. pbind (in_pool (fetch_page_read pick K P l)) (\<lambda>f. with_guard P f (M f)) s = Some (r, t) \<and> inv n H t m \<and> keeps m H s t \<and>
    (r = refused \<or> r = x)"
  using guarded_read [where fetch = "fetch_page_read pick K P l", OF inv_fewer [OF inv] fetch_read_run [OF inv l] _ use] by simp

lemma read_place_run:
  assumes inv: "inv (Suc n) H s m" and v: "anon v" "m 0 = None" "pool_view on_disk s v = Some pg" "page_id (uber_header pg) = 0"
      "\<forall>f. ppage_map s v = Some f \<longrightarrow> H f = Free"
    and use: "\<forall>f u. pool_buf u ! f = pg \<longrightarrow> M f u = Some (x, u)"
  shows "\<exists>r t. pbind (in_pool (fetch_page_at_loc_read pick K P v)) (\<lambda>f. with_guard P f (M f)) s = Some (r, t) \<and> inv n H t m \<and> keeps m H s t \<and>
    (r = refused \<or> r = x)"
  using guarded_read [where fetch = "fetch_page_at_loc_read pick K P v", OF inv_fewer [OF inv] fetch_at_read_run [OF inv v] _ use] by simp

text \<open>A page that is changed and marked dirty: one place has a new page, the others keep theirs.\<close>

definition put_page :: "(u32 \<rightharpoonup> ppage_id) \<Rightarrow> (nat \<Rightarrow> latch) \<Rightarrow> ('s, 'p) pool \<Rightarrow> ('s, 'p) pool \<Rightarrow> ppage_id \<Rightarrow> page \<Rightarrow> bool" where
  "put_page m H s t v pg \<longleftrightarrow> pool_view on_disk t v = Some pg \<and>
     (\<forall>w p. place w \<longrightarrow> w \<noteq> v \<longrightarrow> pool_view on_disk s w = Some p \<longrightarrow> pool_view on_disk t w = Some p) \<and>
     keeps_held H s t \<and> (can_grow (bp_disk s) m \<longrightarrow> can_grow (bp_disk t) m)"

lemma keeps_put: "keeps m H s t \<Longrightarrow> put_page m H t u v pg \<Longrightarrow> put_page m H s u v pg"
  by (simp add: keeps_def keeps_pages_def keeps_held_def put_page_def)

lemma rewritten_drop:
  assumes g: "got n H s t m Writer f l v pg" and len: "length pg' = PAGE_BUF_SIZE"
  shows "drop_guard P f (rewritten f l v pg' t) = Some ((Ok () :: ('e buffer_error, unit) outcome), dropped f (rewritten f l v pg' t))"
    "inv n H (dropped f (rewritten f l v pg' t)) m" "put_page m H s (dropped f (rewritten f l v pg' t)) v pg'"
proof -
  let ?u = "rewritten f l v pg' t"
  obtain d where i: "inv n (H(f := Writer)) t m" "f < num_frames t" "frame_metas t ! f = Loaded l v d" "H f = Free" "keeps m H s t"
    using g by (auto simp: got_def)
  note rw = rewritten_inv [OF i(1-3) len]
  have f: "f < num_frames ?u" "frame_metas ?u ! f = Loaded l v True" using i(2) lengths [OF i(1)] by (simp_all add: rewritten_def)
  have held: "(H(f := Writer)) f \<noteq> Free" and loaded: "frame_metas ?u ! f \<noteq> Vacant" and settled: "settled f ?u"
    using f(2) by (simp_all add: settled_def)
  note d = drop_run [OF rw(1) f(1) held loaded settled]
  show "drop_guard P f ?u = Some ((Ok () :: ('e buffer_error, unit) outcome), dropped f ?u)" by (rule d(1))
  show "inv n H (dropped f ?u) m" by (rule d(2) [unfolded released [of H f Writer, OF i(4)]])
  have "keeps_held H t ?u" using i(4) by (simp add: keeps_held_def rewritten_def) (metis nth_list_update_neq)
  then have "put_page m H t (dropped f ?u) v pg'"
    by (simp add: put_page_def keeps_held_def dropped_same rw(2)) (simp add: rewritten_def)
  with i(5) show "put_page m H s (dropped f ?u) v pg'" by (rule keeps_put)
qed

text \<open>What code with a write guard on a page does: it changes the bytes and marks the frame.\<close>

definition writes_page :: "(nat \<Rightarrow> (('s, 'p) pool, 'x, 'a) prog) \<Rightarrow> u32 \<Rightarrow> ppage_id \<Rightarrow> page \<Rightarrow> ('x, 'a) outcome \<Rightarrow> (page \<Rightarrow> bool) \<Rightarrow> bool" where
  "writes_page M l v pg x Q \<longleftrightarrow> (\<forall>f u d. f < length (pool_buf u) \<longrightarrow> f < length (frame_metas u) \<longrightarrow>
     frame_metas u ! f = Loaded l v d \<longrightarrow> pool_buf u ! f = pg \<longrightarrow>
     (\<exists>pg'. M f u = Some (x, rewritten f l v pg' u) \<and> length pg' = PAGE_BUF_SIZE \<and> Q pg'))"

lemma writes_run:
  assumes "writes_page M l v pg x Q" "got n H s t m L f l v pg"
  obtains pg' where "M f t = Some (x, rewritten f l v pg' t)" "length pg' = PAGE_BUF_SIZE" "Q pg'"
proof -
  obtain d where g: "inv n (H(f := L)) t m" "f < num_frames t" "frame_metas t ! f = Loaded l v d" "pool_buf t ! f = pg"
    using assms(2) by (auto simp: got_def)
  then have "f < length (pool_buf t)" "f < length (frame_metas t)" using lengths [OF g(1)] by simp_all
  then show ?thesis using assms(1) g(3,4) that unfolding writes_page_def by blast
qed

lemma guarded_write:
  fixes fetch :: "('s, 'p, 'e, nat) pool_prog"
  assumes inv: "inv n H s m"
    and got: "fetch s = Some (Err (EvictorError NoVictimFound), s) \<or> (\<exists>f t. fetch s = Some (Ok f, t) \<and> got n H s t m Writer f l v pg)"
    and use: "writes_page M l v pg x Q"
  shows "\<exists>r t. pbind (in_pool fetch) (\<lambda>f. with_guard P f (M f)) s = Some (r, t) \<and> inv n H t m \<and>
    (r = refused \<and> keeps m H s t \<or> r = x \<and> (\<exists>pg'. Q pg' \<and> put_page m H s t v pg'))"
  using got
proof (elim disjE exE conjE)
  assume "fetch s = Some (Err (EvictorError NoVictimFound), s)"
  then show ?thesis using inv keeps_refl by (simp add: pbind_def with_err_def)
next
  fix f t assume f: "fetch s = Some (Ok f, t)" "got n H s t m Writer f l v pg"
  obtain pg' where w: "M f t = Some (x, rewritten f l v pg' t)" "length pg' = PAGE_BUF_SIZE" "Q pg'"
    by (rule writes_run [OF use f(2)])
  note d = rewritten_drop [OF f(2) w(2)]
  from with_guard_run [of "M f", OF w(1) d(1)]
  have "pbind (in_pool fetch) (\<lambda>f. with_guard P f (M f)) s = Some (x, dropped f (rewritten f l v pg' t))"
    using f(1) by (simp add: pbind_def with_err_def)
  then show ?thesis using d(2,3) w(3) by blast
qed

lemma fetched_write_run:
  assumes inv: "inv n H s m" and l: "m l = Some v" "pool_view on_disk s v = Some pg" "\<forall>f. ppage_map s v = Some f \<longrightarrow> H f = Free"
    and use: "writes_page M l v pg x Q"
  shows "\<exists>r t. pbind (in_pool (fetch_page_write pick K P l)) (\<lambda>f. with_guard P f (M f)) s = Some (r, t) \<and> inv n H t m \<and>
    (r = refused \<and> keeps m H s t \<or> r = x \<and> (\<exists>pg'. Q pg' \<and> put_page m H s t v pg'))"
  by (rule guarded_write [where fetch = "fetch_page_write pick K P l", OF inv fetch_write_run [OF inv l] use])

lemma look_page_run:
  assumes inv: "inv n H s m" and l: "m l = Some v" "pool_view on_disk s v = Some pg" "\<forall>f. ppage_map s v = Some f \<longrightarrow> H f = Free"
    and use: "\<forall>f u. pool_buf u ! f = pg \<longrightarrow> M f u = Some (x, u)"
  shows "\<exists>r t. pbind (in_pool (fetch_page_write pick K P l)) (\<lambda>f. with_guard P f (M f)) s = Some (r, t) \<and> inv n H t m \<and> keeps m H s t \<and>
    (r = refused \<or> r = x)"
  using guarded_read [where fetch = "fetch_page_write pick K P l", OF inv fetch_write_run [OF inv l] _ use] by simp

lemma write_place_run:
  assumes inv: "inv n H s m" and v: "anon v" "m 0 = None" "pool_view on_disk s v = Some pg" "page_id (uber_header pg) = 0"
      "\<forall>f. ppage_map s v = Some f \<longrightarrow> H f = Free"
    and use: "writes_page M 0 v pg x Q"
  shows "\<exists>r t. pbind (in_pool (fetch_page_at_loc_write pick K P v)) (\<lambda>f. with_guard P f (M f)) s = Some (r, t) \<and> inv n H t m \<and>
    (r = refused \<and> keeps m H s t \<or> r = x \<and> (\<exists>pg'. Q pg' \<and> put_page m H s t v pg'))"
  by (rule guarded_write [where fetch = "fetch_page_at_loc_write pick K P v", OF inv fetch_at_write_run [OF inv v] use])

text \<open>The pages by their ids.\<close>

lemma put_page_at:
  assumes rep: "rep d m" and put: "put_page m H s t v pg" and l: "m l = Some v"
  shows "page_at t m l = Some pg" "k \<noteq> l \<Longrightarrow> page_at s m k = Some p \<Longrightarrow> page_at t m k = Some p"
    "anon w \<Longrightarrow> pool_view on_disk s w = Some p \<Longrightarrow> pool_view on_disk t w = Some p"
proof -
  show "page_at t m l = Some pg" using put l by (simp add: put_page_def page_at_Some)
  show "page_at t m k = Some p" if k: "k \<noteq> l" "page_at s m k = Some p"
  proof -
    obtain w where w: "m k = Some w" "pool_view on_disk s w = Some p" using k(2) by (auto simp: page_at_Some)
    have "w \<noteq> v" using k(1) w(1) l places(1) [OF rep] by (metis domI inj_onD)
    then show ?thesis using put w places(2) [OF rep w(1)] by (auto simp: put_page_def page_at_Some)
  qed
  show "pool_view on_disk t w = Some p" if "anon w" "pool_view on_disk s w = Some p"
    using put that places(2) [OF rep l] places(3) by (auto simp: put_page_def)
qed

lemma keeps_page_at:
  assumes "rep d m" "keeps m H s t"
  shows "page_at s m k = Some p \<Longrightarrow> page_at t m k = Some p" "anon w \<Longrightarrow> pool_view on_disk s w = Some p \<Longrightarrow> pool_view on_disk t w = Some p"
proof -
  have kp: "keeps_pages on_disk place s t" using assms(2) by (simp add: keeps_def)
  show "page_at s m k = Some p \<Longrightarrow> page_at t m k = Some p" by (rule page_at_keeps [OF assms(1) kp])
  show "anon w \<Longrightarrow> pool_view on_disk s w = Some p \<Longrightarrow> pool_view on_disk t w = Some p"
    using kp places(3) by (simp add: keeps_pages_def)
qed

lemma none_held: "\<forall>f. ppage_map s v = Some f \<longrightarrow> (\<lambda>_. Free) f = Free"
  by simp

text \<open>The states between two requests: no page is held.\<close>

abbreviation idle :: "nat \<Rightarrow> ('s, 'p) pool \<Rightarrow> (u32 \<rightharpoonup> ppage_id) \<Rightarrow> bool" where
  "idle n s m \<equiv> inv n (\<lambda>_. Free) s m"

abbreviation stays :: "(u32 \<rightharpoonup> ppage_id) \<Rightarrow> ('s, 'p) pool \<Rightarrow> ('s, 'p) pool \<Rightarrow> bool" where
  "stays m s t \<equiv> keeps m (\<lambda>_. Free) s t"

abbreviation puts :: "(u32 \<rightharpoonup> ppage_id) \<Rightarrow> ('s, 'p) pool \<Rightarrow> ('s, 'p) pool \<Rightarrow> ppage_id \<Rightarrow> page \<Rightarrow> bool" where
  "puts m s t v pg \<equiv> put_page m (\<lambda>_. Free) s t v pg"

lemma inv_less: "inv (k + n) H s m \<Longrightarrow> inv n H s m"
  by (induction k) (auto intro: inv_fewer)

lemma inv_mono: "inv k H s m \<Longrightarrow> j \<le> k \<Longrightarrow> inv j H s m"
  using inv_less [of "k - j" j] by simp

text \<open>A page without an id that is changed while another one is held, which is given back then.\<close>

lemma place_while_held:
  assumes inv: "inv n ((\<lambda>_. Free)(f := Writer)) t m'" and f: "f < num_frames t" "frame_metas t ! f = Loaded l v True"
    and h: "anon w" "m' 0 = None" "pool_view on_disk t w = Some hp" "page_id (uber_header hp) = 0" and v: "v \<noteq> w"
    and use: "writes_page N 0 w hp (Ok x) Q"
    and M: "M t = pbind (in_pool (fetch_page_at_loc_write pick K P w)) (\<lambda>g. with_guard P g (N g)) t"
  shows "\<exists>r u. with_guard P f M t = Some (r, u) \<and> idle n u m' \<and> keeps_pages on_disk (\<lambda>y. place y \<and> y \<noteq> w) t u \<and>
    (\<exists>pg. pool_view on_disk u w = Some pg \<and> (r = refused \<and> pg = hp \<or> r = Ok x \<and> Q pg))"
proof -
  let ?H = "(\<lambda>_. Free)(f := Writer)"
  have hl: "place w" by (rule places(3) [OF h(1)])
  have "ppage_map t w \<noteq> Some f" using ppage_iff [OF inv, of w f] f(2) v by simp
  then have free: "\<forall>g. ppage_map t w = Some g \<longrightarrow> ?H g = Free" by (metis fun_upd_other)
  from write_place_run [OF inv h free use]
  obtain r u where r: "pbind (in_pool (fetch_page_at_loc_write pick K P w)) (\<lambda>g. with_guard P g (N g)) t = Some (r, u)" "inv n ?H u m'"
    "r = refused \<and> keeps m' ?H t u \<or> r = Ok x \<and> (\<exists>pg. Q pg \<and> put_page m' ?H t u w pg)"
    by blast
  have held: "keeps_held ?H t u" using r(3) by (auto simp: keeps_def put_page_def)
  then have fu: "f < num_frames u" "frame_metas u ! f = Loaded l v True" using f by (auto simp: keeps_held_def)
  have "?H f \<noteq> Free" "frame_metas u ! f \<noteq> Vacant" "settled f u" using fu by (simp_all add: settled_def)
  note d = drop_run [OF r(2) fu(1) this]
  have run: "with_guard P f M t = Some (r, dropped f u)" using with_guard_run [of M, OF _ d(1)] r(1) M by simp
  have i: "idle n (dropped f u) m'" using d(2) unfolding nothing_held by simp
  from r(3) show ?thesis
  proof
    assume a: "r = refused \<and> keeps m' ?H t u"
    then have "pool_view on_disk u y = Some p" if "place y" "pool_view on_disk t y = Some p" for y p
      using that by (simp add: keeps_def keeps_pages_def)
    then show ?thesis using run i a h(3) hl by (auto simp: dropped_same keeps_pages_def)
  next
    assume a: "r = Ok x \<and> (\<exists>pg. Q pg \<and> put_page m' ?H t u w pg)"
    then obtain pg where pg: "Q pg" "put_page m' ?H t u w pg" by blast
    have "keeps_pages on_disk (\<lambda>y. place y \<and> y \<noteq> w) t (dropped f u)"
      using pg(2) by (simp add: put_page_def keeps_pages_def dropped_same)
    moreover have "pool_view on_disk (dropped f u) w = Some pg" using pg(2) by (simp add: put_page_def dropped_same)
    ultimately show ?thesis using run i a pg(1) by blast
  qed
qed

lemma guard_ret: "pbind (with_guard P g A) (\<lambda>_. ret y) = with_guard P g (pbind A (\<lambda>_. ret y))"
  by (rule ext) (auto simp: with_guard_def pbind_def lift_def ret_def split: option.splits outcome.splits prod.splits)

end

section \<open>Over the disk, with LRU-K\<close>

sublocale lruk_pool \<subseteq> tp: buffer_pool btree_disk_ops table_disk stored page_aligned file_start can_add "lruk_ops iter" lk_ok lk_cands lk_marked pick
  by unfold_locales (rule picks)

end
