(* ===== verification/HeapAccess.thy ===== *)
theory HeapAccess
  imports PoolAccess SlottedPage Visibility
begin

text \<open>
  \<open>src/src/accessor/heap.rs\<close> and the table operations of \<open>src/src/accessor/accessor_impl.rs\<close>: the rows of a
  table, kept in the heap pages of a file that form a chain from the file's header. The code runs over a
  buffer pool.
\<close>

text \<open>The first page of the chain, read from the file header.\<close>

definition first_page_here :: "nat \<Rightarrow> ('s, 'p, 'e, u32) access_prog" where
  "first_page_here f = from_frame f (\<lambda>b. bind_ok (fh_new b) (\<lambda>b.
     map_outcome hf_first_page (map_err (\<lambda>_. AccessPageCorruption ''heap file header unreadable'') (hfh_data b))))"

definition heap_first_page :: "(nat set \<Rightarrow> nat) \<Rightarrow> ('s, 'e) disk_ops \<Rightarrow> 'p policy_ops \<Rightarrow> u32 \<Rightarrow> ('s, 'p, 'e, u32) access_prog" where
  "heap_first_page pick K P file = pbind (in_pool (fetch_page_at_loc_read pick K P (header_loc file))) (\<lambda>f. with_guard P f
     (first_page_here f))"

section \<open>Scan\<close>

record heap_scan_state =
  hs_current :: u32
  hs_buffered :: "(byte list \<times> record_id) list"
  hs_idx :: nat
  hs_txn :: txn

text \<open>One slot: nothing, or the visible tuple in it without its header.\<close>

definition scan_slot :: "txn \<Rightarrow> u32 \<Rightarrow> mem_buf \<Rightarrow> nat \<Rightarrow> ('e, (byte list \<times> record_id) list) outcome" where
  "scan_slot txn l b i = (case hp_get_data i b of
       Ok data \<Rightarrow> if data = [] then Ok []
         else bind_ok (unwrap (is_visible data txn)) (\<lambda>v. if \<not> v then Ok []
           else if length data < TUPLE_HEADER_SIZE then Panic
           else Ok [(drop TUPLE_HEADER_SIZE data, \<lparr> rid_page = l, rid_slot = word_of_nat i \<rparr>)])
     | Err e \<Rightarrow> Ok []
     | Panic \<Rightarrow> Panic)"

definition scan_page :: "txn \<Rightarrow> u32 \<Rightarrow> heap_header \<Rightarrow> mem_buf \<Rightarrow> ('e, (byte list \<times> record_id) list) outcome" where
  "scan_page txn l header b = map_outcome concat (traverse (scan_slot txn l b) [0..<unat (num_slots header)])"

text \<open>A round of the stream's loop that reads a page: an error to yield, or the state to go on with.\<close>

type_synonym 'e scan_turn = "'e buffer_error accessor_error option \<times> heap_scan_state"

definition scan_here :: "heap_scan_state \<Rightarrow> nat \<Rightarrow> ('s, 'p, 'e, 'e scan_turn) access_prog" where
  "scan_here st f = pbind (from_frame f hp_new) (\<lambda>_. pbind (gets (frame_buf f)) (\<lambda>b.
     let st' = st\<lparr> hs_buffered := [], hs_idx := 0 \<rparr> in
     (case hp_header b of
        Ok header \<Rightarrow> pbind (lift (scan_page (hs_txn st) (hs_current st) header b)) (\<lambda>rows.
          ret (None, st'\<lparr> hs_buffered := rows, hs_current := next_page header \<rparr>))
      | Err e \<Rightarrow> ret (Some (AccessPageCorruption (''heap page '' @ decimal (unat (hs_current st)) @ '' header unreadable'')), st')
      | Panic \<Rightarrow> lift Panic)))"

definition scan_load :: "(nat set \<Rightarrow> nat) \<Rightarrow> ('s, 'e) disk_ops \<Rightarrow> 'p policy_ops \<Rightarrow> heap_scan_state \<Rightarrow>
    ('s, 'p, 'e, 'e scan_turn) access_prog" where
  "scan_load pick K P st = pbind (caught (fetch_page_read pick K P (hs_current st))) (\<lambda>r. (case r of
       Err e \<Rightarrow> ret (Some (BufferError e), st)
     | Panic \<Rightarrow> lift Panic
     | Ok f \<Rightarrow> with_guard P f (scan_here st f)))"

text \<open>The next item of the stream; the chain may be cyclic, so the loop may run forever.\<close>

type_synonym 'e scan_item = "('e buffer_error accessor_error, byte list \<times> record_id) outcome"

partial_function (option) scan_next ::
  "(nat set \<Rightarrow> nat) \<Rightarrow> ('s, 'e) disk_ops \<Rightarrow> 'p policy_ops \<Rightarrow> heap_scan_state \<Rightarrow> ('s, 'p) pool \<Rightarrow>
    (('e buffer_error accessor_error, 'e scan_item option \<times> heap_scan_state) outcome \<times> ('s, 'p) pool) option" where
  "scan_next pick K P st s =
     (if hs_idx st < length (hs_buffered st)
      then ret (Some (Ok (hs_buffered st ! hs_idx st)), st\<lparr> hs_idx := hs_idx st + 1 \<rparr>) s
      else if hs_current st = 0 then ret (None, st) s
      else pbind (scan_load pick K P st) (\<lambda>(err, st'). (case err of
          Some e \<Rightarrow> ret (Some (Err e), st')
        | None \<Rightarrow> scan_next pick K P st')) s)"

definition heap_scan :: "(nat set \<Rightarrow> nat) \<Rightarrow> ('s, 'e) disk_ops \<Rightarrow> 'p policy_ops \<Rightarrow> u32 \<Rightarrow> txn \<Rightarrow> ('s, 'p, 'e, heap_scan_state) access_prog" where
  "heap_scan pick K P file txn = pbind (heap_first_page pick K P file) (\<lambda>first.
     ret \<lparr> hs_current = first, hs_buffered = [], hs_idx = 0, hs_txn = txn \<rparr>)"

section \<open>Insert\<close>

text \<open>The try at one page: the slot, or the next page.\<close>

definition insert_here :: "byte list \<Rightarrow> u32 \<Rightarrow> nat \<Rightarrow> ('s, 'p, 'e, record_id + u32) access_prog" where
  "insert_here full l f = pbind (from_frame f hp_new) (\<lambda>_. pbind (caught (on_frame f (hp_insert full))) (\<lambda>r. (case r of
       Ok slot \<Rightarrow> pbind (mark_dirty f) (\<lambda>_. ret (Inl \<lparr> rid_page = l, rid_slot = slot \<rparr>))
     | Err e \<Rightarrow> pbind (caught (from_frame f hp_header)) (\<lambda>h. (case h of
           Ok header \<Rightarrow> ret (Inr (next_page header)) | Err e \<Rightarrow> ret (Inr 0) | Panic \<Rightarrow> lift Panic))
     | Panic \<Rightarrow> lift Panic)))"

partial_function (option) insert_chain ::
  "(nat set \<Rightarrow> nat) \<Rightarrow> ('s, 'e) disk_ops \<Rightarrow> 'p policy_ops \<Rightarrow> byte list \<Rightarrow> u32 \<Rightarrow> ('s, 'p) pool \<Rightarrow>
    (('e buffer_error accessor_error, record_id option) outcome \<times> ('s, 'p) pool) option" where
  "insert_chain pick K P full l s = (if l = 0 then ret None s
     else pbind (in_pool (fetch_page_write pick K P l)) (\<lambda>f.
       pbind (with_guard P f (insert_here full l f)) (\<lambda>r. (case r of
           Inl rid \<Rightarrow> ret (Some rid) | Inr next \<Rightarrow> insert_chain pick K P full next))) s)"

text \<open>No page has space: a new page becomes the first of the chain.\<close>

definition set_first_page :: "nat \<Rightarrow> u32 \<Rightarrow> ('s, 'p, 'e, unit) access_prog" where
  "set_first_page g l = pbind (from_frame g fh_new) (\<lambda>_. with_err (\<lambda>_. AccessPageCorruption ''heap file header unwritable'')
     (on_frame g (page_upd (hfh_data_mut (\<lambda>d. d\<lparr> hf_first_page := l \<rparr>)))))"

definition fill_new :: "byte list \<Rightarrow> u32 \<Rightarrow> nat \<Rightarrow> ('s, 'p, 'e, u16) access_prog" where
  "fill_new full first f =
     pbind (from_frame f hp_new) (\<lambda>_.
     pbind (with_err (\<lambda>_. AccessPageCorruption ''failed to init new heap page'') (on_frame f hp_init)) (\<lambda>_.
     pbind (with_err (\<lambda>_. AccessPageCorruption ''failed to access new heap page header'') (on_frame f (hp_header_mut (\<lambda>h. h\<lparr> next_page := first \<rparr>)))) (\<lambda>_.
     pbind (with_err (\<lambda>_. AccessPageCorruption ''insert into fresh page failed'') (on_frame f (hp_insert full))) (\<lambda>slot.
     pbind (mark_dirty f) (\<lambda>_. ret slot)))))"

definition insert_new :: "(nat set \<Rightarrow> nat) \<Rightarrow> ('s, 'e) disk_ops \<Rightarrow> 'p policy_ops \<Rightarrow> u32 \<Rightarrow> byte list \<Rightarrow> u32 \<Rightarrow> ('s, 'p, 'e, record_id) access_prog" where
  "insert_new pick K P file full first = pbind (in_pool (pool_new_page pick K P file)) (\<lambda>f. with_guard P f (
     pbind (in_pool (frame_lpage_id f)) (\<lambda>l.
     pbind (fill_new full first f) (\<lambda>slot.
     pbind (in_pool (fetch_page_at_loc_write pick K P (header_loc file))) (\<lambda>g. with_guard P g (
       pbind (set_first_page g l) (\<lambda>_. pbind (mark_dirty g) (\<lambda>_. ret \<lparr> rid_page = l, rid_slot = slot \<rparr>))))))))"

definition heap_insert :: "(nat set \<Rightarrow> nat) \<Rightarrow> ('s, 'e) disk_ops \<Rightarrow> 'p policy_ops \<Rightarrow> u32 \<Rightarrow> txn \<Rightarrow> byte list \<Rightarrow> ('s, 'p, 'e, record_id) access_prog" where
  "heap_insert pick K P file txn tuple = (let full = make_header (txn_id txn) @ tuple in
     pbind (heap_first_page pick K P file) (\<lambda>first.
     pbind (insert_chain pick K P full first) (\<lambda>r. (case r of
         Some rid \<Rightarrow> ret rid | None \<Rightarrow> insert_new pick K P file full first))))"

section \<open>Get and delete\<close>

definition not_visible :: "txn \<Rightarrow> byte list \<Rightarrow> ('b accessor_error, 'a) outcome" where
  "not_visible txn data = bind_ok (unwrap (read_xmin data)) (\<lambda>xmin. bind_ok (unwrap (read_xmax data)) (\<lambda>xmax.
     Err (TupleNotVisible (txn_id txn) xmin xmax)))"

text \<open>The checks that \<open>get\<close> and \<open>delete\<close> share.\<close>

definition visible_tuple :: "txn \<Rightarrow> (heap_page_error, byte list) outcome \<Rightarrow> ('b accessor_error, byte list) outcome" where
  "visible_tuple txn r = bind_ok (map_err (\<lambda>_. TupleNonExistent) r) (\<lambda>data.
     if data = [] \<or> length data < TUPLE_HEADER_SIZE then Err TupleNonExistent
     else bind_ok (unwrap (is_visible data txn)) (\<lambda>v. if v then Ok data else not_visible txn data))"

definition get_here :: "txn \<Rightarrow> nat \<Rightarrow> nat \<Rightarrow> ('s, 'p, 'e, byte list) access_prog" where
  "get_here txn i f = from_frame f (\<lambda>b. bind_ok (hp_new b) (\<lambda>b.
     bind_ok (visible_tuple txn (hp_get_data i b)) (\<lambda>data. Ok (drop TUPLE_HEADER_SIZE data))))"

definition heap_get :: "(nat set \<Rightarrow> nat) \<Rightarrow> ('s, 'e) disk_ops \<Rightarrow> 'p policy_ops \<Rightarrow> txn \<Rightarrow> record_id \<Rightarrow> ('s, 'p, 'e, byte list) access_prog" where
  "heap_get pick K P txn rid = pbind (in_pool (fetch_page_read pick K P (rid_page rid))) (\<lambda>f. with_guard P f
     (get_here txn (unat (rid_slot rid)) f))"

text \<open>\<open>get_data_mut\<close> gives the bytes the checks read, and through it the deleting transaction is written.\<close>

definition delete_here :: "txn \<Rightarrow> nat \<Rightarrow> nat \<Rightarrow> ('s, 'p, 'e, unit) access_prog" where
  "delete_here txn i f =
     pbind (from_frame f hp_new) (\<lambda>_.
     pbind (caught (on_frame f (pbind (hp_get_data_mut i (\<lambda>d. d)) (\<lambda>_ b. lift (hp_get_data i b) b)))) (\<lambda>r.
     pbind (lift (visible_tuple txn r)) (\<lambda>data.
     pbind (lift (unwrap (read_xmax data))) (\<lambda>existing_xmax.
     if existing_xmax \<noteq> 0 then fail (AlreadyDeleted existing_xmax)
     else pbind (lift (unwrap (write_xmax (txn_id txn) data))) (\<lambda>data'.
       pbind (with_err (\<lambda>_. TupleNonExistent) (on_frame f (hp_get_data_mut i (\<lambda>_. data')))) (\<lambda>_.
       mark_dirty f))))))"

definition heap_delete :: "(nat set \<Rightarrow> nat) \<Rightarrow> ('s, 'e) disk_ops \<Rightarrow> 'p policy_ops \<Rightarrow> txn \<Rightarrow> record_id \<Rightarrow> ('s, 'p, 'e, unit) access_prog" where
  "heap_delete pick K P txn rid = pbind (in_pool (fetch_page_write pick K P (rid_page rid))) (\<lambda>f. with_guard P f
     (delete_here txn (unat (rid_slot rid)) f))"

section \<open>The accessor's table operations\<close>

definition table_file_id :: "catalog_cache \<Rightarrow> u32 \<Rightarrow> ('b accessor_error, u32) outcome" where
  "table_file_id c oid = map_outcome table_file (get_table_by_oid c oid)"

definition table_scan where
  "table_scan pick K P c txn oid = pbind (lift (table_file_id c oid)) (\<lambda>file. heap_scan pick K P file txn)"

definition table_insert where
  "table_insert pick K P c txn oid tuple = pbind (lift (table_file_id c oid)) (\<lambda>file. heap_insert pick K P file txn tuple)"

definition table_get where
  "table_get pick K P c txn oid rid = pbind (lift (table_file_id c oid)) (\<lambda>_. heap_get pick K P txn rid)"

definition table_delete where
  "table_delete pick K P c txn oid rid = pbind (lift (table_file_id c oid)) (\<lambda>_. heap_delete pick K P txn rid)"

end
