(* ===== verification/HeapVersions.thy ===== *)
theory HeapVersions
  imports HeapAccess
begin

text \<open>
  The rows of a table as versions, with the transactions that created and deleted them; what a heap page
  holds, and what the operations of \<open>src/src/accessor/heap.rs\<close> do with one page in a frame of the pool;
  the chain of pages as a predicate over the pages by their ids.
\<close>

section \<open>Versions of rows\<close>

record version =
  created_by :: u64
  deleted_by :: u64
  row_data :: "byte list"

definition version_bytes :: "version \<Rightarrow> byte list" where
  "version_bytes v = u64_bytes (created_by v) @ u64_bytes (deleted_by v) @ row_data v"

definition sees_version :: "txn \<Rightarrow> version \<Rightarrow> bool" where
  "sees_version txn v \<longleftrightarrow> sees txn (created_by v) (deleted_by v)"

definition read_version :: "txn \<Rightarrow> version \<Rightarrow> ('b accessor_error, byte list) outcome" where
  "read_version txn v = (if sees_version txn v then Ok (row_data v) else Err (TupleNotVisible (txn_id txn) (created_by v) (deleted_by v)))"

definition delete_version :: "txn \<Rightarrow> version \<Rightarrow> ('b accessor_error, unit) outcome \<times> version" where
  "delete_version txn v = (if \<not> sees_version txn v then (Err (TupleNotVisible (txn_id txn) (created_by v) (deleted_by v)), v)
     else if deleted_by v \<noteq> 0 then (Err (AlreadyDeleted (deleted_by v)), v)
     else (Ok (), v\<lparr> deleted_by := txn_id txn \<rparr>))"

lemma version_bytes_facts [simp]:
  "16 \<le> length (version_bytes v)" "drop 16 (version_bytes v) = row_data v"
  "read_xmin (version_bytes v) = Ok (created_by v)" "read_xmax (version_bytes v) = Ok (deleted_by v)" "version_bytes v \<noteq> []"
  "length (version_bytes v) = 16 + length (row_data v)"
  by (auto simp: version_bytes_def read_xmin_def read_xmax_def bytes_at_def dest: arg_cong [of _ _ length])

lemma version_visible [simp]: "is_visible (version_bytes v) txn = Ok (sees_version txn v)"
  by (simp add: is_visible_sees sees_version_def)

lemma version_written [simp]: "write_xmax x (version_bytes v) = Ok (version_bytes (v\<lparr> deleted_by := x \<rparr>))"
  by (simp add: write_xmax_def version_bytes_def put_at_def)

lemma new_version: "make_header x @ d = version_bytes \<lparr> created_by = x, deleted_by = 0, row_data = d \<rparr>"
proof -
  have "le_enc n 0 = replicate n 0" for n by (induction n) simp_all
  then have "u64_bytes (0 :: u64) = replicate 8 0" by (simp add: u64_bytes_def)
  then show ?thesis by (simp add: version_bytes_def make_header_def put_at_def)
qed

lemma visible_tuple_bytes:
  "visible_tuple txn (Ok (version_bytes v)) = (if sees_version txn v then Ok (version_bytes v)
     else Err (TupleNotVisible (txn_id txn) (created_by v) (deleted_by v)))"
  by (simp add: visible_tuple_def not_visible_def TUPLE_HEADER_SIZE_def)

section \<open>The versions in a page\<close>

text \<open>At any address a frame may have.\<close>

definition heap_page_holds :: "page \<Rightarrow> version list \<Rightarrow> u32 \<Rightarrow> bool" where
  "heap_page_holds pg vs next \<longleftrightarrow> (let b = \<lparr> buf_addr = 0, buf_bytes = pg \<rparr> in
     hp_inv b \<and> hp_tuples b = map version_bytes vs \<and> next_page (hp_head b) = next)"

lemma hp_at_frame:
  "hp_inv \<lparr> buf_addr = f * PAGE_BUF_SIZE, buf_bytes = pg \<rparr> = hp_inv \<lparr> buf_addr = 0, buf_bytes = pg \<rparr>"
  "hp_tuples \<lparr> buf_addr = a, buf_bytes = pg \<rparr> = hp_tuples \<lparr> buf_addr = 0, buf_bytes = pg \<rparr>"
  "hp_head \<lparr> buf_addr = a, buf_bytes = pg \<rparr> = hp_head \<lparr> buf_addr = 0, buf_bytes = pg \<rparr>"
  by (auto simp: hp_inv_def hp_tuples_def hp_head_def hp_count_def hp_start_def raw_slot_def hp_tuple_def PAGE_BUF_SIZE_def fun_eq_iff)

lemma holds_frame:
  assumes "heap_page_holds pg vs next" "b = \<lparr> buf_addr = f * PAGE_BUF_SIZE, buf_bytes = pg \<rparr>"
  shows "hp_inv b" "hp_tuples b = map version_bytes vs" "next_page (hp_head b) = next" "hp_count b = length vs" "aligned_page b"
proof -
  show i: "hp_inv b" and t: "hp_tuples b = map version_bytes vs" and "next_page (hp_head b) = next"
    using assms hp_at_frame(1) [of f pg] hp_at_frame(2,3) [of "f * PAGE_BUF_SIZE" pg] by (simp_all add: heap_page_holds_def Let_def)
  show "hp_count b = length vs" using arg_cong [OF t, of length] by simp
  show "aligned_page b" using i by (rule hp_inv_aligned)
qed

lemma frame_holds:
  assumes "hp_inv b" "hp_tuples b = map version_bytes vs" "next_page (hp_head b) = next"
  shows "heap_page_holds (buf_bytes b) vs next" "length (buf_bytes b) = PAGE_BUF_SIZE"
proof -
  obtain a pg where b: "b = \<lparr> buf_addr = a, buf_bytes = pg \<rparr>" by (cases b) simp
  have "hp_inv \<lparr> buf_addr = 0, buf_bytes = pg \<rparr>"
    using assms(1) by (auto simp: b hp_inv_def hp_head_def hp_count_def hp_start_def raw_slot_def)
  then show "heap_page_holds (buf_bytes b) vs next"
    using assms hp_at_frame(2,3) [of a pg] by (simp add: heap_page_holds_def Let_def b)
  show "length (buf_bytes b) = PAGE_BUF_SIZE" using assms(1) by (simp add: hp_inv_def PAGE_BUF_SIZE_def)
qed

lemma holds_few: "heap_page_holds pg vs next \<Longrightarrow> length vs \<le> 1018"
  using holds_frame(1,4) [of pg vs "next" _ 0] hp_inv_count by (metis mult_zero_left)

lemma holds_data:
  assumes "heap_page_holds pg vs next" "b = \<lparr> buf_addr = f * PAGE_BUF_SIZE, buf_bytes = pg \<rparr>"
  shows "hp_get_data i b = (if i < length vs then Ok (version_bytes (vs ! i)) else Err (InvalidIndex i))"
  using holds_frame [OF assms] hp_get_data_spec [of b i] by simp

section \<open>What the operations do with one page\<close>

lemma frame_buf_page: "pool_buf u ! f = pg \<Longrightarrow> frame_buf f u = \<lparr> buf_addr = f * PAGE_BUF_SIZE, buf_bytes = pg \<rparr>"
  by (simp add: frame_buf_def guard_page_def)

lemma holds_new: "heap_page_holds pg vs next \<Longrightarrow> hp_new \<lparr> buf_addr = a, buf_bytes = pg \<rparr> = Ok \<lparr> buf_addr = a, buf_bytes = pg \<rparr>"
  by (simp add: heap_page_holds_def Let_def hp_inv_def hp_new_def PAGE_BUF_SIZE_def)

lemma get_use:
  assumes "heap_page_holds pg vs next" "pool_buf u ! f = pg"
  shows "get_here txn i f u = Some (if i < length vs then read_version txn (vs ! i) else Err TupleNonExistent, u)"
  using assms(1) by (simp add: get_here_def from_frame_def frame_buf_page [OF assms(2)] holds_new lift_def holds_data [OF assms(1) refl]
      visible_tuple_bytes read_version_def TUPLE_HEADER_SIZE_def) (simp add: visible_tuple_def)

text \<open>The identity through \<open>get_data_mut\<close> leaves the page.\<close>

lemma untouched:
  assumes "hp_inv b" "i < hp_count b"
  shows "hp_get_data_mut i (\<lambda>d. d) b = Some (Ok (), b)"
proof -
  have r: "soff (raw_slot b i) + slen (raw_slot b i) \<le> 4096" "length (buf_bytes b) = 4096"
    using assms by (simp_all add: hp_inv_def)
  have "mut_prefix (soff (raw_slot b i)) (bytes_at (soff (raw_slot b i)) (slen (raw_slot b i)) (buf_bytes b)) b = b"
    using r by (simp add: mut_prefix_def put_at_bytes_at_id)
  then show ?thesis
    using assms r by (simp add: hp_get_data_mut_def pbind_def lift_def hp_get_slot_spec hp_inv_aligned hp_inv_count gets_def modify_def
        get_range_def Let_def soff_def slen_def)
qed

lemma on_frame_same: "m (frame_buf f u) = Some (r, frame_buf f u) \<Longrightarrow> on_frame f m u = Some (r, u)"
  by (simp add: on_frame_def frame_buf_def guard_page_def)

lemma frame_new: "heap_page_holds pg vs next \<Longrightarrow> pool_buf u ! f = pg \<Longrightarrow> from_frame f hp_new u = Some (Ok \<lparr> buf_addr = f * PAGE_BUF_SIZE, buf_bytes = pg \<rparr>, u)"
  by (simp add: from_frame_def frame_buf_page holds_new lift_def)

lemma delete_reads:
  assumes h: "heap_page_holds pg vs next" and u: "pool_buf u ! f = pg"
  shows "on_frame f (pbind (hp_get_data_mut i (\<lambda>d. d)) (\<lambda>_ b. lift (hp_get_data i b) b)) u =
    Some (if i < length vs then Ok (version_bytes (vs ! i)) else Err (InvalidIndex i), u)"
proof -
  note b = frame_buf_page [OF u] and i = holds_frame [OF h refl, of f]
  have "hp_get_data_mut i (\<lambda>d. d) (frame_buf f u) = Some (if i < length vs then Ok () else Err (InvalidIndex i), frame_buf f u)"
    using untouched [OF i(1)] hp_get_data_mut_spec [OF i(1), of "\<lambda>d. d" i] i(4) by (simp add: b)
  then show ?thesis by (intro on_frame_same) (simp add: pbind_def lift_def b holds_data [OF h refl])
qed

lemma delete_here_start:
  assumes h: "heap_page_holds pg vs next" and u: "pool_buf u ! f = pg"
  shows "delete_here txn i f u = (if i < length vs then
      if \<not> sees_version txn (vs ! i) then Some (Err (TupleNotVisible (txn_id txn) (created_by (vs ! i)) (deleted_by (vs ! i))), u)
      else if deleted_by (vs ! i) \<noteq> 0 then Some (Err (AlreadyDeleted (deleted_by (vs ! i))), u)
      else pbind (with_err (\<lambda>_. TupleNonExistent)
        (on_frame f (hp_get_data_mut i (\<lambda>_. version_bytes ((vs ! i)\<lparr> deleted_by := txn_id txn \<rparr>))))) (\<lambda>_. mark_dirty f) u
    else Some (Err TupleNonExistent, u))"
proof -
  have c: "caught (on_frame f (pbind (hp_get_data_mut i (\<lambda>d. d)) (\<lambda>_ b. lift (hp_get_data i b) b))) u =
      Some (Ok (if i < length vs then Ok (version_bytes (vs ! i)) else Err (InvalidIndex i)), u)"
    by (simp add: caught_def delete_reads [OF h u])
  have none: "visible_tuple txn (Err e :: (heap_page_error, byte list) outcome) = Err TupleNonExistent" for e
    by (simp add: visible_tuple_def)
  show ?thesis
    unfolding delete_here_def
    by (simp only: pbind_Ok frame_new [OF h u] c) (simp add: pbind_def lift_def visible_tuple_bytes fail_def none)
qed

text \<open>An attempt that fails leaves the page; one that succeeds writes the transaction into the row.\<close>

lemma delete_refused:
  assumes h: "heap_page_holds pg vs next" and u: "pool_buf u ! f = pg" and v: "i < length vs" "delete_version txn (vs ! i) = (Err e, v)"
  shows "delete_here txn i f u = Some (Err e, u)"
  using v by (auto simp: delete_here_start [OF h u] delete_version_def split: if_splits)

lemma delete_missing:
  assumes h: "heap_page_holds pg vs next" and u: "pool_buf u ! f = pg" and v: "length vs \<le> i"
  shows "delete_here txn i f u = Some (Err TupleNonExistent, u)"
  using v by (simp add: delete_here_start [OF h u])

lemma hold_delete:
  assumes h: "heap_page_holds pg vs next" and v: "i < length vs"
  obtains b where "hp_get_data_mut i (\<lambda>_. version_bytes ((vs ! i)\<lparr> deleted_by := x \<rparr>)) \<lparr> buf_addr = f * PAGE_BUF_SIZE, buf_bytes = pg \<rparr> = Some (Ok (), b)"
    "heap_page_holds (buf_bytes b) (vs[i := (vs ! i)\<lparr> deleted_by := x \<rparr>]) next" "length (buf_bytes b) = PAGE_BUF_SIZE"
proof -
  let ?b = "\<lparr> buf_addr = f * PAGE_BUF_SIZE, buf_bytes = pg \<rparr>" and ?w = "(vs ! i)\<lparr> deleted_by := x \<rparr>"
  note i = holds_frame [OF h refl, of f]
  have "length (version_bytes ?w) = length (hp_tuples ?b ! i)" using v i(2) by simp
  from hp_get_data_mut_spec [OF i(1), of "\<lambda>_. version_bytes ?w", OF this]
  obtain b where b: "hp_get_data_mut i (\<lambda>_. version_bytes ?w) ?b = Some (Ok (), b)" "hp_inv b"
    "hp_tuples b = (map version_bytes vs)[i := version_bytes ?w]" "hp_head b = hp_head ?b"
    using v i(2,4) by auto
  have "hp_tuples b = map version_bytes (vs[i := ?w])" "next_page (hp_head b) = next" using b(3,4) i(3) by (simp_all add: map_update)
  from that [OF b(1) frame_holds [OF b(2) this]] show ?thesis .
qed

definition page_room :: "page \<Rightarrow> version \<Rightarrow> bool" where
  "page_room pg w \<longleftrightarrow> (let b = \<lparr> buf_addr = 0, buf_bytes = pg \<rparr> in 24 + hp_count b * 4 + length (version_bytes w) + 4 \<le> hp_start b)"

lemma hold_full:
  assumes h: "heap_page_holds pg vs next" and r: "\<not> page_room pg w" and b: "b = \<lparr> buf_addr = f * PAGE_BUF_SIZE, buf_bytes = pg \<rparr>"
  shows "hp_insert (version_bytes w) b = Some (Err NoSpace, b)"
  using hp_insert_spec [OF holds_frame(1) [OF h b], of "version_bytes w"] r hp_at_frame(3) [of "f * PAGE_BUF_SIZE" pg]
  by (simp add: b page_room_def Let_def hp_start_def hp_count_def)

lemma hold_insert:
  assumes h: "heap_page_holds pg vs next" and r: "page_room pg w" and b: "b = \<lparr> buf_addr = f * PAGE_BUF_SIZE, buf_bytes = pg \<rparr>"
  obtains b' where "hp_insert (version_bytes w) b = Some (Ok (word_of_nat (length vs)), b')"
    "heap_page_holds (buf_bytes b') (vs @ [w]) next" "length (buf_bytes b') = PAGE_BUF_SIZE"
proof -
  note i = holds_frame [OF h b]
  have "\<not> hp_start b < 24 + hp_count b * 4 + length (version_bytes w) + 4"
    using r hp_at_frame(3) [of "f * PAGE_BUF_SIZE" pg] by (simp add: b page_room_def Let_def hp_start_def hp_count_def)
  then obtain b' where b': "hp_insert (version_bytes w) b = Some (Ok (word_of_nat (hp_count b)), b')" "hp_inv b'"
    "hp_tuples b' = hp_tuples b @ [version_bytes w]" "next_page (hp_head b') = next_page (hp_head b)"
    using hp_insert_spec [OF i(1), of "version_bytes w"] by auto
  have "hp_tuples b' = map version_bytes (vs @ [w])" "next_page (hp_head b') = next" using b'(3,4) i by simp_all
  from that [OF _ frame_holds [OF b'(2) this]] b'(1) i(4) show ?thesis by simp
qed

text \<open>A new page with one row, at the head of the chain.\<close>

lemma header_next:
  assumes "hp_inv b" "hp_tuples b = []"
  shows "\<exists>b'. hp_header_mut (\<lambda>h. h\<lparr> next_page := l \<rparr>) b = Some (Ok (), b') \<and> hp_inv b' \<and> hp_tuples b' = [] \<and>
    next_page (hp_head b') = l \<and> hp_start b' = hp_start b \<and> buf_addr b' = buf_addr b"
proof -
  let ?b = "mut_prefix 16 (heap_header_to_bytes ((hp_head b)\<lparr> next_page := l \<rparr>)) b"
  note al = hp_inv_aligned [OF assms(1)]
  have c: "hp_count b = 0" using arg_cong [OF assms(2), of length] by simp
  then have h: "hp_head ?b = (hp_head b)\<lparr> next_page := l \<rparr>" "hp_count ?b = 0" "hp_start ?b = hp_start b"
    using al by (simp_all add: hp_count_def hp_start_def)
  have "aligned_page ?b" by (rule aligned_mut_prefix [OF al]) simp
  then have "hp_inv ?b" using assms(1) h c by (simp add: hp_inv_def aligned_page_def)
  then show ?thesis using h by (intro exI [of _ ?b]) (simp add: hp_header_mut_run [OF al] hp_tuples_def)
qed

lemma filled_page:
  assumes al: "aligned_page b" and w: "length (row_data w) \<le> 4052"
  obtains b1 b2 b3 where "hp_init b = Some (Ok (), b1)" "hp_header_mut (\<lambda>h. h\<lparr> next_page := l \<rparr>) b1 = Some (Ok (), b2)"
    "hp_insert (version_bytes w) b2 = Some (Ok 0, b3)" "buf_addr b1 = buf_addr b" "buf_addr b2 = buf_addr b"
    "heap_page_holds (buf_bytes b3) [w] l" "length (buf_bytes b3) = PAGE_BUF_SIZE"
proof -
  obtain b1 where b1: "hp_init b = Some (Ok (), b1)" "hp_inv b1" "hp_tuples b1 = []" "hp_free_space_remaining b1 = Ok 4072"
    using hp_init_spec [OF al] by auto
  have a1: "buf_addr b1 = buf_addr b" using b1(1) by (auto simp: hp_init_def hp_header_mut_run [OF al])
  have c1: "hp_count b1 = 0" using arg_cong [OF b1(3), of length] by simp
  have st: "hp_start b1 = 4096" using b1(4) hp_free_space_spec [OF hp_inv_aligned [OF b1(2)]] c1 by simp
  obtain b2 where b2: "hp_header_mut (\<lambda>h. h\<lparr> next_page := l \<rparr>) b1 = Some (Ok (), b2)" "hp_inv b2" "hp_tuples b2 = []"
    "next_page (hp_head b2) = l" "hp_start b2 = hp_start b1" "buf_addr b2 = buf_addr b1"
    using header_next [OF b1(2,3)] by blast
  have c2: "hp_count b2 = 0" using arg_cong [OF b2(3), of length] by simp
  obtain b3 where b3: "hp_insert (version_bytes w) b2 = Some (Ok 0, b3)" "hp_inv b3" "hp_tuples b3 = [version_bytes w]" "next_page (hp_head b3) = l"
    using hp_insert_spec [OF b2(2), of "version_bytes w"] b2 st c2 w by auto
  have "hp_tuples b3 = map version_bytes [w]" using b3(3) by simp
  from that [OF b1(1) b2(1) b3(1) a1 _ frame_holds [OF b3(2) this b3(4)]] b2(6) a1 show ?thesis by simp
qed

text \<open>The header page of the file.\<close>

definition header_page_holds :: "page \<Rightarrow> u32 \<Rightarrow> bool" where
  "header_page_holds pg first \<longleftrightarrow> length pg = PAGE_BUF_SIZE \<and> page_id (uber_header pg) = 0 \<and>
     hf_first_page (heap_file_data_of_bytes (bytes_at 16 24 pg)) = first"

lemma header_frame:
  assumes "header_page_holds pg first" "b = \<lparr> buf_addr = f * PAGE_BUF_SIZE, buf_bytes = pg \<rparr>"
  shows "fh_new b = Ok b" "is_page (buf_bytes b)" "buf_addr b mod 4 = 0" "hfh_data b = Ok (heap_file_data_of_bytes (bytes_at 16 24 pg))"
proof -
  show p: "is_page (buf_bytes b)" "buf_addr b mod 4 = 0" "fh_new b = Ok b"
    using assms by (simp_all add: header_page_holds_def is_page_def fh_new_def PAGE_BUF_SIZE_def mult_mod_right)
  show "hfh_data b = Ok (heap_file_data_of_bytes (bytes_at 16 24 pg))" using hfh_data_Ok [OF p(1,2)] assms(2) by simp
qed

lemma first_page_use:
  assumes "header_page_holds pg first" "pool_buf u ! f = pg"
  shows "first_page_here f u = Some (Ok first, u)"
  using assms(1) by (simp add: first_page_here_def from_frame_def lift_def header_frame [OF assms(1) frame_buf_page [OF assms(2)]])
    (simp add: header_page_holds_def)

text \<open>The rows of a page that a transaction sees, in the order of the slots.\<close>

definition visible_rows :: "txn \<Rightarrow> u32 \<Rightarrow> version list \<Rightarrow> (byte list \<times> record_id) list" where
  "visible_rows txn l vs = concat (map (\<lambda>i. if sees_version txn (vs ! i)
     then [(row_data (vs ! i), \<lparr> rid_page = l, rid_slot = word_of_nat i \<rparr>)] else []) [0..<length vs])"

lemma page_rows:
  assumes h: "heap_page_holds pg vs next" and b: "b = \<lparr> buf_addr = f * PAGE_BUF_SIZE, buf_bytes = pg \<rparr>"
  shows "scan_page txn l (hp_head b) b = Ok (visible_rows txn l vs)"
proof -
  have n: "unat (num_slots (hp_head b)) = length vs" using holds_frame(4) [OF h b] by (simp add: hp_count_def)
  have slots: "traverse (scan_slot txn l b) [0..<length vs] = Ok (map (\<lambda>i. if sees_version txn (vs ! i)
     then [(row_data (vs ! i), \<lparr> rid_page = l, rid_slot = word_of_nat i \<rparr>)] else []) [0..<length vs])"
    by (rule traverse_Ok) (simp add: scan_slot_def holds_data [OF h b] TUPLE_HEADER_SIZE_def)
  show ?thesis by (simp add: scan_page_def n visible_rows_def slots)
qed

lemma scan_use:
  assumes h: "heap_page_holds pg vs next" and u: "pool_buf u ! f = pg"
  shows "scan_here st f u = Some (Ok (None, st\<lparr> hs_buffered := visible_rows (hs_txn st) (hs_current st) vs, hs_idx := 0, hs_current := next \<rparr>), u)"
proof -
  note b = frame_buf_page [OF u]
  have "hp_header (frame_buf f u) = Ok (hp_head (frame_buf f u))" using holds_frame(5) [OF h b] by (rule hp_header_Ok)
  then show ?thesis using holds_frame(3) [OF h b]
    by (simp add: scan_here_def pbind_Ok frame_new [OF h u] gets_def page_rows [OF h b] Let_def lift_def ret_def)
qed

text \<open>The chain of pages, with the versions in each.\<close>

definition chain_first :: "(u32 \<times> version list) list \<Rightarrow> u32" where
  "chain_first ps = (case ps of [] \<Rightarrow> 0 | (l, vs) # _ \<Rightarrow> l)"

fun heap_chain :: "(u32 \<Rightarrow> page option) \<Rightarrow> (u32 \<times> version list) list \<Rightarrow> bool" where
  "heap_chain V [] \<longleftrightarrow> True"
| "heap_chain V ((l, vs) # ps) \<longleftrightarrow> (\<exists>pg. V l = Some pg \<and> heap_page_holds pg vs (chain_first ps)) \<and> heap_chain V ps"

definition set_versions :: "u32 \<Rightarrow> version list \<Rightarrow> (u32 \<times> version list) list \<Rightarrow> (u32 \<times> version list) list" where
  "set_versions l vs = map (\<lambda>p. if fst p = l then (l, vs) else p)"

lemma set_versions_ids [simp]: "map fst (set_versions l vs ps) = map fst ps" "chain_first (set_versions l vs ps) = chain_first ps"
  "length (set_versions l vs ps) = length ps"
  by (auto simp: set_versions_def chain_first_def split: list.split)

lemma set_versions_keys [simp]: "fst ` set (set_versions l vs ps) = fst ` set ps"
  by (metis set_versions_ids(1) set_map)

lemma set_versions_Cons: "set_versions l vs (p # ps) = (if fst p = l then (l, vs) else p) # set_versions l vs ps"
  by (simp add: set_versions_def)

lemma set_versions_other: "l \<notin> fst ` set ps \<Longrightarrow> set_versions l vs ps = ps"
  by (induction ps) (auto simp: set_versions_def)

lemma set_versions_same: "distinct (map fst ps) \<Longrightarrow> (l, vs) \<in> set ps \<Longrightarrow> set_versions l vs ps = ps"
  by (auto simp: set_versions_def eq_key_imp_eq_value intro!: map_idI)

lemma chain_mem: "heap_chain V ps \<Longrightarrow> (l, vs) \<in> set ps \<Longrightarrow> \<exists>pg next. V l = Some pg \<and> heap_page_holds pg vs next"
  by (induction ps) (auto, metis)

lemma chain_ids: "heap_chain V ps \<Longrightarrow> l \<in> fst ` set ps \<Longrightarrow> V l \<noteq> None"
  using chain_mem by fastforce

lemma holds_next: "heap_page_holds pg vs next \<Longrightarrow> heap_page_holds pg us next' \<Longrightarrow> next = next'"
  by (simp add: heap_page_holds_def Let_def)

lemma heap_chain_same: "heap_chain V ps \<Longrightarrow> (\<And>l pg. l \<in> fst ` set ps \<Longrightarrow> V l = Some pg \<Longrightarrow> W l = Some pg) \<Longrightarrow> heap_chain W ps"
  by (induction ps) auto

text \<open>One page of the chain is replaced by one that leads on to the same page.\<close>

lemma chain_put:
  assumes "heap_chain V ps" "distinct (map fst ps)" "(l, vs) \<in> set ps" "V l = Some pg" "heap_page_holds pg vs next"
    "W l = Some pg'" "heap_page_holds pg' us next" "\<And>k p. k \<noteq> l \<Longrightarrow> V k = Some p \<Longrightarrow> W k = Some p"
  shows "heap_chain W (set_versions l us ps)"
  using assms(1-3)
proof (induction ps)
  case (Cons p ps)
  obtain k ks where p: "p = (k, ks)" by (cases p)
  have tail: "heap_chain V ps" "distinct (map fst ps)" "k \<notin> fst ` set ps" using Cons.prems by (auto simp: p)
  show ?case
  proof (cases "k = l")
    case True
    have "set_versions l us ps = ps" using tail(3) True by (simp add: set_versions_other)
    moreover have "heap_chain W ps"
      by (rule heap_chain_same [OF tail(1)]) (use tail(3) True assms(8) in metis)
    moreover have "next = chain_first ps" using Cons.prems(1) assms(4,5) True holds_next by (auto simp: p)
    ultimately show ?thesis using assms(6,7) True by (simp add: p set_versions_Cons)
  next
    case False
    then have "(l, vs) \<in> set ps" using Cons.prems(3) by (simp add: p)
    with Cons.IH [OF tail(1,2)] False Cons.prems(1) assms(8) show ?thesis by (auto simp: p set_versions_Cons)
  qed
qed simp

text \<open>A client that takes all items of a scan, up to the first error.\<close>

partial_function (option) scan_collect ::
  "(nat set \<Rightarrow> nat) \<Rightarrow> ('s, 'e) disk_ops \<Rightarrow> 'p policy_ops \<Rightarrow> (byte list \<times> record_id) list \<Rightarrow> heap_scan_state \<Rightarrow> ('s, 'p) pool \<Rightarrow>
    (('e buffer_error accessor_error, (byte list \<times> record_id) list) outcome \<times> ('s, 'p) pool) option" where
  "scan_collect pick K P items st s = pbind (scan_next pick K P st) (\<lambda>r. (case fst r of
       None \<Rightarrow> ret items
     | Some (Ok item) \<Rightarrow> scan_collect pick K P (items @ [item]) (snd r)
     | Some (Err e) \<Rightarrow> fail e
     | Some Panic \<Rightarrow> lift Panic)) s"

lemma collect_buffered:
  "hs_idx st \<le> length (hs_buffered st) \<Longrightarrow> scan_collect pick K P items st s =
     scan_collect pick K P (items @ drop (hs_idx st) (hs_buffered st)) (st\<lparr> hs_idx := length (hs_buffered st) \<rparr>) s"
proof (induction "length (hs_buffered st) - hs_idx st" arbitrary: st items)
  case 0
  then have "st\<lparr> hs_idx := length (hs_buffered st) \<rparr> = st" by simp
  then show ?case using 0 by simp
next
  case (Suc n)
  let ?st = "st\<lparr> hs_idx := hs_idx st + 1 \<rparr>"
  have lt: "hs_idx st < length (hs_buffered st)" using Suc.hyps(2) by linarith
  have "scan_next pick K P st s = Some (Ok (Some (Ok (hs_buffered st ! hs_idx st)), ?st), s)"
    by (subst scan_next.simps) (simp add: lt ret_def)
  then have "scan_collect pick K P items st s = scan_collect pick K P (items @ [hs_buffered st ! hs_idx st]) ?st s"
    by (subst scan_collect.simps) (simp add: pbind_Ok)
  then show ?case using Suc.hyps(1) [of ?st] Suc.hyps(2) lt Cons_nth_drop_Suc [OF lt, symmetric] by simp
qed

end
