(* ===== verification/HeapTable.thy ===== *)
theory HeapTable
  imports AccessRules HeapVersions
begin

text \<open>
  A table in a buffer pool: what the operations of \<open>src/src/accessor/heap.rs\<close> answer and leave, for any disk
  manager and any eviction policy that keep their contracts. A fetch may be refused for want of a frame;
  then nothing has changed.
\<close>

section \<open>The same over a pool\<close>

context buffer_pool
begin

text \<open>A call that changes the page, and then the mark.\<close>

lemma rewritten_run:
  assumes u: "f < length (frame_metas u)" "frame_metas u ! f = Loaded l v d"
    and m: "m (frame_buf f u) = Some (Ok a, b)"
  shows "pbind (with_err g (on_frame f m)) (\<lambda>x. pbind (mark_dirty f) (\<lambda>_. ret (h x))) u =
    Some (Ok (h a), rewritten f l v (buf_bytes b) u)"
  using u m by (simp add: pbind_Ok with_err_def on_frame_to marked_frame_run rewritten_def ret_def)

lemma delete_writes:
  assumes h: "heap_page_holds pg vs next" and v: "i < length vs" "delete_version txn (vs ! i) = ((Ok () :: ('e buffer_error accessor_error, unit) outcome), w)"
  shows "writes_page (delete_here txn i) l v pg (Ok () :: ('e buffer_error accessor_error, unit) outcome) (\<lambda>pg'. heap_page_holds pg' (vs[i := w]) next)"
  unfolding writes_page_def
proof (intro allI impI)
  fix f and u :: "('s, 'p) pool" and d
  assume u: "f < length (pool_buf u)" "f < length (frame_metas u)" "frame_metas u ! f = Loaded l v d" "pool_buf u ! f = pg"
  have w: "sees_version txn (vs ! i)" "deleted_by (vs ! i) = 0" "w = (vs ! i)\<lparr> deleted_by := txn_id txn \<rparr>"
    using v(2) by (auto simp: delete_version_def split: if_splits)
  obtain b where b: "hp_get_data_mut i (\<lambda>_. version_bytes w) (frame_buf f u) = Some (Ok (), b)"
    "heap_page_holds (buf_bytes b) (vs[i := w]) next" "length (buf_bytes b) = PAGE_BUF_SIZE"
    using hold_delete [OF h v(1), of "txn_id txn" f] w(3) frame_buf_page [OF u(4)] by auto
  have "delete_here txn i f u = Some (Ok (), rewritten f l v (buf_bytes b) u)"
    using v(1) w u(2,3) b(1) by (simp add: delete_here_start [OF h u(4)] pbind_Ok with_err_def on_frame_to marked_frame_run rewritten_def)
  then show "\<exists>pg'. delete_here txn i f u = Some (Ok (), rewritten f l v pg' u) \<and> length pg' = PAGE_BUF_SIZE \<and> heap_page_holds pg' (vs[i := w]) next"
    using b(2,3) by blast
qed

lemma insert_full:
  assumes h: "heap_page_holds pg vs next" and r: "\<not> page_room pg w" and u: "pool_buf u ! f = pg"
  shows "insert_here (version_bytes w) l f u = Some (Ok (Inr next), u)"
proof -
  note b = frame_buf_page [OF u]
  have "on_frame f (hp_insert (version_bytes w)) u = Some (Err NoSpace, u)"
    by (rule on_frame_same) (simp add: hold_full [OF h r refl] b)
  moreover have "hp_header (frame_buf f u) = Ok (hp_head (frame_buf f u))" using holds_frame(5) [OF h b] by (rule hp_header_Ok)
  ultimately show ?thesis using holds_frame(3) [OF h b]
    by (simp add: insert_here_def pbind_Ok frame_new [OF h u] caught_def) (simp add: pbind_def caught_def from_frame_def lift_def ret_def)
qed

lemma insert_writes:
  assumes h: "heap_page_holds pg vs next" and r: "page_room pg w"
  shows "writes_page (insert_here (version_bytes w) k) l v pg (Ok (Inl \<lparr> rid_page = k, rid_slot = word_of_nat (length vs) \<rparr>) :: ('e buffer_error accessor_error, record_id + u32) outcome)
    (\<lambda>pg'. heap_page_holds pg' (vs @ [w]) next)"
  unfolding writes_page_def
proof (intro allI impI)
  fix f and u :: "('s, 'p) pool" and d
  assume u: "f < length (pool_buf u)" "f < length (frame_metas u)" "frame_metas u ! f = Loaded l v d" "pool_buf u ! f = pg"
  obtain b where b: "hp_insert (version_bytes w) (frame_buf f u) = Some (Ok (word_of_nat (length vs)), b)"
    "heap_page_holds (buf_bytes b) (vs @ [w]) next" "length (buf_bytes b) = PAGE_BUF_SIZE"
    by (rule hold_insert [OF h r frame_buf_page [OF u(4)]])
  have "insert_here (version_bytes w) k f u = Some (Ok (Inl \<lparr> rid_page = k, rid_slot = word_of_nat (length vs) \<rparr>), rewritten f l v (buf_bytes b) u)"
    using u(2,3) b(1)
    by (simp add: insert_here_def pbind_Ok frame_new [OF h u(4)] caught_def on_frame_to marked_frame_run rewritten_def ret_def)
  then show "\<exists>pg'. insert_here (version_bytes w) k f u = Some (Ok (Inl \<lparr> rid_page = k, rid_slot = word_of_nat (length vs) \<rparr>), rewritten f l v pg' u) \<and>
      length pg' = PAGE_BUF_SIZE \<and> heap_page_holds pg' (vs @ [w]) next"
    using b(2,3) by blast
qed

lemma fill_writes:
  assumes w: "length (row_data w) \<le> 4052" and pg: "length pg = PAGE_BUF_SIZE"
  shows "writes_page (fill_new (version_bytes w) first) l v pg (Ok 0 :: ('e buffer_error accessor_error, u16) outcome) (\<lambda>pg'. heap_page_holds pg' [w] first)"
  unfolding writes_page_def
proof (intro allI impI)
  fix f and u :: "('s, 'p) pool" and d
  assume u: "f < length (pool_buf u)" "f < length (frame_metas u)" "frame_metas u ! f = Loaded l v d" "pool_buf u ! f = pg"
  note b = frame_buf_page [OF u(4)]
  have al: "aligned_page (frame_buf f u)" using pg by (simp add: b aligned_page_def PAGE_BUF_SIZE_def)
  obtain b1 b2 b3 where r: "hp_init (frame_buf f u) = Some (Ok (), b1)" "hp_header_mut (\<lambda>h. h\<lparr> next_page := first \<rparr>) b1 = Some (Ok (), b2)"
    "hp_insert (version_bytes w) b2 = Some (Ok 0, b3)" "buf_addr b1 = buf_addr (frame_buf f u)" "buf_addr b2 = buf_addr (frame_buf f u)"
    "heap_page_holds (buf_bytes b3) [w] first" "length (buf_bytes b3) = PAGE_BUF_SIZE"
    by (rule filled_page [OF al w])
  have new: "from_frame f hp_new u = Some (Ok (frame_buf f u), u)" using pg by (simp add: from_frame_def b hp_new_def lift_def)
  have at: "frame_buf f (u\<lparr> pool_buf := (pool_buf u)[f := buf_bytes c] \<rparr>) = c" if "buf_addr c = buf_addr (frame_buf f u)" for c
    using that u(1) by (simp add: frame_buf_def guard_page_def)
  have "fill_new (version_bytes w) first f u = Some (Ok 0, rewritten f l v (buf_bytes b3) u)"
    using u(2,3) r at [OF r(4)] at [OF r(5)]
    by (simp add: fill_new_def pbind_Ok new with_err_def on_frame_to marked_frame_run rewritten_def ret_def)
  then show "\<exists>pg'. fill_new (version_bytes w) first f u = Some (Ok 0, rewritten f l v pg' u) \<and>
      length pg' = PAGE_BUF_SIZE \<and> heap_page_holds pg' [w] first"
    using r(6,7) by blast
qed

lemma header_writes:
  assumes h: "header_page_holds pg first"
  shows "writes_page (\<lambda>g. pbind (set_first_page g k) (\<lambda>_. pbind (mark_dirty g) (\<lambda>_. ret x))) l v pg (Ok x :: ('e buffer_error accessor_error, 'a) outcome)
    (\<lambda>pg'. header_page_holds pg' k)"
  unfolding writes_page_def
proof (intro allI impI)
  fix f and u :: "('s, 'p) pool" and d
  assume u: "f < length (pool_buf u)" "f < length (frame_metas u)" "frame_metas u ! f = Loaded l v d" "pool_buf u ! f = pg"
  note b = frame_buf_page [OF u(4)] and i = header_frame [OF h frame_buf_page [OF u(4)]]
  let ?d = "heap_file_data_of_bytes (bytes_at 16 24 pg)"
  have "length (hf_magic (?d\<lparr> hf_first_page := k \<rparr>)) = 8"
    using i(2) by (simp add: heap_file_data_of_bytes_def b is_page_def PAGE_BUF_SIZE_def)
  from hfh_data_mut_Ok [OF i(2,3,4), of "\<lambda>d. d\<lparr> hf_first_page := k \<rparr>", OF this]
  obtain b' where b': "hfh_data_mut (\<lambda>d. d\<lparr> hf_first_page := k \<rparr>) (frame_buf f u) = Ok b'" "is_page (buf_bytes b')" "buf_addr b' = buf_addr (frame_buf f u)"
    "hfh_data b' = Ok (?d\<lparr> hf_first_page := k \<rparr>)" "uber_header (buf_bytes b') = uber_header pg"
    by (auto simp: b)
  have "heap_file_data_of_bytes (bytes_at 16 24 (buf_bytes b')) = ?d\<lparr> hf_first_page := k \<rparr>"
    using b'(4) hfh_data_Ok [OF b'(2)] i(3) b'(3) by simp
  then have "header_page_holds (buf_bytes b') k" "length (buf_bytes b') = PAGE_BUF_SIZE"
    using h b'(2,5) by (simp_all add: header_page_holds_def is_page_def)
  moreover have "pbind (set_first_page f k) (\<lambda>_. pbind (mark_dirty f) (\<lambda>_. ret x)) u = Some (Ok x, rewritten f l v (buf_bytes b') u)"
    using u(2,3) b'(1)
    by (simp add: pbind_Ok set_first_page_def from_frame_def lift_def i(1) with_err_def on_frame_to page_upd_def marked_frame_run rewritten_def ret_def)
  ultimately show "\<exists>pg'. pbind (set_first_page f k) (\<lambda>_. pbind (mark_dirty f) (\<lambda>_. ret x)) u = Some (Ok x, rewritten f l v pg' u) \<and>
      length pg' = PAGE_BUF_SIZE \<and> header_page_holds pg' k"
    by blast
qed

section \<open>The table in a pool\<close>

definition heap_table :: "('s, 'p) pool \<Rightarrow> (u32 \<rightharpoonup> ppage_id) \<Rightarrow> u32 \<Rightarrow> (u32 \<times> version list) list \<Rightarrow> bool" where
  "heap_table s m file ps \<longleftrightarrow> anon (header_loc file) \<and> m 0 = None \<and>
     (\<exists>pg. pool_view on_disk s (header_loc file) = Some pg \<and> header_page_holds pg (chain_first ps)) \<and>
     heap_chain (page_at s m) ps \<and> distinct (map fst ps)"

lemma chain_stays: "rep d m \<Longrightarrow> stays m s t \<Longrightarrow> heap_chain (page_at s m) ps \<Longrightarrow> heap_chain (page_at t m) ps"
  by (erule heap_chain_same) (rule keeps_page_at(1))

lemma table_stays: "rep d m \<Longrightarrow> stays m s t \<Longrightarrow> heap_table s m file ps \<Longrightarrow> heap_table t m file ps"
  using chain_stays keeps_page_at(2) unfolding heap_table_def by blast

lemma table_put:
  assumes rep: "rep d m" and t: "heap_table s m file ps" "(l, vs) \<in> set ps"
    and pg: "page_at s m l = Some pg" "heap_page_holds pg vs next" "m l = Some v" and put: "puts m s t v pg'" "heap_page_holds pg' us next"
  shows "heap_table t m file (set_versions l us ps)"
proof -
  have "heap_chain (page_at t m) (set_versions l us ps)"
    by (rule chain_put [where V = "page_at s m"]) (use t pg put put_page_at [OF rep put(1) pg(3)] in \<open>auto simp: heap_table_def\<close>)
  then show ?thesis using t(1) put_page_at(3) [OF rep put(1) pg(3)] unfolding heap_table_def by (simp, blast)
qed

lemma table_page:
  assumes "heap_table s m file ps" "(l, vs) \<in> set ps"
  obtains v pg "next" where "m l = Some v" "pool_view on_disk s v = Some pg" "page_at s m l = Some pg" "heap_page_holds pg vs next" "l \<noteq> 0"
proof -
  obtain pg "next" where pg: "page_at s m l = Some pg" "heap_page_holds pg vs next"
    using assms chain_mem unfolding heap_table_def by blast
  then obtain v where v: "m l = Some v" "pool_view on_disk s v = Some pg" by (auto simp: page_at_Some)
  have "l \<noteq> 0" using assms(1) v(1) by (auto simp: heap_table_def)
  with that v pg show ?thesis by blast
qed

lemma first_page_run:
  assumes inv: "idle (Suc n) s m" and t: "heap_table s m file ps"
  shows "\<exists>r t. heap_first_page pick K P file s = Some (r, t) \<and> idle n t m \<and> stays m s t \<and> (r = refused \<or> r = Ok (chain_first ps))"
proof -
  obtain pg where pg: "pool_view on_disk s (header_loc file) = Some pg" "header_page_holds pg (chain_first ps)"
    using t by (auto simp: heap_table_def)
  have h: "anon (header_loc file)" "m 0 = None" "page_id (uber_header pg) = 0"
    using t pg(2) by (simp_all add: heap_table_def header_page_holds_def)
  show ?thesis unfolding heap_first_page_def
    by (rule read_place_run [OF inv h(1,2) pg(1) h(3) none_held]) (simp add: first_page_use [OF pg(2)])
qed

lemma get_run:
  assumes inv: "idle (Suc n) s m" and t: "heap_table s m file ps" "(rid_page rid, vs) \<in> set ps" "unat (rid_slot rid) < length vs"
  shows "\<exists>r t. heap_get pick K P txn rid s = Some (r, t) \<and> idle n t m \<and> stays m s t \<and>
    (r = refused \<or> r = read_version txn (vs ! unat (rid_slot rid)))"
proof -
  obtain v pg "next" where pg: "m (rid_page rid) = Some v" "pool_view on_disk s v = Some pg" "heap_page_holds pg vs next"
    using table_page [OF t(1,2)] by metis
  show ?thesis unfolding heap_get_def
    by (rule fetched_read_run [OF inv pg(1,2) none_held]) (use t(3) in \<open>simp add: get_use [OF pg(3)]\<close>)
qed

lemma delete_run:
  assumes inv: "idle n s m" and t: "heap_table s m file ps" "(rid_page rid, vs) \<in> set ps" "unat (rid_slot rid) < length vs"
    and d: "delete_version txn (vs ! unat (rid_slot rid)) = (a, w)"
  shows "\<exists>r t. heap_delete pick K P txn rid s = Some (r, t) \<and> idle n t m \<and>
    (r = refused \<and> heap_table t m file ps \<or> r = a \<and> heap_table t m file (set_versions (rid_page rid) (vs[unat (rid_slot rid) := w]) ps)) \<and>
    (can_grow (bp_disk s) m \<longrightarrow> can_grow (bp_disk t) m)"
proof -
  let ?i = "unat (rid_slot rid)"
  obtain v pg "next" where pg: "m (rid_page rid) = Some v" "pool_view on_disk s v = Some pg" "page_at s m (rid_page rid) = Some pg" "heap_page_holds pg vs next"
    using table_page [OF t(1,2)] by metis
  note rep = invD(1) [OF inv]
  show ?thesis
  proof (cases a)
    case (Ok x)
    have d': "delete_version txn (vs ! ?i) = ((Ok () :: ('e buffer_error accessor_error, unit) outcome), w)" using d Ok by simp
    from fetched_write_run [OF inv pg(1,2) none_held delete_writes [OF pg(4) t(3) d']]
    obtain r t where r: "heap_delete pick K P txn rid s = Some (r, t)" "idle n t m"
      "r = refused \<and> stays m s t \<or> r = Ok () \<and> (\<exists>pg'. heap_page_holds pg' (vs[?i := w]) next \<and> puts m s t v pg')"
      unfolding heap_delete_def by blast
    from r(3) show ?thesis
      using r(1,2) Ok table_stays [OF rep _ t(1)] table_put [OF rep t(1,2) pg(3,4,1)] by (auto simp: keeps_def put_page_def)
  next
    case (Err e)
    have w: "w = vs ! ?i" using d Err by (auto simp: delete_version_def split: if_splits)
    have "distinct (map fst ps)" using t(1) by (simp add: heap_table_def)
    then have same: "set_versions (rid_page rid) (vs[?i := w]) ps = ps" using t(2) by (simp add: w set_versions_same)
    obtain r t where r: "heap_delete pick K P txn rid s = Some (r, t)" "idle n t m" "stays m s t" "r = refused \<or> r = Err e"
      unfolding heap_delete_def using look_page_run [OF inv pg(1,2) none_held, of "delete_here txn ?i" "Err e"] delete_refused [OF pg(4) _ t(3)] d Err by blast
    then show ?thesis using Err same table_stays [OF rep r(3) t(1)] by (auto simp: keeps_def)
  next
    case Panic
    then show ?thesis using d by (auto simp: delete_version_def split: if_splits)
  qed
qed

text \<open>The walk along the chain: the version goes to the first page with room for it.\<close>

lemma insert_chain_run:
  assumes "idle n s m" "heap_table s m file qs" "heap_chain (page_at s m) ps" "set ps \<subseteq> set qs"
  shows "\<exists>r t. insert_chain pick K P (version_bytes w) (chain_first ps) s = Some (r, t) \<and> idle n t m \<and> (can_grow (bp_disk s) m \<longrightarrow> can_grow (bp_disk t) m) \<and>
    (r \<in> {refused, Ok None} \<and> heap_table t m file qs \<or>
     (\<exists>l vs. (l, vs) \<in> set qs \<and> r = Ok (Some \<lparr> rid_page = l, rid_slot = word_of_nat (length vs) \<rparr>) \<and> length vs < 1018 \<and>
        heap_table t m file (set_versions l (vs @ [w]) qs)))"
  using assms
proof (induction ps arbitrary: s)
  case Nil
  have "insert_chain pick K P (version_bytes w) (chain_first []) s = Some (Ok None, s)"
    by (subst insert_chain.simps) (simp add: chain_first_def ret_def)
  then show ?case using Nil.prems by blast
next
  case (Cons p ps)
  obtain l vs where p: "p = (l, vs)" by (cases p)
  have qs: "(l, vs) \<in> set qs" using Cons.prems(4) by (simp add: p)
  obtain pg where pg: "page_at s m l = Some pg" "heap_page_holds pg vs (chain_first ps)" using Cons.prems(3) by (auto simp: p)
  obtain v where v: "m l = Some v" "pool_view on_disk s v = Some pg" using pg(1) by (auto simp: page_at_Some)
  note rep = invD(1) [OF Cons.prems(1)]
  have "l \<noteq> 0" using Cons.prems(2) v(1) by (auto simp: heap_table_def)
  then have step: "insert_chain pick K P (version_bytes w) (chain_first (p # ps)) s =
      pbind (pbind (in_pool (fetch_page_write pick K P l)) (\<lambda>f. with_guard P f (insert_here (version_bytes w) l f)))
        (\<lambda>r. case r of Inl rid \<Rightarrow> ret (Some rid) | Inr next \<Rightarrow> insert_chain pick K P (version_bytes w) next) s"
    by (subst insert_chain.simps) (simp add: p chain_first_def pbind_assoc)
  show ?case
  proof (cases "page_room pg w")
    case True
    from fetched_write_run [OF Cons.prems(1) v none_held insert_writes [OF pg(2) True]]
    obtain r t where r: "pbind (in_pool (fetch_page_write pick K P l)) (\<lambda>f. with_guard P f (insert_here (version_bytes w) l f)) s = Some (r, t)" "idle n t m"
      "r = refused \<and> stays m s t \<or> r = Ok (Inl \<lparr> rid_page = l, rid_slot = word_of_nat (length vs) \<rparr>) \<and>
        (\<exists>pg'. heap_page_holds pg' (vs @ [w]) (chain_first ps) \<and> puts m s t v pg')"
      by blast
    from r(3) show ?thesis
    proof
      assume "r = refused \<and> stays m s t"
      then show ?thesis using r(1,2) step table_stays [OF rep _ Cons.prems(2)] by (simp add: pbind_Err keeps_def)
    next
      assume ok: "r = Ok (Inl \<lparr> rid_page = l, rid_slot = word_of_nat (length vs) \<rparr>) \<and> (\<exists>pg'. heap_page_holds pg' (vs @ [w]) (chain_first ps) \<and> puts m s t v pg')"
      then obtain pg' where pg': "heap_page_holds pg' (vs @ [w]) (chain_first ps)" "puts m s t v pg'" by blast
      have "length vs < 1018" using holds_few [OF pg'(1)] by simp
      moreover have "can_grow (bp_disk s) m \<longrightarrow> can_grow (bp_disk t) m" using pg'(2) by (simp add: put_page_def)
      moreover note t = table_put [OF rep Cons.prems(2) qs pg(1,2) v(1) pg'(2,1)] calculation
      show ?thesis using ok r(1,2) step t qs by (simp add: pbind_Ok ret_def) blast
    qed
  next
    case False
    obtain r t where r: "pbind (in_pool (fetch_page_write pick K P l)) (\<lambda>f. with_guard P f (insert_here (version_bytes w) l f)) s = Some (r, t)" "idle n t m"
      "stays m s t" "r = refused \<or> r = Ok (Inr (chain_first ps))"
      using look_page_run [OF Cons.prems(1) v none_held, of "insert_here (version_bytes w) l" "Ok (Inr (chain_first ps))"] insert_full [OF pg(2) False] by blast
    note keep = table_stays [OF rep r(3) Cons.prems(2)]
    from r(4) show ?thesis
    proof
      assume "r = refused"
      then show ?thesis using r(1-3) step keep by (simp add: pbind_Err keeps_def)
    next
      assume nx: "r = Ok (Inr (chain_first ps))"
      have "heap_chain (page_at t m) ps" "set ps \<subseteq> set qs" using chain_stays [OF rep r(3)] Cons.prems(3,4) by (simp_all add: p)
      moreover have "can_grow (bp_disk s) m \<longrightarrow> can_grow (bp_disk t) m" using r(3) by (simp add: keeps_def)
      ultimately show ?thesis using Cons.IH [OF r(2) keep] nx r(1) step by (simp add: pbind_Ok) blast
    qed
  qed
qed

text \<open>A new page, which goes to the head of the chain; it is held while the file's header is changed.\<close>

lemma table_grows:
  assumes rep: "rep d (m(l \<mapsto> v))" and t: "heap_table s m file ps" and l: "m l = None" "l \<noteq> 0"
    and keep: "\<And>w p. place w \<Longrightarrow> w \<noteq> v \<Longrightarrow> w \<noteq> header_loc file \<Longrightarrow> pool_view on_disk s w = Some p \<Longrightarrow> pool_view on_disk u w = Some p"
  shows "heap_chain (page_at u (m(l \<mapsto> v))) ps" "l \<notin> fst ` set ps"
proof -
  let ?m = "m(l \<mapsto> v)"
  have ids: "m k \<noteq> None" if "k \<in> fst ` set ps" for k
    using chain_ids [of "page_at s m" ps k] t that by (auto simp: heap_table_def page_at_def split: option.splits)
  then show "l \<notin> fst ` set ps" using l(1) by blast
  have "heap_chain (page_at s m) ps" using t by (simp add: heap_table_def)
  then show "heap_chain (page_at u ?m) ps"
  proof (rule heap_chain_same)
    fix k pg assume k: "k \<in> fst ` set ps" "page_at s m k = Some pg"
    then obtain w where w: "m k = Some w" "pool_view on_disk s w = Some pg" by (auto simp: page_at_Some)
    then have k': "?m k = Some w" "k \<noteq> l" using l(1) by auto
    have "w \<noteq> v" using places(1) [OF rep] k' by (metis domI fun_upd_same inj_onD)
    moreover have "place w" "\<not> anon w" using places(2) [OF rep k'(1)] by simp_all
    moreover have "w \<noteq> header_loc file" using t \<open>\<not> anon w\<close> by (auto simp: heap_table_def)
    ultimately show "page_at u ?m k = Some pg" using keep w(2) k'(1) by (auto simp: page_at_Some)
  qed
qed

text \<open>What is left after the new page is filled and the header is fetched and changed.\<close>

lemma link_run:
  assumes inv: "inv n ((\<lambda>_. Free)(f := Writer)) t m'" and f: "f < num_frames t" "frame_metas t ! f = Loaded l v True"
    and h: "anon (header_loc file)" "m' 0 = None" "pool_view on_disk t (header_loc file) = Some hp" "header_page_holds hp first" and v: "v \<noteq> header_loc file"
    and M: "M t = pbind (in_pool (fetch_page_at_loc_write pick K P (header_loc file))) (\<lambda>g. with_guard P g
      (pbind (set_first_page g l) (\<lambda>_. pbind (mark_dirty g) (\<lambda>_. ret x)))) t"
  shows "\<exists>r u. with_guard P f M t = Some (r, u) \<and> idle n u m' \<and> keeps_pages on_disk (\<lambda>w. place w \<and> w \<noteq> header_loc file) t u \<and>
    (\<exists>pg. pool_view on_disk u (header_loc file) = Some pg \<and> (r = refused \<and> pg = hp \<or> r = Ok x \<and> header_page_holds pg l))"
proof -
  have "page_id (uber_header hp) = 0" using h(4) by (simp add: header_page_holds_def)
  moreover have "writes_page (\<lambda>g. pbind (set_first_page g l) (\<lambda>_. pbind (mark_dirty g) (\<lambda>_. ret x))) 0 (header_loc file) hp
      (Ok x :: ('e buffer_error accessor_error, 'a) outcome) (\<lambda>pg. header_page_holds pg l)" by (rule header_writes [OF h(4)])
  ultimately show ?thesis using place_while_held [where hp = hp and Q = "\<lambda>pg. header_page_holds pg l" and x = x and M = M, OF inv f h(1-3) _ v _ M] by blast
qed

lemma frame_id_run: "f < length (frame_metas t) \<Longrightarrow> frame_metas t ! f = Loaded l v d \<Longrightarrow> in_pool (frame_lpage_id f) t = Some (Ok l, t)"
  by (simp add: with_err_def frame_lpage_id_def ret_def)

lemma insert_new_run:
  assumes inv: "idle n s m" and t: "heap_table s m file ps" and grow: "can_grow (bp_disk s) m" and w: "length (row_data w) \<le> 4052"
  shows "\<exists>r t m'. insert_new pick K P file (version_bytes w) (chain_first ps) s = Some (r, t) \<and> idle n t m' \<and>
    (r = refused \<and> heap_table t m' file ps \<or>
     (\<exists>l. l \<notin> fst ` set ps \<and> r = Ok \<lparr> rid_page = l, rid_slot = 0 \<rparr> \<and> heap_table t m' file ((l, [w]) # ps)))"
proof -
  let ?H = "\<lambda>f. (\<lambda>_. Free)(f := Writer)"
  obtain hp where hp: "pool_view on_disk s (header_loc file) = Some hp" "header_page_holds hp (chain_first ps)"
    using t by (auto simp: heap_table_def)
  have h: "anon (header_loc file)" "m 0 = None" "place (header_loc file)" using t places(3) by (auto simp: heap_table_def)
  obtain l v t where l: "m l = None" "l \<noteq> 0" "v \<notin> ran m"
    and cases: "pool_new_page pick K P file s = Some (Err (EvictorError NoVictimFound), t) \<and> idle n t (m(l \<mapsto> v)) \<and> keeps_pages on_disk place s t \<or>
      (\<exists>f. pool_new_page pick K P file s = Some (Ok f, t) \<and> inv n (?H f) t (m(l \<mapsto> v)) \<and> f < num_frames t \<and>
        frame_metas t ! f = Loaded l v False \<and> pool_buf t ! f = replicate PAGE_BUF_SIZE 0 \<and>
        (\<forall>w p. place w \<longrightarrow> w \<noteq> v \<longrightarrow> pool_view on_disk s w = Some p \<longrightarrow> pool_view on_disk t w = Some p))"
    using new_page_run [OF inv grow, where fno = "file"] by blast
  let ?m = "m(l \<mapsto> v)"
  have z: "?m 0 = None" using h(2) l(2) by simp
  have d: "distinct (map fst ps)" using t by (simp add: heap_table_def)
  from cases show ?thesis
  proof (elim disjE exE conjE)
    assume a: "pool_new_page pick K P file s = Some (Err (EvictorError NoVictimFound), t)" "idle n t ?m" "keeps_pages on_disk place s t"
    have rep: "rep (bp_disk t) ?m" by (rule invD(1) [OF a(2)])
    have keep: "pool_view on_disk t w = Some p" if "place w" "pool_view on_disk s w = Some p" for w p
      using a(3) that by (simp add: keeps_pages_def)
    have "heap_table t ?m file ps"
      using table_grows(1) [OF rep t l(1,2) keep] keep [OF h(3) hp(1)] hp(2) h(1) z d by (auto simp: heap_table_def)
    moreover have "insert_new pick K P file (version_bytes w) (chain_first ps) s = Some (refused, t)"
      using a(1) by (simp add: insert_new_def pbind_Err with_err_def)
    ultimately show ?thesis using a(2) by blast
  next
    fix f assume a: "pool_new_page pick K P file s = Some (Ok f, t)" "inv n (?H f) t ?m" "f < num_frames t"
      "frame_metas t ! f = Loaded l v False" "pool_buf t ! f = replicate PAGE_BUF_SIZE 0"
      "\<forall>w p. place w \<longrightarrow> w \<noteq> v \<longrightarrow> pool_view on_disk s w = Some p \<longrightarrow> pool_view on_disk t w = Some p"
    have rep: "rep (bp_disk t) ?m" by (rule invD(1) [OF a(2)])
    have v: "v \<noteq> header_loc file" using places(2) [OF rep, of l v] h(1) by auto
    have len: "f < length (pool_buf t)" "f < length (frame_metas t)" using a(3) lengths [OF a(2)] by simp_all
    have zeros: "length (replicate PAGE_BUF_SIZE (0 :: byte)) = PAGE_BUF_SIZE" by simp
    obtain np where np: "fill_new (version_bytes w) (chain_first ps) f t = Some ((Ok 0 :: ('e buffer_error accessor_error, u16) outcome), rewritten f l v np t)" "length np = PAGE_BUF_SIZE"
      "heap_page_holds np [w] (chain_first ps)"
      using fill_writes [OF w zeros, of "chain_first ps" l v] len a(4,5) unfolding writes_page_def by blast
    let ?t = "rewritten f l v np t"
    note rw = rewritten_inv [OF a(2-4) np(2)]
    have f: "f < num_frames ?t" "frame_metas ?t ! f = Loaded l v True" using a(3) len by (simp_all add: rewritten_def)
    have hv: "pool_view on_disk ?t (header_loc file) = Some hp" using a(6) h(3) hp(1) v by (simp add: rw(2))
    let ?M = "pbind (in_pool (frame_lpage_id f)) (\<lambda>l. pbind (fill_new (version_bytes w) (chain_first ps) f) (\<lambda>slot.
      pbind (in_pool (fetch_page_at_loc_write pick K P (header_loc file))) (\<lambda>g. with_guard P g (
        pbind (set_first_page g l) (\<lambda>_. pbind (mark_dirty g) (\<lambda>_. ret \<lparr> rid_page = l, rid_slot = slot \<rparr>))))))"
    let ?M' = "\<lambda>_. ?M t"
    have M: "?M' ?t = pbind (in_pool (fetch_page_at_loc_write pick K P (header_loc file))) (\<lambda>g. with_guard P g
      (pbind (set_first_page g l) (\<lambda>_. pbind (mark_dirty g) (\<lambda>_. ret \<lparr> rid_page = l, rid_slot = 0 \<rparr>)))) ?t"
      by (simp add: pbind_Ok frame_id_run [OF len(2) a(4)] np(1))
    obtain r u where r: "with_guard P f ?M' ?t = Some (r, u)" "idle n u ?m" "keeps_pages on_disk (\<lambda>w. place w \<and> w \<noteq> header_loc file) ?t u"
      and last: "\<exists>pg. pool_view on_disk u (header_loc file) = Some pg \<and> (r = refused \<and> pg = hp \<or> r = Ok \<lparr> rid_page = l, rid_slot = 0 \<rparr> \<and> header_page_holds pg l)"
      using link_run [OF rw(1) f h(1) z hv hp(2) v, where M = ?M' and x = "\<lparr> rid_page = l, rid_slot = 0 \<rparr>", OF M] by blast
    have run: "insert_new pick K P file (version_bytes w) (chain_first ps) s = Some (r, u)"
      using a(1) r(1) by (simp add: insert_new_def pbind_Ok with_err_def) (simp add: with_guard_def)
    have keep: "pool_view on_disk u x = Some p" if "place x" "x \<noteq> v" "x \<noteq> header_loc file" "pool_view on_disk s x = Some p" for x p
      using a(6) r(3) that by (simp add: rw(2) keeps_pages_def)
    have rep': "rep (bp_disk u) ?m" by (rule invD(1) [OF r(2)])
    have old: "heap_chain (page_at u ?m) ps" "l \<notin> fst ` set ps"
      by (rule table_grows [OF rep' t l(1,2)]; rule keep; assumption)+
    have "place v" using places(2) [OF rep, of l v] by simp
    then have new: "page_at u ?m l = Some np" using r(3) v by (simp add: rw(2) keeps_pages_def page_at_def)
    from last show ?thesis
    proof (elim exE conjE disjE)
      fix pg assume b: "pool_view on_disk u (header_loc file) = Some pg" "r = refused" "pg = hp"
      have "heap_table u ?m file ps" unfolding heap_table_def using old(1) hp(2) h(1) z d b(1,3) by blast
      then show ?thesis using run r(2) b(2) by blast
    next
      fix pg assume b: "pool_view on_disk u (header_loc file) = Some pg" "r = Ok \<lparr> rid_page = l, rid_slot = 0 \<rparr>" "header_page_holds pg l"
      have "heap_chain (page_at u ?m) ((l, [w]) # ps)" "distinct (map fst ((l, [w]) # ps))" "chain_first ((l, [w]) # ps) = l"
        using old new np(3) d by (simp_all add: chain_first_def)
      then have "heap_table u ?m file ((l, [w]) # ps)" unfolding heap_table_def using h(1) z b(1,3) by metis
      then show ?thesis using run r(2) b(2) old(2) by blast
    qed
  qed
qed

lemma heap_insert_run:
  assumes inv: "idle (Suc n) s m" and t: "heap_table s m file ps" and d: "length d \<le> 4052" and w: "w = \<lparr> created_by = txn_id txn, deleted_by = 0, row_data = d \<rparr>"
    and grow: "can_grow (bp_disk s) m"
  shows "\<exists>r t m'. heap_insert pick K P file txn d s = Some (r, t) \<and> idle n t m' \<and>
    (r = refused \<and> heap_table t m' file ps \<or>
     (\<exists>l vs. r = Ok \<lparr> rid_page = l, rid_slot = word_of_nat (length vs) \<rparr> \<and> (l, vs) \<in> set ps \<and> length vs < 1018 \<and>
        heap_table t m' file (set_versions l (vs @ [w]) ps)) \<or>
     (\<exists>l. r = Ok \<lparr> rid_page = l, rid_slot = 0 \<rparr> \<and> l \<notin> fst ` set ps \<and> heap_table t m' file ((l, [w]) # ps)))"
proof -
  have full: "make_header (txn_id txn) @ d = version_bytes w" by (simp add: new_version w)
  let ?rest = "\<lambda>first. pbind (insert_chain pick K P (version_bytes w) first) (\<lambda>r. case r of
         Some rid \<Rightarrow> ret rid | None \<Rightarrow> insert_new pick K P file (version_bytes w) first)"
  have run: "heap_insert pick K P file txn d s = pbind (heap_first_page pick K P file) ?rest s"
    by (simp add: heap_insert_def full Let_def)
  obtain r1 t1 where 1: "heap_first_page pick K P file s = Some (r1, t1)" "idle n t1 m" "stays m s t1" "r1 = refused \<or> r1 = Ok (chain_first ps)"
    using first_page_run [OF inv t] by blast
  have t1: "heap_table t1 m file ps" by (rule table_stays [OF invD(1) [OF inv] 1(3) t])
  from 1(4) show ?thesis
  proof
    assume "r1 = refused"
    then show ?thesis using run 1(1,2) t1 by (simp add: pbind_Err) blast
  next
    assume r1: "r1 = Ok (chain_first ps)"
    have c: "heap_chain (page_at t1 m) ps" "set ps \<subseteq> set ps" using t1 by (simp_all add: heap_table_def)
    obtain r2 t2 where 2: "insert_chain pick K P (version_bytes w) (chain_first ps) t1 = Some (r2, t2)" "idle n t2 m"
      "can_grow (bp_disk t1) m \<longrightarrow> can_grow (bp_disk t2) m"
      "r2 \<in> {refused, Ok None} \<and> heap_table t2 m file ps \<or>
       (\<exists>l vs. (l, vs) \<in> set ps \<and> r2 = Ok (Some \<lparr> rid_page = l, rid_slot = word_of_nat (length vs) \<rparr>) \<and> length vs < 1018 \<and>
          heap_table t2 m file (set_versions l (vs @ [w]) ps))"
      using insert_chain_run [OF 1(2) t1 c, of w] by blast
    have run2: "heap_insert pick K P file txn d s = ?rest (chain_first ps) t1" using run 1(1) r1 by (simp add: pbind_Ok)
    from 2(4) show ?thesis
    proof (elim disjE conjE exE)
      assume a: "r2 \<in> {refused, Ok None}" "heap_table t2 m file ps"
      have "can_grow (bp_disk t2) m" using grow 1(3) 2(3) by (simp add: keeps_def)
      from insert_new_run [OF 2(2) a(2) this, of w] d w
      obtain r t m' where new: "insert_new pick K P file (version_bytes w) (chain_first ps) t2 = Some (r, t)" "idle n t m'"
        "r = refused \<and> heap_table t m' file ps \<or>
         (\<exists>l. l \<notin> fst ` set ps \<and> r = Ok \<lparr> rid_page = l, rid_slot = 0 \<rparr> \<and> heap_table t m' file ((l, [w]) # ps))"
        by auto
      show ?thesis
      proof (cases "r2 = refused")
        case True
        then show ?thesis using run2 2(1,2) a(2) by (simp add: pbind_Err) blast
      next
        case False
        then have "heap_insert pick K P file txn d s = Some (r, t)" using run2 2(1) a(1) new(1) by (simp add: pbind_Ok)
        then show ?thesis using new(2,3) by blast
      qed
    next
      fix l vs assume a: "(l, vs) \<in> set ps" "r2 = Ok (Some \<lparr> rid_page = l, rid_slot = word_of_nat (length vs) \<rparr>)" "length vs < 1018"
        "heap_table t2 m file (set_versions l (vs @ [w]) ps)"
      then have "heap_insert pick K P file txn d s = Some (Ok \<lparr> rid_page = l, rid_slot = word_of_nat (length vs) \<rparr>, t2)"
        using run2 2(1) by (simp add: pbind_Ok ret_def)
      then show ?thesis using a 2(2) by blast
    qed
  qed
qed

text \<open>A scan gives the visible rows of all pages, or ends with the refusal of a page.\<close>

lemma scan_load_run:
  assumes inv: "idle (Suc n) s m" and t: "m (hs_current st) = Some v" "pool_view on_disk s v = Some pg" and pg: "heap_page_holds pg vs next"
  shows "\<exists>r t. scan_load pick K P st s = Some (Ok r, t) \<and> idle n t m \<and> stays m s t \<and>
    (r = (Some (BufferError (EvictorError NoVictimFound)), st) \<or>
     r = (None, st\<lparr> hs_buffered := visible_rows (hs_txn st) (hs_current st) vs, hs_idx := 0, hs_current := next \<rparr>))"
  using fetch_read_run [OF inv t none_held]
proof (elim disjE exE conjE)
  assume "fetch_page_read pick K P (hs_current st) s = Some (Err (EvictorError NoVictimFound), s)"
  then have "scan_load pick K P st s = Some (Ok (Some (BufferError (EvictorError NoVictimFound)), st), s)"
    by (simp add: scan_load_def caught_def pbind_def ret_def)
  then show ?thesis using inv_fewer [OF inv] keeps_refl by blast
next
  let ?st = "st\<lparr> hs_buffered := visible_rows (hs_txn st) (hs_current st) vs, hs_idx := 0, hs_current := next \<rparr>"
  fix f t assume f: "fetch_page_read pick K P (hs_current st) s = Some (Ok f, t)" "got n (\<lambda>_. Free) s t m (Readers 1) f (hs_current st) v pg"
  have L: "Readers 1 \<in> {Readers 1, Writer}" by simp
  note d = got_drop [OF f(2) L]
  have "scan_here st f t = Some ((Ok (None, ?st) :: ('e buffer_error accessor_error, 'e scan_turn) outcome), t)" using f(2) by (intro scan_use [OF pg]) (simp add: got_def)
  from with_guard_run [of "scan_here st f", OF this d(1)] have "scan_load pick K P st s = Some (Ok (None, ?st), dropped f t)"
    using f(1) by (simp add: scan_load_def caught_def pbind_def)
  then show ?thesis using d(2,3) by blast
qed

lemma scan_end: "hs_current st = 0 \<Longrightarrow> hs_idx st = length (hs_buffered st) \<Longrightarrow> scan_collect pick K P items st s = Some (Ok items, s)"
proof -
  assume st: "hs_current st = 0" "hs_idx st = length (hs_buffered st)"
  have "scan_next pick K P st s = Some (Ok (None, st), s)" by (subst scan_next.simps) (simp add: st ret_def)
  then show ?thesis by (subst scan_collect.simps) (simp add: pbind_Ok ret_def)
qed

lemma scan_more:
  assumes "hs_current st \<noteq> 0" "hs_idx st = length (hs_buffered st)"
  shows "scan_collect pick K P items st s = pbind (scan_load pick K P st) (\<lambda>r. (case fst r of
    Some e \<Rightarrow> fail e | None \<Rightarrow> scan_collect pick K P items (snd r))) s"
proof -
  have "scan_next pick K P st s = pbind (scan_load pick K P st) (\<lambda>(err, st'). (case err of
      Some e \<Rightarrow> ret (Some (Err e), st') | None \<Rightarrow> scan_next pick K P st')) s"
    by (subst scan_next.simps) (simp add: assms)
  then show ?thesis
    by (subst scan_collect.simps) (auto simp: pbind_def ret_def fail_def scan_collect.simps [of pick K P items] split: option.split prod.split outcome.split)
qed

lemma collect_run:
  assumes "idle (length ps + n) s m" "m 0 = None" "heap_chain (page_at s m) ps" "hs_current st = chain_first ps" "hs_idx st = length (hs_buffered st)"
  shows "\<exists>r t. scan_collect pick K P items st s = Some (r, t) \<and> idle n t m \<and> stays m s t \<and>
    (r = refused \<or> r = Ok (items @ concat (map (\<lambda>(l, vs). visible_rows (hs_txn st) l vs) ps)))"
  using assms
proof (induction ps arbitrary: s st items)
  case Nil
  then show ?case using scan_end [of st] by (simp add: chain_first_def)
next
  case (Cons p ps)
  obtain l vs where p: "p = (l, vs)" by (cases p)
  have l: "hs_current st = l" using Cons.prems(4) by (simp add: p chain_first_def)
  have inv: "idle (Suc (length ps + n)) s m" using Cons.prems(1) by simp
  obtain pg where pg: "page_at s m l = Some pg" "heap_page_holds pg vs (chain_first ps)" using Cons.prems(3) by (auto simp: p)
  obtain v where v: "m l = Some v" "pool_view on_disk s v = Some pg" using pg(1) by (auto simp: page_at_Some)
  have "l \<noteq> 0" using Cons.prems(2) v(1) by auto
  then have more: "scan_collect pick K P items st s = pbind (scan_load pick K P st) (\<lambda>r. (case fst r of
    Some e \<Rightarrow> fail e | None \<Rightarrow> scan_collect pick K P items (snd r))) s" using scan_more [of st] Cons.prems(5) l by simp
  let ?st = "st\<lparr> hs_buffered := visible_rows (hs_txn st) l vs, hs_idx := 0, hs_current := chain_first ps \<rparr>"
  let ?st' = "?st\<lparr> hs_idx := length (hs_buffered ?st) \<rparr>"
  obtain r t where r: "scan_load pick K P st s = Some (Ok r, t)" "idle (length ps + n) t m" "stays m s t"
    "r = (Some (BufferError (EvictorError NoVictimFound)), st) \<or> r = (None, ?st)"
    using scan_load_run [OF inv _ _ pg(2), of st v] v l by auto
  from r(4) show ?case
  proof
    assume "r = (Some (BufferError (EvictorError NoVictimFound)), st)"
    then show ?thesis using more r(1-3) inv_less [OF r(2)] by (simp add: pbind_Ok fail_def)
  next
    assume a: "r = (None, ?st)"
    have c: "heap_chain (page_at t m) ps" using chain_stays [OF invD(1) [OF Cons.prems(1)] r(3)] Cons.prems(3) by (simp add: p)
    have "scan_collect pick K P items st s = scan_collect pick K P (items @ visible_rows (hs_txn st) l vs) ?st' t"
      using more r(1) a collect_buffered [of ?st pick K P items t] by (simp add: pbind_Ok)
    with Cons.IH [OF r(2) Cons.prems(2) c, of ?st' "items @ visible_rows (hs_txn st) l vs"] keeps_trans [OF r(3)]
    show ?thesis by (auto simp: p)
  qed
qed

lemma heap_scan_run:
  assumes inv: "idle (Suc (length ps) + n) s m" and t: "heap_table s m file ps"
  shows "\<exists>r t. pbind (heap_scan pick K P file txn) (scan_collect pick K P []) s = Some (r, t) \<and> idle n t m \<and> stays m s t \<and>
    (r = refused \<or> r = Ok (concat (map (\<lambda>(l, vs). visible_rows txn l vs) ps)))"
proof -
  obtain r1 t1 where 1: "heap_first_page pick K P file s = Some (r1, t1)" "idle (length ps + n) t1 m" "stays m s t1" "r1 = refused \<or> r1 = Ok (chain_first ps)"
    using first_page_run [OF _ t, of "length ps + n"] inv by auto
  have t1: "heap_table t1 m file ps" by (rule table_stays [OF invD(1) [OF inv] 1(3) t])
  let ?st = "\<lparr> hs_current = chain_first ps, hs_buffered = [], hs_idx = 0, hs_txn = txn \<rparr>"
  from 1(4) show ?thesis
  proof
    assume "r1 = refused"
    then show ?thesis using 1(1,3) inv_less [OF 1(2)] by (simp add: heap_scan_def pbind_Err)
  next
    assume "r1 = Ok (chain_first ps)"
    then have run: "pbind (heap_scan pick K P file txn) (scan_collect pick K P []) s = scan_collect pick K P [] ?st t1"
      using 1(1) by (simp add: heap_scan_def pbind_Ok ret_def)
    have "m 0 = None" "heap_chain (page_at t1 m) ps" using t1 by (simp_all add: heap_table_def)
    from collect_run [OF 1(2) this, of ?st "[]"] show ?thesis using run keeps_trans [OF 1(3)] by auto
  qed
qed

end

end
