(* ===== verification/HeapClaims.thy ===== *)
theory HeapClaims
  imports HeapTable
begin

text \<open>
  A table is a list of rows with their ids: over the disk and LRU-K, the operations of the accessor on a new
  file answer like this list, whatever pages the rows are in and whatever the pool evicts, or refuse a
  request for want of a frame and leave the rows.
\<close>

section \<open>The rows of the pages\<close>

type_synonym table_row = "record_id \<times> version"

definition page_slots :: "u32 \<Rightarrow> version list \<Rightarrow> table_row list" where
  "page_slots l vs = map (\<lambda>i. (\<lparr> rid_page = l, rid_slot = word_of_nat i \<rparr>, vs ! i)) [0..<length vs]"

definition all_rows :: "(u32 \<times> version list) list \<Rightarrow> table_row list" where
  "all_rows ps = concat (map (\<lambda>(l, vs). page_slots l vs) ps)"

definition change_row :: "record_id \<Rightarrow> version \<Rightarrow> table_row \<Rightarrow> table_row" where
  "change_row rid w r = (if fst r = rid then (rid, w) else r)"

definition seen_rows :: "txn \<Rightarrow> table_row list \<Rightarrow> (byte list \<times> record_id) list" where
  "seen_rows txn rows = map (\<lambda>(rid, v). (row_data v, rid)) (filter (\<lambda>(rid, v). sees_version txn v) rows)"

definition few_slots :: "(u32 \<times> version list) list \<Rightarrow> bool" where
  "few_slots ps \<longleftrightarrow> distinct (map fst ps) \<and> (\<forall>(l, vs)\<in>set ps. 0 < length vs \<and> length vs \<le> 1018)"

lemma all_rows_simps [simp]: "all_rows [] = []" "all_rows ((l, vs) # ps) = page_slots l vs @ all_rows ps"
  by (simp_all add: all_rows_def)

lemma few_slots_Cons: "few_slots ((l, vs) # ps) \<longleftrightarrow> l \<notin> fst ` set ps \<and> 0 < length vs \<and> length vs \<le> 1018 \<and> few_slots ps"
  by (auto simp: few_slots_def)

lemma slot_nat: "i < 1018 \<Longrightarrow> unat (word_of_nat i :: u16) = i"
  by (simp add: unat_of_nat)

lemma slot_inj: "i < 1018 \<Longrightarrow> j < 1018 \<Longrightarrow> (word_of_nat i :: u16) = word_of_nat j \<longleftrightarrow> i = j"
  by (metis slot_nat)

lemma page_slots_mem:
  "length vs \<le> 1018 \<Longrightarrow> (rid, v) \<in> set (page_slots l vs) \<longleftrightarrow>
     rid_page rid = l \<and> unat (rid_slot rid) < length vs \<and> v = vs ! unat (rid_slot rid)"
  by (cases rid) (auto simp: page_slots_def slot_nat image_iff Bex_def intro!: exI [of _ "unat (rid_slot rid)"])

lemma page_slots_append: "page_slots l (vs @ [w]) = page_slots l vs @ [(\<lparr> rid_page = l, rid_slot = word_of_nat (length vs) \<rparr>, w)]"
  by (simp add: page_slots_def nth_append)

lemma page_slots_distinct: "length vs \<le> 1018 \<Longrightarrow> distinct (map fst (page_slots l vs))"
  by (auto simp: page_slots_def distinct_map inj_on_def slot_inj)

lemma all_rows_mem:
  "few_slots ps \<Longrightarrow> (rid, v) \<in> set (all_rows ps) \<longleftrightarrow>
     (\<exists>vs. (rid_page rid, vs) \<in> set ps \<and> unat (rid_slot rid) < length vs \<and> v = vs ! unat (rid_slot rid))"
proof (induction ps)
  case (Cons p ps)
  then show ?case by (cases p) (auto simp: few_slots_Cons page_slots_mem)
qed simp

lemma all_rows_page: "few_slots ps \<Longrightarrow> rid \<in> fst ` set (all_rows ps) \<Longrightarrow> rid_page rid \<in> fst ` set ps"
  by (auto simp: all_rows_mem image_iff) force

lemma all_rows_distinct: "few_slots ps \<Longrightarrow> distinct (map fst (all_rows ps))"
proof (induction ps)
  case (Cons p ps)
  obtain l vs where p: "p = (l, vs)" by (cases p)
  have f: "few_slots ps" "l \<notin> fst ` set ps" "length vs \<le> 1018" using Cons.prems by (simp_all add: p few_slots_Cons)
  have "rid_page r = l" if "r \<in> fst ` set (page_slots l vs)" for r using that by (auto simp: page_slots_def)
  then have "fst ` set (page_slots l vs) \<inter> fst ` set (all_rows ps) = {}" using all_rows_page [OF f(1)] f(2) by blast
  then show ?case using Cons.IH [OF f(1)] page_slots_distinct [OF f(3), of l] by (simp add: p)
qed simp

lemma all_rows_few: "few_slots ps \<Longrightarrow> length ps \<le> length (all_rows ps)"
proof (induction ps)
  case (Cons p ps)
  obtain l vs where p: "p = (l, vs)" by (cases p)
  have "few_slots ps" "0 < length vs" using Cons.prems by (simp_all add: p few_slots_Cons)
  then have "length ps \<le> length (all_rows ps)" "0 < length vs" using Cons.IH by simp_all
  then have "Suc (length ps) \<le> length vs + length (all_rows ps)" by linarith
  then show ?case by (simp add: p page_slots_def)
qed simp

lemma few_slots_set: "few_slots ps \<Longrightarrow> 0 < length us \<Longrightarrow> length us \<le> 1018 \<Longrightarrow> few_slots (set_versions l us ps)"
  by (auto simp: few_slots_def) (auto simp: set_versions_def split: if_splits)

lemma all_rows_insert:
  assumes "few_slots ps" "(l, vs) \<in> set ps"
  shows "mset (all_rows (set_versions l (vs @ [w]) ps)) = add_mset (\<lparr> rid_page = l, rid_slot = word_of_nat (length vs) \<rparr>, w) (mset (all_rows ps))"
  using assms
proof (induction ps)
  case (Cons p ps)
  obtain k ks where p: "p = (k, ks)" by (cases p)
  show ?case
  proof (cases "k = l")
    case True
    then have "ks = vs" "l \<notin> fst ` set ps" using Cons.prems by (auto simp: p few_slots_Cons image_iff)
    then show ?thesis using True by (simp add: p set_versions_Cons set_versions_other page_slots_append)
  next
    case False
    then show ?thesis using Cons.IH Cons.prems by (simp add: p few_slots_Cons set_versions_Cons)
  qed
qed simp

lemma page_slots_change:
  assumes "length vs \<le> 1018" "unat (rid_slot rid) < length vs"
  shows "page_slots (rid_page rid) (vs[unat (rid_slot rid) := w]) = map (change_row rid w) (page_slots (rid_page rid) vs)"
proof (rule nth_equalityI)
  fix i assume "i < length (page_slots (rid_page rid) (vs[unat (rid_slot rid) := w]))"
  then have i: "i < length vs" by (simp add: page_slots_def)
  have "(\<lparr> rid_page = rid_page rid, rid_slot = word_of_nat i \<rparr> = rid) = (i = unat (rid_slot rid))"
    using assms i slot_nat [of i] by (cases rid) auto
  then show "page_slots (rid_page rid) (vs[unat (rid_slot rid) := w]) ! i = map (change_row rid w) (page_slots (rid_page rid) vs) ! i"
    using i assms(2) by (auto simp: page_slots_def change_row_def)
qed (simp add: page_slots_def)

lemma page_slots_other: "l \<noteq> rid_page rid \<Longrightarrow> map (change_row rid w) (page_slots l vs) = page_slots l vs"
  by (auto simp: page_slots_def change_row_def)

lemma all_rows_change:
  assumes "few_slots ps" "(rid_page rid, vs) \<in> set ps" "unat (rid_slot rid) < length vs"
  shows "all_rows (set_versions (rid_page rid) (vs[unat (rid_slot rid) := w]) ps) = map (change_row rid w) (all_rows ps)"
  using assms(1,2)
proof (induction ps)
  case (Cons p ps)
  obtain k ks where p: "p = (k, ks)" by (cases p)
  show ?case
  proof (cases "k = rid_page rid")
    case True
    then have k: "ks = vs" "rid_page rid \<notin> fst ` set ps" "length vs \<le> 1018" "few_slots ps"
      using Cons.prems by (auto simp: p few_slots_Cons image_iff)
    have "change_row rid w r = r" if "r \<in> set (all_rows ps)" for r
      using all_rows_page [OF k(4), of "fst r"] k(2) that by (auto simp: change_row_def)
    then have "map (change_row rid w) (all_rows ps) = all_rows ps" by (simp add: map_idI)
    then show ?thesis using True k assms(3) by (simp add: p set_versions_Cons set_versions_other page_slots_change)
  next
    case False
    then show ?thesis using Cons.IH Cons.prems by (simp add: p few_slots_Cons set_versions_Cons page_slots_other)
  qed
qed simp

lemma page_slots_seen: "seen_rows txn (page_slots l vs) = visible_rows txn l vs"
proof -
  have "map (\<lambda>(rid, v). (row_data v, rid)) (filter (\<lambda>(rid, v). sees_version txn v)
      (map (\<lambda>i. (\<lparr> rid_page = l, rid_slot = word_of_nat i \<rparr>, vs ! i)) js)) =
    concat (map (\<lambda>i. if sees_version txn (vs ! i) then [(row_data (vs ! i), \<lparr> rid_page = l, rid_slot = word_of_nat i \<rparr>)] else []) js)" for js
    by (induction js) simp_all
  then show ?thesis by (simp add: seen_rows_def page_slots_def visible_rows_def)
qed

lemma all_rows_seen: "concat (map (\<lambda>(l, vs). visible_rows txn l vs) ps) = seen_rows txn (all_rows ps)"
proof (induction ps)
  case (Cons p ps)
  obtain l vs where p: "p = (l, vs)" by (cases p)
  show ?case using Cons.IH page_slots_seen [of txn l vs] by (simp add: p) (simp add: seen_rows_def)
qed (simp add: seen_rows_def)

lemma change_nth:
  assumes "distinct (map fst rows)" "j < length rows" "rows ! j = (rid, v)"
  shows "map (change_row rid w) rows = rows[j := (rid, w)]"
proof (rule nth_equalityI)
  fix i assume "i < length (map (change_row rid w) rows)"
  moreover have "fst (rows ! i) = rid \<longleftrightarrow> i = j" if "i < length rows"
    using assms that nth_eq_iff_index_eq [of "map fst rows" i j] by simp
  ultimately show "map (change_row rid w) rows ! i = rows[j := (rid, w)] ! i"
    using assms(2) by (auto simp: change_row_def nth_list_update)
qed simp

section \<open>Clients of a table\<close>

text \<open>
  A client names rows by their place in the order of its successful inserts; it keeps the ids it got. It
  calls the accessor with the oid of the table, which the catalog cache maps to the file.
\<close>

datatype table_request = InsertRow txn "byte list" | GetRow txn nat | DeleteRow txn nat | ScanRows txn

datatype table_answer = Inserted record_id | Row "byte list" | Deleted | Rows "(byte list \<times> record_id) list" | NoSuchRow

fun table_step :: "(nat set \<Rightarrow> nat) \<Rightarrow> ('s, 'e) disk_ops \<Rightarrow> 'p policy_ops \<Rightarrow> catalog_cache \<Rightarrow> u32 \<Rightarrow> record_id list \<Rightarrow> table_request \<Rightarrow>
    ('s, 'p, 'e, table_answer) access_prog" where
  "table_step pick K P c oid rids (InsertRow txn d) = pbind (table_insert pick K P c txn oid d) (\<lambda>rid. ret (Inserted rid))"
| "table_step pick K P c oid rids (GetRow txn j) = (if j < length rids
     then pbind (table_get pick K P c txn oid (rids ! j)) (\<lambda>d. ret (Row d)) else ret NoSuchRow)"
| "table_step pick K P c oid rids (DeleteRow txn j) = (if j < length rids
     then pbind (table_delete pick K P c txn oid (rids ! j)) (\<lambda>_. ret Deleted) else ret NoSuchRow)"
| "table_step pick K P c oid rids (ScanRows txn) = pbind (pbind (table_scan pick K P c txn oid) (scan_collect pick K P [])) (\<lambda>rows. ret (Rows rows))"

type_synonym 'e table_result = "('e buffer_error accessor_error, table_answer) outcome"

fun known_ids :: "'e table_result \<Rightarrow> record_id list \<Rightarrow> record_id list" where
  "known_ids (Ok (Inserted rid)) rids = rids @ [rid]"
| "known_ids _ rids = rids"

fun table_serve :: "(nat set \<Rightarrow> nat) \<Rightarrow> ('s, 'e) disk_ops \<Rightarrow> 'p policy_ops \<Rightarrow> catalog_cache \<Rightarrow> u32 \<Rightarrow> record_id list \<Rightarrow> table_request list \<Rightarrow>
    ('s, 'p) pool \<Rightarrow> ('e table_result list \<times> ('s, 'p) pool) option" where
  "table_serve pick K P c oid rids [] s = Some ([], s)"
| "table_serve pick K P c oid rids (r # rs) s = (case table_step pick K P c oid rids r s of None \<Rightarrow> None
     | Some (a, s') \<Rightarrow> (case table_serve pick K P c oid (known_ids a rids) rs s' of None \<Rightarrow> None | Some (as, s'') \<Rightarrow> Some (a # as, s'')))"

text \<open>
  The specification: the rows in the order of the inserts. A scan gives them in any order; an answer is the
  one of the list, or the request is refused and the list stays.
\<close>

fun rows_answer :: "table_row list \<Rightarrow> table_request \<Rightarrow> 'e table_result \<Rightarrow> table_row list \<Rightarrow> bool" where
  "rows_answer rows (InsertRow txn d) a rows' \<longleftrightarrow> (\<exists>rid. a = Ok (Inserted rid) \<and> rid \<notin> fst ` set rows \<and>
     rows' = rows @ [(rid, \<lparr> created_by = txn_id txn, deleted_by = 0, row_data = d \<rparr>)])"
| "rows_answer rows (GetRow txn j) a rows' \<longleftrightarrow> rows' = rows \<and>
     a = (if j < length rows then map_outcome Row (read_version txn (snd (rows ! j))) else Ok NoSuchRow)"
| "rows_answer rows (DeleteRow txn j) a rows' \<longleftrightarrow> (if j < length rows
     then (case delete_version txn (snd (rows ! j)) of (r, v) \<Rightarrow> a = map_outcome (\<lambda>_. Deleted) r \<and> rows' = rows[j := (fst (rows ! j), v)])
     else a = Ok NoSuchRow \<and> rows' = rows)"
| "rows_answer rows (ScanRows txn) a rows' \<longleftrightarrow> rows' = rows \<and> (\<exists>xs. a = Ok (Rows xs) \<and> mset xs = mset (seen_rows txn rows))"

fun rows_serve :: "table_row list \<Rightarrow> table_request list \<Rightarrow> 'e table_result list \<Rightarrow> table_row list \<Rightarrow> bool" where
  "rows_serve rows [] as rows'' \<longleftrightarrow> as = [] \<and> rows'' = rows"
| "rows_serve rows (r # rs) as rows'' \<longleftrightarrow> (\<exists>a as' rows'. as = a # as' \<and>
     (rows_answer rows r a rows' \<or> a = refused \<and> rows' = rows) \<and> rows_serve rows' rs as' rows'')"

fun row_fits :: "table_request \<Rightarrow> bool" where
  "row_fits (InsertRow txn d) = (length d \<le> 4052)"
| "row_fits _ = True"

text \<open>Reads of the pool that \<open>n\<close> requests on a table of \<open>k\<close> rows need at most.\<close>

definition reads_bound :: "nat \<Rightarrow> nat \<Rightarrow> nat" where
  "reads_bound n k = n * (n + k + 1)"

lemma reads_step: "reads_bound n (Suc k) + Suc k \<le> reads_bound (Suc n) k" "reads_bound n k \<le> reads_bound n (Suc k)"
  by (simp_all add: reads_bound_def algebra_simps)

context buffer_pool
begin

definition holds_rows :: "('s, 'p) pool \<Rightarrow> (u32 \<rightharpoonup> ppage_id) \<Rightarrow> u32 \<Rightarrow> table_row list \<Rightarrow> bool" where
  "holds_rows s m file rows \<longleftrightarrow> (\<exists>ps. heap_table s m file ps \<and> few_slots ps \<and> mset rows = mset (all_rows ps))"

lemma holds_distinct:
  assumes "few_slots ps" "mset rows = mset (all_rows ps)"
  shows "distinct (map fst rows)" "length ps \<le> length rows"
proof -
  have "mset (map fst rows) = mset (map fst (all_rows ps))" using assms(2) by simp
  then show "distinct (map fst rows)" using all_rows_distinct [OF assms(1)] mset_eq_imp_distinct_iff by blast
  show "length ps \<le> length rows" using all_rows_few [OF assms(1)] mset_eq_length [OF assms(2)] by simp
qed

lemma holds_row:
  assumes "few_slots ps" "mset rows = mset (all_rows ps)" "j < length rows" "rows ! j = (rid, v)"
  obtains vs where "(rid_page rid, vs) \<in> set ps" "unat (rid_slot rid) < length vs" "v = vs ! unat (rid_slot rid)"
proof -
  have "(rid, v) \<in> set (all_rows ps)" using assms(2-4) nth_mem [OF assms(3)] mset_eq_setD by fastforce
  then show ?thesis using that all_rows_mem [OF assms(1)] by blast
qed

lemma rows_insert:
  assumes inv: "idle (Suc n) s m" and h: "holds_rows s m file rows" and d: "length d \<le> 4052" and grow: "can_grow (bp_disk s) m"
  shows "\<exists>r t m' rows'. heap_insert pick K P file txn d s = Some (r, t) \<and> idle n t m' \<and> holds_rows t m' file rows' \<and>
    (r = refused \<and> rows' = rows \<or> (\<exists>rid. r = Ok rid \<and> rows_answer rows (InsertRow txn d) (Ok (Inserted rid) :: 'e table_result) rows'))"
proof -
  let ?w = "\<lparr> created_by = txn_id txn, deleted_by = 0, row_data = d \<rparr>"
  obtain ps where ps: "heap_table s m file ps" "few_slots ps" "mset rows = mset (all_rows ps)" using h by (auto simp: holds_rows_def)
  have rids: "fst ` set rows = fst ` set (all_rows ps)" using mset_eq_setD [OF ps(3)] by simp
  have one: "length [?w] \<le> 1018" by simp
  from heap_insert_run [where txn = txn, OF inv ps(1) d refl grow] show ?thesis
  proof (elim exE conjE disjE)
    fix r t m' assume "heap_insert pick K P file txn d s = Some (r, t)" "idle n t m'" "r = refused" "heap_table t m' file ps"
    then show ?thesis using ps by (intro exI [of _ r] exI [of _ t] exI [of _ m'] exI [of _ rows]) (auto simp: holds_rows_def)
  next
    fix r t m' l vs assume a: "heap_insert pick K P file txn d s = Some (r, t)" "idle n t m'" "r = Ok \<lparr> rid_page = l, rid_slot = word_of_nat (length vs) \<rparr>"
      "(l, vs) \<in> set ps" "length vs < 1018" "heap_table t m' file (set_versions l (vs @ [?w]) ps)"
    let ?rid = "\<lparr> rid_page = l, rid_slot = word_of_nat (length vs) :: u16 \<rparr>"
    let ?ps = "set_versions l (vs @ [?w]) ps"
    have f: "few_slots ?ps" using a(5) by (intro few_slots_set [OF ps(2)]) simp_all
    have m: "mset (all_rows ?ps) = add_mset (?rid, ?w) (mset (all_rows ps))" by (rule all_rows_insert [OF ps(2) a(4)])
    then have m': "mset (rows @ [(?rid, ?w)]) = mset (all_rows ?ps)" using ps(3) by simp
    have "distinct (map fst (rows @ [(?rid, ?w)]))" by (rule holds_distinct(1) [OF f m'])
    then have "rows_answer rows (InsertRow txn d) (Ok (Inserted ?rid) :: 'e table_result) (rows @ [(?rid, ?w)])" by simp
    moreover have "holds_rows t m' file (rows @ [(?rid, ?w)])" using a(6) f m' by (auto simp: holds_rows_def)
    ultimately show ?thesis using a(1-3) by blast
  next
    fix r t m' l assume a: "heap_insert pick K P file txn d s = Some (r, t)" "idle n t m'" "l \<notin> fst ` set ps" "r = Ok \<lparr> rid_page = l, rid_slot = 0 \<rparr>"
      "heap_table t m' file ((l, [?w]) # ps)"
    let ?rid = "\<lparr> rid_page = l, rid_slot = 0 :: u16 \<rparr>"
    let ?ps = "(l, [?w]) # ps"
    have f: "few_slots ?ps" using a(3) ps(2) by (simp add: few_slots_Cons)
    have m': "mset (rows @ [(?rid, ?w)]) = mset (all_rows ?ps)" using ps(3) by (simp add: page_slots_def)
    have "distinct (map fst (rows @ [(?rid, ?w)]))" by (rule holds_distinct(1) [OF f m'])
    then have "rows_answer rows (InsertRow txn d) (Ok (Inserted ?rid) :: 'e table_result) (rows @ [(?rid, ?w)])" by simp
    moreover have "holds_rows t m' file (rows @ [(?rid, ?w)])" using a(5) f m' by (auto simp: holds_rows_def)
    ultimately show ?thesis using a(1,2,4) by blast
  qed
qed

lemma rows_get:
  assumes inv: "idle (Suc n) s m" and h: "holds_rows s m file rows" and j: "j < length rows"
  shows "\<exists>r t. heap_get pick K P txn (fst (rows ! j)) s = Some (r, t) \<and> idle n t m \<and> holds_rows t m file rows \<and>
    (r = refused \<or> r = read_version txn (snd (rows ! j)))"
proof -
  obtain ps where ps: "heap_table s m file ps" "few_slots ps" "mset rows = mset (all_rows ps)" using h by (auto simp: holds_rows_def)
  obtain rid v where row: "rows ! j = (rid, v)" by (cases "rows ! j")
  obtain vs where vs: "(rid_page rid, vs) \<in> set ps" "unat (rid_slot rid) < length vs" "v = vs ! unat (rid_slot rid)"
    by (rule holds_row [OF ps(2,3) j row])
  obtain r t where r: "heap_get pick K P txn rid s = Some (r, t)" "idle n t m" "stays m s t" "r = refused \<or> r = read_version txn v"
    using get_run [where txn = txn, OF inv ps(1) vs(1,2)] vs(3) by blast
  have "holds_rows t m file rows" using table_stays [OF invD(1) [OF inv] r(3) ps(1)] ps(2,3) by (auto simp: holds_rows_def)
  then show ?thesis using r row by auto
qed

lemma rows_delete:
  assumes inv: "idle n s m" and h: "holds_rows s m file rows" and j: "j < length rows"
    and d: "delete_version txn (snd (rows ! j)) = ((a :: ('e buffer_error accessor_error, unit) outcome), w)"
  shows "\<exists>r t rows'. heap_delete pick K P txn (fst (rows ! j)) s = Some (r, t) \<and> idle n t m \<and> holds_rows t m file rows' \<and>
    (r = refused \<and> rows' = rows \<or> r = a \<and> rows' = rows[j := (fst (rows ! j), w)])"
proof -
  obtain ps where ps: "heap_table s m file ps" "few_slots ps" "mset rows = mset (all_rows ps)" using h by (auto simp: holds_rows_def)
  obtain rid v where row: "rows ! j = (rid, v)" by (cases "rows ! j")
  obtain vs where vs: "(rid_page rid, vs) \<in> set ps" "unat (rid_slot rid) < length vs" "v = vs ! unat (rid_slot rid)"
    by (rule holds_row [OF ps(2,3) j row])
  let ?us = "vs[unat (rid_slot rid) := w]"
  have d': "delete_version txn (vs ! unat (rid_slot rid)) = (a, w)" using d row vs(3) by simp
  obtain r t where r: "heap_delete pick K P txn rid s = Some (r, t)" "idle n t m"
    "r = refused \<and> heap_table t m file ps \<or> r = a \<and> heap_table t m file (set_versions (rid_page rid) ?us ps)"
    using delete_run [OF inv ps(1) vs(1,2) d'] by blast
  have few: "0 < length vs" "length vs \<le> 1018" using ps(2) vs(1) by (auto simp: few_slots_def)
  then have f: "few_slots (set_versions (rid_page rid) ?us ps)" by (intro few_slots_set [OF ps(2)]) simp_all
  have "map (change_row rid w) rows = rows[j := (rid, w)]" by (rule change_nth [OF holds_distinct(1) [OF ps(2,3)] j row])
  then have "mset (rows[j := (rid, w)]) = mset (all_rows (set_versions (rid_page rid) ?us ps))"
    using all_rows_change [OF ps(2) vs(1,2), of w] ps(3) by (metis mset_map)
  then have "r = refused \<and> holds_rows t m file rows \<or> r = a \<and> holds_rows t m file (rows[j := (rid, w)])"
    using r(3) f ps(2,3) unfolding holds_rows_def by blast
  then show ?thesis using r(1,2) row by auto
qed

lemma rows_scan:
  assumes inv: "idle (Suc (length rows) + n) s m" and h: "holds_rows s m file rows"
  shows "\<exists>r t. pbind (heap_scan pick K P file txn) (scan_collect pick K P []) s = Some (r, t) \<and> idle n t m \<and> holds_rows t m file rows \<and>
    (r = refused \<or> (\<exists>xs. r = Ok xs \<and> mset xs = mset (seen_rows txn rows)))"
proof -
  obtain ps where ps: "heap_table s m file ps" "few_slots ps" "mset rows = mset (all_rows ps)" using h by (auto simp: holds_rows_def)
  have "Suc (length rows) + n = Suc (length ps) + (length rows - length ps + n)" using holds_distinct(2) [OF ps(2,3)] by simp
  with inv have inv': "idle (Suc (length ps) + (length rows - length ps + n)) s m" by simp
  obtain r t where r: "pbind (heap_scan pick K P file txn) (scan_collect pick K P []) s = Some (r, t)" "idle (length rows - length ps + n) t m" "stays m s t"
    "r = refused \<or> r = Ok (concat (map (\<lambda>(l, vs). visible_rows txn l vs) ps))"
    using heap_scan_run [where txn = txn, OF inv' ps(1)] by blast
  have "mset (seen_rows txn (all_rows ps)) = mset (seen_rows txn rows)" using ps(3) by (simp add: seen_rows_def)
  then have "r = refused \<or> (\<exists>xs. r = Ok xs \<and> mset xs = mset (seen_rows txn rows))" using r(4) by (simp add: all_rows_seen) blast
  moreover have "holds_rows t m file rows" using table_stays [OF invD(1) [OF inv] r(3) ps(1)] ps(2,3) by (auto simp: holds_rows_def)
  ultimately show ?thesis using r(1) inv_less [OF r(2)] by blast
qed

text \<open>One request, through the catalog.\<close>

lemma rows_step:
  assumes inv: "idle (Suc (length rows) + n) s m" and h: "holds_rows s m file rows" and c: "table_file_id c oid = (Ok file :: ('e buffer_error accessor_error, u32) outcome)"
    and fits: "row_fits r" and grow: "can_grow (bp_disk s) m \<or> (\<forall>txn d. r \<noteq> InsertRow txn d)"
  shows "\<exists>a t m' rows'. table_step pick K P c oid (map fst rows) r s = Some (a, t) \<and> idle n t m' \<and> holds_rows t m' file rows' \<and>
    (rows_answer rows r a rows' \<or> a = refused \<and> rows' = rows) \<and> known_ids a (map fst rows) = map fst rows' \<and> length rows' \<le> Suc (length rows)"
proof (cases r)
  case (InsertRow txn d)
  have "idle (Suc (length rows + n)) s m" using inv by simp
  from rows_insert [where txn = txn, OF this h, of d] grow fits InsertRow
  obtain r' t m' rows' where i: "heap_insert pick K P file txn d s = Some (r', t)" "idle (length rows + n) t m'" "holds_rows t m' file rows'"
    "r' = refused \<and> rows' = rows \<or> (\<exists>rid. r' = Ok rid \<and> rows_answer rows (InsertRow txn d) (Ok (Inserted rid) :: 'e table_result) rows')"
    by auto
  have step: "table_step pick K P c oid (map fst rows) r s = pbind (heap_insert pick K P file txn d) (\<lambda>rid. ret (Inserted rid)) s"
    by (simp add: InsertRow table_insert_def c) (simp add: pbind_def lift_def)
  from i(4) show ?thesis
  proof (elim disjE exE conjE)
    assume a: "r' = refused" "rows' = rows"
    have "table_step pick K P c oid (map fst rows) r s = Some (refused, t)" using step i(1) a(1) by (simp add: pbind_Err)
    then show ?thesis using i(3) a(2) inv_less [OF i(2)]
      by (intro exI [of _ refused] exI [of _ t] exI [of _ m'] exI [of _ rows]) simp
  next
    fix rid assume a: "r' = Ok rid" "rows_answer rows (InsertRow txn d) (Ok (Inserted rid) :: 'e table_result) rows'"
    have "table_step pick K P c oid (map fst rows) r s = Some (Ok (Inserted rid), t)" using step i(1) a(1) by (simp add: pbind_Ok ret_def)
    then show ?thesis using i(3) a(2) inv_less [OF i(2)] InsertRow
      by (intro exI [of _ "Ok (Inserted rid)"] exI [of _ t] exI [of _ m'] exI [of _ rows']) auto
  qed
next
  case (GetRow txn j)
  show ?thesis
  proof (cases "j < length rows")
    case True
    have "idle (Suc (length rows + n)) s m" using inv by simp
    from rows_get [where txn = txn, OF this h True]
    obtain r' t where i: "heap_get pick K P txn (fst (rows ! j)) s = Some (r', t)" "idle (length rows + n) t m" "holds_rows t m file rows"
      "r' = refused \<or> r' = read_version txn (snd (rows ! j))"
      by blast
    have "table_step pick K P c oid (map fst rows) r s = Some (map_outcome Row r', t)"
      using True i(1) by (cases r') (simp_all add: GetRow table_get_def c, simp_all add: pbind_def lift_def ret_def split: option.splits prod.splits outcome.splits)
    moreover have "rows_answer rows r (map_outcome Row r') rows \<or> map_outcome Row r' = (refused :: 'e table_result)"
      using i(4) True GetRow by auto
    moreover have "known_ids (map_outcome Row r') (map fst rows) = map fst rows" by (cases r') simp_all
    ultimately show ?thesis using i(3) inv_less [OF i(2)] by (metis le_SucI order_refl)
  next
    case False
    then show ?thesis using h inv_less [OF inv] GetRow by (auto simp: ret_def)
  qed
next
  case (DeleteRow txn j)
  show ?thesis
  proof (cases "j < length rows")
    case True
    obtain a w where d: "delete_version txn (snd (rows ! j)) = ((a :: ('e buffer_error accessor_error, unit) outcome), w)" by (cases "delete_version txn (snd (rows ! j)) :: ('e buffer_error accessor_error, unit) outcome \<times> version")
    obtain r' t rows' where i: "heap_delete pick K P txn (fst (rows ! j)) s = Some (r', t)" "idle n t m" "holds_rows t m file rows'"
      "r' = refused \<and> rows' = rows \<or> r' = a \<and> rows' = rows[j := (fst (rows ! j), w)]"
      using rows_delete [OF inv_less [OF inv] h True d] by blast
    have "table_step pick K P c oid (map fst rows) r s = Some (map_outcome (\<lambda>_. Deleted) r', t)"
      using True i(1) by (cases r') (simp_all add: DeleteRow table_delete_def c, simp_all add: pbind_def lift_def ret_def split: option.splits prod.splits outcome.splits)
    moreover have ids: "map fst (rows[j := (fst (rows ! j), w)]) = map fst rows" using True by (metis fst_conv list_update_id map_update nth_map)
    moreover have "rows_answer rows r (map_outcome (\<lambda>_. Deleted) r') rows' \<or> map_outcome (\<lambda>_. Deleted) r' = (refused :: 'e table_result) \<and> rows' = rows"
      using i(4) d True DeleteRow by auto
    moreover have "known_ids (map_outcome (\<lambda>_. Deleted) r') (map fst rows) = map fst rows'"
      using i(4) ids by (cases r') auto
    moreover have "length rows' \<le> Suc (length rows)" using i(4) by auto
    ultimately show ?thesis using i(2,3) by blast
  next
    case False
    then show ?thesis using h inv_less [OF inv] DeleteRow by (auto simp: ret_def)
  qed
next
  case (ScanRows txn)
  obtain r' t where i: "pbind (heap_scan pick K P file txn) (scan_collect pick K P []) s = Some (r', t)" "idle n t m" "holds_rows t m file rows"
    "r' = refused \<or> (\<exists>xs. r' = Ok xs \<and> mset xs = mset (seen_rows txn rows))"
    using rows_scan [where txn = txn, OF inv h] by blast
  have "table_step pick K P c oid (map fst rows) r s = Some (map_outcome Rows r', t)"
    using i(1) by (cases r') (simp_all add: ScanRows table_scan_def c, simp_all add: pbind_def lift_def ret_def split: option.splits prod.splits outcome.splits)
  moreover have "rows_answer rows r (map_outcome Rows r') rows \<or> map_outcome Rows r' = (refused :: 'e table_result)"
    using i(4) ScanRows by auto
  moreover have "known_ids (map_outcome Rows r') (map fst rows) = map fst rows" by (cases r') simp_all
  ultimately show ?thesis using i(2,3) by (metis le_SucI order_refl)
qed

text \<open>A run of requests: it stops only at an insert for which the disk has no room.\<close>

lemma rows_run:
  assumes "idle (reads_bound (length rs) (length rows) + n) s m" "holds_rows s m file rows" "table_file_id c oid = (Ok file :: ('e buffer_error accessor_error, u32) outcome)"
    "\<forall>r\<in>set rs. row_fits r"
  shows "\<exists>done rest as t m' rows'. rs = done @ rest \<and> table_serve pick K P c oid (map fst rows) done s = Some (as, t) \<and>
    rows_serve rows done as rows' \<and> idle n t m' \<and> holds_rows t m' file rows' \<and>
    (rest = [] \<or> (\<exists>txn d. hd rest = InsertRow txn d) \<and> \<not> can_grow (bp_disk t) m')"
  using assms
proof (induction rs arbitrary: s m rows)
  case Nil
  have "idle n s m" by (rule inv_less [OF Nil.prems(1)])
  then show ?case using Nil.prems(2) by (intro exI [of _ "[]"] exI [of _ s] exI [of _ m] exI [of _ rows]) simp
next
  case (Cons r rs)
  show ?case
  proof (cases "can_grow (bp_disk s) m \<or> (\<forall>txn d. r \<noteq> InsertRow txn d)")
    case False
    have "idle n s m" by (rule inv_less [OF Cons.prems(1)])
    then show ?thesis using Cons.prems(2) False
      by (intro exI [of _ "[]"] exI [of _ "r # rs"] exI [of _ s] exI [of _ m] exI [of _ rows]) simp
  next
    case True
    let ?n = "reads_bound (length rs) (Suc (length rows)) + n"
    obtain x where "reads_bound (length (r # rs)) (length rows) = Suc (length rows) + reads_bound (length rs) (Suc (length rows)) + x"
      using reads_step(1) [of "length rs" "length rows"] le_Suc_ex by (metis add.commute length_Cons)
    then have "idle (Suc (length rows) + (x + ?n)) s m" using Cons.prems(1) by (simp add: ac_simps)
    from rows_step [OF this Cons.prems(2,3) _ True] Cons.prems(4)
    obtain a t m' rows' where a: "table_step pick K P c oid (map fst rows) r s = Some (a, t)" "holds_rows t m' file rows'"
      "idle (x + ?n) t m'"
      "rows_answer rows r a rows' \<or> a = refused \<and> rows' = rows" "known_ids a (map fst rows) = map fst rows'" "length rows' \<le> Suc (length rows)"
      by auto
    have "reads_bound (length rs) (length rows') \<le> reads_bound (length rs) (Suc (length rows))"
      unfolding reads_bound_def by (rule mult_le_mono2) (use a(6) in simp)
    then obtain y where "reads_bound (length rs) (Suc (length rows)) = y + reads_bound (length rs) (length rows')"
      by (metis le_Suc_ex add.commute)
    then have "idle ((x + y) + (reads_bound (length rs) (length rows') + n)) t m'" using a(3) by (simp add: ac_simps)
    then have "idle (reads_bound (length rs) (length rows') + n) t m'" by (rule inv_less)
    moreover have "\<forall>r\<in>set rs. row_fits r" using Cons.prems(4) by simp
    ultimately obtain dn rest as u m2 rows2 where u: "rs = dn @ rest" "table_serve pick K P c oid (map fst rows') dn t = Some (as, u)"
      "rows_serve rows' dn as rows2" "idle n u m2" "holds_rows u m2 file rows2" "rest = [] \<or> (\<exists>txn d. hd rest = InsertRow txn d) \<and> \<not> can_grow (bp_disk u) m2"
      using Cons.IH [OF _ a(2) Cons.prems(3)] by blast
    have "table_serve pick K P c oid (map fst rows) (r # dn) s = Some (a # as, u)" using a(1,5) u(2) by simp
    moreover have "rows_serve rows (r # dn) (a # as) rows2" using a(4) u(3) by auto
    ultimately show ?thesis using u(1,4-6)
      by (intro exI [of _ "r # dn"] exI [of _ rest] exI [of _ "a # as"] exI [of _ u] exI [of _ m2] exI [of _ rows2]) simp
  qed
qed

end

section \<open>Over the disk, with LRU-K\<close>

text \<open>A new pool over a file that has only its header page.\<close>

context lruk_pool
begin

lemma new_table:
  assumes d: "table_disk d m" "stored d (header_loc file) = Some pg" "header_page_holds pg 0" and k: "0 < k" "n < 2 ^ 64 - 1"
  shows "tp.inv n (\<lambda>_. Free) (pool_new fs d (lk_new k)) m" "tp.holds_rows (pool_new fs d (lk_new k)) m file []"
proof -
  show "tp.inv n (\<lambda>_. Free) (pool_new fs d (lk_new k)) m"
    by (rule tp.new_pool_inv(1) [OF d(1) lk_new_ok(1) [OF k] lk_new_ok(2)])
  have "file_start (header_loc file)" "m 0 = None" using d(1) by (simp_all add: file_start_def header_loc_def table_disk_def)
  then have "tp.heap_table (pool_new fs d (lk_new k)) m file []"
    using d(2,3) by (simp add: tp.heap_table_def pool_view_def pool_new_def chain_first_def)
  then show "tp.holds_rows (pool_new fs d (lk_new k)) m file []"
    unfolding tp.holds_rows_def by (intro exI [of _ "[]"]) (simp add: few_slots_def)
qed

lemma table_rows:
  assumes "table_disk d m" "stored d (header_loc file) = Some pg" "header_page_holds pg 0" "table_file_id c oid = (Ok file :: ((dir_error, io_error) disk_error buffer_error accessor_error, u32) outcome)"
    "0 < k" "length rs * (length rs + 1) < 2 ^ 64 - 1" "\<forall>r\<in>set rs. row_fits r"
  shows "\<exists>done rest as s m' rows. rs = done @ rest \<and>
    table_serve pick btree_disk_ops (lruk_ops iter) c oid [] done (pool_new n d (lk_new k)) = Some (as, s) \<and> rows_serve [] done as rows \<and>
    table_disk (bp_disk s) m' \<and> (rest = [] \<or> (\<exists>txn d. hd rest = InsertRow txn d) \<and> \<not> can_add (bp_disk s) m')"
proof -
  have b: "reads_bound (length rs) 0 < 2 ^ 64 - 1" using assms(6) by (simp add: reads_bound_def)
  note new = new_table [OF assms(1-3,5) b, of n]
  have "tp.idle (reads_bound (length rs) (length ([] :: table_row list)) + 0) (pool_new n d (lk_new k)) m" using new(1) by simp
  from tp.rows_run [OF this new(2) assms(4,7)] have "\<exists>done rest as t m' rows'. rs = done @ rest \<and>
      table_serve pick btree_disk_ops (lruk_ops iter) c oid [] done (pool_new n d (lk_new k)) = Some (as, t) \<and> rows_serve [] done as rows' \<and>
      tp.idle 0 t m' \<and> tp.holds_rows t m' file rows' \<and> (rest = [] \<or> (\<exists>txn d. hd rest = InsertRow txn d) \<and> \<not> can_add (bp_disk t) m')"
    by (simp only: list.map)
  then obtain dn rest as s m' rows where r: "rs = dn @ rest"
      "table_serve pick btree_disk_ops (lruk_ops iter) c oid [] dn (pool_new n d (lk_new k)) = Some (as, s)" "rows_serve [] dn as rows"
      "tp.idle 0 s m'" "rest = [] \<or> (\<exists>txn d. hd rest = InsertRow txn d) \<and> \<not> can_add (bp_disk s) m'"
    by blast
  from r(1-3,5) tp.invD(1) [OF r(4)] show ?thesis by blast
qed

end

text \<open>A database with a file of a table that has no rows yet.\<close>

lemma empty_table:
  obtains d m pg where "table_disk d m" "stored d (header_loc file) = Some pg" "header_page_holds pg 0" "can_add d m"
proof -
  let ?b = "\<lparr> buf_addr = 0, buf_bytes = replicate PAGE_BUF_SIZE 0 \<rparr>"
  let ?hd = "\<lparr> hf_magic = hfh_MAGIC, hf_first_page = 0, hf_table_oid = 16, hf_free_list_root = 0, hf_version = 1, hf_pad = 0 \<rparr>"
  let ?pg = "buf_bytes (hfh_init ?b 0 16)"
  have h: "header_page_holds ?pg 0"
    using uber_fh_init [of ?b "heap_file_data_to_bytes ?hd" HeapFileHeader 0]
    by (simp add: header_page_holds_def hfh_init_def is_page_def)
  obtain d0 where d0: "btree_disk (disk_new d0 sa_new 0 Map.empty) Map.empty" "dnext d0 = 1"
    by (rule new_disk)
  let ?s = "disk_new d0 sa_new 4 Map.empty"
  have s: "btree_disk ?s Map.empty" "can_add ?s Map.empty" using d0 sa_new_space [of "Suc 0"]
    by (simp_all add: disk_rep_def disk_new_def handles_ok_def can_add_def dir_room_def)
  have t: "table_disk ?s Map.empty" using s(1) by (simp add: table_disk_def file_start_def disk_new_def sa_used_def sa_new_def)
  have "page_aligned (header_loc file)" by (simp add: page_aligned_def header_loc_def)
  moreover have "length ?pg = PAGE_BUF_SIZE" using h by (simp add: header_page_holds_def)
  ultimately obtain d where "table_disk d Map.empty" "stored d (header_loc file) = Some ?pg" "can_add d Map.empty"
    using table_store.write_place [OF t] s(2) by blast
  with h that show ?thesis by blast
qed

definition some_cache :: catalog_cache where
  "some_cache = \<lparr> cc_tables = [16 \<mapsto> \<lparr> table_oid = 16, table_name = ''t'', table_file = 5 \<rparr>], cc_tables_by_name = [''t'' \<mapsto> 16],
     cc_columns = Map.empty, cc_indexes = Map.empty, cc_indexes_by_name = Map.empty \<rparr>"

definition some_requests :: "table_request list" where
  "some_requests = [InsertRow \<lparr> txn_id = 7, txn_isolation = Snapshot \<rparr> [1, 2], GetRow \<lparr> txn_id = 8, txn_isolation = Snapshot \<rparr> 0,
     DeleteRow \<lparr> txn_id = 9, txn_isolation = Snapshot \<rparr> 0, ScanRows \<lparr> txn_id = 10, txn_isolation = Snapshot \<rparr>]"

section \<open>The property\<close>

text \<open>C37: A client of a table that starts empty is answered like the list of its rows: an insert gives an id no other
row has, a read and a delete obey the versions that the transaction sees, a scan gives every row it sees once; whatever
pages the rows go to and whatever the pool evicts. A request is refused for want of a frame and then changes no row, and
the run ends early only at an insert when the disk cannot take another page.\<close>

theorem table_answers_like_rows:
  assumes "visits_all iter" "\<forall>S. finite S \<longrightarrow> S \<noteq> {} \<longrightarrow> pick S \<in> S"
    "table_disk d m" "stored d (header_loc file) = Some pg" "header_page_holds pg 0"
    "table_file_id c oid = (Ok file :: ((dir_error, io_error) disk_error buffer_error accessor_error, u32) outcome)"
    "0 < k" "length rs * (length rs + 1) < 2 ^ 64 - 1" "\<forall>r\<in>set rs. row_fits r"
  shows "\<exists>done rest as s m' rows. rs = done @ rest \<and>
    table_serve pick btree_disk_ops (lruk_ops iter) c oid [] done (pool_new n d (lk_new k)) = Some (as, s) \<and> rows_serve [] done as rows \<and>
    table_disk (bp_disk s) m' \<and> (rest = [] \<or> (\<exists>txn d. hd rest = InsertRow txn d) \<and> \<not> can_add (bp_disk s) m')"
  by (rule lruk_pool.table_rows [OF any_pool [OF assms(1,2)] assms(3-9)])

theorem table_answers_like_rows_witness:
  "\<exists>d m done rest as s m' rows. table_disk d m \<and> can_add d m \<and> some_requests = done @ rest \<and>
    table_serve Min btree_disk_ops (lruk_ops by_number) some_cache 16 [] done (pool_new 2 d (lk_new 2)) = Some (as, s) \<and> rows_serve [] done as rows \<and>
    (rest = [] \<or> (\<exists>txn d. hd rest = InsertRow txn d) \<and> \<not> can_add (bp_disk s) m')"
proof -
  obtain d m pg where d: "table_disk d m" "stored d (header_loc 5) = Some pg" "header_page_holds pg 0" "can_add d m"
    by (rule empty_table)
  have "table_file_id some_cache 16 = (Ok 5 :: ((dir_error, io_error) disk_error buffer_error accessor_error, u32) outcome)"
    by (simp add: some_cache_def table_file_id_def get_table_by_oid_def ok_or_def)
  moreover have "(0 :: nat) < 2" "length some_requests * (length some_requests + 1) < 2 ^ 64 - 1" "\<forall>r\<in>set some_requests. row_fits r"
    by (simp_all add: some_requests_def)
  ultimately obtain dn rest as s m' rows where r: "some_requests = dn @ rest"
    "table_serve Min btree_disk_ops (lruk_ops by_number) some_cache 16 [] dn (pool_new 2 d (lk_new 2)) = Some (as, s)" "rows_serve [] dn as rows"
    "rest = [] \<or> (\<exists>txn d. hd rest = InsertRow txn d) \<and> \<not> can_add (bp_disk s) m'"
    using table_answers_like_rows [OF some_order d(1-3), of some_cache 16 2 some_requests 2] by blast
  with d(1,4) show ?thesis by blast
qed

end
