(* ===== verification/PoolSpare.thy ===== *)
theory PoolSpare
  imports PoolAccess
begin

text \<open>
  How many vacant frames a program over the pool needs so that it is not refused for want of a frame, and
  how many it leaves, whatever else is in the pool.
\<close>

abbreviation spare :: "('s, 'p) pool \<Rightarrow> nat" where
  "spare s \<equiv> card (vacant_frames s)"

text \<open>\<open>needs B k m\<close>: with \<open>k\<close> vacant frames the program does not fail with an error in \<open>B\<close>, and it takes at most
  \<open>k\<close> of them.\<close>

definition needs :: "('x \<Rightarrow> bool) \<Rightarrow> nat \<Rightarrow> (('s, 'p) pool, 'x, 'a) prog \<Rightarrow> bool" where
  "needs B k m \<longleftrightarrow> (\<forall>s r t. m s = Some (r, t) \<longrightarrow> spare s \<le> spare t + k \<and> (\<forall>e. r = Err e \<longrightarrow> B e \<longrightarrow> spare s < k))"

fun no_frame :: "'e buffer_error \<Rightarrow> bool" where
  "no_frame (EvictorError e) = True"
| "no_frame _ = False"

fun no_frame_access :: "'e buffer_error accessor_error \<Rightarrow> bool" where
  "no_frame_access (BufferError e) = no_frame e"
| "no_frame_access _ = False"

named_theorems needs_rules "what the parts of a program need"

lemma needsD:
  assumes "needs B k m" "m s = Some (r, t)"
  shows "spare s \<le> spare t + k" "r = Err e \<Longrightarrow> B e \<Longrightarrow> spare s < k"
  using assms unfolding needs_def by blast+

lemma needs_more:
  assumes "needs B j m" "j \<le> k"
  shows "needs B k m"
  unfolding needs_def
proof (intro allI impI conjI)
  fix s r t assume m: "m s = Some (r, t)"
  show "spare s \<le> spare t + k" using needsD(1) [OF assms(1) m] assms(2) by simp
  show "spare s < k" if "r = Err e" "B e" for e using needsD(2) [OF assms(1) m that] assms(2) by simp
qed

lemma needs_pbind [needs_rules]:
  assumes "needs B j m" "\<And>a. needs B k (g a)"
  shows "needs B (j + k) (pbind m g)"
  unfolding needs_def
proof (intro allI impI)
  fix s r u assume "pbind m g s = Some (r, u)"
  then consider (ok) a t where "m s = Some (Ok a, t)" "g a t = Some (r, u)"
    | (err) e where "m s = Some (Err e, u)" "r = Err e" | (panic) "m s = Some (Panic, u)" "r = Panic"
    by (auto simp: pbind_def split: option.splits prod.splits outcome.splits)
  then show "spare s \<le> spare u + (j + k) \<and> (\<forall>e. r = Err e \<longrightarrow> B e \<longrightarrow> spare s < j + k)"
  proof cases
    case ok
    note m = needsD [OF assms(1) ok(1)] and g = needsD [OF assms(2) ok(2)]
    show ?thesis using m(1) g(1) g(2) by fastforce
  next
    case err
    show ?thesis using needsD [OF assms(1) err(1)] err(2) by fastforce
  next
    case panic
    show ?thesis using needsD(1) [OF assms(1) panic(1)] panic(2) by simp
  qed
qed

lemma needs_basic [needs_rules]:
  "needs B 0 (ret a)" "needs B 0 (gets f)" "(\<And>s. vacant_frames (h s) = vacant_frames s) \<Longrightarrow> needs B 0 (modify h)"
  "(\<And>e. x = Err e \<Longrightarrow> \<not> B e) \<Longrightarrow> needs B 0 (lift x)" "\<not> B e \<Longrightarrow> needs B 0 (fail e)"
  by (auto simp: needs_def ret_def gets_def modify_def lift_def fail_def)

lemma needs_err:
  "needs B k m \<Longrightarrow> (\<And>e. C (h e) \<Longrightarrow> B e) \<Longrightarrow> needs C k (with_err h m)"
  unfolding needs_def with_err_def by (fastforce split: option.splits outcome.splits elim!: map_err.elims)

section \<open>The operations of the pool\<close>

lemma needs_frames:
  "needs no_frame 0 (latch_write f)" "needs no_frame 0 (latch_read f)" "needs no_frame 0 (incr_pin P f)" "needs no_frame 0 (decr_pin P f)"
  "needs no_frame 0 (mark_frame_dirty f)" "needs no_frame 0 (read_guard_new P f)" "needs no_frame 0 (write_guard_new f)" "needs no_frame 0 (downgrade f)"
  by (auto simp: needs_def latch_write_def latch_read_def incr_pin_def decr_pin_def mark_frame_dirty_def read_guard_new_def write_guard_new_def
      downgrade_def ret_def fail_def lift_def Let_def split: if_splits latch.splits frame_meta.splits)

lemma needs_drop: "needs no_frame 0 (drop_guard P f)"
proof -
  have "needs no_frame (0 + 0) (pbind (decr_pin P f) (\<lambda>_. modify (unlatch f)))"
    by (intro needs_rules needs_frames) (simp add: unlatch_def)
  then show ?thesis by (simp add: drop_guard_def)
qed

lemma needs_disk: "needs no_frame 0 (in_disk m)"
  unfolding needs_def in_disk_def by (auto split: option.splits elim!: map_err.elims)

lemma needs_unlatch: "needs no_frame k m \<Longrightarrow> needs no_frame k (unlatch_on_error f m)"
  unfolding needs_def unlatch_on_error_def by (fastforce simp: unlatch_def split: option.splits outcome.splits)

lemma needs_load: "needs no_frame 0 (load_page K l f)" "needs no_frame 0 (load_page_at_loc K v f)"
proof -
  have "needs no_frame (0 + 0) (pbind (in_disk (dm_read_page K l PAGE_BUF_SIZE)) (\<lambda>(v, data).
     modify (\<lambda>s. s\<lparr> pool_buf := (pool_buf s)[f := data], frame_metas := (frame_metas s)[f := Loaded l v False],
       ppage_map := (ppage_map s)(v \<mapsto> f) \<rparr>)))"
    by (intro needs_pbind needs_disk) (auto intro: needs_basic)
  from needs_unlatch [OF this] show "needs no_frame 0 (load_page K l f)" by (simp add: load_page_def)
  have "needs no_frame (0 + 0) (pbind (in_disk (dm_read_page_at_loc K v PAGE_BUF_SIZE)) (\<lambda>data.
     modify (\<lambda>s. s\<lparr> pool_buf := (pool_buf s)[f := data], frame_metas := (frame_metas s)[f := Loaded (page_id (uber_header data)) v False],
       lpage_map := (lpage_map s)(page_id (uber_header data) \<mapsto> f) \<rparr>)))"
    by (intro needs_pbind needs_disk) (auto intro: needs_basic)
  from needs_unlatch [OF this] show "needs no_frame 0 (load_page_at_loc K v f)" by (simp add: load_page_at_loc_def)
qed

text \<open>A frame for a page: one that has it, or a vacant one; without vacant frames there is nothing to show.\<close>

lemma needs_claim:
  assumes "\<And>f s. vacant_frames (publish f s) = vacant_frames s" "f \<in> vacant_frames s"
    "claim_frame P look publish f (s\<lparr> vacant_frames := vacant_frames s - {f} \<rparr>) = Some (r, t)"
  shows "spare s \<le> Suc (spare t) \<and> (\<forall>e. r = Err e \<longrightarrow> \<not> no_frame e)"
proof -
  have sub: "card (vacant_frames s) \<le> Suc (card (vacant_frames s - {f}))" using card_Diff1_le [of "vacant_frames s" f] diff_card_le_card_Diff [of "{f}" "vacant_frames s"] by simp
  have ins: "card (vacant_frames s) \<le> Suc (card (insert f (vacant_frames s - {f})))" using assms(2) by (simp add: insert_absorb)
  show ?thesis
    using assms(3) sub ins
    by (auto simp: claim_frame_def pbind_def incr_pin_def decr_pin_def latch_write_def ret_def lift_def modify_def unlatch_def assms(1) Let_def
        split: if_splits latch.splits option.splits)
qed

lemma needs_find:
  assumes "\<And>f s. vacant_frames (publish f s) = vacant_frames s" "\<And>S. finite S \<Longrightarrow> S \<noteq> {} \<Longrightarrow> pick S \<in> S"
  shows "needs no_frame 1 (find_frame pick K P look publish)"
  unfolding needs_def
proof (intro allI impI)
  fix s r t assume run: "find_frame pick K P look publish s = Some (r, t)"
  show "spare s \<le> spare t + 1 \<and> (\<forall>e. r = Err e \<longrightarrow> no_frame e \<longrightarrow> spare s < 1)"
  proof (cases "look s")
    case (Some f)
    then have "pbind (incr_pin P f) (\<lambda>_. ret (f, True)) s = Some (r, t)" using run by (subst (asm) find_frame.simps) simp
    then show ?thesis by (auto simp: pbind_def incr_pin_def ret_def lift_def Let_def split: if_splits)
  next
    case None
    show ?thesis
    proof (cases "vacant_frames s = {} \<or> infinite (vacant_frames s)")
      case False
      then have f: "pick (vacant_frames s) \<in> vacant_frames s" using assms(2) by blast
      have "claim_frame P look publish (pick (vacant_frames s)) (s\<lparr> vacant_frames := vacant_frames s - {pick (vacant_frames s)} \<rparr>) = Some (r, t)"
        using run None False by (subst (asm) find_frame.simps) (simp add: take_vacant_def)
      from needs_claim [OF assms(1) f this] show ?thesis by auto
    qed auto
  qed
qed

lemma needs_found: "needs no_frame 0 (pbind (latch_write f) (\<lambda>_. write_guard_new f))" "needs no_frame 0 (pbind (latch_read f) (\<lambda>_. read_guard_new P f))"
    "needs no_frame 0 (pbind (load_page K l f) (\<lambda>_. write_guard_new f))" "needs no_frame 0 (pbind (load_page_at_loc K v f) (\<lambda>_. write_guard_new f))"
    "needs no_frame 0 (pbind (load_page K l f) (\<lambda>_. pbind (write_guard_new f) downgrade))"
    "needs no_frame 0 (pbind (load_page_at_loc K v f) (\<lambda>_. pbind (write_guard_new f) downgrade))"
  using needs_pbind [where j = 0 and k = 0] needs_frames needs_load by (auto intro!: needs_pbind [where j = 0 and k = 0, simplified])

lemma needs_fetch:
  assumes "\<And>S. finite S \<Longrightarrow> S \<noteq> {} \<Longrightarrow> pick S \<in> S"
  shows "needs no_frame 1 (fetch_page_write pick K P l)" "needs no_frame 1 (fetch_page_read pick K P l)"
    "needs no_frame 1 (fetch_page_at_loc_write pick K P v)" "needs no_frame 1 (fetch_page_at_loc_read pick K P v)"
proof -
  have id: "needs no_frame 1 (find_by_lpage pick K P l)" and place: "needs no_frame 1 (find_by_loc pick K P v)"
    unfolding find_by_lpage_def find_by_loc_def by (rule needs_find; simp add: assms)+
  show "needs no_frame 1 (fetch_page_write pick K P l)" unfolding fetch_page_write_def
    by (rule needs_more [OF needs_pbind [OF id, where k = 0]]) (auto simp: needs_found split: prod.splits)
  show "needs no_frame 1 (fetch_page_read pick K P l)" unfolding fetch_page_read_def
    by (rule needs_more [OF needs_pbind [OF id, where k = 0]]) (auto simp: needs_found split: prod.splits)
  show "needs no_frame 1 (fetch_page_at_loc_write pick K P v)" unfolding fetch_page_at_loc_write_def
    by (rule needs_more [OF needs_pbind [OF place, where k = 0]]) (auto simp: needs_found split: prod.splits)
  show "needs no_frame 1 (fetch_page_at_loc_read pick K P v)" unfolding fetch_page_at_loc_read_def
    by (rule needs_more [OF needs_pbind [OF place, where k = 0]]) (auto simp: needs_found split: prod.splits)
qed

section \<open>The accessors\<close>

lemma needs_pool: "needs no_frame k m \<Longrightarrow> needs no_frame_access k (in_pool m)"
  by (rule needs_err [where B = no_frame]) simp_all

lemma needs_guard:
  fixes m :: "('s, 'p, 'e, 'a) access_prog"
  shows "needs no_frame_access k m \<Longrightarrow> needs no_frame_access k (with_guard P f m)"
  unfolding needs_def
proof (intro allI impI)
  fix s r u assume n: "\<forall>s r t. m s = Some (r, t) \<longrightarrow> spare s \<le> spare t + k \<and> (\<forall>e. r = Err e \<longrightarrow> no_frame_access e \<longrightarrow> spare s < k)"
    and run: "with_guard P f m s = Some (r, u)"
  then obtain r' t where m: "m s = Some (r', t)" "pbind (in_pool (drop_guard P f)) (\<lambda>_. lift r') t = Some (r, u)"
    by (auto simp: with_guard_def split: option.splits)
  then obtain d v where d: "drop_guard P f t = Some (d :: ('e buffer_error, unit) outcome, v)"
    by (cases "drop_guard P f t :: (('e buffer_error, unit) outcome \<times> ('s, 'p) pool) option") (auto simp: pbind_def with_err_def)
  note k = needsD [OF needs_drop d]
  have "v = u" "\<forall>e. r = Err e \<longrightarrow> r' = Err e \<or> (\<exists>x. d = Err x \<and> e = BufferError x)"
    using m(2) d by (cases d; auto simp: pbind_def with_err_def lift_def)+
  with k n m(1) show "spare s \<le> spare u + k \<and> (\<forall>e. r = Err e \<longrightarrow> no_frame_access e \<longrightarrow> spare s < k)" by fastforce
qed

lemma needs_from:
  "(\<And>p e. g p = Err e \<Longrightarrow> \<not> B e) \<Longrightarrow> needs B 0 (from_page f g)" "(\<And>b e. h b = Err e \<Longrightarrow> \<not> B e) \<Longrightarrow> needs B 0 (from_frame f h)"
  by (auto simp: needs_def from_page_def from_frame_def lift_def)

text \<open>A page that is fetched, used and released.\<close>

lemma needs_visit:
  fixes M :: "nat \<Rightarrow> ('s, 'p, 'e, 'a) access_prog"
  assumes "needs no_frame k fetch" "\<And>f. needs no_frame_access 0 (M f)"
  shows "needs no_frame_access k (pbind (in_pool fetch) (\<lambda>f. with_guard P f (M f)))"
  using needs_pbind [OF needs_pool [OF assms(1)], where g = "\<lambda>f. with_guard P f (M f)" and k = 0] needs_guard [OF assms(2)] by simp

end
