(* ===== verification/BtreeAccess.thy ===== *)
theory BtreeAccess
  imports PoolAccess IdxLeaf IdxInner
begin

text \<open>
  \<open>src/src/accessor/btree.rs\<close> and the index operations of \<open>src/src/accessor/accessor_impl.rs\<close>: the B-tree of an
  index, in the pages of a file whose header names the root. The code runs over a buffer pool and holds
  the guards of the pages it works on.
\<close>

section \<open>Keys\<close>

text \<open>The first eight bytes as a little-endian number, padded with zeros.\<close>

definition key_from_bytes :: "byte list \<Rightarrow> u64" where
  "key_from_bytes bs = u64_of (take 8 bs @ replicate (8 - length bs) 0)"

definition key_to_bytes :: "u64 \<Rightarrow> byte list" where
  "key_to_bytes key = u64_bytes key"

section \<open>Texts of errors\<close>

fun debug_page_type :: "page_type \<Rightarrow> string" where
  "debug_page_type Unused = ''Unused''"
| "debug_page_type HeapPage = ''HeapPage''"
| "debug_page_type BTreeInner = ''BTreeInner''"
| "debug_page_type BTreeLeaf = ''BTreeLeaf''"
| "debug_page_type HeapFileHeader = ''HeapFileHeader''"
| "debug_page_type IndexFileHeader = ''IndexFileHeader''"
| "debug_page_type DirectoryFileHeader = ''DirectoryFileHeader''"
| "debug_page_type DirectoryInner = ''DirectoryInner''"
| "debug_page_type DirectoryLeaf = ''DirectoryLeaf''"

fun debug_overlay_error :: "overlay_error \<Rightarrow> string" where
  "debug_overlay_error (TypeMismatch e t) = ''TypeMismatch { expected: '' @ debug_page_type e @ '', found: '' @ debug_page_type t @ '' }''"
| "debug_overlay_error (InvalidPageType b) = ''InvalidPageType('' @ decimal (unat b) @ '')''"
| "debug_overlay_error (PageFull c n) = ''PageFull { capacity: '' @ decimal c @ '', attempted: '' @ decimal n @ '' }''"
| "debug_overlay_error (DuplicateKey k) = ''DuplicateKey { key: '' @ decimal (unat k) @ '' }''"
| "debug_overlay_error (IndexOutOfBounds i n) = ''IndexOutOfBounds { index: '' @ decimal i @ '', max: '' @ decimal n @ '' }''"
| "debug_overlay_error (TransactionVisibility e c) = ''TransactionVisibility { entry_txn: '' @ decimal (unat e) @ '', current_txn: '' @ decimal (unat c) @ '' }''"

definition page_corruption :: "string \<Rightarrow> overlay_error \<Rightarrow> 'b accessor_error" where
  "page_corruption what e = AccessPageCorruption (what @ '': '' @ debug_overlay_error e)"

section \<open>Descending\<close>

definition bt_page_type :: "page \<Rightarrow> ('b accessor_error, page_type) outcome" where
  "bt_page_type p = map_err (\<lambda>_. AccessPageCorruption (''invalid page type '' @ decimal (unat (page_type_id (uber_header p)))))
     (page_type_try_from (page_type_id (uber_header p)))"

definition unexpected_page_type :: "page_type \<Rightarrow> string \<Rightarrow> 'b accessor_error" where
  "unexpected_page_type t during = AccessPageCorruption (''unexpected page type '' @ debug_page_type t @ '' during '' @ during)"

text \<open>What \<open>find_leaf\<close> and \<open>find_leaf_with_path\<close> do with a page: the child to go on with, or none at a leaf.\<close>

definition bt_step :: "u64 \<Rightarrow> page \<Rightarrow> ('b accessor_error, u32 option) outcome" where
  "bt_step key p = bind_ok (bt_page_type p) (\<lambda>t.
     if t = BTreeInner then map_outcome Some (unwrap (bi_find_child p key))
     else if t = BTreeLeaf then Ok None
     else Err (unexpected_page_type t ''B-Tree traversal''))"

partial_function (option) bt_find_leaf ::
  "(nat set \<Rightarrow> nat) \<Rightarrow> ('s, 'e) disk_ops \<Rightarrow> 'p policy_ops \<Rightarrow> u64 \<Rightarrow> u32 \<Rightarrow> ('s, 'p) pool \<Rightarrow>
    (('e buffer_error accessor_error, u32) outcome \<times> ('s, 'p) pool) option" where
  "bt_find_leaf pick K P key current s =
     pbind (in_pool (fetch_page_read pick K P current)) (\<lambda>f.
     pbind (with_guard P f (from_page f (bt_step key))) (\<lambda>r. (case r of
         Some child \<Rightarrow> bt_find_leaf pick K P key child | None \<Rightarrow> ret current))) s"

partial_function (option) bt_find_path ::
  "(nat set \<Rightarrow> nat) \<Rightarrow> ('s, 'e) disk_ops \<Rightarrow> 'p policy_ops \<Rightarrow> u64 \<Rightarrow> u32 \<Rightarrow> u32 list \<Rightarrow> ('s, 'p) pool \<Rightarrow>
    (('e buffer_error accessor_error, u32 \<times> u32 list) outcome \<times> ('s, 'p) pool) option" where
  "bt_find_path pick K P key current path s =
     pbind (in_pool (fetch_page_read pick K P current)) (\<lambda>f.
     pbind (with_guard P f (from_page f (bt_step key))) (\<lambda>r. (case r of
         Some child \<Rightarrow> bt_find_path pick K P key child (path @ [current]) | None \<Rightarrow> ret (current, path)))) s"

text \<open>
  The descent of an insertion, which holds write guards from the last page that has room downwards. The
  result is the leaf, its guard and the guards of the pages above it.
\<close>

definition bt_write_step :: "u64 \<Rightarrow> page \<Rightarrow> ('b accessor_error, bool \<times> u32 option) outcome" where
  "bt_write_step key p = bind_ok (bt_page_type p) (\<lambda>t.
     if t = BTreeInner then bind_ok (unwrap (bi_find_child p key)) (\<lambda>c. Ok (bi_is_safe_for_insert p, Some c))
     else if t = BTreeLeaf then Ok (bl_is_safe_for_insert p, None)
     else Err (unexpected_page_type t ''latch-crabbing traversal''))"

partial_function (option) bt_find_leaf_for_write ::
  "(nat set \<Rightarrow> nat) \<Rightarrow> ('s, 'e) disk_ops \<Rightarrow> 'p policy_ops \<Rightarrow> u64 \<Rightarrow> u32 \<Rightarrow> (u32 \<times> nat) list \<Rightarrow> ('s, 'p) pool \<Rightarrow>
    (('e buffer_error accessor_error, u32 \<times> nat \<times> (u32 \<times> nat) list) outcome \<times> ('s, 'p) pool) option" where
  "bt_find_leaf_for_write pick K P key current locked s =
     pbind (on_fail P (map snd locked) (in_pool (fetch_page_write pick K P current))) (\<lambda>f.
     pbind (on_fail P (f # map snd locked) (from_page f (bt_write_step key))) (\<lambda>r.
     pbind (if fst r then drop_guards P (map snd locked) else ret ()) (\<lambda>_.
     (case snd r of
         Some c \<Rightarrow> bt_find_leaf_for_write pick K P key c ((if fst r then [] else locked) @ [(current, f)])
       | None \<Rightarrow> ret (current, f, if fst r then [] else locked))))) s"

section \<open>New pages and the file header\<close>

definition alloc_page :: "(nat set \<Rightarrow> nat) \<Rightarrow> ('s, 'e) disk_ops \<Rightarrow> 'p policy_ops \<Rightarrow> u32 \<Rightarrow> ('s, 'p, 'e, u32 \<times> nat) access_prog" where
  "alloc_page pick K P file = pbind (in_pool (pool_new_page pick K P file)) (\<lambda>f.
     pbind (on_fail P [f] (in_pool (frame_lpage_id f))) (\<lambda>l. ret (l, f)))"

definition bt_header_data :: "mem_buf \<Rightarrow> ('b accessor_error, index_file_data) outcome" where
  "bt_header_data b = bind_ok (fh_new b) (\<lambda>b. map_err (\<lambda>_. AccessPageCorruption ''index file header unreadable'') (ifh_data b))"

definition bt_read_root_page :: "(nat set \<Rightarrow> nat) \<Rightarrow> ('s, 'e) disk_ops \<Rightarrow> 'p policy_ops \<Rightarrow> u32 \<Rightarrow> ('s, 'p, 'e, u32) access_prog" where
  "bt_read_root_page pick K P file = pbind (in_pool (fetch_page_at_loc_read pick K P (header_loc file))) (\<lambda>g.
     with_guard P g (from_frame g (\<lambda>b. map_outcome if_root_page (bt_header_data b))))"

text \<open>Writing the root into the header behind a guard; the result is the root it had.\<close>

definition put_root_page :: "nat \<Rightarrow> u32 \<Rightarrow> ('s, 'p, 'e, u32) access_prog" where
  "put_root_page g r_new =
     pbind (from_frame g fh_new) (\<lambda>_.
     pbind (from_frame g (\<lambda>b. map_outcome if_root_page (map_err (\<lambda>_. AccessPageCorruption ''index file header unwritable'') (ifh_data b)))) (\<lambda>r_old.
     pbind (with_err (\<lambda>_. AccessPageCorruption ''index file header unwritable'')
       (on_frame g (page_upd (ifh_data_mut (\<lambda>d. d\<lparr> if_root_page := r_new \<rparr>))))) (\<lambda>_.
     pbind (mark_dirty g) (\<lambda>_. ret r_old))))"

definition bt_set_root_page :: "(nat set \<Rightarrow> nat) \<Rightarrow> ('s, 'e) disk_ops \<Rightarrow> 'p policy_ops \<Rightarrow> u32 \<Rightarrow> u32 \<Rightarrow> ('s, 'p, 'e, unit) access_prog" where
  "bt_set_root_page pick K P file r_new = pbind (in_pool (fetch_page_at_loc_write pick K P (header_loc file))) (\<lambda>g.
     pbind (with_guard P g (put_root_page g r_new)) (\<lambda>_. ret ()))"

definition alloc_and_set_root :: "(nat set \<Rightarrow> nat) \<Rightarrow> ('s, 'e) disk_ops \<Rightarrow> 'p policy_ops \<Rightarrow> u32 \<Rightarrow> ('s, 'p, 'e, u32 \<times> u32 \<times> nat) access_prog" where
  "alloc_and_set_root pick K P file = pbind (alloc_page pick K P file) (\<lambda>(r_new, f).
     pbind (on_fail P [f] (in_pool (fetch_page_at_loc_write pick K P (header_loc file)))) (\<lambda>g.
     pbind (on_fail P [f] (with_guard P g (put_root_page g r_new))) (\<lambda>r_old.
     ret (r_new, r_old, f))))"

section \<open>Splitting\<close>

fun bl_insert_all :: "btree_leaf_entry list \<Rightarrow> (page, overlay_error, unit) prog" where
  "bl_insert_all [] = ret ()"
| "bl_insert_all (e # es) = pbind (page_upd (bl_insert_entry (bl_key e) (record_page e) (record_slot e))) (\<lambda>_. bl_insert_all es)"

fun bi_insert_all :: "inner_entry list \<Rightarrow> (page, overlay_error, unit) prog" where
  "bi_insert_all [] = ret ()"
| "bi_insert_all (e # es) = pbind (page_upd (bi_insert_separator (separator_key e) (right_child e))) (\<lambda>_. bi_insert_all es)"

text \<open>A page that starts afresh with the given entries and links.\<close>

definition bt_build_leaf :: "string \<Rightarrow> u32 \<Rightarrow> btree_leaf_entry list \<Rightarrow> u32 \<Rightarrow> u32 \<Rightarrow> nat \<Rightarrow> ('s, 'p, 'e, unit) access_prog" where
  "bt_build_leaf what pid es next prev f =
     pbind (on_page f (modify (\<lambda>p. bl_init p pid))) (\<lambda>_.
     pbind (with_err (page_corruption what) (on_page f (bl_insert_all es))) (\<lambda>_.
     on_page f (modify (\<lambda>p. leaf_set_prev_page prev (leaf_set_next_page next p)))))"

definition bt_build_inner :: "string \<Rightarrow> u32 \<Rightarrow> u32 \<Rightarrow> inner_entry list \<Rightarrow> nat \<Rightarrow> ('s, 'p, 'e, unit) access_prog" where
  "bt_build_inner what pid leftmost es f =
     pbind (on_page f (modify (\<lambda>p. bi_init p pid leftmost))) (\<lambda>_.
     with_err (page_corruption what) (on_page f (bi_insert_all es)))"

text \<open>The page at another id gets a new left neighbour.\<close>

definition bt_set_prev :: "(nat set \<Rightarrow> nat) \<Rightarrow> ('s, 'e) disk_ops \<Rightarrow> 'p policy_ops \<Rightarrow> u32 \<Rightarrow> u32 \<Rightarrow> ('s, 'p, 'e, unit) access_prog" where
  "bt_set_prev pick K P l prev = (if l = 0 then ret () else
     pbind (in_pool (fetch_page_write pick K P l)) (\<lambda>g. with_guard P g (
       pbind (on_page g (modify (leaf_set_prev_page prev))) (\<lambda>_. mark_dirty g))))"

definition bt_split_leaf :: "(nat set \<Rightarrow> nat) \<Rightarrow> ('s, 'e) disk_ops \<Rightarrow> 'p policy_ops \<Rightarrow> u32 \<Rightarrow> nat \<Rightarrow> u32 \<Rightarrow> btree_leaf_entry option \<Rightarrow>
    ('s, 'p, 'e, u32 \<times> u64) access_prog" where
  "bt_split_leaf pick K P file f leaf_id extra = pbind (gets (guard_page f)) (\<lambda>p.
     pbind (lift (map_err (page_corruption ''read leaf entry'') (traverse (bl_entry p) [0..<leaf_num_entries p]))) (\<lambda>entries0.
     pbind (lift (case extra of
         None \<Rightarrow> Ok entries0
       | Some e \<Rightarrow> (case binary_search_by_key bl_key (bl_key e) entries0 of
             Inl _ \<Rightarrow> Err (AccessPageCorruption ''duplicate key during leaf split'')
           | Inr pos \<Rightarrow> Ok (vec_insert pos e entries0)))) (\<lambda>entries.
     let mid = length entries div 2 in
     if entries = [] then lift Panic else
     pbind (alloc_page pick K P file) (\<lambda>(new_leaf, g).
     pbind (with_guard P g (pbind (bt_build_leaf ''split new leaf'' new_leaf (drop mid entries) (leaf_next_page p) leaf_id g) (\<lambda>_. mark_dirty g))) (\<lambda>_.
     pbind (bt_build_leaf ''split old leaf'' leaf_id (take mid entries) new_leaf (leaf_prev_page p) f) (\<lambda>_.
     pbind (bt_set_prev pick K P (leaf_next_page p) new_leaf) (\<lambda>_.
     ret (new_leaf, bl_key (entries ! mid)))))))))"

definition bt_split_inner :: "(nat set \<Rightarrow> nat) \<Rightarrow> ('s, 'e) disk_ops \<Rightarrow> 'p policy_ops \<Rightarrow> u32 \<Rightarrow> nat \<Rightarrow> u32 \<Rightarrow> u64 \<Rightarrow> u32 \<Rightarrow>
    ('s, 'p, 'e, u32 \<times> u64) access_prog" where
  "bt_split_inner pick K P file f inner_id sep_key rchild = pbind (gets (guard_page f)) (\<lambda>p.
     pbind (lift (map_err (page_corruption ''read inner entry'') (traverse (bi_entry p) [0..<inner_num_keys p]))) (\<lambda>entries0.
     (case binary_search_by_key separator_key sep_key entries0 of
         Inl _ \<Rightarrow> fail (AccessPageCorruption ''duplicate separator during inner split'')
       | Inr pos \<Rightarrow>
         let entries = vec_insert pos (inner_entry_new sep_key rchild) entries0;
             mid = length entries div 2
         in
         pbind (alloc_page pick K P file) (\<lambda>(new_inner, g).
         pbind (with_guard P g (pbind (bt_build_inner ''split new inner'' new_inner (right_child (entries ! mid)) (drop (mid + 1) entries) g) (\<lambda>_. mark_dirty g))) (\<lambda>_.
         pbind (bt_build_inner ''split old inner'' inner_id (inner_leftmost_child p) (take mid entries) f) (\<lambda>_.
         ret (new_inner, separator_key (entries ! mid))))))))"

text \<open>
  One round over a page above a split that is held with a guard: nothing left to do, or the separator and
  child for the page above.
\<close>

definition bt_ancestor :: "(nat set \<Rightarrow> nat) \<Rightarrow> ('s, 'e) disk_ops \<Rightarrow> 'p policy_ops \<Rightarrow> u32 \<Rightarrow> u32 \<Rightarrow> nat \<Rightarrow> u64 \<Rightarrow> u32 \<Rightarrow>
    ('s, 'p, 'e, (u32 \<times> u64) option) access_prog" where
  "bt_ancestor pick K P file parent f sep_key new_child = pbind (gets (guard_page f)) (\<lambda>p.
     if inner_num_keys p < MAX_KEYS
     then pbind (with_err (page_corruption ''parent insert'') (on_page f (page_upd (bi_insert_separator sep_key new_child)))) (\<lambda>_. ret None)
     else pbind (bt_split_inner pick K P file f parent sep_key new_child) (\<lambda>r. ret (Some r)))"

definition bt_new_root :: "(nat set \<Rightarrow> nat) \<Rightarrow> ('s, 'e) disk_ops \<Rightarrow> 'p policy_ops \<Rightarrow> u32 \<Rightarrow> u64 \<Rightarrow> u32 \<Rightarrow> ('s, 'p, 'e, unit) access_prog" where
  "bt_new_root pick K P file sep_key new_child = pbind (alloc_and_set_root pick K P file) (\<lambda>(r_new, r_old, f).
     with_guard P f (
       pbind (on_page f (modify (\<lambda>p. bi_init p r_new r_old))) (\<lambda>_.
       pbind (with_err (page_corruption ''new root insert'') (on_page f (page_upd (bi_insert_separator sep_key new_child)))) (\<lambda>_.
       mark_dirty f))))"

text \<open>The pages above are taken from the end of the list, so the list is the reverse of \<open>locked\<close>.\<close>

fun bt_ancestors :: "(nat set \<Rightarrow> nat) \<Rightarrow> ('s, 'e) disk_ops \<Rightarrow> 'p policy_ops \<Rightarrow> u32 \<Rightarrow> (u32 \<times> nat) list \<Rightarrow> u64 \<Rightarrow> u32 \<Rightarrow>
    ('s, 'p, 'e, unit) access_prog" where
  "bt_ancestors pick K P file [] sep_key new_child = bt_new_root pick K P file sep_key new_child"
| "bt_ancestors pick K P file ((parent, f) # rest) sep_key new_child =
     pbind (on_fail P (map snd (rev rest)) (with_guard P f (bt_ancestor pick K P file parent f sep_key new_child))) (\<lambda>r. (case r of
         None \<Rightarrow> drop_guards P (map snd (rev rest))
       | Some (new_inner, pushed_up) \<Rightarrow> bt_ancestors pick K P file rest pushed_up new_inner))"

definition insert_into_ancestors_with_locks :: "(nat set \<Rightarrow> nat) \<Rightarrow> ('s, 'e) disk_ops \<Rightarrow> 'p policy_ops \<Rightarrow> u32 \<Rightarrow> (u32 \<times> nat) list \<Rightarrow> u64 \<Rightarrow> u32 \<Rightarrow>
    ('s, 'p, 'e, unit) access_prog" where
  "insert_into_ancestors_with_locks pick K P file locked sep_key new_child = bt_ancestors pick K P file (rev locked) sep_key new_child"

section \<open>Insert\<close>

definition bl_put :: "u64 \<Rightarrow> record_id \<Rightarrow> nat \<Rightarrow> ('s, 'p, 'e, unit) access_prog" where
  "bl_put key rid f = with_err (page_corruption ''leaf insert'') (on_page f (page_upd (bl_insert_entry key (rid_page rid) (rid_slot rid))))"

definition bt_insert_first :: "(nat set \<Rightarrow> nat) \<Rightarrow> ('s, 'e) disk_ops \<Rightarrow> 'p policy_ops \<Rightarrow> u32 \<Rightarrow> u64 \<Rightarrow> record_id \<Rightarrow> ('s, 'p, 'e, unit) access_prog" where
  "bt_insert_first pick K P file key rid = pbind (alloc_page pick K P file) (\<lambda>(l, f). with_guard P f (
     pbind (on_page f (modify (\<lambda>p. bl_init p l))) (\<lambda>_.
     pbind (bl_put key rid f) (\<lambda>_.
     pbind (mark_dirty f) (\<lambda>_.
     bt_set_root_page pick K P file l)))))"

text \<open>With room in the leaf, the leaf is changed and its guard dropped; \<open>mark_dirty\<close> is not called.\<close>

definition bt_insert :: "(nat set \<Rightarrow> nat) \<Rightarrow> ('s, 'e) disk_ops \<Rightarrow> 'p policy_ops \<Rightarrow> u32 \<Rightarrow> byte list \<Rightarrow> record_id \<Rightarrow> ('s, 'p, 'e, unit) access_prog" where
  "bt_insert pick K P file key rid = pbind (bt_read_root_page pick K P file) (\<lambda>root.
     if root = 0 then bt_insert_first pick K P file (key_from_bytes key) rid
     else pbind (bt_find_leaf_for_write pick K P (key_from_bytes key) root []) (\<lambda>(leaf, f, locked).
       pbind (gets (guard_page f)) (\<lambda>p.
       if bl_needs_split p then
         pbind (on_fail P (map snd locked @ [f]) (bt_split_leaf pick K P file f leaf
           (Some (btree_leaf_entry_new (key_from_bytes key) (rid_page rid) (rid_slot rid))))) (\<lambda>(new_leaf, sep).
         pbind (drop_guards P [f]) (\<lambda>_.
         insert_into_ancestors_with_locks pick K P file locked sep new_leaf))
       else with_guard P f (pbind (on_fail P (map snd locked) (bl_put (key_from_bytes key) rid f)) (\<lambda>_.
         drop_guards P (map snd locked))))))"

section \<open>Get\<close>

definition bt_get :: "(nat set \<Rightarrow> nat) \<Rightarrow> ('s, 'e) disk_ops \<Rightarrow> 'p policy_ops \<Rightarrow> u32 \<Rightarrow> byte list \<Rightarrow> ('s, 'p, 'e, record_id) access_prog" where
  "bt_get pick K P file key = pbind (bt_read_root_page pick K P file) (\<lambda>root.
     if root = 0 then fail TupleNonExistent
     else pbind (bt_find_leaf pick K P (key_from_bytes key) root) (\<lambda>leaf.
       pbind (in_pool (fetch_page_read pick K P leaf)) (\<lambda>f. with_guard P f (
         pbind (from_page f (\<lambda>p. unwrap (bl_lookup p (key_from_bytes key)))) (\<lambda>r. (case r of
             Some (l, i) \<Rightarrow> ret \<lparr> rid_page = l, rid_slot = i \<rparr> | None \<Rightarrow> fail TupleNonExistent))))))"

section \<open>Scan\<close>

record btree_scan_state =
  bs_leaf :: u32
  bs_start :: "u64 option"
  bs_end :: "u64 option"
  bs_buffered :: "(byte list \<times> record_id) list"
  bs_idx :: nat
  bs_done :: bool

text \<open>
  The loop over the entries of a leaf: what it buffers, and how it ends, with \<open>True\<close> when it stops at a key
  above the end.
\<close>

fun leaf_items :: "page \<Rightarrow> u64 option \<Rightarrow> u64 option \<Rightarrow> nat list \<Rightarrow> (byte list \<times> record_id) list \<times> (overlay_error, bool) outcome" where
  "leaf_items p start end [] = ([], Ok False)"
| "leaf_items p start end (i # is) = (case bl_entry p i of
       Ok e \<Rightarrow> if (case start of Some k \<Rightarrow> bl_key e < k | None \<Rightarrow> False) then leaf_items p start end is
         else if (case end of Some k \<Rightarrow> k < bl_key e | None \<Rightarrow> False) then ([], Ok True)
         else (let (items, r) = leaf_items p start end is in
           ((key_to_bytes (bl_key e), \<lparr> rid_page = record_page e, rid_slot = record_slot e \<rparr>) # items, r))
     | Err er \<Rightarrow> ([], Err er)
     | Panic \<Rightarrow> ([], Panic))"

text \<open>A round of the stream's loop that reads a leaf: an error to yield, or the end of the stream, or neither.\<close>

datatype 'e scan_round = Round_error "'e buffer_error accessor_error" | Round_end | Round_on

definition bt_scan_load :: "(nat set \<Rightarrow> nat) \<Rightarrow> ('s, 'e) disk_ops \<Rightarrow> 'p policy_ops \<Rightarrow> btree_scan_state \<Rightarrow>
    ('s, 'p, 'e, 'e scan_round \<times> btree_scan_state) access_prog" where
  "bt_scan_load pick K P st = pbind (caught (fetch_page_read pick K P (bs_leaf st))) (\<lambda>r. (case r of
       Err e \<Rightarrow> ret (Round_error (BufferError e), st)
     | Panic \<Rightarrow> lift Panic
     | Ok f \<Rightarrow> with_guard P f (pbind (gets (guard_page f)) (\<lambda>p.
         let (items, res) = leaf_items p (bs_start st) (bs_end st) [0..<leaf_num_entries p];
             st' = st\<lparr> bs_buffered := items, bs_idx := 0 \<rparr>
         in (case res of
             Ok past \<Rightarrow> let st'' = st'\<lparr> bs_done := bs_done st \<or> past, bs_start := None, bs_leaf := leaf_next_page p \<rparr> in
               ret (if leaf_next_page p = 0 \<and> items = [] then Round_end else Round_on, st'')
           | Err e \<Rightarrow> ret (Round_error (page_corruption ''btree leaf entry read'' e), st')
           | Panic \<Rightarrow> lift Panic)))))"

partial_function (option) bt_scan_loop ::
  "(nat set \<Rightarrow> nat) \<Rightarrow> ('s, 'e) disk_ops \<Rightarrow> 'p policy_ops \<Rightarrow> btree_scan_state \<Rightarrow> ('s, 'p) pool \<Rightarrow>
    (('e buffer_error accessor_error, ('e buffer_error accessor_error, byte list \<times> record_id) outcome option \<times> btree_scan_state) outcome
      \<times> ('s, 'p) pool) option" where
  "bt_scan_loop pick K P st s =
     (if bs_idx st < length (bs_buffered st)
      then ret (Some (Ok (bs_buffered st ! bs_idx st)), st\<lparr> bs_idx := bs_idx st + 1 \<rparr>) s
      else if bs_leaf st = 0 \<or> bs_done st then ret (None, st) s
      else pbind (bt_scan_load pick K P st) (\<lambda>(r, st'). (case r of
          Round_error e \<Rightarrow> ret (Some (Err e), st')
        | Round_end \<Rightarrow> ret (None, st')
        | Round_on \<Rightarrow> bt_scan_loop pick K P st')) s)"

text \<open>The closure of the stream looks at \<open>done\<close> before the loop.\<close>

definition bt_scan_next where
  "bt_scan_next pick K P st s = (if bs_done st then ret (None, st) s else bt_scan_loop pick K P st s)"

definition bt_scan :: "(nat set \<Rightarrow> nat) \<Rightarrow> ('s, 'e) disk_ops \<Rightarrow> 'p policy_ops \<Rightarrow> u32 \<Rightarrow> byte list option \<Rightarrow> byte list option \<Rightarrow>
    ('s, 'p, 'e, btree_scan_state) access_prog" where
  "bt_scan pick K P file start_key end_key = pbind (bt_read_root_page pick K P file) (\<lambda>root.
     let start = map_option key_from_bytes start_key in
     pbind (if root = 0 then ret (0, True)
       else pbind (bt_find_leaf pick K P (case start of Some k \<Rightarrow> k | None \<Rightarrow> 0) root) (\<lambda>leaf. ret (leaf, False))) (\<lambda>(leaf, is_done).
     ret \<lparr> bs_leaf = leaf, bs_start = start, bs_end = map_option key_from_bytes end_key, bs_buffered = [], bs_idx = 0, bs_done = is_done \<rparr>))"

section \<open>Merging leaves\<close>

record merge_info =
  survivor :: u32
  removed :: u32
  sep_idx :: nat

text \<open>The position of the child among the entries of a page; a failed read ends the search.\<close>

fun child_position :: "page \<Rightarrow> u32 \<Rightarrow> nat list \<Rightarrow> (overlay_error, nat option) outcome" where
  "child_position p leaf [] = Ok None"
| "child_position p leaf (i # is) = bind_ok (bi_entry p i) (\<lambda>e.
     if right_child e = leaf then Ok (Some i) else child_position p leaf is)"

definition find_merge_candidate :: "page \<Rightarrow> u32 \<Rightarrow> ('e, merge_info option) outcome" where
  "find_merge_candidate p leaf = (case
     (if inner_num_keys p = 0 then Ok None
      else if leaf = inner_leftmost_child p then bind_ok (bi_entry p 0) (\<lambda>e.
        Ok (Some \<lparr> survivor = leaf, removed = right_child e, sep_idx = 0 \<rparr>))
      else bind_ok (child_position p leaf [0..<inner_num_keys p]) (\<lambda>r. (case r of
          None \<Rightarrow> Ok None
        | Some i \<Rightarrow> bind_ok (if i = 0 then Ok (inner_leftmost_child p) else map_outcome right_child (bi_entry p (i - 1))) (\<lambda>left.
            Ok (Some \<lparr> survivor = left, removed = leaf, sep_idx = i \<rparr>)))))
   of Ok r \<Rightarrow> Ok r | Err e \<Rightarrow> Ok None | Panic \<Rightarrow> Panic)"

text \<open>With the parent and the survivor held: the entries of the page that goes away, and its right neighbour.\<close>

definition bt_read_removed :: "(nat set \<Rightarrow> nat) \<Rightarrow> ('s, 'e) disk_ops \<Rightarrow> 'p policy_ops \<Rightarrow> u32 \<Rightarrow> nat \<Rightarrow>
    ('s, 'p, 'e, (btree_leaf_entry list \<times> u32) option) access_prog" where
  "bt_read_removed pick K P l fs = pbind (in_pool (fetch_page_write pick K P l)) (\<lambda>fr. with_guard P fr (
     pbind (gets (guard_page fs)) (\<lambda>sp. pbind (gets (guard_page fr)) (\<lambda>rp.
     if bl_MAX_ENTRIES < leaf_num_entries sp + leaf_num_entries rp then ret None
     else pbind (lift (map_err (page_corruption ''merge read removed'') (traverse (bl_entry rp) [0..<leaf_num_entries rp]))) (\<lambda>es.
       ret (Some (es, leaf_next_page rp)))))))"

definition bt_fill_survivor :: "btree_leaf_entry list \<Rightarrow> u32 \<Rightarrow> nat \<Rightarrow> ('s, 'p, 'e, unit) access_prog" where
  "bt_fill_survivor es next fs =
     pbind (with_err (page_corruption ''merge insert'') (on_page fs (bl_insert_all es))) (\<lambda>_.
     pbind (on_page fs (modify (leaf_set_next_page next))) (\<lambda>_. mark_dirty fs))"

text \<open>With the guards of parent and survivor: whether leaves were merged.\<close>

definition bt_merge_children :: "(nat set \<Rightarrow> nat) \<Rightarrow> ('s, 'e) disk_ops \<Rightarrow> 'p policy_ops \<Rightarrow> merge_info \<Rightarrow> nat \<Rightarrow> nat \<Rightarrow> ('s, 'p, 'e, bool) access_prog" where
  "bt_merge_children pick K P m fp fs = pbind (bt_read_removed pick K P (removed m) fs) (\<lambda>r. (case r of
       None \<Rightarrow> ret False
     | Some (es, next) \<Rightarrow>
         pbind (bt_fill_survivor es next fs) (\<lambda>_.
         pbind (bt_set_prev pick K P next (survivor m)) (\<lambda>_.
         pbind (with_err (page_corruption ''merge delete sep'') (on_page fp (page_upd (bi_delete_separator (sep_idx m))))) (\<lambda>_.
         pbind (mark_dirty fp) (\<lambda>_. ret True))))))"

text \<open>A root with one child left gives way to it, while the guard of the survivor is still held.\<close>

definition try_merge_leaf :: "(nat set \<Rightarrow> nat) \<Rightarrow> ('s, 'e) disk_ops \<Rightarrow> 'p policy_ops \<Rightarrow> u32 \<Rightarrow> u32 \<Rightarrow> u32 list \<Rightarrow> u32 \<Rightarrow> ('s, 'p, 'e, unit) access_prog" where
  "try_merge_leaf pick K P file leaf path root = (if path = [] then ret () else
     pbind (in_pool (fetch_page_write pick K P (last path))) (\<lambda>fp.
     pbind (on_fail P [fp] (from_page fp (\<lambda>p. find_merge_candidate p leaf))) (\<lambda>info. (case info of
         None \<Rightarrow> drop_guards P [fp]
       | Some m \<Rightarrow>
           pbind (on_fail P [fp] (in_pool (fetch_page_write pick K P (survivor m)))) (\<lambda>fs.
           pbind (on_fail P [fs, fp] (bt_merge_children pick K P m fp fs)) (\<lambda>merged.
           pbind (gets (guard_page fp)) (\<lambda>p.
           if merged \<and> last path = root \<and> inner_num_keys p = 0
           then pbind (drop_guards P [fp]) (\<lambda>_. with_guard P fs (bt_set_root_page pick K P file (inner_leftmost_child p)))
           else drop_guards P [fs, fp])))))))"

section \<open>Delete\<close>

definition bt_remove :: "u64 \<Rightarrow> record_id \<Rightarrow> nat \<Rightarrow> ('s, 'p, 'e, bool) access_prog" where
  "bt_remove key rid f = pbind (from_page f (\<lambda>p. unwrap (bl_find_slot p key))) (\<lambda>(found, pos).
     if \<not> found then fail TupleNonExistent
     else pbind (from_page f (\<lambda>p. map_err (page_corruption ''leaf entry read'') (bl_entry p pos))) (\<lambda>e.
       if record_page e \<noteq> rid_page rid \<or> record_slot e \<noteq> rid_slot rid then fail TupleNonExistent
       else pbind (with_err (page_corruption ''leaf delete failed'') (on_page f (page_upd (bl_delete_entry pos)))) (\<lambda>_.
         pbind (gets (guard_page f)) (\<lambda>p. ret (bl_can_merge p)))))"

text \<open>The guard of the leaf is in scope until the end, also while leaves are merged.\<close>

definition bt_delete :: "(nat set \<Rightarrow> nat) \<Rightarrow> ('s, 'e) disk_ops \<Rightarrow> 'p policy_ops \<Rightarrow> u32 \<Rightarrow> byte list \<Rightarrow> record_id \<Rightarrow> ('s, 'p, 'e, unit) access_prog" where
  "bt_delete pick K P file key rid = pbind (bt_read_root_page pick K P file) (\<lambda>root.
     if root = 0 then fail TupleNonExistent
     else pbind (bt_find_path pick K P (key_from_bytes key) root []) (\<lambda>(leaf, path).
       pbind (in_pool (fetch_page_write pick K P leaf)) (\<lambda>f. with_guard P f (
         pbind (bt_remove (key_from_bytes key) rid f) (\<lambda>can_merge.
         pbind (mark_dirty f) (\<lambda>_.
         if can_merge then try_merge_leaf pick K P file leaf path root else ret ()))))))"

section \<open>The accessor's index operations\<close>

definition index_file_id :: "catalog_cache \<Rightarrow> u32 \<Rightarrow> ('b accessor_error, u32) outcome" where
  "index_file_id c oid = map_outcome index_file (get_index_by_oid c oid)"

definition index_scan_op where
  "index_scan_op pick K P c oid start_key end_key = pbind (lift (index_file_id c oid)) (\<lambda>file. bt_scan pick K P file start_key end_key)"

definition index_insert where
  "index_insert pick K P c oid key rid = pbind (lift (index_file_id c oid)) (\<lambda>file. bt_insert pick K P file key rid)"

definition index_get where
  "index_get pick K P c oid key = pbind (lift (index_file_id c oid)) (\<lambda>file. bt_get pick K P file key)"

definition index_delete where
  "index_delete pick K P c oid key rid = pbind (lift (index_file_id c oid)) (\<lambda>file. bt_delete pick K P file key rid)"

end
