(* ===== verification/IndexPages.thy ===== *)
theory IndexPages
  imports BtreeAccess TreeSearch
begin

text \<open>
  The pages of an index as a tree: what the steps of \<open>src/src/accessor/btree.rs\<close> read from a page that holds
  a leaf, a node or the file header, the leaves of a tree from left to right, and the entries that a scan
  takes from them.
\<close>

section \<open>Pages\<close>

definition index_format :: "btree_leaf_entry format" where
  "index_format = (leaf_page bl_layout BTreeLeaf, node_page BTreeInner)"

lemma index_format_simps [simp]:
  "fst index_format = leaf_page bl_layout BTreeLeaf" "snd index_format = node_page BTreeInner"
  by (simp_all add: index_format_def)

abbreviation irep :: "pages \<Rightarrow> btree_leaf_entry tree \<Rightarrow> bool" where "irep \<equiv> rep index_format"

abbreviation index_leaf :: "page \<Rightarrow> btree_leaf_entry list \<Rightarrow> bool" where
  "index_leaf \<equiv> leaf_page bl_layout BTreeLeaf"

text \<open>The header page of an index file whose root is \<open>root\<close>.\<close>

definition index_header_holds :: "page \<Rightarrow> u32 \<Rightarrow> bool" where
  "index_header_holds pg root \<longleftrightarrow> length pg = PAGE_BUF_SIZE \<and> page_id (uber_header pg) = 0 \<and>
     if_root_page (index_file_data_of_bytes (bytes_at 16 28 pg)) = root"

lemma index_header_frame:
  assumes "index_header_holds pg root" "pool_buf u ! f = pg"
  shows "fh_new (frame_buf f u) = Ok (frame_buf f u)" "is_page (buf_bytes (frame_buf f u))" "buf_addr (frame_buf f u) mod 4 = 0"
    "ifh_data (frame_buf f u) = Ok (index_file_data_of_bytes (bytes_at 16 28 pg))"
proof -
  have b: "frame_buf f u = \<lparr> buf_addr = f * PAGE_BUF_SIZE, buf_bytes = pg \<rparr>" using assms(2) by (simp add: frame_buf_def guard_page_def)
  show p: "is_page (buf_bytes (frame_buf f u))" "buf_addr (frame_buf f u) mod 4 = 0" "fh_new (frame_buf f u) = Ok (frame_buf f u)"
    using assms(1) by (simp_all add: b index_header_holds_def is_page_def fh_new_def PAGE_BUF_SIZE_def mult_mod_right)
  show "ifh_data (frame_buf f u) = Ok (index_file_data_of_bytes (bytes_at 16 28 pg))" using ifh_data_Ok [OF p(1,2)] b by simp
qed

lemma root_use:
  assumes "index_header_holds pg root" "pool_buf u ! f = pg"
  shows "from_frame f (\<lambda>b. map_outcome if_root_page (bt_header_data b)) u = Some (Ok root, u)"
  using assms(1) by (simp add: from_frame_def bt_header_data_def lift_def index_header_frame [OF assms]) (simp add: index_header_holds_def)

lemma typed_page: "page_type_id (uber_header p) = page_type_byte t \<Longrightarrow> bt_page_type p = Ok t"
  by (simp add: bt_page_type_def del: page_type_byte.simps)

lemma leaf_step: "index_leaf p es \<Longrightarrow> bt_step k p = Ok None"
  by (simp add: bt_step_def leaf_page_def typed_page del: page_type_byte.simps)

lemma node_step: "node_page BTreeInner p lm ss \<Longrightarrow> bi_find_child p k = Ok c \<Longrightarrow> bt_step k p = Ok (Some c)"
  by (simp add: bt_step_def node_page_def typed_page del: page_type_byte.simps)

lemma index_child_taken:
  assumes "node_page BTreeInner p (tid t) (map sep ts)" "inb bl_key (Node i t ts) lo hi" "lo \<le> unat k" "unat k < hi"
  obtains g u where "Node i t ts = plug1 g u" "fid g = i" "bt_step k p = Ok (Some (tid u))"
    "frame_lo g lo \<le> unat k" "unat k < frame_hi g hi" "u = t \<or> u \<in> snd ` set ts"
  by (rule child_taken [OF assms]) (rule that; simp add: node_step [OF assms(1)] bi_find_child_def)

lemma leaf_entry: "index_leaf p es \<Longrightarrow> i < length es \<Longrightarrow> bl_entry p i = Ok (es ! i)"
  by (auto simp: leaf_page_def bl_entry_def ileaf.page_entry_Ok)

lemma leaf_count: "index_leaf p es \<Longrightarrow> leaf_num_entries p = length es"
  by (auto simp: leaf_page_def)

lemma leaf_lookup: "index_leaf p es \<Longrightarrow> bl_lookup p k = Ok (map_option bl_record_id (find_entry bl_key k es))"
  by (auto simp: leaf_page_def bl_lookup_def ileaf.lookup_correct)

section \<open>The leaves of a tree\<close>

fun leaves :: "'e tree \<Rightarrow> (u32 \<times> 'e list) list" where
  "leaves (Leaf i es) = [(i, es)]"
| "leaves (Node i t ts) = leaves t @ concat (map (\<lambda>s. leaves (snd s)) ts)"

lemma leaves_ids: "map fst (leaves t) = leaf_ids t"
  by (induction t) (auto simp: map_concat comp_def snds.simps intro!: arg_cong [of _ _ concat])

lemma leaves_flat: "concat (map snd (leaves t)) = flat t"
proof (induction t)
  case (Node i t ts)
  have "\<forall>s\<in>set us. concat (map snd (leaves (snd s))) = flat (snd s) \<Longrightarrow>
      concat (map snd (concat (map (\<lambda>s. leaves (snd s)) us))) = concat (map (\<lambda>s. flat (snd s)) us)" for us :: "(u64 \<times> 'a tree) list"
    by (induction us) simp_all
  from this [of ts] Node.IH show ?case by (force simp: snds.simps)
qed simp

lemma leaves_count: "length (leaves t) \<le> length (ids t)"
proof (induction t)
  case (Node i t ts)
  then have "\<forall>s\<in>set us. length (leaves (snd s)) \<le> length (ids (snd s)) \<Longrightarrow>
      length (concat (map (\<lambda>s. leaves (snd s)) us)) \<le> length (concat (map (\<lambda>s. ids (snd s)) us))" for us :: "(u64 \<times> 'a tree) list"
    by (induction us) fastforce+
  from this [of ts] Node.IH show ?case by (force simp: snds.simps)
qed simp

lemma leaves_plug: "leaves (plug gs t) = pre leaves gs @ leaves t @ post leaves gs"
proof (induction gs arbitrary: t)
  case (Cons g gs)
  have "leaves (plug1 g t) = frame_pre leaves g @ leaves t @ frame_post leaves g" by (cases g) simp_all
  then show ?case using Cons by simp
qed simp

lemma pre_flat: "concat (map snd (pre leaves gs)) = pre flat gs" "concat (map snd (post leaves gs)) = post flat gs"
proof -
  have kids: "concat (map snd (concat (map (\<lambda>s. leaves (snd s)) us))) = concat (map (\<lambda>s. flat (snd s)) us)"
    for us :: "(u64 \<times> 'a tree) list" by (induction us) (simp_all add: leaves_flat)
  have "concat (map snd (frame_pre leaves g)) = frame_pre flat g" "concat (map snd (frame_post leaves g)) = frame_post flat g" for g :: "'a frame"
    by (cases g; simp add: kids leaves_flat)+
  then show "concat (map snd (pre leaves gs)) = pre flat gs" "concat (map snd (post leaves gs)) = post flat gs"
    by (induction gs) simp_all
qed

text \<open>Leaves that are linked by their pages.\<close>

fun leaf_run :: "pages \<Rightarrow> (u32 \<times> btree_leaf_entry list) list \<Rightarrow> bool" where
  "leaf_run V [] \<longleftrightarrow> True"
| "leaf_run V ((l, es) # ls) \<longleftrightarrow> (\<exists>p. V l = Some p \<and> index_leaf p es \<and> leaf_next_page p = head_or (map fst ls) 0) \<and> leaf_run V ls"

lemma leaf_run_append: "leaf_run V (as @ bs) \<Longrightarrow> leaf_run V bs"
  by (induction as) auto

lemma leaves_pages: "irep V t \<Longrightarrow> (l, es) \<in> set (leaves t) \<Longrightarrow> \<exists>p. V l = Some p \<and> index_leaf p es"
proof (induction t)
  case (Node i t ts)
  then consider "(l, es) \<in> set (leaves t)" | s where "s \<in> set ts" "(l, es) \<in> set (leaves (snd s))" by auto
  then show ?case
  proof cases
    case 1
    with Node show ?thesis by simp
  next
    case (2 s)
    with Node.prems(1) Node.IH(2) [of s "snd s"] show ?thesis by (simp add: snds.simps)
  qed
qed auto

lemma linked_leaves:
  assumes "\<forall>(l, es)\<in>set ls. \<exists>p. V l = Some p \<and> index_leaf p es" "chain V a (map fst ls) 0"
  shows "leaf_run V ls"
  using assms
proof (induction ls arbitrary: a)
  case (Cons x ls)
  then show ?case by (cases x) (auto simp: chain_Cons simp del: chain.simps(2))
qed simp

lemma tree_leaves: "irep V t \<Longrightarrow> chain V a (leaf_ids t) 0 \<Longrightarrow> leaf_run V (leaves t)"
  by (rule linked_leaves [of _ V a]) (use leaves_pages in \<open>auto simp: leaves_ids\<close>)

section \<open>What a scan takes\<close>

definition from_key :: "u64 option \<Rightarrow> btree_leaf_entry \<Rightarrow> bool" where
  "from_key start e \<longleftrightarrow> (case start of Some k \<Rightarrow> k \<le> bl_key e | None \<Rightarrow> True)"

definition past_key :: "u64 option \<Rightarrow> btree_leaf_entry \<Rightarrow> bool" where
  "past_key end e \<longleftrightarrow> (case end of Some k \<Rightarrow> k < bl_key e | None \<Rightarrow> False)"

definition index_item :: "btree_leaf_entry \<Rightarrow> byte list \<times> record_id" where
  "index_item e = (key_to_bytes (bl_key e), \<lparr> rid_page = record_page e, rid_slot = record_slot e \<rparr>)"

text \<open>
  The entries of a scan, leaf by leaf: a leaf with a key above the end stops the stream after the first entry
  of this leaf, also where more of them are in the range.
\<close>

fun scan_leaves :: "u64 option \<Rightarrow> u64 option \<Rightarrow> btree_leaf_entry list list \<Rightarrow> btree_leaf_entry list" where
  "scan_leaves start end [] = []"
| "scan_leaves start end (es # ess) = (let within = filter (from_key start) es in
     if \<exists>e\<in>set within. past_key end e then take 1 (takeWhile (\<lambda>e. \<not> past_key end e) within)
     else within @ scan_leaves start end ess)"

lemma scan_leaves_skip: "\<forall>es\<in>set ess. \<forall>e\<in>set es. \<not> from_key start e \<Longrightarrow> scan_leaves start end (ess @ ess') = scan_leaves start end ess'"
  by (induction ess) (auto simp: Let_def filter_empty_conv)

lemma scan_leaves_all: "\<forall>es\<in>set ess. \<forall>e\<in>set es. from_key start e \<Longrightarrow> scan_leaves start end ess = scan_leaves None end ess"
proof (induction ess)
  case (Cons es ess)
  have "filter (from_key start) es = es" using Cons.prems by (auto simp: filter_id_conv)
  moreover have "filter (from_key None) es = es" by (auto simp: from_key_def filter_id_conv)
  ultimately show ?case using Cons by simp
qed simp

lemma scan_leaves_open: "scan_leaves start None ess = filter (from_key start) (concat ess)"
  by (induction ess) (simp_all add: past_key_def)

text \<open>In any case the entries of a scan are the first ones of the range.\<close>

lemma scan_leaves_prefix:
  "\<exists>rest. filter (\<lambda>e. from_key start e \<and> \<not> past_key end e) (concat ess) = scan_leaves start end ess @ rest"
proof (induction ess)
  case (Cons es ess)
  let ?in = "filter (from_key start) es"
  have f: "filter (\<lambda>e. from_key start e \<and> \<not> past_key end e) es = filter (\<lambda>e. \<not> past_key end e) ?in"
    by (simp add: filter_filter conj_commute)
  show ?case
  proof (cases "\<exists>e\<in>set ?in. past_key end e")
    case True
    have "\<exists>rest. filter P xs = take 1 (takeWhile P xs) @ rest" for P :: "btree_leaf_entry \<Rightarrow> bool" and xs
      by (cases xs) auto
    then show ?thesis using True f by (simp only: scan_leaves.simps Let_def if_True concat.simps filter_append append_assoc) (metis append_assoc)
  next
    case False
    then have "filter (\<lambda>e. from_key start e \<and> \<not> past_key end e) es = ?in" by (auto intro: filter_cong)
    then show ?thesis using Cons False by (auto simp: Let_def)
  qed
qed simp

text \<open>The loop over the entries of a leaf.\<close>

lemma items_of:
  assumes "\<forall>i\<in>set is. bl_entry p i = Ok (g i)"
  shows "leaf_items p start end is = (let within = filter (from_key start) (map g is) in
    (map index_item (takeWhile (\<lambda>e. \<not> past_key end e) within), Ok (\<exists>e\<in>set within. past_key end e)))"
  using assms
proof (induction "is")
  case (Cons i "is")
  then have e: "bl_entry p i = Ok (g i)" and IH: "leaf_items p start end is = (let within = filter (from_key start) (map g is) in
    (map index_item (takeWhile (\<lambda>e. \<not> past_key end e) within), Ok (\<exists>e\<in>set within. past_key end e)))" by simp_all
  have "(case start of Some k \<Rightarrow> bl_key (g i) < k | None \<Rightarrow> False) \<longleftrightarrow> \<not> from_key start (g i)"
    "(case end of Some k \<Rightarrow> k < bl_key (g i) | None \<Rightarrow> False) \<longleftrightarrow> past_key end (g i)"
    by (simp_all add: from_key_def past_key_def not_le split: option.split)
  then show ?case by (simp add: e IH Let_def index_item_def)
qed simp

lemma page_items:
  assumes "index_leaf p es"
  shows "leaf_items p start end [0..<leaf_num_entries p] = (let within = filter (from_key start) es in
    (map index_item (takeWhile (\<lambda>e. \<not> past_key end e) within), Ok (\<exists>e\<in>set within. past_key end e)))"
proof -
  have "\<forall>i\<in>set [0..<length es]. bl_entry p i = Ok (es ! i)" using leaf_entry [OF assms] by simp
  from items_of [OF this, of start "end"] show ?thesis by (simp only: leaf_count [OF assms] map_nth)
qed

end
