(* ===== verification/IndexTable.thy ===== *)
theory IndexTable
  imports AccessRules PoolSpare IndexPages
begin

text \<open>
  An index in a buffer pool: what the reading operations of \<open>src/src/accessor/btree.rs\<close> answer, for any disk
  manager and any eviction policy that keep their contracts. A fetch may be refused for want of a frame.
\<close>

section \<open>The index in a pool\<close>

text \<open>An index is empty, with no root, or a tree.\<close>

type_synonym index_value = "btree_leaf_entry tree option"

fun index_root :: "index_value \<Rightarrow> u32" where
  "index_root None = 0"
| "index_root (Some t) = tid t"

fun index_leaves :: "index_value \<Rightarrow> btree_leaf_entry list list" where
  "index_leaves None = []"
| "index_leaves (Some t) = map snd (leaves t)"

fun index_pages :: "index_value \<Rightarrow> nat" where
  "index_pages None = 0"
| "index_pages (Some t) = length (ids t)"

definition wf_index :: "pages \<Rightarrow> btree_leaf_entry tree \<Rightarrow> bool" where
  "wf_index V t \<longleftrightarrow> irep V t \<and> inb bl_key t 0 ktop \<and> uniq (idm t) \<and> chain V 0 (leaf_ids t) 0"

definition index_in :: "pages \<Rightarrow> page option \<Rightarrow> index_value \<Rightarrow> bool" where
  "index_in V header T \<longleftrightarrow> (\<exists>pg. header = Some pg \<and> index_header_holds pg (index_root T)) \<and> (\<forall>t. T = Some t \<longrightarrow> wf_index V t)"

text \<open>The record of a key, as the entries in order give it.\<close>

definition index_lookup :: "index_value \<Rightarrow> u64 \<Rightarrow> ('b accessor_error, record_id) outcome" where
  "index_lookup T k = (case find_entry bl_key k (concat (index_leaves T)) of
     Some e \<Rightarrow> Ok \<lparr> rid_page = record_page e, rid_slot = record_slot e \<rparr> | None \<Rightarrow> Err TupleNonExistent)"

definition index_range :: "index_value \<Rightarrow> byte list option \<Rightarrow> byte list option \<Rightarrow> (byte list \<times> record_id) list" where
  "index_range T start end = map index_item (scan_leaves (map_option key_from_bytes start) (map_option key_from_bytes end) (index_leaves T))"

lemma rep_more: "(\<And>i p. V i = Some p \<Longrightarrow> V' i = Some p) \<Longrightarrow> irep V t \<Longrightarrow> irep V' t"
  by (rule rep_improves [of t index_format V V']) (auto simp: improves_def)

lemma index_chain_more: "(\<And>i p. V i = Some p \<Longrightarrow> V' i = Some p) \<Longrightarrow> chain V a xs b \<Longrightarrow> chain V' a xs b"
proof (induction xs arbitrary: a)
  case (Cons x xs)
  then show ?case by (auto simp: chain_Cons simp del: chain.simps(2))
qed simp

lemma wf_more: "(\<And>i p. V i = Some p \<Longrightarrow> V' i = Some p) \<Longrightarrow> wf_index V t \<Longrightarrow> wf_index V' t"
  unfolding wf_index_def using rep_more index_chain_more by blast

lemma lookup_there:
  assumes "ctx_inb bl_key gs 0 ktop" "hole_lo gs 0 \<le> unat k" "unat k < hole_hi gs ktop"
  shows "find_entry bl_key k (flat (plug gs (Leaf l es))) = find_entry bl_key k es"
proof -
  have "k \<notin> bl_key ` set (pre flat gs)" "k \<notin> bl_key ` set (post flat gs)"
    using ctx_outside [OF assms(1)] assms(2,3) by fastforce+
  from find_in_leaf [OF this] show ?thesis by (simp add: flat_plug)
qed

text \<open>A scan that starts at the leaf of its first key takes what it would take from the first leaf on.\<close>

definition scan_from :: "u64 option \<Rightarrow> u64 option \<Rightarrow> btree_leaf_entry list list \<Rightarrow> btree_leaf_entry list" where
  "scan_from start end ess = (case ess of [] \<Rightarrow> [] | es # ess' \<Rightarrow> (let within = filter (from_key start) es in
     if \<exists>e\<in>set within. past_key end e then take 1 (takeWhile (\<lambda>e. \<not> past_key end e) within) else within @ scan_leaves None end ess'))"

lemma scan_from_none: "scan_from None end ess = scan_leaves None end ess"
  by (cases ess) (simp_all add: scan_from_def)

lemma scan_there:
  assumes "ctx_inb bl_key gs 0 ktop" "hole_lo gs 0 \<le> unat k" "unat k < hole_hi gs ktop" "k = (case start of Some k \<Rightarrow> k | None \<Rightarrow> 0)"
  shows "scan_leaves start end (map snd (leaves (plug gs (Leaf l es)))) = scan_from start end (es # map snd (post leaves gs))"
proof -
  note o = ctx_outside [OF assms(1)]
  have below: "\<forall>e\<in>set (pre flat gs). bl_key e < k" and above: "\<forall>e\<in>set (post flat gs). k \<le> bl_key e"
    using o assms(2,3) by (fastforce simp: word_less_nat_alt word_le_nat_alt)+
  have "\<forall>e\<in>set (pre flat gs). \<not> from_key start e" using below assms(4) by (auto simp: from_key_def split: option.splits)
  then have b: "\<forall>fs\<in>set (map snd (pre leaves gs)). \<forall>e\<in>set fs. \<not> from_key start e" by (simp add: pre_flat [symmetric])
  have "\<forall>e\<in>set (post flat gs). from_key start e" using above assms(4) by (auto simp: from_key_def split: option.splits)
  then have a: "\<forall>fs\<in>set (map snd (post leaves gs)). \<forall>e\<in>set fs. from_key start e" by (simp add: pre_flat [symmetric])
  show ?thesis
    using scan_leaves_skip [OF b, of "end"] scan_leaves_all [OF a, of "end"] by (auto simp: leaves_plug scan_from_def Let_def)
qed

lemma leaf_run_more: "(\<And>i p. V i = Some p \<Longrightarrow> V' i = Some p) \<Longrightarrow> leaf_run V ls \<Longrightarrow> leaf_run V' ls"
proof (induction ls)
  case (Cons x ls)
  then show ?case by (cases x) auto
qed simp

section \<open>A client that takes all items of a scan, up to the first error\<close>

partial_function (option) bt_collect ::
  "(nat set \<Rightarrow> nat) \<Rightarrow> ('s, 'e) disk_ops \<Rightarrow> 'p policy_ops \<Rightarrow> (byte list \<times> record_id) list \<Rightarrow> btree_scan_state \<Rightarrow> ('s, 'p) pool \<Rightarrow>
    (('e buffer_error accessor_error, (byte list \<times> record_id) list) outcome \<times> ('s, 'p) pool) option" where
  "bt_collect pick K P items st s = pbind (bt_scan_next pick K P st) (\<lambda>r. (case fst r of
       None \<Rightarrow> ret items
     | Some (Ok item) \<Rightarrow> bt_collect pick K P (items @ [item]) (snd r)
     | Some (Err e) \<Rightarrow> fail e
     | Some Panic \<Rightarrow> lift Panic)) s"

lemma collect_done: "bs_done st \<Longrightarrow> bt_collect pick K P items st s = Some (Ok items, s)"
  by (subst bt_collect.simps) (simp add: pbind_Ok bt_scan_next_def ret_def)

lemma loop_item: "bs_idx st < length (bs_buffered st) \<Longrightarrow>
    bt_scan_loop pick K P st s = Some (Ok (Some (Ok (bs_buffered st ! bs_idx st)), st\<lparr> bs_idx := bs_idx st + 1 \<rparr>), s)"
  by (subst bt_scan_loop.simps) (simp add: ret_def)

lemma loop_end: "\<not> bs_idx st < length (bs_buffered st) \<Longrightarrow> bs_leaf st = 0 \<or> bs_done st \<Longrightarrow> bt_scan_loop pick K P st s = Some (Ok (None, st), s)"
  by (subst bt_scan_loop.simps) (auto simp: ret_def)

lemma collect_items:
  "\<not> bs_done st \<Longrightarrow> bs_idx st \<le> length (bs_buffered st) \<Longrightarrow> bt_collect pick K P items st s =
     bt_collect pick K P (items @ drop (bs_idx st) (bs_buffered st)) (st\<lparr> bs_idx := length (bs_buffered st) \<rparr>) s"
proof (induction "length (bs_buffered st) - bs_idx st" arbitrary: st items)
  case 0
  then have "st\<lparr> bs_idx := length (bs_buffered st) \<rparr> = st" by simp
  then show ?case using 0 by simp
next
  case (Suc n)
  let ?st = "st\<lparr> bs_idx := bs_idx st + 1 \<rparr>"
  have lt: "bs_idx st < length (bs_buffered st)" using Suc.hyps(2) by linarith
  have "bt_collect pick K P items st s = bt_collect pick K P (items @ [bs_buffered st ! bs_idx st]) ?st s"
    by (subst bt_collect.simps) (simp add: pbind_Ok bt_scan_next_def Suc.prems(1) loop_item [OF lt])
  then show ?case using Suc.hyps(1) [of ?st] Suc.hyps(2) Suc.prems(1) lt Cons_nth_drop_Suc [OF lt, symmetric] by simp
qed

text \<open>What a round of the stream does with a leaf.\<close>

definition round_with :: "btree_scan_state \<Rightarrow> btree_leaf_entry list \<Rightarrow> u32 \<Rightarrow> 'x scan_round \<times> btree_scan_state" where
  "round_with st es next = (let within = filter (from_key (bs_start st)) es; items = map index_item (takeWhile (\<lambda>e. \<not> past_key (bs_end st) e) within) in
     (if next = 0 \<and> items = [] then Round_end else Round_on,
      st\<lparr> bs_buffered := items, bs_idx := 0, bs_done := bs_done st \<or> (\<exists>e\<in>set within. past_key (bs_end st) e), bs_start := None, bs_leaf := next \<rparr>))"

text \<open>The next leaf.\<close>

lemma collect_more:
  assumes "\<not> bs_done st" "bs_leaf st \<noteq> 0" "bs_idx st = length (bs_buffered st)" "bt_scan_load pick K P st s = Some (Ok (r, st'), t)"
  shows "bt_collect pick K P items st s = (case r of Round_error e \<Rightarrow> Some (Err e, t) | Round_end \<Rightarrow> Some (Ok items, t)
    | Round_on \<Rightarrow> pbind (bt_scan_loop pick K P st') (\<lambda>r. (case fst r of None \<Rightarrow> ret items
        | Some (Ok item) \<Rightarrow> bt_collect pick K P (items @ [item]) (snd r) | Some (Err e) \<Rightarrow> fail e | Some Panic \<Rightarrow> lift Panic)) t)"
proof -
  have "bt_scan_next pick K P st s = (case r of Round_error e \<Rightarrow> Some (Ok (Some (Err e), st'), t)
      | Round_end \<Rightarrow> Some (Ok (None, st'), t) | Round_on \<Rightarrow> bt_scan_loop pick K P st' t)"
    using assms by (simp add: bt_scan_next_def, subst bt_scan_loop.simps) (simp add: pbind_Ok ret_def split: scan_round.split)
  then show ?thesis
    by (subst bt_collect.simps) (cases r; simp add: pbind_def ret_def fail_def split: option.split prod.split outcome.split)
qed

lemma collect_stop:
  assumes "bs_done st" "bs_idx st = 0"
  shows "pbind (bt_scan_loop pick K P st) (\<lambda>r. (case fst r of None \<Rightarrow> ret items
        | Some (Ok item) \<Rightarrow> bt_collect pick K P (items @ [item]) (snd r) | Some (Err e) \<Rightarrow> fail e | Some Panic \<Rightarrow> lift Panic)) t =
     Some (Ok (items @ take 1 (bs_buffered st)), t)"
proof (cases "bs_buffered st")
  case Nil
  then show ?thesis using assms by (simp add: pbind_Ok loop_end ret_def)
next
  case (Cons x xs)
  have "bs_idx st < length (bs_buffered st)" using assms(2) Cons by simp
  then show ?thesis using assms Cons by (simp add: pbind_Ok loop_item) (simp add: collect_done)
qed

lemma collect_go:
  assumes "\<not> bs_done st" "bs_idx st = 0"
  shows "pbind (bt_scan_loop pick K P st) (\<lambda>r. (case fst r of None \<Rightarrow> ret items
        | Some (Ok item) \<Rightarrow> bt_collect pick K P (items @ [item]) (snd r) | Some (Err e) \<Rightarrow> fail e | Some Panic \<Rightarrow> lift Panic)) t =
     bt_collect pick K P (items @ bs_buffered st) (st\<lparr> bs_idx := length (bs_buffered st) \<rparr>) t"
proof -
  have "bt_scan_next pick K P st t = bt_scan_loop pick K P st t" using assms(1) by (simp add: bt_scan_next_def)
  then have "bt_collect pick K P items st t = pbind (bt_scan_loop pick K P st) (\<lambda>r. (case fst r of None \<Rightarrow> ret items
        | Some (Ok item) \<Rightarrow> bt_collect pick K P (items @ [item]) (snd r) | Some (Err e) \<Rightarrow> fail e | Some Panic \<Rightarrow> lift Panic)) t"
    by (subst bt_collect.simps) (simp add: pbind_def)
  then show ?thesis using collect_items [of st pick K P items t] assms by simp
qed

section \<open>The same over a pool\<close>

context buffer_pool
begin

definition index_tree :: "('s, 'p) pool \<Rightarrow> (u32 \<rightharpoonup> ppage_id) \<Rightarrow> u32 \<Rightarrow> index_value \<Rightarrow> bool" where
  "index_tree s m file T \<longleftrightarrow> anon (header_loc file) \<and> m 0 = None \<and> index_in (page_at s m) (pool_view on_disk s (header_loc file)) T"

lemma index_stays:
  assumes "rep d m" "stays m s t" "index_tree s m file T"
  shows "index_tree t m file T"
proof -
  have "wf_index (page_at t m) u" if "wf_index (page_at s m) u" for u
    by (rule wf_more [OF _ that]) (rule keeps_page_at(1) [OF assms(1,2)])
  moreover have "pool_view on_disk t (header_loc file) = Some pg" if "pool_view on_disk s (header_loc file) = Some pg" for pg
    by (rule keeps_page_at(2) [OF assms(1,2) _ that]) (use assms(3) in \<open>simp add: index_tree_def\<close>)
  ultimately show ?thesis using assms(3) unfolding index_tree_def index_in_def by blast
qed

lemma root_run:
  assumes inv: "idle (Suc n) s m" and T: "index_tree s m file T"
  shows "\<exists>r t. bt_read_root_page pick K P file s = Some (r, t) \<and> idle n t m \<and> stays m s t \<and> (r = refused \<or> r = Ok (index_root T))"
proof -
  obtain pg where pg: "pool_view on_disk s (header_loc file) = Some pg" "index_header_holds pg (index_root T)"
    using T by (auto simp: index_tree_def index_in_def)
  have h: "anon (header_loc file)" "m 0 = None" "page_id (uber_header pg) = 0"
    using T pg(2) by (simp_all add: index_tree_def index_header_holds_def)
  show ?thesis unfolding bt_read_root_page_def
    by (rule read_place_run [OF inv h(1,2) pg(1) h(3) none_held]) (simp add: root_use [OF pg(2)])
qed

lemma tree_root: "index_tree s m file (Some t) \<Longrightarrow> tid t \<noteq> 0"
  using rep_tid [of index_format "page_at s m" t] by (auto simp: index_tree_def index_in_def wf_index_def page_at_Some)

text \<open>The descent; both its forms read the same pages.\<close>

lemma step_run:
  assumes inv: "idle (Suc n) s m" and p: "page_at s m l = Some p" "bt_step k p = (Ok c :: ('e buffer_error accessor_error, u32 option) outcome)"
  shows "\<exists>r t. pbind (in_pool (fetch_page_read pick K P l)) (\<lambda>f. with_guard P f (from_page f (bt_step k))) s = Some (r, t) \<and> idle n t m \<and> stays m s t \<and>
    (r = refused \<or> r = Ok c)"
proof -
  obtain v where v: "m l = Some v" "pool_view on_disk s v = Some p" using p(1) by (auto simp: page_at_Some)
  show ?thesis by (rule fetched_read_run [OF inv v none_held]) (simp add: from_page_def guard_page_def lift_def p(2))
qed

lemma visit_needs:
  "needs no_frame_access 1 (pbind (in_pool (fetch_page_read pick K P l)) (\<lambda>f. with_guard P f (from_page f (bt_step k))))"
  "needs no_frame_access 1 (bt_read_root_page pick K P file)"
proof -
  have "\<not> no_frame_access e" if "bt_step k p = Err e" for p and e :: "'e buffer_error accessor_error"
    using that by (cases "bi_find_child p k") (auto simp: bt_step_def bt_page_type_def unexpected_page_type_def bind_ok_Err_iff split: if_splits elim!: map_err.elims)
  then show "needs no_frame_access 1 (pbind (in_pool (fetch_page_read pick K P l)) (\<lambda>f. with_guard P f (from_page f (bt_step k))))"
    by (intro needs_visit needs_fetch(2) needs_from(1)) (use pick in auto)
  have "\<not> no_frame_access e" if "map_outcome if_root_page (bt_header_data b) = Err e" for b and e :: "'e buffer_error accessor_error"
    using that by (cases "bt_header_data b :: ('e buffer_error accessor_error, index_file_data) outcome")
      (auto simp: bt_header_data_def bind_ok_Err_iff fh_new_def split: if_splits elim!: map_err.elims)
  then show "needs no_frame_access 1 (bt_read_root_page pick K P file)" unfolding bt_read_root_page_def
    by (intro needs_visit needs_fetch(4) needs_from(2)) (use pick in auto)
qed

lemma find_leaf_more:
  "bt_find_leaf pick K P k l s = pbind (pbind (in_pool (fetch_page_read pick K P l)) (\<lambda>f. with_guard P f (from_page f (bt_step k))))
     (\<lambda>r. (case r of Some c \<Rightarrow> bt_find_leaf pick K P k c | None \<Rightarrow> ret l)) s"
  "bt_find_path pick K P k l path s = pbind (pbind (in_pool (fetch_page_read pick K P l)) (\<lambda>f. with_guard P f (from_page f (bt_step k))))
     (\<lambda>r. (case r of Some c \<Rightarrow> bt_find_path pick K P k c (path @ [l]) | None \<Rightarrow> ret (l, path))) s"
  by (subst bt_find_leaf.simps, simp add: pbind_assoc) (subst bt_find_path.simps, simp add: pbind_assoc)

lemma descent_run:
  assumes "irep (page_at s m) T" "inb bl_key T lo hi" "lo \<le> unat k" "unat k < hi" "idle (length (ids T) + n) s m"
  shows "\<exists>gs l es. T = plug gs (Leaf l es) \<and> hole_lo gs lo \<le> unat k \<and> unat k < hole_hi gs hi \<and>
    (\<exists>r t. bt_find_leaf pick K P k (tid T) s = Some (r, t) \<and> (r = refused \<or> r = Ok l) \<and>
       (\<forall>path. bt_find_path pick K P k (tid T) path s = Some (map_outcome (\<lambda>l. (l, path @ rev (map fid gs))) r, t)) \<and>
       idle n t m \<and> stays m s t \<and> spare s \<le> spare t + length (ids T) \<and> (r = refused \<longrightarrow> spare s < length (ids T)))"
  using assms
proof (induction T arbitrary: lo hi s)
  case (Leaf l es)
  then obtain p where p: "page_at s m l = Some p" "index_leaf p es" by auto
  have inv: "idle (Suc n) s m" using Leaf.prems(5) by simp
  obtain r t where r: "pbind (in_pool (fetch_page_read pick K P l)) (\<lambda>f. with_guard P f (from_page f (bt_step k))) s = Some (r, t)" "idle n t m" "stays m s t"
    "r = refused \<or> r = Ok None" using step_run [OF inv p(1) leaf_step [OF p(2)], of k] by blast
  let ?r = "map_outcome (\<lambda>_. l) r"
  have "bt_find_leaf pick K P k l s = Some (?r, t)" "bt_find_path pick K P k l path s = Some (map_outcome (\<lambda>l. (l, path @ rev (map fid []))) ?r, t)" for path
    using r(1,4) by (subst find_leaf_more, auto simp: pbind_Ok pbind_Err ret_def)+
  moreover have "?r = refused \<or> ?r = Ok l" using r(4) by auto
  moreover have "spare s \<le> spare t + 1" "?r = refused \<longrightarrow> spare s < 1"
    using needsD [OF visit_needs(1) r(1)] r(4) by auto
  ultimately show ?case
    by (rule_tac exI [of _ "[]"], rule_tac exI [of _ l], rule_tac exI [of _ es], intro conjI exI [of _ ?r] exI [of _ t] allI)
      (use r(2,3) Leaf.prems(3,4) in simp_all)
next
  case (Node i t ts)
  then obtain p where p: "page_at s m i = Some p" "node_page BTreeInner p (tid t) (map sep ts)" by auto
  obtain g u where g: "Node i t ts = plug1 g u" "fid g = i"
    "bt_step k p = (Ok (Some (tid u)) :: ('e buffer_error accessor_error, u32 option) outcome)"
    "frame_lo g lo \<le> unat k" "unat k < frame_hi g hi" "u = t \<or> u \<in> snd ` set ts"
    by (rule index_child_taken [OF p(2) Node.prems(2,3,4)])
  have "lo < hi" using Node.prems(3,4) by simp
  from inb_plug1 [OF this] Node.prems(2) g(1) have u: "inb bl_key u (frame_lo g lo) (frame_hi g hi)" by metis
  have ru: "irep (page_at s m) u" using Node.prems(1) g(1) rep_plug1 [of index_format _ g u] by metis
  have len: "length (ids u) < length (ids (Node i t ts))"
    using g(6) by (auto dest!: split_list)
  then have spl: "spare s < 1 \<longrightarrow> spare s < length (ids (Node i t ts))" by simp
  have inv: "idle (Suc (length (ids u) + n)) s m" by (rule inv_mono [OF Node.prems(5)]) (use len in simp)
  obtain r1 s1 where 1: "pbind (in_pool (fetch_page_read pick K P i)) (\<lambda>f. with_guard P f (from_page f (bt_step k))) s = Some (r1, s1)"
    "idle (length (ids u) + n) s1 m" "stays m s s1" "r1 = refused \<or> r1 = Ok (Some (tid u))"
    using step_run [OF inv p(1) g(3)] by blast
  have sp: "spare s \<le> spare s1 + 1" "r1 = refused \<longrightarrow> spare s < 1"
    using needsD [OF visit_needs(1) 1(1)] by auto
  have ru1: "irep (page_at s1 m) u" by (rule rep_more [OF _ ru]) (rule keeps_page_at(1) [OF invD(1) [OF inv] 1(3)])
  have "\<exists>gs l es. u = plug gs (Leaf l es) \<and> hole_lo gs (frame_lo g lo) \<le> unat k \<and> unat k < hole_hi gs (frame_hi g hi) \<and>
    (\<exists>r t. bt_find_leaf pick K P k (tid u) s1 = Some (r, t) \<and> (r = refused \<or> r = Ok l) \<and>
       (\<forall>path. bt_find_path pick K P k (tid u) path s1 = Some (map_outcome (\<lambda>l. (l, path @ rev (map fid gs))) r, t)) \<and>
       idle n t m \<and> stays m s1 t \<and> spare s1 \<le> spare t + length (ids u) \<and> (r = refused \<longrightarrow> spare s1 < length (ids u)))"
  proof (cases "u = t")
    case True
    then show ?thesis using Node.IH(1) [of s1 "frame_lo g lo" "frame_hi g hi"] ru1 u g(4,5) 1(2) by simp
  next
    case False
    then obtain x where "x \<in> set ts" "u = snd x" using g(6) by auto
    then show ?thesis
      using Node.IH(2) [of x "snd x" s1 "frame_lo g lo" "frame_hi g hi"] ru1 u g(4,5) 1(2) by (simp add: snds.simps)
  qed
  then obtain gs l es r2 s2 where IH: "u = plug gs (Leaf l es)" "hole_lo gs (frame_lo g lo) \<le> unat k" "unat k < hole_hi gs (frame_hi g hi)"
    "bt_find_leaf pick K P k (tid u) s1 = Some (r2, s2)" "r2 = refused \<or> r2 = Ok l"
    "\<And>path. bt_find_path pick K P k (tid u) path s1 = Some (map_outcome (\<lambda>l. (l, path @ rev (map fid gs))) r2, s2)" "idle n s2 m" "stays m s1 s2"
    "spare s1 \<le> spare s2 + length (ids u)" "r2 = refused \<longrightarrow> spare s1 < length (ids u)" by blast
  have tree: "Node i t ts = plug (gs @ [g]) (Leaf l es)" using g(1) IH(1) by simp
  from 1(4) show ?case
  proof
    assume r1: "r1 = refused"
    have "bt_find_leaf pick K P k i s = Some (refused, s1)" "bt_find_path pick K P k i path s = Some (refused, s1)" for path
      using 1(1) r1 by (subst find_leaf_more, simp add: pbind_Err)+
    then show ?thesis
      by (rule_tac exI [of _ "gs @ [g]"], rule_tac exI [of _ l], rule_tac exI [of _ es], intro conjI exI [of _ refused] exI [of _ s1] allI)
        (use tree g(2) IH(2,3) inv_less [OF 1(2)] 1(3) sp(1) mp [OF spl mp [OF sp(2) r1]] less_imp_le [OF len] r1 in \<open>simp_all add: hole_append\<close>)
  next
    assume r1: "r1 = Ok (Some (tid u))"
    have spr: "r2 = refused \<longrightarrow> spare s < length (ids (Node i t ts))" using sp(1) IH(10) len by auto
    have le: "spare s \<le> spare s2 + length (ids (Node i t ts))" using sp(1) IH(9) len by linarith
    have "bt_find_leaf pick K P k i s = Some (r2, s2)"
      "bt_find_path pick K P k i path s = Some (map_outcome (\<lambda>l. (l, path @ rev (map fid (gs @ [g])))) r2, s2)" for path
      using 1(1) r1 IH(4,6) g(2) by (subst find_leaf_more, simp add: pbind_Ok)+
    then show ?thesis
      by (rule_tac exI [of _ "gs @ [g]"], rule_tac exI [of _ l], rule_tac exI [of _ es], intro conjI exI [of _ r2] exI [of _ s2] allI)
        (use tree g(2) IH(2,3,5,7) keeps_trans [OF 1(3) IH(8)] spr le in \<open>simp_all add: hole_append\<close>)
  qed
qed

section \<open>Get and scan\<close>

lemma get_leaf_use:
  assumes p: "index_leaf p es" and u: "pool_buf u ! f = p"
  shows "pbind (from_page f (\<lambda>p. unwrap (bl_lookup p k))) (\<lambda>r. (case r of
      Some (l, i) \<Rightarrow> ret \<lparr> rid_page = l, rid_slot = i \<rparr> | None \<Rightarrow> fail TupleNonExistent)) u =
    Some (case find_entry bl_key k es of Some e \<Rightarrow> Ok \<lparr> rid_page = record_page e, rid_slot = record_slot e \<rparr> | None \<Rightarrow> Err TupleNonExistent, u)"
  using u by (auto simp: from_page_def guard_page_def pbind_def lift_def leaf_lookup [OF p] bl_record_id_def ret_def fail_def split: option.split)

lemma index_leaf_at:
  assumes T: "index_tree s m file (Some (plug gs (Leaf l es)))"
  obtains v p where "m l = Some v" "pool_view on_disk s v = Some p" "page_at s m l = Some p" "index_leaf p es"
proof -
  have "irep (page_at s m) (plug gs (Leaf l es))" using T by (auto simp: index_tree_def index_in_def wf_index_def)
  then obtain p where p: "page_at s m l = Some p" "index_leaf p es" by (auto simp: rep_plug)
  with that show ?thesis by (auto simp: page_at_Some)
qed

text \<open>The descent from the root of an index.\<close>

lemma index_descent:
  assumes inv: "idle (length (ids u) + n) s m" and T: "index_tree s m file (Some u)"
  obtains gs l es r t where "u = plug gs (Leaf l es)" "ctx_inb bl_key gs 0 ktop" "hole_lo gs 0 \<le> unat k" "unat k < hole_hi gs ktop"
    "bt_find_leaf pick K P k (tid u) s = Some (r, t)" "r = refused \<or> r = Ok l"
    "\<And>path. bt_find_path pick K P k (tid u) path s = Some (map_outcome (\<lambda>l. (l, path @ rev (map fid gs))) r, t)"
    "idle n t m" "stays m s t" "index_tree t m file (Some u)" "spare s \<le> spare t + length (ids u)" "r = refused \<longrightarrow> spare s < length (ids u)"
proof -
  have wf: "irep (page_at s m) u" "inb bl_key u 0 ktop" using T by (simp_all add: index_tree_def index_in_def wf_index_def)
  have k: "0 \<le> unat k" "unat k < ktop" using unat_bound [of k] by simp_all
  obtain gs l es r t where d: "u = plug gs (Leaf l es)" "hole_lo gs 0 \<le> unat k" "unat k < hole_hi gs ktop"
    "bt_find_leaf pick K P k (tid u) s = Some (r, t)" "r = refused \<or> r = Ok l"
    "\<And>path. bt_find_path pick K P k (tid u) path s = Some (map_outcome (\<lambda>l. (l, path @ rev (map fid gs))) r, t)"
    "idle n t m" "stays m s t" "spare s \<le> spare t + length (ids u)" "r = refused \<longrightarrow> spare s < length (ids u)"
    using descent_run [OF wf k inv] by blast
  have "ctx_inb bl_key gs 0 ktop" using wf(2) d(1) by (auto intro: ctx_of_inb)
  with that d index_stays [OF invD(1) [OF inv] d(8) T] show ?thesis by blast
qed

abbreviation read_entry :: "u64 \<Rightarrow> nat \<Rightarrow> ('s, 'p, 'e, record_id) access_prog" where
  "read_entry k f \<equiv> pbind (from_page f (\<lambda>p. unwrap (bl_lookup p k))) (\<lambda>r. (case r of
     Some (l, i) \<Rightarrow> ret \<lparr> rid_page = l, rid_slot = i \<rparr> | None \<Rightarrow> fail TupleNonExistent))"

lemma read_entry_needs: "needs no_frame_access 1 (pbind (in_pool (fetch_page_read pick K P l)) (\<lambda>f. with_guard P f (read_entry k f)))"
proof -
  have "\<not> no_frame_access e" if "unwrap (bl_lookup p k) = Err e" for p and e :: "'e buffer_error accessor_error"
    using that by (cases "bl_lookup p k") auto
  then have n: "needs no_frame_access (0 + 0) (read_entry k f)" for f
    by (intro needs_pbind needs_from(1)) (auto intro: needs_basic split: option.split)
  show ?thesis by (intro needs_visit needs_fetch(2)) (use pick n in auto)
qed

lemma bt_get_run:
  assumes inv: "idle (index_pages T + 2 + n) s m" and T: "index_tree s m file T"
  shows "\<exists>r t. bt_get pick K P file key s = Some (r, t) \<and> idle n t m \<and> stays m s t \<and>
    (r = refused \<and> spare s < index_pages T + 2 \<or> r = index_lookup T (key_from_bytes key))"
proof -
  let ?k = "key_from_bytes key"
  have i1: "idle (Suc (index_pages T + 1 + n)) s m" using inv by simp
  obtain r1 t1 where 1: "bt_read_root_page pick K P file s = Some (r1, t1)" "idle (index_pages T + 1 + n) t1 m" "stays m s t1"
    "r1 = refused \<or> r1 = Ok (index_root T)" using root_run [OF i1 T] by blast
  have sp1: "spare s \<le> spare t1 + 1" "r1 = refused \<longrightarrow> spare s < 1" using needsD [OF visit_needs(2) 1(1)] by auto
  have T1: "index_tree t1 m file T" by (rule index_stays [OF invD(1) [OF inv] 1(3) T])
  show ?thesis
  proof (cases "r1 = refused")
    case True
    then show ?thesis using 1(1,3) inv_mono [OF 1(2), of n] sp1(2) by (simp add: bt_get_def pbind_Err)
  next
    case ok: False
    show ?thesis
    proof (cases T)
      case None
      then show ?thesis using ok 1(1,3,4) inv_mono [OF 1(2), of n]
        by (simp add: bt_get_def pbind_Ok fail_def index_lookup_def find_entry_def)
    next
      case (Some u)
      have T2: "index_tree t1 m file (Some u)" and i2: "idle (length (ids u) + Suc n) t1 m" using T1 1(2) Some by simp_all
      obtain gs l es r2 t2 where d: "u = plug gs (Leaf l es)" "ctx_inb bl_key gs 0 ktop" "hole_lo gs 0 \<le> unat ?k" "unat ?k < hole_hi gs ktop"
        "bt_find_leaf pick K P ?k (tid u) t1 = Some (r2, t2)" "r2 = refused \<or> r2 = Ok l" "idle (Suc n) t2 m" "stays m t1 t2" "index_tree t2 m file (Some u)"
        "spare t1 \<le> spare t2 + length (ids u)" "r2 = refused \<longrightarrow> spare t1 < length (ids u)"
        by (rule index_descent [OF i2 T2, of ?k]) metis
      obtain v p where p: "m l = Some v" "pool_view on_disk t2 v = Some p" "index_leaf p es"
        by (rule index_leaf_at [OF d(9) [unfolded d(1)]])
      let ?x = "index_lookup T ?k :: ('e buffer_error accessor_error, record_id) outcome"
      have "?x = (case find_entry bl_key ?k es of Some e \<Rightarrow> Ok \<lparr> rid_page = record_page e, rid_slot = record_slot e \<rparr> | None \<Rightarrow> Err TupleNonExistent)"
        by (simp add: index_lookup_def Some d(1) leaves_flat lookup_there [OF d(2-4)])
      then obtain r3 t3 where 3: "pbind (in_pool (fetch_page_read pick K P l)) (\<lambda>f. with_guard P f (read_entry ?k f)) t2 = Some (r3, t3)"
        "idle n t3 m" "stays m t2 t3" "r3 = refused \<or> r3 = ?x"
        using fetched_read_run [OF d(7) p(1,2) none_held, where x = ?x and M = "read_entry ?k"] get_leaf_use [OF p(3), of _ _ ?k] by auto
      have sp3: "r3 = refused \<longrightarrow> spare t2 < 1" using needsD(2) [OF read_entry_needs 3(1)] by auto
      have root: "tid u \<noteq> 0" by (rule tree_root [OF T2])
      show ?thesis
      proof (cases "r2 = refused")
        case True
        then have "bt_get pick K P file key s = Some (refused, t2)" using 1(1,4) ok Some root d(5) by (simp add: bt_get_def pbind_Ok pbind_Err)
        moreover have "spare s < index_pages T + 2" using True sp1(1) d(11) Some by simp
        ultimately show ?thesis using inv_fewer [OF d(7)] keeps_trans [OF 1(3) d(8)] by blast
      next
        case False
        then have "bt_get pick K P file key s = Some (r3, t3)" using 1(1,4) ok Some root d(5,6) 3(1) by (simp add: bt_get_def pbind_Ok)
        moreover have "r3 = refused \<longrightarrow> spare s < index_pages T + 2" using sp1(1) d(10) sp3 Some by auto
        ultimately show ?thesis using 3(2,4) keeps_trans [OF keeps_trans [OF 1(3) d(8)] 3(3)] by blast
      qed
    qed
  qed
qed

lemma bt_load_run:
  assumes inv: "idle (Suc n) s m" and l: "m (bs_leaf st) = Some v" "pool_view on_disk s v = Some p" and p: "index_leaf p es"
  shows "\<exists>r t. bt_scan_load pick K P st s = Some (Ok r, t) \<and> idle n t m \<and> stays m s t \<and>
    (r = (Round_error (BufferError (EvictorError NoVictimFound)), st) \<or> r = round_with st es (leaf_next_page p))"
  using fetch_read_run [OF inv l none_held]
proof (elim disjE exE conjE)
  assume "fetch_page_read pick K P (bs_leaf st) s = Some (Err (EvictorError NoVictimFound), s)"
  then have "bt_scan_load pick K P st s = Some (Ok (Round_error (BufferError (EvictorError NoVictimFound)), st), s)"
    by (simp add: bt_scan_load_def caught_def pbind_def ret_def)
  then show ?thesis using inv_fewer [OF inv] keeps_refl by blast
next
  fix f t assume f: "fetch_page_read pick K P (bs_leaf st) s = Some (Ok f, t)" "got n (\<lambda>_. Free) s t m (Readers 1) f (bs_leaf st) v p"
  have L: "Readers 1 \<in> {Readers 1, Writer}" by simp
  note d = got_drop [OF f(2) L]
  have g: "guard_page f t = p" using f(2) by (simp add: got_def guard_page_def)
  let ?x = "round_with st es (leaf_next_page p) :: 'e scan_round \<times> btree_scan_state"
  let ?M = "pbind (gets (guard_page f)) (\<lambda>p.
         let (items, res) = leaf_items p (bs_start st) (bs_end st) [0..<leaf_num_entries p];
             st' = st\<lparr> bs_buffered := items, bs_idx := 0 \<rparr>
         in (case res of
             Ok past \<Rightarrow> let st'' = st'\<lparr> bs_done := bs_done st \<or> past, bs_start := None, bs_leaf := leaf_next_page p \<rparr> in
               ret (if leaf_next_page p = 0 \<and> items = [] then Round_end else Round_on, st'')
           | Err e \<Rightarrow> ret (Round_error (page_corruption ''btree leaf entry read'' e), st')
           | Panic \<Rightarrow> lift Panic))"
  have "?M t = Some ((Ok ?x :: ('e buffer_error accessor_error, _) outcome), t)"
    by (simp add: pbind_def gets_def g page_items [OF p] round_with_def Let_def ret_def)
  from with_guard_run [of ?M, OF this d(1)] have "bt_scan_load pick K P st s = Some (Ok ?x, dropped f t)"
    using f(1) by (simp add: bt_scan_load_def caught_def pbind_def)
  then show ?thesis using d(2,3) by blast
qed

lemma bt_collect_run:
  assumes "idle (length ls + n) s m" "m 0 = None" "leaf_run (page_at s m) ls" "bs_leaf st = head_or (map fst ls) 0"
    "bs_idx st = length (bs_buffered st)" "\<not> bs_done st"
  shows "\<exists>r t. bt_collect pick K P items st s = Some (r, t) \<and> idle n t m \<and> stays m s t \<and>
    (r = refused \<or> r = Ok (items @ map index_item (scan_from (bs_start st) (bs_end st) (map snd ls))))"
  using assms
proof (induction ls arbitrary: s st items)
  case Nil
  have "bt_scan_next pick K P st s = Some (Ok (None, st), s)"
    using Nil by (simp add: bt_scan_next_def loop_end)
  then have "bt_collect pick K P items st s = Some (Ok items, s)" by (subst bt_collect.simps) (simp add: pbind_Ok ret_def)
  then show ?case using Nil by (simp add: scan_from_def)
next
  case (Cons x ls)
  obtain l es where x: "x = (l, es)" by (cases x)
  have l: "bs_leaf st = l" using Cons.prems(4) by (simp add: x)
  obtain p where p: "page_at s m l = Some p" "index_leaf p es" "leaf_next_page p = head_or (map fst ls) 0" and ls: "leaf_run (page_at s m) ls"
    using Cons.prems(3) by (auto simp: x)
  obtain v where v: "m l = Some v" "pool_view on_disk s v = Some p" using p(1) by (auto simp: page_at_Some)
  have inv: "idle (Suc (length ls + n)) s m" and nz: "bs_leaf st \<noteq> 0" using Cons.prems(1,2) v(1) l by auto
  obtain r t where r: "bt_scan_load pick K P st s = Some (Ok r, t)" "idle (length ls + n) t m" "stays m s t"
    "r = (Round_error (BufferError (EvictorError NoVictimFound)), st) \<or> r = round_with st es (leaf_next_page p)"
    using bt_load_run [OF inv _ v(2) p(2), of st] v(1) l by blast
  note more = collect_more [OF Cons.prems(6) nz Cons.prems(5), of pick K P s _ _ t items]
  let ?w = "filter (from_key (bs_start st)) es"
  let ?tw = "takeWhile (\<lambda>e. \<not> past_key (bs_end st) e) ?w"
  let ?st = "snd (round_with st es (leaf_next_page p) :: 'e scan_round \<times> btree_scan_state)"
  from r(4) show ?case
  proof
    assume "r = (Round_error (BufferError (EvictorError NoVictimFound)), st)"
    then show ?thesis using more r(1) inv_less [OF r(2)] r(3) by (simp add: exI)
  next
    assume a: "r = round_with st es (leaf_next_page p)"
    let ?f = "fst (round_with st es (leaf_next_page p) :: 'e scan_round \<times> btree_scan_state)"
    have run: "bt_scan_load pick K P st s = Some (Ok (?f, ?st), t)" using r(1) a by simp
    note m = more [OF run]
    show ?thesis
    proof (cases "\<exists>e\<in>set ?w. past_key (bs_end st) e")
      case True
      then have st: "bs_done ?st" "bs_idx ?st = 0" "bs_buffered ?st = map index_item ?tw"
        by (simp_all add: round_with_def Let_def)
      have "bt_collect pick K P items st s = Some (Ok (items @ map index_item (take 1 ?tw)), t)"
      proof (cases "leaf_next_page p = 0 \<and> ?tw = []")
        case True
        then show ?thesis using m by (simp add: round_with_def Let_def)
      next
        case False
        then have f: "?f = Round_on" by (auto simp: round_with_def Let_def)
        have "bt_collect pick K P items st s = Some (Ok (items @ take 1 (bs_buffered ?st)), t)"
          unfolding m f using collect_stop [OF st(1,2)] by simp
        then show ?thesis by (simp only: st(3) take_map)
      qed
      then show ?thesis using True r(3) inv_less [OF r(2)] by (auto simp: scan_from_def Let_def x)
    next
      case False
      then have tw: "?tw = ?w" by (auto simp: takeWhile_eq_all_conv)
      have st: "\<not> bs_done ?st" "bs_idx ?st = 0" "bs_buffered ?st = map index_item ?w" "bs_leaf ?st = head_or (map fst ls) 0" "bs_start ?st = None" "bs_end ?st = bs_end st"
        using False Cons.prems(6) by (simp_all add: round_with_def Let_def tw p(3)) 
      show ?thesis
      proof (cases "leaf_next_page p = 0 \<and> ?w = []")
        case True
        have "ls = []"
        proof (rule ccontr)
          assume "ls \<noteq> []"
          then obtain k fs ls' where "ls = (k, fs) # ls'" by (cases ls) auto
          then show False using ls True p(3) Cons.prems(2) by (auto simp: page_at_Some)
        qed
        then show ?thesis using m True False r(2,3) by (simp add: round_with_def Let_def tw scan_from_def x exI)
      next
        case more': False
        have f: "?f = Round_on" using more' by (auto simp: round_with_def Let_def tw)
        let ?st' = "?st\<lparr> bs_idx := length (bs_buffered ?st) \<rparr>"
        have go: "bt_collect pick K P items st s = bt_collect pick K P (items @ map index_item ?w) ?st' t"
          unfolding m f using collect_go [OF st(1,2)] by (simp add: st(3))
        have c: "leaf_run (page_at t m) ls"
          by (rule leaf_run_more [OF _ ls]) (rule keeps_page_at(1) [OF invD(1) [OF Cons.prems(1)] r(3)])
        have "\<exists>r u. bt_collect pick K P (items @ map index_item ?w) ?st' t = Some (r, u) \<and> idle n u m \<and> stays m t u \<and>
            (r = refused \<or> r = Ok ((items @ map index_item ?w) @ map index_item (scan_from None (bs_end st) (map snd ls))))"
          using Cons.IH [OF r(2) Cons.prems(2) c, of ?st' "items @ map index_item ?w"] st by simp
        then show ?thesis using go keeps_trans [OF r(3)] False by (auto simp: scan_from_none) (simp add: scan_from_def Let_def x)
      qed
    qed
  qed
qed

lemma bt_scan_run:
  assumes inv: "idle (2 * index_pages T + 2 + n) s m" and T: "index_tree s m file T"
  shows "\<exists>r t. pbind (bt_scan pick K P file start end) (bt_collect pick K P []) s = Some (r, t) \<and> idle n t m \<and> stays m s t \<and>
    (r = refused \<or> r = Ok (index_range T start end))"
proof -
  have i1: "idle (Suc (2 * index_pages T + 1 + n)) s m" using inv by simp
  obtain r1 t1 where 1: "bt_read_root_page pick K P file s = Some (r1, t1)" "idle (2 * index_pages T + 1 + n) t1 m" "stays m s t1"
    "r1 = refused \<or> r1 = Ok (index_root T)" using root_run [OF i1 T] by blast
  have T1: "index_tree t1 m file T" by (rule index_stays [OF invD(1) [OF inv] 1(3) T])
  let ?a = "map_option key_from_bytes start" and ?b = "map_option key_from_bytes end"
  show ?thesis
  proof (cases "r1 = refused")
    case True
    then show ?thesis using 1(1,3) inv_mono [OF 1(2), of n] by (simp add: bt_scan_def pbind_Err)
  next
    case ok: False
    show ?thesis
    proof (cases T)
      case None
      then have "pbind (bt_scan pick K P file start end) (bt_collect pick K P []) s = Some (Ok [], t1)"
        using ok 1(1,4) by (simp add: bt_scan_def pbind_Ok Let_def ret_def collect_done)
      then show ?thesis using None 1(3) inv_mono [OF 1(2), of n] by (simp add: index_range_def)
    next
      case (Some u)
      let ?k = "case ?a of Some k \<Rightarrow> k | None \<Rightarrow> 0"
      have T2: "index_tree t1 m file (Some u)" and i2: "idle (length (ids u) + (length (ids u) + 1 + n)) t1 m" using T1 1(2) Some by (simp_all add: mult_2 add.assoc)
      obtain gs l es r2 t2 where d: "u = plug gs (Leaf l es)" "ctx_inb bl_key gs 0 ktop" "hole_lo gs 0 \<le> unat ?k" "unat ?k < hole_hi gs ktop"
        "bt_find_leaf pick K P ?k (tid u) t1 = Some (r2, t2)" "r2 = refused \<or> r2 = Ok l" "idle (length (ids u) + 1 + n) t2 m" "stays m t1 t2" "index_tree t2 m file (Some u)"
        by (rule index_descent [OF i2 T2, of ?k]) metis
      have root: "tid u \<noteq> 0" by (rule tree_root [OF T2])
      show ?thesis
      proof (cases "r2 = refused")
        case True
        then show ?thesis using 1(1,4) ok Some root d(5) inv_mono [OF d(7), of n] keeps_trans [OF 1(3) d(8)]
          by (simp add: bt_scan_def pbind_Ok pbind_Err Let_def)
      next
        case False
        let ?ls = "(l, es) # post leaves gs"
        let ?st = "\<lparr> bs_leaf = l, bs_start = ?a, bs_end = ?b, bs_buffered = [], bs_idx = 0, bs_done = False \<rparr>"
        have run: "pbind (bt_scan pick K P file start end) (bt_collect pick K P []) s = bt_collect pick K P [] ?st t2"
          using 1(1,4) ok Some root d(5,6) False by (simp add: bt_scan_def pbind_Ok Let_def ret_def)
        have wf: "irep (page_at t2 m) u" "chain (page_at t2 m) 0 (leaf_ids u) 0" "m 0 = None"
          using d(9) by (simp_all add: index_tree_def index_in_def wf_index_def)
        have "leaves u = pre leaves gs @ ?ls" using d(1) by (simp add: leaves_plug)
        then have c: "leaf_run (page_at t2 m) ?ls" and len: "length ?ls \<le> length (ids u)"
          using leaf_run_append [of _ "pre leaves gs" ?ls] tree_leaves [OF wf(1,2)] leaves_count [of u] by simp_all
        have i3: "idle (length ?ls + n) t2 m" by (rule inv_mono [OF d(7)]) (use len in simp)
        obtain r t where c: "bt_collect pick K P [] ?st t2 = Some (r, t)" "idle n t m" "stays m t2 t"
          "r = refused \<or> r = Ok (map index_item (scan_from ?a ?b (map snd ?ls)))"
          using bt_collect_run [OF i3 wf(3) c, of ?st "[]"] by auto
        have "index_range T start end = map index_item (scan_from ?a ?b (map snd ?ls))"
          using scan_there [OF d(2-4), of ?a ?b l es] by (simp add: index_range_def Some d(1))
        then show ?thesis using run c keeps_trans [OF keeps_trans [OF 1(3) d(8)] c(3)] by metis
      qed
    qed
  qed
qed

end

end
