(* ===== verification/IndexWrites.thy ===== *)
theory IndexWrites
  imports IndexTable
begin

text \<open>
  Two ways in which the changes of an index go wrong: a deletion that leaves a leaf with few entries waits for
  a latch that it holds itself, and an insertion that finds room in the root leaf is not written back.
\<close>

section \<open>The candidate for a merge\<close>

fun separated :: "'e tree \<Rightarrow> bool" where
  "separated (Leaf i es) \<longleftrightarrow> True"
| "separated (Node i t ts) \<longleftrightarrow> ts \<noteq> [] \<and> separated t \<and> (\<forall>s\<in>set ts. separated (snd s))"

lemma separated_plug1: "separated (plug1 g u) \<Longrightarrow> separated u \<and> frame_ss g h \<noteq> []"
  by (cases g) auto

lemma separated_plug: "separated (plug gs u) \<Longrightarrow> separated u"
  by (induction gs arbitrary: u) (auto dest: separated_plug1)

lemma frame_child: "frame_lm g h = h \<or> h \<in> snd ` set (frame_ss g h)"
  by (cases g) auto

lemma frame_kids: "irep V (plug1 g u) \<Longrightarrow> x \<in> insert (frame_lm g (tid u)) (snd ` set (frame_ss g (tid u))) \<Longrightarrow> \<exists>p. V x = Some p"
proof -
  have kid: "\<exists>p. V (tid b) = Some p" if "(a, b) \<in> set cs" "\<forall>s\<in>set cs. irep V (snd s)" for a b cs using rep_tid that by fastforce
  assume "irep V (plug1 g u)" "x \<in> insert (frame_lm g (tid u)) (snd ` set (frame_ss g (tid u)))"
  then show ?thesis by (cases g) (auto simp: sep_def ball_Un dest: rep_tid intro: kid)
qed

lemma node_entry:
  assumes "node_page BTreeInner p lm ss" "i < length ss"
  shows "\<exists>e. bi_entry p i = Ok e \<and> right_child e = snd (ss ! i)"
proof -
  have p: "inner_inv p" "seps p = ss" using assms(1) by (simp_all add: node_page_def)
  have n: "i < inner_num_keys p" using assms(2) p(2) length_seps [of p] by simp
  have "bi_entry p i = Ok (entries inner_layout p ! i)" using inner.page_entry_Ok [OF p(1)] n by (simp add: bi_entry_def)
  moreover have "right_child (entries inner_layout p ! i) = snd (ss ! i)" using n p(2) by (auto simp: seps_def)
  ultimately show ?thesis by blast
qed

lemma position_found:
  assumes "\<forall>i\<in>set is. \<exists>e. bi_entry p i = Ok e \<and> right_child e = g i" "l \<in> g ` set is"
  shows "\<exists>i\<in>set is. child_position p l is = Ok (Some i) \<and> g i = l"
  using assms
proof (induction "is")
  case (Cons i "is")
  then obtain e where "bi_entry p i = Ok e" "right_child e = g i" by auto
  then show ?case using Cons by (cases "g i = l") auto
qed simp

text \<open>The page that goes away or the one that stays is the leaf itself.\<close>

lemma merge_candidate:
  assumes p: "node_page BTreeInner p lm ss" "ss \<noteq> []" and l: "l = lm \<or> l \<in> snd ` set ss"
  shows "\<exists>i. find_merge_candidate p l = Ok (Some i) \<and> (survivor i = l \<or> removed i = l \<and> survivor i \<in> insert lm (snd ` set ss))"
proof -
  have n: "inner_num_keys p = length ss" "inner_leftmost_child p = lm" using p length_seps [of p] by (auto simp: node_page_def)
  show ?thesis
  proof (cases "l = lm")
    case True
    obtain e where "bi_entry p 0 = Ok e" using node_entry [OF p(1), of 0] p(2) by auto
    then show ?thesis using True p(2) n by (simp add: find_merge_candidate_def)
  next
    case False
    then obtain x where "x \<in> set ss" "snd x = l" using l by auto
    then have "l \<in> (\<lambda>i. snd (ss ! i)) ` set [0..<length ss]" by (auto simp: in_set_conv_nth)
    then obtain i where i: "i < length ss" "child_position p l [0..<length ss] = Ok (Some i)" "snd (ss ! i) = l"
      using position_found [of "[0..<length ss]" p "\<lambda>i. snd (ss ! i)" l] node_entry [OF p(1)] by auto
    show ?thesis
    proof (cases i)
      case 0
      then show ?thesis using False p(2) n i by (simp add: find_merge_candidate_def)
    next
      case (Suc j)
      then obtain e where e: "bi_entry p j = Ok e" "right_child e = snd (ss ! j)" using node_entry [OF p(1), of j] i(1) by auto
      have "snd (ss ! j) \<in> snd ` set ss" using Suc i(1) by simp
      then show ?thesis using False p(2) n i(2) e Suc by (simp add: find_merge_candidate_def)
    qed
  qed
qed

section \<open>Removing an entry\<close>

text \<open>The entries without a key.\<close>

abbreviation without :: "u64 \<Rightarrow> btree_leaf_entry list \<Rightarrow> btree_leaf_entry list" where
  "without k es \<equiv> filter (\<lambda>e. bl_key e \<noteq> k) es"

lemma leaf_links_same: "same_header bl_layout p p' \<Longrightarrow> index_leaf p es \<Longrightarrow> index_leaf p' es' \<Longrightarrow>
    leaf_prev_page p' = leaf_prev_page p \<and> leaf_next_page p' = leaf_next_page p"
  using leaf_fields_same [of bl_layout p p'] by (simp add: leaf_page_def page_inv_def)

text \<open>The record of a key to delete is compared with the given one.\<close>

definition removable :: "btree_leaf_entry list \<Rightarrow> u64 \<Rightarrow> record_id \<Rightarrow> bool" where
  "removable es k rid \<longleftrightarrow> (case find_entry bl_key k es of None \<Rightarrow> False
     | Some e \<Rightarrow> record_page e = rid_page rid \<and> record_slot e = rid_slot rid)"

lemma remove_ok:
  assumes p: "index_leaf p es" and e: "removable es k rid" and u: "f < length (pool_buf u)" "pool_buf u ! f = p"
  obtains p' where "bt_remove k rid f u = Some ((Ok (length es \<le> 126) :: ('e buffer_error accessor_error, bool) outcome), u\<lparr> pool_buf := (pool_buf u)[f := p'] \<rparr>)"
    "index_leaf p' (without k es)" "leaf_prev_page p' = leaf_prev_page p" "leaf_next_page p' = leaf_next_page p" "length p' = PAGE_BUF_SIZE"
proof -
  have inv: "page_inv bl_layout p" "entries bl_layout p = es" "page_type_id (uber_header p) = page_type_byte BTreeLeaf"
    using p by (simp_all add: leaf_page_def)
  then have sorted: "sorted_by bl_key es" by (simp add: page_inv_def)
  obtain e where fe: "find_entry bl_key k es = Some e" "record_page e = rid_page rid" "record_slot e = rid_slot rid"
    using e by (auto simp: removable_def split: option.splits)
  then have el: "e \<in> set es" "bl_key e = k" using find_entry_Some_iff [OF sorted] by auto
  let ?i = "rank bl_key k es"
  obtain j where j: "j < length es" "es ! j = e" using el by (auto simp: in_set_conv_nth)
  have "?i = j" using rank_found [OF sorted j(1)] j(2) el(2) by simp
  with j have i: "?i < length es" "es ! ?i = e" by simp_all
  have slot: "bl_find_slot p k = Ok (True, ?i)"
    using ileaf.find_slot_correct [OF inv(1), of k] el inv(2) by (auto simp: bl_find_slot_def)
  have entry: "bl_entry p ?i = Ok e" using leaf_entry [OF p i(1)] i(2) by simp
  have cnt: "?i < count_of bl_layout p" using i(1) leaf_count [OF p] by simp
  obtain p' where p': "page_delete bl_layout ?i p = Ok p'" "page_inv bl_layout p'" "entries bl_layout p' = delete_at ?i (entries bl_layout p)" "same_header bl_layout p p'"
    by (rule ileaf.delete_Ok [OF inv(1) cnt])
  have del: "delete_at ?i es = without k es" using delete_at_filter [OF sorted i(1)] i(2) el(2) by simp
  have leaf: "index_leaf p' (without k es)" using p'(2-4) inv(2,3) same_header_uber [OF p'(4)] by (simp add: leaf_page_def del)
  have len: "length es = Suc (length (without k es))" using i(1) by (simp add: del [symmetric])
  have few: "(length (without k es) < 126) = (length es \<le> 126)" using len by linarith
  let ?u = "u\<lparr> pool_buf := (pool_buf u)[f := p'] \<rparr>"
  have up: "on_page f (page_upd (bl_delete_entry ?i)) u = Some (Ok (), ?u)"
    using u(2) p'(1) by (simp add: on_page_def guard_page_def page_upd_def bl_delete_entry_def)
  have "guard_page f ?u = p'" using u(1) by (simp add: guard_page_def)
  then have "bt_remove k rid f u = Some (Ok (length es \<le> 126), ?u)"
    using u(2) up fe(2,3) few
    by (simp add: bt_remove_def from_page_def guard_page_def lift_def slot entry pbind_def with_err_def gets_def ret_def bl_can_merge_def leaf_count [OF leaf])
  moreover have "length p' = PAGE_BUF_SIZE" using p'(2) by (simp add: page_inv_def is_page_def)
  ultimately show ?thesis using that leaf leaf_links_same [OF p'(4) p leaf] by blast
qed

lemma remove_refused:
  assumes p: "index_leaf p es" and e: "\<not> removable es k rid" and u: "pool_buf u ! f = p"
  shows "bt_remove k rid f u = Some (Err TupleNonExistent, u)"
proof -
  have inv: "page_inv bl_layout p" "entries bl_layout p = es" using p by (simp_all add: leaf_page_def)
  then have sorted: "sorted_by bl_key es" by (simp add: page_inv_def)
  let ?i = "rank bl_key k es"
  have slot: "bl_find_slot p k = Ok (k \<in> bl_key ` set es, ?i)"
    using ileaf.find_slot_correct [OF inv(1), of k] inv(2) by (simp add: bl_find_slot_def)
  show ?thesis
  proof (cases "k \<in> bl_key ` set es")
    case False
    then show ?thesis using u slot by (simp add: bt_remove_def from_page_def guard_page_def lift_def pbind_def ret_def fail_def)
  next
    case True
    then obtain j where j: "j < length es" "bl_key (es ! j) = k" by (auto simp: in_set_conv_nth)
    have i: "?i = j" using rank_found [OF sorted j(1)] j(2) by simp
    have "find_entry bl_key k es = Some (es ! j)" using find_entry_nth [OF sorted j(1)] j(2) by simp
    then have "record_page (es ! j) \<noteq> rid_page rid \<or> record_slot (es ! j) \<noteq> rid_slot rid" using e by (simp add: removable_def)
    then show ?thesis using u slot True i leaf_entry [OF p j(1)]
      by (simp add: bt_remove_def from_page_def guard_page_def lift_def pbind_def ret_def fail_def)
  qed
qed

section \<open>Adding an entry to a leaf with room\<close>

lemma put_run:
  assumes p: "index_leaf p es" and k: "k \<notin> bl_key ` set es" "length es < 253" and u: "pool_buf u ! f = p"
  obtains p' where "bl_put k rid f u = Some (Ok (), u\<lparr> pool_buf := (pool_buf u)[f := p'] \<rparr>)" "index_leaf p' (insert_sorted bl_key (btree_leaf_entry_new k (rid_page rid) (rid_slot rid)) es)"
    "leaf_prev_page p' = leaf_prev_page p" "leaf_next_page p' = leaf_next_page p" "length p' = PAGE_BUF_SIZE"
proof -
  let ?e = "btree_leaf_entry_new k (rid_page rid) (rid_slot rid)"
  have inv: "page_inv bl_layout p" "entries bl_layout p = es" "page_type_id (uber_header p) = page_type_byte BTreeLeaf"
    using p by (simp_all add: leaf_page_def)
  have room: "count_of bl_layout p < max_entries bl_layout" using k(2) leaf_count [OF p] by simp
  have new: "key_of bl_layout ?e \<notin> key_of bl_layout ` set (entries bl_layout p)" using k(1) inv(2) by simp
  obtain p' where p': "page_insert bl_layout ?e p = Ok p'" "page_inv bl_layout p'"
    "entries bl_layout p' = insert_sorted (key_of bl_layout) ?e (entries bl_layout p)" "same_header bl_layout p p'"
    by (rule ileaf.insert_Ok [OF inv(1) room new])
  have "bl_put k rid f u = Some (Ok (), u\<lparr> pool_buf := (pool_buf u)[f := p'] \<rparr>)"
    using u p'(1) by (simp add: bl_put_def with_err_def on_page_def guard_page_def page_upd_def bl_insert_entry_def)
  moreover have leaf: "index_leaf p' (insert_sorted bl_key ?e es)" using p'(2-4) inv(2,3) same_header_uber [OF p'(4)] by (simp add: leaf_page_def)
  moreover have "length p' = PAGE_BUF_SIZE" using p'(2) by (simp add: page_inv_def is_page_def)
  ultimately show ?thesis using that leaf_links_same [OF p'(4) p leaf] by blast
qed

lemma write_step_leaf: "index_leaf p es \<Longrightarrow> bt_write_step k p = Ok (bl_is_safe_for_insert p, None)"
  by (simp add: bt_write_step_def leaf_page_def typed_page del: page_type_byte.simps)

text \<open>Frames without a mark are not flushed.\<close>

definition no_marks :: "('s, 'p) pool \<Rightarrow> bool" where
  "no_marks s \<longleftrightarrow> (\<forall>f<length (frame_metas s). \<forall>l v. frame_metas s ! f \<noteq> Loaded l v True)"

lemma flush_nothing: "no_marks s \<Longrightarrow> flush_all_dirty_frames K s = Some (Ok (), s)"
proof -
  assume "no_marks s"
  then have "dirty_frames s = []"
    by (auto simp: dirty_frames_def no_marks_def in_set_enumerate_eq split: frame_meta.split)
  then show ?thesis by (simp add: flush_all_dirty_frames_def pbind_def gets_def ret_def)
qed

lemma drop_metas:
  assumes "f < length (pin_counts t)"
  shows "\<exists>u. drop_guard P f t = Some ((Ok () :: ('e buffer_error, unit) outcome), u) \<and> frame_metas u = frame_metas t \<and> bp_disk u = bp_disk t"
  using assms by (simp add: drop_guard_def pbind_def decr_pin_def ret_def modify_def unlatch_def Let_def)

section \<open>Waiting for one's own latch\<close>

context buffer_pool
begin

lemma fetch_held:
  assumes inv: "inv n H s m" and l: "m l = Some v" and f: "ppage_map s v = Some f" "H f \<noteq> Free"
  shows "fetch_page_write pick K P l s = None"
proof -
  obtain k d where fr: "f < num_frames s" "frame_metas s ! f = Loaded k v d" using ppage_iff [OF inv] f(1) by blast
  have rep: "rep (bp_disk s) m" by (rule invD(1) [OF inv])
  have "m k = Some v" using loaded_id [OF inv fr] places(2) [OF rep l] by (auto simp: id_of_def)
  then have kl: "k = l" using places(1) [OF rep] l by (metis domI inj_onD)
  have look: "lpage_map s l = Some f" using kl lpage_iff [OF inv named_reg [where m = m, OF l], of f] fr by blast
  obtain t where i: "incr_pin P f s = Some ((Ok () :: ('e buffer_error, unit) outcome), t)" and lt: "latches t = latches s"
    using fr(1) lengths [OF inv] by (simp add: incr_pin_def Let_def ret_def)
  have t: "find_by_lpage pick K P l s = Some ((Ok (f, True) :: ('e buffer_error, nat \<times> bool) outcome), t)"
    unfolding find_by_lpage_def by (subst find_frame.simps) (simp add: look pbind_def i ret_def)
  have "latch_write f t = (None :: (('e buffer_error, unit) outcome \<times> ('s, 'p) pool) option)"
    using fr(1) lengths [OF inv] frame [OF inv fr(1)] f(2) by (auto simp: latch_write_def lt split: latch.split)
  then show ?thesis using t by (simp add: fetch_page_write_def pbind_def)
qed

lemma fetch_write_cases:
  assumes inv: "inv n H s m" and l: "m l = Some v" and pg: "pool_view on_disk s v = Some pg"
  obtains (held) "fetch_page_write pick K P l s = None"
  | (full) "fetch_page_write pick K P l s = Some (Err (EvictorError NoVictimFound), s)" "spare s = 0"
  | (got) f t where "fetch_page_write pick K P l s = Some (Ok f, t)" "got n H s t m Writer f l v pg" "spare s \<le> spare t + 1"
proof (cases "\<forall>f. ppage_map s v = Some f \<longrightarrow> H f = Free")
  case True
  have sp: "needs no_frame 1 (fetch_page_write pick K P l)" by (rule needs_fetch) (use pick in auto)
  show ?thesis using fetch_write_run [OF inv l pg True] needsD [OF sp] full got by fastforce
next
  case False
  then obtain f where f: "ppage_map s v = Some f" "H f \<noteq> Free" by blast
  show ?thesis by (rule held [OF fetch_held [OF inv l f]])
qed

text \<open>A page that is held stays where it is.\<close>

lemma held_stays:
  assumes g: "got n H s t m L f l v pg" and inv: "inv n H s m" and h: "ppage_map s w = Some x" "H x \<noteq> Free"
  shows "ppage_map t w = Some x" "(H(f := L)) x = H x"
proof -
  obtain k d where fr: "x < num_frames s" "frame_metas s ! x = Loaded k w d" using ppage_iff [OF inv] h(1) by blast
  have i: "inv n (H(f := L)) t m" "keeps m H s t" "H f = Free" using g by (auto simp: got_def)
  have "x < num_frames t" "frame_metas t ! x = Loaded k w d" using i(2) fr h(2) by (simp_all add: keeps_def keeps_held_def)
  then show "ppage_map t w = Some x" using ppage_iff [OF i(1)] by blast
  show "(H(f := L)) x = H x" using i(3) h(2) by auto
qed

lemma got_page:
  assumes "got n H s t m L f l v pg"
  shows "ppage_map t v = Some f" "pool_buf t ! f = pg" "f < length (pool_buf t)" "inv n (H(f := L)) t m" "keeps m H s t"
proof -
  show i: "inv n (H(f := L)) t m" "keeps m H s t" "pool_buf t ! f = pg" using assms by (auto simp: got_def)
  show "ppage_map t v = Some f" using ppage_iff [OF i(1)] assms by (auto simp: got_def)
  show "f < length (pool_buf t)" using lengths [OF i(1)] assms by (simp add: got_def)
qed

lemma still_there: "rep d m \<Longrightarrow> keeps m H s t \<Longrightarrow> m x = Some w \<Longrightarrow> pool_view on_disk s w = Some p \<Longrightarrow> pool_view on_disk t w = Some p"
  using places(2) by (auto simp: keeps_def keeps_pages_def)

text \<open>
  The merge, from a state in which the leaf is held. The page of the parent and those of its children are
  there, and there are frames for the parent and one child.
\<close>

lemma merge_stuck:
  assumes inv: "inv n H s m" and leaf: "m l = Some v" "ppage_map s v = Some f" "H f = Writer"
    and parent: "path \<noteq> []" "m (last path) = Some w" "pool_view on_disk s w = Some p" "node_page BTreeInner p lm ss" "ss \<noteq> []" "l = lm \<or> l \<in> snd ` set ss"
    and kids: "\<forall>x\<in>insert lm (snd ` set ss). \<exists>y pg. m x = Some y \<and> pool_view on_disk s y = Some pg" and sp: "2 \<le> spare s"
  shows "try_merge_leaf pick K P file l path root s = None"
  using inv parent(2,3)
proof (cases rule: fetch_write_cases)
  case held
  then show ?thesis using parent(1) by (simp add: try_merge_leaf_def pbind_def with_err_def)
next
  case full
  then show ?thesis using sp by simp
next
  case (got fp t)
  have rep: "rep (bp_disk s) m" by (rule invD(1) [OF inv])
  note g = got_page [OF got(2)]
  have Hf: "H f \<noteq> Free" using leaf(3) by simp
  have h: "ppage_map t v = Some f" "(H(fp := Writer)) f = Writer" using held_stays [OF got(2) inv leaf(2) Hf] leaf(3) by simp_all
  obtain i where i: "find_merge_candidate p l = (Ok (Some i) :: ('e buffer_error accessor_error, _) outcome)" "survivor i = l \<or> removed i = l \<and> survivor i \<in> insert lm (snd ` set ss)"
    using merge_candidate [OF parent(4-6)] by blast
  have start: "try_merge_leaf pick K P file l path root s =
    pbind (on_fail P [fp] (in_pool (fetch_page_write pick K P (survivor i)))) (\<lambda>fs.
      pbind (on_fail P [fs, fp] (bt_merge_children pick K P i fp fs)) (\<lambda>merged.
      pbind (gets (guard_page fp)) (\<lambda>p.
      if merged \<and> last path = root \<and> inner_num_keys p = 0
      then pbind (drop_guards P [fp]) (\<lambda>_. with_guard P fs (bt_set_root_page pick K P file (inner_leftmost_child p)))
      else drop_guards P [fs, fp]))) t"
    using parent(1) got(1) g(2) i(1)
    by (simp add: try_merge_leaf_def pbind_Ok with_err_def on_fail_def from_page_def guard_page_def lift_def)
  have leaf_waits: "fetch_page_write pick K P l u = None" if "inv n H' u m" "ppage_map u v = Some f" "H' f = Writer" for H' u
    by (rule fetch_held [OF that(1) leaf(1) that(2)]) (simp add: that(3))
  show ?thesis
  proof (cases "survivor i = l")
    case True
    then show ?thesis using start leaf_waits [OF g(4) h] by (simp add: pbind_def with_err_def on_fail_def)
  next
    case False
    then have r: "removed i = l" "survivor i \<in> insert lm (snd ` set ss)" using i(2) by auto
    obtain y pg where y: "m (survivor i) = Some y" "pool_view on_disk s y = Some pg" using kids r(2) by blast
    have y': "pool_view on_disk t y = Some pg" by (rule still_there [OF rep g(5) y])
    from g(4) y(1) y' show ?thesis
    proof (cases rule: fetch_write_cases)
      case held
      then show ?thesis using start by (simp add: pbind_def with_err_def on_fail_def)
    next
      case full
      then show ?thesis using sp got(3) by simp
    next
      case (got fs u)
      have Hf': "(H(fp := Writer)) f \<noteq> Free" using h(2) by simp
      have "fetch_page_write pick K P l u = None"
        using leaf_waits [OF got_page(4) [OF got(2)]] held_stays [OF got(2) g(4) h(1) Hf'] h(2) by simp
      then have "bt_merge_children pick K P i fp fs u = None"
        using r(1) by (simp add: bt_merge_children_def bt_read_removed_def pbind_def with_err_def)
      then show ?thesis using start got(1) by (simp add: pbind_Ok with_err_def on_fail_def) (simp add: pbind_def on_fail_def)
    qed
  qed
qed

lemma bt_delete_stuck:
  assumes inv: "idle (length (ids u) + 1 + n) s m" and T: "index_tree s m file (Some u)" and u: "separated u" "u = Node i t0 ts"
    and e: "e \<in> set (flat u)" "\<forall>(l, es)\<in>set (leaves u). e \<in> set es \<longrightarrow> length es \<le> 126" and key: "key_from_bytes key = bl_key e"
    and sp: "length (ids u) + 4 \<le> spare s"
  shows "bt_delete pick K P file key \<lparr> rid_page = record_page e, rid_slot = record_slot e \<rparr> s = None"
proof -
  let ?k = "bl_key e"
  have i1: "idle (Suc (length (ids u) + n)) s m" using inv by simp
  obtain r1 t1 where 1: "bt_read_root_page pick K P file s = Some (r1, t1)" "idle (length (ids u) + n) t1 m" "stays m s t1"
    "r1 = refused \<or> r1 = Ok (index_root (Some u))" using root_run [OF i1 T] by blast
  have sp1: "length (ids u) + 3 \<le> spare t1" "r1 = Ok (tid u)" using needsD [OF visit_needs(2) 1(1)] sp 1(4) by auto
  have T1: "index_tree t1 m file (Some u)" by (rule index_stays [OF invD(1) [OF inv] 1(3) T])
  obtain gs l es r2 t2 where d: "u = plug gs (Leaf l es)" "ctx_inb bl_key gs 0 ktop" "hole_lo gs 0 \<le> unat ?k" "unat ?k < hole_hi gs ktop"
    "r2 = refused \<or> r2 = Ok l" "\<And>path. bt_find_path pick K P ?k (tid u) path t1 = Some (map_outcome (\<lambda>l. (l, path @ rev (map fid gs))) r2, t2)"
    "idle n t2 m" "index_tree t2 m file (Some u)" "spare t1 \<le> spare t2 + length (ids u)" "r2 = refused \<longrightarrow> spare t1 < length (ids u)"
    by (rule index_descent [OF 1(2) T1, of ?k]) metis
  have sp2: "3 \<le> spare t2" "r2 = Ok l" using d(5,9,10) sp1(1) by auto
  obtain g gs' where gs: "gs = g # gs'" using d(1) u(2) by (cases gs) auto
  have wf: "irep (page_at t2 m) u" "inb bl_key u 0 ktop" "uniq (idm u)" using d(8) by (simp_all add: index_tree_def index_in_def wf_index_def)
  have "find_entry bl_key ?k (flat u) = Some e" using find_entry_Some_iff [of bl_key "flat u" ?k e] inb_flat [OF wf(2)] e(1) by simp
  then have fe: "find_entry bl_key ?k es = Some e" using lookup_there [OF d(2-4), of l es] d(1) by simp
  have lf: "inb bl_key (Leaf l es) (hole_lo gs 0) (hole_hi gs ktop)" using inb_plug [OF d(2), of "Leaf l es"] wf(2) d(1) by simp
  then have el: "e \<in> set es" using find_entry_Some_iff [of bl_key es ?k e] fe by simp
  have few: "length es \<le> 126" using e(2) el d(1) by (auto simp: leaves_plug)
  obtain v p where p: "m l = Some v" "pool_view on_disk t2 v = Some p" "index_leaf p es"
    by (rule index_leaf_at [OF d(8) [unfolded d(1)]])
  show ?thesis
    using d(7) p(1,2)
  proof (cases rule: fetch_write_cases)
    case held
    then show ?thesis using 1(1) sp1(2) d(6) sp2(2) tree_root [OF T1] by (simp add: bt_delete_def pbind_Ok key) (simp add: pbind_def with_err_def)
  next
    case full
    then show ?thesis using sp2 by simp
  next
    case (got f t3)
    note gp = got_page [OF got(2)]
    obtain dd where fr: "f < num_frames t3" "frame_metas t3 ! f = Loaded l v dd" using got(2) by (auto simp: got_def)
    have fm: "f < length (frame_metas t3)" using fr(1) lengths [OF gp(4)] by simp
    let ?rid = "\<lparr> rid_page = record_page e, rid_slot = record_slot e \<rparr>"
    have "removable es ?k ?rid" using fe by (simp add: removable_def)
    from remove_ok [OF p(3) this gp(3,2)]
    obtain p' where rm: "bt_remove ?k ?rid f t3 = Some ((Ok (length es \<le> 126) :: ('e buffer_error accessor_error, bool) outcome), t3\<lparr> pool_buf := (pool_buf t3)[f := p'] \<rparr>)"
      "length p' = PAGE_BUF_SIZE" by blast
    let ?u = "rewritten f l v p' t3" and ?H = "(\<lambda>_. Free)(f := Writer)"
    note len = rm(2)
    note rw = rewritten_inv [OF gp(4) fr len]
    have rep: "rep (bp_disk t2) m" by (rule invD(1) [OF d(7)])
    have up: "u = plug gs' (plug1 g (Leaf l es))" using d(1) gs by simp
    then have ru: "irep (page_at t2 m) (plug1 g (Leaf l es))" and sep: "separated (plug1 g (Leaf l es))"
      using wf(1) u(1) separated_plug [of gs' "plug1 g (Leaf l es)"] by (simp_all add: rep_plug)
    obtain pp where pp: "page_at t2 m (fid g) = Some pp" "node_page BTreeInner pp (frame_lm g l) (frame_ss g l)"
      using ru by (auto simp: rep_plug1 rep_frame_def)
    obtain w where w: "m (fid g) = Some w" "pool_view on_disk t2 w = Some pp" using pp(1) by (auto simp: page_at_Some)
    have "uniq (frame_idm g + {#l#})" using wf(3) up by (simp add: idm_plug idm_plug1)
    then have "fid g \<noteq> l" using fid_in_frame [of g] by (auto simp del: fid_in_frame)
    then have wv: "w \<noteq> v" using w(1) p(1) places(1) [OF rep] by (metis domI inj_onD)
    have view: "pool_view on_disk ?u w = Some pp" using still_there [OF rep gp(5) w] wv by (simp add: rw(2))
    have kids: "\<forall>x\<in>insert (frame_lm g l) (snd ` set (frame_ss g l)). \<exists>y pg. m x = Some y \<and> pool_view on_disk ?u y = Some pg"
    proof
      fix x assume "x \<in> insert (frame_lm g l) (snd ` set (frame_ss g l))"
      then obtain y pg where "m x = Some y" "pool_view on_disk t2 y = Some pg" using frame_kids [OF ru, of x] by (auto simp: page_at_Some)
      then show "\<exists>y pg. m x = Some y \<and> pool_view on_disk ?u y = Some pg" using still_there [OF rep gp(5)] by (cases "y = v") (auto simp: rw(2))
    qed
    have "try_merge_leaf pick K P file l (rev (map fid gs)) (tid u) ?u = None"
    proof (rule merge_stuck [OF rw(1) p(1) _ _ _ _ view pp(2) _ _ kids])
      show "ppage_map ?u v = Some f" using gp(1) by (simp add: rewritten_def)
      show "?H f = Writer" "rev (map fid gs) \<noteq> []" "m (last (rev (map fid gs))) = Some w" using gs w(1) by (simp_all add: last_rev)
      show "frame_ss g l \<noteq> []" using separated_plug1 [OF sep] by blast
      show "l = frame_lm g l \<or> l \<in> snd ` set (frame_ss g l)" using frame_child [of g l] by auto
      have "vacant_frames ?u = vacant_frames t3" by (simp add: rewritten_def)
      then show "2 \<le> spare ?u" using sp2(1) got(3) by simp
    qed
    then have "pbind (bt_remove ?k \<lparr> rid_page = record_page e, rid_slot = record_slot e \<rparr> f) (\<lambda>can_merge.
         pbind (mark_dirty f) (\<lambda>_. if can_merge then try_merge_leaf pick K P file l (rev (map fid gs)) (tid u) else ret ())) t3 = None"
      using rm(1) few fm fr(2) by (simp add: pbind_Ok marked_frame_run rewritten_def)
    then show ?thesis using 1(1) sp1(2) d(6) sp2(2) tree_root [OF T1] got(1)
      by (simp add: bt_delete_def pbind_Ok key with_err_def) (simp add: with_guard_def)
  qed
qed

text \<open>An insertion into the root leaf marks no frame, so the disk keeps the page of before.\<close>

lemma no_marks_keeps:
  assumes i: "inv n H s m" "inv k H' t m'" and c: "keeps m J s t" "no_marks s"
  shows "no_marks t"
  unfolding no_marks_def
proof (intro allI impI)
  fix f l v assume "f < length (frame_metas t)"
  then have f: "f < num_frames s" "f < length (frame_metas s)" using c(1) lengths(3) [OF i(1)] lengths(3) [OF i(2)] by (simp_all add: keeps_def keeps_held_def)
  then show "frame_metas t ! f \<noteq> Loaded l v True" using c unfolding keeps_def keeps_clean_def no_marks_def by blast
qed

lemma unmarked_on_disk:
  assumes g: "got n (\<lambda>_. Free) s t m Writer f l v pg" and clean: "no_marks t" and p: "pool_view on_disk t w = Some p"
  shows "on_disk (bp_disk t) w = Some p"
proof (cases "ppage_map t w")
  case None
  then show ?thesis using p by (simp add: pool_view_def)
next
  case (Some x)
  have i: "inv n ((\<lambda>_. Free)(f := Writer)) t m" "settled f t" using g by (simp_all add: got_def)
  obtain k d where x: "x < num_frames t" "frame_metas t ! x = Loaded k w d" using ppage_iff [OF i(1)] Some by blast
  then have d: "frame_metas t ! x = Loaded k w False" using clean lengths(3) [OF i(1)] by (cases d) (auto simp: no_marks_def)
  have "pool_buf t ! x = p" using p Some by (simp add: pool_view_def)
  then show ?thesis using clean_frame [OF i(1) x(1) d] i(2) d by (cases "x = f") (auto simp: settled_def)
qed

lemma bt_insert_unmarked:
  assumes inv: "idle (Suc n) s m" and T: "index_tree s m file (Some (Leaf l es))" and clean: "no_marks s"
    and k: "key_from_bytes key \<notin> bl_key ` set es" "length es < 253" and sp: "2 \<le> spare s"
  shows "\<exists>t. bt_insert pick K P file key rid s = Some (Ok (), t) \<and> no_marks t \<and> rep (bp_disk t) m \<and>
    (\<forall>w p. place w \<longrightarrow> pool_view on_disk s w = Some p \<longrightarrow> on_disk (bp_disk t) w = Some p)"
proof -
  let ?k = "key_from_bytes key"
  obtain r1 t1 where 1: "bt_read_root_page pick K P file s = Some (r1, t1)" "idle n t1 m" "stays m s t1"
    "r1 = refused \<or> r1 = Ok (index_root (Some (Leaf l es)))" using root_run [OF inv T] by blast
  have sp1: "1 \<le> spare t1" "r1 = Ok l" using needsD [OF visit_needs(2) 1(1)] sp 1(4) by auto
  have T1: "index_tree t1 m file (Some (Leaf l es))" by (rule index_stays [OF invD(1) [OF inv] 1(3) T])
  obtain v p where p: "m l = Some v" "pool_view on_disk t1 v = Some p" "index_leaf p es"
    by (rule index_leaf_at [where gs = "[]", simplified, OF T1])
  have l: "l \<noteq> 0" using tree_root [OF T1] by simp
  show ?thesis
    using 1(2) p(1,2)
  proof (cases rule: fetch_write_cases)
    case held
    then show ?thesis using fetch_write_run [OF 1(2) p(1,2) none_held] by auto
  next
    case full
    then show ?thesis using sp1 by simp
  next
    case (got f t2)
    note gp = got_page [OF got(2)]
    have find: "bt_find_leaf_for_write pick K P ?k l [] t1 = Some (Ok (l, f, []), t2)"
      using got(1) gp(2)
      by (subst bt_find_leaf_for_write.simps) (simp add: pbind_Ok on_fail_def with_err_def from_page_def guard_page_def lift_def write_step_leaf [OF p(3)] ret_def)
    obtain p' where put: "bl_put ?k rid f t2 = Some ((Ok () :: ('e buffer_error accessor_error, unit) outcome), t2\<lparr> pool_buf := (pool_buf t2)[f := p'] \<rparr>)"
      by (rule put_run [OF p(3) k gp(2)]) 
    let ?t = "t2\<lparr> pool_buf := (pool_buf t2)[f := p'] \<rparr>"
    have "f < length (pin_counts ?t)" using got(2) lengths(2) [OF gp(4)] by (simp add: got_def)
    then obtain u where u: "drop_guard P f ?t = Some ((Ok () :: ('e buffer_error, unit) outcome), u)" "frame_metas u = frame_metas t2" "bp_disk u = bp_disk t2"
      using drop_metas [of f ?t P] by auto
    let ?M = "pbind (on_fail P [] (bl_put ?k rid f)) (\<lambda>_. drop_guards P [])"
    have "?M t2 = Some ((Ok () :: ('e buffer_error accessor_error, unit) outcome), ?t)"
      using put by (simp add: pbind_Ok on_fail_def ret_def)
    from with_guard_run [of ?M, OF this u(1)] have "bt_insert pick K P file key rid s = Some (Ok (), u)"
      using 1(1) sp1(2) l find gp(2) k(2) leaf_count [OF p(3)]
      by (simp add: bt_insert_def pbind_Ok) (simp add: pbind_def gets_def guard_page_def bl_needs_split_def)
    moreover have clean2: "no_marks t2" by (rule no_marks_keeps [OF 1(2) gp(4,5) no_marks_keeps [OF inv 1(2,3) clean]])
    then have "no_marks u" using u(2) by (simp add: no_marks_def)
    moreover have "on_disk (bp_disk u) w = Some p" if "place w" "pool_view on_disk s w = Some p" for w p
      using unmarked_on_disk [OF got(2) clean2] keeps_view [OF gp(5)] keeps_view [OF 1(3)] that u(3) by metis
    moreover have "rep (bp_disk u) m" using invD(1) [OF gp(4)] u(3) by simp
    ultimately show ?thesis by blast
  qed
qed

end

end
