(* ===== verification/IndexChanges.thy ===== *)
theory IndexChanges
  imports IndexWrites
begin

text \<open>
  The changes of an index that are marked: a deletion from the root leaf or from a leaf that stays well
  filled, and the first insertion. They leave an index in the pool with the entries that they should.
\<close>

section \<open>A leaf with fewer entries\<close>

lemma chain_links:
  assumes "\<And>x p. V x = Some p \<Longrightarrow> \<exists>q. V' x = Some q \<and> leaf_prev_page q = leaf_prev_page p \<and> leaf_next_page q = leaf_next_page p"
  shows "chain V a xs b \<Longrightarrow> chain V' a xs b"
proof (induction xs arbitrary: a)
  case (Cons x xs)
  then obtain p where p: "V x = Some p" "leaf_prev_page p = a" "leaf_next_page p = head_or xs b" "chain V x xs b"
    by (auto simp: chain_Cons simp del: chain.simps(2))
  obtain q where "V' x = Some q" "leaf_prev_page q = a" "leaf_next_page q = head_or xs b" using assms [OF p(1)] p(2,3) by auto
  then show ?case using Cons.IH [OF p(4)] by (simp add: chain_Cons del: chain.simps(2))
qed simp

lemma wf_put:
  assumes wf: "wf_index V (plug gs (Leaf l es))" and p: "V l = Some p" "leaf_prev_page p' = leaf_prev_page p" "leaf_next_page p' = leaf_next_page p"
    and p': "V' l = Some p'" "index_leaf p' es'" "set es' \<subseteq> set es" and same: "\<And>k q. k \<noteq> l \<Longrightarrow> V k = Some q \<Longrightarrow> V' k = Some q"
  shows "wf_index V' (plug gs (Leaf l es'))"
proof -
  have w: "irep V (plug gs (Leaf l es))" "inb bl_key (plug gs (Leaf l es)) 0 ktop" "uniq (idm (plug gs (Leaf l es)))" "chain V 0 (leaf_ids (plug gs (Leaf l es))) 0"
    using wf by (simp_all add: wf_index_def)
  have c: "ctx_inb bl_key gs 0 ktop" by (rule ctx_of_inb [OF _ w(2)]) simp
  have "l \<notin># ctx_idm gs" using w(3) by (auto simp: idm_plug)
  then have "improves index_format V V' i" if "i \<in># ctx_idm gs" for i
    using that same [of i] unfolding improves_def by blast
  then have "rep_ctx index_format V' gs l" using w(1) rep_ctx_improves [of gs index_format V V' l] by (simp add: rep_plug)
  then have "irep V' (plug gs (Leaf l es'))" using p' by (simp add: rep_plug)
  moreover have "inb bl_key (Leaf l es') (hole_lo gs 0) (hole_hi gs ktop)"
    using inb_plug [OF c, of "Leaf l es"] w(2) p'(2,3) by (auto simp: leaf_page_def page_inv_def)
  then have "inb bl_key (plug gs (Leaf l es')) 0 ktop" using inb_plug [OF c, of "Leaf l es'"] by (simp only:)
  moreover have "uniq (idm (plug gs (Leaf l es')))" using w(3) by (simp add: idm_plug)
  moreover have "chain V' 0 (leaf_ids (plug gs (Leaf l es'))) 0"
  proof (rule chain_links)
    show "chain V 0 (leaf_ids (plug gs (Leaf l es'))) 0" using w(4) by (simp add: leaf_ids_plug)
    show "\<exists>q. V' x = Some q \<and> leaf_prev_page q = leaf_prev_page r \<and> leaf_next_page q = leaf_next_page r" if "V x = Some r" for x r
      using that p p'(1) same [of x r] by (cases "x = l") auto
  qed
  ultimately show ?thesis by (simp add: wf_index_def)
qed

lemma without_there:
  assumes "ctx_inb bl_key gs 0 ktop" "hole_lo gs 0 \<le> unat k" "unat k < hole_hi gs ktop"
  shows "flat (plug gs (Leaf l (without k es))) = without k (flat (plug gs (Leaf l es)))"
proof -
  have "k \<notin> bl_key ` set (pre flat gs)" "k \<notin> bl_key ` set (post flat gs)"
    using ctx_outside [OF assms(1)] assms(2,3) by fastforce+
  then have "without k (pre flat gs) = pre flat gs" "without k (post flat gs) = post flat gs" by (auto simp: filter_id_conv)
  then show ?thesis by (simp add: flat_plug)
qed

text \<open>A leaf below the root from which an entry cannot be taken without a merge.\<close>

definition short_leaf :: "index_value \<Rightarrow> u64 \<Rightarrow> bool" where
  "short_leaf T k \<longleftrightarrow> (case T of Some (Node i t ts) \<Rightarrow> \<exists>es\<in>set (map snd (leaves (Node i t ts))). k \<in> bl_key ` set es \<and> length es \<le> 126
     | _ \<Rightarrow> False)"

lemma plug_node: "gs \<noteq> [] \<Longrightarrow> \<exists>i u ts. plug gs t = Node i u ts"
proof (cases gs rule: rev_cases)
  case (snoc hs g)
  then show ?thesis by (cases g) simp_all
qed simp

lemma short_leafI: "gs \<noteq> [] \<Longrightarrow> k \<in> bl_key ` set es \<Longrightarrow> length es \<le> 126 \<Longrightarrow> short_leaf (Some (plug gs (Leaf l es))) k"
proof -
  assume gs: "gs \<noteq> []" and es: "k \<in> bl_key ` set es" "length es \<le> 126"
  obtain i u ts where n: "plug gs (Leaf l es) = Node i u ts" using plug_node [OF gs] by blast
  have "es \<in> set (map snd (leaves (plug gs (Leaf l es))))" by (simp add: leaves_plug)
  then show ?thesis using es unfolding short_leaf_def n by auto
qed

definition index_entries :: "index_value \<Rightarrow> btree_leaf_entry list" where
  "index_entries T = concat (index_leaves T)"

lemma index_entries_simps [simp]: "index_entries None = []" "index_entries (Some u) = flat u"
  by (simp_all add: index_entries_def leaves_flat)

text \<open>The answer of a deletion, and what it leaves.\<close>

definition remove_answer :: "btree_leaf_entry list \<Rightarrow> u64 \<Rightarrow> record_id \<Rightarrow> ('b accessor_error, unit) outcome \<times> btree_leaf_entry list" where
  "remove_answer es k rid = (if removable es k rid then (Ok (), without k es) else (Err TupleNonExistent, es))"

lemma ids_plug_cong: "ids t = ids u \<Longrightarrow> ids (plug gs t) = ids (plug gs u)"
proof (induction gs arbitrary: t u)
  case (Cons g gs)
  have "ids (plug1 g t) = ids (plug1 g u)" using Cons.prems by (cases g) simp_all
  from Cons.IH [OF this] show ?case by simp
qed simp

context buffer_pool
begin

lemma remove_writes:
  assumes p: "index_leaf p es" and e: "removable es k rid" and safe: "126 < length es \<or> path = []"
  shows "writes_page (\<lambda>f. pbind (bt_remove k rid f) (\<lambda>can_merge. pbind (mark_dirty f) (\<lambda>_. if can_merge then try_merge_leaf pick K P file l path root else ret ())))
    l' v p (Ok () :: ('e buffer_error accessor_error, unit) outcome) (\<lambda>p'. index_leaf p' (without k es) \<and> leaf_prev_page p' = leaf_prev_page p \<and> leaf_next_page p' = leaf_next_page p)"
  unfolding writes_page_def
proof (intro allI impI)
  fix f and u :: "('s, 'p) pool" and d
  assume u: "f < length (pool_buf u)" "f < length (frame_metas u)" "frame_metas u ! f = Loaded l' v d" "pool_buf u ! f = p"
  obtain p' where p': "bt_remove k rid f u = Some ((Ok (length es \<le> 126) :: ('e buffer_error accessor_error, bool) outcome), u\<lparr> pool_buf := (pool_buf u)[f := p'] \<rparr>)"
    "index_leaf p' (without k es)" "leaf_prev_page p' = leaf_prev_page p" "leaf_next_page p' = leaf_next_page p" "length p' = PAGE_BUF_SIZE"
    by (rule remove_ok [OF p e u(1,4)])
  have "mark_dirty f (u\<lparr> pool_buf := (pool_buf u)[f := p'] \<rparr>) = Some ((Ok () :: ('e buffer_error accessor_error, unit) outcome), rewritten f l' v p' u)"
    using u(2,3) marked_frame_run [of f "u\<lparr> pool_buf := (pool_buf u)[f := p'] \<rparr>"] by (simp add: rewritten_def)
  then have "pbind (bt_remove k rid f) (\<lambda>can_merge. pbind (mark_dirty f) (\<lambda>_. if can_merge then try_merge_leaf pick K P file l path root else ret ())) u =
      Some (Ok (), rewritten f l' v p' u)"
    using p'(1) safe by (auto simp: pbind_Ok try_merge_leaf_def ret_def)
  with p' show "\<exists>p'. pbind (bt_remove k rid f) (\<lambda>can_merge. pbind (mark_dirty f) (\<lambda>_. if can_merge then try_merge_leaf pick K P file l path root else ret ())) u =
      Some (Ok (), rewritten f l' v p' u) \<and> length p' = PAGE_BUF_SIZE \<and> index_leaf p' (without k es) \<and> leaf_prev_page p' = leaf_prev_page p \<and> leaf_next_page p' = leaf_next_page p"
    by (intro exI [of _ p'] conjI)
qed

lemma index_put:
  assumes rep: "rep d m" and T: "index_tree s m file (Some (plug gs (Leaf l es)))" and p: "page_at s m l = Some p" "m l = Some v"
    and p': "index_leaf p' es'" "set es' \<subseteq> set es" "leaf_prev_page p' = leaf_prev_page p" "leaf_next_page p' = leaf_next_page p" and put: "puts m s t v p'"
  shows "index_tree t m file (Some (plug gs (Leaf l es')))"
proof -
  note at = put_page_at [OF rep put p(2)]
  have T': "anon (header_loc file)" "m 0 = None" "wf_index (page_at s m) (plug gs (Leaf l es))" using T by (auto simp: index_tree_def index_in_def)
  obtain pg where pg: "pool_view on_disk s (header_loc file) = Some pg" "index_header_holds pg (tid (plug gs (Leaf l es)))"
    using T by (auto simp: index_tree_def index_in_def)
  have "wf_index (page_at t m) (plug gs (Leaf l es'))" by (rule wf_put [of "page_at s m" gs l es p p' "page_at t m" es', OF T'(3) p(1) p'(3,4) at(1) p'(1,2)]) (rule at(2))
  moreover have "pool_view on_disk t (header_loc file) = Some pg" by (rule at(3) [OF T'(1) pg(1)])
  moreover have "tid (plug gs (Leaf l es')) = tid (plug gs (Leaf l es))" by (rule tid_plug_cong) simp
  ultimately show ?thesis using T' pg(2) by (simp add: index_tree_def index_in_def)
qed

lemma bt_delete_run:
  assumes inv: "idle (index_pages T + 2 + n) s m" and T: "index_tree s m file T" and safe: "\<not> short_leaf T (key_from_bytes key)"
  shows "\<exists>r t T'. bt_delete pick K P file key rid s = Some (r, t) \<and> idle n t m \<and> index_tree t m file T' \<and> index_pages T' = index_pages T \<and>
    (can_grow (bp_disk s) m \<longrightarrow> can_grow (bp_disk t) m) \<and>
    (r = refused \<and> T' = T \<or> (r, index_entries T') = remove_answer (index_entries T) (key_from_bytes key) rid)"
proof -
  let ?k = "key_from_bytes key"
  have i1: "idle (Suc (index_pages T + 1 + n)) s m" using inv by simp
  obtain r1 t1 where 1: "bt_read_root_page pick K P file s = Some (r1, t1)" "idle (index_pages T + 1 + n) t1 m" "stays m s t1"
    "r1 = refused \<or> r1 = Ok (index_root T)" using root_run [OF i1 T] by blast
  have T1: "index_tree t1 m file T" by (rule index_stays [OF invD(1) [OF inv] 1(3) T])
  have g1: "can_grow (bp_disk s) m \<longrightarrow> can_grow (bp_disk t1) m" using 1(3) by (simp add: keeps_def)
  have less: "idle n t1 m" by (rule inv_mono [OF 1(2)]) simp
  show ?thesis
    using 1(4)
  proof
    assume "r1 = refused"
    then have "bt_delete pick K P file key rid s = Some (refused, t1)" using 1(1) by (simp add: bt_delete_def pbind_Err)
    then show ?thesis using less T1 g1 by blast
  next
    assume r1: "r1 = Ok (index_root T)"
    show ?thesis
    proof (cases T)
      case None
      then have "bt_delete pick K P file key rid s = Some (Err TupleNonExistent, t1)" using 1(1) r1 by (simp add: bt_delete_def pbind_Ok fail_def)
      moreover have "(Err TupleNonExistent, index_entries T) = remove_answer (index_entries T) ?k rid"
        by (simp add: None remove_answer_def removable_def find_entry_def)
      ultimately show ?thesis using less T1 g1 by blast
    next
      case (Some u)
      have i2: "idle (length (ids u) + (1 + n)) t1 m" using 1(2) by (simp add: Some)
      have T2: "index_tree t1 m file (Some u)" using T1 Some by simp
      obtain gs l es r2 t2 where d: "u = plug gs (Leaf l es)" "ctx_inb bl_key gs 0 ktop" "hole_lo gs 0 \<le> unat ?k" "unat ?k < hole_hi gs ktop"
        "r2 = refused \<or> r2 = Ok l" "\<And>path. bt_find_path pick K P ?k (tid u) path t1 = Some (map_outcome (\<lambda>l. (l, path @ rev (map fid gs))) r2, t2)"
        "idle (1 + n) t2 m" "stays m t1 t2" "index_tree t2 m file (Some u)"
        by (rule index_descent [OF i2 T2, of ?k]) metis
      have root: "tid u \<noteq> 0" by (rule tree_root [OF T2])
      have g2: "can_grow (bp_disk s) m \<longrightarrow> can_grow (bp_disk t2) m" using g1 d(8) by (simp add: keeps_def)
      have inv2: "idle n t2 m" by (rule inv_mono [OF d(7)]) simp
      show ?thesis
        using d(5)
      proof
        assume "r2 = refused"
        then have "bt_delete pick K P file key rid s = Some (refused, t2)" using 1(1) r1 d(6) root Some by (simp add: bt_delete_def pbind_Ok pbind_Err)
        then show ?thesis using inv2 d(9) g2 Some by blast
      next
        assume r2: "r2 = Ok l"
        let ?path = "rev (map fid gs)"
        let ?M = "\<lambda>f. pbind (bt_remove ?k rid f) (\<lambda>can_merge. pbind (mark_dirty f) (\<lambda>_. if can_merge then try_merge_leaf pick K P file l ?path (tid u) else ret ()))"
        obtain v p where p: "m l = Some v" "pool_view on_disk t2 v = Some p" "page_at t2 m l = Some p" "index_leaf p es"
          by (rule index_leaf_at [OF d(9) [unfolded d(1)]])
        have run: "bt_delete pick K P file key rid s = pbind (in_pool (fetch_page_write pick K P l)) (\<lambda>f. with_guard P f (?M f)) t2"
          using 1(1) r1 d(6) r2 root Some by (simp add: bt_delete_def pbind_Ok)
        have fe: "find_entry bl_key ?k (flat u) = find_entry bl_key ?k es" using lookup_there [OF d(2-4), of l es] d(1) by simp
        then have rm: "removable (flat u) ?k rid = removable es ?k rid" by (simp add: removable_def)
        show ?thesis
        proof (cases "removable es ?k rid")
          case False
          have "\<forall>f u. pool_buf u ! f = p \<longrightarrow> ?M f u = Some (Err TupleNonExistent, u)"
            by (intro allI impI pbind_Err) (rule remove_refused [OF p(4) False])
          from look_page_run [OF inv2 p(1,2) none_held this] obtain r t where r: "pbind (in_pool (fetch_page_write pick K P l)) (\<lambda>f. with_guard P f (?M f)) t2 = Some (r, t)"
            "idle n t m" "stays m t2 t" "r = refused \<or> r = Err TupleNonExistent" by blast
          have "index_tree t m file T" using index_stays [OF invD(1) [OF inv2] r(3)] d(9) Some by simp
          moreover have "can_grow (bp_disk s) m \<longrightarrow> can_grow (bp_disk t) m" using g2 r(3) by (simp add: keeps_def)
          moreover have "r = refused \<and> T = T \<or> (r, index_entries T) = remove_answer (index_entries T) ?k rid"
            using r(4) False rm by (auto simp: Some remove_answer_def)
          ultimately show ?thesis using run r(1,2) by (intro exI [of _ r] exI [of _ t] exI [of _ T]) simp
        next
          case True
          have "?k \<in> bl_key ` set es" using True find_entry_None [of bl_key ?k es] by (auto simp: removable_def split: option.splits)
          then have "126 < length es \<or> gs = []" using safe short_leafI [of gs ?k es l] d(1) Some by (metis not_le)
          then have "126 < length es \<or> ?path = []" by simp
          from fetched_write_run [OF inv2 p(1,2) none_held remove_writes [of p es ?k rid ?path "file" l "tid u", OF p(4) True this]]
          obtain r t where r: "pbind (in_pool (fetch_page_write pick K P l)) (\<lambda>f. with_guard P f (?M f)) t2 = Some (r, t)" "idle n t m"
            "r = refused \<and> stays m t2 t \<or> r = Ok () \<and> (\<exists>p'. (index_leaf p' (without ?k es) \<and> leaf_prev_page p' = leaf_prev_page p \<and> leaf_next_page p' = leaf_next_page p) \<and> puts m t2 t v p')"
            by blast
          from r(3) show ?thesis
          proof
            assume a: "r = refused \<and> stays m t2 t"
            then have "index_tree t m file T" using index_stays [OF invD(1) [OF inv2] conjunct2 [OF a] d(9)] Some by simp
            moreover have "can_grow (bp_disk s) m \<longrightarrow> can_grow (bp_disk t) m" using g2 a by (simp add: keeps_def)
            ultimately show ?thesis using run r(1,2) a by (intro exI [of _ r] exI [of _ t] exI [of _ T]) simp
          next
            assume a: "r = Ok () \<and> (\<exists>p'. (index_leaf p' (without ?k es) \<and> leaf_prev_page p' = leaf_prev_page p \<and> leaf_next_page p' = leaf_next_page p) \<and> puts m t2 t v p')"
            then obtain p' where p': "index_leaf p' (without ?k es)" "leaf_prev_page p' = leaf_prev_page p" "leaf_next_page p' = leaf_next_page p" "puts m t2 t v p'" by blast
            let ?T = "Some (plug gs (Leaf l (without ?k es)))"
            have "index_tree t m file ?T"
              by (rule index_put [OF invD(1) [OF inv2] d(9) [unfolded d(1)] p(3,1) p'(1) _ p'(2-4)]) simp
            moreover have "index_pages ?T = index_pages T" using ids_plug_cong [of "Leaf l (without ?k es)" "Leaf l es" gs] by (simp add: Some d(1))
            moreover have "can_grow (bp_disk s) m \<longrightarrow> can_grow (bp_disk t) m" using g2 p'(4) by (simp add: put_page_def)
            moreover have "(r, index_entries ?T) = remove_answer (index_entries T) ?k rid"
              using a True rm without_there [OF d(2-4), of l es] by (simp add: Some remove_answer_def d(1))
            ultimately show ?thesis using run r(1,2) by (intro exI [of _ r] exI [of _ t] exI [of _ ?T]) simp
          qed
        qed
      qed
    qed
  qed
qed

section \<open>The first insertion\<close>

lemma root_writes:
  assumes h: "index_header_holds pg root"
  shows "writes_page (\<lambda>g. pbind (put_root_page g k) (\<lambda>_. ret ())) l v pg (Ok () :: ('e buffer_error accessor_error, unit) outcome)
    (\<lambda>pg'. index_header_holds pg' k)"
  unfolding writes_page_def
proof (intro allI impI)
  fix f and u :: "('s, 'p) pool" and d
  assume u: "f < length (pool_buf u)" "f < length (frame_metas u)" "frame_metas u ! f = Loaded l v d" "pool_buf u ! f = pg"
  note i = index_header_frame [OF h u(4)]
  have b: "buf_bytes (frame_buf f u) = pg" using u(4) by (simp add: frame_buf_def guard_page_def)
  let ?d = "index_file_data_of_bytes (bytes_at 16 28 pg)"
  have "length (if_magic (?d\<lparr> if_root_page := k \<rparr>)) = 8"
    using i(2) by (simp add: index_file_data_of_bytes_def b is_page_def PAGE_BUF_SIZE_def)
  from ifh_data_mut_Ok [OF i(2,3,4), of "\<lambda>d. d\<lparr> if_root_page := k \<rparr>", OF this]
  obtain b' where b': "ifh_data_mut (\<lambda>d. d\<lparr> if_root_page := k \<rparr>) (frame_buf f u) = Ok b'" "is_page (buf_bytes b')" "buf_addr b' = buf_addr (frame_buf f u)"
    "ifh_data b' = Ok (?d\<lparr> if_root_page := k \<rparr>)" "uber_header (buf_bytes b') = uber_header pg"
    by (auto simp: b)
  have "index_file_data_of_bytes (bytes_at 16 28 (buf_bytes b')) = ?d\<lparr> if_root_page := k \<rparr>"
    using b'(4) ifh_data_Ok [OF b'(2)] i(3) b'(3) by simp
  then have "index_header_holds (buf_bytes b') k" "length (buf_bytes b') = PAGE_BUF_SIZE"
    using h b'(2,5) by (simp_all add: index_header_holds_def is_page_def)
  moreover have "pbind (put_root_page f k) (\<lambda>_. ret ()) u = Some (Ok (), rewritten f l v (buf_bytes b') u)"
    using u(2,3) b'(1)
    by (simp add: pbind_Ok put_root_page_def from_frame_def lift_def i(1,4) with_err_def on_frame_to page_upd_def marked_frame_run rewritten_def ret_def)
  ultimately show "\<exists>pg'. pbind (put_root_page f k) (\<lambda>_. ret ()) u = Some (Ok (), rewritten f l v pg' u) \<and>
      length pg' = PAGE_BUF_SIZE \<and> index_header_holds pg' k"
    by blast
qed

text \<open>The new leaf.\<close>

lemma first_leaf:
  assumes u: "f < length (pool_buf u)" "f < length (frame_metas u)" "frame_metas u ! f = Loaded l v d" "is_page (pool_buf u ! f)"
  obtains p where "on_page f (modify (\<lambda>p. bl_init p i)) u = Some ((Ok () :: ('e buffer_error accessor_error, unit) outcome), u\<lparr> pool_buf := (pool_buf u)[f := bl_init (pool_buf u ! f) i] \<rparr>)"
    "bl_put k rid f (u\<lparr> pool_buf := (pool_buf u)[f := bl_init (pool_buf u ! f) i] \<rparr>) = Some ((Ok () :: ('e buffer_error accessor_error, unit) outcome), u\<lparr> pool_buf := (pool_buf u)[f := p] \<rparr>)"
    "mark_dirty f (u\<lparr> pool_buf := (pool_buf u)[f := p] \<rparr>) = Some ((Ok () :: ('e buffer_error accessor_error, unit) outcome), rewritten f l v p u)"
    "index_leaf p [btree_leaf_entry_new k (rid_page rid) (rid_slot rid)]" "leaf_prev_page p = 0" "leaf_next_page p = 0" "length p = PAGE_BUF_SIZE"
proof -
  let ?q = "bl_init (pool_buf u ! f) i"
  let ?u = "u\<lparr> pool_buf := (pool_buf u)[f := ?q] \<rparr>"
  note q = bl_init_inv [OF u(4), of i]
  have "page_type_id (uber_header ?q) = page_type_byte BTreeLeaf" using u(4) by (simp add: bl_init_def is_page_def PAGE_BUF_SIZE_def del: page_type_byte.simps)
  then have leaf: "index_leaf ?q []" using q(1,3) by (simp add: leaf_page_def entries_def)
  have at: "pool_buf ?u ! f = ?q" using u(1) by simp
  obtain p where p: "bl_put k rid f ?u = Some ((Ok () :: ('e buffer_error accessor_error, unit) outcome), ?u\<lparr> pool_buf := (pool_buf ?u)[f := p] \<rparr>)"
    "index_leaf p (insert_sorted bl_key (btree_leaf_entry_new k (rid_page rid) (rid_slot rid)) [])"
    "leaf_prev_page p = leaf_prev_page ?q" "leaf_next_page p = leaf_next_page ?q" "length p = PAGE_BUF_SIZE"
    by (rule put_run [OF leaf _ _ at, of k]) simp_all
  have "mark_dirty f (u\<lparr> pool_buf := (pool_buf u)[f := p] \<rparr>) = Some ((Ok () :: ('e buffer_error accessor_error, unit) outcome), rewritten f l v p u)"
    using u(2,3) by (simp add: marked_frame_run rewritten_def)
  moreover have "index_leaf p [btree_leaf_entry_new k (rid_page rid) (rid_slot rid)]" using p(2) by (simp add: insert_sorted_def)
  ultimately show ?thesis using that [of p] p(1,3-5) q(4,5) by (simp add: on_page_def modify_def guard_page_def)
qed

lemma single_leaf:
  assumes "V l = Some p" "index_leaf p [e]" "leaf_prev_page p = 0" "leaf_next_page p = 0"
  shows "wf_index V (Leaf l [e])"
  using assms unat_bound [of "bl_key e"] by (simp add: wf_index_def uniq_def)

lemma bt_insert_first_run:
  assumes inv: "idle n s m" and T: "index_tree s m file None" and grow: "can_grow (bp_disk s) m"
  shows "\<exists>r t m' T'. bt_insert_first pick K P file k rid s = Some (r, t) \<and> idle n t m' \<and> index_tree t m' file T' \<and> m \<subseteq>\<^sub>m m' \<and>
    (r = refused \<and> T' = None \<or> (\<exists>l. r = Ok () \<and> T' = Some (Leaf l [btree_leaf_entry_new k (rid_page rid) (rid_slot rid)])))"
proof -
  let ?H = "\<lambda>f. (\<lambda>_. Free)(f := Writer)"
  let ?e = "btree_leaf_entry_new k (rid_page rid) (rid_slot rid)"
  obtain hp where hp: "pool_view on_disk s (header_loc file) = Some hp" "index_header_holds hp 0"
    using T by (auto simp: index_tree_def index_in_def)
  have h: "anon (header_loc file)" "m 0 = None" "place (header_loc file)" using T places(3) by (auto simp: index_tree_def)
  obtain l v t where l: "m l = None" "l \<noteq> 0"
    and cases: "pool_new_page pick K P file s = Some (Err (EvictorError NoVictimFound), t) \<and> idle n t (m(l \<mapsto> v)) \<and> keeps_pages on_disk place s t \<or>
      (\<exists>f. pool_new_page pick K P file s = Some (Ok f, t) \<and> inv n (?H f) t (m(l \<mapsto> v)) \<and> f < num_frames t \<and>
        frame_metas t ! f = Loaded l v False \<and> pool_buf t ! f = replicate PAGE_BUF_SIZE 0 \<and>
        (\<forall>w p. place w \<longrightarrow> w \<noteq> v \<longrightarrow> pool_view on_disk s w = Some p \<longrightarrow> pool_view on_disk t w = Some p))"
    using new_page_run [OF inv grow, where fno = "file"] by blast
  let ?m = "m(l \<mapsto> v)"
  have le: "m \<subseteq>\<^sub>m ?m" using l(1) by (auto simp: map_le_def)
  have z: "?m 0 = None" using h(2) l(2) by simp
  from cases show ?thesis
  proof (elim disjE exE conjE)
    assume a: "pool_new_page pick K P file s = Some (Err (EvictorError NoVictimFound), t)" "idle n t ?m" "keeps_pages on_disk place s t"
    have "pool_view on_disk t (header_loc file) = Some hp" using a(3) h(3) hp(1) by (simp add: keeps_pages_def)
    then have "index_tree t ?m file None" using h(1) z hp(2) by (simp add: index_tree_def index_in_def)
    moreover have "bt_insert_first pick K P file k rid s = Some (refused, t)"
      using a(1) by (simp add: bt_insert_first_def alloc_page_def pbind_Err with_err_def)
    ultimately show ?thesis using a(2) le by blast
  next
    fix f assume a: "pool_new_page pick K P file s = Some (Ok f, t)" "inv n (?H f) t ?m" "f < num_frames t"
      "frame_metas t ! f = Loaded l v False" "pool_buf t ! f = replicate PAGE_BUF_SIZE 0"
      "\<forall>w p. place w \<longrightarrow> w \<noteq> v \<longrightarrow> pool_view on_disk s w = Some p \<longrightarrow> pool_view on_disk t w = Some p"
    have rep: "rep (bp_disk t) ?m" by (rule invD(1) [OF a(2)])
    have v: "v \<noteq> header_loc file" using places(2) [OF rep, of l v] h(1) by auto
    have len: "f < length (pool_buf t)" "f < length (frame_metas t)" using a(3) lengths [OF a(2)] by simp_all
    have zeros: "is_page (pool_buf t ! f)" using a(5) by (simp add: is_page_def)
    obtain p where p: "on_page f (modify (\<lambda>p. bl_init p l)) t = Some ((Ok () :: ('e buffer_error accessor_error, unit) outcome), t\<lparr> pool_buf := (pool_buf t)[f := bl_init (pool_buf t ! f) l] \<rparr>)"
      "bl_put k rid f (t\<lparr> pool_buf := (pool_buf t)[f := bl_init (pool_buf t ! f) l] \<rparr>) = Some ((Ok () :: ('e buffer_error accessor_error, unit) outcome), t\<lparr> pool_buf := (pool_buf t)[f := p] \<rparr>)"
      "mark_dirty f (t\<lparr> pool_buf := (pool_buf t)[f := p] \<rparr>) = Some ((Ok () :: ('e buffer_error accessor_error, unit) outcome), rewritten f l v p t)"
      "index_leaf p [?e]" "leaf_prev_page p = 0" "leaf_next_page p = 0" "length p = PAGE_BUF_SIZE"
      by (rule first_leaf [OF len a(4) zeros, of l k rid])
    let ?t = "rewritten f l v p t"
    note rw = rewritten_inv [OF a(2-4) p(7)]
    have f: "f < num_frames ?t" "frame_metas ?t ! f = Loaded l v True" using a(3) len by (simp_all add: rewritten_def)
    have hv: "pool_view on_disk ?t (header_loc file) = Some hp" using a(6) h(3) hp(1) v by (simp add: rw(2))
    have hz: "page_id (uber_header hp) = 0" using hp(2) by (simp add: index_header_holds_def)
    let ?M = "pbind (on_page f (modify (\<lambda>p. bl_init p l))) (\<lambda>_. pbind (bl_put k rid f) (\<lambda>_. pbind (mark_dirty f) (\<lambda>_. bt_set_root_page pick K P file l)))"
    let ?M' = "\<lambda>_. ?M t"
    have M: "?M' ?t = pbind (in_pool (fetch_page_at_loc_write pick K P (header_loc file))) (\<lambda>g. with_guard P g (pbind (put_root_page g l) (\<lambda>_. ret ()))) ?t"
      using p(1-3) by (simp add: pbind_Ok bt_set_root_page_def guard_ret)
    obtain r u where r: "with_guard P f ?M' ?t = Some (r, u)" "idle n u ?m" "keeps_pages on_disk (\<lambda>w. place w \<and> w \<noteq> header_loc file) ?t u"
      and last: "\<exists>pg. pool_view on_disk u (header_loc file) = Some pg \<and> (r = refused \<and> pg = hp \<or> r = Ok () \<and> index_header_holds pg l)"
      using place_while_held [OF rw(1) f h(1) z hv hz v root_writes [OF hp(2), of l], where M = ?M', OF M] by blast
    have "alloc_page pick K P file s = Some (Ok (l, f), t)"
      using a(1,4) len(2) by (simp add: alloc_page_def pbind_Ok with_err_def on_fail_def frame_lpage_id_def ret_def)
    then have run: "bt_insert_first pick K P file k rid s = Some (r, u)"
      using r(1) by (simp add: bt_insert_first_def pbind_Ok) (simp add: with_guard_def)
    have "place v" using places(2) [OF rep, of l v] by simp
    then have new: "page_at u ?m l = Some p" using r(3) v by (simp add: rw(2) keeps_pages_def page_at_def)
    from last show ?thesis
    proof (elim exE conjE disjE)
      fix pg assume b: "pool_view on_disk u (header_loc file) = Some pg" "r = refused" "pg = hp"
      then have "index_tree u ?m file None" using h(1) z hp(2) by (simp add: index_tree_def index_in_def)
      then show ?thesis using run r(2) b(2) le by blast
    next
      fix pg assume b: "pool_view on_disk u (header_loc file) = Some pg" "r = Ok ()" "index_header_holds pg l"
      have "index_tree u ?m file (Some (Leaf l [?e]))" using b(1,3) h(1) z single_leaf [of "page_at u ?m", OF new p(4-6)] by (simp add: index_tree_def index_in_def)
      then show ?thesis using run r(2) b(2) le by blast
    qed
  qed
qed

lemma bt_insert_empty:
  assumes inv: "idle (Suc n) s m" and T: "index_tree s m file None" and grow: "can_grow (bp_disk s) m"
  shows "\<exists>r t m' T'. bt_insert pick K P file key rid s = Some (r, t) \<and> idle n t m' \<and> index_tree t m' file T' \<and>
    (r = refused \<and> T' = None \<or> (\<exists>l. r = Ok () \<and> T' = Some (Leaf l [btree_leaf_entry_new (key_from_bytes key) (rid_page rid) (rid_slot rid)])))"
proof -
  obtain r1 t1 where 1: "bt_read_root_page pick K P file s = Some (r1, t1)" "idle n t1 m" "stays m s t1"
    "r1 = refused \<or> r1 = Ok (index_root None)" using root_run [OF inv T] by blast
  have T1: "index_tree t1 m file None" by (rule index_stays [OF invD(1) [OF inv] 1(3) T])
  have g1: "can_grow (bp_disk t1) m" using grow 1(3) by (simp add: keeps_def)
  from 1(4) show ?thesis
  proof
    assume "r1 = refused"
    then have "bt_insert pick K P file key rid s = Some (refused, t1)" using 1(1) by (simp add: bt_insert_def pbind_Err)
    then show ?thesis using 1(2) T1 by blast
  next
    assume "r1 = Ok (index_root None)"
    then have "bt_insert pick K P file key rid s = bt_insert_first pick K P file (key_from_bytes key) rid t1"
      using 1(1) by (simp add: bt_insert_def pbind_Ok)
    then show ?thesis using bt_insert_first_run [OF 1(2) T1 g1, of "key_from_bytes key" rid] by (simp only:) blast
  qed
qed

end

end
