(* ===== verification/IndexStore.thy ===== *)
theory IndexStore
  imports IndexTable
begin

text \<open>
  Disks that hold an index: pages that are registered one after another, the pages of leaves, nodes and the
  header as the overlays make them, and the index that these pages give.
\<close>

section \<open>An index on a disk\<close>

definition stored_index :: "(dir, simple_allocator) disk \<Rightarrow> (u32 \<rightharpoonup> ppage_id) \<Rightarrow> u32 \<Rightarrow> index_value \<Rightarrow> bool" where
  "stored_index d m file T \<longleftrightarrow> index_in (page_of d m) (stored d (header_loc file)) T"

section \<open>Registering pages\<close>

definition page_no :: "nat \<Rightarrow> u32" where
  "page_no j = word_of_nat (4 + j)"

lemma page_no_unat: "j < 9 \<Longrightarrow> unat (page_no j) = 4 + j"
  by (simp only: page_no_def unat_of_nat) simp

lemma page_no_props: "j < 9 \<Longrightarrow> page_no j \<noteq> 0" "i < 9 \<Longrightarrow> j < 9 \<Longrightarrow> page_no i = page_no j \<longleftrightarrow> i = j" "page_no (Suc j) = page_no j + 1"
proof -
  show "page_no j \<noteq> 0" if "j < 9" using page_no_unat [OF that] by (metis add_is_0 unat_0 zero_neq_numeral)
  show "page_no i = page_no j \<longleftrightarrow> i = j" if "i < 9" "j < 9"
    using page_no_unat [OF that(1)] page_no_unat [OF that(2)] by (metis add_left_cancel)
qed (simp add: page_no_def)

definition grown :: "nat \<Rightarrow> (dir, simple_allocator) disk \<Rightarrow> (u32 \<rightharpoonup> ppage_id) \<Rightarrow> bool" where
  "grown j d m \<longleftrightarrow> table_disk d m \<and> next_lpage_id d = page_no j \<and> dom m = page_no ` {0..<j} \<and>
     sa_space (9 - j) (dk_allocator d) \<and> (if j = 0 then droot (dk_directory d) = 0 \<and> dnext (dk_directory d) = 1 else dnext (dk_directory d) = 2)"

lemma grown_zero: obtains d where "grown 0 d Map.empty"
proof -
  obtain d where d: "btree_disk (disk_new d sa_new 0 Map.empty) Map.empty" "dnext d = 1" "droot d = 0"
    by (rule new_disk)
  let ?s = "disk_new d sa_new 4 Map.empty"
  have s: "btree_disk ?s Map.empty" using d by (simp add: disk_rep_def disk_new_def handles_ok_def)
  then have "table_disk ?s Map.empty" by (simp add: table_disk_def file_start_def disk_new_def sa_used_def sa_new_def)
  then have "grown 0 ?s Map.empty" using d(2,3) sa_new_space [of 9] by (simp add: grown_def disk_new_def page_no_def)
  then show ?thesis by (rule that)
qed

lemma grown_room:
  assumes g: "grown j d m" and j: "j < 8"
  shows "can_add d m"
proof -
  have t: "next_lpage_id d = page_no j" "dom m = page_no ` {0..<j}" "sa_space (9 - j) (dk_allocator d)" "dir_room (dk_directory d)"
    using g by (auto simp: grown_def dir_room_def split: if_splits)
  have "i \<in> {0..<j} \<Longrightarrow> page_no j \<noteq> page_no i" for i using page_no_props(2) [of j i] j by simp
  then have "page_no j \<notin> dom m" unfolding t(2) by blast
  moreover have "unat (sa_next (dk_allocator d) f) + Suc 0 < 2 ^ 32" for f
  proof -
    have "unat (sa_next (dk_allocator d) f) + (9 - j) < 2 ^ 32" using t(3) by (simp add: sa_space_def)
    then show ?thesis using j by simp
  qed
  then have "sa_space (Suc 0) (dk_allocator d)" using t(3) by (simp add: sa_space_def)
  ultimately show ?thesis using t(1,4) page_no_props(1) [of j] j by (auto simp: can_add_def)
qed

lemma grown_step:
  assumes g: "grown j d m" and j: "j < 8"
  obtains d' v where "grown (Suc j) d' (m(page_no j \<mapsto> v))" "stored d' = stored d" "m (page_no j) = None"
proof -
  let ?l = "page_no j"
  have t: "table_disk d m" "next_lpage_id d = ?l" "dom m = page_no ` {0..<j}" "sa_space (9 - j) (dk_allocator d)"
    "dir_room (dk_directory d)" using g by (auto simp: grown_def dir_room_def split: if_splits)
  have b: "btree_disk d m" using t(1) by (simp add: table_disk_def)
  have "i \<in> {0..<j} \<Longrightarrow> page_no j \<noteq> page_no i" for i using page_no_props(2) [of j i] j by simp
  then have "?l \<notin> dom m" unfolding t(3) by blast
  then have new: "m ?l = None" by blast
  have sp: "sa_space (Suc (8 - j)) (dk_allocator d)" proof -
    have "9 - j = Suc (8 - j)" using j by simp
    then show ?thesis using t(4) by simp
  qed
  have nx: "m (next_lpage_id d) = None" using new t(2) by simp
  obtain v s where s: "(disk_new_page btree_directory simple_allocator_ops 9 :: (u32 \<times> ppage_id) btree_disk_prog) d = Some (Ok (?l, v), s)"
    "next_lpage_id s = ?l + 1" "sa_space (8 - j) (dk_allocator s)" "op_add_page btree_directory ?l v (dk_directory d) = Some (Ok (), dk_directory s)"
    "stored s = stored d"
    by (rule disk.new_step [OF b t(5) sp nx, of 9]) (use that t(2) in auto)
  have "can_add d m" by (rule grown_room [OF g j])
  from table_store.new_place [OF t(1) this, of 9] s(1) have ts: "table_disk s (m(?l \<mapsto> v))"
    by (auto simp: disk_manager_ops_def)
  have al: "page_aligned v" using table_store.places(2) [OF ts, of ?l v] by simp
  have dr: "dir_rep (dk_directory d) m" using b by (simp add: disk_rep_def)
  have add: "add_page ?l v (dk_directory d) = Some (Ok (), dk_directory s)" using s(4) by simp
  have "dnext (dk_directory s) = 2"
  proof (cases "j = 0")
    case True
    then have "droot (dk_directory d) = 0" "dnext (dk_directory d) = 1" using g by (simp_all add: grown_def)
    with add_to_empty [OF dr this(1) _ al, of ?l] add show ?thesis by auto
  next
    case False
    have "card (dom m) \<le> card {0..<j}" unfolding t(3) by (rule card_image_le) simp
    then have "m \<noteq> Map.empty" "card (dom m) < 253" using False t(3) j by auto
    from add_small [OF dr al new this] add g False show ?thesis by (auto simp: grown_def)
  qed
  moreover have "dom (m(?l \<mapsto> v)) = page_no ` {0..<Suc j}" using t(3) by (simp add: atLeast0_lessThan_Suc)
  moreover have "sa_space (9 - Suc j) (dk_allocator s)" using s(3) by (simp add: numeral_eq_Suc)
  ultimately have "grown (Suc j) s (m(?l \<mapsto> v))" using ts s(2) unfolding grown_def by (simp add: page_no_props(3))
  with that s(5) new show ?thesis by blast
qed

lemma grown_disk:
  assumes "j < 9" obtains d m where "grown j d m"
proof -
  have "\<exists>d m. grown j d m"
    using assms
  proof (induction j)
    case 0
    then show ?case using grown_zero by blast
  next
    case (Suc j)
    then obtain d m where "grown j d m" by auto
    moreover have "j < 8" using Suc.prems by simp
    ultimately show ?case using grown_step [of j d m] by metis
  qed
  with that show ?thesis by blast
qed

section \<open>Writing pages\<close>

lemma store_all:
  assumes "table_disk d m" "distinct (map fst ps)" "\<forall>(v, pg)\<in>set ps. page_aligned v \<and> length pg = PAGE_BUF_SIZE"
  shows "\<exists>d'. table_disk d' m \<and> (\<forall>(v, pg)\<in>set ps. stored d' v = Some pg) \<and> (can_add d m \<longrightarrow> can_add d' m)"
  using assms(2,3)
proof (induction ps)
  case Nil
  then show ?case using assms(1) by auto
next
  case (Cons x ps)
  obtain v pg where x: "x = (v, pg)" by (cases x)
  obtain d1 where d1: "table_disk d1 m" "\<forall>(v, pg)\<in>set ps. stored d1 v = Some pg" "can_add d m \<longrightarrow> can_add d1 m" using Cons by auto
  have pg: "page_aligned v" "length pg = PAGE_BUF_SIZE" using Cons.prems(2) x by auto
  obtain d2 where d2: "table_disk d2 m" "stored d2 v = Some pg" "\<forall>w p. page_aligned w \<longrightarrow> w \<noteq> v \<longrightarrow> stored d1 w = Some p \<longrightarrow> stored d2 w = Some p"
    "can_add d1 m \<longrightarrow> can_add d2 m" using table_store.write_place [OF d1(1) pg] by blast
  have "stored d2 w = Some p" if "(w, p) \<in> set ps" for w p
  proof -
    have "w \<noteq> v" using Cons.prems(1) that x by force
    moreover have "page_aligned w" "stored d1 w = Some p" using Cons.prems(2) d1(2) that by auto
    ultimately show ?thesis using d2(3) by blast
  qed
  then show ?case using d1(3) d2(1,2,4) x by auto
qed

text \<open>A disk for given pages: those of the index by their ids, and the header.\<close>

lemma stored_pages:
  assumes d: "table_disk d m" and V: "dom V \<subseteq> dom m" "\<forall>l p. V l = Some p \<longrightarrow> length p = PAGE_BUF_SIZE" and h: "length h = PAGE_BUF_SIZE"
  shows "\<exists>d'. table_disk d' m \<and> stored d' (header_loc file) = Some h \<and> (\<forall>l p. V l = Some p \<longrightarrow> page_of d' m l = Some p) \<and> (can_add d m \<longrightarrow> can_add d' m)"
proof -
  obtain ls where ls: "set ls = dom V" "distinct ls" using finite_distinct_list [OF finite [of "dom V"]] by blast
  let ?ps = "(header_loc file, h) # map (\<lambda>l. (the (m l), the (V l))) ls"
  have l: "m l = Some (the (m l))" "V l = Some (the (V l))" if "l \<in> set ls" for l using that ls(1) V(1) by auto
  have "inj_on (\<lambda>l. the (m l)) (set ls)"
  proof (rule inj_onI)
    fix a b assume ab: "a \<in> set ls" "b \<in> set ls" "the (m a) = the (m b)"
    then have "m a = m b" using l(1) by metis
    moreover have "a \<in> dom m" "b \<in> dom m" using ab(1,2) ls(1) V(1) by auto
    ultimately show "a = b" by (rule inj_onD [OF table_store.places(1) [OF d]])
  qed
  moreover have pl: "page_aligned (the (m l))" "\<not> file_start (the (m l))" if "l \<in> set ls" for l
    using table_store.places(2) [OF d l(1) [OF that]] by simp_all
  moreover have hl: "page_aligned (header_loc file)" "file_start (header_loc file)" by (simp_all add: page_aligned_def header_loc_def file_start_def)
  ultimately have "distinct (map fst ?ps)" using ls(2) by (auto simp: distinct_map comp_def)
  moreover have "\<forall>(v, pg)\<in>set ?ps. page_aligned v \<and> length pg = PAGE_BUF_SIZE" using hl(1) h pl(1) l(2) V(2) by auto
  ultimately obtain d' where d': "table_disk d' m" "\<forall>(v, pg)\<in>set ?ps. stored d' v = Some pg" "can_add d m \<longrightarrow> can_add d' m" using store_all [OF d] by blast
  have "page_of d' m l = Some p" if "V l = Some p" for l p
  proof -
    have "l \<in> set ls" using that ls(1) by blast
    then have "stored d' (the (m l)) = Some (the (V l))" using d'(2) by auto
    then show ?thesis using l(1) [OF \<open>l \<in> set ls\<close>] that by (metis option.sel option.simps(5) page_of_def)
  qed
  then show ?thesis using d' by auto
qed

section \<open>Pages of an index\<close>

lemma zero_is_page: "is_page (replicate PAGE_BUF_SIZE 0)"
  by (simp add: is_page_def)

lemma index_leaf_of:
  assumes "sorted_by bl_key es" "length es \<le> 253"
  shows "\<exists>p. index_leaf p es"
  using assms
proof (induction es rule: rev_induct)
  case Nil
  let ?p = "bl_init (replicate PAGE_BUF_SIZE 0) 0"
  have "page_inv bl_layout ?p" "entries bl_layout ?p = []" using bl_init_inv(1,3) [OF zero_is_page, of 0] by (simp_all add: entries_def)
  moreover have "page_type_id (uber_header ?p) = page_type_byte BTreeLeaf" by (simp add: bl_init_def PAGE_BUF_SIZE_def del: page_type_byte.simps)
  ultimately show ?case unfolding leaf_page_def by blast
next
  case (snoc e es)
  then obtain p where p: "index_leaf p es" by auto
  have less: "\<forall>x\<in>set es. bl_key x < bl_key e" using snoc.prems(1) by auto
  have i: "page_inv bl_layout p" "entries bl_layout p = es" "page_type_id (uber_header p) = page_type_byte BTreeLeaf"
    using p by (simp_all add: leaf_page_def)
  have "count_of bl_layout p < max_entries bl_layout" using snoc.prems(2) leaf_count [OF p] by simp
  moreover have "key_of bl_layout e \<notin> key_of bl_layout ` set (entries bl_layout p)" using less i(2) by auto
  ultimately obtain p' where p': "page_inv bl_layout p'" "entries bl_layout p' = insert_sorted (key_of bl_layout) e (entries bl_layout p)"
    "same_header bl_layout p p'" using ileaf.insert_Ok [OF i(1)] by metis
  have "entries bl_layout p' = es @ [e]" using p'(2) i(2) insert_sorted_last [of es bl_key e] less by simp
  then show ?case using p'(1,3) i(3) same_header_uber [OF p'(3)] by (auto simp: leaf_page_def)
qed

lemma index_leaf_linked:
  assumes "sorted_by bl_key es" "length es \<le> 253"
  obtains p where "index_leaf p es" "leaf_prev_page p = a" "leaf_next_page p = b" "length p = PAGE_BUF_SIZE"
proof -
  obtain p where p: "index_leaf p es" using index_leaf_of [OF assms] by blast
  have L: "entries_off bl_layout = 40" "count_of bl_layout = leaf_num_entries" "max_entries bl_layout \<le> 253" by simp_all
  let ?q = "leaf_set_prev_page a (leaf_set_next_page b p)"
  have i: "is_page p" using p by (simp add: leaf_page_def page_inv_def)
  have "index_leaf ?q es" by (rule leaf_links(2) [OF L leaf_links(1) [OF L p]])
  moreover have "leaf_prev_page ?q = a" "leaf_next_page ?q = b" "is_page ?q" using i by simp_all
  ultimately show ?thesis using that [of ?q] by (simp only: is_page_def)
qed

lemma index_node_of:
  assumes "k \<noteq> 0" 
  obtains p where "node_page BTreeInner p lm [(k, c)]" "length p = PAGE_BUF_SIZE"
proof -
  let ?p = "bi_init (replicate PAGE_BUF_SIZE 0) 0 lm"
  note i = bi_init_inv [OF zero_is_page, of 0 lm]
  have t: "page_type_id (uber_header ?p) = page_type_byte BTreeInner"
    using fresh_inner(4) [OF zero_is_page, of BTreeInner 0 lm] by (simp add: bi_init_def)
  have c: "inner_num_keys ?p < 254" "k \<notin> fst ` set (seps ?p)" using i(2,4) by simp_all
  obtain p' where p': "inner_inv p'" "seps p' = insert_sorted fst (k, c) (seps ?p)" "inner_leftmost_child p' = inner_leftmost_child ?p"
    "uber_header p' = uber_header ?p" by (rule insert_separator_Ok [OF i(1) c, of c])
  have "node_page BTreeInner p' lm [(k, c)]" using p' i(2,3) t by (simp add: node_page_def insert_sorted_def)
  moreover have "length p' = PAGE_BUF_SIZE" using p'(1) by (simp add: page_inv_def is_page_def)
  ultimately show ?thesis by (rule that)
qed

lemma index_header_of: obtains h where "index_header_holds h root" "length h = PAGE_BUF_SIZE"
proof -
  let ?b = "\<lparr> buf_addr = 0, buf_bytes = replicate PAGE_BUF_SIZE 0 \<rparr>"
  let ?d = "\<lparr> if_magic = ifh_MAGIC, if_num_pages = 0, if_index_oid = 17, if_root_page = 0, if_table_oid = 16, if_version = 1, if_pad = 0 \<rparr>"
  let ?i = "ifh_init ?b 0 17 16"
  have b: "is_page (buf_bytes ?b)" "buf_addr ?b mod 4 = 0" by (simp_all add: is_page_def)
  have "length (index_file_data_to_bytes ?d) = 28" by simp
  note u = uber_fh_init [OF b(1), of "index_file_data_to_bytes ?d" IndexFileHeader 0]
  have i: "is_page (buf_bytes ?i)" "buf_addr ?i mod 4 = 0" "page_id (uber_header (buf_bytes ?i)) = 0"
    using u by (simp_all add: ifh_init_def)
  have l: "length (if_magic ((\<lambda>d. d\<lparr> if_root_page := root \<rparr>) ?d)) = 8" by simp
  obtain b' where b': "is_page (buf_bytes b')" "buf_addr b' = buf_addr ?i" "ifh_data b' = Ok (?d\<lparr> if_root_page := root \<rparr>)"
    "uber_header (buf_bytes b') = uber_header (buf_bytes ?i)"
    using ifh_data_mut_Ok [where f = "\<lambda>d. d\<lparr> if_root_page := root \<rparr>", OF i(1,2) ifh_init_data [OF b] l] by auto
  have "ifh_data b' = Ok (index_file_data_of_bytes (bytes_at 16 28 (buf_bytes b')))" using ifh_data_Ok b'(1,2) i(2) by simp
  then have "if_root_page (index_file_data_of_bytes (bytes_at 16 28 (buf_bytes b'))) = if_root_page (?d\<lparr> if_root_page := root \<rparr>)" using b'(3) by simp
  then have "index_header_holds (buf_bytes b') root" using b'(1,4) i(3) by (simp add: index_header_holds_def is_page_def)
  moreover have "length (buf_bytes b') = PAGE_BUF_SIZE" using b'(1) by (simp add: is_page_def)
  ultimately show ?thesis by (rule that)
qed

section \<open>Stored indexes\<close>

lemma stored_tree:
  assumes t: "wf_index V t" "\<forall>l p. V l = Some p \<longrightarrow> length p = PAGE_BUF_SIZE" "dom V \<subseteq> page_no ` {0..<j}" and j: "j < 9"
  obtains d m where "table_disk d m" "stored_index d m file (Some t)"
proof -
  obtain d m where g: "grown j d m" by (rule grown_disk [OF j])
  then have d: "table_disk d m" "dom V \<subseteq> dom m" using t(3) by (simp_all add: grown_def)
  obtain h where h: "index_header_holds h (tid t)" "length h = PAGE_BUF_SIZE" by (rule index_header_of)
  obtain d' where d': "table_disk d' m" "stored d' (header_loc file) = Some h" "\<forall>l p. V l = Some p \<longrightarrow> page_of d' m l = Some p"
    using stored_pages [OF d t(2) h(2)] by blast
  have "wf_index (page_of d' m) t" by (rule wf_more [OF _ t(1)]) (use d'(3) in blast)
  then have "stored_index d' m file (Some t)" using d'(2) h(1) by (simp add: stored_index_def index_in_def)
  with d'(1) that show ?thesis by blast
qed

lemma empty_stored: obtains d m where "table_disk d m" "stored_index d m file None" "can_add d m"
proof -
  obtain d m where g: "grown 0 d m" by (rule grown_disk [of 0]) simp
  have "table_disk d m" using g by (simp only: grown_def)
  moreover have "can_add d m" by (rule grown_room [OF g]) simp
  ultimately have d: "table_disk d m" "can_add d m" .
  obtain h where h: "index_header_holds h 0" "length h = PAGE_BUF_SIZE" by (rule index_header_of)
  have "dom (Map.empty :: pages) \<subseteq> dom m" "\<forall>l p. (Map.empty :: pages) l = Some p \<longrightarrow> length p = PAGE_BUF_SIZE" by simp_all
  from stored_pages [OF d(1) this h(2)] d(2)
  obtain d' where d': "table_disk d' m" "stored d' (header_loc file) = Some h" "can_add d' m" by blast
  then have "stored_index d' m file None" using h(1) by (simp add: stored_index_def index_in_def)
  with d'(1,3) that show ?thesis by blast
qed

definition one_leaf :: "btree_leaf_entry tree" where
  "one_leaf = Leaf (page_no 0) [btree_leaf_entry_new 1 30 0]"

definition two_leaves :: "btree_leaf_entry tree" where
  "two_leaves = Node (page_no 2) (Leaf (page_no 0) [btree_leaf_entry_new 1 30 0, btree_leaf_entry_new 2 30 1])
     [(3, Leaf (page_no 1) [btree_leaf_entry_new 3 31 0])]"

lemma one_leaf_stored: obtains d m where "table_disk d m" "stored_index d m file (Some one_leaf)"
proof -
  have "sorted_by bl_key [btree_leaf_entry_new 1 30 0]" by simp
  then obtain p where p: "index_leaf p [btree_leaf_entry_new 1 30 0]" "leaf_prev_page p = 0" "leaf_next_page p = 0" "length p = PAGE_BUF_SIZE"
    by (rule index_leaf_linked [of _ 0 0]) simp_all
  let ?V = "[page_no 0 \<mapsto> p]"
  have "wf_index ?V one_leaf" using p(1-3) by (simp add: wf_index_def one_leaf_def uniq_def)
  moreover have "\<forall>l q. ?V l = Some q \<longrightarrow> length q = PAGE_BUF_SIZE" using p(4) by simp
  moreover have "dom ?V \<subseteq> page_no ` {0..<1}" by auto
  ultimately show ?thesis using stored_tree [of ?V one_leaf 1] that by auto
qed

lemma two_leaves_stored: obtains d m where "table_disk d m" "stored_index d m file (Some two_leaves)"
proof -
  let ?as = "[btree_leaf_entry_new 1 30 0, btree_leaf_entry_new 2 30 1]" and ?bs = "[btree_leaf_entry_new 3 31 0]"
  have s: "sorted_by bl_key ?as" "sorted_by bl_key ?bs" by simp_all
  obtain p where p: "index_leaf p ?as" "leaf_prev_page p = 0" "leaf_next_page p = page_no 1" "length p = PAGE_BUF_SIZE"
    by (rule index_leaf_linked [OF s(1), of 0 "page_no 1"]) simp_all
  obtain q where q: "index_leaf q ?bs" "leaf_prev_page q = page_no 0" "leaf_next_page q = 0" "length q = PAGE_BUF_SIZE"
    by (rule index_leaf_linked [OF s(2), of "page_no 0" 0]) simp_all
  obtain r where r: "node_page BTreeInner r (page_no 0) [(3, page_no 1)]" "length r = PAGE_BUF_SIZE"
    by (rule index_node_of [of 3]) simp
  let ?V = "[page_no 0 \<mapsto> p, page_no 1 \<mapsto> q, page_no 2 \<mapsto> r]"
  have ne: "page_no 0 \<noteq> page_no 1" "page_no 0 \<noteq> page_no 2" "page_no 1 \<noteq> page_no 2" by (simp_all add: page_no_props(2))
  have "wf_index ?V two_leaves" using p(1-3) q(1-3) r(1) ne by (auto simp: wf_index_def two_leaves_def uniq_def sep_def)
  moreover have "\<forall>l x. ?V l = Some x \<longrightarrow> length x = PAGE_BUF_SIZE" using p(4) q(4) r(2) by simp
  moreover have "dom ?V \<subseteq> page_no ` {0..<3}" by auto
  ultimately show ?thesis using stored_tree [of ?V two_leaves 3] that by auto
qed

end
