(* ===== verification/IndexClaims.thy ===== *)
theory IndexClaims
  imports IndexChanges IndexStore CatalogCache
begin

text \<open>
  An index is the list of its entries in order: over the disk and LRU-K, what a client reads of an index that
  the disk holds, and the two faults of its changes.
\<close>

section \<open>Clients of an index\<close>

text \<open>The client calls the accessor with the oid of the index, which the catalog cache maps to the file.\<close>

datatype index_request = FindKey "byte list" | ScanKeys "byte list option" "byte list option" | AddKey "byte list" record_id | RemoveKey "byte list" record_id

datatype index_answer = KeyAt record_id | Entries "(byte list \<times> record_id) list" | Added | Removed

fun index_step :: "(nat set \<Rightarrow> nat) \<Rightarrow> ('s, 'e) disk_ops \<Rightarrow> 'p policy_ops \<Rightarrow> catalog_cache \<Rightarrow> u32 \<Rightarrow> index_request \<Rightarrow>
    ('s, 'p, 'e, index_answer) access_prog" where
  "index_step pick K P c oid (FindKey key) = pbind (index_get pick K P c oid key) (\<lambda>rid. ret (KeyAt rid))"
| "index_step pick K P c oid (ScanKeys start end) =
     pbind (pbind (index_scan_op pick K P c oid start end) (bt_collect pick K P [])) (\<lambda>items. ret (Entries items))"
| "index_step pick K P c oid (AddKey key rid) = pbind (index_insert pick K P c oid key rid) (\<lambda>_. ret Added)"
| "index_step pick K P c oid (RemoveKey key rid) = pbind (index_delete pick K P c oid key rid) (\<lambda>_. ret Removed)"

type_synonym 'e index_result = "('e buffer_error accessor_error, index_answer) outcome"

fun index_serve :: "(nat set \<Rightarrow> nat) \<Rightarrow> ('s, 'e) disk_ops \<Rightarrow> 'p policy_ops \<Rightarrow> catalog_cache \<Rightarrow> u32 \<Rightarrow> index_request list \<Rightarrow>
    ('s, 'p) pool \<Rightarrow> ('e index_result list \<times> ('s, 'p) pool) option" where
  "index_serve pick K P c oid [] s = Some ([], s)"
| "index_serve pick K P c oid (r # rs) s = (case index_step pick K P c oid r s of None \<Rightarrow> None
     | Some (a, s') \<Rightarrow> (case index_serve pick K P c oid rs s' of None \<Rightarrow> None | Some (as, s'') \<Rightarrow> Some (a # as, s'')))"

text \<open>
  The specification, over the entries in the order of their keys: a lookup gives the record of the key; a scan
  gives a first part of the entries of the range, and all of them if no end is given; an insertion adds its
  entry in order; a deletion takes the entry of its key if that has the given record.
\<close>

definition in_range :: "byte list option \<Rightarrow> byte list option \<Rightarrow> btree_leaf_entry \<Rightarrow> bool" where
  "in_range start end e \<longleftrightarrow> from_key (map_option key_from_bytes start) e \<and> \<not> past_key (map_option key_from_bytes end) e"

fun entries_answer :: "btree_leaf_entry list \<Rightarrow> index_request \<Rightarrow> 'e index_result \<Rightarrow> btree_leaf_entry list \<Rightarrow> bool" where
  "entries_answer es (FindKey key) a es' \<longleftrightarrow> es' = es \<and> a = (case find_entry bl_key (key_from_bytes key) es of
     Some e \<Rightarrow> Ok (KeyAt \<lparr> rid_page = record_page e, rid_slot = record_slot e \<rparr>) | None \<Rightarrow> Err TupleNonExistent)"
| "entries_answer es (ScanKeys start end) a es' \<longleftrightarrow> es' = es \<and> (\<exists>xs rest. a = Ok (Entries (map index_item xs)) \<and>
     filter (in_range start end) es = xs @ rest \<and> (end = None \<longrightarrow> rest = []))"
| "entries_answer es (AddKey key rid) a es' \<longleftrightarrow> a = Ok Added \<and>
     es' = insert_sorted bl_key (btree_leaf_entry_new (key_from_bytes key) (rid_page rid) (rid_slot rid)) es"
| "entries_answer es (RemoveKey key rid) a es' \<longleftrightarrow> (if removable es (key_from_bytes key) rid
     then a = Ok Removed \<and> es' = without (key_from_bytes key) es else a = Err TupleNonExistent \<and> es' = es)"

fun entries_serve :: "btree_leaf_entry list \<Rightarrow> index_request list \<Rightarrow> 'e index_result list \<Rightarrow> btree_leaf_entry list \<Rightarrow> bool" where
  "entries_serve es [] as es'' \<longleftrightarrow> as = [] \<and> es'' = es"
| "entries_serve es (r # rs) as es'' \<longleftrightarrow> (\<exists>a as' es'. as = a # as' \<and>
     (entries_answer es r a es' \<or> a = refused \<and> es' = es) \<and> entries_serve es' rs as' es'')"

text \<open>
  Where the specification ends: at an insertion into an index that has a root already, or for which the disk
  has no room, and at a deletion that would merge leaves.
\<close>

fun out_of_scope :: "index_value \<Rightarrow> bool \<Rightarrow> index_request \<Rightarrow> bool" where
  "out_of_scope T room (AddKey key rid) = (T \<noteq> None \<or> \<not> room)"
| "out_of_scope T room (RemoveKey key rid) = short_leaf T (key_from_bytes key)"
| "out_of_scope T room _ = False"

lemma range_ok: "entries_answer (index_entries T) (ScanKeys start end) (Ok (Entries (index_range T start end))) (index_entries T)"
proof -
  let ?a = "map_option key_from_bytes start" and ?b = "map_option key_from_bytes end"
  obtain rest where r: "filter (in_range start end) (index_entries T) = scan_leaves ?a ?b (index_leaves T) @ rest"
    using scan_leaves_prefix [of ?a ?b "index_leaves T"] unfolding in_range_def [abs_def] index_entries_def by blast
  have "rest = []" if e: "end = None"
  proof -
    have "filter (in_range start end) (index_entries T) = filter (from_key ?a) (concat (index_leaves T))"
      by (simp add: e in_range_def [abs_def] past_key_def index_entries_def)
    then show ?thesis using r e by (simp add: scan_leaves_open)
  qed
  with r show ?thesis unfolding entries_answer.simps index_range_def by blast
qed

lemma lookup_ok: "entries_answer (index_entries T) (FindKey key) (map_outcome KeyAt (index_lookup T (key_from_bytes key))) (index_entries T)"
  by (simp add: index_lookup_def index_entries_def split: option.split)

context buffer_pool
begin

lemma index_step_run:
  assumes inv: "idle (2 * B + 2 + n) s m" and T: "index_tree s m file T" and B: "index_pages T \<le> B" "1 \<le> B"
    and c: "index_file_id c oid = (Ok file :: ('e buffer_error accessor_error, u32) outcome)"
    and ok: "\<not> out_of_scope T (can_grow (bp_disk s) m) r"
  shows "\<exists>a t m' T'. index_step pick K P c oid r s = Some (a, t) \<and> idle n t m' \<and> index_tree t m' file T' \<and> index_pages T' \<le> B \<and>
    (entries_answer (index_entries T) r (a :: 'e index_result) (index_entries T') \<or> a = refused \<and> T' = T)"
proof (cases r)
  case (FindKey key)
  have "idle (index_pages T + 2 + n) s m" by (rule inv_mono [OF inv]) (use B(1) in simp)
  from bt_get_run [OF this T] obtain x t where x: "bt_get pick K P file key s = Some (x, t)" "idle n t m" "stays m s t"
    "x = refused \<or> x = index_lookup T (key_from_bytes key)" by blast
  have "index_step pick K P c oid r s = Some (map_outcome KeyAt x, t)"
    using x(1) by (cases x) (simp_all add: FindKey index_get_def c, simp_all add: pbind_def lift_def ret_def)
  moreover have "entries_answer (index_entries T) r (map_outcome KeyAt x :: 'e index_result) (index_entries T) \<or> map_outcome KeyAt x = (refused :: 'e index_result)"
    using x(4) lookup_ok by (metis FindKey map_outcome.simps(2))
  ultimately show ?thesis using x(2) index_stays [OF invD(1) [OF inv] x(3) T] B(1) by blast
next
  case (ScanKeys start "end")
  have "idle (2 * index_pages T + 2 + n) s m" by (rule inv_mono [OF inv]) (use B(1) in simp)
  from bt_scan_run [OF this T] obtain x t where
    x: "pbind (bt_scan pick K P file start end) (bt_collect pick K P []) s = Some (x, t)" "idle n t m" "stays m s t"
    "x = refused \<or> x = Ok (index_range T start end)" by blast
  have "index_step pick K P c oid r s = Some (map_outcome Entries x, t)"
    using x(1) by (cases x) (simp_all add: ScanKeys index_scan_op_def c, simp_all add: pbind_def lift_def ret_def split: option.splits prod.splits outcome.splits)
  moreover have "entries_answer (index_entries T) r (map_outcome Entries x :: 'e index_result) (index_entries T) \<or> map_outcome Entries x = (refused :: 'e index_result)"
    using x(4) range_ok by (metis ScanKeys map_outcome.simps)
  ultimately show ?thesis using x(2) index_stays [OF invD(1) [OF inv] x(3) T] B(1) by blast
next
  case (AddKey key rid)
  then have none: "T = None" and grow: "can_grow (bp_disk s) m" using ok by simp_all
  have "idle (Suc n) s m" by (rule inv_mono [OF inv]) simp
  from bt_insert_empty [OF this T [unfolded none] grow, of key rid] obtain x t m' T' where
    x: "bt_insert pick K P file key rid s = Some (x, t)" "idle n t m'" "index_tree t m' file T'"
    "x = refused \<and> T' = None \<or> (\<exists>l. x = Ok () \<and> T' = Some (Leaf l [btree_leaf_entry_new (key_from_bytes key) (rid_page rid) (rid_slot rid)]))" by blast
  have "index_step pick K P c oid r s = Some (map_outcome (\<lambda>_. Added) x, t)"
    using x(1) by (cases x) (simp_all add: AddKey index_insert_def c, simp_all add: pbind_def lift_def ret_def)
  moreover have "entries_answer (index_entries T) r (map_outcome (\<lambda>_. Added) x :: 'e index_result) (index_entries T') \<or>
      map_outcome (\<lambda>_. Added) x = (refused :: 'e index_result) \<and> T' = T"
    using x(4) by (auto simp: AddKey none insert_sorted_def)
  moreover have "index_pages T' \<le> B" using x(4) B(2) by auto
  ultimately show ?thesis using x(2,3) by blast
next
  case (RemoveKey key rid)
  have i: "idle (index_pages T + 2 + n) s m" by (rule inv_mono [OF inv]) (use B(1) in simp)
  have "\<not> short_leaf T (key_from_bytes key)" using ok RemoveKey by simp
  from bt_delete_run [OF i T this, of rid] obtain x t T' where
    x: "bt_delete pick K P file key rid s = Some (x, t)" "idle n t m" "index_tree t m file T'" "index_pages T' = index_pages T"
    "x = refused \<and> T' = T \<or> (x, index_entries T') = remove_answer (index_entries T) (key_from_bytes key) rid" by blast
  have "index_step pick K P c oid r s = Some (map_outcome (\<lambda>_. Removed) x, t)"
    using x(1) by (cases x) (simp_all add: RemoveKey index_delete_def c, simp_all add: pbind_def lift_def ret_def)
  moreover have "entries_answer (index_entries T) r (map_outcome (\<lambda>_. Removed) x :: 'e index_result) (index_entries T') \<or>
      map_outcome (\<lambda>_. Removed) x = (refused :: 'e index_result) \<and> T' = T"
    using x(5) by (auto simp: RemoveKey remove_answer_def split: if_splits)
  moreover have "index_pages T' \<le> B" using x(4) B(1) by simp
  ultimately show ?thesis using x(2,3) by blast
qed

lemma index_serve_run:
  assumes "idle (length rs * (2 * B + 2) + n) s m" "index_tree s m file T" "index_pages T \<le> B" "1 \<le> B"
    "index_file_id c oid = (Ok file :: ('e buffer_error accessor_error, u32) outcome)"
  shows "\<exists>done rest as t m' T'. rs = done @ rest \<and> index_serve pick K P c oid done s = Some (as, t) \<and>
    entries_serve (index_entries T) done (as :: 'e index_result list) (index_entries T') \<and> idle n t m' \<and> index_tree t m' file T' \<and>
    (rest = [] \<or> out_of_scope T' (can_grow (bp_disk t) m') (hd rest))"
  using assms(1-3)
proof (induction rs arbitrary: s m T)
  case Nil
  then show ?case by (intro exI [of _ "[]"] exI [of _ s] exI [of _ m] exI [of _ T]) simp
next
  case (Cons r rs)
  show ?case
  proof (cases "out_of_scope T (can_grow (bp_disk s) m) r")
    case True
    have "idle n s m" by (rule inv_less [OF Cons.prems(1)])
    then show ?thesis using Cons.prems(2) True
      by (intro exI [of _ "[]"] exI [of _ "r # rs"] exI [of _ s] exI [of _ m] exI [of _ T]) simp
  next
    case False
    have "idle (2 * B + 2 + (length rs * (2 * B + 2) + n)) s m" using Cons.prems(1) by (simp add: ac_simps)
    from index_step_run [OF this Cons.prems(2,3) assms(4,5) False]
    obtain a t m' T' where a: "index_step pick K P c oid r s = Some (a, t)" "idle (length rs * (2 * B + 2) + n) t m'" "index_tree t m' file T'" "index_pages T' \<le> B"
      "entries_answer (index_entries T) r (a :: 'e index_result) (index_entries T') \<or> a = refused \<and> T' = T" by blast
    from Cons.IH [OF a(2-4)] obtain dn rest as u m2 T2 where u: "rs = dn @ rest" "index_serve pick K P c oid dn t = Some (as, u)"
      "entries_serve (index_entries T') dn (as :: 'e index_result list) (index_entries T2)" "idle n u m2" "index_tree u m2 file T2"
      "rest = [] \<or> out_of_scope T2 (can_grow (bp_disk u) m2) (hd rest)" by blast
    have "index_serve pick K P c oid (r # dn) s = Some (a # as, u)" using a(1) u(2) by simp
    moreover have "entries_serve (index_entries T) (r # dn) (a # as) (index_entries T2)" using a(5) u(3) by auto
    ultimately show ?thesis using u(1,4-6)
      by (intro exI [of _ "r # dn"] exI [of _ rest] exI [of _ "a # as"] exI [of _ u] exI [of _ m2] exI [of _ T2]) simp
  qed
qed

text \<open>After a flush the index is on the disk.\<close>

lemma index_flush:
  assumes inv: "idle n s m" and T: "index_tree s m file T"
  shows "\<exists>t. flush_all_dirty_frames K s = Some ((Ok () :: ('e buffer_error, unit) outcome), t) \<and> rep (bp_disk t) m \<and>
    index_in (\<lambda>l. case m l of Some v \<Rightarrow> on_disk (bp_disk t) v | None \<Rightarrow> None) (on_disk (bp_disk t) (header_loc file)) T"
proof -
  obtain t where t: "flush_all_dirty_frames K s = Some ((Ok () :: ('e buffer_error, unit) outcome), t)" "idle n t m"
    "keeps_pages on_disk place s t" "\<forall>v p. pool_view on_disk t v = Some p \<longrightarrow> on_disk (bp_disk t) v = Some p"
    using flush_all_run [OF inv] by auto
  let ?V = "\<lambda>l. case m l of Some v \<Rightarrow> on_disk (bp_disk t) v | None \<Rightarrow> None"
  have more: "?V i = Some p" if "page_at s m i = Some p" for i p
  proof -
    have "page_at t m i = Some p" by (rule page_at_keeps [OF invD(1) [OF inv] t(3) that])
    then show ?thesis using t(4) by (auto simp: page_at_Some)
  qed
  have T': "anon (header_loc file)" "\<forall>u. T = Some u \<longrightarrow> wf_index (page_at s m) u" using T by (auto simp: index_tree_def index_in_def)
  obtain pg where pg: "pool_view on_disk s (header_loc file) = Some pg" "index_header_holds pg (index_root T)"
    using T by (auto simp: index_tree_def index_in_def)
  have "on_disk (bp_disk t) (header_loc file) = Some pg" using t(3,4) pg(1) places(3) [OF T'(1)] by (simp add: keeps_pages_def)
  moreover have "wf_index ?V u" if "T = Some u" for u by (rule wf_more [OF more]) (use T'(2) that in auto)
  ultimately have "index_in ?V (on_disk (bp_disk t) (header_loc file)) T" using pg(2) by (auto simp: index_in_def)
  then show ?thesis using t(1) invD(1) [OF t(2)] by blast
qed

end

section \<open>Over the disk, with LRU-K\<close>

lemma new_no_marks: "no_marks (pool_new n d p)"
  by (simp add: no_marks_def pool_new_def)

lemma new_spare: "spare (pool_new n d p) = n"
  by (simp add: pool_new_def)

context lruk_pool
begin

lemma new_index:
  assumes d: "table_disk d m" "stored_index d m file T" and k: "0 < k" "n < 2 ^ 64 - 1"
  shows "tp.idle n (pool_new fs d (lk_new k)) m" "tp.index_tree (pool_new fs d (lk_new k)) m file T"
proof -
  note new = tp.new_pool_inv [OF d(1) lk_new_ok(1) [OF k] lk_new_ok(2)]
  show "tp.idle n (pool_new fs d (lk_new k)) m" by (rule new(1))
  have "tp.page_at (pool_new fs d (lk_new k)) m = page_of d m" by (rule ext) (simp add: tp.page_at_def page_of_def new(2) split: option.split)
  then show "tp.index_tree (pool_new fs d (lk_new k)) m file T"
    using d by (simp add: tp.index_tree_def stored_index_def new(2) table_disk_def file_start_def header_loc_def)
qed

lemma index_requests:
  assumes "table_disk d m" "stored_index d m file T" "index_file_id c oid = (Ok file :: ((dir_error, io_error) disk_error buffer_error accessor_error, u32) outcome)"
    "0 < k" "length rs * (2 * index_pages T + 4) < 2 ^ 64 - 1"
  shows "\<exists>done rest as s t m' T'. rs = done @ rest \<and>
    index_serve pick btree_disk_ops (lruk_ops iter) c oid done (pool_new n d (lk_new k)) = Some (as, s) \<and>
    entries_serve (index_entries T) done as (index_entries T') \<and>
    flush_all_dirty_frames btree_disk_ops s = Some (Ok (), t) \<and> table_disk (bp_disk t) m' \<and> stored_index (bp_disk t) m' file T' \<and>
    (rest = [] \<or> out_of_scope T' (can_add (bp_disk s) m') (hd rest))"
proof -
  note new = new_index [OF assms(1,2,4,5), of n]
  have "length rs * (2 * (index_pages T + 1) + 2) + 0 = length rs * (2 * index_pages T + 4)" by (simp add: algebra_simps)
  then have inv: "tp.idle (length rs * (2 * (index_pages T + 1) + 2) + 0) (pool_new n d (lk_new k)) m" using new(1) by (simp only:)
  have B: "index_pages T \<le> index_pages T + 1" "1 \<le> index_pages T + 1" by simp_all
  from tp.index_serve_run [OF inv new(2) B assms(3)] obtain dn rest as s m' T' where r: "rs = dn @ rest"
    "index_serve pick btree_disk_ops (lruk_ops iter) c oid dn (pool_new n d (lk_new k)) = Some (as, s)"
    "entries_serve (index_entries T) dn as (index_entries T')" "tp.idle 0 s m'" "tp.index_tree s m' file T'"
    "rest = [] \<or> out_of_scope T' (can_add (bp_disk s) m') (hd rest)" by blast
  from tp.index_flush [OF r(4,5)] obtain t where t: "flush_all_dirty_frames btree_disk_ops s = Some ((Ok () :: ((dir_error, io_error) disk_error buffer_error, unit) outcome), t)"
    "table_disk (bp_disk t) m'" "stored_index (bp_disk t) m' file T'" unfolding stored_index_def page_of_def [abs_def] by blast
  with r(1-3,6) show ?thesis by blast
qed

text \<open>A reader with enough frames is not refused.\<close>

lemma index_found:
  assumes "table_disk d m" "stored_index d m file T" "index_file_id c oid = (Ok file :: ((dir_error, io_error) disk_error buffer_error accessor_error, u32) outcome)"
    "0 < k" "index_pages T + 2 \<le> n" "n < 2 ^ 64 - 1"
  shows "\<exists>s. index_get pick btree_disk_ops (lruk_ops iter) c oid key (pool_new n d (lk_new k)) = Some (index_lookup T (key_from_bytes key), s)"
proof -
  note new = new_index [OF assms(1,2,4,6), of n]
  have "tp.idle (index_pages T + 2 + 0) (pool_new n d (lk_new k)) m" by (rule tp.inv_mono [OF new(1)]) (use assms(5) in simp)
  from tp.bt_get_run [OF this new(2), of key] obtain t where
    "bt_get pick btree_disk_ops (lruk_ops iter) file key (pool_new n d (lk_new k)) = Some (index_lookup T (key_from_bytes key), t)"
    using assms(5) by (auto simp: new_spare)
  then show ?thesis using assms(3) by (simp add: index_get_def pbind_def lift_def)
qed

lemma index_insert_lost:
  assumes d: "table_disk d m" "stored_index d m file (Some (Leaf l es))" and c: "index_file_id c oid = (Ok file :: ((dir_error, io_error) disk_error buffer_error accessor_error, u32) outcome)"
    and k: "0 < k" "key_from_bytes key \<notin> bl_key ` set es" "length es < 253" and n: "2 \<le> n"
  shows "\<exists>s. index_insert pick btree_disk_ops (lruk_ops iter) c oid key rid (pool_new n d (lk_new k)) = Some (Ok (), s) \<and>
    flush_all_dirty_frames btree_disk_ops s = Some (Ok (), s) \<and>
    table_disk (bp_disk s) m \<and> stored_index (bp_disk s) m file (Some (Leaf l es))"
proof -
  have one: "(1 :: nat) < 2 ^ 64 - 1" by simp
  note new = new_index [OF d k(1) one, of n]
  have inv: "tp.idle (Suc 0) (pool_new n d (lk_new k)) m" using new(1) by simp
  have sp: "2 \<le> spare (pool_new n d (lk_new k))" using n by (simp add: new_spare)
  obtain t where t: "bt_insert pick btree_disk_ops (lruk_ops iter) file key rid (pool_new n d (lk_new k)) = Some (Ok (), t)" "no_marks t" "table_disk (bp_disk t) m"
    "\<forall>w p. page_aligned w \<longrightarrow> pool_view stored (pool_new n d (lk_new k)) w = Some p \<longrightarrow> stored (bp_disk t) w = Some p"
    using tp.bt_insert_unmarked [OF inv new(2) new_no_marks k(2,3) sp, of rid] by (elim exE conjE) (rule that)
  have keep: "stored (bp_disk t) w = Some p" if "page_aligned w" "stored d w = Some p" for w p
    using t(4) that by (simp add: pool_view_def pool_new_def)
  have "page_of (bp_disk t) m i = Some p" if "page_of d m i = Some p" for i p
  proof -
    obtain v where v: "m i = Some v" "stored d v = Some p" using \<open>page_of d m i = Some p\<close> by (auto simp: page_of_def split: option.splits)
    then show ?thesis using keep [OF _ v(2)] tp.places(2) [OF d(1) v(1)] by (simp add: page_of_def)
  qed
  then have more: "wf_index (page_of d m) u \<Longrightarrow> wf_index (page_of (bp_disk t) m) u" for u by (rule wf_more)
  have "page_aligned (header_loc file)" by (simp add: page_aligned_def header_loc_def)
  note header = keep [OF this]
  obtain pg where pg: "stored d (header_loc file) = Some pg" "index_header_holds pg (index_root (Some (Leaf l es)))" "wf_index (page_of d m) (Leaf l es)"
    using d(2) by (auto simp: stored_index_def index_in_def)
  have "stored_index (bp_disk t) m file (Some (Leaf l es))"
    using header [OF pg(1)] pg(2) more [OF pg(3)] by (simp add: stored_index_def index_in_def)
  then show ?thesis using t(1,3) flush_nothing [OF t(2)] c by (simp add: index_insert_def pbind_def lift_def)
qed

lemma index_delete_waits:
  assumes d: "table_disk d m" "stored_index d m file (Some u)" and c: "index_file_id c oid = (Ok file :: ((dir_error, io_error) disk_error buffer_error accessor_error, u32) outcome)"
    and u: "separated u" "u = Node i t0 ts" and e: "e \<in> set (flat u)" "\<forall>(l, es)\<in>set (leaves u). e \<in> set es \<longrightarrow> length es \<le> 126"
    and key: "key_from_bytes key = bl_key e" and k: "0 < k" and n: "length (ids u) + 4 \<le> n" "n < 2 ^ 64 - 1"
  shows "index_delete pick btree_disk_ops (lruk_ops iter) c oid key \<lparr> rid_page = record_page e, rid_slot = record_slot e \<rparr> (pool_new n d (lk_new k)) = None"
proof -
  note new = new_index [OF d k n(2), of n]
  have inv: "tp.idle (length (ids u) + 1 + 0) (pool_new n d (lk_new k)) m" by (rule tp.inv_mono [OF new(1)]) (use n(1) in simp)
  have sp: "length (ids u) + 4 \<le> spare (pool_new n d (lk_new k))" using n(1) by (simp add: new_spare)
  have "bt_delete pick btree_disk_ops (lruk_ops iter) file key \<lparr> rid_page = record_page e, rid_slot = record_slot e \<rparr> (pool_new n d (lk_new k)) = None"
    by (rule tp.bt_delete_stuck [OF inv new(2) u e key sp])
  then show ?thesis
    using c by (simp add: index_delete_def pbind_def lift_def)
qed

end

section \<open>The properties\<close>

definition index_cache :: catalog_cache where
  "index_cache = \<lparr> cc_tables = Map.empty, cc_tables_by_name = Map.empty, cc_columns = Map.empty,
     cc_indexes = [17 \<mapsto> \<lparr> index_oid = 17, index_name = ''i'', index_table = 16, index_file = 6, index_column = 0 \<rparr>],
     cc_indexes_by_name = [''i'' \<mapsto> 17] \<rparr>"

lemma index_cache_file: "index_file_id index_cache 17 = (Ok 6 :: ((dir_error, io_error) disk_error buffer_error accessor_error, u32) outcome)"
  by (simp add: index_cache_def index_file_id_def get_index_by_oid_def ok_or_def)

lemma key_two: "key_from_bytes [2] = 2"
proof -
  have "replicate 7 (0 :: byte) = [0, 0, 0, 0, 0, 0, 0]" by (simp add: eval_nat_numeral)
  then show ?thesis by (simp add: key_from_bytes_def u64_of_def)
qed

text \<open>C38: A client of an index stored on the disk, which may be empty, is answered from its entries in the order of their
keys: a lookup gives the record of the key or says that there is none; a scan gives entries of the range in order from the
first one on, without a gap, and all of them if no end is given; the first insertion adds its entry, and a deletion takes
exactly its own; whatever pages the entries are in and whatever the pool evicts. A request is otherwise refused for want of
a frame and changes nothing. The run ends early only at an insertion into an index with a root or without room on the disk,
and at a deletion that would merge leaves. A flush afterwards puts the index with these entries on the disk.\<close>

theorem index_answers_like_entries:
  assumes "visits_all iter" "\<forall>S. finite S \<longrightarrow> S \<noteq> {} \<longrightarrow> pick S \<in> S"
    "table_disk d m" "stored_index d m file T"
    "index_file_id c oid = (Ok file :: ((dir_error, io_error) disk_error buffer_error accessor_error, u32) outcome)"
    "0 < k" "length rs * (2 * index_pages T + 4) < 2 ^ 64 - 1"
  shows "\<exists>done rest as s t m' T'. rs = done @ rest \<and>
    index_serve pick btree_disk_ops (lruk_ops iter) c oid done (pool_new n d (lk_new k)) = Some (as, s) \<and>
    entries_serve (index_entries T) done as (index_entries T') \<and>
    flush_all_dirty_frames btree_disk_ops s = Some (Ok (), t) \<and> table_disk (bp_disk t) m' \<and> stored_index (bp_disk t) m' file T' \<and>
    (rest = [] \<or> out_of_scope T' (can_add (bp_disk s) m') (hd rest))"
  by (rule lruk_pool.index_requests [OF any_pool [OF assms(1,2)] assms(3-7)])

definition some_index_requests :: "index_request list" where
  "some_index_requests = [AddKey [2] \<lparr> rid_page = 30, rid_slot = 1 \<rparr>, FindKey [2], RemoveKey [2] \<lparr> rid_page = 30, rid_slot = 1 \<rparr>, ScanKeys None None]"

theorem index_answers_like_entries_witness:
  "\<exists>d m done rest as s t m' T'. table_disk d m \<and> can_add d m \<and> stored_index d m 6 None \<and> some_index_requests = done @ rest \<and>
    index_serve Min btree_disk_ops (lruk_ops by_number) index_cache 17 done (pool_new 2 d (lk_new 2)) = Some (as, s) \<and>
    entries_serve [] done as (index_entries T') \<and> flush_all_dirty_frames btree_disk_ops s = Some (Ok (), t) \<and> stored_index (bp_disk t) m' 6 T' \<and>
    (rest = [] \<or> out_of_scope T' (can_add (bp_disk s) m') (hd rest))"
proof -
  obtain d m where d: "table_disk d m" "stored_index d m 6 None" "can_add d m" by (rule empty_stored)
  have b: "(0 :: nat) < 2" "length some_index_requests * (2 * index_pages None + 4) < 2 ^ 64 - 1"
    by (simp_all add: some_index_requests_def)
  from index_answers_like_entries [OF some_order d(1,2) index_cache_file b, of 2] d show ?thesis
    unfolding index_entries_simps by blast
qed

text \<open>C39: An insertion that finds room in the root leaf is acknowledged and not written back: flushing the dirty frames
writes nothing, and a server that starts from the disk does not find the key.\<close>

theorem index_insert_not_written:
  assumes "visits_all iter" "\<forall>S. finite S \<longrightarrow> S \<noteq> {} \<longrightarrow> pick S \<in> S"
    "table_disk d m" "stored_index d m file (Some (Leaf l es))"
    "index_file_id c oid = (Ok file :: ((dir_error, io_error) disk_error buffer_error accessor_error, u32) outcome)"
    "0 < k" "key_from_bytes key \<notin> bl_key ` set es" "length es < 253" "2 \<le> n" "3 \<le> n'" "n' < 2 ^ 64 - 1"
  shows "\<exists>s t. index_insert pick btree_disk_ops (lruk_ops iter) c oid key rid (pool_new n d (lk_new k)) = Some (Ok (), s) \<and>
    flush_all_dirty_frames btree_disk_ops s = Some (Ok (), s) \<and>
    index_get pick btree_disk_ops (lruk_ops iter) c oid key (pool_new n' (bp_disk s) (lk_new k)) = Some (Err TupleNonExistent, t)"
proof -
  note pool = any_pool [OF assms(1,2)]
  obtain s where s: "index_insert pick btree_disk_ops (lruk_ops iter) c oid key rid (pool_new n d (lk_new k)) = Some (Ok (), s)"
    "flush_all_dirty_frames btree_disk_ops s = Some (Ok (), s)" "table_disk (bp_disk s) m" "stored_index (bp_disk s) m file (Some (Leaf l es))"
    using lruk_pool.index_insert_lost [OF pool assms(3-9), of rid] by blast
  have "index_lookup (Some (Leaf l es)) (key_from_bytes key) = (Err TupleNonExistent :: ((dir_error, io_error) disk_error buffer_error accessor_error, record_id) outcome)"
    using assms(7) find_entry_None [of bl_key "key_from_bytes key" es] by (simp add: index_lookup_def)
  moreover have "index_pages (Some (Leaf l es)) + 2 \<le> n'" using assms(10) by simp
  ultimately obtain t where "index_get pick btree_disk_ops (lruk_ops iter) c oid key (pool_new n' (bp_disk s) (lk_new k)) = Some (Err TupleNonExistent, t)"
    using lruk_pool.index_found [OF pool s(3,4) assms(5,6) _ assms(11), of key] by auto
  with s(1,2) show ?thesis by blast
qed

theorem index_insert_not_written_witness:
  "\<exists>d m s t. table_disk d m \<and> stored_index d m 6 (Some one_leaf) \<and>
    index_insert Min btree_disk_ops (lruk_ops by_number) index_cache 17 [2] \<lparr> rid_page = 30, rid_slot = 1 \<rparr> (pool_new 4 d (lk_new 2)) = Some (Ok (), s) \<and>
    flush_all_dirty_frames btree_disk_ops s = Some (Ok (), s) \<and>
    index_get Min btree_disk_ops (lruk_ops by_number) index_cache 17 [2] (pool_new 4 (bp_disk s) (lk_new 2)) = Some (Err TupleNonExistent, t)"
proof -
  obtain d m where d: "table_disk d m" "stored_index d m 6 (Some one_leaf)" by (rule one_leaf_stored)
  have k: "(0 :: nat) < 2" "key_from_bytes [2] \<notin> bl_key ` set [btree_leaf_entry_new 1 30 0]" "length [btree_leaf_entry_new 1 30 0] < 253"
    "(2 :: nat) \<le> 4" "(3 :: nat) \<le> 4" "(4 :: nat) < 2 ^ 64 - 1"
    by (simp_all add: key_two)
  from index_insert_not_written [OF some_order d(1) d(2) [unfolded one_leaf_def] index_cache_file k, of "\<lparr> rid_page = 30, rid_slot = 1 \<rparr>"] d
  show ?thesis by blast
qed

text \<open>C40: A deletion that leaves a leaf below the root with few entries does not return: with the write latch of the leaf
held it merges leaves, for which it waits for the write latch of that same leaf.\<close>

theorem index_delete_never_returns:
  assumes "visits_all iter" "\<forall>S. finite S \<longrightarrow> S \<noteq> {} \<longrightarrow> pick S \<in> S"
    "table_disk d m" "stored_index d m file (Some u)"
    "index_file_id c oid = (Ok file :: ((dir_error, io_error) disk_error buffer_error accessor_error, u32) outcome)"
    "separated u" "u = Node i t0 ts" "e \<in> set (flat u)" "\<forall>(l, es)\<in>set (leaves u). e \<in> set es \<longrightarrow> length es \<le> 126" "key_from_bytes key = bl_key e"
    "0 < k" "length (ids u) + 4 \<le> n" "n < 2 ^ 64 - 1"
  shows "index_delete pick btree_disk_ops (lruk_ops iter) c oid key \<lparr> rid_page = record_page e, rid_slot = record_slot e \<rparr> (pool_new n d (lk_new k)) = None"
  by (rule lruk_pool.index_delete_waits [OF any_pool [OF assms(1,2)] assms(3-13)])

theorem index_delete_never_returns_witness:
  "\<exists>d m. table_disk d m \<and> stored_index d m 6 (Some two_leaves) \<and>
    index_delete Min btree_disk_ops (lruk_ops by_number) index_cache 17 [2] \<lparr> rid_page = 30, rid_slot = 1 \<rparr> (pool_new 9 d (lk_new 2)) = None"
proof -
  obtain d m where d: "table_disk d m" "stored_index d m 6 (Some two_leaves)" by (rule two_leaves_stored)
  let ?e = "btree_leaf_entry_new 2 30 1"
  have t: "separated two_leaves" "?e \<in> set (flat two_leaves)" "\<forall>(l, es)\<in>set (leaves two_leaves). ?e \<in> set es \<longrightarrow> length es \<le> 126"
    "length (ids two_leaves) + 4 \<le> 9" by (simp_all add: two_leaves_def)
  have k: "key_from_bytes [2] = bl_key ?e" "(0 :: nat) < 2" "(9 :: nat) < 2 ^ 64 - 1"
    by (simp_all add: key_two)
  have r: "record_page ?e = 30" "record_slot ?e = 1" by (simp_all add: btree_leaf_entry_new_def)
  from index_delete_never_returns [OF some_order d index_cache_file t(1) two_leaves_def t(2,3) k(1,2) t(4) k(3)] r d show ?thesis by auto
qed

end
