(* ===== verification/Spec2Isabelle.thy ===== *)
theory Spec2Isabelle
  imports DirLeaf DirInner IdxLeaf IdxInner SlottedPage FileHeaders Disk Visibility Evictor OptimizerClaims Layout BinderScopes Session PoolClaims HeapClaims IndexClaims
begin

text \<open>
  A verification development of \<^bold>\<open>abdb\<close>, a relational database server written in Rust (\<open>src/src\<close>).

  \<^bold>\<open>The program.\<close> A TCP server gives every connection a session, which parses each line, runs the
  transaction statements and hands the others to the binder. The binder resolves names and types against
  the catalog, the planner makes a logical plan, the optimizer a physical plan (there is no executor yet).
  Below, rows are laid out as bytes with a version header, kept in the slotted pages of heap files and
  found by the B-trees of indexes; pages are cached by a buffer pool with an LRU-K policy, which reads
  and writes them through a disk manager. The disk manager finds a page's place with the page directory,
  a B-tree in a file of its own, and gets new places from an allocator. Each of these parts is one or more
  theories; a part that is generic in another (the disk manager in directory and allocator, the pool in
  disk and policy) takes a record of the other's operations, its contract is a locale, and the
  provider's theory interprets the locale on the model's own definitions.

  \<^bold>\<open>Conventions\<close> (\<open>Prelude\<close>). A fallible function returns \<open>('e, 'a) outcome\<close>: \<open>Ok\<close>, \<open>Err\<close> or \<open>Panic\<close>
  (failed slices, \<open>unwrap\<close>, \<open>expect\<close>, \<open>assert!\<close>, \<open>todo!\<close>). A stateful operation maps a state to its
  outcome and the state it leaves; \<open>None\<close> is an operation that does not return. Integers are words of
  their width. A page is the list of its bytes, and structures are read and written at the offsets the
  \<open>repr(C)\<close> layouts give them. Operations are modelled one call at a time.

  \<^bold>\<open>Pages\<close> (\<open>src/src/page\<close>).
  \<open>PageHeader\<close>: \<open>header.rs\<close>, \<open>overlays/unknown.rs\<close>, \<open>overlays/unused.rs\<close>, constants and ids.
  \<open>SortedEntries\<close>, \<open>EntryPage\<close>, \<open>TreeHeaders\<close>: what the four B-tree overlays share: sorted
  arrays of entries, the two binary searches with their termination, and the type-specific headers.
  \<open>DirLeaf\<close>, \<open>DirInner\<close>, \<open>IdxLeaf\<close>, \<open>IdxInner\<close>: \<open>overlays/directory/leaf.rs\<close>, \<open>directory/inner.rs\<close>,
  \<open>index/btree_leaf.rs\<close>, \<open>index/btree_inner.rs\<close>; they prove that a leaf is a bounded sorted map and that
  an inner page routes each key to the child of its interval.
  \<open>SlottedPage\<close>: \<open>overlays/table/heap_page.rs\<close>, which refines a numbered list of tuples.
  \<open>FileHeaders\<close>: \<open>overlays/file_header\<close>, page 0 of directory, heap and index files.

  \<^bold>\<open>Page directory and disk\<close> (\<open>src/src/storage\<close>).
  \<open>TreeModel\<close>, \<open>TreePages\<close>: B-trees as values, contexts of a leaf, and pages that hold a tree.
  \<open>Directory\<close>: \<open>directory/directory.rs\<close> with its cache, dirty set, counter and root. \<open>DirPages\<close>,
  \<open>DirTree\<close>, \<open>DirSpec\<close>, \<open>DirFlush\<close>: what its steps do to the pages, the descent (a \<open>partial_function\<close>
  that is proved to end), splits up to the root, that the directory is a map (\<open>dir_rep\<close>), and that flushing
  and opening the file again gives the same map. \<open>DirService\<close>: the trait's contract as a locale, its
  instance, and every sequence of requests. Additions need \<open>dir_room\<close>: the page counter below
  \<open>2 ^ 31\<close>, so that ids of new pages stay valid.
  \<open>Allocator\<close>: \<open>allocator/allocator.rs\<close>. \<open>Disk\<close>: \<open>disk.rs\<close>, over any directory and allocator that keep
  their contracts.

  \<^bold>\<open>Buffer pool\<close> (\<open>src/src/buffer\<close>).
  \<open>Evictor\<close>: \<open>evictor/lruk_evictor.rs\<close>; the victim it chooses, and that its state is the last K
  accesses of every frame, while the 64-bit clock does not wrap (\<open>lk_ok n\<close>: \<open>n\<close> more accesses fit).
  \<open>BufferPool\<close>: \<open>impl/buffer_pool.rs\<close> and \<open>impl/guard.rs\<close>: pins, latches, eviction, the four fetches, new
  pages, flushing and guards. \<open>PoolInvariant\<close>: what the pool asks of a disk (locale \<open>page_store\<close>), the
  invariant of a pool while guards are held, and that each operation keeps it; the loops of \<open>evict\<close> and of the
  fetches, which are \<open>partial_function\<close>s, are proved to return. \<open>PoolClaims\<close>: over the disk and LRU-K, a
  pool answers like a map of pages, and when it refuses.

  \<^bold>\<open>Rows\<close> (\<open>src/src/databox\<close>, \<open>src/src/accessor\<close>, \<open>src/src/catalog\<close>).
  \<open>Floats\<close>, \<open>Databox\<close>: \<open>databox.rs\<close>: values, their bytes, casts and order; floats as bits.
  \<open>Layout\<close>: \<open>layout.rs\<close>: where fields are, and that writing one leaves the others.
  \<open>PoolAccess\<close>: how accessors use guards. \<open>HeapAccess\<close>: \<open>accessor/heap.rs\<close>, rows in a chain of heap pages.
  \<open>BtreeAccess\<close>: \<open>accessor/btree.rs\<close>, the B-tree of an index with the guards its operations hold; both with
  the operations of \<open>accessor/accessor_impl.rs\<close> that call them. \<open>AccessRules\<close>: what a use of a guarded page
  does to a pool that keeps the invariant. \<open>HeapVersions\<close>, \<open>HeapTable\<close>, \<open>HeapClaims\<close>: a heap page as
  a list of versions, a file as its chain of pages, and that a client of a table is answered like the list of
  its rows. \<open>TreeSearch\<close>, \<open>IndexPages\<close>: the descent and the leaves of a tree in pages. \<open>PoolSpare\<close>: how
  many vacant frames an operation needs so as not to be refused. \<open>IndexTable\<close>: what lookups and scans of an
  index answer. \<open>IndexWrites\<close>: the insertion into a root leaf and the deletion that merges. \<open>IndexChanges\<close>:
  the first insertion and deletions without a merge. \<open>IndexStore\<close>: disks that hold a given index.
  \<open>IndexClaims\<close>: a client of an index is answered from its entries in order; an insertion that is not
  written back and a deletion that does not return. That a split of a full leaf keeps the entries is not
  shown, as the insertions before it are not marked. The bound on the number of requests in these
  theorems is that of the clock of LRU-K.
  \<open>Visibility\<close>: \<open>accessor/visibility.rs\<close>, \<open>common/txn.rs\<close>: which versions a transaction sees.
  \<open>Catalog\<close>, \<open>CatalogCache\<close>: \<open>catalog/catalog.rs\<close>, \<open>catalog/schema.rs\<close>, \<open>accessor/catalog_cache.rs\<close>: the
  catalog's records and the cache, which answers as the log of registrations.

  \<^bold>\<open>Statements\<close> (\<open>src/src/parser/ast.rs\<close>, \<open>src/src/binder\<close>, \<open>src/src/planner\<close>, \<open>src/src/optimizer\<close>).
  \<open>Ast\<close>, \<open>Bound\<close>: parsed and bound statements. \<open>Binder\<close>: \<open>binder.rs\<close>, \<open>scope.rs\<close>, \<open>error.rs\<close>.
  \<open>BinderClaims\<close>, \<open>BinderScopes\<close>: panics, the types of bound values, what \<open>CREATE TABLE\<close> binds, and the
  well-scopedness and well-typedness of every bound query at every depth.
  \<open>Planner\<close>: \<open>planner/\<close>; \<open>Optimizer\<close>: \<open>optimizer/\<close>. \<open>PlanSemantics\<close> is a reference meaning of plans (the
  repository has no executor), with the meaning of operators as a record and what is relied on as \<open>sql_laws\<close>;
  \<open>QueryRows\<close> is a reference meaning of a SELECT over its clauses, and shows that the planner keeps it.
  \<open>OptimizerCorrect\<close>, \<open>OptimizerClaims\<close>: when the optimizer keeps the rows, a join whose rows it loses, and
  examples where it changes them.

  \<^bold>\<open>Sessions\<close>. \<open>Session\<close>: \<open>transaction/mod.rs\<close>, \<open>session.rs\<close>, \<open>error.rs\<close>, and the connection loop of
  \<open>server/tcp.rs\<close> as an inductive step relation whose reachable states are described by an invariant.

  \<^bold>\<open>Parameters.\<close> The order in which hash maps and sets are iterated (\<open>visits_all\<close>, \<open>pick\<close>), addresses
  where alignment matters, the parser of a line (it translates the tree of the \<open>sqlparser\<close> crate), Unicode
  lower-casing and the printing of floats (standard library), the allocator of object ids (a trait without
  implementation) and the meaning of plan operators.

  \<^bold>\<open>Not modelled.\<close> \<open>parser/mod.rs\<close>: the types it consumes belong to the \<open>sqlparser\<close> crate. \<open>wal/\<close>: a trait
  without implementation.
  Interleavings of several threads inside one operation; failures of the operating system other than
  missing data (after a failed read a frame keeps its bytes, where \<open>read_exact\<close> may leave a part); sockets and the
  reading of lines. A table's or index's disk has room (\<open>can_add\<close>) only while \<open>next_lpage_id\<close> is not 0, as
  page 0 ends a chain; the server starts the counter at 0, so its first new page is outside these theorems.
\<close>

end
